(* ===== verification/Prelude.thy ===== *)
theory Prelude
  imports Main "HOL-Library.Word" "HOL-Library.Monad_Syntax"
begin

text \<open>
  Shared vocabulary of the development: the machine types of \<^verbatim>\<open>platform.h\<close>
  (MSVC, 32-bit Windows: \<open>int\<close>, \<open>unsigned int\<close>, \<open>long\<close> and pointers all have
  32 bits), x86 shifts, byte blocks with bounds-checked access, and the bit-level view
  of a byte block that every codec of the program is specified against.

  A C++ operation that may go wrong in a way the language leaves undefined (a read or
  write outside its block, a null dereference) or that runs into a failed
  \<^verbatim>\<open>assert\<close> is an \<open>option\<close> computation: \<open>None\<close> is that outcome and nothing else.
  Results the code itself reports (an overflow flag, a null or zero return) are ordinary
  values.
\<close>

unbundle bit_operations_syntax

subsection \<open>Machine types\<close>

type_synonym u8 = "8 word"
type_synonym u16 = "16 word"
type_synonym u32 = "32 word"
type_synonym u64 = "64 word"

named_theorems stream_bit_simps \<open>bitwise characterisations of stream reads\<close>
named_theorems safe_intros \<open>operations that return a value\<close>

lemmas [stream_bit_simps] =
  bit_and_iff bit_or_iff bit_xor_iff bit_drop_bit_eq bit_push_bit_iff bit_mask_iff bit_take_bit_iff

text \<open>
  Shifts of 32-bit operands. The x86 shift instructions use the low five bits of the
  count, so a count of 32 leaves the operand unchanged.
\<close>

definition shl32 :: "u32 \<Rightarrow> int \<Rightarrow> u32" where
  "shl32 w k = push_bit (nat (k mod 32)) w"

definition shr32 :: "u32 \<Rightarrow> int \<Rightarrow> u32" where
  "shr32 w k = drop_bit (nat (k mod 32)) w"

definition sar32 :: "u32 \<Rightarrow> int \<Rightarrow> u32" where
  "sar32 w k = signed_drop_bit (nat (k mod 32)) w"

lemma shl32_small [simp]: "0 \<le> k \<Longrightarrow> k < 32 \<Longrightarrow> shl32 w k = push_bit (nat k) w"
  by (simp add: shl32_def)

lemma shr32_small [simp]: "0 \<le> k \<Longrightarrow> k < 32 \<Longrightarrow> shr32 w k = drop_bit (nat k) w"
  by (simp add: shr32_def)

lemma sar32_small [simp]: "0 \<le> k \<Longrightarrow> k < 32 \<Longrightarrow> sar32 w k = signed_drop_bit (nat k) w"
  by (simp add: sar32_def)

text \<open>
  Signed 32-bit arithmetic: \<open>i32 x\<close> is the \<open>int\<close> that an \<open>x\<close> computed with 32-bit
  operations becomes, and \<open>cdiv\<close> is C++ division, which truncates towards zero.
\<close>

definition i32 :: "int \<Rightarrow> int" where
  "i32 x = signed_take_bit 31 x"

definition cdiv :: "int \<Rightarrow> int \<Rightarrow> int" where
  "cdiv a b = sgn a * sgn b * (\<bar>a\<bar> div \<bar>b\<bar>)"

lemma i32_id [simp]: "- (2 ^ 31) \<le> x \<Longrightarrow> x < 2 ^ 31 \<Longrightarrow> i32 x = x"
  by (simp add: i32_def signed_take_bit_int_eq_self)

lemma i32_wrap: "2 ^ 31 \<le> x \<Longrightarrow> x < 2 ^ 32 \<Longrightarrow> i32 x = x - 2 ^ 32"
proof -
  assume x: "2 ^ 31 \<le> x" "x < 2 ^ 32"
  have "(x + 2 ^ 31) mod 2 ^ 32 = x + 2 ^ 31 - 2 ^ 32"
    using x mod_pos_pos_trivial [of "x + 2 ^ 31 - 2 ^ 32" "2 ^ 32"] mod_diff_right_eq [of "x + 2 ^ 31" "2 ^ 32" "2 ^ 32"] by simp
  then show ?thesis by (simp add: i32_def signed_take_bit_eq_take_bit_shift take_bit_eq_mod)
qed

lemma i32_range: "- (2 ^ 31) \<le> i32 x \<and> i32 x < 2 ^ 31"
  using signed_take_bit_int_greater_eq_minus_exp [of 31 x] signed_take_bit_int_less_exp [of 31 x]
  by (simp add: i32_def)

lemma cdiv_nonneg [simp]: "0 \<le> a \<Longrightarrow> 0 < b \<Longrightarrow> cdiv a b = a div b"
  by (cases "a = 0") (simp_all add: cdiv_def)

lemma word_room: "(a::int) \<le> e \<Longrightarrow> a \<noteq> e \<Longrightarrow> a mod 4 = e mod 4 \<Longrightarrow> a + 4 \<le> e"
  by presburger

lemma and_31 [simp]: "(x::int) AND 31 = x mod 32"
proof -
  have "x AND 31 = take_bit 5 x" by (simp add: take_bit_eq_mask mask_eq_exp_minus_1)
  then show ?thesis by (simp add: take_bit_eq_mod)
qed

subsection \<open>Counting loops\<close>

text \<open>
  \<open>foldM f xs s\<close> is a \<open>for\<close> loop over the indices \<open>xs\<close> whose body may fault; \<open>foldM_upt\<close>
  is the loop-invariant rule for it, with the invariant indexed by the loop counter.
\<close>

primrec foldM :: "('x \<Rightarrow> 's \<Rightarrow> 's option) \<Rightarrow> 'x list \<Rightarrow> 's \<Rightarrow> 's option" where
  "foldM f [] s = Some s"
| "foldM f (x # xs) s = Option.bind (f x s) (foldM f xs)"

lemma foldM_append: "foldM f (xs @ ys) s = Option.bind (foldM f xs s) (foldM f ys)"
  by (induction xs arbitrary: s) (auto split: bind_splits)

lemma foldM_upt:
  assumes "P a s" and "a \<le> b"
    and "\<And>i s. a \<le> i \<Longrightarrow> i < b \<Longrightarrow> P i s \<Longrightarrow> \<exists>s'. f i s = Some s' \<and> P (Suc i) s'"
  shows "\<exists>s'. foldM f [a..<b] s = Some s' \<and> P b s'"
  using assms(2,3)
proof (induction b rule: dec_induct)
  case base
  then show ?case using assms(1) by simp
next
  case (step n)
  then obtain s' where s': "foldM f [a..<n] s = Some s'" "P n s'" by auto
  from step.hyps s'(2) obtain s'' where "f n s' = Some s''" "P (Suc n) s''"
    using step.prems [of n s'] by auto
  with s' step.hyps show ?case by (auto simp: foldM_append)
qed

lemma foldM_list:
  assumes "P s" and "\<And>x s. x \<in> set xs \<Longrightarrow> P s \<Longrightarrow> \<exists>s'. f x s = Some s' \<and> P s'"
  shows "\<exists>s'. foldM f xs s = Some s' \<and> P s'"
  using assms by (induction xs arbitrary: s) (fastforce)+

lemma foldM_total: "foldM (\<lambda>x s. Some (f x s)) xs s = Some (fold f xs s)"
  by (induction xs arbitrary: s) auto

subsection \<open>Byte blocks\<close>

text \<open>A block of memory is the list of its bytes; an address is an offset into it.\<close>

definition peek8 :: "u8 list \<Rightarrow> int \<Rightarrow> u8 option" where
  "peek8 m a = (if 0 \<le> a \<and> a < int (length m) then Some (m ! nat a) else None)"

definition poke8 :: "u8 list \<Rightarrow> int \<Rightarrow> u8 \<Rightarrow> u8 list option" where
  "poke8 m a v = (if 0 \<le> a \<and> a < int (length m) then Some (m[nat a := v]) else None)"

text \<open>A 32-bit load: x86 is little-endian, and an unaligned load is allowed.\<close>

definition load32 :: "u8 list \<Rightarrow> int \<Rightarrow> u32 option" where
  "load32 m a = do {
     b0 \<leftarrow> peek8 m a; b1 \<leftarrow> peek8 m (a + 1); b2 \<leftarrow> peek8 m (a + 2); b3 \<leftarrow> peek8 m (a + 3);
     Some (ucast b0 OR push_bit 8 (ucast b1) OR push_bit 16 (ucast b2) OR push_bit 24 (ucast b3)) }"

lemma peek8_Some [simp]: "0 \<le> a \<Longrightarrow> a < int (length m) \<Longrightarrow> peek8 m a = Some (m ! nat a)"
  by (simp add: peek8_def)

lemma peek8_append: "peek8 (pre @ bs) (int (length pre)) = peek8 bs 0" "0 \<le> k \<Longrightarrow> peek8 (pre @ bs) (int (length pre) + k) = peek8 bs k"
  by (auto simp: peek8_def nth_append nat_add_distrib)

lemma peek8_eq_Some: "peek8 m a = Some b \<longleftrightarrow> 0 \<le> a \<and> a < int (length m) \<and> b = m ! nat a"
  by (auto simp: peek8_def)

lemma poke8_Some [simp]: "0 \<le> a \<Longrightarrow> a < int (length m) \<Longrightarrow> poke8 m a v = Some (m[nat a := v])"
  by (simp add: poke8_def)

subsection \<open>The bit stream of a block\<close>

text \<open>
  Bit \<open>j\<close> of a block is bit \<open>j mod 8\<close> of byte \<open>j div 8\<close>; beyond the block there are no
  set bits. \<open>stream_bits m p n\<close> is the number formed by the \<open>n\<close> bits from position
  \<open>p\<close>, least significant first: what a bit reader at position \<open>p\<close> has to return.
\<close>

definition sbit :: "u8 list \<Rightarrow> nat \<Rightarrow> bool" where
  "sbit m j \<longleftrightarrow> j < 8 * length m \<and> bit (m ! (j div 8)) (j mod 8)"

definition stream_bits :: "u8 list \<Rightarrow> nat \<Rightarrow> nat \<Rightarrow> 'a::len word" where
  "stream_bits m p n = horner_sum of_bool 2 (map (\<lambda>i. sbit m (p + i)) [0..<n])"

lemma bit_stream_bits [stream_bit_simps]:
  "bit (stream_bits m p n :: 'a::len word) i \<longleftrightarrow> i < n \<and> i < LENGTH('a) \<and> sbit m (p + i)"
  by (auto simp: stream_bits_def bit_horner_sum_bit_word_iff)

lemma stream_bits_0 [simp]: "stream_bits m p 0 = 0"
  by (simp add: stream_bits_def)

lemma sbit_byte: "k < length m \<Longrightarrow> i < 8 \<Longrightarrow> sbit m (8 * k + i) = bit (m ! k) i"
  by (simp add: sbit_def)

lemma stream_bits_byte:
  assumes "k < length m" and "8 \<le> LENGTH('a)"
  shows "(stream_bits m (8 * k) 8 :: 'a::len word) = ucast (m ! k)"
proof (rule bit_word_eqI)
  fix n assume "n < LENGTH('a)"
  moreover have "bit (m ! k) n \<Longrightarrow> n < 8"
    using bit_imp_le_length [of "m ! k" n] by simp
  ultimately show "bit (stream_bits m (8 * k) 8 :: 'a word) n = bit (ucast (m ! k) :: 'a word) n"
    using assms by (auto simp: stream_bit_simps bit_ucast_iff sbit_byte)
qed

lemma sbit_append: "j < 8 * length xs \<Longrightarrow> sbit (xs @ ys) j = sbit xs j"
  by (auto simp: sbit_def nth_append)

text \<open>A load inside the block yields the 32 stream bits at that offset.\<close>

lemma bit_ucast_byte: "bit (ucast (b::u8) :: u32) i = (i < 8 \<and> bit b i)"
  using bit_imp_le_length [of b i] by (auto simp: bit_ucast_iff)

lemma load32_stream:
  assumes "0 \<le> a" and "a + 4 \<le> int (length m)"
  shows "load32 m a = Some (stream_bits m (8 * nat a) 32)"
proof -
  let ?k = "nat a"
  let ?w = "ucast (m ! ?k) OR push_bit 8 (ucast (m ! Suc ?k)) OR push_bit 16 (ucast (m ! (?k + 2)))
      OR push_bit 24 (ucast (m ! (?k + 3))) :: u32"
  have k: "?k + 3 < length m" using assms by linarith
  have "load32 m a = Some ?w"
    using assms by (simp add: load32_def nat_add_distrib)
  also have "?w = stream_bits m (8 * ?k) 32"
  proof (rule bit_word_eqI)
    fix n assume "n < LENGTH(32)"
    then have n: "n < 32" by simp
    have dm: "sbit m (8 * ?k + n) = bit (m ! (?k + n div 8)) (n mod 8)"
      using n k by (auto simp: sbit_def)
    consider "n < 8" | "8 \<le> n" "n < 16" | "16 \<le> n" "n < 24" | "24 \<le> n" by linarith
    then show "bit ?w n = bit (stream_bits m (8 * ?k) 32 :: u32) n"
    proof cases
      case 1
      then show ?thesis by (simp add: stream_bit_simps bit_ucast_byte dm)
    next
      case 2
      then have "n div 8 = 1" "n mod 8 = n - 8" by (simp_all add: le_mod_geq le_div_geq)
      with 2 show ?thesis by (auto simp: stream_bit_simps bit_ucast_byte dm)
    next
      case 3
      then have "n div 8 = 2" "n mod 8 = n - 16" by (simp_all add: le_mod_geq le_div_geq)
      with 3 show ?thesis by (auto simp: stream_bit_simps bit_ucast_byte dm)
    next
      case 4
      with n have "n div 8 = 3" "n mod 8 = n - 24" by (simp_all add: le_mod_geq le_div_geq)
      with 4 n show ?thesis by (auto simp: stream_bit_simps bit_ucast_byte dm)
    qed
  qed
  finally show ?thesis .
qed

lemma load32_None: "\<not> (0 \<le> a \<and> a + 4 \<le> int (length m)) \<Longrightarrow> load32 m a = None"
  by (auto simp: load32_def peek8_def)

subsection \<open>Splitting and joining stream reads\<close>

lemma stream_bits_mask [stream_bit_simps]:
  "n \<le> k \<Longrightarrow> stream_bits m p k AND mask n = (stream_bits m p n :: 'a::len word)"
  by (rule bit_word_eqI) (auto simp: stream_bit_simps)

lemma stream_bits_drop:
  assumes "k \<le> LENGTH('a)"
  shows "drop_bit n (stream_bits m p k :: 'a::len word) = stream_bits m (p + n) (k - n)"
  using assms by (intro bit_word_eqI) (auto simp: stream_bit_simps add.assoc)

lemma stream_bits_join:
  assumes "a + b \<le> LENGTH('a)"
  shows "stream_bits m p a OR push_bit a (stream_bits m (p + a) b) = (stream_bits m p (a + b) :: 'a::len word)"
proof (rule bit_word_eqI)
  fix i assume "i < LENGTH('a)"
  then show "bit (stream_bits m p a OR push_bit a (stream_bits m (p + a) b) :: 'a word) i
      = bit (stream_bits m p (a + b) :: 'a word) i"
    using assms by (cases "i < a") (auto simp: stream_bit_simps)
qed

lemma stream_bits_beyond: "8 * length m \<le> p \<Longrightarrow> stream_bits m p n = (0 :: 'a::len word)"
  by (rule bit_word_eqI) (auto simp: stream_bit_simps sbit_def)

subsection \<open>Variable-length integers\<close>

text \<open>
  The base-128 encoding of a number, least significant group first, every byte but the
  last with its top bit set. The game's packet headers and the protobuf wire format share it.
\<close>

fun varint_bytes :: "nat \<Rightarrow> u8 list" where
  "varint_bytes x = (if x < 128 then [of_nat x] else of_nat (x mod 128 + 128) # varint_bytes (x div 128))"

declare varint_bytes.simps [simp del]

lemma varint_bytes_nonempty [simp]: "varint_bytes x \<noteq> []"
  by (subst varint_bytes.simps) simp

lemma varint_bytes_length: "x < 128 ^ Suc k \<Longrightarrow> length (varint_bytes x) \<le> Suc k"
proof (induction k arbitrary: x)
  case 0
  then show ?case by (simp add: varint_bytes.simps)
next
  case (Suc k)
  have "x div 128 < 128 ^ Suc k" using Suc.prems by (simp add: less_mult_imp_div_less mult.commute)
  from Suc.IH [OF this] show ?case by (subst varint_bytes.simps) simp
qed

end
