(* ===== verification/BitRead.thy ===== *)
theory BitRead
  imports Prelude
begin

text \<open>
  The bit reader \<^verbatim>\<open>CBitRead\<close> of \<^verbatim>\<open>packetbitbuf.h\<close> and \<^verbatim>\<open>packetbitbuf.cpp\<close>: its
  state, its operations in source order, the invariant that ties the buffered word to a
  position in the byte block, and the refinement of the word-at-a-time reader to the bit
  stream \<open>stream_bits\<close>.

  Pointers into the data are byte offsets from \<open>m_pData\<close>; \<open>m_pData\<close> itself is the block
  it points to, or \<open>None\<close> for a null pointer.
\<close>

subsection \<open>State\<close>

record CBitRead =
  m_nInBufWord :: u32
  m_nBitsAvail :: int
  m_pDataIn :: int
  m_pBufferEnd :: int
  m_pData :: "u8 list option"
  m_bOverflow :: bool
  m_nDataBits :: int
  m_nDataBytes :: nat

definition s_nMaskTable :: "u32 list" where
  "s_nMaskTable = [0,
     push_bit 1 1 - 1, push_bit 2 1 - 1, push_bit 3 1 - 1, push_bit 4 1 - 1, push_bit 5 1 - 1,
     push_bit 6 1 - 1, push_bit 7 1 - 1, push_bit 8 1 - 1, push_bit 9 1 - 1, push_bit 10 1 - 1,
     push_bit 11 1 - 1, push_bit 12 1 - 1, push_bit 13 1 - 1, push_bit 14 1 - 1, push_bit 15 1 - 1,
     push_bit 16 1 - 1, push_bit 17 1 - 1, push_bit 18 1 - 1, push_bit 19 1 - 1, push_bit 20 1 - 1,
     push_bit 21 1 - 1, push_bit 22 1 - 1, push_bit 23 1 - 1, push_bit 24 1 - 1, push_bit 25 1 - 1,
     push_bit 26 1 - 1, push_bit 27 1 - 1, push_bit 28 1 - 1, push_bit 29 1 - 1, push_bit 30 1 - 1,
     0x7fffffff, 0xffffffff]"

definition mask_at :: "int \<Rightarrow> u32 option" where
  "mask_at n = (if 0 \<le> n \<and> n < 33 then Some (s_nMaskTable ! nat n) else None)"

subsection \<open>Position, fetching and single bits\<close>

definition SetOverflowFlag :: "CBitRead \<Rightarrow> CBitRead" where
  "SetOverflowFlag s = s\<lparr>m_bOverflow := True\<rparr>"

definition IsOverflowed :: "CBitRead \<Rightarrow> bool" where
  "IsOverflowed s = m_bOverflow s"

definition TotalBytesAvailable :: "CBitRead \<Rightarrow> nat" where
  "TotalBytesAvailable s = m_nDataBytes s"

definition GetNumBitsRead :: "CBitRead \<Rightarrow> int" where
  "GetNumBitsRead s =
     (if m_pData s = None then 0
      else let nCurOfs = i32 (i32 ((cdiv (m_pDataIn s) 4 - 1) * 32) + (32 - m_nBitsAvail s));
               nAdjust = 8 * int (m_nDataBytes s mod 4)
           in min (i32 (nCurOfs + nAdjust)) (m_nDataBits s))"

definition GetNumBytesRead :: "CBitRead \<Rightarrow> int" where
  "GetNumBytesRead s = drop_bit 3 (i32 (GetNumBitsRead s + 7))"

definition Tell :: "CBitRead \<Rightarrow> int" where
  "Tell s = GetNumBitsRead s"

definition GetNumBitsLeft :: "CBitRead \<Rightarrow> int" where
  "GetNumBitsLeft s = i32 (m_nDataBits s - Tell s)"

definition GetNumBytesLeft :: "CBitRead \<Rightarrow> int" where
  "GetNumBytesLeft s = drop_bit 3 (GetNumBitsLeft s)"

definition GrabNextDWord :: "bool \<Rightarrow> CBitRead \<Rightarrow> CBitRead option" where
  "GrabNextDWord bOverFlowImmediately s =
     (if m_pDataIn s = m_pBufferEnd s then
        let s1 = s\<lparr>m_nBitsAvail := 1, m_nInBufWord := 0, m_pDataIn := m_pDataIn s + 4\<rparr>
        in Some (if bOverFlowImmediately then SetOverflowFlag s1 else s1)
      else if m_pDataIn s > m_pBufferEnd s then
        Some ((SetOverflowFlag s)\<lparr>m_nInBufWord := 0\<rparr>)
      else do {
        m \<leftarrow> m_pData s;
        w \<leftarrow> load32 m (m_pDataIn s);
        Some (s\<lparr>m_nInBufWord := w, m_pDataIn := m_pDataIn s + 4\<rparr>) })"

definition FetchNext :: "CBitRead \<Rightarrow> CBitRead option" where
  "FetchNext s = GrabNextDWord False (s\<lparr>m_nBitsAvail := 32\<rparr>)"

definition ReadOneBit :: "CBitRead \<Rightarrow> (u32 \<times> CBitRead) option" where
  "ReadOneBit s =
     (let nRet = m_nInBufWord s AND 1;
          s1 = s\<lparr>m_nBitsAvail := m_nBitsAvail s - 1\<rparr>
      in if m_nBitsAvail s1 = 0 then do { s2 \<leftarrow> FetchNext s1; Some (nRet, s2) }
         else Some (nRet, s1\<lparr>m_nInBufWord := shr32 (m_nInBufWord s1) 1\<rparr>))"

definition ReadBit :: "CBitRead \<Rightarrow> (u32 \<times> CBitRead) option" where
  "ReadBit s =
     (let nRet = m_nInBufWord s AND 1;
          v10 = (m_nBitsAvail s = 1);
          s1 = s\<lparr>m_nBitsAvail := m_nBitsAvail s - 1\<rparr>
      in if v10 then
           let s2 = s1\<lparr>m_nBitsAvail := 32\<rparr>;
               s3 = (if m_pDataIn s2 = m_pBufferEnd s2
                     then s2\<lparr>m_nBitsAvail := 1, m_nInBufWord := 0, m_pDataIn := m_pDataIn s2 + 4\<rparr>
                     else s2);
               s4 = (if m_pDataIn s3 > m_pBufferEnd s3
                     then s3\<lparr>m_bOverflow := True, m_nInBufWord := 0\<rparr> else s3)
           in do {
             m \<leftarrow> m_pData s4;
             w \<leftarrow> load32 m (m_pDataIn s4);
             Some (nRet, s4\<lparr>m_nInBufWord := w, m_pDataIn := m_pDataIn s4 + 4\<rparr>) }
         else Some (nRet, s1\<lparr>m_nInBufWord := shr32 (m_nInBufWord s1) 1\<rparr>))"

subsection \<open>Multi-bit reads\<close>

definition ReadUBitLong :: "int \<Rightarrow> CBitRead \<Rightarrow> (u32 \<times> CBitRead) option" where
  "ReadUBitLong numbits s =
     (if m_nBitsAvail s \<ge> numbits then do {
        mask \<leftarrow> mask_at numbits;
        let nRet = m_nInBufWord s AND mask;
        let s1 = s\<lparr>m_nBitsAvail := m_nBitsAvail s - numbits\<rparr>;
        if m_nBitsAvail s1 \<noteq> 0
        then Some (nRet, s1\<lparr>m_nInBufWord := shr32 (m_nInBufWord s1) numbits\<rparr>)
        else do { s2 \<leftarrow> FetchNext s1; Some (nRet, s2) } }
      else do {
        let nRet = m_nInBufWord s;
        let numbits' = numbits - m_nBitsAvail s;
        s1 \<leftarrow> GrabNextDWord True s;
        if m_bOverflow s1 then Some (0, s1)
        else do {
          mask \<leftarrow> mask_at numbits';
          let nRet' = nRet OR shl32 (m_nInBufWord s1 AND mask) (m_nBitsAvail s1);
          Some (nRet', s1\<lparr>m_nBitsAvail := 32 - numbits',
                          m_nInBufWord := shr32 (m_nInBufWord s1) numbits'\<rparr>) } })"

definition ReadSBitLong :: "int \<Rightarrow> CBitRead \<Rightarrow> (int \<times> CBitRead) option" where
  "ReadSBitLong numbits s = do {
     (nRet, s') \<leftarrow> ReadUBitLong numbits s;
     Some (sint (sar32 (shl32 nRet (32 - numbits)) (32 - numbits)), s') }"

definition ReadVarUBit :: "CBitRead \<Rightarrow> (u32 \<times> CBitRead) option" where
  "ReadVarUBit s = do {
     (ret, s1) \<leftarrow> ReadUBitLong 7 s;
     let c = ret AND 0x60;
     if c = 32 then do { (v, s2) \<leftarrow> ReadUBitLong 2 s1; Some (32 * v OR (ret AND 0xFFFFFF9F), s2) }
     else if c = 64 then do { (v, s2) \<leftarrow> ReadUBitLong 4 s1; Some (32 * v OR (ret AND 0xFFFFFF9F), s2) }
     else if c = 96 then do { (v, s2) \<leftarrow> ReadUBitLong 7 s1; Some (32 * v OR (ret AND 0xFFFFFF9F), s2) }
     else Some (ret, s1) }"

definition ReadUBitVar :: "CBitRead \<Rightarrow> (u32 \<times> CBitRead) option" where
  "ReadUBitVar s = do {
     (ret, s1) \<leftarrow> ReadUBitLong 6 s;
     let c = ret AND (16 OR 32);
     if c = 16 then do {
       (v, s2) \<leftarrow> ReadUBitLong 4 s1; let r = (ret AND 15) OR shl32 v 4;
       if r \<ge> 16 then Some (r, s2) else None }
     else if c = 32 then do {
       (v, s2) \<leftarrow> ReadUBitLong 8 s1; let r = (ret AND 15) OR shl32 v 4;
       if r \<ge> 256 then Some (r, s2) else None }
     else if c = 48 then do {
       (v, s2) \<leftarrow> ReadUBitLong (32 - 4) s1; let r = (ret AND 15) OR shl32 v 4;
       if r \<ge> 4096 then Some (r, s2) else None }
     else Some (ret, s1) }"

definition ReadChar :: "CBitRead \<Rightarrow> (int \<times> CBitRead) option" where
  "ReadChar s = ReadSBitLong 8 s"

definition ReadByte :: "CBitRead \<Rightarrow> (u32 \<times> CBitRead) option" where
  "ReadByte s = ReadUBitLong 8 s"

definition ReadShort :: "CBitRead \<Rightarrow> (int \<times> CBitRead) option" where
  "ReadShort s = ReadSBitLong 16 s"

definition ReadWord :: "CBitRead \<Rightarrow> (u32 \<times> CBitRead) option" where
  "ReadWord s = ReadUBitLong 16 s"

subsection \<open>Seeking and starting\<close>

definition Seek :: "int \<Rightarrow> CBitRead \<Rightarrow> (bool \<times> CBitRead) option" where
  "Seek nPosition0 s0 =
     (let bad = (nPosition0 < 0 \<or> nPosition0 > m_nDataBits s0);
          s = (if bad then SetOverflowFlag s0 else s0);
          nPosition = (if bad then m_nDataBits s0 else nPosition0);
          nHead = int (m_nDataBytes s mod 4);
          nByteOfs = cdiv nPosition 8
      in if m_nDataBytes s < 4 \<or> (nHead \<noteq> 0 \<and> nByteOfs < nHead) then do {
           (w, pPartial) \<leftarrow> (case m_pData s of
               None \<Rightarrow> Some (m_nInBufWord s, 0)
             | Some m \<Rightarrow> do {
                 b0 \<leftarrow> peek8 m 0;
                 b1 \<leftarrow> (if nHead > 1 then peek8 m 1 else Some 0);
                 b2 \<leftarrow> (if nHead > 2 then peek8 m 2 else Some 0);
                 Some (ucast b0 OR push_bit 8 (ucast b1) OR push_bit 16 (ucast b2),
                       1 + (if nHead > 1 then 1 else 0) + (if nHead > 2 then 1 else 0)) });
           Some (\<not> bad, s\<lparr>m_pDataIn := pPartial, m_nInBufWord := shr32 w (nPosition AND 31),
                          m_nBitsAvail := 8 * nHead - (nPosition AND 31)\<rparr>) }
         else do {
           let nAdjPosition = nPosition - 8 * nHead;
           let s1 = s\<lparr>m_pDataIn := cdiv nAdjPosition 32 * 4 + nHead\<rparr>;
           s2 \<leftarrow> (if m_pData s1 \<noteq> None then GrabNextDWord False (s1\<lparr>m_nBitsAvail := 32\<rparr>)
                 else Some (s1\<lparr>m_nInBufWord := 0, m_nBitsAvail := 1\<rparr>));
           Some (\<not> bad, s2\<lparr>m_nInBufWord := shr32 (m_nInBufWord s2) (nAdjPosition AND 31),
                          m_nBitsAvail := min (m_nBitsAvail s2) (32 - (nAdjPosition AND 31))\<rparr>) })"

definition SeekRelative :: "int \<Rightarrow> CBitRead \<Rightarrow> (bool \<times> CBitRead) option" where
  "SeekRelative nOffset s = Seek (i32 (GetNumBitsRead s + nOffset)) s"

text \<open>
  \<open>StartReading\<close> takes the block, the number of bytes of it to use, the start bit and the
  number of bits (\<open>-1\<close>: all of them). The alignment assertion is about the address of the
  block, which is a parameter here.
\<close>

definition StartReading ::
  "nat \<Rightarrow> u8 list option \<Rightarrow> int \<Rightarrow> int \<Rightarrow> int \<Rightarrow> CBitRead \<Rightarrow> CBitRead option" where
  "StartReading addr pData nBytes iStartBit nBits s =
     (if addr mod 4 \<noteq> 0 \<or> (nBits \<noteq> -1 \<and> nBits > i32 (nBytes * 8)) then None
      else let s1 = s\<lparr>m_pData := pData, m_pDataIn := 0, m_nDataBytes := nat (nBytes mod 2 ^ 32),
                      m_nDataBits := (if nBits = -1 then i32 (nBytes * 8) else nBits),
                      m_bOverflow := False, m_pBufferEnd := nBytes\<rparr>
           in if pData \<noteq> None then map_option snd (Seek iStartBit s1) else Some s1)"

definition CBitRead_ctor :: "nat \<Rightarrow> u8 list option \<Rightarrow> int \<Rightarrow> int \<Rightarrow> CBitRead \<Rightarrow> CBitRead option" where
  "CBitRead_ctor addr pData nBytes nBits raw =
     StartReading addr pData nBytes 0 nBits
       (raw\<lparr>m_bOverflow := False, m_nDataBits := -1, m_nDataBytes := 0\<rparr>)"

subsection \<open>The invariant\<close>

text \<open>
  \<open>reads_at m p s\<close>: the reader \<open>s\<close> over block \<open>m\<close> has not overflowed and its next bit is
  bit \<open>p\<close> of the block. Either the buffered word holds the \<open>m_nBitsAvail\<close> bits before
  \<open>m_pDataIn\<close> (\<open>reader_live\<close>), or all bits have been read and the state is the one
  \<open>GrabNextDWord\<close> leaves at the end of the data (\<open>reader_ended\<close>). \<open>reader_spent\<close> is
  the state after an overflow.
\<close>

definition reader_frame :: "u8 list \<Rightarrow> CBitRead \<Rightarrow> bool" where
  "reader_frame m s \<longleftrightarrow> m_pData s = Some m \<and> m_pBufferEnd s = int (length m) \<and>
     m_nDataBytes s = length m \<and> m_nDataBits s = 8 * int (length m) \<and> length m < 2 ^ 27"

definition reader_live :: "u8 list \<Rightarrow> nat \<Rightarrow> CBitRead \<Rightarrow> bool" where
  "reader_live m p s \<longleftrightarrow> reader_frame m s \<and> \<not> m_bOverflow s \<and>
     0 < m_nBitsAvail s \<and> m_nBitsAvail s \<le> 32 \<and>
     m_pDataIn s \<le> m_pBufferEnd s \<and> m_pDataIn s mod 4 = m_pBufferEnd s mod 4 \<and>
     int p + m_nBitsAvail s = 8 * m_pDataIn s \<and>
     m_nInBufWord s = stream_bits m p (nat (m_nBitsAvail s))"

definition reader_ended :: "u8 list \<Rightarrow> nat \<Rightarrow> CBitRead \<Rightarrow> bool" where
  "reader_ended m p s \<longleftrightarrow> reader_frame m s \<and> \<not> m_bOverflow s \<and> p = 8 * length m \<and>
     m_nBitsAvail s = 1 \<and> m_nInBufWord s = 0 \<and> m_pDataIn s = m_pBufferEnd s + 4"

definition reads_at :: "u8 list \<Rightarrow> nat \<Rightarrow> CBitRead \<Rightarrow> bool" where
  "reads_at m p s \<longleftrightarrow> reader_live m p s \<or> reader_ended m p s"

definition reader_spent :: "u8 list \<Rightarrow> CBitRead \<Rightarrow> bool" where
  "reader_spent m s \<longleftrightarrow> reader_frame m s \<and> m_bOverflow s \<and> m_nInBufWord s = 0 \<and>
     0 < m_nBitsAvail s \<and> m_nBitsAvail s \<le> 32 \<and> m_pDataIn s = m_pBufferEnd s + 4"

lemmas reader_defs = reader_frame_def reader_live_def reader_ended_def reader_spent_def

lemma mask_table: "s_nMaskTable = map mask [0..<33]"
  by code_simp

lemma mask_table_nth: "n < 33 \<Longrightarrow> s_nMaskTable ! n = mask n"
  by (simp only: mask_table, subst nth_map_upt) simp_all

lemma mask_at_Some [simp]: "0 \<le> n \<Longrightarrow> n \<le> 32 \<Longrightarrow> mask_at n = Some (mask (nat n))"
  by (simp add: mask_at_def mask_table_nth)

subsection \<open>Fetching\<close>

lemma GrabNextDWord_live:
  assumes "reader_frame m s" and "0 \<le> m_pDataIn s" and "m_pDataIn s + 4 \<le> int (length m)"
  shows "GrabNextDWord b s = Some (s\<lparr>m_nInBufWord := stream_bits m (8 * nat (m_pDataIn s)) 32,
           m_pDataIn := m_pDataIn s + 4\<rparr>)"
  using assms by (simp add: GrabNextDWord_def reader_defs load32_stream)

text \<open>Fetching at a word boundary: the reader stands at that boundary afterwards.\<close>

lemma FetchNext_boundary:
  assumes "reader_frame m s" and "\<not> m_bOverflow s" and "0 \<le> m_pDataIn s"
    and "m_pDataIn s \<le> m_pBufferEnd s" and "m_pDataIn s mod 4 = m_pBufferEnd s mod 4"
    and "int p = 8 * m_pDataIn s"
  shows "\<exists>s'. FetchNext s = Some s' \<and> reads_at m p s'"
proof (cases "m_pDataIn s = m_pBufferEnd s")
  case True
  then show ?thesis
    using assms by (auto simp: FetchNext_def GrabNextDWord_def reads_at_def reader_defs)
next
  case False
  let ?s = "s\<lparr>m_nBitsAvail := 32\<rparr>"
  have "m_pDataIn s + 4 \<le> int (length m)"
    using word_room [of "m_pDataIn s" "m_pBufferEnd s"] False assms by (simp add: reader_defs)
  with assms have "FetchNext s = Some (?s\<lparr>m_nInBufWord := stream_bits m (8 * nat (m_pDataIn s)) 32,
           m_pDataIn := m_pDataIn s + 4\<rparr>)"
    by (simp add: FetchNext_def GrabNextDWord_live [of m] reader_defs)
  moreover have "8 * nat (m_pDataIn s) = p" using assms by simp
  ultimately show ?thesis
    using assms \<open>m_pDataIn s + 4 \<le> int (length m)\<close>
    by (simp add: reads_at_def reader_defs)
qed

lemma FetchNext_past_end:
  assumes "reader_frame m s" and "m_pDataIn s = m_pBufferEnd s + 4"
  shows "\<exists>s'. FetchNext s = Some s' \<and> reader_spent m s'"
  using assms by (auto simp: FetchNext_def GrabNextDWord_def reader_defs SetOverflowFlag_def)

subsection \<open>Reading n bits\<close>

text \<open>The read that stays inside the buffered word.\<close>

lemma ReadUBitLong_within:
  assumes live: "reader_live m p s" and n: "0 \<le> n" "n \<le> m_nBitsAvail s"
  shows "\<exists>s'. ReadUBitLong n s = Some (stream_bits m p (nat n), s') \<and> reads_at m (p + nat n) s'"
proof (cases "n = m_nBitsAvail s")
  case True
  let ?s = "s\<lparr>m_nBitsAvail := 0\<rparr>"
  have "\<exists>s'. FetchNext ?s = Some s' \<and> reads_at m (p + nat n) s'"
    using live True by (intro FetchNext_boundary) (auto simp: reader_defs)
  then show ?thesis
    using live n True by (auto simp: ReadUBitLong_def reader_defs stream_bits_mask)
next
  case False
  have "nat (m_nBitsAvail s) \<le> LENGTH(32)" using live by (auto simp: reader_defs)
  from stream_bits_drop [OF this] live n False show ?thesis
    by (simp add: ReadUBitLong_def reader_defs reads_at_def stream_bits_mask nat_diff_distrib)
qed

text \<open>The read that merges the buffered word with the next one.\<close>

lemma ReadUBitLong_merge:
  assumes live: "reader_live m p s" and n: "m_nBitsAvail s < n" "n \<le> 32"
    and room: "p + nat n \<le> 8 * length m"
  shows "\<exists>s'. ReadUBitLong n s = Some (stream_bits m p (nat n), s') \<and> reads_at m (p + nat n) s'"
proof -
  let ?a = "nat (m_nBitsAvail s)" and ?k = "nat (n - m_nBitsAvail s)"
  have "m_pDataIn s \<noteq> m_pBufferEnd s" using live n room by (auto simp: reader_defs)
  then have in_block: "m_pDataIn s + 4 \<le> int (length m)"
    using word_room [of "m_pDataIn s" "m_pBufferEnd s"] live by (simp add: reader_defs)
  have pos: "8 * nat (m_pDataIn s) = p + ?a" using live by (auto simp: reader_defs)
  have grab: "GrabNextDWord True s =
      Some (s\<lparr>m_nInBufWord := stream_bits m (p + ?a) 32, m_pDataIn := m_pDataIn s + 4\<rparr>)"
    using GrabNextDWord_live [of m s True] live in_block by (simp add: reader_defs pos)
  have split: "nat n = ?a + ?k" using live n by (auto simp: reader_defs)
  have low: "stream_bits m (p + ?a) 32 AND mask ?k = (stream_bits m (p + ?a) ?k :: u32)"
    using live n by (intro stream_bits_mask) (auto simp: reader_defs)
  have join: "stream_bits m p ?a OR push_bit ?a (stream_bits m (p + ?a) ?k)
      = (stream_bits m p (nat n) :: u32)"
    using n by (simp only: split) (rule stream_bits_join, simp add: split [symmetric])
  have "drop_bit ?k (stream_bits m (p + ?a) 32 :: u32) = stream_bits m (p + ?a + ?k) (32 - ?k)"
    by (rule stream_bits_drop) simp
  moreover have "p + ?a + ?k = p + nat n" using split by simp
  moreover have "32 - ?k = nat (32 - (n - m_nBitsAvail s))" using n by simp
  ultimately have rest: "drop_bit ?k (stream_bits m (p + ?a) 32 :: u32)
      = stream_bits m (p + nat n) (nat (32 - (n - m_nBitsAvail s)))" by simp
  with live n in_block show ?thesis
    by (simp add: ReadUBitLong_def Let_def grab low join reader_defs reads_at_def del: push_bit_and)
qed

lemma ReadUBitLong_reads:
  assumes "reads_at m p s" and "0 \<le> n" and "n \<le> 32" and "p + nat n \<le> 8 * length m"
  shows "\<exists>s'. ReadUBitLong n s = Some (stream_bits m p (nat n), s') \<and> reads_at m (p + nat n) s'"
proof (cases "reader_live m p s")
  case True
  with assms show ?thesis
    by (cases "n \<le> m_nBitsAvail s") (auto intro: ReadUBitLong_within ReadUBitLong_merge)
next
  case False
  then have e: "reader_ended m p s" using assms(1) by (simp add: reads_at_def)
  with assms have "n = 0" by (simp add: reader_defs)
  with e show ?thesis by (simp add: ReadUBitLong_def reads_at_def reader_defs mask_at_def s_nMaskTable_def)
qed

text \<open>Reading past the end: zero, and the overflow flag is up.\<close>

lemma ReadUBitLong_past_end:
  assumes "reads_at m p s" and "0 \<le> n" and "n \<le> 32" and "8 * length m < p + nat n"
  shows "\<exists>s'. ReadUBitLong n s = Some (0, s') \<and> reader_spent m s'"
proof (cases "reader_live m p s")
  case True
  then have "m_pDataIn s = m_pBufferEnd s \<or> m_pDataIn s + 4 \<le> m_pBufferEnd s"
    using word_room [of "m_pDataIn s" "m_pBufferEnd s"] by (auto simp: reader_defs)
  with True assms have "m_pDataIn s = m_pBufferEnd s" "m_nBitsAvail s < n"
    by (auto simp: reader_defs)
  with True assms show ?thesis
    by (simp add: ReadUBitLong_def GrabNextDWord_def SetOverflowFlag_def reader_defs)
next
  case False
  then have e: "reader_ended m p s" using assms(1) by (simp add: reads_at_def)
  show ?thesis
  proof (cases "n = 1")
    case True
    have "\<exists>s'. FetchNext (s\<lparr>m_nBitsAvail := 0\<rparr>) = Some s' \<and> reader_spent m s'"
      using e by (intro FetchNext_past_end) (auto simp: reader_defs)
    with e True show ?thesis by (auto simp: ReadUBitLong_def reader_defs)
  next
    case False
    with e assms have "1 < n" by (simp add: reader_defs)
    with e show ?thesis
      by (simp add: ReadUBitLong_def GrabNextDWord_def SetOverflowFlag_def reader_defs)
  qed
qed

lemma ReadUBitLong_spent:
  assumes "reader_spent m s" and "0 \<le> n" and "n \<le> 32"
  shows "\<exists>s'. ReadUBitLong n s = Some (0, s') \<and> reader_spent m s'"
proof -
  consider "m_nBitsAvail s < n" | "m_nBitsAvail s = n" | "n < m_nBitsAvail s" by linarith
  then show ?thesis
  proof cases
    case 1
    with assms show ?thesis
      by (simp add: ReadUBitLong_def GrabNextDWord_def SetOverflowFlag_def reader_defs)
  next
    case 2
    have "\<exists>s'. FetchNext (s\<lparr>m_nBitsAvail := 0\<rparr>) = Some s' \<and> reader_spent m s'"
      using assms by (intro FetchNext_past_end) (auto simp: reader_defs)
    with assms 2 show ?thesis by (auto simp: ReadUBitLong_def reader_defs)
  next
    case 3
    with assms show ?thesis by (simp add: ReadUBitLong_def reader_defs shr32_def)
  qed
qed

subsection \<open>Position\<close>

lemma GetNumBitsRead_calc:
  assumes "reader_frame m s" and d: "m_pDataIn s = 4 * q + int (length m mod 4)"
    and q: "0 \<le> q" "q \<le> 2 ^ 25 + 1" and a: "0 < m_nBitsAvail s" "m_nBitsAvail s \<le> 32"
  shows "GetNumBitsRead s = min (8 * m_pDataIn s - m_nBitsAvail s) (8 * int (length m))"
proof -
  have r: "0 \<le> int (length m mod 4)" "int (length m mod 4) < 4" by auto
  then have c: "cdiv (m_pDataIn s) 4 = q" using d q by simp
  show ?thesis
    using assms(1) r q a unfolding GetNumBitsRead_def Let_def c by (simp add: reader_defs d)
qed

lemma GetNumBitsRead_at:
  assumes "reads_at m p s"
  shows "GetNumBitsRead s = int p"
proof (cases "reader_live m p s")
  case True
  define q where "q = m_pDataIn s div 4"
  have "int (length m mod 4) = m_pDataIn s mod 4" using True by (simp add: reader_defs zmod_int)
  then have d: "m_pDataIn s = 4 * q + int (length m mod 4)" by (simp add: q_def)
  have "0 \<le> q" "q \<le> 2 ^ 25 + 1" using True by (auto simp: reader_defs q_def)
  with GetNumBitsRead_calc [OF _ d] True show ?thesis by (auto simp: reader_defs)
next
  case False
  then have e: "reader_ended m p s" using assms by (simp add: reads_at_def)
  define q where "q = int (length m) div 4 + 1"
  have d: "m_pDataIn s = 4 * q + int (length m mod 4)" using e by (simp add: reader_defs q_def zmod_int)
  have "0 \<le> q" "q \<le> 2 ^ 25 + 1" using e by (auto simp: reader_defs q_def)
  with GetNumBitsRead_calc [OF _ d] e show ?thesis by (simp add: reader_defs)
qed

lemma GetNumBitsRead_spent:
  assumes "reader_spent m s"
  shows "GetNumBitsRead s = 8 * int (length m)"
proof -
  define q where "q = int (length m) div 4 + 1"
  have d: "m_pDataIn s = 4 * q + int (length m mod 4)"
    using assms by (simp add: reader_defs q_def zmod_int)
  have "0 \<le> q" "q \<le> 2 ^ 25 + 1" using assms by (auto simp: reader_defs q_def)
  with GetNumBitsRead_calc [OF _ d] assms show ?thesis by (auto simp: reader_defs)
qed

lemma GetNumBytesRead_at: "reads_at m p s \<Longrightarrow> GetNumBytesRead s = int ((p + 7) div 8)"
proof -
  assume at: "reads_at m p s"
  then have "p + 7 < 2 ^ 31" by (auto simp: reads_at_def reader_defs)
  with at show ?thesis
    by (simp add: GetNumBytesRead_def GetNumBitsRead_at drop_bit_eq_div zdiv_int)
qed

lemma GetNumBytesRead_spent: "reader_spent m s \<Longrightarrow> GetNumBytesRead s = int (length m)"
  using GetNumBitsRead_spent [of m s] by (auto simp: GetNumBytesRead_def drop_bit_eq_div reader_defs)

subsection \<open>Seeking\<close>

text \<open>The bytes of the partial first word, as \<open>Seek\<close> assembles them.\<close>

lemma head_word_stream:
  assumes "h = length m mod 4" and "0 < h"
  shows "ucast (m ! 0) OR push_bit 8 (ucast (if 1 < h then m ! 1 else 0))
       OR push_bit 16 (ucast (if 2 < h then m ! 2 else 0)) = (stream_bits m 0 (8 * h) :: u32)"
proof (rule bit_word_eqI)
  fix n assume "n < LENGTH(32)"
  have h: "h < 4" "h \<le> length m" using assms by auto
  have dm: "sbit m n = bit (m ! (n div 8)) (n mod 8)" if "n < 8 * h"
    using h that by (auto simp: sbit_def)
  consider "n < 8" | "8 \<le> n" "n < 16" | "16 \<le> n" "n < 24" | "24 \<le> n" by linarith
  then show "bit (ucast (m ! 0) OR push_bit 8 (ucast (if 1 < h then m ! 1 else 0))
       OR push_bit 16 (ucast (if 2 < h then m ! 2 else 0)) :: u32) n = bit (stream_bits m 0 (8 * h) :: u32) n"
  proof cases
    case 1
    then show ?thesis using assms by (auto simp: stream_bit_simps bit_ucast_byte dm)
  next
    case 2
    then have "n div 8 = 1" "n mod 8 = n - 8" by (simp_all add: le_mod_geq le_div_geq)
    with 2 h show ?thesis by (auto simp: stream_bit_simps bit_ucast_byte dm)
  next
    case 3
    then have "n div 8 = 2" "n mod 8 = n - 16" by (simp_all add: le_mod_geq le_div_geq)
    with 3 h show ?thesis by (auto simp: stream_bit_simps bit_ucast_byte dm)
  next
    case 4
    with h show ?thesis by (auto simp: stream_bit_simps bit_ucast_byte)
  qed
qed

lemma Seek_head_word:
  assumes frame: "reader_frame m s" and h: "length m mod 4 = h" "0 < h" and p: "p < 8 * h"
  shows "Seek (int p) s = Some (True, s\<lparr>m_pDataIn := int h,
      m_nInBufWord := shr32 (stream_bits m 0 (8 * h)) (int p), m_nBitsAvail := 8 * int h - int p\<rparr>)"
proof -
  have h4: "h < 4" and len: "h \<le> length m" using h(1) by auto
  have p8: "int p mod 32 = int p" "int p div 8 < int h" "int p \<le> 8 * int (length m)"
    using p h4 len by auto
  note w = head_word_stream [OF h(1) [symmetric] h(2)]
  have pk: "peek8 m 0 = Some (m ! 0)" "1 < h \<Longrightarrow> peek8 m 1 = Some (m ! 1)"
    "2 < h \<Longrightarrow> peek8 m 2 = Some (m ! 2)"
    using h(2) len by (auto simp: peek8_def)
  from h h4 consider "h = 1" | "h = 2" | "h = 3" by linarith
  then show ?thesis
  proof cases
    case 1
    with frame p8 h len w pk show ?thesis by (simp add: Seek_def Let_def reader_frame_def del: peek8_Some)
  next
    case 2
    with frame p8 h len w pk show ?thesis by (simp add: Seek_def Let_def reader_frame_def del: peek8_Some)
  next
    case 3
    with frame p8 h len w pk show ?thesis by (simp add: Seek_def Let_def reader_frame_def del: peek8_Some)
  qed
qed

lemma Seek_head:
  assumes "reader_frame m s" and "\<not> m_bOverflow s" and "p < 8 * (length m mod 4)"
  shows "\<exists>s'. Seek (int p) s = Some (True, s') \<and> reads_at m p s'"
proof -
  define h where "h = length m mod 4"
  have h: "0 < h" "h < 4" "h \<le> length m" and p: "p < 8 * h" "p < 32"
    using assms(3) by (auto simp: h_def)
  have mod: "int h mod 4 = int (length m) mod 4" by (simp add: h_def zmod_int)
  have "drop_bit p (stream_bits m 0 (8 * h) :: u32) = stream_bits m (0 + p) (8 * h - p)"
    using h by (intro stream_bits_drop) simp
  then have w: "shr32 (stream_bits m 0 (8 * h)) (int p) = stream_bits m p (nat (8 * int h - int p))"
    using p by (simp add: nat_diff_distrib nat_mult_distrib)
  show ?thesis
    using Seek_head_word [OF assms(1) h_def [symmetric] h(1) p(1)] assms h p mod w
    by (simp add: reads_at_def reader_defs)
qed

text \<open>Beyond the head the words are aligned with the end of the block.\<close>

lemma Seek_words:
  assumes frame: "reader_frame m s" and ov: "\<not> m_bOverflow s" and len: "4 \<le> length m"
    and p: "8 * (length m mod 4) \<le> p" "p \<le> 8 * length m"
  shows "\<exists>s'. Seek (int p) s = Some (True, s') \<and> reads_at m p s'"
proof -
  define h where "h = length m mod 4"
  define a where "a = p - 8 * h"
  define d where "d = 4 * (a div 32) + h"
  define k where "k = a mod 32"
  have h: "h < 4" "length m mod 4 = h" "8 * h \<le> p" using p by (auto simp: h_def)
  have a: "int p - 8 * int h = int a" "8 * d + k = p" "k < 32"
    using h by (auto simp: a_def d_def k_def)
  have "d mod 4 = h" using h(1) by (simp add: d_def)
  then have dm: "d mod 4 = length m mod 4" "d \<le> length m" using h(2) a(2) p(2) by (simp, linarith)
  have "int (d mod 4) = int (length m mod 4)" by (simp only: dm(1))
  then have dmi: "int d mod 4 = int (length m) mod 4" by (simp add: zmod_int)
  have cd: "cdiv (int a) 32 * 4 + int h = int d" by (simp add: d_def zdiv_int)
  have byte: "int h \<noteq> 0 \<Longrightarrow> \<not> int p div 8 < int h" using h by (auto simp: zdiv_int [symmetric])
  let ?s = "s\<lparr>m_pDataIn := int d, m_nBitsAvail := 32\<rparr>"
  have seek: "Seek (int p) s = do { s2 \<leftarrow> GrabNextDWord False ?s;
      Some (True, s2\<lparr>m_nInBufWord := shr32 (m_nInBufWord s2) (int k),
                     m_nBitsAvail := min (m_nBitsAvail s2) (32 - int k)\<rparr>) }"
  proof -
    have c1: "\<not> (int p < 0 \<or> m_nDataBits s < int p)" and c2: "m_nDataBytes s mod 4 = h"
      and c3: "\<not> (m_nDataBytes s < 4 \<or> int h \<noteq> 0 \<and> cdiv (int p) 8 < int h)"
      and c4: "int a AND 31 = int k" and c5: "m_pData s \<noteq> None"
      using frame len p h byte by (auto simp: reader_frame_def k_def zmod_int)
    show ?thesis
      unfolding Seek_def Let_def if_not_P [OF c1] c2 if_not_P [OF c3] a(1) cd c4
      using c1 c5 by simp
  qed
  show ?thesis
  proof (cases "d = length m")
    case True
    then have "k = 0" "p = 8 * length m" using a p by auto
    with True frame ov show ?thesis
      unfolding seek by (simp add: GrabNextDWord_def reads_at_def reader_defs)
  next
    case False
    have room: "int d + 4 \<le> int (length m)"
      using word_room [of "int d" "int (length m)"] False dm(2) dmi by simp
    have "drop_bit k (stream_bits m (8 * d) 32 :: u32) = stream_bits m (8 * d + k) (32 - k)"
      by (rule stream_bits_drop) simp
    then have w: "shr32 (stream_bits m (8 * d) 32) (int k) = stream_bits m p (nat (32 - int k))"
      using a by (simp add: nat_diff_distrib)
    have "GrabNextDWord False ?s = Some (?s\<lparr>m_nInBufWord := stream_bits m (8 * d) 32, m_pDataIn := int d + 4\<rparr>)"
      using GrabNextDWord_live [of m ?s False] frame room by (simp add: reader_defs)
    with frame ov room w a dmi show ?thesis
      unfolding seek by (simp add: reads_at_def reader_defs)
  qed
qed

lemma Seek_reads:
  assumes "reader_frame m s" and "\<not> m_bOverflow s" and "p \<le> 8 * length m"
    and "4 \<le> length m \<or> p < 8 * length m"
  shows "\<exists>s'. Seek (int p) s = Some (True, s') \<and> reads_at m p s'"
proof (cases "p < 8 * (length m mod 4)")
  case True
  with assms show ?thesis by (intro Seek_head)
next
  case False
  then have "4 \<le> length m" using assms(4) by (cases "4 \<le> length m") auto
  with assms False show ?thesis by (intro Seek_words) auto
qed

text \<open>A target outside the data raises the overflow flag and leaves the reader at the end.\<close>

lemma Seek_outside:
  assumes frame: "reader_frame m s" and len: "4 \<le> length m"
    and q: "q < 0 \<or> 8 * int (length m) < q"
  shows "\<exists>s'. Seek q s = Some (False, s') \<and> reader_spent m s'"
proof -
  define h where "h = length m mod 4"
  define b where "b = length m div 4"
  have split: "length m = 4 * b + h" "h < 4" by (simp_all add: h_def b_def)
  have c1: "q < 0 \<or> m_nDataBits s < q" and c2: "m_nDataBytes (SetOverflowFlag s) mod 4 = h"
    and adj: "m_nDataBits s - 8 * int h = 32 * int b"
    and c3: "\<not> (m_nDataBytes (SetOverflowFlag s) < 4 \<or> int h \<noteq> 0 \<and> cdiv (m_nDataBits s) 8 < int h)"
    and c5: "m_pData s \<noteq> None"
    using frame len q split by (auto simp: reader_frame_def SetOverflowFlag_def h_def [symmetric])
  have d: "cdiv (32 * int b) 32 * 4 + int h = int (length m)" "(32 * int b) AND 31 = 0"
    using split by simp_all
  show ?thesis
    unfolding Seek_def Let_def if_P [OF c1] c2 if_not_P [OF c3] adj d
    using c1 c5 frame by (simp add: GrabNextDWord_def SetOverflowFlag_def reader_defs)
qed

text \<open>After an overflow, seeking to the end keeps the reader in the overflow state.\<close>

lemma Seek_end_spent:
  assumes spent: "reader_spent m s" and len: "4 \<le> length m"
  shows "\<exists>s'. Seek (8 * int (length m)) s = Some (True, s') \<and> reader_spent m s'"
proof -
  define h where "h = length m mod 4"
  define b where "b = length m div 4"
  have split: "length m = 4 * b + h" "h < 4" by (simp_all add: h_def b_def)
  have c1: "\<not> (8 * int (length m) < 0 \<or> m_nDataBits s < 8 * int (length m))" and c2: "m_nDataBytes s mod 4 = h"
    and adj: "8 * int (length m) - 8 * int h = 32 * int b"
    and c3: "\<not> (m_nDataBytes s < 4 \<or> int h \<noteq> 0 \<and> cdiv (8 * int (length m)) 8 < int h)"
    and c5: "m_pData s \<noteq> None"
    using spent len split by (auto simp: reader_defs h_def [symmetric])
  have d: "cdiv (32 * int b) 32 * 4 + int h = int (length m)" "(32 * int b) AND 31 = 0"
    using split by simp_all
  show ?thesis
    unfolding Seek_def Let_def if_not_P [OF c1] c2 if_not_P [OF c3] adj d
    using c1 c5 spent by (simp add: GrabNextDWord_def reader_defs)
qed

subsection \<open>Single bits\<close>

lemma ReadOneBit_eq: "1 \<le> m_nBitsAvail s \<Longrightarrow> ReadOneBit s = ReadUBitLong 1 s"
  by (simp add: ReadOneBit_def ReadUBitLong_def Let_def mask_eq_exp_minus_1)

lemma ReadBit_eq:
  assumes "reads_at m p s" and "p + 1 < 8 * length m"
  shows "ReadBit s = ReadOneBit s"
proof -
  have live: "reader_live m p s" using assms by (auto simp: reads_at_def reader_defs)
  show ?thesis
  proof (cases "m_nBitsAvail s = 1")
    case True
    with live assms have "m_pDataIn s \<noteq> m_pBufferEnd s" by (auto simp: reader_defs)
    with True live show ?thesis
      by (auto simp: ReadBit_def ReadOneBit_def FetchNext_def GrabNextDWord_def Let_def reader_defs)
  next
    case False
    with live show ?thesis by (simp add: ReadBit_def ReadOneBit_def reader_defs)
  qed
qed

lemma ReadBit_last_bit:
  assumes "reads_at m p s" and "p + 1 = 8 * length m"
  shows "ReadBit s = None"
proof -
  have live: "reader_live m p s" using assms by (auto simp: reads_at_def reader_defs)
  then have end_of: "m_pDataIn s = m_pBufferEnd s" "m_nBitsAvail s = 1"
    using assms word_room [of "m_pDataIn s" "m_pBufferEnd s"] by (auto simp: reader_defs)
  with live show ?thesis by (simp add: ReadBit_def Let_def reader_defs load32_None)
qed

subsection \<open>Sign extension\<close>

lemma sint_signed_take_bit32:
  "j < 32 \<Longrightarrow> sint (signed_take_bit j (w::u32)) = signed_take_bit j (sint w)"
  by (rule bit_eqI) (auto simp: bit_sint_iff bit_signed_take_bit_iff min_def)

lemma sign_extend32:
  assumes "1 \<le> n" and "n \<le> 32"
  shows "sint (sar32 (shl32 w (32 - n)) (32 - n)) = signed_take_bit (nat n - 1) (sint w)"
proof -
  define k where "k = nat (32 - n)"
  have k: "k < 32" "nat n - 1 = 31 - k" using assms by (auto simp: k_def)
  have "sar32 (shl32 w (32 - n)) (32 - n) = signed_drop_bit k (push_bit k w)"
    using assms by (simp add: k_def)
  also have "\<dots> = signed_take_bit (31 - k) w"
  proof (rule bit_word_eqI)
    fix i assume i: "i < LENGTH(32)"
    consider "i < 31 - k" | "i = 31 - k" | "31 - k < i" by linarith
    then show "bit (signed_drop_bit k (push_bit k w)) i = bit (signed_take_bit (31 - k) w) i"
      using i k by cases (auto simp: bit_signed_drop_bit_iff bit_push_bit_iff bit_signed_take_bit_iff)
  qed
  finally show ?thesis using k by (simp add: sint_signed_take_bit32)
qed

subsection \<open>Starting\<close>

lemma CBitRead_ctor_reads:
  assumes "addr mod 4 = 0" and "m \<noteq> []" and "length m < 2 ^ 27"
  shows "\<exists>s. CBitRead_ctor addr (Some m) (int (length m)) (-1) raw = Some s \<and> reads_at m 0 s"
proof -
  let ?s = "raw\<lparr>m_pData := Some m, m_pDataIn := 0, m_nDataBytes := length m,
      m_nDataBits := int (length m) * 8, m_bOverflow := False, m_pBufferEnd := int (length m)\<rparr>"
  have "reader_frame m ?s" "\<not> m_bOverflow ?s" using assms by (simp_all add: reader_defs)
  then obtain s where "Seek 0 ?s = Some (True, s)" "reads_at m 0 s"
    using Seek_reads [of m ?s 0] assms(2) by auto
  moreover have "int (length m) mod 2 ^ 32 = int (length m)" using assms(3) by simp
  ultimately show ?thesis
    using assms by (simp add: CBitRead_ctor_def StartReading_def Let_def)
qed

subsection \<open>Refinement to an abstract reader\<close>

text \<open>
  The abstract reader is a position in the block, or \<open>Spent\<close> once a read went past the
  end. A run is a list of read widths.
\<close>

datatype abs_reader = At nat | Spent

fun abs_read :: "u8 list \<Rightarrow> nat \<Rightarrow> abs_reader \<Rightarrow> u32 \<times> abs_reader" where
  "abs_read m n (At p) = (if p + n \<le> 8 * length m then (stream_bits m p n, At (p + n)) else (0, Spent))"
| "abs_read m n Spent = (0, Spent)"

fun abs_run :: "u8 list \<Rightarrow> nat list \<Rightarrow> abs_reader \<Rightarrow> u32 list \<times> abs_reader" where
  "abs_run m [] a = ([], a)"
| "abs_run m (n # ns) a = (let (v, a1) = abs_read m n a; (vs, a2) = abs_run m ns a1 in (v # vs, a2))"

fun read_run :: "nat list \<Rightarrow> CBitRead \<Rightarrow> (u32 list \<times> CBitRead) option" where
  "read_run [] s = Some ([], s)"
| "read_run (n # ns) s = do {
     (v, s1) \<leftarrow> ReadUBitLong (int n) s;
     (vs, s2) \<leftarrow> read_run ns s1;
     Some (v # vs, s2) }"

fun simulates :: "u8 list \<Rightarrow> abs_reader \<Rightarrow> CBitRead \<Rightarrow> bool" where
  "simulates m (At p) s = reads_at m p s"
| "simulates m Spent s = reader_spent m s"

lemma read_simulates:
  assumes "simulates m a s" and "n \<le> 32"
  shows "\<exists>s'. ReadUBitLong (int n) s = Some (fst (abs_read m n a), s') \<and> simulates m (snd (abs_read m n a)) s'"
proof (cases a)
  case (At p)
  with assms show ?thesis
    using ReadUBitLong_reads [of m p s "int n"] ReadUBitLong_past_end [of m p s "int n"] by auto
next
  case Spent
  with assms show ?thesis using ReadUBitLong_spent [of m s "int n"] by auto
qed

lemma run_simulates:
  "simulates m a s \<Longrightarrow> \<forall>n \<in> set ns. n \<le> 32 \<Longrightarrow>
   \<exists>s'. read_run ns s = Some (fst (abs_run m ns a), s') \<and> simulates m (snd (abs_run m ns a)) s'"
proof (induction ns arbitrary: a s)
  case (Cons n ns)
  then obtain s1 where s1: "ReadUBitLong (int n) s = Some (fst (abs_read m n a), s1)"
    "simulates m (snd (abs_read m n a)) s1"
    using read_simulates [of m a s n] by auto
  then obtain s2 where "read_run ns s1 = Some (fst (abs_run m ns (snd (abs_read m n a))), s2)"
    "simulates m (snd (abs_run m ns (snd (abs_read m n a)))) s2"
    using Cons.IH [of "snd (abs_read m n a)" s1] Cons.prems by auto
  with s1 show ?case by (simp add: Let_def split_beta)
qed simp

subsection \<open>Properties of the reader\<close>

text \<open>
  C3: The word-at-a-time reader refines the abstract bit stream. A reader constructed over
  any non-empty block below 128 MB, whatever the previous contents of its fields, and any
  sequence of reads of at most 32 bits: every read returns a value (no out-of-bounds
  access), the values are exactly the consecutive bits of the block until a read would pass
  its end, and from then on they are zero and the overflow flag stays up.
\<close>

theorem CBitRead_refines_stream:
  assumes "addr mod 4 = 0" and "m \<noteq> []" and "length m < 2 ^ 27" and "\<forall>n \<in> set ns. n \<le> 32"
  shows "\<exists>s0 s'. CBitRead_ctor addr (Some m) (int (length m)) (-1) raw = Some s0 \<and>
     read_run ns s0 = Some (fst (abs_run m ns (At 0)), s') \<and>
     (m_bOverflow s' \<longleftrightarrow> snd (abs_run m ns (At 0)) = Spent)"
proof -
  obtain s0 where s0: "CBitRead_ctor addr (Some m) (int (length m)) (-1) raw = Some s0" "reads_at m 0 s0"
    using CBitRead_ctor_reads [OF assms(1-3)] by blast
  then obtain s' where s': "read_run ns s0 = Some (fst (abs_run m ns (At 0)), s')"
    "simulates m (snd (abs_run m ns (At 0))) s'"
    using run_simulates [of m "At 0" s0 ns] assms(4) by auto
  have "m_bOverflow s' \<longleftrightarrow> snd (abs_run m ns (At 0)) = Spent"
    using s'(2) by (cases "snd (abs_run m ns (At 0))") (auto simp: reads_at_def reader_defs)
  with s0 s' show ?thesis by blast
qed

theorem CBitRead_refines_stream_witness:
  "\<exists>raw s0 s'. CBitRead_ctor 8 (Some [0xA5, 0x0F, 0x80, 1, 2]) 5 (-1) raw = Some s0 \<and>
     read_run [4, 12, 32] s0 = Some ([5, 0xFA, 0], s') \<and> m_bOverflow s'"
proof -
  fix raw :: CBitRead
  have run: "abs_run [0xA5, 0x0F, 0x80, 1, 2] [4, 12, 32] (At 0) = ([5, 0xFA, 0], Spent)"
    by (simp add: stream_bits_def sbit_def upt_rec horner_sum_simps bit_numeral_rec)
  show ?thesis
    using CBitRead_refines_stream [of 8 "[0xA5, 0x0F, 0x80, 1, 2]" "[4, 12, 32]" raw]
    unfolding run by auto
qed

text \<open>
  C33: Seeking. From any reader over a block of at least four bytes that has not overflowed,
  \<open>Seek\<close> to a position inside the data succeeds and the next \<open>n\<close>-bit read delivers the
  bits at exactly that position, in the partial head word as in the aligned part; \<open>Tell\<close>
  and \<open>GetNumBytesRead\<close> report the position.
\<close>

theorem Seek_then_read:
  assumes "reader_frame m s" and "\<not> m_bOverflow s" and "4 \<le> length m" and "p \<le> 8 * length m"
  shows "\<exists>s1. Seek (int p) s = Some (True, s1) \<and> Tell s1 = int p \<and>
     GetNumBytesRead s1 = int ((p + 7) div 8) \<and> GetNumBitsLeft s1 = int (8 * length m - p) \<and>
     (\<forall>n \<le> 32. p + n \<le> 8 * length m \<longrightarrow>
        (\<exists>s2. ReadUBitLong (int n) s1 = Some (stream_bits m p n, s2) \<and> Tell s2 = int (p + n)))"
proof -
  obtain s1 where s1: "Seek (int p) s = Some (True, s1)" "reads_at m p s1"
    using Seek_reads [of m s p] assms by auto
  have "length m < 2 ^ 27" "m_nDataBits s1 = 8 * int (length m)"
    using s1(2) by (auto simp: reads_at_def reader_defs)
  then have left: "GetNumBitsLeft s1 = int (8 * length m - p)"
    using assms(4) by (simp add: GetNumBitsLeft_def Tell_def GetNumBitsRead_at [OF s1(2)] of_nat_diff)
  have "\<exists>s2. ReadUBitLong (int n) s1 = Some (stream_bits m p n, s2) \<and> Tell s2 = int (p + n)"
    if "n \<le> 32" "p + n \<le> 8 * length m" for n
    using ReadUBitLong_reads [OF s1(2), of "int n"] that by (auto simp: Tell_def GetNumBitsRead_at)
  with s1 left show ?thesis by (auto simp: Tell_def GetNumBitsRead_at GetNumBytesRead_at)
qed

definition sample_reader :: CBitRead where
  "sample_reader = \<lparr>m_nInBufWord = 0, m_nBitsAvail = 0, m_pDataIn = 0, m_pBufferEnd = 6,
     m_pData = Some [1, 2, 3, 4, 5, 6], m_bOverflow = False, m_nDataBits = 48, m_nDataBytes = 6\<rparr>"

theorem Seek_then_read_witness:
  "reader_frame [1, 2, 3, 4, 5, 6] sample_reader \<and>
   (\<exists>s1. Seek 20 sample_reader = Some (True, s1) \<and> Tell s1 = 20 \<and> GetNumBytesRead s1 = 3 \<and>
     (\<exists>s2. ReadUBitLong 12 s1 = Some (0x40, s2) \<and> Tell s2 = 32))"
proof -
  have f: "reader_frame [1, 2, 3, 4, 5, 6] sample_reader"
    by (simp add: sample_reader_def reader_frame_def)
  have v: "stream_bits [1, 2, 3, 4, 5, 6] 20 12 = (0x40 :: u32)"
    by (simp add: stream_bits_def sbit_def upt_rec horner_sum_simps bit_numeral_rec)
  have ov: "\<not> m_bOverflow sample_reader" by (simp add: sample_reader_def)
  obtain s1 where s1: "Seek 20 sample_reader = Some (True, s1)" "Tell s1 = 20" "GetNumBytesRead s1 = 3"
    and rd: "\<forall>n \<le> 32. 20 + n \<le> 48 \<longrightarrow>
      (\<exists>s2. ReadUBitLong (int n) s1 = Some (stream_bits [1, 2, 3, 4, 5, 6] 20 n, s2) \<and> Tell s2 = int (20 + n))"
    using Seek_then_read [OF f ov, of 20] by auto
  from rd [rule_format, of 12] v s1 f show ?thesis by auto
qed

text \<open>
  A \<open>Seek\<close> target before the start or past the end fails: the overflow flag goes up,
  the reader stands at the end of the data (so \<open>GetNumBytesRead\<close> is the size of the
  block) and every later read of up to 32 bits returns zero.
\<close>

theorem Seek_outside_overflows:
  assumes "reader_frame m s" and "4 \<le> length m" and "q < 0 \<or> 8 * int (length m) < q"
  shows "\<exists>s1. Seek q s = Some (False, s1) \<and> IsOverflowed s1 \<and> GetNumBytesRead s1 = int (length m) \<and>
     (\<forall>n \<le> 32. \<exists>s2. ReadUBitLong (int n) s1 = Some (0, s2) \<and> IsOverflowed s2)"
proof -
  obtain s1 where s1: "Seek q s = Some (False, s1)" "reader_spent m s1"
    using Seek_outside [OF assms] by blast
  moreover have "IsOverflowed s'" if "reader_spent m s'" for s'
    using that by (simp add: IsOverflowed_def reader_defs)
  moreover have "\<exists>s2. ReadUBitLong (int n) s1 = Some (0, s2) \<and> reader_spent m s2" if "n \<le> 32" for n
    using ReadUBitLong_spent [OF s1(2), of "int n"] that by simp
  ultimately show ?thesis by (intro exI [of _ s1]) (auto simp: GetNumBytesRead_spent, blast)
qed

theorem Seek_outside_overflows_witness:
  "\<exists>s1. Seek (- 8) sample_reader = Some (False, s1) \<and> IsOverflowed s1 \<and> GetNumBytesRead s1 = 6"
proof -
  have f: "reader_frame [1, 2, 3, 4, 5, 6] sample_reader"
    by (simp add: sample_reader_def reader_frame_def)
  show ?thesis using Seek_outside_overflows [OF f, of "- 8"] by auto
qed

text \<open>
  C40: \<open>ReadBit\<close> is \<open>ReadOneBit\<close> everywhere except on the last bit of the data: there
  \<open>ReadOneBit\<close> returns the bit, while \<open>ReadBit\<close>, whose end-of-buffer tests lack the
  \<open>else\<close> branches of \<open>GrabNextDWord\<close>, loads a word beyond the end of the block.
\<close>

theorem ReadBit_vs_ReadOneBit:
  assumes "reads_at m p s" and "p < 8 * length m"
  shows "\<exists>s1. ReadOneBit s = Some (of_bool (sbit m p), s1) \<and> reads_at m (p + 1) s1 \<and>
     ReadBit s = (if p + 1 = 8 * length m then None else Some (of_bool (sbit m p), s1))"
proof -
  have live: "reader_live m p s" using assms by (auto simp: reads_at_def reader_defs)
  obtain s1 where "ReadUBitLong 1 s = Some (stream_bits m p 1, s1)" "reads_at m (p + 1) s1"
    using ReadUBitLong_reads [OF assms(1), of 1] assms(2) by auto
  moreover have "(stream_bits m p 1 :: u32) = of_bool (sbit m p)" by (simp add: stream_bits_def)
  moreover have "ReadOneBit s = ReadUBitLong 1 s"
    using live by (intro ReadOneBit_eq) (simp add: reader_defs)
  ultimately show ?thesis
    using ReadBit_eq [OF assms(1)] ReadBit_last_bit [OF assms(1)] assms(2) by auto
qed

theorem ReadBit_vs_ReadOneBit_witness:
  "\<exists>s s1. reads_at [1, 2, 3, 4, 5, 6] 47 s \<and> ReadOneBit s = Some (0, s1) \<and> ReadBit s = None"
proof -
  have f: "reader_frame [1, 2, 3, 4, 5, 6] sample_reader" "\<not> m_bOverflow sample_reader"
    by (simp_all add: sample_reader_def reader_frame_def)
  obtain s where s: "reads_at [1, 2, 3, 4, 5, 6] 47 s" using Seek_reads [OF f, of 47] by auto
  have "\<not> sbit [1, 2, 3, 4, 5, 6] 47" by (simp add: sbit_def bit_numeral_rec)
  then show ?thesis using ReadBit_vs_ReadOneBit [OF s] s by force
qed

text \<open>
  \<open>ReadSBitLong n\<close> reads the same bits as \<open>ReadUBitLong n\<close> and interprets them as an
  \<open>n\<close>-bit two's complement number; the result lies in \<open>[- 2^(n-1), 2^(n-1))\<close>.
\<close>

theorem ReadSBitLong_twos_complement:
  assumes "reads_at m p s" and "1 \<le> n" and "n \<le> 32" and "p + n \<le> 8 * length m"
  shows "\<exists>v s'. ReadSBitLong (int n) s = Some (v, s') \<and> reads_at m (p + n) s' \<and>
     v = signed_take_bit (n - 1) (uint (stream_bits m p n :: u32)) \<and>
     - (2 ^ (n - 1)) \<le> v \<and> v < 2 ^ (n - 1)"
proof -
  let ?w = "stream_bits m p n :: u32"
  let ?v = "signed_take_bit (n - 1) (uint ?w)"
  obtain s' where "ReadUBitLong (int n) s = Some (?w, s')" "reads_at m (p + n) s'"
    using ReadUBitLong_reads [OF assms(1), of "int n"] assms by auto
  moreover have "sint (sar32 (shl32 ?w (32 - int n)) (32 - int n)) = ?v"
    using sign_extend32 [of "int n" ?w] assms min_absorb1 [of "n - 1" 31]
    by (simp add: sint_uint signed_take_bit_signed_take_bit)
  moreover have "- (2 ^ (n - 1)) \<le> ?v" "?v < 2 ^ (n - 1)"
    using signed_take_bit_int_greater_eq_minus_exp [of "n - 1" "uint ?w"]
      signed_take_bit_int_less_exp [of "n - 1" "uint ?w"] by simp_all
  ultimately show ?thesis by (simp add: ReadSBitLong_def)
qed

theorem ReadSBitLong_twos_complement_witness:
  "\<exists>s s'. reads_at [0xFE, 0xFF] 0 s \<and> ReadSBitLong 16 s = Some (- 2, s')"
proof -
  obtain s where s: "reads_at [0xFE, 0xFF] 0 s"
    using CBitRead_ctor_reads [of 0 "[0xFE, 0xFF]" sample_reader] by auto
  have "(stream_bits [0xFE, 0xFF] 0 16 :: u32) = 0xFFFE"
    by (simp add: stream_bits_def sbit_def upt_rec horner_sum_simps bit_numeral_rec)
  then show ?thesis using ReadSBitLong_twos_complement [OF s, of 16] s by force
qed

end
