(* ===== verification/BitCodec.thy ===== *)
theory BitCodec
  imports BitRead
begin

text \<open>
  The codecs layered on \<open>CBitRead.ReadUBitLong\<close>: zigzag and variable-length integers,
  strings, and block copies (\<^verbatim>\<open>packetbitbuf.h\<close>, namespace \<open>bitbuf\<close>, and
  \<^verbatim>\<open>packetbitbuf.cpp\<close>). They use nothing of the reader but its \<open>n\<close>-bit read, so their
  correctness is proved once, in the locale \<open>bit_reader\<close> of readers that deliver the bits
  of a block in order, and holds for \<open>CBitRead\<close> by interpretation.
\<close>

subsection \<open>Zigzag\<close>

text \<open>The arguments of type \<open>int32\<close> and \<open>int64\<close> are words read as two's complement.\<close>

definition ZigZagEncode32 :: "u32 \<Rightarrow> u32" where
  "ZigZagEncode32 n = push_bit 1 n XOR signed_drop_bit 31 n"

definition ZigZagDecode32 :: "u32 \<Rightarrow> u32" where
  "ZigZagDecode32 n = drop_bit 1 n XOR - (n AND 1)"

definition ZigZagEncode64 :: "u64 \<Rightarrow> u64" where
  "ZigZagEncode64 n = push_bit 1 n XOR signed_drop_bit 63 n"

definition ZigZagDecode64 :: "u64 \<Rightarrow> u64" where
  "ZigZagDecode64 n = drop_bit 1 n XOR - (n AND 1)"

subsection \<open>Variable-length integers\<close>

definition kMaxVarintBytes :: nat where "kMaxVarintBytes = 10"

definition kMaxVarint32Bytes :: nat where "kMaxVarint32Bytes = 5"

text \<open>
  The loop shared by \<open>ReadVarInt32\<close> and \<open>ReadVarInt64\<close>; \<open>rd8\<close> is the read of the next
  eight bits and the first \<open>nat\<close> is what is left of the byte limit.
\<close>

fun VarInt_loop ::
  "('s \<Rightarrow> (u32 \<times> 's) option) \<Rightarrow> nat \<Rightarrow> nat \<Rightarrow> 'a::len word \<Rightarrow> 's \<Rightarrow> ('a word \<times> 's) option" where
  "VarInt_loop rd8 0 count result s = Some (result, s)"
| "VarInt_loop rd8 (Suc left) count result s = do {
     (b, s') \<leftarrow> rd8 s;
     let result' = result OR push_bit (7 * count) (ucast (b AND 0x7F));
     if b AND 0x80 \<noteq> 0 then VarInt_loop rd8 left (Suc count) result' s'
     else Some (result', s') }"

definition ReadVarInt32 :: "CBitRead \<Rightarrow> (u32 \<times> CBitRead) option" where
  "ReadVarInt32 s = VarInt_loop (ReadUBitLong 8) kMaxVarint32Bytes 0 0 s"

definition ReadVarInt64 :: "CBitRead \<Rightarrow> (u64 \<times> CBitRead) option" where
  "ReadVarInt64 s = VarInt_loop (ReadUBitLong 8) kMaxVarintBytes 0 0 s"

definition ReadSignedVarInt32 :: "CBitRead \<Rightarrow> (u32 \<times> CBitRead) option" where
  "ReadSignedVarInt32 s = do { (v, s') \<leftarrow> ReadVarInt32 s; Some (ZigZagDecode32 v, s') }"

definition ReadSignedVarInt64 :: "CBitRead \<Rightarrow> (u64 \<times> CBitRead) option" where
  "ReadSignedVarInt64 s = do { (v, s') \<leftarrow> ReadVarInt64 s; Some (ZigZagDecode64 v, s') }"

subsection \<open>Strings\<close>

text \<open>
  The destination is the caller's array \<open>pStr\<close>; \<open>small\<close> is \<open>bTooSmall\<close>. The loop has no
  bound of its own.
\<close>

partial_function (option) ReadString_loop ::
  "(CBitRead \<Rightarrow> (int \<times> CBitRead) option) \<Rightarrow> bool \<Rightarrow> int \<Rightarrow> u8 list \<Rightarrow> int \<Rightarrow> bool \<Rightarrow> CBitRead \<Rightarrow>
     (u8 list \<times> int \<times> bool \<times> CBitRead) option" where
  "ReadString_loop rdc bLine maxLen pStr iChar small s = do {
     (val, s') \<leftarrow> rdc s;
     if val = 0 then Some (pStr, iChar, small, s')
     else if bLine \<and> val = 10 then Some (pStr, iChar, small, s')
     else if iChar < maxLen - 1 then do {
       pStr' \<leftarrow> poke8 pStr iChar (word_of_int val);
       ReadString_loop rdc bLine maxLen pStr' (iChar + 1) small s' }
     else ReadString_loop rdc bLine maxLen pStr iChar True s' }"

text \<open>The result is the return value, the array and \<open>*pOutNumChars\<close>.\<close>

definition ReadString ::
  "u8 list \<Rightarrow> int \<Rightarrow> bool \<Rightarrow> CBitRead \<Rightarrow> (bool \<times> u8 list \<times> int \<times> CBitRead) option" where
  "ReadString pStr maxLen bLine s =
     (if maxLen = 0 then None
      else do {
        (pStr1, iChar, small, s') \<leftarrow> ReadString_loop ReadChar bLine maxLen pStr 0 False s;
        if iChar < maxLen then do {
          pStr2 \<leftarrow> poke8 pStr1 iChar 0;
          Some (\<not> IsOverflowed s' \<and> \<not> small, pStr2, iChar, s') }
        else None })"

subsection \<open>Block copies\<close>

text \<open>
  \<open>ReadBits\<close> writes consecutive bytes from \<open>pOut\<close>; the model returns the bytes written.
  \<open>addr\<close> is the destination address, of which only the alignment matters.
\<close>

definition le_bytes :: "u32 \<Rightarrow> u8 list" where
  "le_bytes w = [ucast w, ucast (drop_bit 8 w), ucast (drop_bit 16 w), ucast (drop_bit 24 w)]"

function ReadBits_align ::
  "(int \<Rightarrow> 's \<Rightarrow> (u32 \<times> 's) option) \<Rightarrow> nat \<Rightarrow> int \<Rightarrow> 's \<Rightarrow> (u8 list \<times> int \<times> 's) option" where
  "ReadBits_align rd addr nBitsLeft s =
     (if addr mod 4 \<noteq> 0 \<and> nBitsLeft \<ge> 8 then do {
        (b, s1) \<leftarrow> rd 8 s;
        (bs, n, s2) \<leftarrow> ReadBits_align rd (addr + 1) (nBitsLeft - 8) s1;
        Some (ucast b # bs, n, s2) }
      else Some ([], nBitsLeft, s))"
  by pat_completeness auto
termination
  by (relation "measure (\<lambda>(rd, addr, n, s). nat n)") auto

function ReadBits_dwords ::
  "(int \<Rightarrow> 's \<Rightarrow> (u32 \<times> 's) option) \<Rightarrow> int \<Rightarrow> 's \<Rightarrow> (u8 list \<times> int \<times> 's) option" where
  "ReadBits_dwords rd nBitsLeft s =
     (if nBitsLeft \<ge> 32 then do {
        (w, s1) \<leftarrow> rd 32 s;
        (bs, n, s2) \<leftarrow> ReadBits_dwords rd (nBitsLeft - 32) s1;
        Some (le_bytes w @ bs, n, s2) }
      else Some ([], nBitsLeft, s))"
  by pat_completeness auto
termination
  by (relation "measure (\<lambda>(rd, n, s). nat n)") auto

function ReadBits_bytes ::
  "(int \<Rightarrow> 's \<Rightarrow> (u32 \<times> 's) option) \<Rightarrow> int \<Rightarrow> 's \<Rightarrow> (u8 list \<times> int \<times> 's) option" where
  "ReadBits_bytes rd nBitsLeft s =
     (if nBitsLeft \<ge> 8 then do {
        (b, s1) \<leftarrow> rd 8 s;
        (bs, n, s2) \<leftarrow> ReadBits_bytes rd (nBitsLeft - 8) s1;
        Some (ucast b # bs, n, s2) }
      else Some ([], nBitsLeft, s))"
  by pat_completeness auto
termination
  by (relation "measure (\<lambda>(rd, n, s). nat n)") auto

declare ReadBits_align.simps [simp del] ReadBits_dwords.simps [simp del] ReadBits_bytes.simps [simp del]

definition ReadBits_gen ::
  "(int \<Rightarrow> 's \<Rightarrow> (u32 \<times> 's) option) \<Rightarrow> nat \<Rightarrow> int \<Rightarrow> 's \<Rightarrow> (u8 list \<times> 's) option" where
  "ReadBits_gen rd addr nBits s = do {
     (b1, n1, s1) \<leftarrow> ReadBits_align rd addr nBits s;
     (b2, n2, s2) \<leftarrow> ReadBits_dwords rd n1 s1;
     (b3, n3, s3) \<leftarrow> ReadBits_bytes rd n2 s2;
     if n3 \<noteq> 0 then do { (b, s4) \<leftarrow> rd n3 s3; Some (b1 @ b2 @ b3 @ [ucast b], s4) }
     else Some (b1 @ b2 @ b3, s3) }"

definition ReadBits :: "nat \<Rightarrow> int \<Rightarrow> CBitRead \<Rightarrow> (u8 list \<times> CBitRead) option" where
  "ReadBits addr nBits s = ReadBits_gen ReadUBitLong addr nBits s"

definition ReadBytes :: "nat \<Rightarrow> int \<Rightarrow> CBitRead \<Rightarrow> (bool \<times> u8 list \<times> CBitRead) option" where
  "ReadBytes addr nBytes s = do {
     (bs, s') \<leftarrow> ReadBits addr (i32 (nBytes * 8)) s;
     Some (\<not> IsOverflowed s', bs, s') }"

subsection \<open>What the codecs decode\<close>

text \<open>
  A block holds given bytes from bit \<open>p\<close> on (at any alignment).
\<close>

definition carries :: "u8 list \<Rightarrow> nat \<Rightarrow> u8 list \<Rightarrow> bool" where
  "carries m p bs \<longleftrightarrow> p + 8 * length bs \<le> 8 * length m \<and>
     (\<forall>i < length bs. stream_bits m (p + 8 * i) 8 = bs ! i)"

lemma carries_Cons:
  "carries m p (b # bs) \<longleftrightarrow> p + 8 \<le> 8 * length m \<and> stream_bits m p 8 = b \<and> carries m (p + 8) bs"
  by (auto simp: carries_def less_Suc_eq_0_disj algebra_simps)

lemma carries_Nil [simp]: "carries m p [] \<longleftrightarrow> p \<le> 8 * length m"
  by (simp add: carries_def)

lemma stream_byte_u32: "stream_bits m p 8 = (b::u8) \<Longrightarrow> (stream_bits m p 8 :: u32) = ucast b"
proof (rule bit_word_eqI)
  fix i assume "stream_bits m p 8 = b" "i < LENGTH(32)"
  then show "bit (stream_bits m p 8 :: u32) i = bit (ucast b :: u32) i"
    by (auto simp: bit_ucast_byte stream_bit_simps)
qed

lemma carries_block: "carries (pre @ bs @ post) (8 * length pre) bs"
  by (auto simp: carries_def nth_append stream_bits_byte distrib_left [symmetric]
      simp del: distrib_left_numeral)

subsection \<open>Readers that deliver a block bit by bit\<close>

locale bit_reader =
  fixes rd :: "int \<Rightarrow> 's \<Rightarrow> (u32 \<times> 's) option"
    and at :: "u8 list \<Rightarrow> nat \<Rightarrow> 's \<Rightarrow> bool"
    and spent :: "u8 list \<Rightarrow> 's \<Rightarrow> bool"
  assumes rd_reads: "at m p s \<Longrightarrow> 0 \<le> n \<Longrightarrow> n \<le> 32 \<Longrightarrow> p + nat n \<le> 8 * length m \<Longrightarrow>
      \<exists>s'. rd n s = Some (stream_bits m p (nat n), s') \<and> at m (p + nat n) s'"
    and rd_past_end: "at m p s \<Longrightarrow> 0 \<le> n \<Longrightarrow> n \<le> 32 \<Longrightarrow> 8 * length m < p + nat n \<Longrightarrow>
      \<exists>s'. rd n s = Some (0, s') \<and> spent m s'"
    and rd_spent: "spent m s \<Longrightarrow> 0 \<le> n \<Longrightarrow> n \<le> 32 \<Longrightarrow> \<exists>s'. rd n s = Some (0, s') \<and> spent m s'"

interpretation cbr: bit_reader ReadUBitLong reads_at reader_spent
  by unfold_locales (auto intro: ReadUBitLong_reads ReadUBitLong_past_end ReadUBitLong_spent)

lemma varint_group:
  "push_bit k (of_nat (x mod 128) :: 'a::len word) OR push_bit (k + 7) (of_nat (x div 128))
    = push_bit k (of_nat x)"
proof -
  have split: "x mod 128 = take_bit 7 x" "x div 128 = drop_bit 7 x"
    by (simp_all add: take_bit_eq_mod drop_bit_eq_div)
  show ?thesis
    unfolding split
  proof (rule bit_word_eqI)
    fix i assume "i < LENGTH('a)"
    then show "bit (push_bit k (of_nat (take_bit 7 x)) OR push_bit (k + 7) (of_nat (drop_bit 7 x)) :: 'a word) i
        = bit (push_bit k (of_nat x) :: 'a word) i"
      by (cases "i < k + 7") (auto simp: stream_bit_simps bit_of_nat_iff)
  qed
qed

text \<open>The byte read back from the first group of an encoding.\<close>

lemma and_7F: "(of_nat y :: u32) AND 0x7F = of_nat (y mod 128)"
proof -
  have "(of_nat y :: u32) AND 0x7F = take_bit 7 (of_nat y)"
    by (simp add: take_bit_eq_mask mask_eq_exp_minus_1)
  also have "\<dots> = of_nat (take_bit 7 y)" by (simp add: of_nat_take_bit)
  finally show ?thesis by (simp add: take_bit_eq_mod)
qed

lemma bit_80: "bit (0x80::u32) n \<longleftrightarrow> n = 7"
proof -
  have "(0x80::u32) = 2 ^ 7" by simp
  then have "bit (0x80::u32) n \<longleftrightarrow> bit (2 ^ 7 :: u32) n" by (simp only:)
  then show ?thesis by (auto simp only: bit_exp_iff possible_bit_word) simp
qed

lemma and_80: "y < 256 \<Longrightarrow> (of_nat y :: u32) AND 0x80 = (if y < 128 then 0 else 0x80)"
proof -
  assume "y < 256"
  have "bit y 7 \<longleftrightarrow> 128 \<le> y"
  proof (cases "y < 128")
    case False
    then have "y div 128 = 1" using \<open>y < 256\<close> by (intro div_nat_eqI) auto
    with False show ?thesis by (simp add: bit_iff_odd)
  qed (simp add: bit_iff_odd)
  then have "bit ((of_nat y :: u32) AND 0x80) n = bit (if y < 128 then 0 else 0x80 :: u32) n"
    if "n < LENGTH(32)" for n
    using that by (simp only: bit_and_iff bit_80 bit_of_nat_iff if_distrib [of "\<lambda>w. bit w n"] bit_0_eq
        possible_bit_word) auto
  then show ?thesis by (rule bit_word_eqI)
qed

lemma byte_u32: "y < 256 \<Longrightarrow> (ucast (of_nat y :: u8) :: u32) = of_nat y"
  by (simp add: unsigned_of_nat take_bit_nat_eq_self)

lemma ucast_small: "y < 2 ^ 32 \<Longrightarrow> ucast (of_nat y :: u32) = (of_nat y :: 'a::len word)"
  by (simp add: unsigned_of_nat take_bit_nat_eq_self)

context bit_reader
begin

lemma VarInt_loop_decodes:
  assumes "at m p s" and "carries m p (varint_bytes x)" and "length (varint_bytes x) \<le> left"
  shows "\<exists>s'. VarInt_loop (rd 8) left c r s = Some (r OR push_bit (7 * c) (of_nat x) :: 'a::len word, s')
     \<and> at m (p + 8 * length (varint_bytes x)) s'"
  using assms
proof (induction x arbitrary: p s left c r rule: varint_bytes.induct)
  case (1 x)
  obtain left' where left: "left = Suc left'"
    using "1.prems"(3) by (cases left) (auto simp: varint_bytes.simps [of x] split: if_splits)
  have at: "at m p s" by fact
  show ?case
  proof (cases "x < 128")
    case True
    then have enc: "varint_bytes x = [of_nat x]" by (simp add: varint_bytes.simps)
    with "1.prems"(2) have b: "p + 8 \<le> 8 * length m" "(stream_bits m p 8 :: u32) = of_nat x"
      using True by (auto simp: carries_Cons stream_byte_u32 byte_u32)
    obtain s' where "rd 8 s = Some (of_nat x, s')" "at m (p + 8) s'"
      using rd_reads [OF at, of 8] b by auto
    with True show ?thesis by (simp add: left enc and_7F and_80 ucast_small)
  next
    case False
    let ?y = "x mod 128"
    have enc: "varint_bytes x = of_nat (?y + 128) # varint_bytes (x div 128)"
      using False by (simp add: varint_bytes.simps)
    have y: "?y + 128 < 256" "(?y + 128) mod 128 = ?y" by simp_all
    have b: "p + 8 \<le> 8 * length m" "(stream_bits m p 8 :: u32) = of_nat (?y + 128)"
      and rest: "carries m (p + 8) (varint_bytes (x div 128))"
      using "1.prems"(2) y by (auto simp: enc carries_Cons stream_byte_u32 byte_u32 simp del: of_nat_add)
    obtain s1 where s1: "rd 8 s = Some (of_nat (?y + 128), s1)" "at m (p + 8) s1"
      using rd_reads [OF at, of 8] b by auto
    let ?r = "r OR push_bit (7 * c) (of_nat ?y) :: 'a word"
    have "length (varint_bytes (x div 128)) \<le> left'" using "1.prems"(3) by (simp add: enc left)
    from "1.IH" [OF False s1(2) rest this, of "Suc c" ?r] obtain s' where
      s': "VarInt_loop (rd 8) left' (Suc c) ?r s1 = Some (?r OR push_bit (7 * Suc c) (of_nat (x div 128)), s')"
        "at m (p + 8 + 8 * length (varint_bytes (x div 128))) s'" by blast
    have "?r OR push_bit (7 * Suc c) (of_nat (x div 128)) = r OR push_bit (7 * c) (of_nat x)"
      using varint_group [of "7 * c" x, where 'a = 'a] by (simp add: or.assoc add.commute)
    moreover have "VarInt_loop (rd 8) left c r s = VarInt_loop (rd 8) left' (Suc c) ?r s1"
      using s1 y by (simp add: left and_7F and_80 ucast_small del: of_nat_add)
    ultimately show ?thesis using s' by (simp add: enc add.assoc)
  qed
qed

text \<open>Whatever the block holds, the loop returns, and it has consumed at least one byte.\<close>

lemma VarInt_loop_spent:
  "spent m s \<Longrightarrow> \<exists>v s'. VarInt_loop (rd 8) left c r s = Some (v, s') \<and> spent m s'"
proof (cases left)
  case (Suc l)
  assume "spent m s"
  then obtain s' where "rd 8 s = Some (0, s')" "spent m s'" using rd_spent [of m s 8] by auto
  with Suc show ?thesis by simp
qed simp

lemma VarInt_loop_total:
  assumes "at m p s"
  shows "\<exists>v s'. VarInt_loop (rd 8) (Suc left) c r s = Some (v, s') \<and>
     (spent m s' \<or> (\<exists>k. 0 < k \<and> k \<le> Suc left \<and> at m (p + 8 * k) s'))"
  using assms
proof (induction left arbitrary: p s c r)
  case 0
  then show ?case
  proof (cases "p + 8 \<le> 8 * length m")
    case True
    then show ?thesis using rd_reads [OF 0, of 8] by (fastforce simp: Let_def)
  next
    case False
    then show ?thesis using rd_past_end [OF 0, of 8] by (fastforce simp: Let_def)
  qed
next
  case (Suc left)
  show ?case
  proof (cases "p + 8 \<le> 8 * length m")
    case True
    then obtain s1 where s1: "rd 8 s = Some (stream_bits m p 8, s1)" "at m (p + 8) s1"
      using rd_reads [OF Suc.prems, of 8] by auto
    let ?b = "stream_bits m p 8 :: u32"
    let ?r = "r OR push_bit (7 * c) (ucast (?b AND 0x7F))"
    show ?thesis
    proof (cases "?b AND 0x80 = 0")
      case True
      with s1 show ?thesis by (intro exI [of _ ?r] exI [of _ s1]) (auto intro!: exI [of _ 1])
    next
      case False
      have step: "VarInt_loop (rd 8) (Suc (Suc left)) c r s = VarInt_loop (rd 8) (Suc left) (Suc c) ?r s1"
        using s1 False by (subst VarInt_loop.simps) (simp add: Let_def del: VarInt_loop.simps)
      from Suc.IH [OF s1(2), of "Suc c" ?r] obtain v s' where
        v: "VarInt_loop (rd 8) (Suc left) (Suc c) ?r s1 = Some (v, s')" and
        pos: "spent m s' \<or> (\<exists>k. 0 < k \<and> k \<le> Suc left \<and> at m (p + 8 + 8 * k) s')" by blast
      have "\<exists>k. 0 < k \<and> k \<le> Suc (Suc left) \<and> at m (p + 8 * k) s'" if "\<not> spent m s'"
      proof -
        from pos that obtain k where "0 < k" "k \<le> Suc left" "at m (p + 8 + 8 * k) s'" by blast
        then show ?thesis by (intro exI [of _ "Suc k"]) (simp add: add.assoc)
      qed
      with step v show ?thesis by auto
    qed
  next
    case False
    then obtain s1 where "rd 8 s = Some (0, s1)" "spent m s1"
      using rd_past_end [OF Suc.prems, of 8] by auto
    then show ?thesis by simp
  qed
qed

end

subsection \<open>Zigzag is a bijection\<close>

lemma minus_lsb: "- ((n::'a::len word) AND 1) = (if bit n 0 then - 1 else 0)"
  by (auto simp: and_one_eq bit_0 odd_iff_mod_2_eq_one even_iff_mod_2_eq_zero)

lemma signed_drop_bit_all: "signed_drop_bit (LENGTH('a) - 1) (n::'a::len word) = (if bit n (LENGTH('a) - 1) then - 1 else 0)"
proof (rule bit_word_eqI)
  fix i assume "i < LENGTH('a)"
  then show "bit (signed_drop_bit (LENGTH('a) - 1) n) i = bit (if bit n (LENGTH('a) - 1) then - 1 else 0 :: 'a word) i"
    by (cases i) (auto simp: bit_signed_drop_bit_iff)
qed

text \<open>Both transforms, bit by bit.\<close>

lemma bit_zigzag_enc:
  fixes n :: "'a::len word"
  assumes "i < LENGTH('a)"
  shows "bit (push_bit 1 n XOR signed_drop_bit (LENGTH('a) - 1) n) i
    \<longleftrightarrow> (1 \<le> i \<and> bit n (i - 1)) \<noteq> bit n (LENGTH('a) - 1)"
  unfolding bit_xor_iff bit_push_bit_iff signed_drop_bit_all using assms by auto

lemma bit_zigzag_dec:
  fixes n :: "'a::len word"
  assumes "i < LENGTH('a)"
  shows "bit (drop_bit 1 n XOR - (n AND 1)) i \<longleftrightarrow> bit n (Suc i) \<noteq> bit n 0"
  unfolding bit_xor_iff bit_drop_bit_eq minus_lsb using assms by auto

lemma zigzag_dec_enc:
  fixes n :: "'a::len word"
  defines "e \<equiv> push_bit 1 n XOR signed_drop_bit (LENGTH('a) - 1) n"
  shows "drop_bit 1 e XOR - (e AND 1) = n"
proof (rule bit_word_eqI)
  fix i assume i: "i < LENGTH('a)"
  have low: "bit e 0 = bit n (LENGTH('a) - 1)" unfolding e_def by (subst bit_zigzag_enc) auto
  show "bit (drop_bit 1 e XOR - (e AND 1)) i = bit n i"
  proof (cases "Suc i < LENGTH('a)")
    case True
    with i low show ?thesis by (simp only: bit_zigzag_dec) (auto simp only: e_def bit_zigzag_enc, auto)
  next
    case False
    then have "\<not> bit e (Suc i)" using bit_imp_le_length [of e] by blast
    moreover have "i = LENGTH('a) - 1" using i False by simp
    ultimately show ?thesis using i low by (simp only: bit_zigzag_dec) simp
  qed
qed

lemma zigzag_enc_dec:
  fixes n :: "'a::len word"
  defines "d \<equiv> drop_bit 1 n XOR - (n AND 1)"
  shows "push_bit 1 d XOR signed_drop_bit (LENGTH('a) - 1) d = n"
proof (rule bit_word_eqI)
  fix i assume i: "i < LENGTH('a)"
  have "\<not> bit n (Suc (LENGTH('a) - 1))" using bit_imp_le_length [of n] by auto
  then have top: "bit d (LENGTH('a) - 1) = bit n 0" unfolding d_def by (subst bit_zigzag_dec) auto
  show "bit (push_bit 1 d XOR signed_drop_bit (LENGTH('a) - 1) d) i = bit n i"
  proof (cases i)
    case 0
    with i top show ?thesis by (simp only: bit_zigzag_enc) simp
  next
    case (Suc j)
    then have "bit d j \<longleftrightarrow> bit n (Suc j) \<noteq> bit n 0" using i unfolding d_def by (subst bit_zigzag_dec) auto
    with Suc i top show ?thesis by (simp only: bit_zigzag_enc) auto
  qed
qed

lemma ZigZag32_inverse: "ZigZagDecode32 (ZigZagEncode32 n) = n" "ZigZagEncode32 (ZigZagDecode32 n) = n"
  using zigzag_dec_enc [of n] zigzag_enc_dec [of n]
  by (simp_all add: ZigZagDecode32_def ZigZagEncode32_def)

lemma ZigZag64_inverse: "ZigZagDecode64 (ZigZagEncode64 n) = n" "ZigZagEncode64 (ZigZagDecode64 n) = n"
  using zigzag_dec_enc [of n] zigzag_enc_dec [of n]
  by (simp_all add: ZigZagDecode64_def ZigZagEncode64_def)

text \<open>Small magnitudes get small codes: the table in the comment of \<^verbatim>\<open>packetbitbuf.h\<close>.\<close>

lemma ZigZagEncode32_value:
  "uint (ZigZagEncode32 n) = (if 0 \<le> sint n then 2 * sint n else - 2 * sint n - 1)"
proof -
  have n: "n = word_of_int (sint n)" by simp
  have range: "- (2 ^ 31) \<le> sint n" "sint n < 2 ^ 31"
    using sint_greater_eq [of n] sint_less [of n] by simp_all
  have sign: "bit n 31 \<longleftrightarrow> sint n < 0" using bit_last_iff [of n] by simp
  have shl: "push_bit 1 n = word_of_int (2 * sint n)"
    by (subst n) (simp add: push_bit_eq_mult)
  show ?thesis
  proof (cases "0 \<le> sint n")
    case True
    then have "ZigZagEncode32 n = word_of_int (2 * sint n)"
      using sign signed_drop_bit_all [of n] by (simp add: ZigZagEncode32_def shl)
    then have "uint (ZigZagEncode32 n) = (2 * sint n) mod 2 ^ 32"
      by (simp only: uint_word_of_int) simp
    with True range show ?thesis by simp
  next
    case False
    then have "ZigZagEncode32 n = NOT (word_of_int (2 * sint n))"
      using sign signed_drop_bit_all [of n] by (simp add: ZigZagEncode32_def shl)
    also have "\<dots> = word_of_int (- 2 * sint n - 1)" by (simp add: not_eq_complement)
    finally have "uint (ZigZagEncode32 n) = (- 2 * sint n - 1) mod 2 ^ 32"
      by (simp only: uint_word_of_int) simp
    with False range show ?thesis by simp
  qed
qed

subsection \<open>Block copies deliver the stream\<close>

text \<open>The bytes of an \<open>n\<close>-bit read at position \<open>p\<close>; the last one may be partial.\<close>

fun chop :: "u8 list \<Rightarrow> nat \<Rightarrow> nat \<Rightarrow> u8 list" where
  "chop m p n = (if 8 \<le> n then stream_bits m p 8 # chop m (p + 8) (n - 8)
     else if 0 < n then [stream_bits m p n] else [])"

declare chop.simps [simp del]

lemma chop_carries: "carries m p bs \<Longrightarrow> chop m p (8 * length bs + r) = bs @ chop m (p + 8 * length bs) r"
proof (induction bs arbitrary: p)
  case (Cons b bs)
  then have "chop m (p + 8) (8 * length bs + r) = bs @ chop m (p + 8 + 8 * length bs) r"
    by (simp add: carries_Cons)
  with Cons.prems show ?case by (subst chop.simps) (simp add: carries_Cons add.assoc)
qed simp

lemma carries_append:
  "carries m p (xs @ ys) \<longleftrightarrow> carries m p xs \<and> carries m (p + 8 * length xs) ys"
proof (induction xs arbitrary: p)
  case Nil
  then show ?case by (auto simp: carries_def)
next
  case (Cons x xs)
  then show ?case by (simp add: carries_Cons add.assoc)
qed

lemma ucast_stream_byte: "8 * k + 8 \<le> 32 \<Longrightarrow>
    (ucast (drop_bit (8 * k) (stream_bits m p 32 :: u32)) :: u8) = stream_bits m (p + 8 * k) 8"
  by (rule bit_word_eqI) (auto simp: bit_ucast_iff stream_bit_simps add.assoc)

lemma le_bytes_stream:
  "le_bytes (stream_bits m p 32) = [stream_bits m p 8, stream_bits m (p + 8) 8, stream_bits m (p + 16) 8, stream_bits m (p + 24) 8]"
  using ucast_stream_byte [of 0 m p] ucast_stream_byte [of 1 m p] ucast_stream_byte [of 2 m p]
    ucast_stream_byte [of 3 m p]
  by (simp add: le_bytes_def)

lemma carries_dword:
  "carries m p (le_bytes (stream_bits m p 32)) \<longleftrightarrow> p + 32 \<le> 8 * length m"
  by (auto simp: le_bytes_stream carries_Cons add.commute)

lemma ucast_stream_low: "k \<le> 8 \<Longrightarrow> (ucast (stream_bits m p k :: u32) :: u8) = stream_bits m p k"
  by (rule bit_word_eqI) (auto simp: bit_ucast_iff stream_bit_simps)

text \<open>The byte loop leaves fewer than eight bits.\<close>

lemma ReadBits_bytes_rest: "ReadBits_bytes rd n s = Some (bs, n', s') \<Longrightarrow> n' < 8"
proof (induction rd n s arbitrary: bs rule: ReadBits_bytes.induct)
  case (1 rd n s)
  show ?case
  proof (cases "n \<ge> 8")
    case True
    with "1.prems" obtain b s1 bs1 where "rd 8 s = Some (b, s1)"
      "ReadBits_bytes rd (n - 8) s1 = Some (bs1, n', s')"
      by (subst (asm) ReadBits_bytes.simps) (auto simp: bind_eq_Some_conv)
    with "1.IH" True show ?thesis by blast
  next
    case False
    with "1.prems" show ?thesis by (subst (asm) ReadBits_bytes.simps) simp
  qed
qed

context bit_reader
begin

text \<open>What each of the three copy loops achieves.\<close>

definition copied :: "u8 list \<Rightarrow> nat \<Rightarrow> int \<Rightarrow> (u8 list \<times> int \<times> 's) option \<Rightarrow> bool" where
  "copied m p n res \<longleftrightarrow> (\<exists>bs n' s'. res = Some (bs, n', s') \<and> carries m p bs \<and>
     0 \<le> n' \<and> 8 * int (length bs) + n' = n \<and> at m (p + 8 * length bs) s')"

lemma copied_stop: "at m p s \<Longrightarrow> 0 \<le> n \<Longrightarrow> p + nat n \<le> 8 * length m \<Longrightarrow> copied m p n (Some ([], n, s))"
  by (auto simp: copied_def)

lemma copied_step:
  assumes "copied m (p + 8 * length xs) (n - 8 * int (length xs)) rest" and "carries m p xs"
    and "rest = Some (bs, n', s')"
  shows "copied m p n (Some (xs @ bs, n', s'))"
  using assms by (auto simp: copied_def carries_append algebra_simps)

lemma read_byte:
  assumes "at m p s" and "p + 8 \<le> 8 * length m"
  obtains s' where "rd 8 s = Some (stream_bits m p 8, s')" "at m (p + 8) s'" "carries m p [ucast (stream_bits m p 8 :: u32)]"
proof -
  obtain s' where "rd 8 s = Some (stream_bits m p 8, s')" "at m (p + 8) s'"
    using rd_reads [OF assms(1), of 8] assms(2) by auto
  moreover have "carries m p [ucast (stream_bits m p 8 :: u32)]"
    using assms(2) by (simp add: carries_Cons ucast_stream_low)
  ultimately show thesis by (rule that)
qed

lemma ReadBits_align_copied:
  "at m p s \<Longrightarrow> 0 \<le> n \<Longrightarrow> p + nat n \<le> 8 * length m \<Longrightarrow> copied m p n (ReadBits_align rd addr n s)"
proof (induction "nat n" arbitrary: addr n p s rule: less_induct)
  case less
  show ?case
  proof (cases "addr mod 4 \<noteq> 0 \<and> n \<ge> 8")
    case True
    then have "p + 8 \<le> 8 * length m" using less.prems by linarith
    then obtain s1 where s1: "rd 8 s = Some (stream_bits m p 8, s1)" "at m (p + 8) s1"
      and c: "carries m p [ucast (stream_bits m p 8 :: u32)]"
      by (rule read_byte [OF less.prems(1)])
    have IH: "copied m (p + 8) (n - 8) (ReadBits_align rd (addr + 1) (n - 8) s1)"
      using less.prems True by (intro less.hyps s1) auto
    then obtain bs n' s' where r: "ReadBits_align rd (addr + 1) (n - 8) s1 = Some (bs, n', s')"
      by (auto simp: copied_def)
    from copied_step [of m p "[ucast (stream_bits m p 8 :: u32)]" n, OF _ c r] IH
    show ?thesis using True s1 r by (subst ReadBits_align.simps) simp
  next
    case False
    with less.prems show ?thesis by (subst ReadBits_align.simps) (auto intro: copied_stop)
  qed
qed

lemma ReadBits_bytes_copied:
  "at m p s \<Longrightarrow> 0 \<le> n \<Longrightarrow> p + nat n \<le> 8 * length m \<Longrightarrow> copied m p n (ReadBits_bytes rd n s)"
proof (induction "nat n" arbitrary: n p s rule: less_induct)
  case less
  show ?case
  proof (cases "n \<ge> 8")
    case True
    then have "p + 8 \<le> 8 * length m" using less.prems by linarith
    then obtain s1 where s1: "rd 8 s = Some (stream_bits m p 8, s1)" "at m (p + 8) s1"
      and c: "carries m p [ucast (stream_bits m p 8 :: u32)]"
      by (rule read_byte [OF less.prems(1)])
    have IH: "copied m (p + 8) (n - 8) (ReadBits_bytes rd (n - 8) s1)"
      using less.prems True by (intro less.hyps s1) auto
    then obtain bs n' s' where r: "ReadBits_bytes rd (n - 8) s1 = Some (bs, n', s')"
      by (auto simp: copied_def)
    from copied_step [of m p "[ucast (stream_bits m p 8 :: u32)]" n, OF _ c r] IH
    show ?thesis using True s1 r by (subst ReadBits_bytes.simps) simp
  next
    case False
    with less.prems show ?thesis by (subst ReadBits_bytes.simps) (auto intro: copied_stop)
  qed
qed

lemma ReadBits_dwords_copied:
  "at m p s \<Longrightarrow> 0 \<le> n \<Longrightarrow> p + nat n \<le> 8 * length m \<Longrightarrow> copied m p n (ReadBits_dwords rd n s)"
proof (induction "nat n" arbitrary: n p s rule: less_induct)
  case less
  show ?case
  proof (cases "n \<ge> 32")
    case True
    let ?w = "stream_bits m p 32 :: u32"
    have room: "p + 32 \<le> 8 * length m" using less.prems True by linarith
    then obtain s1 where s1: "rd 32 s = Some (?w, s1)" "at m (p + 32) s1"
      using rd_reads [OF less.prems(1), of 32] by auto
    have c: "carries m p (le_bytes ?w)" using room by (simp only: carries_dword)
    have len: "length (le_bytes ?w) = 4" by (simp add: le_bytes_def)
    have IH: "copied m (p + 32) (n - 32) (ReadBits_dwords rd (n - 32) s1)"
      using less.prems True by (intro less.hyps s1) auto
    then obtain bs n' s' where r: "ReadBits_dwords rd (n - 32) s1 = Some (bs, n', s')"
      by (auto simp: copied_def)
    from copied_step [of m p "le_bytes ?w" n, OF _ c r] IH
    show ?thesis using True s1 r len by (subst ReadBits_dwords.simps) simp
  next
    case False
    with less.prems show ?thesis by (subst ReadBits_dwords.simps) (auto intro: copied_stop)
  qed
qed

lemma ReadBits_gen_reads:
  assumes "at m p s" and "0 \<le> n" and "p + nat n \<le> 8 * length m"
  shows "\<exists>s'. ReadBits_gen rd addr n s = Some (chop m p (nat n), s') \<and> at m (p + nat n) s'"
proof -
  obtain b1 n1 s1 where r1: "ReadBits_align rd addr n s = Some (b1, n1, s1)" and c1: "carries m p b1"
    and n1: "0 \<le> n1" "8 * int (length b1) + n1 = n" and a1: "at m (p + 8 * length b1) s1"
    using ReadBits_align_copied [OF assms, of addr] by (auto simp: copied_def)
  let ?p1 = "p + 8 * length b1"
  have room1: "?p1 + nat n1 \<le> 8 * length m" using assms n1 by linarith
  obtain b2 n2 s2 where r2: "ReadBits_dwords rd n1 s1 = Some (b2, n2, s2)" and c2: "carries m ?p1 b2"
    and n2: "0 \<le> n2" "8 * int (length b2) + n2 = n1" and a2: "at m (?p1 + 8 * length b2) s2"
    using ReadBits_dwords_copied [OF a1 n1(1) room1] by (auto simp: copied_def)
  let ?p2 = "?p1 + 8 * length b2"
  have room2: "?p2 + nat n2 \<le> 8 * length m" using room1 n1 n2 by linarith
  obtain b3 n3 s3 where r3: "ReadBits_bytes rd n2 s2 = Some (b3, n3, s3)" and c3: "carries m ?p2 b3"
    and n3: "0 \<le> n3" "8 * int (length b3) + n3 = n2" and a3: "at m (?p2 + 8 * length b3) s3"
    using ReadBits_bytes_copied [OF a2 n2(1) room2] by (auto simp: copied_def)
  let ?p3 = "?p2 + 8 * length b3" and ?bs = "b1 @ b2 @ b3"
  have n3': "n3 < 8" using r3 by (rule ReadBits_bytes_rest)
  have "carries m p ?bs" using c1 c2 c3 by (simp add: carries_append add.assoc)
  moreover have tot: "nat n = 8 * length ?bs + nat n3" using n1 n2 n3 by simp
  ultimately have chop: "chop m p (nat n) = ?bs @ chop m ?p3 (nat n3)"
    using chop_carries [of m p ?bs "nat n3"] by (simp add: add.assoc distrib_left)
  have pos: "?p3 + nat n3 = p + nat n" using tot by simp
  show ?thesis
  proof (cases "n3 = 0")
    case True
    from a3 pos True have "at m (p + nat n) s3" by (simp del: add_diff_cancel_left' flip: pos)
    with True r1 r2 r3 chop show ?thesis by (simp add: ReadBits_gen_def chop.simps [of m ?p3 0])
  next
    case False
    obtain s4 where s4: "rd n3 s3 = Some (stream_bits m ?p3 (nat n3), s4)" "at m (?p3 + nat n3) s4"
      using rd_reads [OF a3, of n3] n3 n3' pos assms by auto
    have small: "nat n3 \<le> 8" "\<not> 8 \<le> nat n3" "0 < nat n3" using False n3 n3' by auto
    have last: "chop m ?p3 (nat n3) = [stream_bits m ?p3 (nat n3)]"
      using small by (subst chop.simps) simp
    from s4(2) have "at m (p + nat n) s4" by (simp only: pos)
    with False r1 r2 r3 s4(1) chop last small(1) show ?thesis
      by (simp add: ReadBits_gen_def ucast_stream_low)
  qed
qed

end

subsection \<open>Strings\<close>

lemma sign_byte: "signed_take_bit 7 (sint (ucast (b::u8) :: u32)) = sint b"
proof (rule bit_eqI)
  fix i :: nat
  consider "i < 7" | "i = 7" | "7 < i" by linarith
  then show "bit (signed_take_bit 7 (sint (ucast b :: u32))) i = bit (sint b) i"
    using bit_imp_le_length [of b i]
    by cases (auto simp: bit_signed_take_bit_iff bit_sint_iff bit_ucast_byte)
qed

lemma ReadChar_at:
  assumes "reads_at m p s" and "p + 8 \<le> 8 * length m"
  shows "\<exists>s'. ReadChar s = Some (sint (stream_bits m p 8 :: u8), s') \<and> reads_at m (p + 8) s'"
proof -
  obtain s' where "ReadUBitLong 8 s = Some (ucast (stream_bits m p 8 :: u8), s')" "reads_at m (p + 8) s'"
    using ReadUBitLong_reads [OF assms(1), of 8] assms(2) stream_byte_u32 [of m p "stream_bits m p 8"] by auto
  moreover have "sint (sar32 (shl32 (ucast b) 24) 24) = sint (b::u8)" for b
    using sign_extend32 [of 8 "ucast b"] sign_byte [of b] by simp
  ultimately show ?thesis by (simp add: ReadChar_def ReadSBitLong_def)
qed

lemma ReadChar_zero:
  assumes "reader_spent m s \<or> (\<exists>p. reads_at m p s \<and> 8 * length m < p + 8)"
  shows "\<exists>s'. ReadChar s = Some (0, s') \<and> reader_spent m s'"
  using assms ReadUBitLong_spent [of m s 8] ReadUBitLong_past_end [of m _ s 8]
  by (fastforce simp: ReadChar_def ReadSBitLong_def sar32_def shl32_def)

lemma ReadString_loop_stop:
  assumes "ReadChar s = Some (v, s')" and "v = 0 \<or> bLine \<and> v = 10"
  shows "ReadString_loop ReadChar bLine maxLen pStr i small s = Some (pStr, i, small, s')"
  using assms by (subst ReadString_loop.simps) auto

lemma ReadString_loop_more:
  assumes "ReadChar s = Some (v, s')" and "v \<noteq> 0" "\<not> (bLine \<and> v = 10)"
    and "0 \<le> i" and "maxLen \<le> int (length pStr)"
  shows "ReadString_loop ReadChar bLine maxLen pStr i small s =
    (if i < maxLen - 1 then ReadString_loop ReadChar bLine maxLen (pStr[nat i := word_of_int v]) (i + 1) small s'
     else ReadString_loop ReadChar bLine maxLen pStr i True s')"
  using assms by (subst ReadString_loop.simps) auto

text \<open>
  The unbounded loop always ends: past the data every character reads as zero, which
  terminates the string.
\<close>

lemma ReadString_loop_returns:
  assumes "reads_at m p s \<or> reader_spent m s" and "0 \<le> i" and "maxLen \<le> int (length pStr)"
    and "i < maxLen"
  shows "\<exists>pStr' i' small' s'. ReadString_loop ReadChar bLine maxLen pStr i small s = Some (pStr', i', small', s')
     \<and> length pStr' = length pStr \<and> 0 \<le> i' \<and> i' < maxLen \<and> (reader_spent m s' \<or> (\<exists>p'. reads_at m p' s'))"
  using assms
proof (induction "8 * length m - p" arbitrary: p s i pStr small rule: less_induct)
  case less
  show ?case
  proof (cases "reads_at m p s \<and> p + 8 \<le> 8 * length m")
    case True
    then obtain s1 where s1: "ReadChar s = Some (sint (stream_bits m p 8 :: u8), s1)" "reads_at m (p + 8) s1"
      using ReadChar_at by blast
    let ?v = "sint (stream_bits m p 8 :: u8)"
    show ?thesis
    proof (cases "?v = 0 \<or> bLine \<and> ?v = 10")
      case True
      from ReadString_loop_stop [OF s1(1) this] s1(2) less.prems show ?thesis by auto
    next
      case False
      then have nz: "?v \<noteq> 0" "\<not> (bLine \<and> ?v = 10)" by auto
      have dec: "8 * length m - (p + 8) < 8 * length m - p" using True by linarith
      show ?thesis
      proof (cases "i < maxLen - 1")
        case True
        with less.hyps [OF dec, of s1 "i + 1" "pStr[nat i := word_of_int ?v]" small] s1(2) less.prems
        show ?thesis
          by (simp add: ReadString_loop_more [OF s1(1) nz less.prems(2,3)])
      next
        case False
        with less.hyps [OF dec, of s1 i pStr True] s1(2) less.prems show ?thesis
          by (simp add: ReadString_loop_more [OF s1(1) nz less.prems(2,3)])
      qed
    qed
  next
    case False
    then have "reader_spent m s \<or> (\<exists>p. reads_at m p s \<and> 8 * length m < p + 8)"
      using less.prems(1) by auto
    then obtain s1 where "ReadChar s = Some (0, s1)" "reader_spent m s1" using ReadChar_zero by blast
    with ReadString_loop_stop [of s 0 s1] less.prems show ?thesis by auto
  qed
qed

text \<open>
  On a terminated string the loop stores the characters that fit and consumes all of them.
\<close>

lemma ReadString_loop_string:
  assumes "reads_at m p s" and "carries m p (cs @ [0])" and "0 \<notin> set cs" and "bLine \<Longrightarrow> 10 \<notin> set cs"
    and "0 \<le> i" and "i < maxLen" and "maxLen \<le> int (length pStr)"
  defines "k \<equiv> min (length cs) (nat (maxLen - 1 - i))"
  shows "\<exists>s'. ReadString_loop ReadChar bLine maxLen pStr i small s =
      Some (take (nat i) pStr @ take k cs @ drop (nat i + k) pStr, i + int k, small \<or> k < length cs, s')
     \<and> reads_at m (p + 8 * length cs + 8) s'"
  using assms(1-7) unfolding k_def
proof (induction cs arbitrary: p s i pStr small)
  case Nil
  then obtain s1 where "ReadChar s = Some (0, s1)" "reads_at m (p + 8) s1"
    using ReadChar_at [of m p s] by (auto simp: carries_Cons)
  with ReadString_loop_stop [of s 0 s1] Nil.prems show ?case by simp
next
  case (Cons c cs)
  then have car: "p + 8 \<le> 8 * length m" "stream_bits m p 8 = c" "carries m (p + 8) (cs @ [0])"
    by (auto simp: carries_Cons)
  then obtain s1 where s1: "ReadChar s = Some (sint c, s1)" "reads_at m (p + 8) s1"
    using ReadChar_at [OF Cons.prems(1)] by auto
  have "c \<noteq> 0" "\<not> (bLine \<and> c = 10)" using Cons.prems(3,4) by auto
  then have nz: "sint c \<noteq> 0" "\<not> (bLine \<and> sint c = 10)"
    using signed_word_eqI [of c 10] by (auto simp: signed_eq_0_iff)
  note more = ReadString_loop_more [OF s1(1) nz Cons.prems(5,7)]
  have sub: "0 \<notin> set cs" "bLine \<Longrightarrow> 10 \<notin> set cs" using Cons.prems(3,4) by auto
  show ?case
  proof (cases "i < maxLen - 1")
    case True
    let ?q = "pStr[nat i := c]"
    let ?r = "min (length cs) (nat (maxLen - 1 - (i + 1)))"
    have "\<exists>s'. ReadString_loop ReadChar bLine maxLen ?q (i + 1) small s1 =
      Some (take (nat (i + 1)) ?q @ take ?r cs @ drop (nat (i + 1) + ?r) ?q,
        i + 1 + int ?r, small \<or> ?r < length cs, s') \<and> reads_at m (p + 8 + 8 * length cs + 8) s'"
      using Cons.prems True by (intro Cons.IH s1 car sub) auto
    then obtain s' where loop: "ReadString_loop ReadChar bLine maxLen ?q (i + 1) small s1 =
        Some (take (nat (i + 1)) ?q @ take ?r cs @ drop (nat (i + 1) + ?r) ?q,
          i + 1 + int ?r, small \<or> ?r < length cs, s')"
      and pos: "reads_at m (p + 8 + 8 * length cs + 8) s'" by blast
    have k: "min (length (c # cs)) (nat (maxLen - 1 - i)) = Suc ?r"
      using True Cons.prems(5) by (simp add: min_def) linarith
    have tk: "take (nat (i + 1)) ?q = take (nat i) pStr @ [c]"
      using True Cons.prems(5,7) by (simp add: nat_add_distrib take_Suc_conv_app_nth)
    have dr: "drop (nat (i + 1) + ?r) ?q = drop (nat i + Suc ?r) pStr"
      using Cons.prems(5) by (simp add: nat_add_distrib)
    have "p + 8 * length (c # cs) + 8 = p + 8 + 8 * length cs + 8" by simp
    with pos True more loop show ?thesis
      unfolding k tk dr by (intro exI [of _ s']) simp
  next
    case False
    then have "maxLen - 1 - i = 0" using Cons.prems(6) by simp
    with Cons.IH [OF s1(2) car(3) sub Cons.prems(5-7), of True] False more show ?thesis
      by (simp add: algebra_simps)
  qed
qed

subsection \<open>Variable-length reads of a live reader\<close>

lemma ReadVarInt32_at:
  assumes "reads_at m p s" and "carries m p (varint_bytes (unat x))"
  shows "\<exists>s'. ReadVarInt32 s = Some (x, s') \<and> reads_at m (p + 8 * length (varint_bytes (unat x))) s'"
proof -
  have "unat x < 128 ^ Suc 4" using unsigned_less [of x, where 'a = nat] by simp
  then have "length (varint_bytes (unat x)) \<le> kMaxVarint32Bytes"
    using varint_bytes_length [of "unat x" 4] by (simp add: kMaxVarint32Bytes_def)
  from cbr.VarInt_loop_decodes [OF assms this, of 0 "0 :: u32"] show ?thesis
    by (simp add: ReadVarInt32_def)
qed

lemma ReadVarInt32_live:
  assumes "reads_at m p s"
  shows "\<exists>v s'. ReadVarInt32 s = Some (v, s') \<and> (reader_spent m s' \<or> (\<exists>k>0. reads_at m (p + 8 * k) s'))"
  using cbr.VarInt_loop_total [OF assms, of 4 0 "0 :: u32"]
  by (auto simp: ReadVarInt32_def kMaxVarint32Bytes_def numeral_eq_Suc)

lemma ReadVarInt32_spent: "reader_spent m s \<Longrightarrow> \<exists>v s'. ReadVarInt32 s = Some (v, s') \<and> reader_spent m s'"
  unfolding ReadVarInt32_def by (rule cbr.VarInt_loop_spent)

subsection \<open>Properties of the codecs\<close>

text \<open>
  C30: \<open>ReadVarInt32\<close> inverts the base-128 encoding. If the block holds the encoding of a
  32-bit value at the reader's position, at any bit alignment, the value is returned
  and exactly the encoding is consumed.
\<close>

theorem ReadVarInt32_decodes:
  assumes "reads_at m p s" and "carries m p (varint_bytes (unat x))"
  shows "\<exists>s'. ReadVarInt32 s = Some (x, s') \<and> reads_at m (p + 8 * length (varint_bytes (unat x))) s'"
  using assms by (rule ReadVarInt32_at)

theorem ReadVarInt32_decodes_witness:
  "\<exists>s s'. reads_at [0xAC, 0x02, 0xFF] 0 s \<and> ReadVarInt32 s = Some (300, s') \<and> reads_at [0xAC, 0x02, 0xFF] 16 s'"
proof -
  obtain s where s: "reads_at [0xAC, 0x02, 0xFF] 0 s"
    using CBitRead_ctor_reads [of 0 "[0xAC, 0x02, 0xFF]" sample_reader] by auto
  have enc: "varint_bytes (unat (300 :: u32)) = [0xAC, 0x02]" by (simp add: varint_bytes.simps)
  have "carries [0xAC, 0x02, 0xFF] 0 (varint_bytes (unat (300 :: u32)))"
    using carries_block [of "[]" "[0xAC, 0x02]" "[0xFF]"] unfolding enc by simp
  from ReadVarInt32_decodes [OF s this] s show ?thesis unfolding enc by auto
qed

text \<open>The same for \<open>ReadVarInt64\<close> and all 64-bit values.\<close>

theorem ReadVarInt64_decodes:
  assumes "reads_at m p s" and "carries m p (varint_bytes (unat x))"
  shows "\<exists>s'. ReadVarInt64 s = Some (x, s') \<and> reads_at m (p + 8 * length (varint_bytes (unat x))) s'"
proof -
  have "unat x < 128 ^ Suc 9" using unsigned_less [of x, where 'a = nat] by simp
  then have "length (varint_bytes (unat x)) \<le> kMaxVarintBytes"
    using varint_bytes_length [of "unat x" 9] by (simp add: kMaxVarintBytes_def)
  from cbr.VarInt_loop_decodes [OF assms this, of 0 "0 :: u64"] show ?thesis
    by (simp add: ReadVarInt64_def)
qed

theorem ReadVarInt64_decodes_witness:
  "\<exists>s s'. reads_at [0x80, 0x80, 0x80, 0x80, 0x80, 0x01] 0 s \<and> ReadVarInt64 s = Some (0x800000000, s')"
proof -
  let ?m = "[0x80, 0x80, 0x80, 0x80, 0x80, 0x01] :: u8 list"
  obtain s where s: "reads_at ?m 0 s" using CBitRead_ctor_reads [of 0 ?m sample_reader] by auto
  have "varint_bytes (unat (0x800000000 :: u64)) = ?m" by (simp add: varint_bytes.simps)
  then have "carries ?m 0 (varint_bytes (unat (0x800000000 :: u64)))"
    using carries_block [of "[]" ?m "[]"] by simp
  from ReadVarInt64_decodes [OF s this] s show ?thesis by auto
qed

text \<open>
  Zigzag is a bijection between signed and unsigned 32-bit numbers, and the code of \<open>x\<close>
  is \<open>2 x\<close> for \<open>x \<ge> 0\<close> and \<open>- 2 x - 1\<close> for \<open>x < 0\<close>, as the table in the header says; the
  64-bit pair is a bijection too.
\<close>

theorem ZigZag_bijection:
  "ZigZagDecode32 (ZigZagEncode32 n) = n \<and> ZigZagEncode32 (ZigZagDecode32 n) = n \<and>
   uint (ZigZagEncode32 n) = (if 0 \<le> sint n then 2 * sint n else - 2 * sint n - 1) \<and>
   ZigZagDecode64 (ZigZagEncode64 k) = k \<and> ZigZagEncode64 (ZigZagDecode64 k) = k"
  using ZigZag32_inverse [of n] ZigZag64_inverse [of k] ZigZagEncode32_value [of n] by simp

text \<open>
  C31: On arbitrary input a variable-length read always returns: it never leaves the block,
  consumes between one and five bytes (ten for 64 bits), or ends in the overflow state.
\<close>

theorem ReadVarInt_total:
  assumes "reads_at m p s"
  shows "(\<exists>v s'. ReadVarInt32 s = Some (v, s') \<and>
       (reader_spent m s' \<or> (\<exists>k. 0 < k \<and> k \<le> 5 \<and> reads_at m (p + 8 * k) s'))) \<and>
     (\<exists>v s'. ReadVarInt64 s = Some (v, s') \<and>
       (reader_spent m s' \<or> (\<exists>k. 0 < k \<and> k \<le> 10 \<and> reads_at m (p + 8 * k) s')))"
  using cbr.VarInt_loop_total [OF assms, of 4 0 "0 :: u32"] cbr.VarInt_loop_total [OF assms, of 9 0 "0 :: u64"]
  by (simp add: ReadVarInt32_def ReadVarInt64_def kMaxVarint32Bytes_def kMaxVarintBytes_def
      eval_nat_numeral del: VarInt_loop.simps)

theorem ReadVarInt_total_witness:
  "\<exists>s v s'. reads_at [0xFF, 0xFF] 0 s \<and> ReadVarInt32 s = Some (v, s') \<and>
     (reader_spent [0xFF, 0xFF] s' \<or> (\<exists>k. 0 < k \<and> k \<le> 5 \<and> reads_at [0xFF, 0xFF] (8 * k) s'))"
proof -
  obtain s where s: "reads_at [0xFF, 0xFF] 0 s"
    using CBitRead_ctor_reads [of 0 "[0xFF, 0xFF]" sample_reader] by auto
  then show ?thesis using ReadVarInt_total [OF s] by auto
qed

text \<open>
  C29: \<open>ReadBits\<close> copies the stream: the bytes written are the consecutive bytes of the
  stream (the last one partial), whatever the alignment of the destination, although the
  alignment decides how the copy is split into bytes and dwords; and the reader has
  advanced by exactly \<open>nBits\<close>.
\<close>

theorem ReadBits_copies_stream:
  assumes "reads_at m p s" and "p + n \<le> 8 * length m"
  shows "\<exists>s'. ReadBits addr (int n) s = Some (chop m p n, s') \<and> reads_at m (p + n) s'"
  using cbr.ReadBits_gen_reads [OF assms(1), of "int n" addr] assms(2) by (simp add: ReadBits_def)

theorem ReadBits_copies_stream_witness:
  "\<exists>s s'. reads_at [1, 2, 3, 4, 5, 6, 7] 0 s \<and> ReadBits 3 52 s = Some ([1, 2, 3, 4, 5, 6, 7], s')"
proof -
  let ?m = "[1, 2, 3, 4, 5, 6, 7] :: u8 list"
  obtain s where s: "reads_at ?m 0 s" using CBitRead_ctor_reads [of 0 ?m sample_reader] by auto
  have "chop ?m 0 52 = ?m"
    by (simp add: chop.simps stream_bits_def sbit_def upt_rec horner_sum_simps bit_numeral_rec)
  then show ?thesis using ReadBits_copies_stream [OF s, of 52 3] s by auto
qed

text \<open>
  C32: \<open>ReadString\<close> on a terminated string: the array receives the characters that fit and a
  terminating zero, the reported length never exceeds \<open>maxLen - 1\<close>, the whole string is
  consumed from the stream even if it does not fit, and the result tells whether it fit.
\<close>

theorem ReadString_reads_string:
  assumes "reads_at m p s" and "carries m p (cs @ [0])" and "0 \<notin> set cs" and "bLine \<longrightarrow> 10 \<notin> set cs"
    and "0 < maxLen" and "maxLen \<le> int (length pStr)"
  shows "\<exists>pStr' s'. ReadString pStr maxLen bLine s =
       Some (length cs < nat maxLen, pStr', int (min (length cs) (nat maxLen - 1)), s') \<and>
     take (min (length cs) (nat maxLen - 1) + 1) pStr' = take (nat maxLen - 1) cs @ [0] \<and>
     length pStr' = length pStr \<and> reads_at m (p + 8 * length cs + 8) s'"
proof -
  define k where "k = min (length cs) (nat maxLen - 1)"
  have k: "k < nat maxLen" "k \<le> length cs" "take k cs = take (nat maxLen - 1) cs"
    using assms(5) by (auto simp: k_def min_def)
  let ?q = "take k cs @ drop k pStr"
  obtain s' where loop: "ReadString_loop ReadChar bLine maxLen pStr 0 False s = Some (?q, int k, k < length cs, s')"
    and pos: "reads_at m (p + 8 * length cs + 8) s'"
    using ReadString_loop_string [OF assms(1-3), of bLine 0 maxLen pStr False] assms(4-6)
    by (auto simp: k_def nat_diff_distrib)
  have len: "k < length pStr" using k(1) assms(6) by linarith
  have nov: "\<not> IsOverflowed s'" using pos by (auto simp: IsOverflowed_def reads_at_def reader_defs)
  have fit: "(\<not> k < length cs) = (length cs < nat maxLen)" using assms(5) by (auto simp: k_def min_def)
  have "ReadString pStr maxLen bLine s = Some (\<not> k < length cs, ?q[k := 0], int k, s')"
    using k assms(5) len nov by (simp add: ReadString_def loop)
  moreover have "take (k + 1) (?q[k := 0]) = take (nat maxLen - 1) cs @ [0]"
    using k len by (simp add: take_Suc_conv_app_nth)
  moreover have "length (?q[k := 0]) = length pStr" using k(2) len by simp
  ultimately show ?thesis using pos fit by (auto simp: k_def)
qed

theorem ReadString_reads_string_witness:
  "\<exists>s pStr' s'. reads_at [72, 105, 33, 0] 0 s \<and> ReadString [0, 0, 0] 3 False s = Some (False, pStr', 2, s') \<and>
     take 3 pStr' = [72, 105, 0]"
proof -
  let ?m = "[72, 105, 33, 0] :: u8 list"
  obtain s where s: "reads_at ?m 0 s" using CBitRead_ctor_reads [of 0 ?m sample_reader] by auto
  have "carries ?m 0 ([72, 105, 33] @ [0])" using carries_block [of "[]" ?m "[]"] by simp
  moreover have "0 \<notin> set [72, 105, 33 :: u8]" by simp
  ultimately obtain pStr' s' where
    "ReadString [0, 0, 0] 3 False s = Some (length [72, 105, 33 :: u8] < nat 3, pStr', int (min 3 (nat 3 - 1)), s')"
    "take (min 3 (nat 3 - 1) + 1) pStr' = take (nat 3 - 1) [72, 105, 33] @ [0]"
    using ReadString_reads_string [OF s, of "[72, 105, 33]" False 3 "[0, 0, 0]"] by auto
  then have "ReadString [0, 0, 0] 3 False s = Some (False, pStr', 2, s')" "take 3 pStr' = [72, 105, 0]"
    by simp_all
  with s show ?thesis by blast
qed

text \<open>
  \<open>ReadString\<close> terminates on every block, also when no terminator is left in the data:
  the loop has no bound, but a read past the end yields the terminator. It stays inside
  the destination array and returns false if the data ran out.
\<close>

theorem ReadString_returns:
  assumes "reads_at m p s" and "0 < maxLen" and "maxLen \<le> int (length pStr)"
  shows "\<exists>ok pStr' n s'. ReadString pStr maxLen bLine s = Some (ok, pStr', n, s') \<and>
     length pStr' = length pStr \<and> 0 \<le> n \<and> n < maxLen \<and> (m_bOverflow s' \<longrightarrow> \<not> ok)"
proof -
  obtain q i small s' where loop: "ReadString_loop ReadChar bLine maxLen pStr 0 False s = Some (q, i, small, s')"
    and q: "length q = length pStr" "0 \<le> i" "i < maxLen"
    using ReadString_loop_returns [of m p s 0 maxLen pStr bLine False] assms by auto
  then have "ReadString pStr maxLen bLine s = Some (\<not> IsOverflowed s' \<and> \<not> small, q[nat i := 0], i, s')"
    using assms by (simp add: ReadString_def)
  with q show ?thesis by (auto simp: IsOverflowed_def)
qed

theorem ReadString_returns_witness:
  "\<exists>s ok pStr' n s'. reads_at [65, 66] 0 s \<and> ReadString [0, 0, 0] 3 True s = Some (ok, pStr', n, s') \<and> length pStr' = 3"
proof -
  obtain s where s: "reads_at [65, 66] 0 s" using CBitRead_ctor_reads [of 0 "[65, 66]" sample_reader] by auto
  obtain ok pStr' n s' where "ReadString [0, 0, 0] 3 True s = Some (ok, pStr', n, s')"
    "length pStr' = length [0, 0, 0 :: u8]"
    using ReadString_returns [OF s, of 3 "[0, 0, 0]" True] by auto
  then have "ReadString [0, 0, 0] 3 True s = Some (ok, pStr', n, s')" "length pStr' = 3" by simp_all
  with s show ?thesis by blast
qed

end
