(* ===== verification/BitSafe.thy ===== *)
theory BitSafe
  imports BitCodec
begin

text \<open>
  Memory safety of \<^verbatim>\<open>CBitRead\<close> as an object: whatever operations a client calls in whatever
  order, seeks to bad positions and reads after an overflow included, the reader stays in a
  state in which the next operation is safe. The invariant \<open>reader_safe\<close> is weaker than
  \<open>reads_at\<close> of theory BitRead: it holds after an overflow, which no \<open>Seek\<close> clears, and says of the
  buffered bits only that they are 0 behind the end of the data.
\<close>

subsection \<open>The invariant\<close>

definition reader_safe :: "u8 list \<Rightarrow> CBitRead \<Rightarrow> bool" where
  "reader_safe m s \<longleftrightarrow> reader_frame m s \<and> 4 \<le> length m \<and>
     m_pDataIn s mod 4 = int (length m) mod 4 \<and> m_pDataIn s \<le> int (length m) + 4 \<and>
     0 < m_nBitsAvail s \<and> m_nBitsAvail s \<le> 32 \<and> m_nBitsAvail s \<le> 8 * m_pDataIn s \<and>
     (int (length m) < m_pDataIn s \<longrightarrow> m_nInBufWord s = 0)"

text \<open>The overflow flag never goes down.\<close>

definition safe_from :: "u8 list \<Rightarrow> CBitRead \<Rightarrow> CBitRead \<Rightarrow> bool" where
  "safe_from m s s' \<longleftrightarrow> reader_safe m s' \<and> (m_bOverflow s \<longrightarrow> m_bOverflow s')"

lemma safe_fromD: "safe_from m s s' \<Longrightarrow> reader_safe m s'"
  by (simp add: safe_from_def)

lemma safe_from_trans: "safe_from m s s1 \<Longrightarrow> safe_from m s1 s2 \<Longrightarrow> safe_from m s s2"
  by (simp add: safe_from_def)

lemma shr32_zero [simp]: "shr32 0 n = 0"
  by (simp add: shr32_def)

lemmas safe_defs = reader_safe_def safe_from_def reader_frame_def

subsection \<open>Fetching and reading\<close>

lemma GrabNextDWord_safe:
  assumes "reader_frame m s" and "4 \<le> length m" and "0 \<le> m_pDataIn s" and "m_pDataIn s \<le> int (length m) + 4"
    and "m_pDataIn s mod 4 = int (length m) mod 4" and "0 < m_nBitsAvail s" and "m_nBitsAvail s \<le> 32"
    and "int (length m) < m_pDataIn s \<Longrightarrow> m_nBitsAvail s \<le> 8 * m_pDataIn s"
  shows "\<exists>s'. GrabNextDWord b s = Some s' \<and> safe_from m s s' \<and> m_nBitsAvail s' \<le> m_nBitsAvail s \<and>
    (b \<longrightarrow> \<not> m_bOverflow s' \<longrightarrow> m_nBitsAvail s' = m_nBitsAvail s \<and> 4 \<le> m_pDataIn s' \<and> m_pDataIn s' \<le> int (length m) \<and> m_pDataIn s' = m_pDataIn s + 4) \<and>
    (b \<longrightarrow> int (length m) \<le> m_pDataIn s \<longrightarrow> m_bOverflow s')"
proof -
  consider "m_pDataIn s = int (length m)" | "int (length m) < m_pDataIn s" | "m_pDataIn s + 4 \<le> int (length m)"
    using word_room [of "m_pDataIn s" "int (length m)"] assms(5) by linarith
  then show ?thesis
  proof cases
    case 3
    then show ?thesis using GrabNextDWord_live [OF assms(1,3)] assms by (simp add: safe_defs)
  qed (use assms in \<open>auto simp: GrabNextDWord_def SetOverflowFlag_def safe_defs Let_def\<close>)
qed

lemma FetchNext_safe:
  assumes "reader_safe m (s\<lparr>m_nBitsAvail := 1\<rparr>)"
  shows "\<exists>s'. FetchNext s = Some s' \<and> safe_from m s s'"
  using GrabNextDWord_safe [of m "s\<lparr>m_nBitsAvail := 32\<rparr>" False] assms
  by (auto simp: FetchNext_def safe_defs)

lemma ReadUBitLong_safe:
  assumes safe: "reader_safe m s" and n: "0 \<le> n" "n \<le> 32"
  shows "\<exists>v s'. ReadUBitLong n s = Some (v, s') \<and> safe_from m s s'"
proof (cases "n \<le> m_nBitsAvail s")
  case True
  have "\<exists>s'. FetchNext (s\<lparr>m_nBitsAvail := 0\<rparr>) = Some s' \<and> safe_from m s s'"
    using FetchNext_safe [of m "s\<lparr>m_nBitsAvail := 0\<rparr>"] safe by (auto simp: safe_defs)
  with True safe n show ?thesis by (cases "m_nBitsAvail s = n") (auto simp: ReadUBitLong_def safe_defs)
next
  case False
  obtain s1 where s1: "GrabNextDWord True s = Some s1" "safe_from m s s1" "m_nBitsAvail s1 \<le> m_nBitsAvail s"
    "\<not> m_bOverflow s1 \<Longrightarrow> m_nBitsAvail s1 = m_nBitsAvail s \<and> 4 \<le> m_pDataIn s1 \<and> m_pDataIn s1 \<le> int (length m)"
    using GrabNextDWord_safe [of m s True] safe by (auto simp: safe_defs)
  show ?thesis
  proof (cases "m_bOverflow s1")
    case True
    then show ?thesis using False s1 by (simp add: ReadUBitLong_def Let_def)
  next
    case live: False
    have "0 \<le> n - m_nBitsAvail s" "n - m_nBitsAvail s \<le> 31" using False n safe by (auto simp: safe_defs)
    then show ?thesis using False live s1 by (auto simp: ReadUBitLong_def Let_def safe_defs)
  qed
qed

lemma ReadSBitLong_safe:
  "reader_safe m s \<Longrightarrow> 0 \<le> n \<Longrightarrow> n \<le> 32 \<Longrightarrow> \<exists>v s'. ReadSBitLong n s = Some (v, s') \<and> safe_from m s s'"
  using ReadUBitLong_safe [of m s n] by (auto simp: ReadSBitLong_def)

lemma ReadOneBit_safe:
  assumes "reader_safe m s"
  shows "\<exists>v s'. ReadOneBit s = Some (v, s') \<and> safe_from m s s'"
proof (cases "m_nBitsAvail s = 1")
  case True
  have "\<exists>s'. FetchNext (s\<lparr>m_nBitsAvail := 0\<rparr>) = Some s' \<and> safe_from m s s'"
    using FetchNext_safe [of m "s\<lparr>m_nBitsAvail := 0\<rparr>"] assms by (auto simp: safe_defs)
  with True show ?thesis by (auto simp: ReadOneBit_def)
qed (use assms in \<open>simp add: ReadOneBit_def safe_defs\<close>)

lemma VarInt_loop_safe:
  assumes "reader_safe m s"
  shows "\<exists>v s'. VarInt_loop (ReadUBitLong 8) left count result s = Some (v, s') \<and> safe_from m s s'"
  using assms
proof (induction left arbitrary: count result s)
  case (Suc left)
  then obtain b s1 where s1: "ReadUBitLong 8 s = Some (b, s1)" "safe_from m s s1" using ReadUBitLong_safe [of m s 8] by auto
  from Suc.IH [OF safe_fromD [OF s1(2)]] s1 show ?case using safe_from_trans [OF s1(2)] by (simp add: Let_def) blast
qed (simp add: safe_from_def)

lemma ReadVarInt_safe:
  assumes "reader_safe m s"
  shows "\<exists>v s'. ReadVarInt32 s = Some (v, s') \<and> safe_from m s s'" "\<exists>v s'. ReadVarInt64 s = Some (v, s') \<and> safe_from m s s'"
  using VarInt_loop_safe [OF assms] by (simp_all add: ReadVarInt32_def ReadVarInt64_def)

lemma ReadVarUBit_safe:
  assumes "reader_safe m s"
  shows "\<exists>v s'. ReadVarUBit s = Some (v, s') \<and> safe_from m s s'"
proof -
  obtain v s1 where s1: "ReadUBitLong 7 s = Some (v, s1)" "safe_from m s s1" using ReadUBitLong_safe [OF assms, of 7] by auto
  have "\<exists>w s'. ReadUBitLong k s1 = Some (w, s') \<and> safe_from m s s'" if "k \<in> {2, 4, 7}" for k
    using ReadUBitLong_safe [OF safe_fromD [OF s1(2)], of k] safe_from_trans [OF s1(2)] that by fastforce
  from this [of 2] this [of 4] this [of 7] s1 show ?thesis by (auto simp: ReadVarUBit_def Let_def)
qed

subsection \<open>Strings\<close>

text \<open>
  A read of a character delivers 0 or moves on by a byte; the position is bounded by the last word
  \<open>GrabNextDWord\<close> may count, so every string read ends.
\<close>

definition bit_pos :: "CBitRead \<Rightarrow> int" where
  "bit_pos s = 8 * m_pDataIn s - m_nBitsAvail s"

definition bits_ahead :: "u8 list \<Rightarrow> CBitRead \<Rightarrow> nat" where
  "bits_ahead m s = nat (8 * (int (length m) + 4) - bit_pos s)"

lemma ReadUBitLong_progress:
  assumes safe: "reader_safe m s" and rd: "ReadUBitLong 8 s = Some (v, s')"
  shows "v = 0 \<or> bit_pos s + 8 \<le> bit_pos s'"
proof (cases "8 \<le> m_nBitsAvail s")
  case True
  show ?thesis
  proof (cases "int (length m) < m_pDataIn s")
    case True
    then have "m_nInBufWord s = 0" using safe by (simp add: safe_defs)
    then show ?thesis using rd \<open>8 \<le> m_nBitsAvail s\<close> by (auto simp: ReadUBitLong_def Let_def split: bind_splits if_splits)
  next
    case False
    have grab: "bit_pos s + 8 \<le> bit_pos s2" if "FetchNext (s\<lparr>m_nBitsAvail := 0\<rparr>) = Some s2" "m_nBitsAvail s = 8" for s2
      using that False safe by (auto simp: FetchNext_def GrabNextDWord_def Let_def bit_pos_def safe_defs split: if_splits bind_splits)
    show ?thesis using rd True grab by (cases "m_nBitsAvail s = 8") (auto simp: ReadUBitLong_def Let_def bit_pos_def split: bind_splits)
  qed
next
  case False
  obtain s1 where s1: "GrabNextDWord True s = Some s1"
    "\<not> m_bOverflow s1 \<Longrightarrow> m_nBitsAvail s1 = m_nBitsAvail s \<and> m_pDataIn s1 = m_pDataIn s + 4"
    using GrabNextDWord_safe [of m s True] safe by (auto simp: safe_defs)
  show ?thesis using rd False s1 by (cases "m_bOverflow s1") (auto simp: ReadUBitLong_def Let_def bit_pos_def split: bind_splits)
qed

lemma ReadChar_safe:
  assumes "reader_safe m s"
  shows "\<exists>v s'. ReadChar s = Some (v, s') \<and> safe_from m s s' \<and> (v = 0 \<or> bits_ahead m s' < bits_ahead m s)"
proof -
  obtain v s' where r: "ReadUBitLong 8 s = Some (v, s')" "safe_from m s s'" using ReadUBitLong_safe [OF assms, of 8] by auto
  have b: "bit_pos s' \<le> 8 * (int (length m) + 4)" using r(2) by (simp add: bit_pos_def safe_defs)
  have z: "sint (sar32 (shl32 0 24) 24) = 0" by code_simp
  from ReadUBitLong_progress [OF assms r(1)] r b z show ?thesis
    by (auto simp: ReadChar_def ReadSBitLong_def bits_ahead_def)
qed

lemma ReadString_loop_safe:
  assumes "reader_safe m s" and "0 \<le> i" and "maxLen \<le> int (length pStr)" and "i < maxLen"
  shows "\<exists>pStr' i' small' s'. ReadString_loop ReadChar bLine maxLen pStr i small s = Some (pStr', i', small', s')
     \<and> length pStr' = length pStr \<and> 0 \<le> i' \<and> i' < maxLen \<and> safe_from m s s'"
  using assms
proof (induction "bits_ahead m s" arbitrary: s i pStr small rule: less_induct)
  case less
  obtain v s1 where s1: "ReadChar s = Some (v, s1)" "safe_from m s s1" "v = 0 \<or> bits_ahead m s1 < bits_ahead m s"
    using ReadChar_safe [OF less.prems(1)] by blast
  show ?case
  proof (cases "v = 0 \<or> bLine \<and> v = 10")
    case True
    from ReadString_loop_stop [OF s1(1) this] s1(2) less.prems show ?thesis by auto
  next
    case False
    then have nz: "v \<noteq> 0" "\<not> (bLine \<and> v = 10)" by auto
    then have dec: "bits_ahead m s1 < bits_ahead m s" using s1(3) by simp
    note more = ReadString_loop_more [OF s1(1) nz less.prems(2,3)]
    note IH = less.hyps [OF dec safe_fromD [OF s1(2)]]
    show ?thesis
    proof (cases "i < maxLen - 1")
      case True
      then show ?thesis using IH [of "i + 1" "pStr[nat i := word_of_int v]" small] less.prems safe_from_trans [OF s1(2)]
        unfolding more by force
    next
      case False
      then show ?thesis using IH [of i pStr True] less.prems safe_from_trans [OF s1(2)] unfolding more by force
    qed
  qed
qed

lemma ReadString_safe:
  assumes "reader_safe m s" and "0 < maxLen" and "maxLen \<le> int (length pStr)"
  shows "\<exists>ok pStr' n s'. ReadString pStr maxLen bLine s = Some (ok, pStr', n, s') \<and> safe_from m s s'"
proof -
  obtain q i small s' where "ReadString_loop ReadChar bLine maxLen pStr 0 False s = Some (q, i, small, s')"
    "length q = length pStr" "0 \<le> i" "i < maxLen" "safe_from m s s'"
    using ReadString_loop_safe [OF assms(1), of 0 maxLen pStr bLine False] assms(2,3) by auto
  then show ?thesis using assms(2,3) by (simp add: ReadString_def)
qed

subsection \<open>Block copies\<close>

lemma ReadBits_loops_safe:
  "reader_safe m s \<Longrightarrow> 0 \<le> n \<Longrightarrow> \<exists>bs n' s'. ReadBits_align ReadUBitLong addr n s = Some (bs, n', s') \<and> 0 \<le> n' \<and> safe_from m s s'"
  "reader_safe m s \<Longrightarrow> 0 \<le> n \<Longrightarrow> \<exists>bs n' s'. ReadBits_dwords ReadUBitLong n s = Some (bs, n', s') \<and> 0 \<le> n' \<and> safe_from m s s'"
  "reader_safe m s \<Longrightarrow> 0 \<le> n \<Longrightarrow> \<exists>bs n' s'. ReadBits_bytes ReadUBitLong n s = Some (bs, n', s') \<and> 0 \<le> n' \<and> n' < 8 \<and> safe_from m s s'"
proof -
  have rd: "\<exists>w s1. ReadUBitLong k s = Some (w, s1) \<and> reader_safe m s1 \<and> safe_from m s s1" if "reader_safe m s" "k \<in> {8, 32}" for k s
    using ReadUBitLong_safe [OF that(1), of k] that(2) safe_fromD by fastforce
  show "reader_safe m s \<Longrightarrow> 0 \<le> n \<Longrightarrow> \<exists>bs n' s'. ReadBits_align ReadUBitLong addr n s = Some (bs, n', s') \<and> 0 \<le> n' \<and> safe_from m s s'"
  proof (induction "nat n" arbitrary: n s addr rule: less_induct)
    case less
    obtain w s1 where s1: "ReadUBitLong 8 s = Some (w, s1)" "reader_safe m s1" "safe_from m s s1" using rd [OF less.prems(1), of 8] by auto
    show ?case using less.hyps [of "n - 8" s1 "addr + 1"] s1 less.prems safe_from_trans [OF s1(3)]
      by (subst ReadBits_align.simps) (auto simp: safe_from_def)
  qed
  show "reader_safe m s \<Longrightarrow> 0 \<le> n \<Longrightarrow> \<exists>bs n' s'. ReadBits_dwords ReadUBitLong n s = Some (bs, n', s') \<and> 0 \<le> n' \<and> safe_from m s s'"
  proof (induction "nat n" arbitrary: n s rule: less_induct)
    case less
    obtain w s1 where s1: "ReadUBitLong 32 s = Some (w, s1)" "reader_safe m s1" "safe_from m s s1" using rd [OF less.prems(1), of 32] by auto
    show ?case using less.hyps [of "n - 32" s1] s1 less.prems safe_from_trans [OF s1(3)]
      by (subst ReadBits_dwords.simps) (auto simp: safe_from_def)
  qed
  show "reader_safe m s \<Longrightarrow> 0 \<le> n \<Longrightarrow> \<exists>bs n' s'. ReadBits_bytes ReadUBitLong n s = Some (bs, n', s') \<and> 0 \<le> n' \<and> n' < 8 \<and> safe_from m s s'"
  proof (induction "nat n" arbitrary: n s rule: less_induct)
    case less
    obtain w s1 where s1: "ReadUBitLong 8 s = Some (w, s1)" "reader_safe m s1" "safe_from m s s1" using rd [OF less.prems(1), of 8] by auto
    show ?case using less.hyps [of "n - 8" s1] s1 less.prems safe_from_trans [OF s1(3)]
      by (subst ReadBits_bytes.simps) (auto simp: safe_from_def)
  qed
qed

lemma ReadBits_safe:
  assumes "reader_safe m s" and "0 \<le> n"
  shows "\<exists>bs s'. ReadBits addr n s = Some (bs, s') \<and> safe_from m s s'"
proof -
  obtain b1 n1 s1 where 1: "ReadBits_align ReadUBitLong addr n s = Some (b1, n1, s1)" "0 \<le> n1" "safe_from m s s1"
    using ReadBits_loops_safe(1) [OF assms] by blast
  obtain b2 n2 s2 where 2: "ReadBits_dwords ReadUBitLong n1 s1 = Some (b2, n2, s2)" "0 \<le> n2" "safe_from m s1 s2"
    using ReadBits_loops_safe(2) [OF safe_fromD [OF 1(3)] 1(2)] by blast
  obtain b3 n3 s3 where 3: "ReadBits_bytes ReadUBitLong n2 s2 = Some (b3, n3, s3)" "0 \<le> n3" "n3 < 8" "safe_from m s2 s3"
    using ReadBits_loops_safe(3) [OF safe_fromD [OF 2(3)] 2(2)] by blast
  have s3: "safe_from m s s3" using 1(3) 2(3) 3(4) safe_from_trans by blast
  obtain w s4 where "ReadUBitLong n3 s3 = Some (w, s4)" "safe_from m s3 s4"
    using ReadUBitLong_safe [OF safe_fromD [OF s3], of n3] 3(2,3) by auto
  then show ?thesis using 1(1) 2(1) 3(1) s3 safe_from_trans [OF s3] by (auto simp: ReadBits_def ReadBits_gen_def)
qed

lemma ReadBytes_safe:
  assumes "reader_safe m s" and "0 \<le> n" and "n < 2 ^ 28"
  shows "\<exists>ok bs s'. ReadBytes addr n s = Some (ok, bs, s') \<and> safe_from m s s'"
  using ReadBits_safe [OF assms(1), of "n * 8" addr] assms(2,3) by (auto simp: ReadBytes_def)

subsection \<open>The two reads that can stop\<close>

text \<open>\<open>ReadBit\<close> takes the next word without asking whether there is one.\<close>

lemma ReadBit_safe:
  assumes "reader_safe m s"
  shows "(case ReadBit s of None \<Rightarrow> True | Some (v, s') \<Rightarrow> safe_from m s s') \<and>
    (ReadBit s = None \<longleftrightarrow> m_nBitsAvail s = 1 \<and> int (length m) \<le> m_pDataIn s)"
proof (cases "m_nBitsAvail s = 1 \<and> m_pDataIn s < int (length m)")
  case True
  then have room: "m_pDataIn s + 4 \<le> int (length m)" "0 \<le> m_pDataIn s"
    using word_room [of "m_pDataIn s" "int (length m)"] assms by (auto simp: safe_defs)
  then obtain w where "load32 m (m_pDataIn s) = Some w" using load32_stream [of "m_pDataIn s" m] by auto
  then show ?thesis using True assms room by (auto simp: ReadBit_def Let_def safe_defs)
next
  case False
  have far: "load32 m a = None" if "int (length m) \<le> a" for a using that by (simp add: load32_def peek8_def)
  show ?thesis
  proof (cases "m_nBitsAvail s = 1")
    case True
    then have "ReadBit s = None" using False assms far by (auto simp: ReadBit_def Let_def safe_defs)
    then show ?thesis using False True by simp
  qed (use assms in \<open>auto simp: ReadBit_def Let_def safe_defs\<close>)
qed

text \<open>\<open>ReadUBitVar\<close> asserts that the longer forms are used for the larger numbers only.\<close>

definition ubitvar_overlong :: "CBitRead \<Rightarrow> bool" where
  "ubitvar_overlong s \<longleftrightarrow> (\<exists>ret s1 v s2 k lim. ReadUBitLong 6 s = Some (ret, s1) \<and>
     (ret AND (16 OR 32), k, lim) \<in> {(16, 4, 16), (32, 8, 256), (48, 28, 4096)} \<and>
     ReadUBitLong k s1 = Some (v, s2) \<and> (ret AND 15) OR shl32 v 4 < lim)"

lemma ReadUBitVar_safe:
  assumes "reader_safe m s"
  shows "(case ReadUBitVar s of None \<Rightarrow> True | Some (v, s') \<Rightarrow> safe_from m s s') \<and>
    (ReadUBitVar s = None \<longleftrightarrow> ubitvar_overlong s)"
proof -
  obtain r s1 where s1: "ReadUBitLong 6 s = Some (r, s1)" "safe_from m s s1" using ReadUBitLong_safe [OF assms, of 6] by auto
  have rd: "\<exists>w s2. ReadUBitLong k s1 = Some (w, s2) \<and> safe_from m s s2" if "k \<in> {4, 8, 28}" for k
    using ReadUBitLong_safe [OF safe_fromD [OF s1(2)], of k] safe_from_trans [OF s1(2)] that by fastforce
  obtain a sa b sb c sc where r: "ReadUBitLong 4 s1 = Some (a, sa)" "safe_from m s sa" "ReadUBitLong 8 s1 = Some (b, sb)" "safe_from m s sb"
    "ReadUBitLong 28 s1 = Some (c, sc)" "safe_from m s sc" using rd [of 4] rd [of 8] rd [of 28] by auto
  define e where "e = r AND (16 OR 32)"
  consider "e = 16" | "e = 32" | "e = 48" | "e \<notin> {16, 32, 48}" by blast
  then show ?thesis
  proof cases
    case 1
    then show ?thesis unfolding ubitvar_overlong_def ReadUBitVar_def Let_def using s1 r
      by (simp add: e_def [symmetric] not_less [symmetric])
  next
    case 2
    then show ?thesis unfolding ubitvar_overlong_def ReadUBitVar_def Let_def using s1 r
      by (simp add: e_def [symmetric] not_less [symmetric])
  next
    case 3
    then show ?thesis unfolding ubitvar_overlong_def ReadUBitVar_def Let_def using s1 r
      by (simp add: e_def [symmetric] not_less [symmetric])
  next
    case 4
    then show ?thesis unfolding ubitvar_overlong_def ReadUBitVar_def Let_def using s1 r
      by (simp add: e_def)
  qed
qed

subsection \<open>Seeking\<close>

lemma Seek_safe:
  assumes "reader_frame m s" and "4 \<le> length m"
  shows "\<exists>ok s'. Seek q s = Some (ok, s') \<and> safe_from m s s'"
proof -
  define bad where "bad = (q < 0 \<or> q > m_nDataBits s)"
  define t where "t = (if bad then m_nDataBits s else q)"
  define s0 where "s0 = (if bad then SetOverflowFlag s else s)"
  define h where "h = int (length m mod 4)"
  have fr: "reader_frame m s0" "m_bOverflow s \<longrightarrow> m_bOverflow s0"
    using assms(1) by (auto simp: s0_def SetOverflowFlag_def reader_frame_def)
  have t: "0 \<le> t" "t \<le> 8 * int (length m)" using assms(1) by (auto simp: t_def bad_def reader_frame_def)
  have h: "0 \<le> h" "h < 4" "int (length m) mod 4 = h" "h mod 4 = h" by (auto simp: h_def zmod_int)
  have div: "cdiv t 8 = t div 8" using t(1) by simp
  show ?thesis
  proof (cases "h \<noteq> 0 \<and> t div 8 < h")
    case True
    then have "t < 8 * h" "t < 32" "t mod 32 = t" using t(1) h(2) by auto
    moreover have "peek8 m 0 = Some (m ! 0)" "peek8 m 1 = Some (m ! 1)" "peek8 m 2 = Some (m ! 2)" using assms(2) by (auto simp: peek8_def)
    moreover have f: "m_pData s0 = Some m" "m_nDataBytes s0 = length m" "m_nDataBits s = m_nDataBits s0"
      using fr(1) assms(1) by (auto simp: reader_frame_def)
    moreover have "1 + (if 1 < h then 1 else 0) + (if 2 < h then 1 else 0) = h" using True h(1,2) by auto
    ultimately have "\<exists>w. Seek q s = Some (\<not> bad, s0\<lparr>m_pDataIn := h, m_nInBufWord := w, m_nBitsAvail := 8 * h - t\<rparr>)"
      unfolding Seek_def Let_def bad_def [symmetric] t_def [symmetric] s0_def [symmetric] h_def [symmetric]
      using True by (simp add: Let_def div h_def [symmetric]) (intro conjI impI; rule exI; rule refl)
    then show ?thesis using True fr h(1,2,3) assms(2) t \<open>t < 8 * h\<close> by (auto simp: safe_defs)
  next
    case False
    have adj: "0 \<le> t - 8 * h" using False t(1) h by (cases "h = 0") auto
    define d where "d = (t - 8 * h) div 32 * 4 + h"
    have d: "0 \<le> d" "d mod 4 = h" "d \<le> int (length m)"
    proof -
      have l: "int (length m) = 4 * (int (length m) div 4) + h" using h(3) mult_div_mod_eq [of 4 "int (length m)"] by simp
      then have "t - 8 * h \<le> 32 * (int (length m) div 4)" using t(2) by linarith
      then have "(t - 8 * h) div 32 \<le> int (length m) div 4" using zdiv_mono1 [of "t - 8 * h" "32 * (int (length m) div 4)" 32] by simp
      with l show "d \<le> int (length m)" unfolding d_def by linarith
    qed (use adj h in \<open>auto simp: d_def\<close>)
    let ?s = "s0\<lparr>m_pDataIn := d, m_nBitsAvail := 32\<rparr>"
    obtain s1 where s1: "GrabNextDWord False ?s = Some s1" "safe_from m ?s s1"
      using GrabNextDWord_safe [of m ?s False] fr(1) assms(2) d h(3) by (auto simp: reader_frame_def)
    have f: "m_pData s0 = Some m" "m_nDataBytes s0 = length m" "\<not> (length m < 4 \<or> h \<noteq> 0 \<and> cdiv t 8 < h)"
      using fr(1) False assms(2) by (auto simp: reader_frame_def div)
    define r where "r = (t - 8 * h) mod 32"
    have r: "0 \<le> r" "r < 32" by (simp_all add: r_def)
    have cd: "cdiv (t - 8 * h) 32 * 4 + h = d" using adj by (simp add: d_def)
    have "Seek q s = Some (\<not> bad, s1\<lparr>m_nInBufWord := shr32 (m_nInBufWord s1) r, m_nBitsAvail := min (m_nBitsAvail s1) (32 - r)\<rparr>)"
      unfolding Seek_def Let_def bad_def [symmetric] t_def [symmetric] s0_def [symmetric]
      by (simp only: f(1,2) h_def [symmetric] if_not_P [OF f(3)] cd CBitRead.simps option.distinct not_False_eq_True if_True s1(1)
          bind.bind_lunit and_31 r_def [symmetric] simp_thms) (simp add: f(1))
    then show ?thesis using s1(2) fr(2) r by (auto simp: safe_defs)
  qed
qed

lemma SeekRelative_safe: "reader_safe m s \<Longrightarrow> \<exists>ok s'. SeekRelative q s = Some (ok, s') \<and> safe_from m s s'"
  using Seek_safe [of m s] by (auto simp: SeekRelative_def reader_safe_def)

subsection \<open>The position\<close>

lemma GetNumBitsRead_safe:
  assumes "reader_safe m s"
  shows "0 \<le> GetNumBitsRead s" "GetNumBitsRead s \<le> 8 * int (length m)"
proof -
  define k where "k = m_pDataIn s div 4"
  have safe: "m_pDataIn s = 4 * k + int (length m mod 4)" "0 \<le> k" "m_nBitsAvail s \<le> 8 * m_pDataIn s" "m_nBitsAvail s \<le> 32" "0 < m_nBitsAvail s"
    "m_pDataIn s \<le> int (length m) + 4" "length m < 2 ^ 27" "m_nDataBytes s = length m" "m_pData s = Some m" "m_nDataBits s = 8 * int (length m)"
    using assms mult_div_mod_eq [of 4 "m_pDataIn s"] by (auto simp: safe_defs k_def zmod_int)
  then have cur: "cdiv (m_pDataIn s) 4 = k" by (simp add: k_def)
  define c where "c = (k - 1) * 32 + (32 - m_nBitsAvail s)"
  have c: "c + 8 * int (length m mod 4) = 8 * m_pDataIn s - m_nBitsAvail s" using safe(1) by (simp add: c_def)
  have "i32 ((k - 1) * 32) = (k - 1) * 32" using safe by simp
  moreover have "i32 c = c" using safe by (simp add: c_def)
  moreover have "i32 (8 * m_pDataIn s - m_nBitsAvail s) = 8 * m_pDataIn s - m_nBitsAvail s" using safe by simp
  ultimately have "GetNumBitsRead s = min (8 * m_pDataIn s - m_nBitsAvail s) (8 * int (length m))"
    using safe c by (simp add: GetNumBitsRead_def Let_def cur c_def [symmetric])
  then show "0 \<le> GetNumBitsRead s" "GetNumBitsRead s \<le> 8 * int (length m)" using safe(3) by auto
qed

lemma GetNumBytesRead_safe: "reader_safe m s \<Longrightarrow> 0 \<le> GetNumBytesRead s"
  using GetNumBitsRead_safe [of m s]
  by (auto simp: GetNumBytesRead_def drop_bit_eq_div safe_defs)

subsection \<open>Construction\<close>

lemma CBitRead_ctor_safe:
  assumes "addr mod 4 = 0" and "4 \<le> length m" and "length m < 2 ^ 27"
  shows "\<exists>s. CBitRead_ctor addr (Some m) (int (length m)) (-1) raw = Some s \<and> reader_safe m s"
proof -
  let ?s = "raw\<lparr>m_pData := Some m, m_pDataIn := 0, m_nDataBytes := length m,
      m_nDataBits := int (length m) * 8, m_bOverflow := False, m_pBufferEnd := int (length m)\<rparr>"
  have "reader_frame m ?s" using assms by (simp add: reader_defs)
  then obtain b s where "Seek 0 ?s = Some (b, s)" "reader_safe m s"
    using Seek_safe [of m ?s 0] assms(2) safe_fromD by blast
  moreover have "int (length m) mod 2 ^ 32 = int (length m)" using assms(3) by simp
  ultimately show ?thesis using assms by (simp add: CBitRead_ctor_def StartReading_def Let_def)
qed

end
