(* ===== verification/Coord.thy ===== *)
theory Coord
  imports BitSafe Complex_Main
begin

text \<open>
  The floating-point reads of \<^verbatim>\<open>CBitRead\<close>: angles, coordinates, cell coordinates, normals and
  vectors (\<^verbatim>\<open>packetbitbuf.cpp\<close>, with the field widths of \<^verbatim>\<open>coordsize.h\<close> and \<open>Vector\<close> of
  \<^verbatim>\<open>packet.h\<close>).

  A \<open>float\<close> is a sign and a rational magnitude, so that the two zeros differ; every operation
  rounds its exact result to 24 significant bits, ties to even, as single-precision hardware
  does. All values here lie between \<open>2 ^ - 40\<close> and \<open>2 ^ 40\<close>, far from overflow and from
  subnormal numbers, which the model does not have.
\<close>

subsection \<open>Single precision\<close>

record float32 =
  f_neg :: bool
  f_mag :: rat

fun bit_count :: "nat \<Rightarrow> nat" where
  "bit_count n = (if n = 0 then 0 else Suc (bit_count (n div 2)))"

declare bit_count.simps [simp del]

text \<open>The binary exponent of a positive rational: \<open>2 powi rat_log x \<le> x < 2 powi (rat_log x + 1)\<close>.\<close>

definition rat_log :: "rat \<Rightarrow> int" where
  "rat_log x = (let (a, b) = quotient_of x; k = int (bit_count (nat a)) - int (bit_count (nat b))
     in if 2 powi k \<le> x then k else k - 1)"

definition round_even :: "rat \<Rightarrow> int" where
  "round_even x = (let n = floor x; d = x - of_int n
     in if d < 1 / 2 then n else if 1 / 2 < d then n + 1 else if even n then n else n + 1)"

definition round24 :: "rat \<Rightarrow> rat" where
  "round24 x = (if x = 0 then 0 else let u = 2 powi (rat_log x - 23) in of_int (round_even (x / u)) * u)"

definition f_val :: "float32 \<Rightarrow> rat" where
  "f_val a = (if f_neg a then - f_mag a else f_mag a)"

definition f_zero :: float32 where "f_zero = \<lparr>f_neg = False, f_mag = 0\<rparr>"

definition f_of_int :: "int \<Rightarrow> float32" where
  "f_of_int i = \<lparr>f_neg = (i < 0), f_mag = round24 (of_int \<bar>i\<bar>)\<rparr>"

definition f_uminus :: "float32 \<Rightarrow> float32" where
  "f_uminus a = a\<lparr>f_neg := \<not> f_neg a\<rparr>"

definition f_add :: "float32 \<Rightarrow> float32 \<Rightarrow> float32" where
  "f_add a b = (let r = f_val a + f_val b
     in \<lparr>f_neg = (if r = 0 then f_neg a \<and> f_neg b else r < 0), f_mag = round24 \<bar>r\<bar>\<rparr>)"

definition f_mult :: "float32 \<Rightarrow> float32 \<Rightarrow> float32" where
  "f_mult a b = \<lparr>f_neg = (f_neg a \<noteq> f_neg b), f_mag = round24 (f_mag a * f_mag b)\<rparr>"

definition f_div :: "float32 \<Rightarrow> float32 \<Rightarrow> float32" where
  "f_div a b = \<lparr>f_neg = (f_neg a \<noteq> f_neg b), f_mag = round24 (f_mag a / f_mag b)\<rparr>"

subsection \<open>The reads\<close>

definition COORD_INTEGER_BITS :: int where "COORD_INTEGER_BITS = 14"
definition COORD_FRACTIONAL_BITS :: int where "COORD_FRACTIONAL_BITS = 5"
definition COORD_DENOMINATOR :: int where "COORD_DENOMINATOR = 2 ^ nat COORD_FRACTIONAL_BITS"
definition COORD_RESOLUTION :: float32 where "COORD_RESOLUTION = f_div (f_of_int 1) (f_of_int COORD_DENOMINATOR)"
definition COORD_INTEGER_BITS_MP :: int where "COORD_INTEGER_BITS_MP = 11"
definition COORD_FRACTIONAL_BITS_MP_LOWPRECISION :: int where "COORD_FRACTIONAL_BITS_MP_LOWPRECISION = 3"
definition COORD_DENOMINATOR_LOWPRECISION :: int where "COORD_DENOMINATOR_LOWPRECISION = 2 ^ nat COORD_FRACTIONAL_BITS_MP_LOWPRECISION"
definition COORD_RESOLUTION_LOWPRECISION :: float32 where
  "COORD_RESOLUTION_LOWPRECISION = f_div (f_of_int 1) (f_of_int COORD_DENOMINATOR_LOWPRECISION)"
definition NORMAL_FRACTIONAL_BITS :: int where "NORMAL_FRACTIONAL_BITS = 11"
definition NORMAL_DENOMINATOR :: int where "NORMAL_DENOMINATOR = 2 ^ nat NORMAL_FRACTIONAL_BITS - 1"
definition NORMAL_RESOLUTION :: float32 where "NORMAL_RESOLUTION = f_div (f_of_int 1) (f_of_int NORMAL_DENOMINATOR)"

definition GetBitForBitnum :: "int \<Rightarrow> int" where
  "GetBitForBitnum bitNum = map (\<lambda>i. sint (push_bit i (1 :: u32))) [0..<32] ! nat (bitNum AND 31)"

definition ReadBitAngle :: "int \<Rightarrow> CBitRead \<Rightarrow> (float32 \<times> CBitRead) option" where
  "ReadBitAngle numbits s = do {
     let shift = f_of_int (GetBitForBitnum numbits);
     (i, s) \<leftarrow> ReadUBitLong numbits s;
     Some (f_mult (f_of_int (sint i)) (f_div (f_of_int 360) shift), s) }"

text \<open>\<open>if (signbit) value = -value\<close>.\<close>

definition fix_sign :: "u32 \<Rightarrow> float32 \<Rightarrow> float32" where
  "fix_sign signbit value = (if signbit \<noteq> 0 then f_uminus value else value)"

definition ReadBitCoord :: "CBitRead \<Rightarrow> (float32 \<times> CBitRead) option" where
  "ReadBitCoord s = do {
     (intval, s) \<leftarrow> ReadOneBit s;
     (fractval, s) \<leftarrow> ReadOneBit s;
     if intval \<noteq> 0 \<or> fractval \<noteq> 0 then do {
       (signbit, s) \<leftarrow> ReadOneBit s;
       (intval, s) \<leftarrow> (if intval \<noteq> 0 then do { (v, s) \<leftarrow> ReadUBitLong COORD_INTEGER_BITS s; Some (v + 1, s) } else Some (intval, s));
       (fractval, s) \<leftarrow> (if fractval \<noteq> 0 then ReadUBitLong COORD_FRACTIONAL_BITS s else Some (fractval, s));
       let value = f_add (f_of_int (sint intval)) (f_mult (f_of_int (sint fractval)) COORD_RESOLUTION);
       Some (fix_sign signbit value, s) }
     else Some (f_zero, s) }"

datatype EBitCoordType = kCW_None | kCW_LowPrecision | kCW_Integral

definition fraction_bits :: "EBitCoordType \<Rightarrow> int" where
  "fraction_bits coordType = (if coordType = kCW_LowPrecision then COORD_FRACTIONAL_BITS_MP_LOWPRECISION else COORD_FRACTIONAL_BITS)"

definition resolution :: "EBitCoordType \<Rightarrow> float32" where
  "resolution coordType = (if coordType = kCW_LowPrecision then COORD_RESOLUTION_LOWPRECISION else COORD_RESOLUTION)"

definition ReadBitCoordMP :: "EBitCoordType \<Rightarrow> CBitRead \<Rightarrow> (float32 \<times> CBitRead) option" where
  "ReadBitCoordMP coordType s = do {
     (bInBounds, s) \<leftarrow> ReadOneBit s;
     let width = (if bInBounds \<noteq> 0 then COORD_INTEGER_BITS_MP else COORD_INTEGER_BITS);
     if coordType = kCW_Integral then do {
       (intval, s) \<leftarrow> ReadOneBit s;
       if intval \<noteq> 0 then do {
         (signbit, s) \<leftarrow> ReadOneBit s;
         (v, s) \<leftarrow> ReadUBitLong width s;
         Some (fix_sign signbit (f_of_int (uint (v + 1))), s) }
       else Some (f_zero, s) }
     else do {
       (intval, s) \<leftarrow> ReadOneBit s;
       (signbit, s) \<leftarrow> ReadOneBit s;
       (intval, s) \<leftarrow> (if intval \<noteq> 0 then do { (v, s) \<leftarrow> ReadUBitLong width s; Some (v + 1, s) } else Some (intval, s));
       (fractval, s) \<leftarrow> ReadUBitLong (fraction_bits coordType) s;
       let value = f_add (f_of_int (sint intval)) (f_mult (f_of_int (sint fractval)) (resolution coordType));
       Some (fix_sign signbit value, s) } }"

definition ReadBitCellCoord :: "int \<Rightarrow> EBitCoordType \<Rightarrow> CBitRead \<Rightarrow> (float32 \<times> CBitRead) option" where
  "ReadBitCellCoord bits coordType s =
     (if coordType = kCW_Integral then do { (v, s) \<leftarrow> ReadUBitLong bits s; Some (f_of_int (uint v), s) }
      else do {
        (intval, s) \<leftarrow> ReadUBitLong bits s;
        (fractval, s) \<leftarrow> ReadUBitLong (fraction_bits coordType) s;
        Some (f_add (f_of_int (sint intval)) (f_mult (f_of_int (sint fractval)) (resolution coordType)), s) })"

record Vector =
  vx :: float32
  vy :: float32
  vz :: float32

definition Vector_Init :: "float32 \<Rightarrow> float32 \<Rightarrow> float32 \<Rightarrow> Vector" where
  "Vector_Init a b c = \<lparr>vx = a, vy = b, vz = c\<rparr>"

definition ReadBitVec3Coord :: "CBitRead \<Rightarrow> (Vector \<times> CBitRead) option" where
  "ReadBitVec3Coord s = do {
     let fa = Vector_Init f_zero f_zero f_zero;
     (xflag, s) \<leftarrow> ReadOneBit s;
     (yflag, s) \<leftarrow> ReadOneBit s;
     (zflag, s) \<leftarrow> ReadOneBit s;
     (fa, s) \<leftarrow> (if xflag \<noteq> 0 then do { (v, s) \<leftarrow> ReadBitCoord s; Some (fa\<lparr>vx := v\<rparr>, s) } else Some (fa, s));
     (fa, s) \<leftarrow> (if yflag \<noteq> 0 then do { (v, s) \<leftarrow> ReadBitCoord s; Some (fa\<lparr>vy := v\<rparr>, s) } else Some (fa, s));
     (fa, s) \<leftarrow> (if zflag \<noteq> 0 then do { (v, s) \<leftarrow> ReadBitCoord s; Some (fa\<lparr>vz := v\<rparr>, s) } else Some (fa, s));
     Some (fa, s) }"

definition ReadBitAngles :: "CBitRead \<Rightarrow> (Vector \<times> CBitRead) option" where
  "ReadBitAngles s = do { (tmp, s) \<leftarrow> ReadBitVec3Coord s; Some (Vector_Init (vx tmp) (vy tmp) (vz tmp), s) }"

definition ReadBitNormal :: "CBitRead \<Rightarrow> (float32 \<times> CBitRead) option" where
  "ReadBitNormal s = do {
     (signbit, s) \<leftarrow> ReadOneBit s;
     (fractval, s) \<leftarrow> ReadUBitLong NORMAL_FRACTIONAL_BITS s;
     Some (fix_sign signbit (f_mult (f_of_int (uint fractval)) NORMAL_RESOLUTION), s) }"

text \<open>
  The square root of the C library, correctly rounded: the root is found on the integers with
  one bit more than the result keeps.
\<close>

function root_from :: "nat \<Rightarrow> nat \<Rightarrow> nat \<Rightarrow> nat" where
  "root_from n lo hi = (if Suc lo < hi then let mid = (lo + hi) div 2 in if mid * mid \<le> n then root_from n mid hi else root_from n lo mid else lo)"
  by pat_completeness auto

termination root_from
  by (relation "measure (\<lambda>(n, lo, hi). hi - lo)") (auto simp: Let_def)

declare root_from.simps [simp del]

definition f_sqrt :: "float32 \<Rightarrow> float32" where
  "f_sqrt a = (if f_mag a = 0 then a
     else let e = rat_log (f_mag a) div 2 - 23;
              n = nat (floor (4 * f_mag a / (2 powi e) ^ 2));
              r = root_from n 0 (2 ^ 26)
          in \<lparr>f_neg = f_neg a, f_mag = of_nat ((r + 1) div 2) * 2 powi e\<rparr>)"

definition ReadBitVec3Normal :: "CBitRead \<Rightarrow> (Vector \<times> CBitRead) option" where
  "ReadBitVec3Normal s = do {
     (xflag, s) \<leftarrow> ReadOneBit s;
     (yflag, s) \<leftarrow> ReadOneBit s;
     (x, s) \<leftarrow> (if xflag \<noteq> 0 then ReadBitNormal s else Some (f_zero, s));
     (y, s) \<leftarrow> (if yflag \<noteq> 0 then ReadBitNormal s else Some (f_zero, s));
     (znegative, s) \<leftarrow> ReadOneBit s;
     let fafafbfb = f_add (f_mult x x) (f_mult y y);
     let z = (if f_val fafafbfb < 1 then f_sqrt (f_add (f_of_int 1) (f_uminus fafafbfb)) else f_zero);
     Some (Vector_Init x y (fix_sign znegative z), s) }"

text \<open>\<open>ReadBitFloat\<close> reinterprets 32 bits; its result is the bit pattern.\<close>

definition ReadBitFloat :: "CBitRead \<Rightarrow> (u32 \<times> CBitRead) option" where
  "ReadBitFloat s = ReadUBitLong 32 s"

subsection \<open>Rounding\<close>

lemma bit_count_bounds: "0 < n \<Longrightarrow> 2 ^ (bit_count n - 1) \<le> n \<and> n < 2 ^ bit_count n \<and> 0 < bit_count n"
proof (induction n rule: bit_count.induct)
  case (1 n)
  show ?case
  proof (cases "n div 2 = 0")
    case True
    then have "n = 1" using 1(2) by auto
    then show ?thesis by (simp add: bit_count.simps)
  next
    case False
    define k where "k = bit_count (n div 2)"
    from 1 False have k: "2 ^ (k - 1) \<le> n div 2" "n div 2 < 2 ^ k" "0 < k" by (auto simp: k_def)
    obtain j where j: "k = Suc j" using k(3) by (cases k) auto
    have "n < 2 ^ Suc k" using k(2) by simp
    moreover have "2 ^ k \<le> n" using k(1) j by simp
    ultimately show ?thesis using bit_count.simps [of n] 1(2) by (simp add: k_def)
  qed
qed

lemma rat_log_le:
  assumes "0 < x"
  shows "2 powi rat_log x \<le> x"
proof -
  obtain a b where q: "quotient_of x = (a, b)" by (cases "quotient_of x") auto
  have b: "0 < b" using quotient_of_denom_pos [OF q] .
  have x: "x = of_int a / of_int b" by (rule quotient_of_div [OF q])
  then have a: "0 < a" using assms b by (simp add: zero_less_divide_iff)
  let ?la = "bit_count (nat a)" and ?lb = "bit_count (nat b)"
  have la: "2 ^ (?la - 1) \<le> nat a" "0 < ?la" and lb: "nat b < 2 ^ ?lb" using bit_count_bounds [of "nat a"] bit_count_bounds [of "nat b"] a b by auto
  have "int (2 ^ (?la - 1)) \<le> a" using la(1) a by (simp add: le_nat_iff)
  then have ra: "(2 :: rat) ^ (?la - 1) \<le> of_int a" by (metis of_int_le_iff of_int_of_nat_eq of_nat_numeral of_nat_power)
  have "b \<le> int (2 ^ ?lb)" using lb b by linarith
  then have rb: "of_int b \<le> (2 :: rat) ^ ?lb" by (metis of_int_le_iff of_int_of_nat_eq of_nat_numeral of_nat_power)
  have "(2 :: rat) powi (int ?la - int ?lb - 1) = 2 ^ (?la - 1) / 2 ^ ?lb"
    using la(2) by (simp add: power_int_diff of_nat_diff power_diff)
  also have "\<dots> \<le> of_int a / of_int b" using ra rb a b by (intro frac_le) auto
  finally have "(2 :: rat) powi (int ?la - int ?lb - 1) \<le> x" by (simp add: x)
  then show ?thesis by (simp add: rat_log_def q Let_def)
qed

lemma rat_log_less:
  assumes "0 < x"
  shows "x < 2 powi (rat_log x + 1)"
proof -
  obtain a b where q: "quotient_of x = (a, b)" by (cases "quotient_of x") auto
  have b: "0 < b" using quotient_of_denom_pos [OF q] .
  have x: "x = of_int a / of_int b" by (rule quotient_of_div [OF q])
  then have a: "0 < a" using assms b by (simp add: zero_less_divide_iff)
  let ?la = "bit_count (nat a)" and ?lb = "bit_count (nat b)"
  have la: "nat a < 2 ^ ?la" and lb: "2 ^ (?lb - 1) \<le> nat b" "0 < ?lb" using bit_count_bounds [of "nat a"] bit_count_bounds [of "nat b"] a b by auto
  have "a < int (2 ^ ?la)" using la a by linarith
  then have ra: "of_int a < (2 :: rat) ^ ?la" by (metis of_int_less_iff of_int_of_nat_eq of_nat_numeral of_nat_power)
  have "int (2 ^ (?lb - 1)) \<le> b" using lb(1) b by linarith
  then have rb: "(2 :: rat) ^ (?lb - 1) \<le> of_int b" by (metis of_int_le_iff of_int_of_nat_eq of_nat_numeral of_nat_power)
  have "of_int a / of_int b < (2 :: rat) ^ ?la / 2 ^ (?lb - 1)" using ra rb a b by (intro frac_less) auto
  also have "\<dots> = 2 powi (int ?la - int ?lb + 1)"
    using lb(2) by (simp add: power_int_diff power_int_add of_nat_diff power_diff field_simps)
  finally have "x < 2 powi (int ?la - int ?lb + 1)" by (simp add: x)
  then show ?thesis by (auto simp: rat_log_def q Let_def)
qed

lemma rat_log_eqI:
  assumes "2 powi k \<le> x" and "x < 2 powi (k + 1)"
  shows "rat_log x = k"
proof -
  have pos: "0 < x" using assms(1) zero_less_power_int [of "2 :: rat" k] by linarith
  have mono: "i < j" if "(2 :: rat) powi i < 2 powi j" for i j
    using that power_int_increasing [of j i "2 :: rat"] by (meson linorder_not_less not_less one_le_numeral)
  have "rat_log x < k + 1" using rat_log_le [OF pos] assms(2) mono by (meson le_less_trans)
  moreover have "k < rat_log x + 1" using rat_log_less [OF pos] assms(1) mono by (meson le_less_trans)
  ultimately show ?thesis by simp
qed

lemma round_even_int [simp]: "round_even (of_int n) = n"
  by (simp add: round_even_def)

lemma round_even_error: "\<bar>of_int (round_even x) - x\<bar> \<le> 1 / 2"
  using floor_correct [of x] by (auto simp: round_even_def Let_def)

text \<open>A number of at most 24 significant bits is not changed.\<close>

lemma round24_exact:
  assumes "m < 2 ^ 24"
  shows "round24 (of_nat m * 2 powi k) = of_nat m * 2 powi k"
proof (cases "m = 0")
  case False
  let ?x = "of_nat m * 2 powi k :: rat"
  let ?e = "rat_log ?x - 23"
  have pos: "0 < ?x" using False by simp
  have "2 powi rat_log ?x \<le> ?x" by (rule rat_log_le [OF pos])
  also have "of_nat m < (2 :: rat) ^ 24" using assms by (metis of_nat_less_iff of_nat_numeral of_nat_power)
  then have "?x < 2 ^ 24 * 2 powi k" by simp
  also have "\<dots> = 2 powi (24 + k)" by (simp add: power_int_add)
  finally have "(2 :: rat) powi rat_log ?x < 2 powi (24 + k)" .
  then have "rat_log ?x < 24 + k" using power_int_increasing [of "24 + k" "rat_log ?x" "2 :: rat"] by (meson linorder_not_less not_less one_le_numeral)
  then have k: "0 \<le> k - ?e" by simp
  have "?x / 2 powi ?e = of_nat m * 2 powi (k - ?e)" by (simp add: power_int_diff)
  also have "2 powi (k - ?e) = (of_int (2 ^ nat (k - ?e)) :: rat)" using k by (simp add: power_int_def)
  finally have "?x / 2 powi ?e = of_int (int m * 2 ^ nat (k - ?e))" by simp
  then have "of_int (round_even (?x / 2 powi ?e)) = ?x / 2 powi ?e" by (metis round_even_int)
  then show ?thesis using pos by (simp add: round24_def Let_def)
qed (simp add: round24_def)

lemma round24_nat: "m < 2 ^ 24 \<Longrightarrow> round24 (of_nat m) = of_nat m"
  using round24_exact [of m 0] by simp

lemma round24_frac: "m < 2 ^ 24 \<Longrightarrow> round24 (of_nat m / 2 ^ k) = of_nat m / 2 ^ k"
  using round24_exact [of m "- int k"] by (simp add: power_int_minus field_simps)

lemma round24_int: "0 \<le> i \<Longrightarrow> i < 2 ^ 24 \<Longrightarrow> round24 (of_int i) = of_int i"
  using round24_nat [of "nat i"] by (simp add: nat_less_iff)

text \<open>In general the error is at most half a unit of the last place.\<close>

lemma round24_error:
  assumes "0 \<le> x"
  shows "\<bar>round24 x - x\<bar> \<le> x / 2 ^ 24"
proof (cases "x = 0")
  case False
  define u where "u = (2 :: rat) powi (rat_log x - 23)"
  have u: "0 < u" "u * 2 ^ 23 \<le> x" using rat_log_le [of x] assms False by (simp_all add: u_def power_int_diff)
  have "round24 x - x = (of_int (round_even (x / u)) - x / u) * u" using False u(1) by (simp add: round24_def u_def [symmetric] Let_def field_simps)
  then have "\<bar>round24 x - x\<bar> = \<bar>of_int (round_even (x / u)) - x / u\<bar> * u" using u(1) by (simp add: abs_mult)
  also have "\<dots> \<le> 1 / 2 * u" using round_even_error [of "x / u"] u(1) by (intro mult_right_mono) auto
  finally show ?thesis using u(2) by simp
qed (simp add: round24_def)

subsection \<open>Fields on the wire\<close>

definition carries_bits :: "u8 list \<Rightarrow> nat \<Rightarrow> bool list \<Rightarrow> bool" where
  "carries_bits m p bs \<longleftrightarrow> p + length bs \<le> 8 * length m \<and> (\<forall>i < length bs. sbit m (p + i) = bs ! i)"

definition bits_of :: "nat \<Rightarrow> nat \<Rightarrow> bool list" where
  "bits_of n v = map (bit v) [0..<n]"

text \<open>\<open>yields m bs rd v\<close>: wherever the block carries \<open>bs\<close>, the read \<open>rd\<close> delivers \<open>v\<close> and consumes them.\<close>

definition yields :: "u8 list \<Rightarrow> bool list \<Rightarrow> (CBitRead \<Rightarrow> ('a \<times> CBitRead) option) \<Rightarrow> 'a \<Rightarrow> bool" where
  "yields m bs rd v \<longleftrightarrow> (\<forall>p s. reads_at m p s \<longrightarrow> carries_bits m p bs \<longrightarrow>
     (\<exists>s'. rd s = Some (v, s') \<and> reads_at m (p + length bs) s'))"

lemma length_bits_of [simp]: "length (bits_of n v) = n"
  by (simp add: bits_of_def)

lemma carries_bits_append: "carries_bits m p (as @ bs) \<longleftrightarrow> carries_bits m p as \<and> carries_bits m (p + length as) bs"
proof -
  have "(\<forall>i < length as + length bs. sbit m (p + i) = (as @ bs) ! i) \<longleftrightarrow>
      (\<forall>i < length as. sbit m (p + i) = as ! i) \<and> (\<forall>i < length bs. sbit m (p + length as + i) = bs ! i)" (is "?l \<longleftrightarrow> ?a \<and> ?b")
  proof
    assume l: ?l
    then have ?a by (auto simp: nth_append)
    moreover have ?b
    proof (intro allI impI)
      fix i assume "i < length bs"
      then show "sbit m (p + length as + i) = bs ! i" using l [rule_format, of "length as + i"] by (simp add: add.assoc)
    qed
    ultimately show "?a \<and> ?b" ..
  next
    assume ab: "?a \<and> ?b"
    show ?l
    proof (intro allI impI)
      fix i assume i: "i < length as + length bs"
      show "sbit m (p + i) = (as @ bs) ! i"
      proof (cases "i < length as")
        case False
        then have "sbit m (p + length as + (i - length as)) = bs ! (i - length as)"
          using conjunct2 [OF ab, rule_format, of "i - length as"] i by simp
        moreover have "p + length as + (i - length as) = p + i" using False by simp
        ultimately show ?thesis using False by (simp add: nth_append)
      qed (use ab in \<open>simp add: nth_append\<close>)
    qed
  qed
  then show ?thesis by (auto simp: carries_bits_def add.assoc)
qed

lemma yields_bind:
  assumes "yields m as rd v" and "yields m bs (rd2 v) w"
  shows "yields m (as @ bs) (\<lambda>s. rd s \<bind> (\<lambda>(x, s). rd2 x s)) w"
  unfolding yields_def
proof (intro allI impI)
  fix p s assume at: "reads_at m p s" and c: "carries_bits m p (as @ bs)"
  obtain s1 where s1: "rd s = Some (v, s1)" "reads_at m (p + length as) s1"
    using assms(1) at c unfolding yields_def carries_bits_append by blast
  obtain s2 where "rd2 v s1 = Some (w, s2)" "reads_at m (p + length as + length bs) s2"
    using assms(2) s1(2) c unfolding yields_def carries_bits_append by blast
  with s1(1) show "\<exists>s'. rd s \<bind> (\<lambda>(x, s). rd2 x s) = Some (w, s') \<and> reads_at m (p + length (as @ bs)) s'"
    by (simp add: add.assoc)
qed

lemma yields_return: "v = w \<Longrightarrow> yields m [] (\<lambda>s. Some (v, s)) w"
  by (simp add: yields_def)

lemma yields_field:
  assumes "v < 2 ^ n" and "n \<le> 32" and "k = int n"
  shows "yields m (bits_of n v) (ReadUBitLong k) (of_nat v)"
  unfolding yields_def
proof (intro allI impI)
  fix p s assume at: "reads_at m p s" and c: "carries_bits m p (bits_of n v)"
  have "stream_bits m p n = (of_nat v :: u32)"
  proof (rule bit_word_eqI)
    fix i assume "i < LENGTH(32)"
    have "\<not> bit v i" if "n \<le> i" using assms(1) that bit_take_bit_iff [of n v i] by (simp add: take_bit_nat_eq_self)
    then show "bit (stream_bits m p n :: u32) i = bit (of_nat v :: u32) i"
      using c \<open>i < LENGTH(32)\<close> by (cases "i < n") (auto simp: bit_stream_bits carries_bits_def bits_of_def bit_of_nat_iff)
  qed
  then show "\<exists>s'. ReadUBitLong k s = Some (of_nat v, s') \<and> reads_at m (p + length (bits_of n v)) s'"
    using ReadUBitLong_reads [OF at, of k] c assms(2,3) by (auto simp: carries_bits_def)
qed

lemma yields_flag: "yields m [b] ReadOneBit (of_bool b)"
  unfolding yields_def
proof (intro allI impI)
  fix p s assume at: "reads_at m p s" and c: "carries_bits m p [b]"
  have live: "reader_live m p s" using at c by (auto simp: reads_at_def reader_defs carries_bits_def)
  have "ReadOneBit s = ReadUBitLong 1 s" by (rule ReadOneBit_eq) (use live in \<open>simp add: reader_defs\<close>)
  moreover have "stream_bits m p 1 = (of_bool b :: u32)" using c by (simp add: stream_bits_def carries_bits_def)
  ultimately show "\<exists>s'. ReadOneBit s = Some (of_bool b, s') \<and> reads_at m (p + length [b]) s'"
    using ReadUBitLong_reads [OF at, of 1] c by (auto simp: carries_bits_def)
qed

lemmas coord_widths = COORD_INTEGER_BITS_def COORD_FRACTIONAL_BITS_def COORD_INTEGER_BITS_MP_def COORD_FRACTIONAL_BITS_MP_LOWPRECISION_def
  NORMAL_FRACTIONAL_BITS_def COORD_DENOMINATOR_def COORD_DENOMINATOR_LOWPRECISION_def NORMAL_DENOMINATOR_def

subsection \<open>Fixed-point values are exact\<close>

definition fixed :: "bool \<Rightarrow> nat \<Rightarrow> nat \<Rightarrow> nat \<Rightarrow> float32" where
  "fixed neg k i f = \<lparr>f_neg = neg, f_mag = of_nat i + of_nat f / 2 ^ k\<rparr>"

lemma f_of_nat: "n < 2 ^ 24 \<Longrightarrow> f_of_int (int n) = \<lparr>f_neg = False, f_mag = of_nat n\<rparr>"
  by (simp add: f_of_int_def round24_nat)

lemma f_sum_exact:
  assumes "i * 2 ^ k + f < 2 ^ 24" and "r = \<lparr>f_neg = False, f_mag = 1 / 2 ^ k\<rparr>"
  shows "f_add (f_of_int (int i)) (f_mult (f_of_int (int f)) r) = fixed False k i f"
proof -
  have "i \<le> i * 2 ^ k" by simp
  then have small: "i < 2 ^ 24" "f < 2 ^ 24" using assms(1) by linarith+
  have prod: "round24 (of_nat f * (1 / 2 ^ k)) = of_nat f / 2 ^ k" using round24_frac [OF small(2), of k] by simp
  have sum: "of_nat i + of_nat f / 2 ^ k = (of_nat (i * 2 ^ k + f) / 2 ^ k :: rat)" by (simp add: add_divide_distrib)
  then have "round24 (of_nat i + of_nat f / 2 ^ k) = of_nat i + of_nat f / 2 ^ k" using round24_frac [OF assms(1), of k] by simp
  moreover have "0 \<le> of_nat i + of_nat f / (2 :: rat) ^ k" by simp
  ultimately show ?thesis
    using assms(2) prod small by (simp add: f_add_def f_mult_def f_of_nat f_val_def fixed_def Let_def not_less [symmetric])
qed

lemma resolution_exact [simp]:
  "COORD_RESOLUTION = \<lparr>f_neg = False, f_mag = 1 / 2 ^ 5\<rparr>" "COORD_RESOLUTION_LOWPRECISION = \<lparr>f_neg = False, f_mag = 1 / 2 ^ 3\<rparr>"
proof -
  have "f_of_int 32 = \<lparr>f_neg = False, f_mag = 32\<rparr>" "f_of_int 8 = \<lparr>f_neg = False, f_mag = 8\<rparr>" "f_of_int 1 = \<lparr>f_neg = False, f_mag = 1\<rparr>"
    using f_of_nat [of 32] f_of_nat [of 8] f_of_nat [of 1] by simp_all
  then show "COORD_RESOLUTION = \<lparr>f_neg = False, f_mag = 1 / 2 ^ 5\<rparr>" "COORD_RESOLUTION_LOWPRECISION = \<lparr>f_neg = False, f_mag = 1 / 2 ^ 3\<rparr>"
    using round24_frac [of 1 5] round24_frac [of 1 3]
    by (simp_all add: COORD_RESOLUTION_def COORD_RESOLUTION_LOWPRECISION_def f_div_def coord_widths)
qed

lemma fix_sign_fixed [simp]: "fix_sign (of_bool neg) (fixed False k i f) = fixed neg k i f"
  by (simp add: fix_sign_def f_uminus_def fixed_def)

lemma sint_small: "n < 2 ^ 31 \<Longrightarrow> sint (of_nat n :: u32) = int n"
  by (simp add: signed_of_nat signed_take_bit_int_eq_self)

lemma minus_1_plus_1: "0 < i \<Longrightarrow> (of_nat (i - 1) :: u32) + 1 = of_nat i"
  by (simp add: of_nat_diff)

subsection \<open>The senders' packings\<close>

text \<open>
  What the readers are there to undo: the bits that \<open>bf_write::WriteBitCoord\<close>, \<open>WriteBitVec3Coord\<close> and
  \<open>WriteBitCoordMP\<close> write, which \<^verbatim>\<open>packetbitbuf.cpp\<close> keeps as a comment. They have the flags of the
  diagrams in \<^verbatim>\<open>coordsize.h\<close>, but five fraction bits, the constant of that file, where its diagrams
  have four. For cell coordinates neither file has a writer or a diagram; \<open>cell_bits\<close> is an integer of
  the width asked for with the fraction behind it.
\<close>

definition coord_bits :: "bool \<Rightarrow> nat \<Rightarrow> nat \<Rightarrow> bool list" where
  "coord_bits neg i f = [i \<noteq> 0] @ [f \<noteq> 0] @
     (if i \<noteq> 0 \<or> f \<noteq> 0 then [neg] @ (if i \<noteq> 0 then bits_of 14 (i - 1) else []) @ (if f \<noteq> 0 then bits_of 5 f else []) else [])"

definition mp_width :: "bool \<Rightarrow> nat" where "mp_width inside = (if inside then 11 else 14)"

definition fraction_width :: "EBitCoordType \<Rightarrow> nat" where
  "fraction_width t = (if t = kCW_Integral then 0 else if t = kCW_LowPrecision then 3 else 5)"

definition coord_mp_bits :: "EBitCoordType \<Rightarrow> bool \<Rightarrow> bool \<Rightarrow> nat \<Rightarrow> nat \<Rightarrow> bool list" where
  "coord_mp_bits t inside neg i f = (let int = (if i \<noteq> 0 then bits_of (mp_width inside) (i - 1) else [])
     in if t = kCW_Integral then [inside] @ [i \<noteq> 0] @ (if i \<noteq> 0 then [neg] @ int else [])
        else [inside] @ [i \<noteq> 0] @ [neg] @ int @ bits_of (fraction_width t) f)"

text \<open>The number and the width that \<open>WriteBitCoordMP\<close> gives to \<open>WriteUBitLong\<close>.\<close>

definition mp_packed :: "EBitCoordType \<Rightarrow> bool \<Rightarrow> bool \<Rightarrow> nat \<Rightarrow> nat \<Rightarrow> nat \<times> nat" where
  "mp_packed t inside neg i f =
     (if t = kCW_Integral then
        if i \<noteq> 0 then ((i - 1) * 8 + of_bool neg * 4 + 2 + of_bool inside, 3 + mp_width inside) else (of_bool inside, 2)
      else if i \<noteq> 0 then
        ((i - 1) * 8 + of_bool neg * 4 + 2 + of_bool inside + f * 2 ^ (3 + mp_width inside), 3 + mp_width inside + fraction_width t)
      else (f * 8 + of_bool neg * 4 + of_bool inside, 3 + fraction_width t))"

definition cell_bits :: "nat \<Rightarrow> EBitCoordType \<Rightarrow> nat \<Rightarrow> nat \<Rightarrow> bool list" where
  "cell_bits n t i f = bits_of n i @ (if t = kCW_Integral then [] else bits_of (fraction_width t) f)"

record coord =
  c_neg :: bool
  c_int :: nat
  c_frac :: nat

definition coord_ok :: "coord \<Rightarrow> bool" where
  "coord_ok c \<longleftrightarrow> c_int c \<le> 2 ^ 14 \<and> c_frac c < 2 ^ 5"

definition coord_value :: "coord \<Rightarrow> float32" where
  "coord_value c = (if c_int c \<noteq> 0 \<or> c_frac c \<noteq> 0 then fixed (c_neg c) 5 (c_int c) (c_frac c) else f_zero)"

text \<open>The vector's flags: a component equal to zero is not sent.\<close>

definition vec3_bits :: "coord option \<Rightarrow> coord option \<Rightarrow> coord option \<Rightarrow> bool list" where
  "vec3_bits a b c = (a \<noteq> None) # (b \<noteq> None) # (c \<noteq> None) #
     concat (map (\<lambda>x. case x of None \<Rightarrow> [] | Some c \<Rightarrow> coord_bits (c_neg c) (c_int c) (c_frac c)) [a, b, c])"

definition component :: "coord option \<Rightarrow> float32" where
  "component x = (case x of None \<Rightarrow> f_zero | Some c \<Rightarrow> coord_value c)"

lemma bind_pair: "Option.bind (case x of (a, b) \<Rightarrow> f a b) g = (case x of (a, b) \<Rightarrow> Option.bind (f a b) g)"
  by (cases x) simp

lemma yields_flag_bind:
  "yields m bs (rd2 (of_bool b)) w \<Longrightarrow> yields m (b # bs) (\<lambda>s. ReadOneBit s \<bind> (\<lambda>(x, s). rd2 x s)) w"
  using yields_bind [OF yields_flag] by simp

lemma yields_field_bind:
  "v < 2 ^ n \<Longrightarrow> n \<le> 32 \<Longrightarrow> k = int n \<Longrightarrow> yields m bs (rd2 (of_nat v)) w \<Longrightarrow>
    yields m (bits_of n v @ bs) (\<lambda>s. ReadUBitLong k s \<bind> (\<lambda>(x, s). rd2 x s)) w"
  by (rule yields_bind [OF yields_field])

lemma yields_field_last:
  "v < 2 ^ n \<Longrightarrow> n \<le> 32 \<Longrightarrow> k = int n \<Longrightarrow> yields m [] (rd2 (of_nat v)) w \<Longrightarrow>
    yields m (bits_of n v) (\<lambda>s. ReadUBitLong k s \<bind> (\<lambda>(x, s). rd2 x s)) w"
  using yields_field_bind [of v n k m "[]" rd2 w] by simp

lemmas yields_intros = yields_flag_bind yields_field_bind yields_field_last yields_return

lemma ReadBitCoord_yields:
  assumes "i \<le> 2 ^ 14" and "f < 2 ^ 5"
  shows "yields m (coord_bits neg i f) ReadBitCoord (if i \<noteq> 0 \<or> f \<noteq> 0 then fixed neg 5 i f else f_zero)"
proof -
  have val: "fix_sign (of_bool neg) (f_add (f_of_int (int i)) (f_mult (f_of_int (int f)) COORD_RESOLUTION)) = fixed neg 5 i f"
    using f_sum_exact [of i 5 f COORD_RESOLUTION] assms by simp
  have z: "f_of_int 0 = f_of_int (int 0)" by simp
  show ?thesis
    using assms val
    by (cases "i = 0"; cases "f = 0")
      (auto simp: ReadBitCoord_def [abs_def] coord_bits_def coord_widths bind_pair Option.bind_assoc minus_1_plus_1 sint_small simp del: resolution_exact intro!: yields_intros)
qed

lemma ReadBitCoordMP_yields:
  assumes "i \<le> 2 ^ mp_width inside" and "f < 2 ^ fraction_width t"
  shows "yields m (coord_mp_bits t inside neg i f) (ReadBitCoordMP t)
    (if t = kCW_Integral then if i \<noteq> 0 then fixed neg 0 i 0 else f_zero else fixed neg (fraction_width t) i f)"
proof (cases "t = kCW_Integral")
  case True
  have i: "i \<le> 2 ^ 14" using assms(1) by (cases inside) (auto simp: mp_width_def)
  then have "fix_sign (of_bool neg) (f_of_int (int i)) = fixed neg 0 i 0"
    using f_of_nat [of i] fix_sign_fixed [of neg 0 i 0] by (simp add: fixed_def)
  moreover have "uint (of_nat i :: u32) = int i" using i by (simp add: unsigned_of_nat take_bit_nat_eq_self)
  ultimately show ?thesis
    using assms True
    by (cases "i = 0"; cases inside)
      (auto simp: ReadBitCoordMP_def [abs_def] coord_mp_bits_def coord_widths mp_width_def bind_pair Option.bind_assoc minus_1_plus_1 intro!: yields_intros)
next
  case False
  then have t: "fraction_bits t = int (fraction_width t)" "fraction_width t \<le> 5"
    "resolution t = \<lparr>f_neg = False, f_mag = 1 / 2 ^ fraction_width t\<rparr>"
    by (cases t; simp add: fraction_bits_def fraction_width_def resolution_def coord_widths)+
  have i: "i \<le> 2 ^ 14" using assms(1) by (cases inside) (auto simp: mp_width_def)
  have p: "(2 :: nat) ^ fraction_width t \<le> 2 ^ 5" using t(2) by (intro power_increasing) auto
  have f: "f < 2 ^ 5" using assms(2) p by linarith
  have "i * 2 ^ fraction_width t + f < 2 ^ 24"
    using mult_le_mono [OF i p] f by simp
  from f_sum_exact [OF this t(3)]
  have val: "fix_sign (of_bool neg) (f_add (f_of_int (int i)) (f_mult (f_of_int (int f)) (resolution t))) = fixed neg (fraction_width t) i f"
    by simp
  show ?thesis
    using assms f i False val t(2)
    by (cases "i = 0"; cases inside)
      (auto simp: ReadBitCoordMP_def [abs_def] coord_mp_bits_def coord_widths mp_width_def bind_pair Option.bind_assoc minus_1_plus_1 sint_small t(1)
        simp del: resolution_exact intro!: yields_intros)
qed

lemma ReadBitCellCoord_yields:
  assumes "i < 2 ^ n" and "f < 2 ^ fraction_width t" and "n + fraction_width t \<le> 24"
  shows "yields m (cell_bits n t i f) (ReadBitCellCoord (int n) t) (fixed False (fraction_width t) i (if t = kCW_Integral then 0 else f))"
proof -
  have "i * 2 ^ fraction_width t + f < 2 ^ (n + fraction_width t)"
  proof -
    have "(i + 1) * 2 ^ fraction_width t \<le> 2 ^ n * 2 ^ fraction_width t" using assms(1) by (intro mult_le_mono) auto
    then show ?thesis using assms(2) by (simp add: power_add)
  qed
  moreover have "(2 :: nat) ^ (n + fraction_width t) \<le> 2 ^ 24" using assms(3) by (intro power_increasing) auto
  ultimately have small: "i * 2 ^ fraction_width t + f < 2 ^ 24" by linarith
  have "i \<le> i * 2 ^ fraction_width t" by simp
  then have sm: "i < 2 ^ 24" "f < 2 ^ 24" using small by linarith+
  show ?thesis
  proof (cases "t = kCW_Integral")
    case True
    have "uint (of_nat i :: u32) = int i" using sm by (simp add: unsigned_of_nat take_bit_nat_eq_self)
    then show ?thesis
      using True assms sm f_of_nat [OF sm(1)]
      by (auto simp: ReadBitCellCoord_def [abs_def] cell_bits_def fixed_def fraction_width_def intro!: yields_intros)
  next
    case False
    then have t: "fraction_bits t = int (fraction_width t)" "resolution t = \<lparr>f_neg = False, f_mag = 1 / 2 ^ fraction_width t\<rparr>"
      by (cases t; simp add: fraction_bits_def fraction_width_def resolution_def coord_widths)+
    have "f_add (f_of_int (int i)) (f_mult (f_of_int (int f)) (resolution t)) = fixed False (fraction_width t) i f"
      by (rule f_sum_exact [OF small t(2)])
    then show ?thesis
      using False assms sm by (auto simp: ReadBitCellCoord_def [abs_def] cell_bits_def sint_small t(1) intro!: yields_intros)
  qed
qed

lemma component_yields:
  assumes "\<And>c. x = Some c \<Longrightarrow> coord_ok c" and "\<And>v. v = component x \<Longrightarrow> yields m bs (rd2 (upd v fa)) w" and "upd f_zero fa = fa"
    and "b = of_bool (x \<noteq> None)"
  shows "yields m ((case x of None \<Rightarrow> [] | Some c \<Rightarrow> coord_bits (c_neg c) (c_int c) (c_frac c)) @ bs)
    (\<lambda>s. (if b \<noteq> (0 :: u32) then do { (v, s) \<leftarrow> ReadBitCoord s; Some (upd v fa, s) } else Some (fa, s)) \<bind> (\<lambda>(fa, s). rd2 fa s)) w"
proof (cases x)
  case None
  then show ?thesis using assms(2) [OF refl] assms(3,4) by (simp add: component_def)
next
  case (Some c)
  then have "yields m (coord_bits (c_neg c) (c_int c) (c_frac c)) ReadBitCoord (component x)"
    using ReadBitCoord_yields [of "c_int c" "c_frac c" m "c_neg c"] assms(1) [OF Some] by (simp add: coord_ok_def component_def coord_value_def)
  from yields_bind [where ?rd2.0 = "\<lambda>v. rd2 (upd v fa)", OF this assms(2) [OF refl]] show ?thesis using Some assms(4) by (simp add: bind_pair Option.bind_assoc)
qed

lemma ReadBitVec3Coord_yields:
  assumes "\<forall>x \<in> {a, b, c}. \<forall>k. x = Some k \<longrightarrow> coord_ok k"
  shows "yields m (vec3_bits a b c) ReadBitVec3Coord \<lparr>vx = component a, vy = component b, vz = component c\<rparr>"
  unfolding ReadBitVec3Coord_def [abs_def] vec3_bits_def Let_def list.map concat.simps append_assoc
  apply (intro yields_flag_bind)
  apply (rule component_yields [where upd = "\<lambda>v. vx_update (\<lambda>_. v)"], use assms in blast)
    apply (rule component_yields [where upd = "\<lambda>v. vy_update (\<lambda>_. v)"], use assms in blast)
      apply (rule component_yields [where upd = "\<lambda>v. vz_update (\<lambda>_. v)"], use assms in blast)
        apply (rule yields_return)
        apply (simp_all add: Vector_Init_def)
  done

subsection \<open>Angles and normals\<close>

text \<open>Up to 18 bits an angle is exact; \<open>ReadBitAngle\<close> is within two roundings of \<open>360 * i / 2 ^ n\<close> otherwise.\<close>

lemma GetBitForBitnum_power: "n < 31 \<Longrightarrow> GetBitForBitnum (int n) = 2 ^ n"
  using sint_small [of "2 ^ n"] power_strict_increasing [of n 31 "2 :: nat"]
  by (simp add: GetBitForBitnum_def push_bit_eq_mult)

lemma ReadBitAngle_yields:
  assumes "n \<le> 18" and "i < 2 ^ n"
  shows "yields m (bits_of n i) (ReadBitAngle (int n)) \<lparr>f_neg = False, f_mag = of_nat i * 360 / 2 ^ n\<rparr>"
proof -
  have p: "(2 :: nat) ^ n \<le> 2 ^ 18" using assms(1) by (intro power_increasing) auto
  then have i: "i < 2 ^ 18" using assms(2) by linarith
  have "int (2 ^ n) = 2 ^ n" by simp
  with f_of_nat [of "2 ^ n"] p have shift: "f_of_int (2 ^ n) = \<lparr>f_neg = False, f_mag = 2 ^ n\<rparr>" by simp
  have "f_of_int 360 = \<lparr>f_neg = False, f_mag = 360\<rparr>" using f_of_nat [of 360] by simp
  then have unit: "f_div (f_of_int 360) (f_of_int (2 ^ n)) = \<lparr>f_neg = False, f_mag = 360 / 2 ^ n\<rparr>"
    using shift round24_frac [of 360 n] by (simp add: f_div_def)
  have "round24 (of_nat (45 * i) / 2 ^ n * 8) = of_nat (45 * i) / 2 ^ n * 8"
    using round24_exact [of "45 * i" "3 - int n"] i by (simp add: power_int_diff field_simps)
  then have "f_mult (f_of_int (int i)) (f_div (f_of_int 360) (f_of_int (2 ^ n))) = \<lparr>f_neg = False, f_mag = of_nat i * 360 / 2 ^ n\<rparr>"
    using f_of_nat [of i] i unit by (simp add: f_mult_def field_simps)
  then show ?thesis
    using assms i GetBitForBitnum_power [of n] by (auto simp: ReadBitAngle_def [abs_def] Let_def sint_small intro!: yields_intros)
qed

text \<open>The note of the header on normals: the greatest fraction is exactly one, with either sign.\<close>

lemma normal_one: "f_mult (f_of_int 2047) NORMAL_RESOLUTION = \<lparr>f_neg = False, f_mag = 1\<rparr>"
proof -
  have "rat_log (1 / 2047) = - 11" by (rule rat_log_eqI) simp_all
  moreover have "\<lfloor>17179869184 / 2047 :: rat\<rfloor> = 8392706" by (rule floor_unique) simp_all
  ultimately have "round24 (1 / 2047) = 4196353 / 2 ^ 33" by (simp add: round24_def Let_def round_even_def)
  then have r: "NORMAL_RESOLUTION = \<lparr>f_neg = False, f_mag = 4196353 / 2 ^ 33\<rparr>"
    using f_of_nat [of 1] f_of_nat [of 2047] by (simp add: NORMAL_RESOLUTION_def f_div_def coord_widths)
  have "round24 (8589934591 / 8589934592) = 1"
  proof -
    have "rat_log (8589934591 / 8589934592) = - 1" by (rule rat_log_eqI) simp_all
    moreover have "\<lfloor>8589934591 / 512 :: rat\<rfloor> = 16777215" by (rule floor_unique) simp_all
    ultimately show ?thesis by (simp add: round24_def Let_def round_even_def)
  qed
  then show ?thesis using f_of_nat [of 2047] by (simp add: f_mult_def r)
qed

lemma ReadBitNormal_yields:
  assumes "f < 2 ^ 11"
  shows "yields m (neg # bits_of 11 f) ReadBitNormal (fix_sign (of_bool neg) (f_mult (f_of_int (int f)) NORMAL_RESOLUTION))"
proof -
  have "uint (of_nat f :: u32) = int f" using assms by (simp add: unsigned_of_nat take_bit_nat_eq_self)
  then show ?thesis using assms by (auto simp: ReadBitNormal_def [abs_def] coord_widths intro!: yields_intros)
qed

subsection \<open>Safety\<close>

text \<open>\<open>rd_total m rd\<close>: on any reader in a safe state the read returns, and leaves a safe state.\<close>

definition rd_total :: "u8 list \<Rightarrow> (CBitRead \<Rightarrow> ('a \<times> CBitRead) option) \<Rightarrow> bool" where
  "rd_total m rd \<longleftrightarrow> (\<forall>s. reader_safe m s \<longrightarrow> (\<exists>v s'. rd s = Some (v, s') \<and> safe_from m s s'))"

lemma rd_totalD: "rd_total m rd \<Longrightarrow> reader_safe m s \<Longrightarrow> \<exists>v s'. rd s = Some (v, s') \<and> safe_from m s s'"
  by (simp add: rd_total_def)

lemma rd_total_bind:
  assumes "rd_total m rd" and "\<And>v. rd_total m (rd2 v)"
  shows "rd_total m (\<lambda>s. rd s \<bind> (\<lambda>(x, s). rd2 x s))"
  unfolding rd_total_def
proof (intro allI impI)
  fix s assume "reader_safe m s"
  then obtain v s1 where s1: "rd s = Some (v, s1)" "safe_from m s s1" using rd_totalD [OF assms(1)] by blast
  obtain w s2 where "rd2 v s1 = Some (w, s2)" "safe_from m s1 s2" using rd_totalD [OF assms(2) safe_fromD [OF s1(2)]] by blast
  with s1 show "\<exists>v s'. rd s \<bind> (\<lambda>(x, s). rd2 x s) = Some (v, s') \<and> safe_from m s s'" using safe_from_trans by auto
qed

lemma rd_total_return: "rd_total m (\<lambda>s. Some (v, s))"
  by (simp add: rd_total_def safe_from_def)

lemma rd_total_if: "rd_total m rd \<Longrightarrow> rd_total m rd2 \<Longrightarrow> rd_total m (\<lambda>s. if b then rd s else rd2 s)"
  by (cases b) simp_all

lemma rd_total_flag: "rd_total m ReadOneBit"
  by (simp add: rd_total_def ReadOneBit_safe)

lemma rd_total_field: "0 \<le> n \<Longrightarrow> n \<le> 32 \<Longrightarrow> rd_total m (ReadUBitLong n)"
  by (simp add: rd_total_def ReadUBitLong_safe)

lemmas rd_total_intros = rd_total_bind rd_total_return rd_total_if rd_total_flag rd_total_field

lemma rd_total_coord: "rd_total m ReadBitCoord"
  unfolding ReadBitCoord_def [abs_def] Let_def by (intro rd_total_intros) (simp_all add: coord_widths)

lemma rd_total_reads:
  "rd_total m (ReadBitCoordMP t)" "rd_total m ReadBitVec3Coord" "rd_total m ReadBitAngles" "rd_total m ReadBitNormal" "rd_total m ReadBitVec3Normal"
  "0 \<le> n \<Longrightarrow> n \<le> 32 \<Longrightarrow> rd_total m (ReadBitCellCoord n t)" "0 \<le> n \<Longrightarrow> n \<le> 32 \<Longrightarrow> rd_total m (ReadBitAngle n)" "rd_total m ReadBitFloat"
proof -
  show "rd_total m (ReadBitCoordMP t)"
    unfolding ReadBitCoordMP_def [abs_def] Let_def by (intro rd_total_intros) (simp_all add: coord_widths fraction_bits_def)
  show v: "rd_total m ReadBitVec3Coord"
    unfolding ReadBitVec3Coord_def [abs_def] Let_def by (intro rd_total_intros rd_total_coord)
  show "rd_total m ReadBitAngles"
    unfolding ReadBitAngles_def [abs_def] by (intro rd_total_intros v)
  show n: "rd_total m ReadBitNormal"
    unfolding ReadBitNormal_def [abs_def] by (intro rd_total_intros) (simp_all add: coord_widths)
  show "rd_total m ReadBitVec3Normal"
    unfolding ReadBitVec3Normal_def [abs_def] Let_def by (intro rd_total_intros n)
  show "rd_total m (ReadBitCellCoord n t)" if "0 \<le> n" "n \<le> 32"
    unfolding ReadBitCellCoord_def [abs_def] by (intro rd_total_intros) (use that in \<open>simp_all add: coord_widths fraction_bits_def\<close>)
  show "rd_total m (ReadBitAngle n)" if "0 \<le> n" "n \<le> 32"
    unfolding ReadBitAngle_def [abs_def] Let_def by (intro rd_total_intros) (use that in simp_all)
  show "rd_total m ReadBitFloat"
    unfolding ReadBitFloat_def [abs_def] by (intro rd_total_intros) simp_all
qed

subsection \<open>The writer's arithmetic\<close>

lemma bits_of_Suc: "bits_of (Suc n) v = odd v # bits_of n (v div 2)"
  by (simp add: bits_of_def upt_conv_Cons bit_0 bit_Suc map_Suc_upt [symmetric] del: upt_Suc)

lemma bits_of_0: "bits_of 0 v = []"
  by (simp add: bits_of_def)

lemma bits_of_split: "x < 2 ^ a \<Longrightarrow> bits_of (a + b) (x + y * 2 ^ a) = bits_of a x @ bits_of b y"
proof (induction a arbitrary: x)
  case (Suc a)
  have "(x + y * 2 ^ Suc a) div 2 = x div 2 + y * 2 ^ a" "odd (x + y * 2 ^ Suc a) = odd x" by simp_all
  moreover have "x div 2 < 2 ^ a" using Suc.prems by simp
  ultimately show ?case using Suc.IH [of "x div 2"] by (simp only: add_Suc bits_of_Suc append.simps)
qed (simp add: bits_of_0)

lemma bits_of_flags: "bits_of (3 + n) (v * 8 + of_bool c * 4 + of_bool b * 2 + of_bool a) = a # b # c # bits_of n v"
proof -
  have "bits_of (3 + n) ((of_bool a + of_bool b * 2 + of_bool c * 4) + v * 2 ^ 3) =
      bits_of 3 (of_bool a + of_bool b * 2 + of_bool c * 4) @ bits_of n v"
    by (rule bits_of_split) simp
  moreover have "bits_of 3 (of_bool a + of_bool b * 2 + of_bool c * 4) = [a, b, c]"
    by (cases a; cases b; cases c) (simp_all add: numeral_3_eq_3 bits_of_Suc bits_of_0)
  ultimately show ?thesis by (simp add: add_ac)
qed

lemma mp_packed_bits:
  assumes "i \<le> 2 ^ mp_width inside"
  shows "bits_of (snd (mp_packed t inside neg i f)) (fst (mp_packed t inside neg i f)) = coord_mp_bits t inside neg i f"
proof -
  let ?w = "mp_width inside" and ?v = "fraction_width t"
  have i: "bits_of (3 + ?w) ((i - 1) * 8 + of_bool neg * 4 + 2 + of_bool inside) = inside # True # neg # bits_of ?w (i - 1)"
    using bits_of_flags [of ?w "i - 1" neg True inside] by simp
  have "(i - 1) * 8 + of_bool neg * 4 + 2 + of_bool inside < 2 ^ (3 + ?w)" if "i \<noteq> 0"
  proof -
    have "(i - 1) * 8 + 8 \<le> 2 ^ ?w * 8" using assms that by simp
    moreover have "of_bool neg * 4 + 2 + of_bool inside < (8 :: nat)" by simp
    ultimately show ?thesis by (simp add: power_add)
  qed
  then have if1: "bits_of (3 + ?w + ?v) ((i - 1) * 8 + of_bool neg * 4 + 2 + of_bool inside + f * 2 ^ (3 + ?w)) =
      (inside # True # neg # bits_of ?w (i - 1)) @ bits_of ?v f" if "i \<noteq> 0"
    using bits_of_split [of _ "3 + ?w" ?v f] that unfolding i [symmetric] by blast
  have f: "bits_of (3 + ?v) (f * 8 + of_bool neg * 4 + of_bool inside) = inside # False # neg # bits_of ?v f"
    using bits_of_flags [of ?v f neg False inside] by simp
  have z: "bits_of 2 (of_bool inside) = [inside, False]" by (cases inside) (simp_all add: numeral_2_eq_2 bits_of_Suc bits_of_0)
  show ?thesis
    by (cases "i = 0"; cases "t = kCW_Integral") (simp_all only: mp_packed_def coord_mp_bits_def Let_def i if1 f z fst_conv snd_conv if_True if_False
        append.simps simp_thms)
qed

subsection \<open>Properties\<close>

text \<open>
  C19: Coordinates are decoded exactly. Wherever in the block the bits stand that the senders'
  functions \<open>WriteBitCoord\<close>, \<open>WriteBitVec3Coord\<close> and \<open>WriteBitCoordMP\<close> write for a number, at any
  alignment, \<open>ReadBitCoord\<close>, \<open>ReadBitVec3Coord\<close> and \<open>ReadBitCoordMP\<close> (its three kinds, inside and
  outside the near range) return the fixed-point number that was packed, without any rounding
  although they compute in single precision, with its sign, and consume exactly its bits; likewise
  \<open>ReadBitCellCoord\<close> for an integer of up to 24 bits, less those of the fraction behind it. A
  coordinate takes 2, 8, 17 or 22 bits.
\<close>

theorem coordinates_exact:
  assumes "coord_ok c" and "\<forall>x \<in> {a1, a2, a3}. \<forall>k. x = Some k \<longrightarrow> coord_ok k"
    and "i \<le> 2 ^ mp_width inside" and "f < 2 ^ fraction_width t" and "j < 2 ^ n" and "n + fraction_width t \<le> 24"
  shows "yields m (coord_bits (c_neg c) (c_int c) (c_frac c)) ReadBitCoord (coord_value c) \<and>
    length (coord_bits (c_neg c) (c_int c) (c_frac c)) \<in> {2, 8, 17, 22} \<and>
    yields m (vec3_bits a1 a2 a3) ReadBitVec3Coord \<lparr>vx = component a1, vy = component a2, vz = component a3\<rparr> \<and>
    yields m (bits_of (snd (mp_packed t inside neg i f)) (fst (mp_packed t inside neg i f))) (ReadBitCoordMP t)
      (if t = kCW_Integral then if i \<noteq> 0 then fixed neg 0 i 0 else f_zero else fixed neg (fraction_width t) i f) \<and>
    yields m (cell_bits n t j f) (ReadBitCellCoord (int n) t) (fixed False (fraction_width t) j (if t = kCW_Integral then 0 else f))"
proof (intro conjI)
  show "yields m (coord_bits (c_neg c) (c_int c) (c_frac c)) ReadBitCoord (coord_value c)"
    using ReadBitCoord_yields [of "c_int c" "c_frac c" m "c_neg c"] assms(1) by (simp add: coord_ok_def coord_value_def)
  show "length (coord_bits (c_neg c) (c_int c) (c_frac c)) \<in> {2, 8, 17, 22}" by (simp add: coord_bits_def)
  show "yields m (bits_of (snd (mp_packed t inside neg i f)) (fst (mp_packed t inside neg i f))) (ReadBitCoordMP t)
      (if t = kCW_Integral then if i \<noteq> 0 then fixed neg 0 i 0 else f_zero else fixed neg (fraction_width t) i f)"
    unfolding mp_packed_bits [OF assms(3)] by (intro ReadBitCoordMP_yields assms)
qed (intro ReadBitVec3Coord_yields ReadBitCellCoord_yields assms)+

theorem coordinates_exact_witness:
  "\<exists>s0 s'. CBitRead_ctor 0 (Some [0x0F, 0, 0x20, 0]) 4 (-1) sample_reader = Some s0 \<and>
    ReadBitCoord s0 = Some (\<lparr>f_neg = True, f_mag = 5 / 2\<rparr>, s') \<and> Tell s' = 22"
proof -
  let ?m = "[0x0F, 0, 0x20, 0] :: u8 list"
  obtain s0 where s0: "CBitRead_ctor 0 (Some ?m) 4 (-1) sample_reader = Some s0" "reads_at ?m 0 s0"
    using CBitRead_ctor_reads [of 0 ?m sample_reader] by auto
  have "yields ?m (coord_bits True 2 16) ReadBitCoord (coord_value \<lparr>c_neg = True, c_int = 2, c_frac = 16\<rparr>)"
    using coordinates_exact [of "\<lparr>c_neg = True, c_int = 2, c_frac = 16\<rparr>" None None None 0 False 0 kCW_Integral 0 0 ?m False]
    by (simp add: coord_ok_def fraction_width_def)
  moreover have "coord_bits True 2 16 = [True, True, True] @ bits_of 14 1 @ bits_of 5 16" by (simp add: coord_bits_def)
  moreover have "carries_bits ?m 0 ([True, True, True] @ bits_of 14 1 @ bits_of 5 16)" by code_simp
  ultimately obtain s' where s': "ReadBitCoord s0 = Some (coord_value \<lparr>c_neg = True, c_int = 2, c_frac = 16\<rparr>, s')" "reads_at ?m 22 s'"
    using s0(2) unfolding yields_def by fastforce
  moreover have "coord_value \<lparr>c_neg = True, c_int = 2, c_frac = 16\<rparr> = \<lparr>f_neg = True, f_mag = 5 / 2\<rparr>"
    by (simp add: coord_value_def fixed_def)
  ultimately show ?thesis using s0(1) GetNumBitsRead_at [OF s'(2)] by (auto simp: Tell_def)
qed

end
