(* ===== verification/BitClient.thy ===== *)
theory BitClient
  imports Coord
begin

text \<open>
  Clients of \<^verbatim>\<open>CBitRead\<close>: arbitrary sequences of its calls, and the memory safety of the reader
  under them, from the invariant of theory BitSafe.
\<close>

subsection \<open>Clients\<close>

text \<open>
  A client is any sequence of calls of the member functions that read or move. \<open>CString\<close> reads a
  string into an array with a maximal length, \<open>BitBlock\<close> and \<open>ByteBlock\<close> copy to an address.
\<close>

datatype reader_call =
  UBits nat | SBits nat | OneBit | VarUBit | VarInt32 | SignedVarInt32 | VarInt64 | SignedVarInt64 | SeekTo int | SeekBy int |
  BitAngle nat | BitCoord | BitCoordMP EBitCoordType | BitCellCoord nat EBitCoordType | BitVec3Coord | BitAngles | BitNormal | BitVec3Normal | BitFloat |
  SingleBit | UBitVar | Char8 | Byte8 | Short16 | Word16 | CString "u8 list" int bool | BitBlock nat int | ByteBlock nat int

fun do_call :: "reader_call \<Rightarrow> CBitRead \<Rightarrow> CBitRead option" where
  "do_call (UBits n) s = map_option snd (ReadUBitLong (int n) s)"
| "do_call (SBits n) s = map_option snd (ReadSBitLong (int n) s)"
| "do_call OneBit s = map_option snd (ReadOneBit s)"
| "do_call VarUBit s = map_option snd (ReadVarUBit s)"
| "do_call VarInt32 s = map_option snd (ReadVarInt32 s)"
| "do_call SignedVarInt32 s = map_option snd (ReadSignedVarInt32 s)"
| "do_call VarInt64 s = map_option snd (ReadVarInt64 s)"
| "do_call SignedVarInt64 s = map_option snd (ReadSignedVarInt64 s)"
| "do_call (SeekTo q) s = map_option snd (Seek q s)"
| "do_call (SeekBy q) s = map_option snd (SeekRelative q s)"
| "do_call (BitAngle n) s = map_option snd (ReadBitAngle (int n) s)"
| "do_call BitCoord s = map_option snd (ReadBitCoord s)"
| "do_call (BitCoordMP t) s = map_option snd (ReadBitCoordMP t s)"
| "do_call (BitCellCoord n t) s = map_option snd (ReadBitCellCoord (int n) t s)"
| "do_call BitVec3Coord s = map_option snd (ReadBitVec3Coord s)"
| "do_call BitAngles s = map_option snd (ReadBitAngles s)"
| "do_call BitNormal s = map_option snd (ReadBitNormal s)"
| "do_call BitVec3Normal s = map_option snd (ReadBitVec3Normal s)"
| "do_call BitFloat s = map_option snd (ReadBitFloat s)"
| "do_call SingleBit s = map_option snd (ReadBit s)"
| "do_call UBitVar s = map_option snd (ReadUBitVar s)"
| "do_call Char8 s = map_option snd (ReadChar s)"
| "do_call Byte8 s = map_option snd (ReadByte s)"
| "do_call Short16 s = map_option snd (ReadShort s)"
| "do_call Word16 s = map_option snd (ReadWord s)"
| "do_call (CString pStr maxLen bLine) s = map_option (\<lambda>(ok, q, n, s). s) (ReadString pStr maxLen bLine s)"
| "do_call (BitBlock addr n) s = map_option snd (ReadBits addr n s)"
| "do_call (ByteBlock addr n) s = map_option (\<lambda>(ok, bs, s). s) (ReadBytes addr n s)"

fun do_calls :: "reader_call list \<Rightarrow> CBitRead \<Rightarrow> CBitRead option" where
  "do_calls [] s = Some s"
| "do_calls (c # cs) s = Option.bind (do_call c s) (do_calls cs)"

text \<open>The arguments: widths, an array as long as it is said to be, sizes whose bits an \<open>int\<close> can count.\<close>

fun call_ok :: "reader_call \<Rightarrow> bool" where
  "call_ok (UBits n) = (n \<le> 32)"
| "call_ok (SBits n) = (1 \<le> n \<and> n \<le> 32)"
| "call_ok (BitAngle n) = (n \<le> 32)"
| "call_ok (BitCellCoord n t) = (n \<le> 32)"
| "call_ok (CString pStr maxLen bLine) = (0 < maxLen \<and> maxLen \<le> int (length pStr))"
| "call_ok (BitBlock addr n) = (0 \<le> n)"
| "call_ok (ByteBlock addr n) = (0 \<le> n \<and> n < 2 ^ 28)"
| "call_ok _ = True"

text \<open>The calls that do not return: \<open>ReadBit\<close> at the last bit of the data, and \<open>ReadUBitVar\<close> with its assertion.\<close>

fun stops :: "reader_call \<Rightarrow> CBitRead \<Rightarrow> bool" where
  "stops SingleBit s = (m_nBitsAvail s = 1 \<and> m_pBufferEnd s \<le> m_pDataIn s)"
| "stops UBitVar s = ubitvar_overlong s"
| "stops _ s = False"

definition stopped :: "reader_call list \<Rightarrow> CBitRead \<Rightarrow> bool" where
  "stopped cs s \<longleftrightarrow> (\<exists>ds c es s1. cs = ds @ c # es \<and> do_calls ds s = Some s1 \<and> stops c s1 \<and> do_call c s1 = None)"

lemma do_calls_append: "do_calls (cs @ ds) s = Option.bind (do_calls cs s) (do_calls ds)"
  by (induction cs arbitrary: s) (auto split: bind_splits)

lemma do_call_returns:
  assumes "reader_safe m s" and "call_ok c" and "c \<notin> {SingleBit, UBitVar}"
  shows "\<exists>s'. do_call c s = Some s' \<and> safe_from m s s'"
proof (cases c)
  case (UBits n)
  then show ?thesis using ReadUBitLong_safe [OF assms(1), of "int n"] assms(2) by auto
next
  case (SBits n)
  then show ?thesis using ReadSBitLong_safe [OF assms(1), of "int n"] assms(2) by auto
next
  case OneBit
  then show ?thesis using ReadOneBit_safe [OF assms(1)] by auto
next
  case VarUBit
  then show ?thesis using ReadVarUBit_safe [OF assms(1)] by auto
next
  case (SeekTo q)
  then show ?thesis using Seek_safe [of m s q] assms(1) by (auto simp: reader_safe_def)
next
  case (SeekBy q)
  then show ?thesis using SeekRelative_safe [OF assms(1), of q] by auto
next
  case (BitAngle n)
  then show ?thesis using rd_totalD [OF rd_total_reads(7) assms(1), of "int n"] assms(2) by auto
next
  case (BitCellCoord n t)
  then show ?thesis using rd_totalD [OF rd_total_reads(6) assms(1), of "int n" t] assms(2) by auto
next
  case (BitCoordMP t)
  then show ?thesis using rd_totalD [OF rd_total_reads(1) assms(1), of t] by auto
next
  case BitCoord
  then show ?thesis using rd_totalD [OF rd_total_coord assms(1)] by auto
next
  case BitVec3Coord
  then show ?thesis using rd_totalD [OF rd_total_reads(2) assms(1)] by auto
next
  case BitAngles
  then show ?thesis using rd_totalD [OF rd_total_reads(3) assms(1)] by auto
next
  case BitNormal
  then show ?thesis using rd_totalD [OF rd_total_reads(4) assms(1)] by auto
next
  case BitVec3Normal
  then show ?thesis using rd_totalD [OF rd_total_reads(5) assms(1)] by auto
next
  case BitFloat
  then show ?thesis using rd_totalD [OF rd_total_reads(8) assms(1)] by auto
next
  case Char8
  then show ?thesis using ReadSBitLong_safe [OF assms(1), of 8] by (auto simp: ReadChar_def)
next
  case Byte8
  then show ?thesis using ReadUBitLong_safe [OF assms(1), of 8] by (auto simp: ReadByte_def)
next
  case Short16
  then show ?thesis using ReadSBitLong_safe [OF assms(1), of 16] by (auto simp: ReadShort_def)
next
  case Word16
  then show ?thesis using ReadUBitLong_safe [OF assms(1), of 16] by (auto simp: ReadWord_def)
next
  case (CString pStr maxLen bLine)
  then show ?thesis using ReadString_safe [OF assms(1), of maxLen pStr bLine] assms(2) by auto
next
  case (BitBlock addr n)
  then show ?thesis using ReadBits_safe [OF assms(1), of n addr] assms(2) by auto
next
  case (ByteBlock addr n)
  then show ?thesis using ReadBytes_safe [OF assms(1), of n addr] assms(2) by auto
qed (use assms(3) ReadVarInt_safe [OF assms(1)] in \<open>auto simp: ReadSignedVarInt32_def ReadSignedVarInt64_def\<close>)

lemma do_call_safe:
  assumes "reader_safe m s" and "call_ok c"
  shows "case do_call c s of None \<Rightarrow> stops c s | Some s' \<Rightarrow> safe_from m s s' \<and> \<not> stops c s"
proof (cases "c \<in> {SingleBit, UBitVar}")
  case True
  have "m_pBufferEnd s = int (length m)" using assms(1) by (simp add: safe_defs)
  then show ?thesis using True ReadBit_safe [OF assms(1)] ReadUBitVar_safe [OF assms(1)]
    by (cases "ReadBit s"; cases "ReadUBitVar s") auto
next
  case False
  then have "\<not> stops c s" by (cases c) auto
  then show ?thesis using do_call_returns [OF assms False] by auto
qed

lemma do_calls_safe:
  "reader_safe m s \<Longrightarrow> list_all call_ok cs \<Longrightarrow> case do_calls cs s of None \<Rightarrow> stopped cs s | Some s' \<Rightarrow> safe_from m s s'"
proof (induction cs arbitrary: s)
  case (Cons c cs)
  show ?case
  proof (cases "do_call c s")
    case None
    then have "stops c s" using do_call_safe [of m s c] Cons.prems by simp
    then have "stopped (c # cs) s" unfolding stopped_def using None by (intro exI [of _ "[]"]) simp
    then show ?thesis using None by simp
  next
    case (Some s1)
    then have s1: "safe_from m s s1" using do_call_safe [of m s c] Cons.prems by simp
    have IH: "case do_calls cs s1 of None \<Rightarrow> stopped cs s1 | Some s' \<Rightarrow> safe_from m s1 s'"
      using Cons.IH [OF safe_fromD [OF s1]] Cons.prems(2) by simp
    have "stopped (c # cs) s" if st: "stopped cs s1"
    proof -
      obtain ds d es s2 where "cs = ds @ d # es" "do_calls ds s1 = Some s2" "stops d s2" "do_call d s2 = None"
        using st unfolding stopped_def by blast
      then show ?thesis unfolding stopped_def using Some by (intro exI [of _ "c # ds"]) auto
    qed
    then show ?thesis using IH Some safe_from_trans [OF s1] by (auto split: option.splits)
  qed
qed (simp add: safe_from_def)

subsection \<open>Properties\<close>

text \<open>
  C14: The reader is memory safe for every client, one function apart. Over a block of 4 bytes to
  128 MB, take any sequence of the reads of the class (bits, integers of at most 32 bits, the
  variable-length ones, floating-point numbers, strings, block copies) and of seeks, absolute or
  relative, to any position. It runs to its end, and no access leaves the block, whatever has
  overflowed before, unless it comes to a \<open>ReadBit\<close> at the last bit of the data or behind it, which
  loads the next word without a check, or to a \<open>ReadUBitVar\<close> that finds a small number in one of
  the longer forms, where the assertion fails. The position reported stays between the start and
  the end of the data, and the overflow flag, once up, stays up.
\<close>

theorem reader_memory_safe:
  assumes "addr mod 4 = 0" and "4 \<le> length m" and "length m < 2 ^ 27" and "list_all call_ok cs" and "list_all call_ok ds"
  shows "\<exists>s0. CBitRead_ctor addr (Some m) (int (length m)) (-1) raw = Some s0 \<and>
    (case do_calls cs s0 of
       None \<Rightarrow> stopped cs s0
     | Some s1 \<Rightarrow> m_pData s1 = Some m \<and> 0 \<le> Tell s1 \<and> Tell s1 \<le> 8 * int (length m) \<and>
         (case do_calls ds s1 of None \<Rightarrow> stopped ds s1 | Some s2 \<Rightarrow> IsOverflowed s1 \<longrightarrow> IsOverflowed s2))"
proof -
  obtain s0 where s0: "CBitRead_ctor addr (Some m) (int (length m)) (-1) raw = Some s0" "reader_safe m s0"
    using CBitRead_ctor_safe [OF assms(1-3)] by blast
  show ?thesis
  proof (cases "do_calls cs s0")
    case None
    then show ?thesis using do_calls_safe [OF s0(2) assms(4)] s0(1) by simp
  next
    case (Some s1)
    then have s1: "reader_safe m s1" using do_calls_safe [OF s0(2) assms(4)] safe_fromD by auto
    have "case do_calls ds s1 of None \<Rightarrow> stopped ds s1 | Some s2 \<Rightarrow> IsOverflowed s1 \<longrightarrow> IsOverflowed s2"
      using do_calls_safe [OF s1 assms(5)] by (auto simp: safe_from_def IsOverflowed_def split: option.splits)
    moreover have "m_pData s1 = Some m" using s1 by (simp add: safe_defs)
    ultimately show ?thesis using s0(1) Some GetNumBitsRead_safe [OF s1] by (simp add: Tell_def)
  qed
qed

theorem reader_memory_safe_witness:
  "\<exists>s0. CBitRead_ctor 0 (Some [1, 2, 3, 4, 5]) (int (length [1, 2, 3, 4, 5 :: u8])) (-1) sample_reader = Some s0 \<and>
    (case do_calls [UBits 30, SeekTo 99] s0 of
       None \<Rightarrow> stopped [UBits 30, SeekTo 99] s0
     | Some s1 \<Rightarrow> m_pData s1 = Some [1, 2, 3, 4, 5] \<and> 0 \<le> Tell s1 \<and> Tell s1 \<le> 8 * int (length [1, 2, 3, 4, 5 :: u8]) \<and>
         (case do_calls [SeekBy (-7), CString [0, 0] 2 False, SingleBit, UBitVar] s1 of
            None \<Rightarrow> stopped [SeekBy (-7), CString [0, 0] 2 False, SingleBit, UBitVar] s1
          | Some s2 \<Rightarrow> IsOverflowed s1 \<longrightarrow> IsOverflowed s2))"
  by (rule reader_memory_safe) simp_all

end
