(* ===== verification/GaloisField.thy ===== *)
theory GaloisField
  imports Prelude
begin

text \<open>
  Polynomials over the field of two elements, as the natural numbers whose bits are their
  coefficients: the arithmetic that the S-boxes of the ICE cipher are defined by. Addition is
  \<open>XOR\<close>, \<open>clmul\<close> is multiplication, and two polynomials are congruent if they differ by a multiple of
  the modulus. \<open>gf_rem\<close> is the remainder, by division from the highest coefficient down. The
  cipher's own multiplication, which reduces after every shift, is compared with it in theory Ice.
\<close>

subsection \<open>Multiplication\<close>

function clmul :: "nat \<Rightarrow> nat \<Rightarrow> nat" where
  "clmul a b = (if b = 0 then 0 else (if odd b then a else 0) XOR 2 * clmul a (b div 2))"
  by pat_completeness auto

termination
  by (relation "measure snd") auto

declare clmul.simps [simp del]

lemma clmul_0 [simp]: "clmul a 0 = 0"
  by (simp add: clmul.simps)

lemma clmul_rec: "clmul a b = (if odd b then a else 0) XOR 2 * clmul a (b div 2)"
  by (cases "b = 0") (simp_all add: clmul.simps [of a b])

lemma xor_double: "2 * (x XOR y) = 2 * x XOR 2 * (y :: nat)"
  by (rule bit_eqI) (auto simp: bit_double_iff bit_xor_iff)

lemma xor_cancel: "x XOR (x XOR y) = (y :: nat)"
  by (simp flip: xor.assoc)

lemma xor_div_2: "(x XOR y) div 2 = (x div 2) XOR (y div 2 :: nat)"
  by (rule bit_eqI) (simp add: bit_xor_iff flip: bit_Suc)

lemma odd_xor: "odd (x XOR y) = (odd x \<noteq> odd (y :: nat))"
  by (simp add: bit_xor_iff flip: bit_0)

lemma xor_eq_0: "x XOR y = 0 \<longleftrightarrow> x = (y :: nat)"
  by (metis xor.assoc xor.left_neutral xor.right_neutral xor_self_eq)

lemma clmul_xor_right: "clmul a (b XOR c) = clmul a b XOR clmul a c"
proof (induction b arbitrary: c rule: less_induct)
  case (less b)
  show ?case
  proof (cases "b = 0")
    case False
    then have "clmul a (b div 2 XOR c div 2) = clmul a (b div 2) XOR clmul a (c div 2)" by (intro less.IH) simp
    then show ?thesis
      unfolding clmul_rec [of a "b XOR c"] clmul_rec [of a b] clmul_rec [of a c] odd_xor xor_div_2
      by (simp add: xor_double xor_cancel xor.assoc xor.left_commute xor.commute)
  qed simp
qed

lemma clmul_xor_left: "clmul (a XOR b) c = clmul a c XOR clmul b c"
proof (induction c rule: less_induct)
  case (less c)
  show ?case
  proof (cases "c = 0")
    case False
    then have "clmul (a XOR b) (c div 2) = clmul a (c div 2) XOR clmul b (c div 2)" by (intro less.IH) simp
    then show ?thesis
      unfolding clmul_rec [of "a XOR b" c] clmul_rec [of a c] clmul_rec [of b c]
      by (simp add: xor_double xor_cancel xor.assoc xor.left_commute xor.commute)
  qed simp
qed

lemma clmul_double_right: "clmul a (2 * b) = 2 * clmul a b"
  by (subst clmul_rec) simp

lemma clmul_double_left: "clmul (2 * a) b = 2 * clmul a b"
proof (induction b rule: less_induct)
  case (less b)
  show ?case
  proof (cases "b = 0")
    case False
    then have "clmul (2 * a) (b div 2) = 2 * clmul a (b div 2)" by (intro less.IH) simp
    then show ?thesis unfolding clmul_rec [of "2 * a" b] clmul_rec [of a b] by (simp add: xor_double)
  qed simp
qed

lemma clmul_left_0 [simp]: "clmul 0 b = 0"
proof (induction b rule: less_induct)
  case (less b)
  then show ?case by (cases "b = 0") (simp_all add: clmul_rec [of 0 b])
qed

lemma clmul_1 [simp]: "clmul a 1 = a"
  by (subst clmul_rec) simp

lemma split_low: "(if odd a then 1 else 0) XOR 2 * (a div 2) = (a :: nat)"
  by (cases "odd a") (simp_all add: Suc_0_xor_eq)

lemma clmul_left_1: "clmul 1 b = b"
proof (induction b rule: less_induct)
  case (less b)
  show ?case
  proof (cases "b = 0")
    case False
    then have "clmul 1 (b div 2) = b div 2" by (intro less.IH) simp
    then show ?thesis using split_low [of b] by (simp only: clmul_rec [of 1 b])
  qed simp
qed

lemma clmul_commute: "clmul a b = clmul b a"
proof (induction a rule: less_induct)
  case (less a)
  show ?case
  proof (cases "a = 0")
    case False
    then have IH: "clmul (a div 2) b = clmul b (a div 2)" by (intro less.IH) simp
    have "clmul a b = clmul ((if odd a then 1 else 0) XOR 2 * (a div 2)) b" by (simp only: split_low)
    also have "\<dots> = (if odd a then b else 0) XOR 2 * clmul (a div 2) b"
      unfolding clmul_xor_left clmul_double_left using clmul_left_1 [of b] by simp
    also have "\<dots> = clmul b a" by (simp only: clmul_rec [of b a] IH)
    finally show ?thesis .
  qed simp
qed

lemma clmul_assoc: "clmul (clmul a b) c = clmul a (clmul b c)"
proof (induction c rule: less_induct)
  case (less c)
  show ?case
  proof (cases "c = 0")
    case False
    then have "clmul (clmul a b) (c div 2) = clmul a (clmul b (c div 2))" by (intro less.IH) simp
    then show ?thesis
      unfolding clmul_rec [of "clmul a b" c] clmul_rec [of b c] by (simp add: clmul_xor_right clmul_double_right)
  qed simp
qed

subsection \<open>Congruence\<close>

definition gf_cong :: "nat \<Rightarrow> nat \<Rightarrow> nat \<Rightarrow> bool" where
  "gf_cong m x y \<longleftrightarrow> (\<exists>q. x XOR y = clmul m q)"

lemma gf_cong_refl [simp]: "gf_cong m x x"
  unfolding gf_cong_def by (rule exI [of _ 0]) simp

lemma gf_cong_sym: "gf_cong m x y \<Longrightarrow> gf_cong m y x"
  by (simp add: gf_cong_def xor.commute)

lemma gf_cong_trans: "gf_cong m x y \<Longrightarrow> gf_cong m y z \<Longrightarrow> gf_cong m x z"
proof -
  assume "gf_cong m x y" "gf_cong m y z"
  then obtain p q where "x XOR y = clmul m p" "y XOR z = clmul m q" by (auto simp: gf_cong_def)
  moreover have "x XOR z = (x XOR y) XOR (y XOR z)" by (metis xor.assoc xor.left_neutral xor_self_eq)
  ultimately show ?thesis unfolding gf_cong_def by (metis clmul_xor_right)
qed

lemma gf_cong_xor: "gf_cong m x y \<Longrightarrow> gf_cong m z w \<Longrightarrow> gf_cong m (x XOR z) (y XOR w)"
proof -
  assume "gf_cong m x y" "gf_cong m z w"
  then obtain p q where "x XOR y = clmul m p" "z XOR w = clmul m q" by (auto simp: gf_cong_def)
  moreover have "(x XOR z) XOR (y XOR w) = (x XOR y) XOR (z XOR w)" by (simp add: ac_simps)
  ultimately show ?thesis unfolding gf_cong_def by (metis clmul_xor_right)
qed

lemma clmul_power: "clmul m (2 ^ n) = 2 ^ n * m"
  by (induction n) (simp_all add: clmul_double_right clmul_1 [unfolded One_nat_def])

lemma gf_cong_modulus: "gf_cong m (x XOR 2 ^ n * m) x"
  unfolding gf_cong_def by (rule exI [of _ "2 ^ n"]) (simp add: clmul_power xor.commute [of x] xor.assoc)

lemma gf_cong_mult: "gf_cong m x y \<Longrightarrow> gf_cong m z w \<Longrightarrow> gf_cong m (clmul x z) (clmul y w)"
proof -
  have mult: "gf_cong m (clmul x z) (clmul y z)" if "gf_cong m x y" for x y z
    using that unfolding gf_cong_def by (metis clmul_assoc clmul_xor_left)
  assume "gf_cong m x y" "gf_cong m z w"
  then have "gf_cong m (clmul x z) (clmul y z)" "gf_cong m (clmul z y) (clmul w y)" using mult by blast+
  then show ?thesis using gf_cong_trans clmul_commute by metis
qed

subsection \<open>Remainders\<close>

text \<open>
  Two polynomials below degree 8 that are congruent modulo a polynomial of degree 8 are equal, so
  the remainder is the only representative there.
\<close>

lemma high_bits_xor:
  assumes "v < 2 ^ n" and "2 ^ n \<le> u"
  shows "2 ^ n \<le> u XOR (v :: nat)"
proof -
  have "drop_bit n v = 0" using assms(1) by (simp add: drop_bit_eq_div)
  then have "drop_bit n (u XOR v) = drop_bit n u" by (simp add: drop_bit_xor)
  then have "(u XOR v) div 2 ^ n = u div 2 ^ n" by (simp add: drop_bit_eq_div)
  moreover have "0 < u div 2 ^ n" using assms(2) by (simp add: div_greater_zero_iff)
  ultimately have "0 < (u XOR v) div 2 ^ n" by simp
  then show ?thesis by (simp add: div_greater_zero_iff)
qed

lemma clmul_modulus_large:
  assumes "256 \<le> m" and "m < 512"
  shows "0 < q \<Longrightarrow> 256 \<le> clmul m q"
proof (induction q rule: less_induct)
  case (less q)
  show ?case
  proof (cases "q = 1")
    case True
    then show ?thesis using assms clmul_1 [of m] by simp
  next
    case False
    then have "256 \<le> clmul m (q div 2)" using less by (intro less.IH) auto
    then have "2 ^ 9 \<le> 2 * clmul m (q div 2)" by simp
    then have "2 ^ 9 \<le> 2 * clmul m (q div 2) XOR (if odd q then m else 0)" using assms by (intro high_bits_xor) auto
    then show ?thesis by (simp add: clmul_rec [of m q] xor.commute)
  qed
qed

lemma xor_less: "x < 2 ^ n \<Longrightarrow> y < 2 ^ n \<Longrightarrow> x XOR y < (2 ^ n :: nat)"
  using high_bits_xor [of y n "x XOR y"] by (metis not_le xor.assoc xor.right_neutral xor_self_eq)

lemma gf_cong_unique:
  assumes "256 \<le> m" and "m < 512" and "x < 256" and "y < 256" and "gf_cong m x y"
  shows "x = y"
proof -
  obtain q where q: "x XOR y = clmul m q" using assms(5) by (auto simp: gf_cong_def)
  have "x XOR y < 256" using xor_less [of x 8 y] assms(3,4) by simp
  then have "q = 0" using clmul_modulus_large [OF assms(1,2), of q] q by force
  then have "x XOR y = 0" using q by simp
  then show ?thesis by (simp add: xor_eq_0)
qed

text \<open>\<open>gf_rem m n x\<close> divides a polynomial of degree below \<open>n + 8\<close>.\<close>

fun gf_rem :: "nat \<Rightarrow> nat \<Rightarrow> nat \<Rightarrow> nat" where
  "gf_rem m 0 x = x"
| "gf_rem m (Suc n) x = gf_rem m n (if bit x (n + 8) then x XOR 2 ^ n * m else x)"

lemma gf_rem_cong: "gf_cong m (gf_rem m n x) x"
proof (induction n arbitrary: x)
  case (Suc n)
  then show ?case using gf_cong_trans [OF Suc.IH gf_cong_modulus [of m x n]] Suc.IH [of x] by simp
qed simp

lemma gf_rem_less:
  assumes "256 \<le> m" and "m < 512"
  shows "x < 2 ^ (n + 8) \<Longrightarrow> gf_rem m n x < 256"
proof (induction n arbitrary: x)
  case (Suc n)
  have top: "bit y (n + 8) \<longleftrightarrow> 2 ^ (n + 8) \<le> y" if "y < 2 ^ (Suc n + 8)" for y :: nat
  proof -
    have "y < 2 * 2 ^ (n + 8)" using that by (simp only: add_Suc power_Suc)
    then have "y div 2 ^ (n + 8) < 2" by (rule less_mult_imp_div_less)
    then have "y div 2 ^ (n + 8) = 0 \<or> y div 2 ^ (n + 8) = 1" by linarith
    then have "odd (y div 2 ^ (n + 8)) \<longleftrightarrow> 0 < y div 2 ^ (n + 8)" by auto
    then show ?thesis by (simp add: bit_iff_odd div_greater_zero_iff)
  qed
  have m: "2 ^ n * m < 2 ^ (Suc n + 8)" "2 ^ (n + 8) \<le> 2 ^ n * m" using assms by (simp_all add: power_add)
  show ?case
  proof (cases "bit x (n + 8)")
    case False
    then show ?thesis using Suc.IH [of x] top [OF Suc.prems] by simp
  next
    case True
    let ?y = "x XOR 2 ^ n * m"
    have y: "?y < 2 ^ (Suc n + 8)" by (rule xor_less [OF Suc.prems m(1)])
    have "bit (2 ^ n * m) (n + 8)" using top [OF m(1)] m(2) by simp
    then have "\<not> bit ?y (n + 8)" using True by (simp add: bit_xor_iff)
    then have "?y < 2 ^ (n + 8)" using top [OF y] by simp
    then show ?thesis using True Suc.IH [of ?y] by simp
  qed
qed simp

subsection \<open>Powers\<close>

fun clpow :: "nat \<Rightarrow> nat \<Rightarrow> nat" where
  "clpow b 0 = 1"
| "clpow b (Suc n) = clmul b (clpow b n)"

lemma clmul_less: "a < 2 ^ j \<Longrightarrow> b < 2 ^ k \<Longrightarrow> clmul a b < 2 ^ (j + k)"
proof (induction k arbitrary: b)
  case (Suc k)
  then have "clmul a (b div 2) < 2 ^ (j + k)" by (intro Suc.IH) auto
  then have "2 * clmul a (b div 2) < 2 ^ (j + Suc k)" by simp
  moreover have "(if odd b then a else 0) < 2 ^ (j + Suc k)"
    using Suc.prems(1) power_increasing [of j "j + Suc k" "2 :: nat"] by auto
  ultimately show ?case unfolding clmul_rec [of a b] by (intro xor_less)
qed simp

lemma clpow_less: "b < 256 \<Longrightarrow> clpow b n < 2 ^ (8 * n + 1)"
proof (induction n)
  case (Suc n)
  then have "clmul b (clpow b n) < 2 ^ (8 + (8 * n + 1))" by (intro clmul_less) auto
  then show ?case by (simp add: add.commute)
qed simp

text \<open>The seventh power modulo \<open>m\<close>, which the S-boxes are made of.\<close>

definition gf_pow7 :: "nat \<Rightarrow> nat \<Rightarrow> nat" where
  "gf_pow7 b m = gf_rem m 49 (clpow b 7)"

lemma gf_pow7_unique:
  assumes "b < 256" and "256 \<le> m" and "m < 512" and "x < 256" and "gf_cong m x (clpow b 7)"
  shows "x = gf_pow7 b m"
proof (rule gf_cong_unique [OF assms(2,3,4)])
  have "clpow b 7 < 2 ^ (49 + 8)" using clpow_less [OF assms(1), of 7] by simp
  then show "gf_pow7 b m < 256" unfolding gf_pow7_def by (rule gf_rem_less [OF assms(2,3)])
  show "gf_cong m x (gf_pow7 b m)"
    unfolding gf_pow7_def using gf_cong_trans [OF assms(5) gf_cong_sym [OF gf_rem_cong]] .
qed

end
