(* ===== verification/Ice.thy ===== *)
theory Ice
  imports GaloisField
begin

text \<open>
  The ICE block cipher of \<^verbatim>\<open>ice.cpp\<close> and \<^verbatim>\<open>ice.h\<close>, which the sniffer uses to decrypt the
  payload of every datagram. \<open>unsigned int\<close> and \<open>unsigned long\<close> are 32-bit words; the
  S-boxes and their initialisation flag are the file's static state. \<open>None\<close> is an index
  outside \<open>ice_pbox\<close>, \<open>ice_sbox\<close>, the key schedule or a caller's buffer, or an allocation
  that the 32-bit address space cannot hold.

  The lemmas show that the cipher built from any sufficiently long key never faults, that
  decryption inverts encryption, that the schedule depends on the key alone, and that the
  table-driven round function is the reference round function of the algorithm.
\<close>

subsection \<open>Static tables\<close>

definition ice_smod :: "u32 list list" where
  "ice_smod = [
     [333, 313, 505, 369],
     [379, 375, 319, 391],
     [361, 445, 451, 397],
     [397, 425, 395, 505]]"

definition ice_sxor :: "u32 list list" where
  "ice_sxor = [
     [0x83, 0x85, 0x9b, 0xcd],
     [0xcc, 0xa7, 0xad, 0x41],
     [0x4b, 0x2e, 0xd4, 0x33],
     [0xea, 0xcb, 0x2e, 0x04]]"

definition ice_pbox :: "u32 list" where
  "ice_pbox = [
     0x00000001, 0x00000080, 0x00000400, 0x00002000,
     0x00080000, 0x00200000, 0x01000000, 0x40000000,
     0x00000008, 0x00000020, 0x00000100, 0x00004000,
     0x00010000, 0x00800000, 0x04000000, 0x20000000,
     0x00000004, 0x00000010, 0x00000200, 0x00008000,
     0x00020000, 0x00400000, 0x08000000, 0x10000000,
     0x00000002, 0x00000040, 0x00000800, 0x00001000,
     0x00040000, 0x00100000, 0x02000000, 0x80000000]"

definition ice_keyrot :: "nat list" where
  "ice_keyrot = [
     0, 1, 2, 3, 2, 1, 3, 0,
     1, 3, 2, 0, 3, 1, 0, 2]"

subsection \<open>Galois field arithmetic and the P-box\<close>

text \<open>The \<open>while\<close> loop of \<open>gf_mult\<close>, on its variables \<open>a\<close>, \<open>b\<close> and \<open>res\<close>.\<close>

function gf_mult_loop :: "u32 \<Rightarrow> u32 \<Rightarrow> u32 \<Rightarrow> u32 \<Rightarrow> u32" where
  "gf_mult_loop m a b res =
     (if b = 0 then res
      else
        let res = (if b AND 1 \<noteq> 0 then res XOR a else res);
            a = push_bit 1 a;
            b = drop_bit 1 b;
            a = (if 256 \<le> a then a XOR m else a)
        in gf_mult_loop m a b res)"
  by pat_completeness auto

lemma drop_bit_1_less: "b \<noteq> 0 \<Longrightarrow> unat (drop_bit (Suc 0) (b::u32)) < unat b"
proof -
  assume "b \<noteq> 0"
  then have "unat b div 2 < unat b" by (simp add: unat_gt_0)
  moreover have "unat (drop_bit (Suc 0) b) = unat b div 2"
    by (metis unat_drop_bit_eq drop_bit_Suc drop_bit_0 id_apply One_nat_def drop_bit_half)
  ultimately show ?thesis by simp
qed

termination gf_mult_loop
  by (relation "measure (\<lambda>(m, a, b, res). unat b)") (simp_all add: drop_bit_1_less)

definition gf_mult :: "u32 \<Rightarrow> u32 \<Rightarrow> u32 \<Rightarrow> u32" where
  "gf_mult a b m = gf_mult_loop m a b 0"

definition gf_exp7 :: "u32 \<Rightarrow> u32 \<Rightarrow> u32" where
  "gf_exp7 b m =
     (if b = 0 then 0
      else
        let x = gf_mult b b m;
            x = gf_mult b x m;
            x = gf_mult x x m
        in gf_mult b x m)"

text \<open>The pointer \<open>pbox\<close> is the index \<open>i\<close>; it is dereferenced only under \<open>x & 1\<close>.\<close>

function ice_perm32_loop :: "u32 \<Rightarrow> nat \<Rightarrow> u32 \<Rightarrow> u32 option" where
  "ice_perm32_loop x i res =
     (if x = 0 then Some res
      else if x AND 1 \<noteq> 0 then
        (if i < 32 then ice_perm32_loop (drop_bit 1 x) (i + 1) (res OR ice_pbox ! i) else None)
      else ice_perm32_loop (drop_bit 1 x) (i + 1) res)"
  by pat_completeness auto

termination ice_perm32_loop
  by (relation "measure (\<lambda>(x, i, res). unat x)") (simp_all add: drop_bit_1_less)

definition ice_perm32 :: "u32 \<Rightarrow> u32 option" where
  "ice_perm32 x = ice_perm32_loop x 0 0"

declare gf_mult_loop.simps [simp del] ice_perm32_loop.simps [simp del]

subsection \<open>S-boxes\<close>

record ice_static =
  ice_sbox :: "u32 list list"
  ice_sboxes_initialised :: int

definition ice_static_init :: ice_static where
  "ice_static_init = \<lparr>ice_sbox = replicate 4 (replicate 1024 0), ice_sboxes_initialised = 0\<rparr>"

definition sbox_col :: "nat \<Rightarrow> u32" where
  "sbox_col i = drop_bit 1 (of_nat i) AND 0xff"

definition sbox_row :: "nat \<Rightarrow> nat" where
  "sbox_row i = unat ((of_nat i AND 1) OR drop_bit 8 (of_nat i AND 0x200) :: u32)"

definition sbox_store :: "nat \<Rightarrow> nat \<Rightarrow> u32 \<Rightarrow> u32 list list \<Rightarrow> u32 list list" where
  "sbox_store k i v sb = sb[k := (sb ! k)[i := v]]"

definition ice_sboxes_step :: "nat \<Rightarrow> u32 list list \<Rightarrow> u32 list list option" where
  "ice_sboxes_step i sb =
     (let col = sbox_col i; row = sbox_row i in
      do {
        v \<leftarrow> ice_perm32 (push_bit 24 (gf_exp7 (col XOR ice_sxor ! 0 ! row) (ice_smod ! 0 ! row)));
        let sb = sbox_store 0 i v sb;
        v \<leftarrow> ice_perm32 (push_bit 16 (gf_exp7 (col XOR ice_sxor ! 1 ! row) (ice_smod ! 1 ! row)));
        let sb = sbox_store 1 i v sb;
        v \<leftarrow> ice_perm32 (push_bit 8 (gf_exp7 (col XOR ice_sxor ! 2 ! row) (ice_smod ! 2 ! row)));
        let sb = sbox_store 2 i v sb;
        v \<leftarrow> ice_perm32 (gf_exp7 (col XOR ice_sxor ! 3 ! row) (ice_smod ! 3 ! row));
        Some (sbox_store 3 i v sb)
      })"

definition ice_sboxes_init :: "u32 list list \<Rightarrow> u32 list list option" where
  "ice_sboxes_init sb = foldM ice_sboxes_step [0..<1024] sb"

subsection \<open>Keys\<close>

text \<open>The three words \<open>val[0..2]\<close> of a round subkey, with access by index.\<close>

record IceSubkey =
  val0 :: u32
  val1 :: u32
  val2 :: u32

definition sk_val :: "IceSubkey \<Rightarrow> nat \<Rightarrow> u32" where
  "sk_val sk j = (if j = 0 then val0 sk else if j = 1 then val1 sk else val2 sk)"

definition sk_set :: "IceSubkey \<Rightarrow> nat \<Rightarrow> u32 \<Rightarrow> IceSubkey" where
  "sk_set sk j v =
     (if j = 0 then sk\<lparr>val0 := v\<rparr> else if j = 1 then sk\<lparr>val1 := v\<rparr> else sk\<lparr>val2 := v\<rparr>)"

record IceKey =
  ik_size :: int
  ik_rounds :: int
  ik_keysched :: "IceSubkey list"

text \<open>
  \<open>new IceSubkey[_rounds]\<close> does not initialise the array: \<open>mem\<close> is what the memory holds.
  A request of more than \<open>2^31 - 1\<close> bytes (12 per subkey), or for a negative number of
  subkeys, cannot be satisfied.
\<close>

definition new_subkeys :: "(nat \<Rightarrow> IceSubkey) \<Rightarrow> int \<Rightarrow> IceSubkey list option" where
  "new_subkeys mem n = (if 0 \<le> n \<and> 12 * n < 2 ^ 31 then Some (map mem [0..<nat n]) else None)"

definition IceKey_ctor :: "(nat \<Rightarrow> IceSubkey) \<Rightarrow> int \<Rightarrow> ice_static \<Rightarrow> (IceKey \<times> ice_static) option" where
  "IceKey_ctor mem n st = do {
     st \<leftarrow> (if ice_sboxes_initialised st = 0 then do {
              sb \<leftarrow> ice_sboxes_init (ice_sbox st);
              Some (st\<lparr>ice_sbox := sb, ice_sboxes_initialised := 1\<rparr>) }
            else Some st);
     let (sz, rounds) = (if n < 1 then (1, 8) else (n, i32 (n * 16)));
     ks \<leftarrow> new_subkeys mem rounds;
     Some (\<lparr>ik_size = sz, ik_rounds = rounds, ik_keysched = ks\<rparr>, st) }"

text \<open>The destructor: the key it leaves, whose schedule is what the freed memory contains.\<close>

definition IceKey_dtor :: "IceKey \<Rightarrow> IceKey option" where
  "IceKey_dtor k = do {
     ks \<leftarrow> foldM (\<lambda>i ks. if i < length ks
                      then Some (fold (\<lambda>j ks. ks[i := sk_set (ks ! i) j 0]) [0..<3] ks) else None)
            [0..<nat (ik_rounds k)] (ik_keysched k);
     Some \<lparr>ik_size = 0, ik_rounds = 0, ik_keysched = ks\<rparr> }"

definition keySize :: "IceKey \<Rightarrow> int" where
  "keySize k = i32 (ik_size k * 8)"

definition blockSize :: "IceKey \<Rightarrow> int" where
  "blockSize k = 8"

subsection \<open>The round function\<close>

definition sbox_at :: "ice_static \<Rightarrow> nat \<Rightarrow> u32 \<Rightarrow> u32 option" where
  "sbox_at st k i = (if unat i < length (ice_sbox st ! k) then Some (ice_sbox st ! k ! unat i) else None)"

definition ice_f :: "ice_static \<Rightarrow> u32 \<Rightarrow> IceSubkey \<Rightarrow> u32 option" where
  "ice_f st p sk =
     (let tl = (drop_bit 16 p AND 0x3ff) OR ((drop_bit 14 p OR push_bit 18 p) AND 0xffc00);
          tr = (p AND 0x3ff) OR (push_bit 2 p AND 0xffc00);
          al = val2 sk AND (tl XOR tr);
          ar = al XOR tr;
          al = al XOR tl;
          al = al XOR val0 sk;
          ar = ar XOR val1 sk
      in do {
        a \<leftarrow> sbox_at st 0 (drop_bit 10 al);
        b \<leftarrow> sbox_at st 1 (al AND 0x3ff);
        c \<leftarrow> sbox_at st 2 (drop_bit 10 ar);
        d \<leftarrow> sbox_at st 3 (ar AND 0x3ff);
        Some (a OR b OR c OR d)
      })"

subsection \<open>Encryption and decryption of a block\<close>

definition subkey :: "IceKey \<Rightarrow> int \<Rightarrow> IceSubkey option" where
  "subkey k i = (if 0 \<le> i \<and> i < int (length (ik_keysched k)) then Some (ik_keysched k ! nat i) else None)"

definition get_long :: "u8 list \<Rightarrow> int \<Rightarrow> u32 option" where
  "get_long b a = do {
     b0 \<leftarrow> peek8 b a; b1 \<leftarrow> peek8 b (a + 1); b2 \<leftarrow> peek8 b (a + 2); b3 \<leftarrow> peek8 b (a + 3);
     Some (push_bit 24 (ucast b0) OR push_bit 16 (ucast b1) OR push_bit 8 (ucast b2) OR ucast b3) }"

function encrypt_rounds :: "ice_static \<Rightarrow> IceKey \<Rightarrow> int \<Rightarrow> u32 \<Rightarrow> u32 \<Rightarrow> (u32 \<times> u32) option" where
  "encrypt_rounds st k i l r =
     (if i < ik_rounds k then do {
        sk \<leftarrow> subkey k i;
        f \<leftarrow> ice_f st r sk;
        let l = l XOR f;
        sk \<leftarrow> subkey k (i + 1);
        f \<leftarrow> ice_f st l sk;
        let r = r XOR f;
        encrypt_rounds st k (i + 2) l r }
      else Some (l, r))"
  by pat_completeness auto

termination encrypt_rounds
  by (relation "measure (\<lambda>(st, k, i, l, r). nat (ik_rounds k - i))") simp_all

function decrypt_rounds :: "ice_static \<Rightarrow> IceKey \<Rightarrow> int \<Rightarrow> u32 \<Rightarrow> u32 \<Rightarrow> (u32 \<times> u32) option" where
  "decrypt_rounds st k i l r =
     (if 0 < i then do {
        sk \<leftarrow> subkey k i;
        f \<leftarrow> ice_f st r sk;
        let l = l XOR f;
        sk \<leftarrow> subkey k (i - 1);
        f \<leftarrow> ice_f st l sk;
        let r = r XOR f;
        decrypt_rounds st k (i - 2) l r }
      else Some (l, r))"
  by pat_completeness auto

termination decrypt_rounds
  by (relation "measure (\<lambda>(st, k, i, l, r). nat i)") simp_all

declare encrypt_rounds.simps [simp del] decrypt_rounds.simps [simp del]

text \<open>The output loop, on the eight bytes it fills; all input has been read by then.\<close>

definition put_block :: "u32 \<Rightarrow> u32 \<Rightarrow> u8 list" where
  "put_block l r =
     (let (out, _, _) =
        fold (\<lambda>i (out, l, r).
               (out[3 - i := ucast (r AND 0xff), 7 - i := ucast (l AND 0xff)], drop_bit 8 l, drop_bit 8 r))
          [0..<4] (replicate 8 0, l, r)
      in out)"

definition encrypt :: "ice_static \<Rightarrow> IceKey \<Rightarrow> u8 list \<Rightarrow> u8 list option" where
  "encrypt st k ptext = do {
     l \<leftarrow> get_long ptext 0;
     r \<leftarrow> get_long ptext 4;
     (l, r) \<leftarrow> encrypt_rounds st k 0 l r;
     Some (put_block l r) }"

definition decrypt :: "ice_static \<Rightarrow> IceKey \<Rightarrow> u8 list \<Rightarrow> u8 list option" where
  "decrypt st k ctext = do {
     l \<leftarrow> get_long ctext 0;
     r \<leftarrow> get_long ctext 4;
     (l, r) \<leftarrow> decrypt_rounds st k (ik_rounds k - 1) l r;
     Some (put_block l r) }"

subsection \<open>The key schedule\<close>

text \<open>
  The innermost loop moves the low bit of \<open>kb[(kr + k) & 3]\<close> into the subkey word and
  rotates its complement in at the top.
\<close>

definition schedule_bit :: "nat \<Rightarrow> nat \<Rightarrow> nat \<Rightarrow> u16 list \<times> IceSubkey \<Rightarrow> u16 list \<times> IceSubkey" where
  "schedule_bit kr j k st =
     (case st of (kb, sk) \<Rightarrow>
       let q = (kr + k) mod 4;
           b = kb ! q AND 1;
           sk = sk_set sk (j mod 3) (push_bit 1 (sk_val sk (j mod 3)) OR ucast b)
       in (kb[q := drop_bit 1 (kb ! q) OR push_bit 15 (b XOR 1)], sk))"

definition schedule_subkey :: "nat \<Rightarrow> u16 list \<times> IceSubkey \<Rightarrow> u16 list \<times> IceSubkey" where
  "schedule_subkey kr st =
     (case st of (kb, sk) \<Rightarrow>
       let sk = fold (\<lambda>j sk. sk_set sk j 0) [0..<3] sk
       in fold (\<lambda>j. fold (schedule_bit kr j) [0..<4]) [0..<15] (kb, sk))"

definition scheduleBuild :: "u16 list \<Rightarrow> int \<Rightarrow> nat list \<Rightarrow> IceKey \<Rightarrow> (u16 list \<times> IceKey) option" where
  "scheduleBuild kb n keyrot k =
     foldM (\<lambda>i (kb, k). do {
         sk \<leftarrow> subkey k (n + int i);
         let (kb, sk) = schedule_subkey (keyrot ! i) (kb, sk);
         Some (kb, k\<lparr>ik_keysched := (ik_keysched k)[nat (n + int i) := sk]\<rparr>) })
       [0..<8] (kb, k)"

text \<open>\<open>kb[3 - j] = (key[a + j * 2] << 8) | key[a + j * 2 + 1]\<close> for \<open>j < 4\<close>.\<close>

definition load_kb :: "u8 list \<Rightarrow> int \<Rightarrow> u16 list option" where
  "load_kb key a =
     foldM (\<lambda>j kb. do {
         hi \<leftarrow> peek8 key (a + int j * 2);
         lo \<leftarrow> peek8 key (a + int j * 2 + 1);
         Some (kb[3 - j := push_bit 8 (ucast hi) OR ucast lo]) })
       [0..<4] (replicate 4 0)"

definition set_key :: "u8 list \<Rightarrow> IceKey \<Rightarrow> IceKey option" where
  "set_key key k =
     (if ik_rounds k = 8 then do {
        kb \<leftarrow> load_kb key 0;
        (_, k) \<leftarrow> scheduleBuild kb 0 ice_keyrot k;
        Some k }
      else
        foldM (\<lambda>i k. do {
            kb \<leftarrow> load_kb key (int i * 8);
            (kb, k) \<leftarrow> scheduleBuild kb (int i * 8) ice_keyrot k;
            (_, k) \<leftarrow> scheduleBuild kb (ik_rounds k - 8 - int i * 8) (drop 8 ice_keyrot) k;
            Some k })
          [0..<nat (ik_size k)] k)"

subsection \<open>Field elements stay below 256\<close>

lemma word_less_bits:
  assumes "n < LENGTH('a)"
  shows "(w::'a::len word) < 2 ^ n \<longleftrightarrow> (\<forall>i\<ge>n. \<not> bit w i)"
proof -
  have "uint (of_int (2 ^ n) :: 'a word) = 2 ^ n"
    using assms by (subst uint_word_of_int_eq) (simp add: take_bit_int_eq_self)
  then have "w < 2 ^ n \<longleftrightarrow> uint w < 2 ^ n" by (simp add: word_less_def)
  also have "\<dots> \<longleftrightarrow> take_bit n (uint w) = uint w"
    by (simp add: take_bit_int_eq_self_iff)
  also have "\<dots> \<longleftrightarrow> (\<forall>i\<ge>n. \<not> bit (uint w) i)"
    by (simp add: bit_eq_iff bit_take_bit_iff) (meson not_le)
  also have "\<dots> \<longleftrightarrow> (\<forall>i\<ge>n. \<not> bit w i)"
    by (simp add: bit_uint_iff) (meson bit_imp_le_length)
  finally show ?thesis .
qed

lemma byte_bits: "(w::u32) < 256 \<longleftrightarrow> (\<forall>i\<ge>8. \<not> bit w i)"
  using word_less_bits [of 8 w] by simp

lemma eight_le: "8 \<le> i \<longleftrightarrow> i = 8 \<or> 9 \<le> (i::nat)"
  by auto

lemma bit_8_iff: "(w::u32) < 512 \<Longrightarrow> 256 \<le> w \<longleftrightarrow> bit w 8"
proof -
  assume "w < 512"
  then have "\<forall>i\<ge>9. \<not> bit w i" using word_less_bits [of 9 w] by simp
  then have "w < 256 \<longleftrightarrow> \<not> bit w 8" unfolding byte_bits using eight_le by metis
  then show ?thesis by (simp add: not_less [symmetric])
qed

lemma gf_double_byte:
  assumes "a < 256" and "256 \<le> m" and "m < 512"
  shows "(if 256 \<le> push_bit 1 a then push_bit 1 a XOR m else push_bit 1 a) < (256 :: u32)"
proof -
  have a2: "push_bit 1 a < (512::u32)"
    using assms(1) word_less_bits [of 9 "push_bit 1 a"] unfolding byte_bits bit_push_bit_iff by simp
  have "push_bit 1 a XOR m < 256" if "256 \<le> push_bit 1 a"
  proof -
    have "bit (push_bit 1 a) 8" "bit m 8" using that a2 bit_8_iff assms by blast+
    moreover have "\<forall>i\<ge>9. \<not> bit (push_bit 1 a) i" "\<forall>i\<ge>9. \<not> bit m i"
      using a2 assms word_less_bits [of 9 "push_bit 1 a"] word_less_bits [of 9 m] by simp_all
    ultimately show ?thesis
      unfolding byte_bits bit_xor_iff using eight_le by metis
  qed
  then show ?thesis by (cases "256 \<le> push_bit 1 a") (simp_all add: not_le)
qed

lemma gf_mult_loop_byte:
  "a < 256 \<Longrightarrow> res < 256 \<Longrightarrow> 256 \<le> m \<Longrightarrow> m < 512 \<Longrightarrow> gf_mult_loop m a b res < 256"
proof (induction m a b res rule: gf_mult_loop.induct)
  case (1 m a b res)
  have res: "(if b AND 1 \<noteq> 0 then res XOR a else res) < 256"
    using "1.prems" by (auto simp: byte_bits bit_xor_iff)
  note a = gf_double_byte [OF "1.prems"(1,3,4)]
  show ?case
  proof (cases "b = 0")
    case True
    then show ?thesis using "1.prems" by (simp add: gf_mult_loop.simps)
  next
    case False
    show ?thesis
      unfolding gf_mult_loop.simps [of m a b res] if_not_P [OF False] Let_def
      by (rule "1.IH" [OF False refl refl refl refl a res "1.prems"(3,4)])
  qed
qed

lemma gf_mult_byte: "a < 256 \<Longrightarrow> 256 \<le> m \<Longrightarrow> m < 512 \<Longrightarrow> gf_mult a b m < 256"
  by (simp add: gf_mult_def gf_mult_loop_byte)

lemma gf_exp7_byte: "b < 256 \<Longrightarrow> 256 \<le> m \<Longrightarrow> m < 512 \<Longrightarrow> gf_exp7 b m < 256"
  by (simp add: gf_exp7_def Let_def gf_mult_byte)

subsection \<open>The P-box permutation\<close>

text \<open>
  \<open>pbox_pos\<close> gives the target position of each input bit and \<open>pbox_from\<close> its inverse;
  \<open>P_box\<close> is the permutation of the 32 bits they describe.
\<close>

definition pbox_pos :: "nat list" where
  "pbox_pos = [0, 7, 10, 13, 19, 21, 24, 30, 3, 5, 8, 14, 16, 23, 26, 29, 2, 4, 9, 15, 17, 22, 27, 28, 1, 6, 11, 12, 18, 20, 25, 31]"

definition pbox_from :: "nat list" where
  "pbox_from = [0, 24, 16, 8, 17, 9, 25, 1, 10, 18, 2, 26, 27, 3, 11, 19, 12, 20, 28, 4, 29, 5, 21, 13, 6, 30, 14, 22, 23, 15, 7, 31]"

definition P_box :: "u32 \<Rightarrow> u32" where
  "P_box x = horner_sum of_bool 2 (map (\<lambda>n. bit x (pbox_from ! n)) [0..<32])"

lemma pbox_inverse: "map (\<lambda>i. pbox_from ! (pbox_pos ! i)) [0..<32] = [0..<32]"
  "map (\<lambda>i. pbox_pos ! (pbox_from ! i)) [0..<32] = [0..<32]"
  "list_all (\<lambda>n. n < 32) pbox_pos" "list_all (\<lambda>n. n < 32) pbox_from"
  "length pbox_pos = 32" "length pbox_from = 32"
  by (code_simp)+

lemma pbox_from_pos: "i < 32 \<Longrightarrow> pbox_from ! (pbox_pos ! i) = i"
  "i < 32 \<Longrightarrow> pbox_pos ! (pbox_from ! i) = i"
  using pbox_inverse(1,2) by (auto simp: list_eq_iff_nth_eq)

lemma pbox_less: "i < 32 \<Longrightarrow> pbox_pos ! i < 32" "i < 32 \<Longrightarrow> pbox_from ! i < 32"
  using pbox_inverse(3-6) by (auto simp: list_all_length)

lemma bit_P_box: "bit (P_box x) n \<longleftrightarrow> n < 32 \<and> bit x (pbox_from ! n)"
  by (auto simp: P_box_def bit_horner_sum_bit_word_iff)

lemma ice_pbox_eq: "ice_pbox = map (\<lambda>n. 2 ^ n) pbox_pos"
  by code_simp

lemma bit_ice_pbox: "i < 32 \<Longrightarrow> bit (ice_pbox ! i) n \<longleftrightarrow> n = pbox_pos ! i"
  using pbox_less(1) [of i] pbox_inverse(5) by (auto simp: ice_pbox_eq bit_exp_iff)

lemma bit_half: "bit (drop_bit (Suc 0) (x::'a::len word)) j = bit x (Suc j)"
  by (simp add: bit_drop_bit_eq)

lemma low_bit: "x AND 1 \<noteq> 0 \<longleftrightarrow> bit (x::'a::len word) 0"
  by (simp add: and_one_eq odd_iff_mod_2_eq_one bit_0 flip: mod_2_eq_odd)

lemma ice_perm32_loop_bits:
  assumes "\<forall>j. bit x j \<longrightarrow> i + j < 32"
  shows "\<exists>y. ice_perm32_loop x i res = Some y \<and>
    (\<forall>n. bit y n \<longleftrightarrow> bit res n \<or> (\<exists>j. bit x j \<and> n = pbox_pos ! (i + j)))"
  using assms
proof (induction x i res rule: ice_perm32_loop.induct)
  case (1 x i res)
  have hyp: "\<forall>j. bit (drop_bit 1 x) j \<longrightarrow> i + 1 + j < 32"
    using "1.prems" by (fastforce simp: bit_half)
  have ex: "(\<exists>j. bit x j \<and> n = pbox_pos ! (i + j)) \<longleftrightarrow>
      (bit x 0 \<and> n = pbox_pos ! i) \<or> (\<exists>j. bit (drop_bit 1 x) j \<and> n = pbox_pos ! (i + 1 + j))" for n
    by (auto simp: bit_half) (metis add.right_neutral add_Suc_right not0_implies_Suc)+
  consider "x = 0" | "x \<noteq> 0" "bit x 0" | "x \<noteq> 0" "\<not> bit x 0" by blast
  then show ?case
  proof cases
    case 1
    then show ?thesis by (simp add: ice_perm32_loop.simps)
  next
    case 2
    then have "i < 32" "x AND 1 \<noteq> 0" using "1.prems" low_bit by fastforce+
    then show ?thesis
      using "1.IH"(1) [OF 2(1) _ _ hyp] 2 ex
      by (subst ice_perm32_loop.simps) (auto simp: bit_or_iff bit_ice_pbox)
  next
    case 3
    then have "x AND 1 = 0" using low_bit by blast
    then show ?thesis
      using "1.IH"(2) [OF 3(1) _ hyp] 3 ex by (subst ice_perm32_loop.simps) auto
  qed
qed

lemma ice_perm32_P_box: "ice_perm32 x = Some (P_box x)"
proof -
  have "\<forall>j. bit x j \<longrightarrow> j < 32" using bit_imp_le_length [of x] by auto
  with ice_perm32_loop_bits [of x 0 0] obtain y where y: "ice_perm32 x = Some y"
    "\<forall>n. bit y n \<longleftrightarrow> (\<exists>j. bit x j \<and> n = pbox_pos ! j)"
    by (auto simp: ice_perm32_def)
  have "bit y n = bit (P_box x) n" if "n < 32" for n
    using that y(2) \<open>\<forall>j. bit x j \<longrightarrow> j < 32\<close> by (metis bit_P_box pbox_from_pos pbox_less(2))
  then have "y = P_box x" by (intro bit_word_eqI) simp
  with y show ?thesis by simp
qed

subsection \<open>The S-boxes\<close>

text \<open>The multiplication of the code is the one of theory GaloisField, up to congruence.\<close>

lemma gf_mult_loop_cong:
  assumes "256 \<le> m" and "m < 512"
  shows "a < 256 \<Longrightarrow> gf_cong (unat m) (unat (gf_mult_loop m a b res)) (unat res XOR clmul (unat a) (unat b))"
  using assms
proof (induction m a b res rule: gf_mult_loop.induct)
  case (1 m a b res)
  show ?case
  proof (cases "b = 0")
    case True
    then show ?thesis by (simp add: gf_mult_loop.simps)
  next
    case False
    define a' where "a' = (if 256 \<le> push_bit 1 a then push_bit 1 a XOR m else push_bit 1 a)"
    define r' where "r' = (if b AND 1 \<noteq> 0 then res XOR a else res)"
    have a2: "unat (push_bit 1 a) = 2 * unat a"
      using "1.prems"(1) unat_mult_lem [of a 2] by (simp add: word_less_nat_alt)
    then have "gf_cong (unat m) (unat a') (2 * unat a)"
      using gf_cong_modulus [of "unat m" "2 * unat a" 0] by (simp add: a'_def unsigned_xor_eq)
    then have mult: "gf_cong (unat m) (clmul (unat a') (unat b div 2)) (2 * clmul (unat a) (unat b div 2))"
      using gf_cong_mult [OF _ gf_cong_refl] clmul_double_left by metis
    have odd: "b AND 1 \<noteq> 0 \<longleftrightarrow> odd (unat b)" using bit_unsigned_iff [of b 0, where 'a = nat] by (simp add: and_one_eq mod_2_eq_odd bit_0)
    have half: "unat (drop_bit 1 b) = unat b div 2" by (simp only: unat_drop_bit_eq) (simp add: drop_bit_eq_div)
    have "gf_cong (unat m) (unat (gf_mult_loop m a' (drop_bit 1 b) r')) (unat r' XOR clmul (unat a') (unat (drop_bit 1 b)))"
      using "1.IH" [OF False refl refl refl refl] gf_double_byte [OF "1.prems"] "1.prems" unfolding a'_def r'_def by blast
    then have "gf_cong (unat m) (unat (gf_mult_loop m a' (drop_bit 1 b) r')) (unat r' XOR 2 * clmul (unat a) (unat b div 2))"
      unfolding half using gf_cong_trans [OF _ gf_cong_xor [OF gf_cong_refl mult]] by blast
    moreover have "unat r' XOR 2 * clmul (unat a) (unat b div 2) = unat res XOR clmul (unat a) (unat b)"
      unfolding clmul_rec [of "unat a" "unat b"] r'_def odd by (simp add: unsigned_xor_eq xor.assoc)
    moreover have "gf_mult_loop m a b res = gf_mult_loop m a' (drop_bit 1 b) r'"
      unfolding gf_mult_loop.simps [of m a b res] if_not_P [OF False] Let_def a'_def r'_def ..
    ultimately show ?thesis by simp
  qed
qed

lemma gf_mult_cong:
  assumes "a < 256" and "256 \<le> m" and "m < 512" and "gf_cong (unat m) (unat a) x" and "gf_cong (unat m) (unat b) y"
  shows "gf_cong (unat m) (unat (gf_mult a b m)) (clmul x y)"
proof -
  have "gf_cong (unat m) (unat (gf_mult a b m)) (clmul (unat a) (unat b))"
    using gf_mult_loop_cong [OF assms(2,3,1), of b 0] by (simp add: gf_mult_def)
  then show ?thesis using gf_cong_trans gf_cong_mult [OF assms(4,5)] by blast
qed

lemma gf_exp7_pow:
  assumes "b < 256" and "256 \<le> m" and "m < 512"
  shows "gf_exp7 b m = of_nat (gf_pow7 (unat b) (unat m))"
proof -
  let ?b = "unat b"
  have "gf_cong (unat m) (unat (gf_exp7 b m)) (clpow ?b 7)"
  proof (cases "b = 0")
    case True
    then show ?thesis by (simp add: gf_exp7_def eval_nat_numeral)
  next
    case False
    define x1 where "x1 = gf_mult b b m"
    define x2 where "x2 = gf_mult b x1 m"
    define x3 where "x3 = gf_mult x2 x2 m"
    have x2: "x2 < 256" unfolding x2_def by (rule gf_mult_byte [OF assms])
    have b: "gf_cong (unat m) ?b ?b" by simp
    have 1: "gf_cong (unat m) (unat x1) (clmul ?b ?b)" unfolding x1_def by (rule gf_mult_cong [OF assms b b])
    have 2: "gf_cong (unat m) (unat x2) (clmul ?b (clmul ?b ?b))" unfolding x2_def by (rule gf_mult_cong [OF assms b 1])
    have 3: "gf_cong (unat m) (unat x3) (clmul (clmul ?b (clmul ?b ?b)) (clmul ?b (clmul ?b ?b)))"
      unfolding x3_def by (rule gf_mult_cong [OF x2 assms(2,3) 2 2])
    have 4: "gf_cong (unat m) (unat (gf_mult b x3 m)) (clmul ?b (clmul (clmul ?b (clmul ?b ?b)) (clmul ?b (clmul ?b ?b))))"
      by (rule gf_mult_cong [OF assms b 3])
    have "gf_exp7 b m = gf_mult b x3 m" using False by (simp add: gf_exp7_def Let_def x1_def x2_def x3_def)
    moreover have "clpow ?b 7 = clmul ?b (clmul (clmul ?b (clmul ?b ?b)) (clmul ?b (clmul ?b ?b)))"
      using clmul_1 [of ?b] by (simp add: eval_nat_numeral clmul_assoc)
    ultimately show ?thesis using 4 by simp
  qed
  then have "unat (gf_exp7 b m) = gf_pow7 ?b (unat m)"
    using gf_exp7_byte [OF assms] assms by (intro gf_pow7_unique) (simp_all add: word_less_nat_alt word_le_nat_alt)
  then have "(of_nat (unat (gf_exp7 b m)) :: u32) = of_nat (gf_pow7 ?b (unat m))" by simp
  then show ?thesis by simp
qed

text \<open>
  \<open>S_box k i\<close> is the 8-bit output of the \<open>k\<close>th S-box of the algorithm: the outer bits of the input
  choose a modulus and an offset, the middle ones are a polynomial, and the output is its seventh
  power. The tables hold it shifted to its byte and permuted by the P-box.
\<close>

definition S_box :: "nat \<Rightarrow> nat \<Rightarrow> u32" where
  "S_box k i = (let row = 2 * (i div 512 mod 2) + i mod 2; col = i div 2 mod 256
     in of_nat (gf_pow7 (col XOR unat (ice_sxor ! k ! row)) (unat (ice_smod ! k ! row))))"

definition sbox_table :: "u32 list list" where
  "sbox_table = map (\<lambda>k. map (\<lambda>i. P_box (push_bit (24 - 8 * k) (S_box k i))) [0..<1024]) [0..<4]"

lemma sbox_row_less: "sbox_row i < 4"
proof -
  have nine: "bit (0x200::u32) n \<longleftrightarrow> n = 9" for n
    using bit_exp_iff [where 'a = u32, of 9 n] by (auto simp: bit_imp_le_length)
  have "((of_nat i AND 1) OR drop_bit 8 (of_nat i AND 0x200) :: u32) < 2 ^ 2"
    by (subst word_less_bits) (auto simp: bit_or_iff bit_and_iff bit_drop_bit_eq bit_1_iff bit_2_iff nine)
  then show ?thesis by (simp add: sbox_row_def word_less_nat_alt)
qed

lemma sbox_row_eq: "sbox_row i = 2 * (i div 512 mod 2) + i mod 2"
proof -
  have "w AND 2 ^ 9 = (if bit w 9 then 2 ^ 9 else 0)" for w :: u32
    by (rule bit_word_eqI) (auto simp only: bit_and_iff bit_exp_iff if_distrib [of bit] if_distribR bit_0_eq bot_apply bot_bool_def split: if_splits)
  from this [of "of_nat i"] have "(of_nat i AND 0x200 :: u32) = (if bit i 9 then 0x200 else 0)" by (simp add: bit_of_nat_iff)
  moreover have "(of_nat i AND 1 :: u32) = (if odd i then 1 else 0)"
    by (rule bit_word_eqI) (auto simp: bit_and_iff bit_1_iff bit_of_nat_iff bit_0 intro!: Nat.gr0I)
  moreover have "bit i 9 \<longleftrightarrow> odd (i div 512)" by (simp add: bit_iff_odd)
  ultimately show ?thesis by (cases "odd i"; cases "odd (i div 512)") (simp_all add: sbox_row_def odd_iff_mod_2_eq_one)
qed

lemma sbox_col_eq: "unat (sbox_col i) = i div 2 mod 256"
proof -
  have ff: "(0xff :: u32) = mask 8" by (simp add: mask_eq_exp_minus_1)
  have "unat (sbox_col i) = take_bit 8 (drop_bit 1 i)"
    by (rule bit_eqI) (auto simp: sbox_col_def ff bit_unsigned_iff bit_and_iff bit_mask_iff bit_drop_bit_eq bit_of_nat_iff bit_take_bit_iff)
  then show ?thesis by (simp add: take_bit_eq_mod drop_bit_eq_div)
qed

lemma sbox_tables_range:
  "list_all (list_all (\<lambda>x. x < 256)) ice_sxor" "list_all (list_all (\<lambda>x. 256 \<le> x \<and> x < 512)) ice_smod"
  "map length ice_sxor = [4, 4, 4, 4]" "map length ice_smod = [4, 4, 4, 4]"
  by (simp_all add: ice_sxor_def ice_smod_def)

lemma sbox_tables_nth:
  assumes "k < 4" and "r < 4"
  shows "ice_sxor ! k ! r < 256" "256 \<le> ice_smod ! k ! r" "ice_smod ! k ! r < 512"
proof -
  have "length ice_sxor = 4" "length ice_smod = 4" by (simp_all add: ice_sxor_def ice_smod_def)
  moreover have "length (ice_sxor ! k) = 4" "length (ice_smod ! k) = 4"
    using assms(1) by (auto simp: ice_sxor_def ice_smod_def less_Suc_eq numeral_eq_Suc)
  ultimately show "ice_sxor ! k ! r < 256" "256 \<le> ice_smod ! k ! r" "ice_smod ! k ! r < 512"
    using sbox_tables_range(1,2) assms by (auto simp: list_all_length)
qed

lemma S_box_input:
  assumes "k < 4"
  shows "sbox_col i XOR ice_sxor ! k ! sbox_row i < 256"
proof -
  have "sbox_col i < 256"
    unfolding sbox_col_def byte_bits using byte_bits [of "0xff"] by (simp add: bit_and_iff)
  then show ?thesis
    using sbox_tables_nth(1) [OF assms sbox_row_less] unfolding byte_bits bit_xor_iff by blast
qed

lemma S_box_exp7:
  assumes "k < 4"
  shows "gf_exp7 (sbox_col i XOR ice_sxor ! k ! sbox_row i) (ice_smod ! k ! sbox_row i) = S_box k i"
  using gf_exp7_pow [OF S_box_input [OF assms] sbox_tables_nth(2,3) [OF assms sbox_row_less]]
  by (simp add: S_box_def Let_def unsigned_xor_eq sbox_col_eq flip: sbox_row_eq)

lemma S_box_byte: "k < 4 \<Longrightarrow> S_box k i < 256"
proof -
  assume k: "k < 4"
  show ?thesis
    using gf_exp7_byte [OF S_box_input [OF k, of i] sbox_tables_nth(2,3) [OF k sbox_row_less [of i]]] unfolding S_box_exp7 [OF k] .
qed

lemma sbox_step_eq:
  assumes "length sb = 4"
  shows "ice_sboxes_step i sb =
    Some (map (\<lambda>k. (sb ! k)[i := P_box (push_bit (24 - 8 * k) (S_box k i))]) [0..<4])"
proof -
  obtain a b c d where "sb = [a, b, c, d]"
    using assms by (auto simp: numeral_eq_Suc length_Suc_conv)
  then show ?thesis
    by (simp add: ice_sboxes_step_def ice_perm32_P_box sbox_store_def Let_def S_box_exp7 upt_rec
        numeral_2_eq_2 numeral_3_eq_3)
qed

lemma ice_sboxes_init_table:
  assumes "map length sb = [1024, 1024, 1024, 1024]"
  shows "ice_sboxes_init sb = Some sbox_table"
proof -
  define row where "row = (\<lambda>n k. map (\<lambda>i. P_box (push_bit (24 - 8 * k) (S_box k i))) [0..<n] @ drop n (sb ! k))"
  have len: "length sb = 4" using arg_cong [OF assms, of length] by simp
  then have lk: "k < 4 \<Longrightarrow> length (sb ! k) = 1024" for k
    using assms nth_map [of k sb length] by (auto simp: less_Suc_eq numeral_eq_Suc)
  have upd: "(row n k)[n := P_box (push_bit (24 - 8 * k) (S_box k n))] = row (Suc n) k"
    if "n < 1024" "k < 4" for n k
    using that lk [of k] by (simp add: row_def list_update_append upd_conv_take_nth_drop Cons_nth_drop_Suc [symmetric])
  have "\<exists>s'. foldM ice_sboxes_step [0..<1024] sb = Some s' \<and> s' = map (row 1024) [0..<4]"
  proof (rule foldM_upt)
    show "sb = map (row 0) [0..<4]"
      using len by (auto simp: list_eq_iff_nth_eq row_def)
  next
    fix n s assume "n < 1024" "s = map (row n) [0..<4]"
    then show "\<exists>s'. ice_sboxes_step n s = Some s' \<and> s' = map (row (Suc n)) [0..<4]"
      using upd by (simp add: sbox_step_eq)
  qed simp
  moreover have "map (row 1024) [0..<4] = sbox_table"
    using lk by (simp add: sbox_table_def row_def)
  ultimately show ?thesis by (simp add: ice_sboxes_init_def)
qed

lemma sbox_at_table:
  assumes "ice_sbox st = sbox_table" and "k < 4" and "unat i < 1024"
  shows "sbox_at st k i = Some (P_box (push_bit (24 - 8 * k) (S_box k (unat i))))"
  using assms by (simp add: sbox_at_def sbox_table_def)

subsection \<open>The round function is the reference round function\<close>

text \<open>
  The algorithm's own description of a round: four overlapping 10-bit groups \<open>E_box k\<close> of
  the (cyclic) input word, the keyed exchange of bits between the two halves, the subkey
  XOR, the four S-boxes side by side, and the P-box last.
\<close>

definition E_box :: "nat \<Rightarrow> u32 \<Rightarrow> u32" where
  "E_box k p = take_bit 10 (word_rotr (24 - 8 * k) p)"

definition ice_round :: "u32 \<Rightarrow> IceSubkey \<Rightarrow> u32" where
  "ice_round p sk =
     (let tl = push_bit 10 (E_box 0 p) OR E_box 1 p;
          tr = push_bit 10 (E_box 2 p) OR E_box 3 p;
          al = ((tr AND val2 sk) OR (tl AND NOT (val2 sk))) XOR val0 sk;
          ar = ((tl AND val2 sk) OR (tr AND NOT (val2 sk))) XOR val1 sk
      in P_box (push_bit 24 (S_box 0 (unat (drop_bit 10 al))) OR
                push_bit 16 (S_box 1 (unat (take_bit 10 al))) OR
                push_bit 8 (S_box 2 (unat (drop_bit 10 ar))) OR
                S_box 3 (unat (take_bit 10 ar))))"

definition subkey_ok :: "IceSubkey \<Rightarrow> bool" where
  "subkey_ok sk \<longleftrightarrow> val0 sk < 2 ^ 20 \<and> val1 sk < 2 ^ 20 \<and> val2 sk < 2 ^ 20"

lemma low_mask: "(0x3ff::u32) = mask 10" "(0xffc00::u32) = push_bit 10 (mask 10)"
  by (simp_all add: mask_eq_exp_minus_1)

lemma bit_E_box: "bit (E_box k p) n \<longleftrightarrow> n < 10 \<and> bit p ((n + (24 - 8 * k)) mod 32)"
  by (auto simp: E_box_def bit_take_bit_iff bit_word_rotr_iff)

lemma left_expansion:
  "(drop_bit 16 p AND 0x3ff) OR ((drop_bit 14 p OR push_bit 18 p) AND 0xffc00)
    = push_bit 10 (E_box 0 p) OR E_box 1 (p::u32)"
proof (rule bit_word_eqI)
  fix n assume "n < LENGTH(32)"
  then have n: "n < 32" by simp
  have E: "10 \<le> n \<Longrightarrow> n < 20 \<Longrightarrow> bit (drop_bit 14 p OR push_bit 18 p) n = bit p ((n + 14) mod 32)"
  proof -
    assume "10 \<le> n" "n < 20"
    then have "(n + 14) mod 32 = (if n < 18 then n + 14 else n - 18)" by (simp add: le_mod_geq)
    moreover have "n < 18 \<or> \<not> bit p (n + 14)" using bit_imp_le_length [of p "n + 14"] by auto
    ultimately show ?thesis using \<open>n < 20\<close> n by (auto simp: bit_or_iff bit_drop_bit_eq bit_push_bit_iff add.commute)
  qed
  show "bit ((drop_bit 16 p AND 0x3ff) OR ((drop_bit 14 p OR push_bit 18 p) AND 0xffc00)) n
      = bit (push_bit 10 (E_box 0 p) OR E_box 1 p) n"
    using n E unfolding low_mask
    by (auto simp: bit_or_iff [of "_ AND _"] bit_or_iff [of "push_bit 10 _"] bit_and_iff bit_E_box
        bit_push_bit_iff [of 10] bit_drop_bit_eq [of 16] bit_mask_iff add.commute)
qed

lemma right_expansion:
  "(p AND 0x3ff) OR (push_bit 2 p AND 0xffc00) = push_bit 10 (E_box 2 p) OR E_box 3 (p::u32)"
proof (rule bit_word_eqI)
  fix n assume "n < LENGTH(32)"
  then have "n < 32" by simp
  moreover have "2 \<le> n \<Longrightarrow> n < 20 \<Longrightarrow> (n - 10 + 8) mod 32 = (if n < 10 then 8 else n - 2)" by auto
  ultimately show "bit ((p AND 0x3ff) OR (push_bit 2 p AND 0xffc00)) n
      = bit (push_bit 10 (E_box 2 p) OR E_box 3 p) n"
    unfolding low_mask by (auto simp: bit_or_iff bit_and_iff bit_E_box bit_push_bit_iff bit_mask_iff)
qed

lemma expansion_small: "push_bit 10 (E_box j p) OR E_box k p < 2 ^ 20"
  by (subst word_less_bits) (auto simp: bit_or_iff bit_push_bit_iff bit_E_box)

lemma salt_left: "s AND (l XOR r) XOR l = (r AND s) OR (l AND NOT (s::u32))"
  by (rule bit_word_eqI) (auto simp: bit_or_iff bit_and_iff bit_xor_iff bit_not_iff)

lemma salt_right: "s AND (l XOR r) XOR r = (l AND s) OR (r AND NOT (s::u32))"
  by (rule bit_word_eqI) (auto simp: bit_or_iff bit_and_iff bit_xor_iff bit_not_iff)

lemma salted_small:
  assumes "l < 2 ^ 20" and "r < 2 ^ 20" and "v < (2::u32) ^ 20"
  shows "((l AND s) OR (r AND NOT s)) XOR v < 2 ^ 20"
  using assms by (subst (asm) (1 2 3) word_less_bits, simp, simp, simp, subst word_less_bits)
    (auto simp: bit_or_iff bit_and_iff bit_xor_iff)

lemma group_index: "(w::u32) < 2 ^ 20 \<Longrightarrow> unat (drop_bit 10 w) < 1024" "unat (take_bit 10 w) < 1024"
proof -
  assume "w < 2 ^ 20"
  then have "drop_bit 10 w < 2 ^ 10"
    by (subst (asm) word_less_bits, simp, subst word_less_bits) (auto simp: bit_drop_bit_eq)
  then show "unat (drop_bit 10 w) < 1024" by (simp add: word_less_nat_alt)
next
  have "take_bit 10 w < 2 ^ 10" by (subst word_less_bits) (auto simp: bit_take_bit_iff)
  then show "unat (take_bit 10 w) < 1024" by (simp add: word_less_nat_alt)
qed

lemma P_box_or: "P_box (a OR b) = P_box a OR P_box b"
  by (rule bit_word_eqI) (auto simp: bit_P_box bit_or_iff)

lemma ice_f_round:
  assumes "ice_sbox st = sbox_table" and "subkey_ok sk"
  shows "ice_f st p sk = Some (ice_round p sk)"
proof -
  define tl where "tl = push_bit 10 (E_box 0 p) OR E_box 1 p"
  define tr where "tr = push_bit 10 (E_box 2 p) OR E_box 3 p"
  define al where "al = ((tr AND val2 sk) OR (tl AND NOT (val2 sk))) XOR val0 sk"
  define ar where "ar = ((tl AND val2 sk) OR (tr AND NOT (val2 sk))) XOR val1 sk"
  have small: "al < 2 ^ 20" "ar < 2 ^ 20"
    using assms(2) salted_small expansion_small unfolding al_def ar_def tl_def tr_def subkey_ok_def by blast+
  have look: "sbox_at st 0 (drop_bit 10 al) = Some (P_box (push_bit 24 (S_box 0 (unat (drop_bit 10 al)))))"
    "sbox_at st 1 (take_bit 10 al) = Some (P_box (push_bit 16 (S_box 1 (unat (take_bit 10 al)))))"
    "sbox_at st 2 (drop_bit 10 ar) = Some (P_box (push_bit 8 (S_box 2 (unat (drop_bit 10 ar)))))"
    "sbox_at st 3 (take_bit 10 ar) = Some (P_box (S_box 3 (unat (take_bit 10 ar))))"
    using sbox_at_table [OF assms(1)] group_index(1) [OF small(1)] group_index(1) [OF small(2)] group_index(2)
    by simp_all
  have m: "w AND 0x3ff = take_bit 10 w" for w :: u32
    unfolding low_mask by (simp add: take_bit_eq_mask)
  have "ice_f st p sk = do {
      a \<leftarrow> sbox_at st 0 (drop_bit 10 al);
      b \<leftarrow> sbox_at st 1 (take_bit 10 al);
      c \<leftarrow> sbox_at st 2 (drop_bit 10 ar);
      d \<leftarrow> sbox_at st 3 (take_bit 10 ar);
      Some (a OR b OR c OR d) }"
    unfolding ice_f_def Let_def left_expansion right_expansion
    unfolding tl_def [symmetric] tr_def [symmetric] salt_left salt_right
    unfolding al_def [symmetric] ar_def [symmetric] m ..
  moreover have "ice_round p sk =
      P_box (push_bit 24 (S_box 0 (unat (drop_bit 10 al)))) OR
      P_box (push_bit 16 (S_box 1 (unat (take_bit 10 al)))) OR
      P_box (push_bit 8 (S_box 2 (unat (drop_bit 10 ar)))) OR
      P_box (S_box 3 (unat (take_bit 10 ar)))"
    unfolding ice_round_def Let_def P_box_or al_def ar_def tl_def tr_def ..
  ultimately show ?thesis by (simp only: look bind.bind_lunit)
qed

subsection \<open>Blocks\<close>

lemma bit_ucast_byte16: "bit (ucast (b::u8) :: u16) i = (i < 8 \<and> bit b i)"
  using bit_imp_le_length [of b i] by (auto simp: bit_ucast_iff)

definition be_bytes :: "u32 \<Rightarrow> u8 list" where
  "be_bytes w = [ucast (drop_bit 24 w), ucast (drop_bit 16 w), ucast (drop_bit 8 w), ucast w]"

lemma ucast_low_byte: "ucast (w AND 0xff) = (ucast (w::u32) :: u8)"
proof -
  have "(0xff::u32) = mask 8" by (simp add: mask_eq_exp_minus_1)
  show ?thesis
    unfolding \<open>0xff = mask 8\<close> by (rule bit_word_eqI) (auto simp: bit_ucast_iff bit_and_iff bit_mask_iff)
qed

lemma put_block_eq: "put_block l r = be_bytes r @ be_bytes l"
  unfolding put_block_def ucast_low_byte
  by (simp add: upt_rec be_bytes_def numeral_eq_Suc Let_def)

lemma length_be_bytes [simp]: "length (be_bytes w) = 4"
  by (simp add: be_bytes_def)

lemma join_be_bytes:
  "push_bit 24 (ucast (ucast (drop_bit 24 w) :: u8)) OR push_bit 16 (ucast (ucast (drop_bit 16 w) :: u8))
     OR push_bit 8 (ucast (ucast (drop_bit 8 w) :: u8)) OR ucast (ucast w :: u8) = (w::u32)"
proof (rule bit_word_eqI)
  fix n :: nat assume "n < LENGTH(32)"
  then show "bit (push_bit 24 (ucast (ucast (drop_bit 24 w) :: u8)) OR push_bit 16 (ucast (ucast (drop_bit 16 w) :: u8))
     OR push_bit 8 (ucast (ucast (drop_bit 8 w) :: u8)) OR ucast (ucast w :: u8) :: u32) n = bit w n"
    by (cases "n < 8"; cases "n < 16"; cases "n < 24")
      (auto simp: bit_or_iff bit_push_bit_iff bit_ucast_byte bit_ucast_iff bit_drop_bit_eq)
qed

lemma get_long_be_bytes: "length pre = n \<Longrightarrow> get_long (pre @ be_bytes w @ post) (int n) = Some w"
proof -
  assume n: "length pre = n"
  have "peek8 (pre @ be_bytes w @ post) (int n + int j) = Some (be_bytes w ! j)" if "j < 4" for j
    using that n by (simp add: peek8_def nth_append nat_add_distrib nat_int_add)
  from this [of 0] this [of 1] this [of 2] this [of 3] show ?thesis
    using join_be_bytes [of w] by (simp add: get_long_def be_bytes_def numeral_eq_Suc)
qed

lemma not_bit_u8 [simp]: "8 \<le> n \<Longrightarrow> \<not> bit (b::u8) n"
  using bit_imp_le_length [of b n] by auto

lemma block_parts:
  assumes "8 \<le> length b"
  obtains l r where "take 8 b = be_bytes l @ be_bytes r" "get_long b 0 = Some l" "get_long b 4 = Some r"
proof -
  define word where "word = (\<lambda>a. push_bit 24 (ucast (b ! a)) OR push_bit 16 (ucast (b ! (a + 1)))
      OR push_bit 8 (ucast (b ! (a + 2))) OR ucast (b ! (a + 3)) :: u32)"
  have word: "be_bytes (word a) = [b ! a, b ! (a + 1), b ! (a + 2), b ! (a + 3)]" for a
    unfolding be_bytes_def word_def
    by (auto intro!: bit_word_eqI simp: bit_ucast_iff bit_drop_bit_eq bit_or_iff bit_push_bit_iff bit_ucast_byte)
  have "take 8 b = be_bytes (word 0) @ be_bytes (word 4)"
    unfolding word using assms by (auto simp: list_eq_iff_nth_eq less_Suc_eq numeral_eq_Suc nth_Cons')
  moreover have "b \<noteq> []" using assms by auto
  then have "get_long b 0 = Some (word 0)" "get_long b 4 = Some (word 4)"
    using assms \<open>b \<noteq> []\<close> by (auto simp: get_long_def word_def numeral_2_eq_2)
  ultimately show ?thesis using that by blast
qed

subsection \<open>The cipher is a Feistel network\<close>

fun feistel :: "IceSubkey list \<Rightarrow> u32 \<times> u32 \<Rightarrow> u32 \<times> u32" where
  "feistel [] (l, r) = (l, r)"
| "feistel (sk # sks) (l, r) = feistel sks (r, l XOR ice_round r sk)"

lemma feistel_append: "feistel (xs @ ys) b = feistel ys (feistel xs b)"
  by (induction xs b rule: feistel.induct) auto

lemma feistel_inverse: "feistel (rev sks) (prod.swap (feistel sks b)) = prod.swap b"
proof (induction sks b rule: feistel.induct)
  case (2 sk sks l r)
  have "feistel (rev (sk # sks)) (prod.swap (feistel (sk # sks) (l, r)))
      = feistel [sk] (prod.swap (r, l XOR ice_round r sk))"
    using 2 by (simp add: feistel_append)
  then show ?case by (simp add: xor.assoc)
qed simp

text \<open>
  A key is ready when the S-boxes are initialised and the schedule holds an even number
  of subkeys of three 20-bit words.
\<close>

definition key_ready :: "ice_static \<Rightarrow> IceKey \<Rightarrow> bool" where
  "key_ready st k \<longleftrightarrow> ice_sbox st = sbox_table \<and> 0 < ik_rounds k \<and> even (ik_rounds k) \<and>
     length (ik_keysched k) = nat (ik_rounds k) \<and> list_all subkey_ok (ik_keysched k)"

lemma ready_subkey:
  assumes "key_ready st k" and "0 \<le> i" and "i < ik_rounds k"
  shows "subkey k i = Some (ik_keysched k ! nat i)" "ice_f st p (ik_keysched k ! nat i) = Some (ice_round p (ik_keysched k ! nat i))"
  using assms ice_f_round by (auto simp: key_ready_def subkey_def list_all_length)

lemma encrypt_rounds_feistel:
  assumes "key_ready st k" and "0 \<le> i" and "even i"
  shows "encrypt_rounds st k i l r = Some (feistel (drop (nat i) (ik_keysched k)) (l, r))"
  using assms(2,3)
proof (induction "nat (ik_rounds k - i)" arbitrary: i l r rule: less_induct)
  case less
  let ?ks = "ik_keysched k"
  have k: "even (ik_rounds k)" "length ?ks = nat (ik_rounds k)" using assms(1) by (simp_all add: key_ready_def)
  show ?case
  proof (cases "i < ik_rounds k")
    case True
    with less.prems k(1) have i1: "i + 1 < ik_rounds k" by presburger
    have ix: "nat (i + 1) = Suc (nat i)" "nat (i + 2) = Suc (Suc (nat i))" using less.prems by linarith+
    have "nat i < length ?ks" "Suc (nat i) < length ?ks" using True i1 k(2) less.prems(1) by linarith+
    then have split: "drop (nat i) ?ks = ?ks ! nat i # ?ks ! nat (i + 1) # drop (nat (i + 2)) ?ks"
      unfolding ix by (simp add: Cons_nth_drop_Suc)
    have IH: "encrypt_rounds st k (i + 2) l' r' = Some (feistel (drop (nat (i + 2)) ?ks) (l', r'))" for l' r'
      using less.hyps [of "i + 2"] less.prems True by simp
    have "0 \<le> i + 1" using less.prems by simp
    then show ?thesis
      using True ready_subkey [OF assms(1) less.prems(1) True] ready_subkey [OF assms(1) _ i1]
      unfolding split by (subst encrypt_rounds.simps) (simp add: IH Let_def)
  next
    case False
    with k show ?thesis by (subst encrypt_rounds.simps) simp
  qed
qed

lemma decrypt_rounds_feistel:
  assumes "key_ready st k" and "i < ik_rounds k" and "-1 \<le> i" and "odd i"
  shows "decrypt_rounds st k i l r = Some (feistel (rev (take (nat (i + 1)) (ik_keysched k))) (l, r))"
  using assms(2-4)
proof (induction "nat i" arbitrary: i l r rule: less_induct)
  case less
  let ?ks = "ik_keysched k"
  have len: "length ?ks = nat (ik_rounds k)" using assms(1) by (simp add: key_ready_def)
  show ?case
  proof (cases "0 < i")
    case True
    have ix: "nat (i + 1) = Suc (nat i)" "nat (i - 2 + 1) = nat (i - 1)" "nat i = Suc (nat (i - 1))"
      using True by linarith+
    have "nat i < length ?ks" using True less.prems(1) len by linarith
    then have "take (nat (i + 1)) ?ks = take (nat (i - 1)) ?ks @ [?ks ! nat (i - 1), ?ks ! nat i]"
      unfolding ix by (simp add: take_Suc_conv_app_nth)
    then have split: "rev (take (nat (i + 1)) ?ks) = ?ks ! nat i # ?ks ! nat (i - 1) # rev (take (nat (i - 2 + 1)) ?ks)"
      by (simp add: ix(2))
    have IH: "decrypt_rounds st k (i - 2) l' r' = Some (feistel (rev (take (nat (i - 2 + 1)) ?ks)) (l', r'))" for l' r'
      using less.hyps [of "i - 2"] less.prems True by simp
    have "0 \<le> i" "0 \<le> i - 1" "i - 1 < ik_rounds k" using True less.prems by simp_all
    then show ?thesis
      using True ready_subkey [OF assms(1) _ less.prems(1)] ready_subkey [OF assms(1), of "i - 1"]
      unfolding split by (subst decrypt_rounds.simps) (simp add: IH Let_def)
  next
    case False
    with less.prems have "i = -1" by presburger
    then show ?thesis by (subst decrypt_rounds.simps) simp
  qed
qed

lemma encrypt_block:
  assumes "key_ready st k"
  shows "encrypt st k (be_bytes l @ be_bytes r @ rest) =
    Some (case feistel (ik_keysched k) (l, r) of (l', r') \<Rightarrow> be_bytes r' @ be_bytes l')"
  using encrypt_rounds_feistel [OF assms, of 0 l r]
    get_long_be_bytes [of "[]" 0 l] get_long_be_bytes [of "be_bytes l" 4 r rest]
  by (simp add: encrypt_def put_block_eq split: prod.split)

lemma decrypt_block:
  assumes "key_ready st k"
  shows "decrypt st k (be_bytes l @ be_bytes r @ rest) =
    Some (case feistel (rev (ik_keysched k)) (l, r) of (l', r') \<Rightarrow> be_bytes r' @ be_bytes l')"
proof -
  have "decrypt_rounds st k (ik_rounds k - 1) l r = Some (feistel (rev (ik_keysched k)) (l, r))"
    using decrypt_rounds_feistel [OF assms, of "ik_rounds k - 1" l r] assms by (simp add: key_ready_def)
  then show ?thesis
    using get_long_be_bytes [of "[]" 0 l] get_long_be_bytes [of "be_bytes l" 4 r rest]
    by (simp add: decrypt_def put_block_eq split: prod.split)
qed

lemma decrypt_inverts:
  assumes "key_ready st k" and "8 \<le> length b"
  shows "\<exists>c. encrypt st k b = Some c \<and> length c = 8 \<and> decrypt st k (c @ rest) = Some (take 8 b)"
proof -
  obtain l r where lr: "take 8 b = be_bytes l @ be_bytes r" using block_parts [OF assms(2)] .
  obtain l' r' where F: "feistel (ik_keysched k) (l, r) = (l', r')" by (cases "feistel (ik_keysched k) (l, r)")
  have "b = be_bytes l @ be_bytes r @ drop 8 b" using lr append_take_drop_id [of 8 b] by simp
  then have "encrypt st k b = Some (be_bytes r' @ be_bytes l')"
    using encrypt_block [OF assms(1), of l r "drop 8 b"] F by simp
  moreover have "feistel (rev (ik_keysched k)) (r', l') = (r, l)"
    using feistel_inverse [of "ik_keysched k" "(l, r)"] F by simp
  ultimately show ?thesis
    using decrypt_block [OF assms(1), of r' l' rest] lr by simp
qed

lemma encrypt_inverts:
  assumes "key_ready st k" and "8 \<le> length c"
  shows "\<exists>b. decrypt st k c = Some b \<and> length b = 8 \<and> encrypt st k (b @ rest) = Some (take 8 c)"
proof -
  obtain l r where lr: "take 8 c = be_bytes l @ be_bytes r" using block_parts [OF assms(2)] .
  obtain l' r' where F: "feistel (rev (ik_keysched k)) (l, r) = (l', r')"
    by (cases "feistel (rev (ik_keysched k)) (l, r)")
  have "c = be_bytes l @ be_bytes r @ drop 8 c" using lr append_take_drop_id [of 8 c] by simp
  then have "decrypt st k c = Some (be_bytes r' @ be_bytes l')"
    using decrypt_block [OF assms(1), of l r "drop 8 c"] F by simp
  moreover have "feistel (ik_keysched k) (r', l') = (r, l)"
    using feistel_inverse [of "rev (ik_keysched k)" "(l, r)"] F by simp
  ultimately show ?thesis
    using encrypt_block [OF assms(1), of r' l' rest] lr by simp
qed

subsection \<open>The key schedule depends on the key alone\<close>

definition zero_subkey :: IceSubkey where
  "zero_subkey = \<lparr>val0 = 0, val1 = 0, val2 = 0\<rparr>"

lemma wipe_subkey: "fold (\<lambda>j sk. sk_set sk j 0) [0..<3] sk = zero_subkey"
  by (simp add: upt_rec sk_set_def zero_subkey_def)

lemma schedule_subkey_eq:
  "schedule_subkey kr (kb, sk) = fold (\<lambda>j. fold (schedule_bit kr j) [0..<4]) [0..<15] (kb, zero_subkey)"
  unfolding schedule_subkey_def by (simp only: wipe_subkey Let_def prod.case)

lemma schedule_subkey_fresh: "schedule_subkey kr (kb, sk) = schedule_subkey kr (kb, zero_subkey)"
  by (simp only: schedule_subkey_eq)

definition sk_fits :: "nat \<Rightarrow> nat \<Rightarrow> IceSubkey \<Rightarrow> bool" where
  "sk_fits n c sk \<longleftrightarrow> (\<forall>i\<ge>n. \<not> bit (sk_val sk c) i)"

lemma schedule_bit_fits:
  assumes "sk_fits n c (snd st)" and "c < 3"
  shows "sk_fits (if j mod 3 = c then Suc n else n) c (snd (schedule_bit kr j k st))"
proof -
  obtain kb sk where st: "st = (kb, sk)" by (cases st)
  have "sk_val (sk_set sk (j mod 3) v) c = (if j mod 3 = c then v else sk_val sk c)" for v
    using assms(2) by (auto simp: sk_val_def sk_set_def)
  moreover have "\<not> bit (push_bit 1 (sk_val sk c) OR ucast (x AND 1)) i" if "Suc n \<le> i" for i and x :: u16
    using that assms(1) st unfolding bit_or_iff bit_push_bit_iff bit_ucast_iff bit_and_iff bit_1_iff
    by (auto simp: sk_fits_def)
  ultimately show ?thesis
    using assms(1) unfolding st by (auto simp: schedule_bit_def Let_def sk_fits_def)
qed

lemma schedule_bits_fits:
  "sk_fits n c (snd st) \<Longrightarrow> c < 3 \<Longrightarrow>
    sk_fits (n + (if j mod 3 = c then length ks else 0)) c (snd (fold (schedule_bit kr j) ks st))"
proof (induction ks arbitrary: n st)
  case (Cons k ks)
  from Cons.IH [OF schedule_bit_fits [OF Cons.prems, of j kr k] Cons.prems(2)] show ?case
    by (auto split: if_splits)
qed simp

lemma schedule_words_fits:
  assumes "sk_fits 0 c (snd st)" and "c < 3"
  shows "sk_fits (4 * length (filter (\<lambda>j. j mod 3 = c) js)) c (snd (fold (\<lambda>j. fold (schedule_bit kr j) [0..<4]) js st))"
proof (induction js rule: rev_induct)
  case (snoc j js)
  from schedule_bits_fits [OF snoc.IH assms(2), of j "[0..<4]" kr] show ?case
    by (simp add: add.commute del: upt_rec_numeral split: if_splits)
qed (use assms in simp)

lemma schedule_subkey_ok: "subkey_ok (snd (schedule_subkey kr (kb, sk)))"
proof -
  have "sk_fits 0 c zero_subkey" for c by (simp add: sk_fits_def zero_subkey_def sk_val_def)
  then have "sk_fits (4 * length (filter (\<lambda>j. j mod 3 = c) [0..<15])) c (snd (schedule_subkey kr (kb, zero_subkey)))"
    if "c < 3" for c
    using schedule_words_fits [of c "(kb, zero_subkey)"] that
    unfolding schedule_subkey_eq by (simp del: upt_rec_numeral)
  from this [of 0] this [of 1] this [of 2]
  have "sk_fits 20 0 (snd (schedule_subkey kr (kb, zero_subkey)))" "sk_fits 20 1 (snd (schedule_subkey kr (kb, zero_subkey)))"
    "sk_fits 20 2 (snd (schedule_subkey kr (kb, zero_subkey)))"
    by (simp_all add: upt_rec)
  then show ?thesis
    by (subst schedule_subkey_fresh) (simp add: subkey_ok_def sk_fits_def sk_val_def word_less_bits del: power_numeral)
qed

text \<open>The eight subkeys one call of \<open>scheduleBuild\<close> stores, and the words it leaves in \<open>kb\<close>.\<close>

primrec subkeys8 :: "nat list \<Rightarrow> u16 list \<Rightarrow> nat \<Rightarrow> u16 list \<times> IceSubkey list" where
  "subkeys8 rot kb 0 = (kb, [])"
| "subkeys8 rot kb (Suc m) =
     (let (kb, sks) = subkeys8 rot kb m; (kb, sk) = schedule_subkey (rot ! m) (kb, zero_subkey)
      in (kb, sks @ [sk]))"

lemma subkeys8_ok: "length (snd (subkeys8 rot kb m)) = m \<and> list_all subkey_ok (snd (subkeys8 rot kb m))"
proof (induction m)
  case (Suc m)
  then show ?case using schedule_subkey_ok [of "rot ! m" "fst (subkeys8 rot kb m)" zero_subkey]
    by (simp add: split_beta Let_def)
qed simp

lemma scheduleBuild_eq:
  assumes "0 \<le> n" and "n + 8 \<le> int (length (ik_keysched k))"
  shows "scheduleBuild kb n rot k = Some (fst (subkeys8 rot kb 8),
    k\<lparr>ik_keysched := take (nat n) (ik_keysched k) @ snd (subkeys8 rot kb 8) @ drop (nat n + 8) (ik_keysched k)\<rparr>)"
proof -
  let ?ks = "ik_keysched k"
  define ks where "ks = (\<lambda>m. take (nat n) ?ks @ snd (subkeys8 rot kb m) @ drop (nat n + m) ?ks)"
  let ?P = "\<lambda>m s. s = (fst (subkeys8 rot kb m), k\<lparr>ik_keysched := ks m\<rparr>)"
  have "\<exists>s'. scheduleBuild kb n rot k = Some s' \<and> ?P 8 s'"
    unfolding scheduleBuild_def
  proof (rule foldM_upt)
    show "(kb, k) = (fst (subkeys8 rot kb 0), k\<lparr>ik_keysched := ks 0\<rparr>)" by (simp add: ks_def)
  next
    fix m s assume m: "m < 8" and s: "?P m s"
    have at: "nat (n + int m) = nat n + m" using assms(1) by linarith
    have len: "nat n + m < length ?ks" "length (take (nat n) ?ks) = nat n" using assms m by auto
    have "subkey (k\<lparr>ik_keysched := ks m\<rparr>) (n + int m) = Some (?ks ! (nat n + m))"
      using assms m len subkeys8_ok [of rot kb m]
      by (simp add: subkey_def ks_def at nth_append)
    moreover have "(ks m)[nat n + m := sk] = take (nat n) ?ks @ (snd (subkeys8 rot kb m) @ [sk]) @ drop (nat n + Suc m) ?ks" for sk
      using len subkeys8_ok [of rot kb m]
      by (simp add: ks_def list_update_append Cons_nth_drop_Suc [symmetric])
    ultimately show "\<exists>s'. (case s of (kb, k) \<Rightarrow> do {
         sk \<leftarrow> subkey k (n + int m);
         let (kb, sk) = schedule_subkey (rot ! m) (kb, sk);
         Some (kb, k\<lparr>ik_keysched := (ik_keysched k)[nat (n + int m) := sk]\<rparr>) }) = Some s' \<and> ?P (Suc m) s'"
      unfolding s by (simp add: at schedule_subkey_fresh [of _ _ "?ks ! _"] Let_def split_beta ks_def)
  qed simp
  then show ?thesis by (simp add: ks_def)
qed

text \<open>
  The schedule a key determines: for level \<open>n \<ge> 1\<close>, the first 8 bytes give the outermost
  two groups of eight rounds, the next 8 bytes the groups inside them, and so on.
\<close>

definition key_words :: "u8 list \<Rightarrow> nat \<Rightarrow> u16 list" where
  "key_words key a = map (\<lambda>j. push_bit 8 (ucast (key ! (a + 2 * j))) OR ucast (key ! (a + 2 * j + 1))) [3, 2, 1, 0]"

primrec schedule_halves :: "u8 list \<Rightarrow> nat \<Rightarrow> IceSubkey list \<times> IceSubkey list" where
  "schedule_halves key 0 = ([], [])"
| "schedule_halves key (Suc i) =
     (let (lo, hi) = schedule_halves key i;
          (kb, a) = subkeys8 ice_keyrot (key_words key (8 * i)) 8;
          (_, b) = subkeys8 (drop 8 ice_keyrot) kb 8
      in (lo @ a, b @ hi))"

definition key_schedule :: "u8 list \<Rightarrow> int \<Rightarrow> IceSubkey list" where
  "key_schedule key n =
     (if n < 1 then snd (subkeys8 ice_keyrot (key_words key 0) 8)
      else (case schedule_halves key (nat n) of (lo, hi) \<Rightarrow> lo @ hi))"

lemma load_kb_eq:
  assumes "a + 8 \<le> length key"
  shows "load_kb key (int a) = Some (key_words key a)"
proof -
  have "peek8 key (int a + int j) = Some (key ! (a + j))" if "j < 8" for j
    using assms that by (simp add: peek8_def nat_int_add)
  from this [of 0] this [of 1] this [of 2] this [of 3] this [of 4] this [of 5] this [of 6] this [of 7] show ?thesis
    by (simp add: load_kb_def key_words_def upt_rec numeral_eq_Suc add.assoc)
qed

lemma schedule_halves_ok:
  "length (fst (schedule_halves key i)) = 8 * i \<and> length (snd (schedule_halves key i)) = 8 * i \<and>
   list_all subkey_ok (fst (schedule_halves key i)) \<and> list_all subkey_ok (snd (schedule_halves key i))"
  by (induction i) (auto simp: split_beta Let_def subkeys8_ok)

lemma key_schedule_ok:
  "length (key_schedule key n) = (if n < 1 then 8 else 16 * nat n)" "list_all subkey_ok (key_schedule key n)"
  using schedule_halves_ok [of key "nat n"] subkeys8_ok [of _ _ 8]
  by (simp_all add: key_schedule_def split_beta)

lemma slice_split:
  assumes "a \<le> b" and "b \<le> d"
  shows "drop a (take d xs) = drop a (take b xs) @ drop b (take d xs)"
proof -
  have "take d xs = take b xs @ drop b (take d xs)"
    using append_take_drop_id [of b "take d xs"] assms by (simp add: min_def)
  then have "drop a (take d xs) = drop a (take b xs @ drop b (take d xs))" by simp
  then show ?thesis using assms by (cases "b \<le> length xs") (simp_all add: min_def)
qed

lemma set_key_step:
  fixes ks :: "IceSubkey list"
  assumes "16 * Suc i \<le> length ks" and "8 * Suc i \<le> length key" and "ik_rounds k = int (length ks)"
    and "ik_keysched k = fst (schedule_halves key i) @ drop (8 * i) (take (length ks - 8 * i) ks) @ snd (schedule_halves key i)"
  shows "do {
      kb \<leftarrow> load_kb key (int i * 8);
      (kb, k) \<leftarrow> scheduleBuild kb (int i * 8) ice_keyrot k;
      (_, k) \<leftarrow> scheduleBuild kb (ik_rounds k - 8 - int i * 8) (drop 8 ice_keyrot) k;
      Some k } = Some (k\<lparr>ik_keysched :=
        fst (schedule_halves key (Suc i)) @ drop (8 * Suc i) (take (length ks - 8 * Suc i) ks) @ snd (schedule_halves key (Suc i))\<rparr>)"
proof -
  let ?lo = "fst (schedule_halves key i)" and ?hi = "snd (schedule_halves key i)"
  define kb where "kb = key_words key (8 * i)"
  define A where "A = subkeys8 ice_keyrot kb 8"
  define B where "B = snd (subkeys8 (drop 8 ice_keyrot) (fst A) 8)"
  have len: "length ?lo = 8 * i" "length ?hi = 8 * i" "length (snd A) = 8" "length B = 8"
    using schedule_halves_ok [of key i] subkeys8_ok A_def B_def by blast+
  define M where "M = drop (8 * Suc i) (take (length ks - 8 * Suc i) ks)"
  define p where "p = drop (8 * i) (take (8 * Suc i) ks)"
  define q where "q = drop (length ks - 8 * Suc i) (take (length ks - 8 * i) ks)"
  have "drop (8 * i) (take (length ks - 8 * i) ks) = p @ drop (8 * Suc i) (take (length ks - 8 * i) ks)"
    unfolding p_def by (rule slice_split) (use assms(1) in simp_all)
  moreover have "drop (8 * Suc i) (take (length ks - 8 * i) ks) = M @ q"
    unfolding M_def q_def by (rule slice_split) (use assms(1) in simp_all)
  ultimately have mid: "drop (8 * i) (take (length ks - 8 * i) ks) = p @ M @ q" by simp
  have lens: "length p = 8" "length M = length ks - 16 * Suc i" "length q = 8"
    using assms(1) by (auto simp: p_def M_def q_def)
  have ks: "ik_keysched k = ?lo @ p @ M @ q @ ?hi" using assms(4) mid by simp
  have "load_kb key (int i * 8) = Some kb"
    using load_kb_eq [of "8 * i" key] assms(2) by (simp add: kb_def mult.commute)
  moreover have "scheduleBuild kb (int i * 8) ice_keyrot k = Some (fst A, k\<lparr>ik_keysched := ?lo @ snd A @ M @ q @ ?hi\<rparr>)"
    using scheduleBuild_eq [of "int i * 8" k kb ice_keyrot] ks len lens by (simp add: A_def nat_mult_distrib mult.commute)
  moreover have "scheduleBuild (fst A) (ik_rounds k - 8 - int i * 8) (drop 8 ice_keyrot) (k\<lparr>ik_keysched := ?lo @ snd A @ M @ q @ ?hi\<rparr>)
      = Some (fst (subkeys8 (drop 8 ice_keyrot) (fst A) 8), k\<lparr>ik_keysched := ?lo @ snd A @ M @ B @ ?hi\<rparr>)"
  proof -
    have n: "nat (int (length ks) - 8 - int i * 8) = 8 * i + 8 + length M" using assms(1) lens by simp
    then show ?thesis
      using scheduleBuild_eq [of "int (length ks) - 8 - int i * 8" "k\<lparr>ik_keysched := ?lo @ snd A @ M @ q @ ?hi\<rparr>" "fst A" "drop 8 ice_keyrot"]
        assms(1,3) len lens by (simp add: B_def)
  qed
  moreover have "schedule_halves key (Suc i) = (?lo @ snd A, B @ ?hi)"
    by (simp add: A_def B_def kb_def split_beta Let_def)
  ultimately show ?thesis by (simp add: M_def)
qed

lemma set_key_eq:
  assumes "ik_rounds k = (if n < 1 then 8 else 16 * n)" and "ik_size k = (if n < 1 then 1 else n)"
    and "length (ik_keysched k) = nat (ik_rounds k)" and "8 * max 1 n \<le> int (length key)"
  shows "set_key key k = Some (k\<lparr>ik_keysched := key_schedule key n\<rparr>)"
proof (cases "n < 1")
  case True
  then show ?thesis
    using assms load_kb_eq [of 0 key] scheduleBuild_eq [of 0 k "key_words key 0" ice_keyrot]
    by (simp add: set_key_def key_schedule_def)
next
  case False
  let ?ks = "ik_keysched k"
  let ?P = "\<lambda>i k'. k' = k\<lparr>ik_keysched :=
      fst (schedule_halves key i) @ drop (8 * i) (take (length ?ks - 8 * i) ?ks) @ snd (schedule_halves key i)\<rparr>"
  have rounds: "ik_rounds k = int (length ?ks)" "length ?ks = 16 * nat n" "ik_rounds k \<noteq> 8"
    using assms(1,3) False by auto
  have "\<exists>k'. foldM (\<lambda>i k. do {
            kb \<leftarrow> load_kb key (int i * 8);
            (kb, k) \<leftarrow> scheduleBuild kb (int i * 8) ice_keyrot k;
            (_, k) \<leftarrow> scheduleBuild kb (ik_rounds k - 8 - int i * 8) (drop 8 ice_keyrot) k;
            Some k }) [0..<nat n] k = Some k' \<and> ?P (nat n) k'"
  proof (rule foldM_upt, goal_cases)
    case (3 i k')
    have "16 * Suc i \<le> length ?ks" "8 * Suc i \<le> length key"
      using 3 rounds(2) assms(4) False by auto
    with 3 rounds(1) set_key_step [of i ?ks key k'] show ?case by simp
  qed simp_all
  moreover have "fst (schedule_halves key (nat n)) @ drop (8 * nat n) (take (length ?ks - 8 * nat n) ?ks)
      @ snd (schedule_halves key (nat n)) = key_schedule key n"
    using rounds(2) False by (simp add: key_schedule_def split_beta)
  ultimately show ?thesis
    unfolding set_key_def if_not_P [OF rounds(3)] using assms(2) False by simp
qed

subsection \<open>Building a key\<close>

definition static_ok :: "ice_static \<Rightarrow> bool" where
  "static_ok st \<longleftrightarrow>
     (if ice_sboxes_initialised st = 0 then map length (ice_sbox st) = [1024, 1024, 1024, 1024]
      else ice_sbox st = sbox_table)"

lemma sbox_shape: "map length (replicate 4 xs) = [length xs, length xs, length xs, length xs]"
  by (simp add: numeral_eq_Suc)

lemma static_ok_init: "static_ok ice_static_init"
  unfolding static_ok_def ice_static_init_def by (simp add: sbox_shape del: map_replicate)

lemma IceKey_ctor_eq:
  assumes "static_ok st" and "192 * n < 2 ^ 31"
  shows "\<exists>st'. IceKey_ctor mem n st =
      Some (\<lparr>ik_size = max 1 n, ik_rounds = (if n < 1 then 8 else 16 * n),
             ik_keysched = map mem [0..<if n < 1 then 8 else 16 * nat n]\<rparr>, st') \<and>
    ice_sbox st' = sbox_table \<and> ice_sboxes_initialised st' \<noteq> 0"
proof -
  have sb: "ice_sboxes_initialised st = 0 \<Longrightarrow> ice_sboxes_init (ice_sbox st) = Some sbox_table"
    using assms(1) ice_sboxes_init_table by (simp add: static_ok_def)
  have "1 \<le> n \<Longrightarrow> nat (16 * n) = 16 * nat n" by (simp add: nat_mult_distrib)
  then show ?thesis
    using assms sb by (auto simp: IceKey_ctor_def new_subkeys_def static_ok_def mult.commute max_def)
qed

lemma key_ready_after_set:
  assumes "static_ok st" and "192 * n < 2 ^ 31" and "8 * max 1 n \<le> int (length key)"
  shows "\<exists>k st' k'. IceKey_ctor mem n st = Some (k, st') \<and> set_key key k = Some k' \<and>
    key_ready st' k' \<and> static_ok st' \<and> ik_keysched k' = key_schedule key n \<and>
    ik_size k' = max 1 n \<and> ik_rounds k' = (if n < 1 then 8 else 16 * n)"
proof -
  define k where "k = \<lparr>ik_size = max 1 n, ik_rounds = (if n < 1 then 8 else 16 * n),
    ik_keysched = map mem [0..<if n < 1 then 8 else 16 * nat n]\<rparr>"
  obtain st' where ctor: "IceKey_ctor mem n st = Some (k, st')"
    and st': "ice_sbox st' = sbox_table" "ice_sboxes_initialised st' \<noteq> 0"
    using IceKey_ctor_eq [OF assms(1,2), of mem] k_def by blast
  have k: "ik_size k = max 1 n" "ik_rounds k = (if n < 1 then 8 else 16 * n)" "length (ik_keysched k) = nat (ik_rounds k)"
    by (simp_all add: k_def nat_mult_distrib)
  have "set_key key k = Some (k\<lparr>ik_keysched := key_schedule key n\<rparr>)"
    using set_key_eq [of k n key] k assms(3) by (auto simp: max_def)
  moreover have "key_ready st' (k\<lparr>ik_keysched := key_schedule key n\<rparr>)"
    using k st' key_schedule_ok [of key n] by (simp add: key_ready_def nat_mult_distrib)
  ultimately show ?thesis using ctor k st' by (auto simp: static_ok_def)
qed

subsection \<open>The interface to the packet handler\<close>

text \<open>
  What a user of a cipher relies on: a ready key encrypts and decrypts the first eight
  bytes at an address, and each direction undoes the other.
\<close>

locale block_cipher =
  fixes enc :: "'k \<Rightarrow> u8 list \<Rightarrow> u8 list option"
    and dec :: "'k \<Rightarrow> u8 list \<Rightarrow> u8 list option"
    and ready :: "'k \<Rightarrow> bool"
  assumes enc_then_dec: "ready k \<Longrightarrow> 8 \<le> length b \<Longrightarrow>
      \<exists>c. enc k b = Some c \<and> length c = 8 \<and> dec k (c @ rest) = Some (take 8 b)"
    and dec_then_enc: "ready k \<Longrightarrow> 8 \<le> length c \<Longrightarrow>
      \<exists>b. dec k c = Some b \<and> length b = 8 \<and> enc k (b @ rest) = Some (take 8 c)"
begin

lemma dec_total: "ready k \<Longrightarrow> 8 \<le> length c \<Longrightarrow> \<exists>b. dec k c = Some b \<and> length b = 8"
  using dec_then_enc by blast

lemma enc_total: "ready k \<Longrightarrow> 8 \<le> length b \<Longrightarrow> \<exists>c. enc k b = Some c \<and> length c = 8"
  using enc_then_dec by blast

lemma enc_inj:
  assumes "ready k" and "length b = 8" and "length b' = 8" and "enc k b = enc k b'"
  shows "b = b'"
  using enc_then_dec [OF assms(1), of b "[]"] enc_then_dec [OF assms(1), of b' "[]"] assms by auto

end

interpretation ice: block_cipher "case_prod encrypt" "case_prod decrypt" "case_prod key_ready"
  by unfold_locales (auto dest: decrypt_inverts encrypt_inverts)

subsection \<open>Properties\<close>

text \<open>
  C4: Decryption inverts encryption. For every level \<open>n\<close> the address space allows and every
  key of at least \<open>8 * max 1 n\<close> bytes, whatever the uninitialised schedule memory holds:
  constructing the key and setting it succeeds, every block encrypts to eight bytes that
  decrypt to it, and every block decrypts to eight bytes that encrypt to it; no table,
  schedule or buffer access is out of range.
\<close>

theorem ice_decrypt_encrypt:
  assumes "192 * n < 2 ^ 31" and "8 * max 1 n \<le> int (length key)" and "length b = 8"
  shows "\<exists>k0 st k c p. IceKey_ctor mem n ice_static_init = Some (k0, st) \<and> set_key key k0 = Some k \<and>
    encrypt st k b = Some c \<and> length c = 8 \<and> decrypt st k c = Some b \<and>
    decrypt st k b = Some p \<and> length p = 8 \<and> encrypt st k p = Some b"
proof -
  obtain k0 st k where k: "IceKey_ctor mem n ice_static_init = Some (k0, st)" "set_key key k0 = Some k" "key_ready st k"
    using key_ready_after_set [OF static_ok_init assms(1,2)] by blast
  moreover have "\<exists>c. encrypt st k b = Some c \<and> length c = 8 \<and> decrypt st k c = Some b"
    using decrypt_inverts [OF k(3), of b "[]"] assms(3) by simp
  moreover have "\<exists>p. decrypt st k b = Some p \<and> length p = 8 \<and> encrypt st k p = Some b"
    using encrypt_inverts [OF k(3), of b "[]"] assms(3) by simp
  ultimately show ?thesis by blast
qed

theorem ice_decrypt_encrypt_witness:
  "\<exists>k0 st k c p. IceKey_ctor (\<lambda>_. zero_subkey) 2 ice_static_init = Some (k0, st) \<and>
    set_key (replicate 16 0x43) k0 = Some k \<and>
    encrypt st k (replicate 8 7) = Some c \<and> length c = 8 \<and> decrypt st k c = Some (replicate 8 7) \<and>
    decrypt st k (replicate 8 7) = Some p \<and> length p = 8 \<and> encrypt st k p = Some (replicate 8 7)"
  by (rule ice_decrypt_encrypt) simp_all

text \<open>
  C35: \<open>set\<close> fills the whole schedule. The subkeys are a function of the key and the level
  only (nothing of the uninitialised memory survives), there are 8 of them for level 0
  and \<open>16 n\<close> for level \<open>n\<close>, each word has at most 20 bits, so every S-box index of
  \<open>ice_f\<close> is below 1024, and the S-boxes are initialised once.
\<close>

theorem ice_set_schedule:
  assumes "static_ok st" and "192 * n < 2 ^ 31" and "8 * max 1 n \<le> int (length key)"
  shows "\<exists>k0 st' k. IceKey_ctor mem n st = Some (k0, st') \<and> set_key key k0 = Some k \<and>
    ik_keysched k = key_schedule key n \<and> length (ik_keysched k) = (if n < 1 then 8 else 16 * nat n) \<and>
    list_all subkey_ok (ik_keysched k) \<and> static_ok st' \<and> keySize k = 8 * max 1 n \<and>
    (ice_sboxes_initialised st \<noteq> 0 \<longrightarrow> st' = st) \<and>
    (\<forall>p. \<forall>sk \<in> set (ik_keysched k). ice_f st' p sk \<noteq> None)"
proof -
  obtain k0 st' k where k: "IceKey_ctor mem n st = Some (k0, st')" "set_key key k0 = Some k" "key_ready st' k"
    "static_ok st'" "ik_keysched k = key_schedule key n" "ik_size k = max 1 n"
    using key_ready_after_set [OF assms] by blast
  moreover have "keySize k = 8 * max 1 n"
    using k(6) assms(2) by (simp add: keySize_def max_def)
  moreover have "ice_sboxes_initialised st \<noteq> 0 \<longrightarrow> st' = st"
    using k(1) by (auto simp: IceKey_ctor_def split: bind_splits prod.splits if_splits)
  moreover have "\<forall>p. \<forall>sk \<in> set (ik_keysched k). ice_f st' p sk \<noteq> None"
    using k(3) ice_f_round by (auto simp: key_ready_def list_all_iff)
  ultimately show ?thesis using key_schedule_ok [of key n] by simp
qed

theorem ice_set_schedule_witness:
  "\<exists>k0 st' k. IceKey_ctor (\<lambda>_. \<lparr>val0 = 1, val1 = 2, val2 = - 1\<rparr>) 2 ice_static_init = Some (k0, st') \<and>
    set_key (replicate 16 0x43) k0 = Some k \<and>
    ik_keysched k = key_schedule (replicate 16 0x43) 2 \<and> length (ik_keysched k) = 32"
  using ice_set_schedule [OF static_ok_init, of 2 "replicate 16 0x43" "\<lambda>_. \<lparr>val0 = 1, val1 = 2, val2 = - 1\<rparr>"] by auto

text \<open>
  C34: The table-driven round function computes the round of the algorithm: with the
  initialised tables and 20-bit subkeys, \<open>ice_f\<close> equals expansion, keyed exchange, subkey
  XOR, S-boxes and P-box in this order, where an S-box is the seventh power of a polynomial over
  the field of two elements, reduced by one of its four moduli, and the arithmetic is that of theory
  GaloisField, not the code's.
\<close>

theorem ice_f_reference:
  assumes "ice_sboxes_init (replicate 4 (replicate 1024 x)) = Some sb" and "ice_sbox st = sb" and "subkey_ok sk"
  shows "ice_f st p sk = Some (ice_round p sk)"
proof -
  have "ice_sboxes_init (replicate 4 (replicate 1024 x)) = Some sbox_table"
    by (rule ice_sboxes_init_table) (simp add: sbox_shape del: map_replicate)
  then show ?thesis using assms ice_f_round by simp
qed

theorem ice_f_reference_witness:
  "ice_f \<lparr>ice_sbox = sbox_table, ice_sboxes_initialised = 1\<rparr> 0xdeadbeef \<lparr>val0 = 0xfffff, val1 = 0x12345, val2 = 0xf0f0f\<rparr>
    = Some (ice_round 0xdeadbeef \<lparr>val0 = 0xfffff, val1 = 0x12345, val2 = 0xf0f0f\<rparr>)"
  by (rule ice_f_reference [of 0 sbox_table], rule ice_sboxes_init_table)
    (simp_all add: subkey_ok_def sbox_shape del: map_replicate)

text \<open>
  \<open>encrypt\<close> and \<open>decrypt\<close> are the Feistel network over the schedule, run forwards and
  backwards, with the halves exchanged on output, on big-endian words.
\<close>

theorem ice_feistel:
  assumes "key_ready st k"
  shows "encrypt st k (be_bytes l @ be_bytes r) =
      Some (case feistel (ik_keysched k) (l, r) of (l', r') \<Rightarrow> be_bytes r' @ be_bytes l') \<and>
    decrypt st k (be_bytes l @ be_bytes r) =
      Some (case feistel (rev (ik_keysched k)) (l, r) of (l', r') \<Rightarrow> be_bytes r' @ be_bytes l')"
  using encrypt_block [OF assms, of l r "[]"] decrypt_block [OF assms, of l r "[]"] by simp

theorem ice_feistel_witness:
  "encrypt \<lparr>ice_sbox = sbox_table, ice_sboxes_initialised = 1\<rparr>
      \<lparr>ik_size = 1, ik_rounds = 2, ik_keysched = [zero_subkey, zero_subkey]\<rparr> (be_bytes 1 @ be_bytes 2) =
    Some (case feistel [zero_subkey, zero_subkey] (1, 2) of (l', r') \<Rightarrow> be_bytes r' @ be_bytes l')"
  using ice_feistel [of "\<lparr>ice_sbox = sbox_table, ice_sboxes_initialised = 1\<rparr>"
      "\<lparr>ik_size = 1, ik_rounds = 2, ik_keysched = [zero_subkey, zero_subkey]\<rparr>" 1 2]
  by (simp add: key_ready_def zero_subkey_def subkey_ok_def)

text \<open>
  The destructor zeroes the whole key schedule before it is freed, and the size and
  the number of rounds with it.
\<close>

theorem ice_dtor_wipes:
  assumes "length (ik_keysched k) = nat (ik_rounds k)"
  shows "IceKey_dtor k = Some \<lparr>ik_size = 0, ik_rounds = 0, ik_keysched = replicate (nat (ik_rounds k)) zero_subkey\<rparr>"
proof -
  let ?N = "nat (ik_rounds k)"
  let ?P = "\<lambda>i ks. ks = replicate i zero_subkey @ drop i (ik_keysched k)"
  have "\<exists>ks. foldM (\<lambda>i ks. if i < length ks
      then Some (fold (\<lambda>j ks. ks[i := sk_set (ks ! i) j 0]) [0..<3] ks) else None) [0..<?N] (ik_keysched k) = Some ks \<and> ?P ?N ks"
  proof (rule foldM_upt, goal_cases)
    case (3 i ks)
    have wipe: "fold (\<lambda>j ks. ks[i := sk_set (ks ! i) j 0]) js ks = ks[i := fold (\<lambda>j sk. sk_set sk j 0) js (ks ! i)]"
      if "i < length ks" for js :: "nat list" and ks
      using that by (induction js arbitrary: ks) simp_all
    have i: "i < length ks" "i < length (ik_keysched k)" using 3 assms by simp_all
    moreover have "ks[i := zero_subkey] = replicate (Suc i) zero_subkey @ drop (Suc i) (ik_keysched k)"
      using 3 i(2) by (simp add: list_update_append Cons_nth_drop_Suc [symmetric] replicate_append_same [symmetric])
    ultimately show ?case by (simp add: wipe wipe_subkey del: upt_rec_numeral)
  qed simp_all
  then show ?thesis using assms by (simp add: IceKey_dtor_def)
qed

theorem ice_dtor_wipes_witness:
  "IceKey_dtor \<lparr>ik_size = 1, ik_rounds = 2, ik_keysched = [\<lparr>val0 = 7, val1 = 8, val2 = 9\<rparr>, zero_subkey]\<rparr> =
    Some \<lparr>ik_size = 0, ik_rounds = 0, ik_keysched = replicate 2 zero_subkey\<rparr>"
  by (subst ice_dtor_wipes) simp_all

text \<open>
  \<open>ice_perm32\<close> never reads beyond the 32 entries of \<open>ice_pbox\<close> and moves every input
  bit to its own output bit: it is a permutation of the 32 bit positions, so different
  words have different images.
\<close>

theorem ice_perm32_permutes:
  "\<exists>y. ice_perm32 x = Some y \<and> (\<forall>i < 32. bit y (pbox_pos ! i) = bit x i) \<and>
     distinct pbox_pos \<and> set pbox_pos = {0..<32} \<and> (ice_perm32 x' = Some y \<longleftrightarrow> x' = x)"
proof -
  have set: "distinct pbox_pos" "set pbox_pos = {0..<32}" by code_simp+
  have bits: "\<forall>i < 32. bit (P_box z) (pbox_pos ! i) = bit z i" for z
    using pbox_less pbox_from_pos by (simp add: bit_P_box)
  have "x' = x" if "P_box x' = P_box x"
  proof (rule bit_word_eqI)
    fix n assume "n < LENGTH(32)"
    then show "bit x' n = bit x n" using bits [of x] bits [of x'] that by simp
  qed
  then show ?thesis using set bits by (auto simp: ice_perm32_P_box)
qed

theorem ice_perm32_permutes_witness:
  "\<exists>y. ice_perm32 0x80000001 = Some y \<and> (\<forall>i < 32. bit y (pbox_pos ! i) = bit (0x80000001::u32) i)"
  using ice_perm32_permutes [of "0x80000001"] by blast

end
