(* ===== verification/Lzss.thy ===== *)
theory Lzss
  imports Prelude
begin

text \<open>
  The LZSS codec of \<^verbatim>\<open>lzss.cpp\<close> and \<^verbatim>\<open>lzss.h\<close>. The input and output buffers are byte
  blocks and pointers into them are offsets; \<open>base\<close> is the address of the input buffer,
  which decides the ring slot of each position. The hash chains are the doubly linked
  lists of the code: nodes live in the ring \<open>m_pHashTarget\<close> and a \<open>lzss_node_t *\<close> is the
  index of a node, \<open>None\<close> being the null pointer. \<open>None\<close> as the result of an operation is an
  access outside a buffer or a loop that does not end.

  The lemmas show that the hash chains stay acyclic and inside the window, that the
  compressor always returns, inside its output buffer, if it gets the memory it asks for, and
  that decompression inverts it. The memory is a parameter: the three \<open>malloc\<close> calls of the
  compressor may fail, and their results are used unchecked.
\<close>

subsection \<open>Data\<close>

definition LZSS_LOOKSHIFT :: nat where "LZSS_LOOKSHIFT = 4"
definition LZSS_LOOKAHEAD :: int where "LZSS_LOOKAHEAD = 2 ^ LZSS_LOOKSHIFT"
definition DEFAULT_LZSS_WINDOW_SIZE :: int where "DEFAULT_LZSS_WINDOW_SIZE = 4096"

text \<open>\<open>('S' << 24) | ('S' << 16) | ('Z' << 8) | 'L'\<close>, and \<open>sizeof (lzss_header_t)\<close>.\<close>

definition LZSS_ID :: u32 where
  "LZSS_ID = push_bit 24 0x53 OR push_bit 16 0x53 OR push_bit 8 0x5A OR 0x4C"

definition lzss_header_size :: nat where "lzss_header_size = 8"

record lzss_node_t =
  pData :: "nat option"
  pPrev :: "nat option"
  pNext :: "nat option"

record lzss_list_t =
  pStart :: "nat option"
  pEnd :: "nat option"

record CLZSS =
  m_pHashTable :: "lzss_list_t list"
  m_pHashTarget :: "lzss_node_t list"
  m_nWindowSize :: int

definition null_node :: lzss_node_t where
  "null_node = \<lparr>pData = None, pPrev = None, pNext = None\<rparr>"

definition null_list :: lzss_list_t where
  "null_list = \<lparr>pStart = None, pEnd = None\<rparr>"

definition CLZSS_ctor :: "int \<Rightarrow> CLZSS \<Rightarrow> CLZSS" where
  "CLZSS_ctor nWindowSize this = this\<lparr>m_nWindowSize := nWindowSize\<rparr>"

subsection \<open>The header\<close>

text \<open>A null \<open>pInput\<close> is the argument \<open>None\<close>.\<close>

definition IsCompressed :: "u8 list option \<Rightarrow> bool option" where
  "IsCompressed pInput = (case pInput of None \<Rightarrow> Some False
     | Some b \<Rightarrow> do { w \<leftarrow> load32 b 0; Some (w = LZSS_ID) })"

definition GetActualSize :: "u8 list option \<Rightarrow> u32 option" where
  "GetActualSize pInput = (case pInput of None \<Rightarrow> Some 0
     | Some b \<Rightarrow> do { w \<leftarrow> load32 b 0; if w = LZSS_ID then load32 b 4 else Some 0 })"

definition store32 :: "u8 list \<Rightarrow> int \<Rightarrow> u32 \<Rightarrow> u8 list option" where
  "store32 m a w = do {
     m \<leftarrow> poke8 m a (ucast w);
     m \<leftarrow> poke8 m (a + 1) (ucast (drop_bit 8 w));
     m \<leftarrow> poke8 m (a + 2) (ucast (drop_bit 16 w));
     poke8 m (a + 3) (ucast (drop_bit 24 w)) }"

subsection \<open>The hash chains\<close>

definition upd_node :: "nat \<Rightarrow> (lzss_node_t \<Rightarrow> lzss_node_t) \<Rightarrow> CLZSS \<Rightarrow> CLZSS option" where
  "upd_node a f z = (if a < length (m_pHashTarget z)
     then Some (z\<lparr>m_pHashTarget := (m_pHashTarget z)[a := f (m_pHashTarget z ! a)]\<rparr>) else None)"

definition node_at :: "CLZSS \<Rightarrow> nat \<Rightarrow> lzss_node_t option" where
  "node_at z a = (if a < length (m_pHashTarget z) then Some (m_pHashTarget z ! a) else None)"

definition upd_list :: "u8 \<Rightarrow> (lzss_list_t \<Rightarrow> lzss_list_t) \<Rightarrow> CLZSS \<Rightarrow> CLZSS" where
  "upd_list c f z = z\<lparr>m_pHashTable := (m_pHashTable z)[unat c := f (m_pHashTable z ! unat c)]\<rparr>"

definition list_at :: "CLZSS \<Rightarrow> u8 \<Rightarrow> lzss_list_t" where
  "list_at z c = m_pHashTable z ! unat c"

text \<open>\<open>(unsigned int)pData & (m_nWindowSize - 1)\<close>\<close>

definition targetindex :: "int \<Rightarrow> int \<Rightarrow> nat \<Rightarrow> nat" where
  "targetindex base w p = nat ((base + int p) AND (w - 1))"

definition BuildHash :: "u8 list \<Rightarrow> int \<Rightarrow> nat \<Rightarrow> CLZSS \<Rightarrow> CLZSS option" where
  "BuildHash inp base p z = do {
     let t = targetindex base (m_nWindowSize z) p;
     target \<leftarrow> node_at z t;
     z \<leftarrow> (case pData target of
         Some q \<Rightarrow> do {
           c \<leftarrow> peek8 inp (int q);
           case pPrev target of
             Some b \<Rightarrow> upd_node b (pNext_update (\<lambda>_. None)) (upd_list c (pEnd_update (\<lambda>_. Some b)) z)
           | None \<Rightarrow> Some (upd_list c (\<lambda>l. l\<lparr>pEnd := None, pStart := None\<rparr>) z) }
       | None \<Rightarrow> Some z);
     c \<leftarrow> peek8 inp (int p);
     let start = pStart (list_at z c);
     z \<leftarrow> upd_node t (\<lambda>n. n\<lparr>pData := Some p, pPrev := None, pNext := start\<rparr>) z;
     z \<leftarrow> (case start of
         Some s \<Rightarrow> upd_node s (pPrev_update (\<lambda>_. Some t)) z
       | None \<Rightarrow> Some (upd_list c (pEnd_update (\<lambda>_. Some t)) z));
     Some (upd_list c (pStart_update (\<lambda>_. Some t)) z) }"

subsection \<open>Finding a match\<close>

text \<open>The inner comparison loop: \<open>len\<close> is the counter \<open>length\<close>, \<open>m\<close> is \<open>matchLength\<close>.\<close>

fun match_length :: "u8 list \<Rightarrow> nat \<Rightarrow> nat \<Rightarrow> nat \<Rightarrow> nat \<Rightarrow> nat option" where
  "match_length inp p la 0 m = Some m"
| "match_length inp p la (Suc len) m = do {
     a \<leftarrow> peek8 inp (int (p + m));
     b \<leftarrow> peek8 inp (int (la + m));
     if a = b then match_length inp p la len (Suc m) else Some m }"

text \<open>The walk along the chain: \<open>best\<close> is \<open>(encodedLength, pEncodedPosition)\<close>.\<close>

partial_function (option) match_chain ::
  "u8 list \<Rightarrow> CLZSS \<Rightarrow> nat \<Rightarrow> nat \<Rightarrow> nat option \<Rightarrow> nat \<Rightarrow> nat option \<Rightarrow> (nat \<times> nat option) option" where
  "match_chain inp z la lookAheadLength pHash encodedLength pEncodedPosition =
     (case pHash of
        None \<Rightarrow> Some (encodedLength, pEncodedPosition)
      | Some a \<Rightarrow> Option.bind (node_at z a) (\<lambda>n.
          Option.bind (pData n) (\<lambda>p.
          Option.bind (match_length inp p la lookAheadLength 0) (\<lambda>matchLength.
            let better = encodedLength < matchLength;
                encodedLength = (if better then matchLength else encodedLength);
                pEncodedPosition = (if better then Some p else pEncodedPosition)
            in if matchLength = lookAheadLength then Some (encodedLength, pEncodedPosition)
               else match_chain inp z la lookAheadLength (pNext n) encodedLength pEncodedPosition))))"

subsection \<open>Compression\<close>

record comp_state =
  c_hash :: CLZSS
  c_out :: "u8 list"
  c_inputLength :: int
  c_pOutput :: nat
  c_pLookAhead :: nat
  c_pEncodedPosition :: "nat option"
  c_pCmdByte :: "nat option"
  c_putCmdByte :: int

text \<open>\<open>*pOutput++ = v\<close>\<close>

definition put_byte :: "u8 \<Rightarrow> comp_state \<Rightarrow> comp_state option" where
  "put_byte v s = do {
     out \<leftarrow> poke8 (c_out s) (int (c_pOutput s)) v;
     Some (s\<lparr>c_out := out, c_pOutput := Suc (c_pOutput s)\<rparr>) }"

text \<open>\<open>*pCmdByte = f (*pCmdByte)\<close>\<close>

definition upd_cmd :: "(u8 \<Rightarrow> u8) \<Rightarrow> comp_state \<Rightarrow> comp_state option" where
  "upd_cmd f s = do {
     a \<leftarrow> c_pCmdByte s;
     v \<leftarrow> peek8 (c_out s) (int a);
     out \<leftarrow> poke8 (c_out s) (int a) (f v);
     Some (s\<lparr>c_out := out\<rparr>) }"

text \<open>\<open>pCmdByte = pOutput++; *pCmdByte = v\<close>\<close>

definition new_cmd :: "u8 \<Rightarrow> comp_state \<Rightarrow> comp_state option" where
  "new_cmd v s = put_byte v (s\<lparr>c_pCmdByte := Some (c_pOutput s)\<rparr>)"

text \<open>A new command byte for every eighth token, and the counter of tokens.\<close>

definition ready_cmd :: "comp_state \<Rightarrow> comp_state option" where
  "ready_cmd s = do {
     s \<leftarrow> (if c_putCmdByte s = 0 then new_cmd 0 s else Some s);
     Some (s\<lparr>c_putCmdByte := (c_putCmdByte s + 1) AND 7\<rparr>) }"

text \<open>One iteration of the \<open>while (inputLength > 0)\<close> loop up to its last test.\<close>

definition compress_step :: "u8 list \<Rightarrow> int \<Rightarrow> comp_state \<Rightarrow> comp_state option" where
  "compress_step inp base s = do {
     s \<leftarrow> ready_cmd s;
     let la = c_pLookAhead s;
     let lookAheadLength = (if c_inputLength s < LZSS_LOOKAHEAD then c_inputLength s else LZSS_LOOKAHEAD);
     c \<leftarrow> peek8 inp (int la);
     (encodedLength, pos) \<leftarrow> match_chain inp (c_hash s) la (nat lookAheadLength)
        (pStart (list_at (c_hash s) c)) 0 (c_pEncodedPosition s);
     let s = s\<lparr>c_pEncodedPosition := pos\<rparr>;
     (encodedLength, s) \<leftarrow>
       (if 3 \<le> encodedLength then do {
          p \<leftarrow> pos;
          let d = int la - int p - 1;
          s \<leftarrow> upd_cmd (\<lambda>v. drop_bit 1 v OR 0x80) s;
          s \<leftarrow> put_byte (of_int (drop_bit LZSS_LOOKSHIFT d)) s;
          s \<leftarrow> put_byte (of_int (push_bit LZSS_LOOKSHIFT d OR (int encodedLength - 1))) s;
          Some (encodedLength, s) }
        else do {
          s \<leftarrow> upd_cmd (drop_bit 1) s;
          s \<leftarrow> put_byte c s;
          Some (1, s) });
     z \<leftarrow> foldM (BuildHash inp base) [la..<la + encodedLength] (c_hash s);
     Some (s\<lparr>c_hash := z, c_pLookAhead := la + encodedLength,
            c_inputLength := c_inputLength s - int encodedLength\<rparr>) }"

text \<open>The loop: the final state, and whether it ended without \<open>return NULL\<close>.\<close>

partial_function (option) compress_loop ::
  "u8 list \<Rightarrow> int \<Rightarrow> int \<Rightarrow> comp_state \<Rightarrow> (comp_state \<times> bool) option" where
  "compress_loop inp base pEndOut s =
     (if 0 < c_inputLength s then
        Option.bind (compress_step inp base s) (\<lambda>s.
          if pEndOut \<le> int (c_pOutput s) then Some (s, False)
          else compress_loop inp base pEndOut s)
      else Some (s, True))"

definition compress_finish :: "comp_state \<Rightarrow> comp_state option" where
  "compress_finish s = do {
     s \<leftarrow> (if c_putCmdByte s = 0 then new_cmd 1 s
           else upd_cmd (\<lambda>v. drop_bit (nat (7 - c_putCmdByte s)) (drop_bit 1 v OR 0x80)) s);
     s \<leftarrow> put_byte 0 s;
     put_byte 0 s }"

text \<open>
  What the \<open>malloc\<close> calls of the compressor do: \<open>al_out\<close> is the contents of the output buffer, or
  \<open>None\<close> if there is none; the other two say whether the work buffers are there. A missing buffer
  is a null pointer that \<open>memset\<close> or the header is written through. The size of the nodes is
  taken in unsigned arithmetic.
\<close>

record lzss_alloc =
  al_out :: "(nat \<Rightarrow> u8) option"
  al_table :: bool
  al_target :: bool

definition malloc_block :: "(nat \<Rightarrow> u8) option \<Rightarrow> int \<Rightarrow> u8 list option" where
  "malloc_block mem n = map_option (\<lambda>f. map f [0..<nat (n mod 2 ^ 32)]) mem"

definition malloc_zeroed :: "bool \<Rightarrow> nat \<Rightarrow> 'a \<Rightarrow> 'a list option" where
  "malloc_zeroed ok n null = (if ok then Some (replicate n null) else None)"

definition lzss_node_size :: int where "lzss_node_size = 12"

text \<open>
  The result is the object, the output buffer and the return value: \<open>None\<close> for \<open>NULL\<close>, and
  otherwise the value stored through \<open>pOutputSize\<close>. The first comparison is made on
  unsigned operands, since \<open>sizeof\<close> is unsigned.
\<close>

definition CompressNoAlloc ::
  "lzss_alloc \<Rightarrow> CLZSS \<Rightarrow> u8 list \<Rightarrow> int \<Rightarrow> int \<Rightarrow> u8 list option \<Rightarrow> (CLZSS \<times> u8 list option \<times> u32 option) option" where
  "CompressNoAlloc al this inp base inputLength pOutputBuf =
     (if (of_int inputLength :: u32) \<le> of_nat lzss_header_size + 8 then Some (this, pOutputBuf, None)
      else do {
        hashTable \<leftarrow> malloc_zeroed (al_table al) 256 null_list;
        hashTarget \<leftarrow> malloc_zeroed (al_target al) (nat (m_nWindowSize this * lzss_node_size mod 2 ^ 32 div lzss_node_size)) null_node;
        let z = this\<lparr>m_pHashTable := hashTable, m_pHashTarget := hashTarget\<rparr>;
        out \<leftarrow> pOutputBuf;
        let pEndOut = inputLength - int lzss_header_size - 8;
        out \<leftarrow> store32 out 0 LZSS_ID;
        out \<leftarrow> store32 out 4 (of_int inputLength);
        (s, ok) \<leftarrow> compress_loop inp base pEndOut
           \<lparr>c_hash = z, c_out = out, c_inputLength = inputLength, c_pOutput = lzss_header_size,
            c_pLookAhead = 0, c_pEncodedPosition = None, c_pCmdByte = None, c_putCmdByte = 0\<rparr>;
        if \<not> ok \<or> c_inputLength s \<noteq> 0 then Some (c_hash s, Some (c_out s), None)
        else do {
          s \<leftarrow> compress_finish s;
          Some (c_hash s, Some (c_out s), Some (of_nat (c_pOutput s))) } })"

definition Compress ::
  "lzss_alloc \<Rightarrow> CLZSS \<Rightarrow> u8 list \<Rightarrow> int \<Rightarrow> int \<Rightarrow> (CLZSS \<times> (u8 list \<times> u32) option) option" where
  "Compress al this inp base inputLength = do {
     (z, buf, final) \<leftarrow> CompressNoAlloc al this inp base inputLength (malloc_block (al_out al) inputLength);
     case final of
       None \<Rightarrow> Some (z, None)
     | Some n \<Rightarrow> do { out \<leftarrow> buf; Some (z, Some (out, n)) } }"

subsection \<open>Decompression\<close>

text \<open>The copy loop: \<open>*pOutput++ = *pSource++\<close>, \<open>count\<close> times.\<close>

fun copy_back :: "nat \<Rightarrow> int \<Rightarrow> u8 list \<Rightarrow> int \<Rightarrow> (u8 list \<times> int) option" where
  "copy_back 0 src out dst = Some (out, dst)"
| "copy_back (Suc n) src out dst = do {
     v \<leftarrow> peek8 out src;
     out \<leftarrow> poke8 out dst v;
     copy_back n (src + 1) out (dst + 1) }"

partial_function (option) uncompress_loop ::
  "u8 list \<Rightarrow> int \<Rightarrow> u8 list \<Rightarrow> int \<Rightarrow> u32 \<Rightarrow> int \<Rightarrow> int \<Rightarrow> (u8 list \<times> u32) option" where
  "uncompress_loop inp pIn out pOut totalBytes cmdByte getCmdByte =
     Option.bind (if getCmdByte = 0 then map_option (\<lambda>c. (uint c, pIn + 1)) (peek8 inp pIn)
                  else Some (cmdByte, pIn)) (\<lambda>(cmdByte, pIn).
     let getCmdByte = (getCmdByte + 1) AND 7 in
     if cmdByte AND 1 \<noteq> 0 then
       Option.bind (peek8 inp pIn) (\<lambda>b0.
       Option.bind (peek8 inp (pIn + 1)) (\<lambda>b1.
         let position = push_bit LZSS_LOOKSHIFT (uint b0) OR drop_bit LZSS_LOOKSHIFT (uint b1);
             count = (uint b1 AND 0x0F) + 1
         in if count = 1 then Some (out, totalBytes)
            else Option.bind (copy_back (nat count) (pOut - position - 1) out pOut) (\<lambda>(out, pOut).
              uncompress_loop inp (pIn + 2) out pOut (totalBytes + of_int count) (drop_bit 1 cmdByte) getCmdByte)))
     else
       Option.bind (peek8 inp pIn) (\<lambda>v.
       Option.bind (poke8 out pOut v) (\<lambda>out.
         uncompress_loop inp (pIn + 1) out (pOut + 1) (totalBytes + 1) (drop_bit 1 cmdByte) getCmdByte)))"

definition Uncompress :: "u8 list option \<Rightarrow> u8 list \<Rightarrow> (u8 list \<times> u32) option" where
  "Uncompress pInput pOutput = do {
     actualSize \<leftarrow> GetActualSize pInput;
     if actualSize = 0 then Some (pOutput, 0)
     else do {
       inp \<leftarrow> pInput;
       (out, totalBytes) \<leftarrow> uncompress_loop inp (int lzss_header_size) pOutput 0 0 0 0;
       if totalBytes \<noteq> actualSize then Some (out, 0) else Some (out, totalBytes) } }"

subsection \<open>The hash chains stay well formed\<close>

text \<open>
  \<open>hash_inv inp base w la z\<close>: every occupied slot holds a position of the last \<open>w\<close> bytes
  before \<open>la\<close>, in the slot its address selects; \<open>pNext\<close> leads to a strictly older position
  whose \<open>pPrev\<close> leads back; \<open>pPrev\<close> leads to a newer one; a list starts at a node without
  predecessor that holds an occurrence of the list's byte.
\<close>

definition live :: "CLZSS \<Rightarrow> nat \<Rightarrow> nat \<Rightarrow> bool" where
  "live z a p \<longleftrightarrow> a < length (m_pHashTarget z) \<and> pData (m_pHashTarget z ! a) = Some p"

definition hash_inv :: "u8 list \<Rightarrow> int \<Rightarrow> nat \<Rightarrow> nat \<Rightarrow> CLZSS \<Rightarrow> bool" where
  "hash_inv inp base w la z \<longleftrightarrow>
     length (m_pHashTable z) = 256 \<and> length (m_pHashTarget z) = w \<and> m_nWindowSize z = int w \<and>
     (\<forall>a p. live z a p \<longrightarrow> p < la \<and> la \<le> p + w \<and> targetindex base (int w) p = a) \<and>
     (\<forall>a p b. live z a p \<longrightarrow> pNext (m_pHashTarget z ! a) = Some b \<longrightarrow>
        (\<exists>q. live z b q \<and> q < p \<and> pPrev (m_pHashTarget z ! b) = Some a)) \<and>
     (\<forall>a p b. live z a p \<longrightarrow> pPrev (m_pHashTarget z ! a) = Some b \<longrightarrow> (\<exists>q. live z b q \<and> p < q)) \<and>
     (\<forall>c s. pStart (list_at z c) = Some s \<longrightarrow>
        (\<exists>p. live z s p \<and> inp ! p = c \<and> pPrev (m_pHashTarget z ! s) = None))"

lemma targetindex_mod: "targetindex base (2 ^ k) p = nat ((base + int p) mod 2 ^ k)"
  by (simp add: targetindex_def take_bit_eq_mod flip: mask_eq_exp_minus_1 take_bit_eq_mask)

lemma targetindex_less: "targetindex base (2 ^ k) p < 2 ^ k"
  by (simp add: targetindex_mod nat_less_iff)

text \<open>The slot of the next position is free or holds the oldest position of the window.\<close>

lemma same_slot:
  assumes "targetindex base (2 ^ k) q = targetindex base (2 ^ k) la" and "q < la" and "la \<le> q + 2 ^ k"
  shows "la = q + 2 ^ k"
proof -
  have "(base + int q) mod 2 ^ k = (base + int la) mod 2 ^ k"
    using assms(1) by (simp add: targetindex_mod eq_nat_nat_iff)
  then have "2 ^ k dvd int la - int q"
    by (metis add_diff_cancel_left mod_eq_dvd_iff)
  moreover have "0 < int la - int q" "int la - int q \<le> int (2 ^ k)" using assms(2,3) by linarith+
  ultimately have "int la - int q = int (2 ^ k)" using zdvd_imp_le [of "2 ^ k" "int la - int q"] by simp
  then show ?thesis by linarith
qed

lemma list_at_upd: "length (m_pHashTable z) = 256 \<Longrightarrow>
    list_at (upd_list c f z) c' = (if c = c' then f (list_at z c) else list_at z c')"
  using unsigned_less [of c, where 'a = nat] unsigned_less [of c', where 'a = nat] by (auto simp: list_at_def upd_list_def nth_list_update word_unat_eq_iff)

lemma upd_list_simps [simp]:
  "m_pHashTarget (upd_list c f z) = m_pHashTarget z" "m_nWindowSize (upd_list c f z) = m_nWindowSize z"
  "length (m_pHashTable (upd_list c f z)) = length (m_pHashTable z)" "node_at (upd_list c f z) a = node_at z a"
  by (simp_all add: upd_list_def node_at_def)

lemma hash_inv_lens: "hash_inv inp base w la z \<Longrightarrow>
    length (m_pHashTable z) = 256 \<and> length (m_pHashTarget z) = w \<and> m_nWindowSize z = int w"
  by (simp add: hash_inv_def)

lemma hash_inv_live: "hash_inv inp base w la z \<Longrightarrow> live z a p \<Longrightarrow>
    p < la \<and> la \<le> p + w \<and> targetindex base (int w) p = a"
  by (simp add: hash_inv_def)

lemma hash_inv_next: "hash_inv inp base w la z \<Longrightarrow> live z a p \<Longrightarrow> pNext (m_pHashTarget z ! a) = Some b \<Longrightarrow>
    \<exists>q. live z b q \<and> q < p \<and> pPrev (m_pHashTarget z ! b) = Some a"
  unfolding hash_inv_def by blast

lemma hash_inv_prev: "hash_inv inp base w la z \<Longrightarrow> live z a p \<Longrightarrow> pPrev (m_pHashTarget z ! a) = Some b \<Longrightarrow>
    \<exists>q. live z b q \<and> p < q"
  unfolding hash_inv_def by blast

lemma hash_inv_start: "hash_inv inp base w la z \<Longrightarrow> pStart (list_at z c) = Some s \<Longrightarrow>
    \<exists>p. live z s p \<and> inp ! p = c \<and> pPrev (m_pHashTarget z ! s) = None"
  unfolding hash_inv_def by blast

lemma live_inj: "live z a p \<Longrightarrow> live z a q \<Longrightarrow> p = q"
  by (simp add: live_def)

text \<open>The first half of \<open>BuildHash\<close> unlinks slot \<open>t\<close>: nothing refers to it any more.\<close>

definition evict :: "u8 list \<Rightarrow> nat \<Rightarrow> CLZSS \<Rightarrow> CLZSS option" where
  "evict inp t z = do {
     target \<leftarrow> node_at z t;
     case pData target of
         Some q \<Rightarrow> do {
           c \<leftarrow> peek8 inp (int q);
           case pPrev target of
             Some b \<Rightarrow> upd_node b (pNext_update (\<lambda>_. None)) (upd_list c (pEnd_update (\<lambda>_. Some b)) z)
           | None \<Rightarrow> Some (upd_list c (\<lambda>l. l\<lparr>pEnd := None, pStart := None\<rparr>) z) }
       | None \<Rightarrow> Some z }"

definition unlinked :: "u8 list \<Rightarrow> int \<Rightarrow> nat \<Rightarrow> nat \<Rightarrow> nat \<Rightarrow> CLZSS \<Rightarrow> bool" where
  "unlinked inp base w la t z \<longleftrightarrow>
     length (m_pHashTable z) = 256 \<and> length (m_pHashTarget z) = w \<and> m_nWindowSize z = int w \<and>
     (\<forall>a p. a \<noteq> t \<longrightarrow> live z a p \<longrightarrow> p < la \<and> la < p + w \<and> targetindex base (int w) p = a) \<and>
     (\<forall>a p b. a \<noteq> t \<longrightarrow> live z a p \<longrightarrow> pNext (m_pHashTarget z ! a) = Some b \<longrightarrow> b \<noteq> t \<and>
        (\<exists>q. live z b q \<and> q < p \<and> pPrev (m_pHashTarget z ! b) = Some a)) \<and>
     (\<forall>a p b. a \<noteq> t \<longrightarrow> live z a p \<longrightarrow> pPrev (m_pHashTarget z ! a) = Some b \<longrightarrow> b \<noteq> t \<and> (\<exists>q. live z b q \<and> p < q)) \<and>
     (\<forall>c s. pStart (list_at z c) = Some s \<longrightarrow> s \<noteq> t \<and>
        (\<exists>p. live z s p \<and> inp ! p = c \<and> pPrev (m_pHashTarget z ! s) = None))"

lemma live_others_younger:
  assumes "hash_inv inp base w la z" and "w = 2 ^ k" and "t = targetindex base (int w) la"
    and "live z a p" and "a \<noteq> t"
  shows "la < p + w"
proof (rule ccontr)
  assume "\<not> la < p + w"
  moreover have "la \<le> p + w" "targetindex base (int w) p = a" using assms(1,4) by (auto simp: hash_inv_def)
  ultimately have "la = p + w" by linarith
  moreover have "targetindex base (int w) (p + w) = targetindex base (int w) p"
    using assms(2) by (simp add: targetindex_mod add.assoc [symmetric])
  ultimately show False using \<open>targetindex base (int w) p = a\<close> assms(3,5) by simp
qed

lemma unlinkedI:
  assumes "length (m_pHashTable z) = 256 \<and> length (m_pHashTarget z) = w \<and> m_nWindowSize z = int w"
    and "\<And>a p. a \<noteq> t \<Longrightarrow> live z a p \<Longrightarrow> p < la \<and> la < p + w \<and> targetindex base (int w) p = a"
    and "\<And>a p b. a \<noteq> t \<Longrightarrow> live z a p \<Longrightarrow> pNext (m_pHashTarget z ! a) = Some b \<Longrightarrow> b \<noteq> t \<and>
        (\<exists>q. live z b q \<and> q < p \<and> pPrev (m_pHashTarget z ! b) = Some a)"
    and "\<And>a p b. a \<noteq> t \<Longrightarrow> live z a p \<Longrightarrow> pPrev (m_pHashTarget z ! a) = Some b \<Longrightarrow> b \<noteq> t \<and> (\<exists>q. live z b q \<and> p < q)"
    and "\<And>c s. pStart (list_at z c) = Some s \<Longrightarrow> s \<noteq> t \<and>
        (\<exists>p. live z s p \<and> inp ! p = c \<and> pPrev (m_pHashTarget z ! s) = None)"
  shows "unlinked inp base w la t z"
  unfolding unlinked_def using assms by blast

lemma evict_unlinks:
  assumes inv: "hash_inv inp base w la z" and w: "w = 2 ^ k" and t: "t = targetindex base (int w) la"
    and la: "la < length inp"
  shows "\<exists>z'. evict inp t z = Some z' \<and> unlinked inp base w la t z'"
proof -
  note young = live_others_younger [OF inv w t]
  note lens = hash_inv_lens [OF inv] and liv = hash_inv_live [OF inv] and nxt = hash_inv_next [OF inv]
    and prv = hash_inv_prev [OF inv] and sta = hash_inv_start [OF inv]
  have tw: "t < w" "t < length (m_pHashTarget z)" using lens w t targetindex_less [of base k la] by simp_all
  let ?n = "m_pHashTarget z ! t"
  show ?thesis
  proof (cases "pData ?n")
    case None
    then have not_t: "\<not> live z t p" for p by (simp add: live_def)
    have "unlinked inp base w la t z"
    proof (rule unlinkedI [OF lens])
      show "b \<noteq> t \<and> (\<exists>q. live z b q \<and> q < p \<and> pPrev (m_pHashTarget z ! b) = Some a)"
        if "live z a p" "pNext (m_pHashTarget z ! a) = Some b" for a p b
        using nxt [OF that] not_t by blast
      show "b \<noteq> t \<and> (\<exists>q. live z b q \<and> p < q)"
        if "live z a p" "pPrev (m_pHashTarget z ! a) = Some b" for a p b
        using prv [OF that] not_t by blast
      show "s \<noteq> t \<and> (\<exists>p. live z s p \<and> inp ! p = c \<and> pPrev (m_pHashTarget z ! s) = None)"
        if "pStart (list_at z c) = Some s" for c s
        using sta [OF that] not_t by blast
    qed (use liv young in blast)
    with None tw show ?thesis by (simp add: evict_def node_at_def)
  next
    case (Some q)
    then have live_t: "live z t q" using tw by (simp add: live_def)
    have q: "q < la" "la \<le> q + w" "targetindex base (int w) q = t" using liv [OF live_t] by auto
    have lq: "la = q + w" using same_slot [of base k q la] q w t by simp
    have old: "live z a p \<Longrightarrow> q \<le> p" for a p
      using young [of a p] lq live_inj [OF live_t] by (cases "a = t") auto
    have no_prev: "live z a p \<Longrightarrow> pPrev (m_pHashTarget z ! a) \<noteq> Some t" for a p
      using prv [of a p t] old [of a p] live_inj [OF live_t] by force
    have peek: "peek8 inp (int q) = Some (inp ! q)" using q la by simp
    show ?thesis
    proof (cases "pPrev ?n")
      case None
      let ?z = "upd_list (inp ! q) (\<lambda>l. l\<lparr>pEnd := None, pStart := None\<rparr>) z"
      have no_next: "live z a p \<Longrightarrow> pNext (m_pHashTarget z ! a) \<noteq> Some t" for a p
        using nxt [of a p t] None by auto
      have lv: "live ?z a p = live z a p" for a p by (simp add: live_def)
      have ls: "pStart (list_at ?z c) = Some s \<Longrightarrow> s \<noteq> t \<and> pStart (list_at z c) = Some s" for c s
        using lens sta [of c s] live_inj [OF live_t] by (auto simp: list_at_upd split: if_splits)
      have "unlinked inp base w la t ?z"
      proof (rule unlinkedI, unfold lv upd_list_simps)
        show "b \<noteq> t \<and> (\<exists>q. live z b q \<and> q < p \<and> pPrev (m_pHashTarget z ! b) = Some a)"
          if "live z a p" "pNext (m_pHashTarget z ! a) = Some b" for a p b
          using nxt [OF that] no_next that by blast
        show "b \<noteq> t \<and> (\<exists>q. live z b q \<and> p < q)"
          if "live z a p" "pPrev (m_pHashTarget z ! a) = Some b" for a p b
          using prv [OF that] no_prev that by blast
        show "s \<noteq> t \<and> (\<exists>p. live z s p \<and> inp ! p = c \<and> pPrev (m_pHashTarget z ! s) = None)"
          if "pStart (list_at ?z c) = Some s" for c s
          using ls [OF that] sta by blast
      qed (use lens liv young in blast)+
      with Some None peek tw show ?thesis by (simp add: evict_def node_at_def)
    next
      case prev: (Some b)
      obtain r where r: "live z b r" "q < r" using prv [OF live_t prev] by blast
      then have bw: "b < length (m_pHashTarget z)" "b \<noteq> t" using live_inj [OF live_t] by (auto simp: live_def)
      let ?z = "(upd_list (inp ! q) (pEnd_update (\<lambda>_. Some b)) z)\<lparr>m_pHashTarget :=
          (m_pHashTarget z)[b := (m_pHashTarget z ! b)\<lparr>pNext := None\<rparr>]\<rparr>"
      have nd: "pNext (m_pHashTarget ?z ! a) = (if a = b then None else pNext (m_pHashTarget z ! a))"
        "pPrev (m_pHashTarget ?z ! a) = pPrev (m_pHashTarget z ! a)" for a
        using bw by (simp_all add: nth_list_update)
      have lv: "live ?z a p = live z a p" for a p
        using bw by (auto simp: live_def nth_list_update)
      have ls: "pStart (list_at ?z c) = pStart (list_at z c)" for c
        using lens list_at_upd [of z "inp ! q" "pEnd_update (\<lambda>_. Some b)" c]
        by (auto simp: list_at_def split: if_splits)
      have no_next: "a \<noteq> b \<Longrightarrow> live z a p \<Longrightarrow> pNext (m_pHashTarget z ! a) \<noteq> Some t" for a p
        using nxt [of a p t] prev by auto
      have no_start: "pStart (list_at z c) \<noteq> Some t" for c
        using sta [of c t] prev by auto
      have lens': "length (m_pHashTable ?z) = 256 \<and> length (m_pHashTarget ?z) = w \<and> m_nWindowSize ?z = int w"
        using lens by simp
      have "unlinked inp base w la t ?z"
      proof (rule unlinkedI, unfold lv ls nd)
        show "e \<noteq> t \<and> (\<exists>q. live z e q \<and> q < p \<and> pPrev (m_pHashTarget z ! e) = Some a)"
          if "live z a p" "(if a = b then None else pNext (m_pHashTarget z ! a)) = Some e" for a p e
          using that nxt [of a p e] no_next [of a p] by (auto split: if_splits)
        show "e \<noteq> t \<and> (\<exists>q. live z e q \<and> p < q)"
          if "live z a p" "pPrev (m_pHashTarget z ! a) = Some e" for a p e
          using prv [OF that] no_prev that by blast
        show "s \<noteq> t \<and> (\<exists>p. live z s p \<and> inp ! p = c \<and> pPrev (m_pHashTarget z ! s) = None)"
          if "pStart (list_at z c) = Some s" for c s
          using sta [OF that] no_start that by blast
      qed (use lens' liv young in blast)+
      with Some prev peek tw bw show ?thesis by (simp add: evict_def node_at_def upd_node_def)
    qed
  qed
qed

text \<open>The second half of \<open>BuildHash\<close> puts position \<open>p\<close> in slot \<open>t\<close>, at the front of its list.\<close>

definition enlist :: "u8 list \<Rightarrow> nat \<Rightarrow> nat \<Rightarrow> CLZSS \<Rightarrow> CLZSS option" where
  "enlist inp t p z = do {
     c \<leftarrow> peek8 inp (int p);
     let start = pStart (list_at z c);
     z \<leftarrow> upd_node t (\<lambda>n. n\<lparr>pData := Some p, pPrev := None, pNext := start\<rparr>) z;
     z \<leftarrow> (case start of
         Some s \<Rightarrow> upd_node s (pPrev_update (\<lambda>_. Some t)) z
       | None \<Rightarrow> Some (upd_list c (pEnd_update (\<lambda>_. Some t)) z));
     Some (upd_list c (pStart_update (\<lambda>_. Some t)) z) }"

lemma BuildHash_halves:
  "BuildHash inp base p z = (let t = targetindex base (m_nWindowSize z) p in do { z \<leftarrow> evict inp t z; enlist inp t p z })"
  unfolding BuildHash_def evict_def enlist_def by (simp add: Let_def bind_assoc)

lemma hash_invI:
  assumes "length (m_pHashTable z) = 256 \<and> length (m_pHashTarget z) = w \<and> m_nWindowSize z = int w"
    and "\<And>a p. live z a p \<Longrightarrow> p < la \<and> la \<le> p + w \<and> targetindex base (int w) p = a"
    and "\<And>a p b. live z a p \<Longrightarrow> pNext (m_pHashTarget z ! a) = Some b \<Longrightarrow>
        \<exists>q. live z b q \<and> q < p \<and> pPrev (m_pHashTarget z ! b) = Some a"
    and "\<And>a p b. live z a p \<Longrightarrow> pPrev (m_pHashTarget z ! a) = Some b \<Longrightarrow> \<exists>q. live z b q \<and> p < q"
    and "\<And>c s. pStart (list_at z c) = Some s \<Longrightarrow>
        \<exists>p. live z s p \<and> inp ! p = c \<and> pPrev (m_pHashTarget z ! s) = None"
  shows "hash_inv inp base w la z"
  unfolding hash_inv_def using assms by blast

lemma enlist_inv:
  assumes un: "unlinked inp base w la t z" and t: "t = targetindex base (int w) la" "t < w"
    and la: "la < length inp"
  shows "\<exists>z'. enlist inp t la z = Some z' \<and> hash_inv inp base w (Suc la) z'"
proof -
  define c where "c = inp ! la"
  define start where "start = pStart (list_at z c)"
  define H where "H = m_pHashTarget z"
  define H1 where "H1 = H[t := (H ! t)\<lparr>pData := Some la, pPrev := None, pNext := start\<rparr>]"
  define H2 where "H2 = (case start of Some s \<Rightarrow> H1[s := (H1 ! s)\<lparr>pPrev := Some t\<rparr>] | None \<Rightarrow> H1)"
  from un have lens: "length (m_pHashTable z) = 256" "length H = w" "m_nWindowSize z = int w"
    and liv: "\<And>a p. a \<noteq> t \<Longrightarrow> live z a p \<Longrightarrow> p < la \<and> la < p + w \<and> targetindex base (int w) p = a"
    and nxt: "\<And>a p b. a \<noteq> t \<Longrightarrow> live z a p \<Longrightarrow> pNext (H ! a) = Some b \<Longrightarrow> b \<noteq> t \<and>
        (\<exists>q. live z b q \<and> q < p \<and> pPrev (H ! b) = Some a)"
    and prv: "\<And>a p b. a \<noteq> t \<Longrightarrow> live z a p \<Longrightarrow> pPrev (H ! a) = Some b \<Longrightarrow> b \<noteq> t \<and> (\<exists>q. live z b q \<and> p < q)"
    and sta: "\<And>c s. pStart (list_at z c) = Some s \<Longrightarrow> s \<noteq> t \<and>
        (\<exists>p. live z s p \<and> inp ! p = c \<and> pPrev (H ! s) = None)"
    unfolding unlinked_def H_def by blast+
  have start_ok: "start = Some s \<Longrightarrow> s \<noteq> t \<and> s < w \<and> (\<exists>p. live z s p \<and> inp ! p = c \<and> pPrev (H ! s) = None)" for s
    using sta [of c s] lens by (auto simp: start_def live_def H_def)
  have nd: "a < w \<Longrightarrow> pData (H2 ! a) = (if a = t then Some la else pData (H ! a))"
    "a < w \<Longrightarrow> pNext (H2 ! a) = (if a = t then start else pNext (H ! a))"
    "a < w \<Longrightarrow> pPrev (H2 ! a) = (if a = t then None else if start = Some a then Some t else pPrev (H ! a))" for a
    using start_ok lens(2) t(2) by (auto simp: H2_def H1_def nth_list_update split: option.splits)
  have len2: "length H2 = w" using lens by (simp add: H2_def H1_def split: option.split)
  obtain z' where z': "enlist inp t la z = Some z'" "m_pHashTarget z' = H2" "m_nWindowSize z' = int w"
      "length (m_pHashTable z') = 256" "\<And>c'. pStart (list_at z' c') = (if c' = c then Some t else pStart (list_at z c'))"
  proof -
    have "list_at (z\<lparr>m_pHashTarget := K\<rparr>) c' = list_at z c'" for K c' by (simp add: list_at_def)
    moreover have "peek8 inp (int la) = Some c" using la by (simp add: c_def)
    ultimately have "\<exists>z'. enlist inp t la z = Some z' \<and> m_pHashTarget z' = H2 \<and> m_nWindowSize z' = int w \<and>
      length (m_pHashTable z') = 256 \<and> (\<forall>c'. pStart (list_at z' c') = (if c' = c then Some t else pStart (list_at z c')))"
      using lens t(2) start_ok
      by (cases start) (auto simp: enlist_def upd_node_def start_def [symmetric] Let_def list_at_upd H_def [symmetric] H1_def H2_def)
    then show ?thesis using that by blast
  qed
  have lv: "live z' a p \<longleftrightarrow> (if a = t then p = la else live z a p)" for a p
    using z'(2) nd(1) len2 lens(2) t(2) by (auto simp: live_def H_def)
  have aw: "live z a p \<Longrightarrow> a < w" for a p using lens(2) by (simp add: live_def H_def)
  have "hash_inv inp base w (Suc la) z'"
  proof (rule hash_invI, unfold z'(2) lv)
    show "p < Suc la \<and> Suc la \<le> p + w \<and> targetindex base (int w) p = a"
      if "if a = t then p = la else live z a p" for a p
      using that liv [of a p] t by (auto split: if_splits)
    show "\<exists>q. (if b = t then q = la else live z b q) \<and> q < p \<and> pPrev (H2 ! b) = Some a"
      if "if a = t then p = la else live z a p" "pNext (H2 ! a) = Some b" for a p b
    proof (cases "a = t")
      case True
      then have s: "start = Some b" using that nd(2) t(2) by simp
      then obtain q where "live z b q" "b \<noteq> t" "b < w" using start_ok by blast
      with s True that liv nd(3) show ?thesis by auto
    next
      case False
      then have live: "live z a p" and next_: "pNext (H ! a) = Some b" using that nd(2) aw by auto
      from nxt [OF False live next_] obtain q where q: "b \<noteq> t" "live z b q" "q < p" "pPrev (H ! b) = Some a" by blast
      then have "start \<noteq> Some b" using start_ok by fastforce
      with q nd(3) aw show ?thesis by auto
    qed
    show "\<exists>q. (if b = t then q = la else live z b q) \<and> p < q"
      if "if a = t then p = la else live z a p" "pPrev (H2 ! a) = Some b" for a p b
    proof (cases "a = t")
      case True
      then show ?thesis using that nd(3) t(2) by simp
    next
      case False
      then have live: "live z a p" using that by simp
      have "start = Some a \<and> b = t \<or> pPrev (H ! a) = Some b"
        using that(2) nd(3) [OF aw [OF live]] False by (auto split: if_splits)
      then show ?thesis using prv [OF False live] liv [OF False live] by auto
    qed
    show "\<exists>p. (if s = t then p = la else live z s p) \<and> inp ! p = c' \<and> pPrev (H2 ! s) = None"
      if "pStart (list_at z' c') = Some s" for c' s
    proof (cases "c' = c")
      case True
      then show ?thesis using that z'(5) nd(3) t(2) c_def by auto
    next
      case False
      then have st: "pStart (list_at z c') = Some s" using that z'(5) by simp
      from sta [OF st] obtain p where p: "s \<noteq> t" "live z s p" "inp ! p = c'" "pPrev (H ! s) = None" by blast
      then have "start \<noteq> Some s" using start_ok False live_inj by blast
      with p nd(3) aw show ?thesis by auto
    qed
  qed (use z'(3,4) len2 in simp)
  with z'(1) show ?thesis by blast
qed

lemma BuildHash_inv:
  assumes "hash_inv inp base w la z" and "w = 2 ^ k" and "la < length inp"
  shows "\<exists>z'. BuildHash inp base la z = Some z' \<and> hash_inv inp base w (Suc la) z'"
proof -
  define t where "t = targetindex base (int w) la"
  have "m_nWindowSize z = int w" using assms(1) by (simp add: hash_inv_def)
  moreover obtain z1 where "evict inp t z = Some z1" "unlinked inp base w la t z1"
    using evict_unlinks [OF assms(1,2) t_def assms(3)] by blast
  moreover have "t < w" using targetindex_less [of base k la] assms(2) by (simp add: t_def)
  ultimately show ?thesis
    using enlist_inv [OF _ t_def _ assms(3)] by (simp add: BuildHash_halves t_def Let_def)
qed

lemma BuildHash_run:
  assumes "hash_inv inp base w la z" and "w = 2 ^ k" and "la + n \<le> length inp"
  shows "\<exists>z'. foldM (BuildHash inp base) [la..<la + n] z = Some z' \<and> hash_inv inp base w (la + n) z'"
  by (rule foldM_upt) (use assms BuildHash_inv [OF _ assms(2)] in auto)

lemma hash_inv_empty:
  assumes "m_nWindowSize z = int w"
  shows "hash_inv inp base w 0 (z\<lparr>m_pHashTable := replicate 256 null_list, m_pHashTarget := replicate w null_node\<rparr>)"
proof (rule hash_invI)
  show "\<exists>p. P p" if "pStart (list_at (z\<lparr>m_pHashTable := replicate 256 null_list,
      m_pHashTarget := replicate w null_node\<rparr>) c) = Some s" for c s and P :: "nat \<Rightarrow> bool"
    using that unsigned_less [of c, where 'a = nat] by (simp add: list_at_def null_list_def)
qed (use assms in \<open>auto simp: live_def null_node_def\<close>)

subsection \<open>Matches\<close>

definition matches :: "u8 list \<Rightarrow> nat \<Rightarrow> nat \<Rightarrow> nat \<Rightarrow> bool" where
  "matches inp p la n \<longleftrightarrow> (\<forall>i<n. inp ! (p + i) = inp ! (la + i))"

lemma match_length_ok:
  assumes "p < la" and "la + m + len \<le> length inp" and "matches inp p la m"
  shows "\<exists>n. match_length inp p la len m = Some n \<and> n \<le> m + len \<and> matches inp p la n"
  using assms(2,3)
proof (induction len arbitrary: m)
  case (Suc len)
  have pk: "peek8 inp (int (p + m)) = Some (inp ! (p + m))" "peek8 inp (int (la + m)) = Some (inp ! (la + m))"
    using Suc.prems assms(1) by (simp_all add: peek8_def nat_int_add)
  show ?case
  proof (cases "inp ! (p + m) = inp ! (la + m)")
    case True
    then have "matches inp p la (Suc m)" using Suc.prems(2) by (auto simp: matches_def less_Suc_eq)
    with Suc.IH [of "Suc m"] Suc.prems(1) pk True show ?thesis by (auto simp del: of_nat_add)
  next
    case False
    then show ?thesis using pk Suc.prems(2) by (auto simp del: of_nat_add)
  qed
qed simp

definition best_ok :: "u8 list \<Rightarrow> nat \<Rightarrow> nat \<Rightarrow> nat \<Rightarrow> nat \<Rightarrow> nat option \<Rightarrow> bool" where
  "best_ok inp w la len e pos \<longleftrightarrow> e \<le> len \<and>
     (0 < e \<longrightarrow> (\<exists>p. pos = Some p \<and> p < la \<and> la \<le> p + w \<and> matches inp p la e))"

lemma match_chain_ok:
  assumes inv: "hash_inv inp base w la z" and len: "la + len \<le> length inp"
    and "case pHash of None \<Rightarrow> True | Some a \<Rightarrow> \<exists>p. live z a p" and "best_ok inp w la len e pos"
  shows "\<exists>e' pos'. match_chain inp z la len pHash e pos = Some (e', pos') \<and> best_ok inp w la len e' pos'"
proof (cases pHash)
  case None
  then show ?thesis using assms(4) by (simp add: match_chain.simps)
next
  case (Some a)
  then obtain p where "live z a p" using assms(3) by auto
  then show ?thesis unfolding Some using assms(4)
  proof (induction p arbitrary: a e pos rule: less_induct)
    case (less p)
    let ?n = "m_pHashTarget z ! a"
    have nd: "node_at z a = Some ?n" "pData ?n = Some p" using less.prems(1) by (auto simp: node_at_def live_def)
    have p: "p < la" "la \<le> p + w" using hash_inv_live [OF inv less.prems(1)] by auto
    have "matches inp p la 0" by (simp add: matches_def)
    then obtain n where n: "match_length inp p la len 0 = Some n" "n \<le> len" "matches inp p la n"
      using match_length_ok [OF p(1), of 0 len inp] len by auto
    define e1 where "e1 = (if e < n then n else e)"
    define pos1 where "pos1 = (if e < n then Some p else pos)"
    have b1: "best_ok inp w la len e1 pos1"
      using less.prems(2) n p by (auto simp: best_ok_def e1_def pos1_def)
    have step: "match_chain inp z la len (Some a) e pos =
        (if n = len then Some (e1, pos1) else match_chain inp z la len (pNext ?n) e1 pos1)"
      by (subst match_chain.simps) (simp add: nd n(1) Let_def e1_def pos1_def)
    show ?case
    proof (cases "n = len \<or> pNext ?n = None")
      case True
      then show ?thesis unfolding step using b1 by (auto simp: match_chain.simps [of _ _ _ _ None])
    next
      case False
      then obtain b where b: "pNext ?n = Some b" by auto
      obtain q where "live z b q" "q < p" using hash_inv_next [OF inv less.prems(1) b] by blast
      with less.IH [OF _ _ b1] False b show ?thesis unfolding step by simp
    qed
  qed
qed

subsection \<open>The token stream\<close>

text \<open>
  The meaning of a compressed buffer: literals, and copies of \<open>n\<close> bytes from \<open>d\<close> bytes
  back. Eight tokens form a group, preceded by a byte with one flag per token; the token
  \<open>Copy 1 1\<close>, two zero bytes, ends the stream.
\<close>

datatype token = Lit u8 | Copy nat nat

primrec flag :: "token \<Rightarrow> bool" where
  "flag (Lit b) = False"
| "flag (Copy d n) = True"

primrec payload :: "token \<Rightarrow> u8 list" where
  "payload (Lit b) = [b]"
| "payload (Copy d n) = [of_nat ((d - 1) div 16), of_nat ((d - 1) mod 16 * 16 + (n - 1))]"

primrec copy_n :: "nat \<Rightarrow> nat \<Rightarrow> u8 list \<Rightarrow> u8 list" where
  "copy_n d 0 out = out"
| "copy_n d (Suc n) out = copy_n d n (out @ [out ! (length out - d)])"

primrec emit :: "token \<Rightarrow> u8 list \<Rightarrow> u8 list" where
  "emit (Lit b) out = out @ [b]"
| "emit (Copy d n) out = copy_n d n out"

definition expand :: "token list \<Rightarrow> u8 list \<Rightarrow> u8 list" where
  "expand ts = fold emit ts"

primrec token_ok :: "token \<Rightarrow> u8 list \<Rightarrow> bool" where
  "token_ok (Lit b) out = True"
| "token_ok (Copy d n) out = (1 \<le> d \<and> d \<le> 4096 \<and> d \<le> length out \<and> 2 \<le> n \<and> n \<le> 16)"

fun tokens_ok :: "token list \<Rightarrow> u8 list \<Rightarrow> bool" where
  "tokens_ok [] out = True"
| "tokens_ok (t # ts) out = (token_ok t out \<and> tokens_ok ts (emit t out))"

definition flags :: "token list \<Rightarrow> u8" where
  "flags ts = horner_sum of_bool 2 (map flag ts)"

function lz_body :: "token list \<Rightarrow> u8 list" where
  "lz_body ts = (if ts = [] then []
     else flags (take 8 ts) # concat (map payload (take 8 ts)) @ lz_body (drop 8 ts))"
  by pat_completeness auto

termination lz_body
  by (relation "measure length") auto

declare lz_body.simps [simp del]

lemma lz_body_Nil [simp]: "lz_body [] = []"
  by (simp add: lz_body.simps)

lemma lz_body_group: "g \<noteq> [] \<Longrightarrow> length g \<le> 8 \<Longrightarrow> lz_body g = flags g # concat (map payload g)"
  by (subst lz_body.simps) simp

lemma lz_body_append: "8 dvd length xs \<Longrightarrow> lz_body (xs @ ys) = lz_body xs @ lz_body ys"
proof (induction xs rule: lz_body.induct)
  case (1 xs)
  show ?case
  proof (cases "xs = []")
    case False
    with "1.prems" have l: "8 \<le> length xs" by (metis dvd_imp_le length_greater_0_conv)
    then have "lz_body (drop 8 xs @ ys) = lz_body (drop 8 xs) @ lz_body ys"
      using "1.IH" [OF False] "1.prems" by (simp add: dvd_diff_nat)
    with False l show ?thesis
      by (subst (1 2) lz_body.simps) simp
  qed simp
qed

lemma bit_flags: "bit (flags ts) i \<longleftrightarrow> i < length ts \<and> i < 8 \<and> flag (ts ! i)"
  by (auto simp: flags_def bit_horner_sum_bit_word_iff)

lemma tokens_ok_append: "tokens_ok (xs @ ys) out \<longleftrightarrow> tokens_ok xs out \<and> tokens_ok ys (expand xs out)"
  by (induction xs arbitrary: out) (auto simp: expand_def)

lemma length_copy_n [simp]: "length (copy_n d n out) = length out + n"
  by (induction n arbitrary: out) auto

lemma copy_n_matches:
  assumes "p < la" and "la + n \<le> length inp" and "matches inp p la n"
  shows "copy_n (la - p) n (take la inp) = take (la + n) inp"
proof -
  have "copy_n (la - p) k (take (la + j) inp) = take (la + j + k) inp" if "j + k = n" for k j
    using that
  proof (induction k arbitrary: j)
    case (Suc k)
    have j: "j < n" using Suc.prems by simp
    then have "take (la + j) inp ! (la + j - (la - p)) = inp ! (la + j)"
      using assms by (simp add: matches_def add.commute [of j p])
    moreover have "take (la + j) inp @ [inp ! (la + j)] = take (la + Suc j) inp"
      using j assms(2) by (simp add: take_Suc_conv_app_nth)
    ultimately show ?case using Suc.IH [of "Suc j"] Suc.prems j assms(2) by (simp add: min_absorb2)
  qed simp
  from this [of 0 n] show ?thesis by simp
qed

subsection \<open>Decompression expands the token stream\<close>

definition holds :: "u8 list \<Rightarrow> int \<Rightarrow> u8 list \<Rightarrow> bool" where
  "holds inp a bs \<longleftrightarrow> 0 \<le> a \<and> (\<exists>post. drop (nat a) inp = bs @ post)"

lemma holds_append: "holds inp a (xs @ ys) \<Longrightarrow> holds inp a xs \<and> holds inp (a + int (length xs)) ys"
proof -
  assume h: "holds inp a (xs @ ys)"
  then obtain post where p: "0 \<le> a" "drop (nat a) inp = xs @ ys @ post" by (auto simp: holds_def)
  have "drop (nat (a + int (length xs))) inp = drop (length xs) (drop (nat a) inp)"
    using p(1) by (simp add: nat_add_distrib add.commute)
  with p show ?thesis by (auto simp: holds_def)
qed

lemma holds_Cons: "holds inp a (b # bs) \<Longrightarrow> peek8 inp a = Some b \<and> holds inp (a + 1) bs"
proof -
  assume h: "holds inp a (b # bs)"
  then obtain post where p: "0 \<le> a" "drop (nat a) inp = b # bs @ post" by (auto simp: holds_def)
  then have "nat a < length inp" by (metis drop_all list.simps(3) not_le)
  then have "inp ! nat a = b" using p(2) by (metis nth_via_drop)
  with h p \<open>nat a < length inp\<close> holds_append [of inp a "[b]" bs] show ?thesis by (simp add: peek8_def)
qed

lemma nibble_join: "0 \<le> y \<Longrightarrow> y < 16 \<Longrightarrow> push_bit 4 x OR y = 16 * x + (y::int)"
proof -
  assume "0 \<le> y" "y < 16"
  then have y: "take_bit 4 y = y" by (simp add: take_bit_int_eq_self)
  have "push_bit 4 x + take_bit 4 y = push_bit 4 x OR take_bit 4 y"
    by (rule disjunctive_add) (auto simp: bit_push_bit_iff bit_take_bit_iff)
  then show ?thesis using y by (simp add: push_bit_eq_mult)
qed

lemma copy_fields:
  assumes "1 \<le> d" and "d \<le> 4096" and "1 \<le> n" and "n \<le> 16"
    and "b0 = (of_nat ((d - 1) div 16) :: u8)" and "b1 = (of_nat ((d - 1) mod 16 * 16 + (n - 1)) :: u8)"
  shows "push_bit 4 (uint b0) OR drop_bit 4 (uint b1) = int (d - 1)" "uint b1 AND 0x0F = int n - 1"
proof -
  have "(d - 1) div 16 < 256" "(d - 1) mod 16 * 16 + (n - 1) < 256" using assms by (auto simp: less_mult_imp_div_less)
  moreover have byte: "k < 256 \<Longrightarrow> uint (of_nat k :: u8) = int k" for k
    by (simp add: unsigned_of_nat take_bit_nat_eq_self)
  ultimately have b: "uint b0 = int (d - 1) div 16" "uint b1 = int (d - 1) mod 16 * 16 + int (n - 1)"
    using byte [of "(d - 1) div 16"] byte [of "(d - 1) mod 16 * 16 + (n - 1)"] unfolding assms(5,6)
    by (simp_all only: of_nat_add of_nat_mult zdiv_int zmod_int of_nat_numeral)
  have low: "0 \<le> int (n - 1)" "int (n - 1) < 16" using assms by auto
  have "uint b1 div 16 = int (d - 1) mod 16" "uint b1 mod 16 = int (n - 1)"
    using low unfolding b by simp_all
  moreover have "uint b1 AND 0x0F = uint b1 mod 16"
    using take_bit_eq_mask [of 4 "uint b1"] by (simp add: take_bit_eq_mod mask_eq_exp_minus_1)
  ultimately show "push_bit 4 (uint b0) OR drop_bit 4 (uint b1) = int (d - 1)" "uint b1 AND 0x0F = int n - 1"
    using assms(1,3) b(1) nibble_join [of "int (d - 1) mod 16" "int (d - 1) div 16"]
    by (simp_all add: drop_bit_eq_div)
qed

lemma copy_back_ok:
  assumes "1 \<le> d" and "d \<le> k" and "k + n \<le> length out"
  shows "\<exists>out'. copy_back n (int k - int d) out (int k) = Some (out', int (k + n)) \<and>
    length out' = length out \<and> take (k + n) out' = copy_n d n (take k out)"
  using assms
proof (induction n arbitrary: k out)
  case (Suc n)
  let ?v = "out ! (k - d)"
  have "peek8 out (int k - int d) = Some ?v"
    using Suc.prems by (simp add: peek8_def nat_diff_distrib)
  moreover have "poke8 out (int k) ?v = Some (out[k := ?v])" using Suc.prems by simp
  moreover have "take (Suc k) (out[k := ?v]) = take k out @ [take k out ! (length (take k out) - d)]"
    using Suc.prems by (simp add: take_Suc_conv_app_nth)
  moreover obtain out' where "copy_back n (int (Suc k) - int d) (out[k := ?v]) (int (Suc k)) = Some (out', int (Suc k + n))"
      "length out' = length out" "take (Suc k + n) out' = copy_n d n (take (Suc k) (out[k := ?v]))"
    using Suc.IH [of "Suc k" "out[k := ?v]"] Suc.prems by auto
  ultimately show ?case by (simp add: algebra_simps)
qed simp

text \<open>The part of an iteration after the command byte is available.\<close>

definition uncompress_token ::
  "u8 list \<Rightarrow> int \<Rightarrow> u8 list \<Rightarrow> int \<Rightarrow> u32 \<Rightarrow> int \<Rightarrow> int \<Rightarrow> (u8 list \<times> u32) option" where
  "uncompress_token inp pIn out pOut totalBytes cmdByte getCmdByte =
     (let getCmdByte = (getCmdByte + 1) AND 7 in
     if cmdByte AND 1 \<noteq> 0 then
       Option.bind (peek8 inp pIn) (\<lambda>b0.
       Option.bind (peek8 inp (pIn + 1)) (\<lambda>b1.
         let position = push_bit LZSS_LOOKSHIFT (uint b0) OR drop_bit LZSS_LOOKSHIFT (uint b1);
             count = (uint b1 AND 0x0F) + 1
         in if count = 1 then Some (out, totalBytes)
            else Option.bind (copy_back (nat count) (pOut - position - 1) out pOut) (\<lambda>(out, pOut).
              uncompress_loop inp (pIn + 2) out pOut (totalBytes + of_int count) (drop_bit 1 cmdByte) getCmdByte)))
     else
       Option.bind (peek8 inp pIn) (\<lambda>v.
       Option.bind (poke8 out pOut v) (\<lambda>out.
         uncompress_loop inp (pIn + 1) out (pOut + 1) (totalBytes + 1) (drop_bit 1 cmdByte) getCmdByte)))"

lemma uncompress_loop_fetch:
  "peek8 inp pIn = Some c \<Longrightarrow>
     uncompress_loop inp pIn out pOut tb cmd 0 = uncompress_token inp (pIn + 1) out pOut tb (uint c) 0"
  "g \<noteq> 0 \<Longrightarrow> uncompress_loop inp pIn out pOut tb cmd g = uncompress_token inp pIn out pOut tb cmd g"
  by (subst uncompress_loop.simps, simp add: uncompress_token_def)+

lemma int_low_bit: "(x::int) AND 1 \<noteq> 0 \<longleftrightarrow> bit x 0"
  by (simp add: and_one_eq bit_0 odd_iff_mod_2_eq_one)

text \<open>One token: the output grows by what the token stands for.\<close>

definition decoded :: "u8 list \<Rightarrow> u8 list \<Rightarrow> u8 list \<Rightarrow> bool" where
  "decoded out0 out w \<longleftrightarrow> length out = length out0 \<and> take (length w) out = w \<and> length w \<le> length out"

lemma uncompress_token_ok:
  assumes "decoded out0 out w" and "token_ok t w" and "holds inp pIn (payload t)" and "bit cmd 0 = flag t"
    and "length (emit t w) \<le> length out0"
  shows "\<exists>out'. decoded out0 out' (emit t w) \<and>
    uncompress_token inp pIn out (int (length w)) (of_nat (length w)) cmd g =
    uncompress_loop inp (pIn + int (length (payload t))) out' (int (length (emit t w))) (of_nat (length (emit t w)))
      (drop_bit 1 cmd) ((g + 1) AND 7)"
proof (cases t)
  case (Lit b)
  have pk: "peek8 inp pIn = Some b" using assms(3) holds_Cons [of inp pIn b "[]"] Lit by simp
  have k: "length w < length out" "length out = length out0" using assms(1,5) Lit by (auto simp: decoded_def)
  let ?out = "out[length w := b]"
  have "decoded out0 ?out (w @ [b])"
    using assms(1) k by (simp add: decoded_def take_Suc_conv_app_nth)
  moreover have "poke8 out (int (length w)) b = Some ?out" using k by simp
  ultimately show ?thesis
    using Lit pk assms(4) int_low_bit [of cmd]
    by (auto simp: uncompress_token_def Let_def add.commute)
next
  case (Copy d n)
  define b0 where "b0 = (of_nat ((d - 1) div 16) :: u8)"
  define b1 where "b1 = (of_nat ((d - 1) mod 16 * 16 + (n - 1)) :: u8)"
  have ok: "1 \<le> d" "d \<le> 4096" "d \<le> length w" "2 \<le> n" "n \<le> 16" using assms(2) Copy by auto
  have "peek8 inp pIn = Some b0" "peek8 inp (pIn + 1) = Some b1"
    using holds_Cons [of inp pIn b0 "[b1]"] holds_Cons [of inp "pIn + 1" b1 "[]"] assms(3) Copy
    by (simp_all add: b0_def b1_def)
  moreover have f: "push_bit LZSS_LOOKSHIFT (uint b0) OR drop_bit LZSS_LOOKSHIFT (uint b1) = int (d - 1)"
      "uint b1 AND 0x0F = int n - 1"
    using copy_fields [OF ok(1,2) _ ok(5) b0_def b1_def] ok(4) by (simp_all add: LZSS_LOOKSHIFT_def)
  moreover have src: "int (length w) - int (d - 1) - 1 = int (length w) - int d" using ok(1) by linarith
  moreover obtain out' where "copy_back n (int (length w) - int d) out (int (length w)) = Some (out', int (length w + n))"
      "length out' = length out" "take (length w + n) out' = copy_n d n (take (length w) out)"
    using copy_back_ok [OF ok(1,3), of n out] assms(1,5) Copy by (auto simp: decoded_def)
  moreover have "nat (int n) = n" "int n \<noteq> 1" using ok(4) by auto
  ultimately show ?thesis
    using Copy assms(1,4,5) int_low_bit [of cmd]
    by (auto simp: uncompress_token_def Let_def decoded_def f src intro!: exI [of _ out'])
qed

lemma emit_grows: "length out \<le> length (emit t out)"
  by (cases t) auto

lemma expand_grows: "length out \<le> length (expand ts out)"
  by (induction ts arbitrary: out) (auto simp: expand_def intro: order.trans [OF emit_grows])

lemma counter_and_7: "j < 8 \<Longrightarrow> (int j + 1) AND 7 = (if j = 7 then 0 else int j + 1)"
  using take_bit_eq_mask [of 3 "int j + 1"] by (auto simp: take_bit_eq_mod mask_eq_exp_minus_1)

lemma uncompress_group:
  assumes "gs \<noteq> []" and "j + length gs \<le> 8" and "decoded out0 out w" and "tokens_ok gs w"
    and "holds inp pIn (concat (map payload gs))" and "\<forall>i < length gs. bit cmd i = flag (gs ! i)"
    and "length (expand gs w) \<le> length out0"
  shows "\<exists>out'. decoded out0 out' (expand gs w) \<and>
    uncompress_token inp pIn out (int (length w)) (of_nat (length w)) cmd (int j) =
    uncompress_loop inp (pIn + int (length (concat (map payload gs)))) out' (int (length (expand gs w)))
      (of_nat (length (expand gs w))) (drop_bit (length gs) cmd) (if j + length gs = 8 then 0 else int (j + length gs))"
  using assms
proof (induction gs arbitrary: j out w pIn cmd)
  case (Cons t ts)
  have ex: "expand (t # ts) w = expand ts (emit t w)" by (simp add: expand_def)
  have fit: "length (emit t w) \<le> length out0"
    using Cons.prems(7) expand_grows [of "emit t w" ts] unfolding ex by linarith
  have h: "holds inp pIn (payload t)" "holds inp (pIn + int (length (payload t))) (concat (map payload ts))"
    using holds_append [of inp pIn "payload t" "concat (map payload ts)"] Cons.prems(5) by simp_all
  have "bit cmd 0 = flag t" using Cons.prems(6) by force
  then obtain out1 where out1: "decoded out0 out1 (emit t w)"
      "uncompress_token inp pIn out (int (length w)) (of_nat (length w)) cmd (int j) =
       uncompress_loop inp (pIn + int (length (payload t))) out1 (int (length (emit t w))) (of_nat (length (emit t w)))
        (drop_bit 1 cmd) ((int j + 1) AND 7)"
    using uncompress_token_ok [OF Cons.prems(3) _ h(1) _ fit, of cmd "int j"] Cons.prems(4) by auto
  show ?case
  proof (cases "ts = []")
    case True
    then show ?thesis using out1 Cons.prems(2) counter_and_7 [of j] by (auto simp: expand_def add.commute)
  next
    case False
    then have j: "j < 7" "Suc j + length ts \<le> 8" using Cons.prems(2) by (auto simp: neq_Nil_conv)
    have bits: "\<forall>i < length ts. bit (drop_bit 1 cmd) i = flag (ts ! i)"
      using Cons.prems(6) by (auto simp: bit_drop_bit_eq)
    have "(int j + 1) AND 7 = int (Suc j)" using counter_and_7 [of j] j by simp
    then have "uncompress_token inp pIn out (int (length w)) (of_nat (length w)) cmd (int j) =
        uncompress_token inp (pIn + int (length (payload t))) out1 (int (length (emit t w))) (of_nat (length (emit t w)))
        (drop_bit 1 cmd) (int (Suc j))"
      using out1(2) uncompress_loop_fetch(2) by simp
    moreover have "length (expand ts (emit t w)) \<le> length out0" using Cons.prems(7) ex by simp
    ultimately show ?thesis
      using Cons.IH [OF False j(2) out1(1) _ h(2) bits] Cons.prems(4) unfolding ex
      by (auto simp: algebra_simps)
  qed
qed simp

definition end_token :: token where "end_token = Copy 1 1"

lemma uncompress_end:
  assumes "holds inp pIn (payload end_token)" and "bit cmd 0"
  shows "uncompress_token inp pIn out pOut tb cmd g = Some (out, tb)"
  using holds_Cons [of inp pIn 0 "[0]"] holds_Cons [of inp "pIn + 1" 0 "[]"] assms int_low_bit [of cmd]
  by (simp add: uncompress_token_def end_token_def Let_def)

lemma bit_uint_flags: "i < length g \<Longrightarrow> length g \<le> 8 \<Longrightarrow> bit (uint (flags g)) i = flag (g ! i)"
  by (simp add: bit_uint_iff bit_flags)

lemma uncompress_body:
  assumes "decoded out0 out w" and "tokens_ok ts w" and "holds inp pIn (lz_body (ts @ [end_token]))"
    and "length (expand ts w) \<le> length out0"
  shows "\<exists>out'. decoded out0 out' (expand ts w) \<and>
    uncompress_loop inp pIn out (int (length w)) (of_nat (length w)) cmd 0 = Some (out', of_nat (length (expand ts w)))"
  using assms
proof (induction ts arbitrary: out w pIn cmd rule: lz_body.induct)
  case (1 ts)
  show ?case
  proof (cases "8 \<le> length ts")
    case True
    define g where "g = take 8 ts"
    have g: "ts = g @ drop 8 ts" "length g = 8" "g \<noteq> []" "ts \<noteq> []" using True by (auto simp: g_def)
    have "lz_body (ts @ [end_token]) = flags g # concat (map payload g) @ lz_body (drop 8 ts @ [end_token])"
      using True by (subst lz_body.simps) (simp add: g_def)
    then have h: "peek8 inp pIn = Some (flags g)" "holds inp (pIn + 1) (concat (map payload g))"
      "holds inp (pIn + 1 + int (length (concat (map payload g)))) (lz_body (drop 8 ts @ [end_token]))"
      using "1.prems"(3) holds_Cons holds_append by metis+
    have ok: "tokens_ok g w" "tokens_ok (drop 8 ts) (expand g w)"
      using "1.prems"(2) tokens_ok_append [of g "drop 8 ts" w] g(1) by metis+
    have ex: "expand ts w = expand (drop 8 ts) (expand g w)"
      by (subst (1) g(1)) (simp add: expand_def)
    have fit: "length (expand (drop 8 ts) (expand g w)) \<le> length out0" "length (expand g w) \<le> length out0"
      using "1.prems"(4) expand_grows [of "expand g w" "drop 8 ts"] unfolding ex by linarith+
    obtain out1 where out1: "decoded out0 out1 (expand g w)"
      "uncompress_token inp (pIn + 1) out (int (length w)) (of_nat (length w)) (uint (flags g)) (int 0) =
       uncompress_loop inp (pIn + 1 + int (length (concat (map payload g)))) out1 (int (length (expand g w)))
        (of_nat (length (expand g w))) (drop_bit 8 (uint (flags g))) 0"
      using uncompress_group [OF g(3) _ "1.prems"(1) ok(1) h(2) _ fit(2), of 0 "uint (flags g)"] g(2) bit_uint_flags [of _ g]
      by auto
    from "1.IH" [OF g(4) out1(1) ok(2) h(3) fit(1)] out1(2) show ?thesis
      unfolding uncompress_loop_fetch(1) [OF h(1)] ex by simp
  next
    case False
    let ?g = "ts @ [end_token]"
    have "lz_body ?g = flags ?g # concat (map payload ts) @ payload end_token"
      using False by (subst lz_body_group) simp_all
    then have h: "peek8 inp pIn = Some (flags ?g)" "holds inp (pIn + 1) (concat (map payload ts))"
      "holds inp (pIn + 1 + int (length (concat (map payload ts)))) (payload end_token)"
      using "1.prems"(3) holds_Cons holds_append by metis+
    have bits: "i \<le> length ts \<Longrightarrow> bit (uint (flags ?g)) i = flag (?g ! i)" for i
      using False bit_uint_flags [of i ?g] by simp
    have last: "bit (drop_bit (length ts) (uint (flags ?g))) 0"
      using bits [of "length ts"] by (simp add: bit_drop_bit_eq end_token_def)
    show ?thesis
    proof (cases "ts = []")
      case True
      then show ?thesis
        using "1.prems"(1) h(3) last uncompress_end
        unfolding uncompress_loop_fetch(1) [OF h(1)] by (auto simp: expand_def)
    next
      case ne: False
      have "\<forall>i < length ts. bit (uint (flags ?g)) i = flag (ts ! i)" using bits by (simp add: nth_append)
      then obtain out1 where out1: "decoded out0 out1 (expand ts w)"
        "uncompress_token inp (pIn + 1) out (int (length w)) (of_nat (length w)) (uint (flags ?g)) (int 0) =
         uncompress_loop inp (pIn + 1 + int (length (concat (map payload ts)))) out1 (int (length (expand ts w)))
          (of_nat (length (expand ts w))) (drop_bit (length ts) (uint (flags ?g))) (int (length ts))"
        using uncompress_group [OF ne _ "1.prems"(1,2) h(2) _ "1.prems"(4), of 0 "uint (flags ?g)"] False by auto
      then show ?thesis
        using ne uncompress_end [OF h(3) last] uncompress_loop_fetch(2) [of "int (length ts)"]
        unfolding uncompress_loop_fetch(1) [OF h(1)] by simp
    qed
  qed
qed

subsection \<open>The compressor writes the token stream\<close>

definition written :: "comp_state \<Rightarrow> u8 list \<Rightarrow> bool" where
  "written s xs \<longleftrightarrow> c_pOutput s = length xs \<and> take (length xs) (c_out s) = xs \<and> length xs \<le> length (c_out s)"

lemma put_byte_ok:
  assumes "written s xs" and "length xs < length (c_out s)"
  shows "\<exists>out. put_byte v s = Some (s\<lparr>c_out := out, c_pOutput := Suc (length xs)\<rparr>) \<and> length out = length (c_out s) \<and>
    written (s\<lparr>c_out := out, c_pOutput := Suc (length xs)\<rparr>) (xs @ [v])"
  using assms by (intro exI [of _ "(c_out s)[length xs := v]"]) (simp add: put_byte_def written_def take_Suc_conv_app_nth)

lemma put_bytes_ok:
  assumes "written s xs" and "length xs + length vs \<le> length (c_out s)"
  shows "\<exists>out. foldM put_byte vs s = Some (s\<lparr>c_out := out, c_pOutput := length xs + length vs\<rparr>) \<and>
    length out = length (c_out s) \<and> written (s\<lparr>c_out := out, c_pOutput := length xs + length vs\<rparr>) (xs @ vs)"
  using assms
proof (induction vs arbitrary: s xs)
  case Nil
  then show ?case by (auto simp: written_def intro!: exI [of _ "c_out s"])
next
  case (Cons v vs)
  then obtain out where "put_byte v s = Some (s\<lparr>c_out := out, c_pOutput := Suc (length xs)\<rparr>)"
      "length out = length (c_out s)" "written (s\<lparr>c_out := out, c_pOutput := Suc (length xs)\<rparr>) (xs @ [v])"
    using put_byte_ok [of s xs v] by auto
  with Cons.IH [of "s\<lparr>c_out := out, c_pOutput := Suc (length xs)\<rparr>" "xs @ [v]"] Cons.prems(2) show ?case by auto
qed

lemma upd_cmd_ok:
  assumes "written s xs" and "c_pCmdByte s = Some a" and "a < length xs"
  shows "\<exists>out. upd_cmd f s = Some (s\<lparr>c_out := out\<rparr>) \<and> length out = length (c_out s) \<and>
    written (s\<lparr>c_out := out\<rparr>) (xs[a := f (xs ! a)])"
proof -
  have "a < length (c_out s)" "c_out s ! a = xs ! a" using assms by (auto simp: written_def) (metis nth_take)
  then show ?thesis using assms
    by (intro exI [of _ "(c_out s)[a := f (xs ! a)]"]) (simp add: upd_cmd_def written_def take_update_swap)
qed

text \<open>The bytes of a stream whose last group \<open>g\<close> is still open: its flags are at the top.\<close>

definition open_body :: "token list \<Rightarrow> token list \<Rightarrow> u8 list" where
  "open_body full g = lz_body full @
     (if g = [] then [] else push_bit (8 - length g) (flags g) # concat (map payload g))"

definition out_inv :: "u8 list \<Rightarrow> token list \<Rightarrow> token list \<Rightarrow> comp_state \<Rightarrow> bool" where
  "out_inv hdr full g s \<longleftrightarrow> written s (hdr @ open_body full g) \<and> 8 dvd length full \<and> length g < 8 \<and>
     c_putCmdByte s = int (length g) \<and>
     (g \<noteq> [] \<longrightarrow> c_pCmdByte s = Some (length hdr + length (lz_body full)))"

lemma shift_flags:
  assumes "length g < 8"
  shows "drop_bit 1 (push_bit (8 - length g) (flags g)) OR (if flag t then 0x80 else 0)
    = push_bit (7 - length g) (flags (g @ [t]))"
proof (rule bit_word_eqI)
  fix i :: nat assume "i < LENGTH(8)"
  then have i: "i < 8" by simp
  have h: "bit (0x80::u8) n \<longleftrightarrow> n = 7" for n
    using bit_exp_iff [where 'a = u8, of 7 n] by auto
  have top: "bit (if flag t then 0x80 else 0 :: u8) i \<longleftrightarrow> flag t \<and> i = 7"
    by (cases "flag t") (simp_all only: if_True if_False h bit_0_eq bot_apply bot_bool_def simp_thms)
  have "bit (drop_bit 1 (push_bit (8 - length g) (flags g))) i \<longleftrightarrow> i < 7 \<and> 7 - length g \<le> i \<and> flag (g ! (i - (7 - length g)))"
    using assms i by (auto simp: bit_drop_bit_eq bit_push_bit_iff bit_flags)
  moreover have "bit (push_bit (7 - length g) (flags (g @ [t]))) i \<longleftrightarrow>
      7 - length g \<le> i \<and> flag ((g @ [t]) ! (i - (7 - length g)))"
    using assms i by (auto simp: bit_push_bit_iff bit_flags)
  moreover have "(g @ [t]) ! (i - (7 - length g)) = (if i = 7 then t else g ! (i - (7 - length g)))" if "7 - length g \<le> i"
    using that assms i by (auto simp: nth_append)
  ultimately show "bit (drop_bit 1 (push_bit (8 - length g) (flags g)) OR (if flag t then 0x80 else 0)) i
      = bit (push_bit (7 - length g) (flags (g @ [t]))) i"
    using i assms unfolding bit_or_iff top by (cases "i = 7"; cases "7 - length g \<le> i") simp_all
qed

lemma unshift_flags: "length g \<le> 8 \<Longrightarrow> drop_bit (8 - length g) (push_bit (8 - length g) (flags g)) = flags g"
  by (rule bit_word_eqI) (auto simp: bit_drop_bit_eq bit_push_bit_iff bit_flags)

definition put_token :: "token \<Rightarrow> comp_state \<Rightarrow> comp_state option" where
  "put_token t s = do {
     s \<leftarrow> upd_cmd (\<lambda>v. drop_bit 1 v OR (if flag t then 0x80 else 0)) s;
     foldM put_byte (payload t) s }"

lemma payload_length: "length (payload t) \<le> 2"
  by (cases t) auto

lemma put_token_written:
  assumes "written s (hdr @ lz_body full @ c # rest)" and "c_pCmdByte s = Some (length hdr + length (lz_body full))"
    and "c_pOutput s + length (payload t) \<le> length (c_out s)"
  shows "\<exists>out. put_token t s = Some (s\<lparr>c_out := out, c_pOutput := c_pOutput s + length (payload t)\<rparr>) \<and>
    length out = length (c_out s) \<and>
    written (s\<lparr>c_out := out, c_pOutput := c_pOutput s + length (payload t)\<rparr>)
      (hdr @ lz_body full @ (drop_bit 1 c OR (if flag t then 0x80 else 0)) # rest @ payload t)"
proof -
  let ?xs = "hdr @ lz_body full @ c # rest" and ?c = "drop_bit 1 c OR (if flag t then 0x80 else 0)"
  let ?ys = "hdr @ lz_body full @ ?c # rest"
  have pos: "c_pOutput s = length ?xs" using assms(1) by (simp add: written_def)
  have upd: "?xs[length hdr + length (lz_body full) := ?c] = ?ys" "?xs ! (length hdr + length (lz_body full)) = c"
    by (simp_all add: list_update_append nth_append)
  obtain out where out: "upd_cmd (\<lambda>v. drop_bit 1 v OR (if flag t then 0x80 else 0)) s = Some (s\<lparr>c_out := out\<rparr>)"
      "length out = length (c_out s)" "written (s\<lparr>c_out := out\<rparr>) ?ys"
    using upd_cmd_ok [OF assms(1,2), of "\<lambda>v. drop_bit 1 v OR (if flag t then 0x80 else 0)"] unfolding upd by auto
  from put_bytes_ok [OF out(3), of "payload t"] out assms(3) pos show ?thesis
    by (auto simp: put_token_def)
qed

lemma open_body_close: "length g = 8 \<Longrightarrow> 8 dvd length full \<Longrightarrow> open_body full g = open_body (full @ g) []"
  by (auto simp: open_body_def lz_body_append lz_body_group)

definition same_input :: "comp_state \<Rightarrow> comp_state \<Rightarrow> bool" where
  "same_input s s' \<longleftrightarrow> c_hash s' = c_hash s \<and> c_inputLength s' = c_inputLength s \<and> c_pLookAhead s' = c_pLookAhead s \<and>
     c_pEncodedPosition s' = c_pEncodedPosition s \<and> length (c_out s') = length (c_out s)"

lemma ready_cmd_ok:
  assumes "out_inv hdr full g s" and "c_pOutput s < length (c_out s)"
  shows "\<exists>s1. ready_cmd s = Some s1 \<and> same_input s s1 \<and> c_pOutput s1 \<le> c_pOutput s + 1 \<and>
    written s1 (hdr @ lz_body full @ push_bit (8 - length g) (flags g) # concat (map payload g)) \<and>
    c_pCmdByte s1 = Some (length hdr + length (lz_body full)) \<and>
    c_putCmdByte s1 = (if length g = 7 then 0 else int (length g) + 1)"
proof (cases "g = []")
  case True
  let ?p = "length hdr + length (lz_body full)"
  have w: "written s (hdr @ lz_body full)" and put: "c_putCmdByte s = 0"
    using assms(1) True by (simp_all add: out_inv_def open_body_def)
  then have "written (s\<lparr>c_pCmdByte := Some ?p\<rparr>) (hdr @ lz_body full)" and pos: "c_pOutput s = ?p" by (simp_all add: written_def)
  from put_byte_ok [OF this(1), of 0] pos assms(2) obtain out where
    "put_byte 0 (s\<lparr>c_pCmdByte := Some ?p\<rparr>) = Some (s\<lparr>c_pCmdByte := Some ?p, c_out := out, c_pOutput := Suc ?p\<rparr>)"
    "length out = length (c_out s)" "written (s\<lparr>c_pCmdByte := Some ?p, c_out := out, c_pOutput := Suc ?p\<rparr>) ((hdr @ lz_body full) @ [0])"
    by auto
  moreover have "flags [] = 0" by (simp add: flags_def)
  ultimately show ?thesis
    using True put pos by (simp add: ready_cmd_def new_cmd_def same_input_def written_def)
next
  case False
  then have "written s (hdr @ lz_body full @ push_bit (8 - length g) (flags g) # concat (map payload g))"
      "c_putCmdByte s = int (length g)" "c_pCmdByte s = Some (length hdr + length (lz_body full))" "length g < 8"
    using assms(1) by (simp_all add: out_inv_def open_body_def)
  then show ?thesis
    using False counter_and_7 [of "length g"] by (simp add: ready_cmd_def same_input_def written_def)
qed

lemma write_token_ok:
  assumes "out_inv hdr full g s" and "c_pOutput s + 3 \<le> length (c_out s)"
  shows "\<exists>s1. ready_cmd s = Some s1 \<and> same_input s s1 \<and>
    (\<forall>e. \<exists>s2 full' g'. put_token t (s1\<lparr>c_pEncodedPosition := e\<rparr>) = Some s2 \<and> same_input (s1\<lparr>c_pEncodedPosition := e\<rparr>) s2 \<and>
       full' @ g' = full @ g @ [t] \<and> out_inv hdr full' g' s2 \<and> c_pOutput s2 \<le> c_pOutput s + 3)"
proof -
  have g: "length g < 8" "8 dvd length full" using assms(1) by (simp_all add: out_inv_def)
  obtain s1 where s1: "ready_cmd s = Some s1" "same_input s s1" "c_pOutput s1 \<le> c_pOutput s + 1"
    "written s1 (hdr @ lz_body full @ push_bit (8 - length g) (flags g) # concat (map payload g))"
    "c_pCmdByte s1 = Some (length hdr + length (lz_body full))"
    "c_putCmdByte s1 = (if length g = 7 then 0 else int (length g) + 1)"
    using ready_cmd_ok [OF assms(1)] assms(2) by auto
  have "\<exists>s2 full' g'. put_token t (s1\<lparr>c_pEncodedPosition := e\<rparr>) = Some s2 \<and> same_input (s1\<lparr>c_pEncodedPosition := e\<rparr>) s2 \<and>
       full' @ g' = full @ g @ [t] \<and> out_inv hdr full' g' s2 \<and> c_pOutput s2 \<le> c_pOutput s + 3" for e
  proof -
    let ?s = "s1\<lparr>c_pEncodedPosition := e\<rparr>"
    have "written ?s (hdr @ lz_body full @ push_bit (8 - length g) (flags g) # concat (map payload g))"
      using s1(4) by (simp add: written_def)
    from put_token_written [OF this, of t] obtain out where out:
      "put_token t ?s = Some (?s\<lparr>c_out := out, c_pOutput := c_pOutput s1 + length (payload t)\<rparr>)"
      "length out = length (c_out s)"
      "written (?s\<lparr>c_out := out, c_pOutput := c_pOutput s1 + length (payload t)\<rparr>)
        (hdr @ lz_body full @ push_bit (7 - length g) (flags (g @ [t])) # concat (map payload g) @ payload t)"
      using s1(2,3,5) assms(2) payload_length [of t] shift_flags [OF g(1), of t] by (auto simp: same_input_def)
    let ?s2 = "?s\<lparr>c_out := out, c_pOutput := c_pOutput s1 + length (payload t)\<rparr>"
    have w2: "written ?s2 (hdr @ open_body full (g @ [t]))" using out(3) by (simp add: open_body_def)
    have "\<exists>full' g'. full' @ g' = full @ g @ [t] \<and> out_inv hdr full' g' ?s2"
    proof (cases "length g = 7")
      case True
      then have "out_inv hdr (full @ g @ [t]) [] ?s2"
        using w2 g(2) s1(6) open_body_close [of "g @ [t]" full] by (simp add: out_inv_def)
      then show ?thesis by (metis append.right_neutral)
    next
      case False
      then have "out_inv hdr full (g @ [t]) ?s2" using w2 g s1(5,6) by (simp add: out_inv_def)
      then show ?thesis by blast
    qed
    moreover have "same_input ?s ?s2" using out(2) s1(2) by (simp add: same_input_def)
    moreover have "c_pOutput ?s2 \<le> c_pOutput s + 3" using s1(3) payload_length [of t] by simp
    ultimately show ?thesis using out(1) by blast
  qed
  then show ?thesis using s1 by blast
qed

lemma copy_bytes_eq:
  assumes "p < la" and "la \<le> p + 4096" and "1 \<le> n" and "n \<le> 16"
  shows "(of_int (drop_bit LZSS_LOOKSHIFT (int la - int p - 1)) :: u8) = of_nat ((la - p - 1) div 16)"
    "(of_int (push_bit LZSS_LOOKSHIFT (int la - int p - 1) OR (int n - 1)) :: u8)
      = of_nat ((la - p - 1) mod 16 * 16 + (n - 1))"
proof -
  have d: "int la - int p - 1 = int (la - p - 1)" using assms(1) by simp
  have high: "drop_bit 4 (int k) = int (k div 16)" for k by (simp add: drop_bit_eq_div zdiv_int)
  show "(of_int (drop_bit LZSS_LOOKSHIFT (int la - int p - 1)) :: u8) = of_nat ((la - p - 1) div 16)"
    unfolding d LZSS_LOOKSHIFT_def high by (simp only: of_int_of_nat_eq)
  have "push_bit LZSS_LOOKSHIFT (int (la - p - 1)) OR (int n - 1) = int (16 * (la - p - 1) + (n - 1))"
    using nibble_join [of "int n - 1" "int (la - p - 1)"] assms(3,4) by (simp add: LZSS_LOOKSHIFT_def)
  moreover have "(of_nat (16 * k + m) :: u8) = of_nat (k mod 16 * 16 + m)" for k m
  proof -
    have "16 * k + m = (k mod 16 * 16 + m) + 256 * (k div 16)"
      using div_mult_mod_eq [of k 16] by linarith
    then have "(16 * k + m) mod 256 = (k mod 16 * 16 + m) mod 256" by (simp only: mod_mult_self2)
    then show ?thesis
      unfolding word_of_nat_eq_iff by (simp add: take_bit_eq_mod)
  qed
  ultimately show "(of_int (push_bit LZSS_LOOKSHIFT (int la - int p - 1) OR (int n - 1)) :: u8)
      = of_nat ((la - p - 1) mod 16 * 16 + (n - 1))"
    unfolding d by (simp only: of_int_of_nat_eq)
qed

text \<open>An iteration of the main loop, with the output written token by token.\<close>

definition choose_token :: "u8 list \<Rightarrow> comp_state \<Rightarrow> (token \<times> nat \<times> nat option) option" where
  "choose_token inp s = do {
     let la = c_pLookAhead s;
     let lookAheadLength = (if c_inputLength s < LZSS_LOOKAHEAD then c_inputLength s else LZSS_LOOKAHEAD);
     c \<leftarrow> peek8 inp (int la);
     (e, pos) \<leftarrow> match_chain inp (c_hash s) la (nat lookAheadLength)
        (pStart (list_at (c_hash s) c)) 0 (c_pEncodedPosition s);
     if 3 \<le> e then do { p \<leftarrow> pos; Some (Copy (la - p) e, e, pos) } else Some (Lit c, 1, pos) }"

lemma compress_step_tokens:
  assumes "ready_cmd s = Some s1" and "choose_token inp s1 = Some (t, n, pos)"
    and "\<And>d e. t = Copy d e \<Longrightarrow> 1 \<le> d \<and> d \<le> 4096 \<and> d \<le> c_pLookAhead s1 \<and> e \<le> 16"
  shows "compress_step inp base s = do {
     s2 \<leftarrow> put_token t (s1\<lparr>c_pEncodedPosition := pos\<rparr>);
     z \<leftarrow> foldM (BuildHash inp base) [c_pLookAhead s1..<c_pLookAhead s1 + n] (c_hash s2);
     Some (s2\<lparr>c_hash := z, c_pLookAhead := c_pLookAhead s1 + n, c_inputLength := c_inputLength s2 - int n\<rparr>) }"
proof -
  define la where "la = c_pLookAhead s1"
  define len where "len = nat (if c_inputLength s1 < LZSS_LOOKAHEAD then c_inputLength s1 else LZSS_LOOKAHEAD)"
  obtain c where c: "peek8 inp (int la) = Some c"
    using assms(2) by (auto simp: choose_token_def la_def Let_def split: bind_splits)
  obtain e where m: "match_chain inp (c_hash s1) la len (pStart (list_at (c_hash s1) c)) 0 (c_pEncodedPosition s1) = Some (e, pos)"
    and ch: "(if 3 \<le> e then do { p \<leftarrow> pos; Some (Copy (la - p) e, e, pos) } else Some (Lit c, 1, pos)) = Some (t, n, pos)"
    using assms(2) c by (auto simp: choose_token_def la_def [symmetric] len_def [symmetric] Let_def split: bind_splits if_splits)
  have "compress_step inp base s = do {
     (encodedLength, s) \<leftarrow>
       (if 3 \<le> e then do {
          p \<leftarrow> pos;
          let d = int la - int p - 1;
          s \<leftarrow> upd_cmd (\<lambda>v. drop_bit 1 v OR 0x80) (s1\<lparr>c_pEncodedPosition := pos\<rparr>);
          s \<leftarrow> put_byte (of_int (drop_bit LZSS_LOOKSHIFT d)) s;
          s \<leftarrow> put_byte (of_int (push_bit LZSS_LOOKSHIFT d OR (int e - 1))) s;
          Some (e, s) }
        else do {
          s \<leftarrow> upd_cmd (drop_bit 1) (s1\<lparr>c_pEncodedPosition := pos\<rparr>);
          s \<leftarrow> put_byte c s;
          Some (1, s) });
     z \<leftarrow> foldM (BuildHash inp base) [la..<la + encodedLength] (c_hash s);
     Some (s\<lparr>c_hash := z, c_pLookAhead := la + encodedLength,
            c_inputLength := c_inputLength s - int encodedLength\<rparr>) }"
    unfolding compress_step_def
    by (simp only: assms(1) bind.bind_lunit Let_def la_def [symmetric] len_def [symmetric] c m prod.case)
  also have "\<dots> = do {
     s2 \<leftarrow> put_token t (s1\<lparr>c_pEncodedPosition := pos\<rparr>);
     z \<leftarrow> foldM (BuildHash inp base) [la..<la + n] (c_hash s2);
     Some (s2\<lparr>c_hash := z, c_pLookAhead := la + n, c_inputLength := c_inputLength s2 - int n\<rparr>) }"
  proof (cases "3 \<le> e")
    case True
    have "pos \<noteq> None"
    proof
      assume "pos = None"
      with ch True show False by simp
    qed
    then obtain p where pos: "pos = Some p" by blast
    have p: "t = Copy (la - p) e" "n = e"
      using ch unfolding if_P [OF True] pos bind.bind_lunit option.inject prod.inject by blast+
    then have d: "p < la" "la \<le> p + 4096" "1 \<le> e" "e \<le> 16" using assms(3) True la_def by fastforce+
    show ?thesis
      using True pos p copy_bytes_eq [OF d]
      by (simp add: put_token_def bind_assoc Let_def)
  next
    case False
    with ch have "t = Lit c" "n = 1" by simp_all
    with False show ?thesis by (simp add: put_token_def bind_assoc)
  qed
  finally show ?thesis by (simp add: la_def)
qed

subsection \<open>The compressor's loop invariant\<close>

text \<open>
  After any number of iterations the output holds the tokens so far, which expand to the
  input consumed so far, and the hash chains cover the window before the next position.
\<close>

definition comp_inv :: "u8 list \<Rightarrow> int \<Rightarrow> nat \<Rightarrow> nat \<Rightarrow> u8 list \<Rightarrow> comp_state \<Rightarrow> bool" where
  "comp_inv inp base w N hdr s \<longleftrightarrow> (\<exists>full g. out_inv hdr full g s \<and> tokens_ok (full @ g) [] \<and>
     expand (full @ g) [] = take (c_pLookAhead s) inp \<and>
     hash_inv inp base w (c_pLookAhead s) (c_hash s) \<and>
     int (c_pLookAhead s) + c_inputLength s = int N \<and> 0 \<le> c_inputLength s)"

lemma choose_token_ok:
  assumes inv: "hash_inv inp base w la (c_hash s)" and w: "w \<le> 4096" and la: "c_pLookAhead s = la"
    and N: "int la + c_inputLength s = int N" "N \<le> length inp" "0 < c_inputLength s"
  shows "\<exists>t n pos. choose_token inp s = Some (t, n, pos) \<and> 1 \<le> n \<and> la + n \<le> N \<and>
    token_ok t (take la inp) \<and> emit t (take la inp) = take (la + n) inp"
proof -
  define len where "len = nat (if c_inputLength s < LZSS_LOOKAHEAD then c_inputLength s else LZSS_LOOKAHEAD)"
  have len: "la + len \<le> N" "len \<le> 16" "1 \<le> len"
    using N by (auto simp: len_def LZSS_LOOKAHEAD_def LZSS_LOOKSHIFT_def)
  define c where "c = inp ! la"
  have lt: "la < length inp" using N by linarith
  then have c: "peek8 inp (int la) = Some c" by (simp add: c_def)
  have "case pStart (list_at (c_hash s) c) of None \<Rightarrow> True | Some a \<Rightarrow> \<exists>p. live (c_hash s) a p"
    using hash_inv_start [OF inv, of c] by (auto split: option.split)
  moreover have "best_ok inp w la len 0 (c_pEncodedPosition s)" by (simp add: best_ok_def)
  ultimately obtain e pos where m: "match_chain inp (c_hash s) la len (pStart (list_at (c_hash s) c)) 0 (c_pEncodedPosition s) = Some (e, pos)"
    and best: "best_ok inp w la len e pos"
    using match_chain_ok [OF inv, of len] len N(2) by (meson le_trans)
  have ch: "choose_token inp s = (if 3 \<le> e then do { p \<leftarrow> pos; Some (Copy (la - p) e, e, pos) } else Some (Lit c, 1, pos))"
    unfolding choose_token_def la Let_def len_def [symmetric] by (simp only: c m bind.bind_lunit prod.case)
  show ?thesis
  proof (cases "3 \<le> e")
    case True
    then obtain p where p: "pos = Some p" "p < la" "la \<le> p + w" "matches inp p la e" "e \<le> len"
      using best by (auto simp: best_ok_def)
    have "emit (Copy (la - p) e) (take la inp) = take (la + e) inp"
      using copy_n_matches [OF p(2) _ p(4)] len p(5) N(2) by simp
    moreover have "token_ok (Copy (la - p) e) (take la inp)"
      using p w True len lt by auto
    moreover have "choose_token inp s = Some (Copy (la - p) e, e, pos)"
      unfolding ch if_P [OF True] p(1) by (simp only: bind.bind_lunit)
    moreover have "1 \<le> e" "la + e \<le> N" using True p(5) len by linarith+
    ultimately show ?thesis by blast
  next
    case False
    have "emit (Lit c) (take la inp) = take (la + 1) inp"
      using lt by (simp add: c_def take_Suc_conv_app_nth)
    moreover have "la + 1 \<le> N" using N by linarith
    ultimately show ?thesis unfolding ch using False by force
  qed
qed

lemma expand_snoc: "expand (ts @ [t]) out = emit t (expand ts out)"
  by (simp add: expand_def)

lemma choose_token_cong:
  "same_input s s1 \<Longrightarrow> choose_token inp s1 = choose_token inp s"
  by (simp add: choose_token_def same_input_def)

lemma compress_step_ok:
  assumes inv: "comp_inv inp base w N hdr s" and w: "w = 2 ^ k" "w \<le> 4096" and N: "N \<le> length inp"
    and more: "0 < c_inputLength s" and room: "c_pOutput s + 3 \<le> length (c_out s)"
  shows "\<exists>s'. compress_step inp base s = Some s' \<and> comp_inv inp base w N hdr s' \<and>
    c_inputLength s' < c_inputLength s \<and> c_pOutput s' \<le> c_pOutput s + 3 \<and> length (c_out s') = length (c_out s)"
proof -
  obtain full g where o: "out_inv hdr full g s" and tok: "tokens_ok (full @ g) []"
    and ex: "expand (full @ g) [] = take (c_pLookAhead s) inp"
    and h: "hash_inv inp base w (c_pLookAhead s) (c_hash s)"
    and sum: "int (c_pLookAhead s) + c_inputLength s = int N"
    using inv by (auto simp: comp_inv_def)
  define la where "la = c_pLookAhead s"
  obtain t n pos where t: "choose_token inp s = Some (t, n, pos)" "1 \<le> n" "la + n \<le> N"
    "token_ok t (take la inp)" "emit t (take la inp) = take (la + n) inp"
    using choose_token_ok [OF h w(2) refl sum N more] la_def by blast
  obtain s1 s2 full' g' where s1: "ready_cmd s = Some s1" "same_input s s1"
    and s2: "put_token t (s1\<lparr>c_pEncodedPosition := pos\<rparr>) = Some s2" "same_input (s1\<lparr>c_pEncodedPosition := pos\<rparr>) s2"
      "full' @ g' = full @ g @ [t]" "out_inv hdr full' g' s2" "c_pOutput s2 \<le> c_pOutput s + 3"
    using write_token_ok [OF o room, of t] by blast
  have la1: "c_pLookAhead s1 = la" "c_hash s2 = c_hash s" "c_inputLength s2 = c_inputLength s" "length (c_out s2) = length (c_out s)"
    using s1(2) s2(2) by (simp_all add: same_input_def la_def)
  obtain z where z: "foldM (BuildHash inp base) [la..<la + n] (c_hash s2) = Some z" "hash_inv inp base w (la + n) z"
    using BuildHash_run [OF h w(1), of n] t(3) N la1(2) by (auto simp: la_def)
  let ?s' = "s2\<lparr>c_hash := z, c_pLookAhead := la + n, c_inputLength := c_inputLength s - int n\<rparr>"
  have "compress_step inp base s = Some ?s'"
  proof -
    have "1 \<le> d \<and> d \<le> 4096 \<and> d \<le> c_pLookAhead s1 \<and> e \<le> 16" if "t = Copy d e" for d e
      using t(4) that la1(1) by auto
    moreover have "choose_token inp s1 = Some (t, n, pos)" using t(1) choose_token_cong [OF s1(2)] by simp
    ultimately show ?thesis
      using compress_step_tokens [OF s1(1)] s2(1) z(1) la1 by (simp only: bind.bind_lunit)
  qed
  moreover have "comp_inv inp base w N hdr ?s'"
  proof -
    have all: "full' @ g' = (full @ g) @ [t]" using s2(3) by simp
    have "out_inv hdr full' g' ?s'" using s2(4) by (simp add: out_inv_def written_def)
    moreover have "tokens_ok (full' @ g') []"
      unfolding all using tok t(4) ex la_def by (subst tokens_ok_append) simp
    moreover have "expand (full' @ g') [] = take (la + n) inp"
      unfolding all expand_snoc ex la_def [symmetric] by (rule t(5))
    ultimately show ?thesis
      unfolding comp_inv_def using z(2) sum t(3) la_def by (intro exI [of _ full'] exI [of _ g']) auto
  qed
  ultimately show ?thesis using s2(5) t(2) la1 by auto
qed

lemma compress_loop_ok:
  assumes "comp_inv inp base w N hdr s" and "w = 2 ^ k" and "w \<le> 4096" and "N \<le> length inp"
    and "c_pOutput s + 3 \<le> length (c_out s)" and "pEndOut + 3 \<le> int (length (c_out s))"
  shows "\<exists>s' ok. compress_loop inp base pEndOut s = Some (s', ok) \<and> length (c_out s') = length (c_out s) \<and>
    (ok \<longrightarrow> comp_inv inp base w N hdr s' \<and> c_inputLength s' = 0 \<and> (s' = s \<or> int (c_pOutput s') < pEndOut))"
  using assms(1,5,6)
proof (induction "nat (c_inputLength s)" arbitrary: s rule: less_induct)
  case less
  show ?case
  proof (cases "0 < c_inputLength s")
    case False
    then have "c_inputLength s = 0" using less.prems(1) by (auto simp: comp_inv_def)
    then show ?thesis using less.prems(1) by (subst compress_loop.simps) auto
  next
    case True
    obtain s1 where s1: "compress_step inp base s = Some s1" "comp_inv inp base w N hdr s1"
      "c_inputLength s1 < c_inputLength s" "length (c_out s1) = length (c_out s)"
      using compress_step_ok [OF less.prems(1) assms(2-4) True less.prems(2)] by blast
    show ?thesis
    proof (cases "pEndOut \<le> int (c_pOutput s1)")
      case stop: True
      then show ?thesis using True s1 by (subst compress_loop.simps) auto
    next
      case go: False
      have "nat (c_inputLength s1) < nat (c_inputLength s)" using s1(3) True by simp
      from less.hyps [OF this s1(2)] go less.prems(3) s1(4) obtain s' ok where
        "compress_loop inp base pEndOut s1 = Some (s', ok)" "length (c_out s') = length (c_out s)"
        "ok \<longrightarrow> comp_inv inp base w N hdr s' \<and> c_inputLength s' = 0 \<and> (s' = s1 \<or> int (c_pOutput s') < pEndOut)"
        by auto
      then show ?thesis using True s1(1) go by (subst compress_loop.simps) auto
    qed
  qed
qed

lemma foldM_one: "foldM f [x] = f x"
  by (rule ext) (simp split: bind_splits)

lemma compress_finish_ok:
  assumes "out_inv hdr full g s" and "c_pOutput s + 3 \<le> length (c_out s)"
  shows "\<exists>s'. compress_finish s = Some s' \<and> written s' (hdr @ lz_body ((full @ g) @ [end_token])) \<and>
    length (c_out s') = length (c_out s) \<and> c_pOutput s' \<le> c_pOutput s + 3"
proof -
  let ?e = "g @ [end_token]" and ?p = "length hdr + length (lz_body full)"
  have g: "length g < 8" "8 dvd length full" "c_putCmdByte s = int (length g)" using assms(1) by (simp_all add: out_inv_def)
  let ?cmd = "if c_putCmdByte s = 0 then new_cmd 1 s
           else upd_cmd (\<lambda>v. drop_bit (nat (7 - c_putCmdByte s)) (drop_bit 1 v OR 0x80)) s"
  have "\<exists>s1. ?cmd = Some s1 \<and> written s1 (hdr @ lz_body full @ flags ?e # concat (map payload g)) \<and>
      length (c_out s1) = length (c_out s) \<and> c_pOutput s1 \<le> c_pOutput s + 1"
  proof (cases "g = []")
    case True
    then have w: "written (s\<lparr>c_pCmdByte := Some ?p\<rparr>) (hdr @ lz_body full)" "c_pOutput s = ?p"
      using assms(1) by (simp_all add: out_inv_def open_body_def written_def)
    have "flags ?e = 1" using True by (simp add: flags_def end_token_def)
    with put_byte_ok [OF w(1), of 1] True g w(2) assms(2) show ?thesis by (auto simp: new_cmd_def)
  next
    case False
    let ?xs = "hdr @ lz_body full @ push_bit (8 - length g) (flags g) # concat (map payload g)"
    have w: "written s ?xs" "c_pCmdByte s = Some ?p"
      using assms(1) False by (simp_all add: out_inv_def open_body_def)
    have "nat (7 - c_putCmdByte s) = 8 - length ?e" using g by auto
    moreover have "drop_bit 1 (push_bit (8 - length g) (flags g)) OR 0x80 = push_bit (8 - length ?e) (flags ?e)"
      using shift_flags [OF g(1), of end_token] by (simp add: end_token_def)
    ultimately have f: "drop_bit (nat (7 - c_putCmdByte s)) (drop_bit 1 (push_bit (8 - length g) (flags g)) OR 0x80) = flags ?e"
      using unshift_flags [of ?e] g(1) by simp
    have "?xs[?p := flags ?e] = hdr @ lz_body full @ flags ?e # concat (map payload g)"
      "?xs ! ?p = push_bit (8 - length g) (flags g)"
      by (simp_all add: list_update_append nth_append)
    with upd_cmd_ok [OF w, of "\<lambda>v. drop_bit (nat (7 - c_putCmdByte s)) (drop_bit 1 v OR 0x80)"] f False g(3)
    show ?thesis by auto
  qed
  then obtain s1 where s1: "?cmd = Some s1" "written s1 (hdr @ lz_body full @ flags ?e # concat (map payload g))"
      "length (c_out s1) = length (c_out s)" "c_pOutput s1 \<le> c_pOutput s + 1" by blast
  have pos: "c_pOutput s1 = length (hdr @ lz_body full @ flags ?e # concat (map payload g))"
    using s1(2) by (simp add: written_def)
  have "lz_body ((full @ g) @ [end_token]) = lz_body full @ flags ?e # concat (map payload g) @ [0, 0]"
    using g lz_body_append [of full ?e] lz_body_group [of ?e] by (simp add: end_token_def)
  with put_bytes_ok [OF s1(2), of "[0, 0]"] s1 pos assms(2) show ?thesis
    by (auto simp: compress_finish_def bind_assoc foldM_one)
qed

subsection \<open>The header round trip\<close>

definition le4 :: "u32 \<Rightarrow> u8 list" where
  "le4 w = [ucast w, ucast (drop_bit 8 w), ucast (drop_bit 16 w), ucast (drop_bit 24 w)]"

lemma length_le4 [simp]: "length (le4 w) = 4"
  by (simp add: le4_def)

lemma join_le4:
  "ucast (ucast w :: u8) OR push_bit 8 (ucast (ucast (drop_bit 8 w) :: u8)) OR
    push_bit 16 (ucast (ucast (drop_bit 16 w) :: u8)) OR push_bit 24 (ucast (ucast (drop_bit 24 w) :: u8)) = (w::u32)"
proof (rule bit_word_eqI)
  fix n :: nat assume "n < LENGTH(32)"
  then show "bit (ucast (ucast w :: u8) OR push_bit 8 (ucast (ucast (drop_bit 8 w) :: u8)) OR
    push_bit 16 (ucast (ucast (drop_bit 16 w) :: u8)) OR push_bit 24 (ucast (ucast (drop_bit 24 w) :: u8)) :: u32) n = bit w n"
    by (cases "n < 8"; cases "n < 16"; cases "n < 24")
      (auto simp: bit_or_iff bit_push_bit_iff bit_ucast_byte bit_ucast_iff bit_drop_bit_eq)
qed

lemma load32_le4: "length pre = a \<Longrightarrow> load32 (pre @ le4 w @ post) (int a) = Some w"
proof -
  assume a: "length pre = a"
  have "peek8 (pre @ le4 w @ post) (int a + int j) = Some (le4 w ! j)" if "j < 4" for j
    using that a by (simp add: peek8_def nth_append nat_int_add)
  from this [of 0] this [of 1] this [of 2] this [of 3] show ?thesis
    using join_le4 [of w] by (simp add: load32_def le4_def numeral_eq_Suc)
qed

lemma store32_eq:
  assumes "a + 4 \<le> length m"
  shows "store32 m (int a) w = Some (take a m @ le4 w @ drop (a + 4) m)"
proof -
  have i: "nat (int a + 1) = a + 1" "nat (int a + 2) = a + 2" "nat (int a + 3) = a + 3" by linarith+
  have "store32 m (int a) w = Some (m[a := ucast w, a + 1 := ucast (drop_bit 8 w), a + 2 := ucast (drop_bit 16 w), a + 3 := ucast (drop_bit 24 w)])"
    using assms by (simp add: store32_def i)
  also have "m[a := ucast w, a + 1 := ucast (drop_bit 8 w), a + 2 := ucast (drop_bit 16 w), a + 3 := ucast (drop_bit 24 w)]
      = take a m @ le4 w @ drop (a + 4) m"
  proof (rule nth_equalityI)
    fix j assume "j < length (m[a := ucast w, a + 1 := ucast (drop_bit 8 w), a + 2 := ucast (drop_bit 16 w), a + 3 := ucast (drop_bit 24 w)])"
    then have j: "j < length m" by simp
    consider "j < a" | "j = a" | "j = a + 1" | "j = a + 2" | "j = a + 3" | "a + 4 \<le> j" by linarith
    then show "m[a := ucast w, a + 1 := ucast (drop_bit 8 w), a + 2 := ucast (drop_bit 16 w), a + 3 := ucast (drop_bit 24 w)] ! j
        = (take a m @ le4 w @ drop (a + 4) m) ! j"
    proof cases
      case 6
      then show ?thesis using assms j by (simp add: nth_append le4_def)
    qed (use assms j in \<open>simp_all add: nth_append le4_def nth_list_update numeral_eq_Suc\<close>)
  qed (use assms in simp)
  finally show ?thesis .
qed

definition lzss_header :: "nat \<Rightarrow> u8 list" where
  "lzss_header N = le4 LZSS_ID @ le4 (of_nat N)"

lemma length_lzss_header [simp]: "length (lzss_header N) = 8"
  by (simp add: lzss_header_def)

lemma GetActualSize_header: "GetActualSize (Some (lzss_header N @ rest)) = Some (of_nat N)"
  "IsCompressed (Some (lzss_header N @ rest)) = Some True"
  using load32_le4 [of "[]" 0 LZSS_ID] load32_le4 [of "le4 LZSS_ID" 4 "of_nat N" rest]
  by (simp_all add: GetActualSize_def IsCompressed_def lzss_header_def)

subsection \<open>Compression as a whole\<close>

lemma CompressNoAlloc_ok:
  assumes w: "m_nWindowSize this = 2 ^ k" "k \<le> 12" and N: "16 < N" "N < 2 ^ 31" "N \<le> length inp" "N \<le> length out"
    and al: "al_table al" "al_target al"
  shows "\<exists>z out' r. CompressNoAlloc al this inp base (int N) (Some out) = Some (z, Some out', r) \<and> length out' = length out \<and>
    (case r of None \<Rightarrow> True | Some n \<Rightarrow> unat n < N \<and> (\<exists>ts. tokens_ok ts [] \<and> expand ts [] = take N inp \<and>
        take (unat n) out' = lzss_header N @ lz_body (ts @ [end_token])))"
proof -
  define W where "W = (2::nat) ^ k"
  have W: "W \<le> 4096" "m_nWindowSize this = int W"
    using w power_increasing [of k 12 "2::nat"] by (simp_all add: W_def)
  define z where "z = this\<lparr>m_pHashTable := replicate 256 null_list, m_pHashTarget := replicate W null_node\<rparr>"
  have nodes: "nat (m_nWindowSize this * lzss_node_size mod 2 ^ 32 div lzss_node_size) = W"
    using W by (simp add: lzss_node_size_def)
  define out1 where "out1 = lzss_header N @ drop 8 out"
  have st: "store32 out 0 LZSS_ID = Some (le4 LZSS_ID @ drop 4 out)"
    "store32 (le4 LZSS_ID @ drop 4 out) 4 (of_int (int N)) = Some out1"
    using store32_eq [of 0 out LZSS_ID] store32_eq [of 4 "le4 LZSS_ID @ drop 4 out" "of_nat N"] N
    by (simp_all add: out1_def lzss_header_def)
  define s where "s = \<lparr>c_hash = z, c_out = out1, c_inputLength = int N, c_pOutput = lzss_header_size,
            c_pLookAhead = 0, c_pEncodedPosition = None, c_pCmdByte = None, c_putCmdByte = 0\<rparr>"
  have len1: "length out1 = length out" using N by (simp add: out1_def)
  have "hash_inv inp base W 0 z"
    using hash_inv_empty [OF W(2), of inp base] W(2) by (simp add: z_def)
  moreover have "out_inv (lzss_header N) [] [] s"
    using N by (simp add: out_inv_def written_def s_def open_body_def lzss_header_size_def out1_def)
  ultimately have "comp_inv inp base W N (lzss_header N) s"
    unfolding comp_inv_def by (intro exI [of _ "[]"]) (simp add: s_def expand_def)
  then obtain s' ok where s': "compress_loop inp base (int N - 16) s = Some (s', ok)" "length (c_out s') = length out"
    "ok \<longrightarrow> comp_inv inp base W N (lzss_header N) s' \<and> c_inputLength s' = 0 \<and> (s' = s \<or> int (c_pOutput s') < int N - 16)"
    using compress_loop_ok [of inp base W N "lzss_header N" s k "int N - 16"] W N len1
    by (auto simp: s_def lzss_header_size_def W_def)
  have big: "\<not> (of_int (int N) :: u32) \<le> of_nat lzss_header_size + 8"
    using N by (simp add: lzss_header_size_def word_le_nat_alt unsigned_of_nat take_bit_nat_eq_self)
  have run: "CompressNoAlloc al this inp base (int N) (Some out) =
      (if \<not> ok \<or> c_inputLength s' \<noteq> 0 then Some (c_hash s', Some (c_out s'), None)
       else do { s \<leftarrow> compress_finish s'; Some (c_hash s, Some (c_out s), Some (of_nat (c_pOutput s))) })"
    unfolding CompressNoAlloc_def if_not_P [OF big] Let_def malloc_zeroed_def if_P [OF al(1)] if_P [OF al(2)] nodes
      bind.bind_lunit z_def [symmetric]
    using s'(1) by (simp add: st s_def lzss_header_size_def del: of_int_of_nat_eq)
  show ?thesis
  proof (cases ok)
    case False
    then show ?thesis using run s'(2) by simp
  next
    case True
    then obtain full g where fg: "out_inv (lzss_header N) full g s'" "tokens_ok (full @ g) []"
      "expand (full @ g) [] = take (c_pLookAhead s') inp" "c_pLookAhead s' = N" "c_inputLength s' = 0"
      using s'(3) by (auto simp: comp_inv_def)
    have low: "int (c_pOutput s') < int N - 16" using True s'(3) fg(5) N by (auto simp: s_def)
    then obtain s2 where s2: "compress_finish s' = Some s2" "length (c_out s2) = length out"
      and fin: "c_pOutput s2 \<le> c_pOutput s' + 3" and wr:
      "written s2 (lzss_header N @ lz_body ((full @ g) @ [end_token]))"
      using compress_finish_ok [OF fg(1)] s'(2) N by auto
    have n: "unat (of_nat (c_pOutput s2) :: u32) = c_pOutput s2"
      using fin low N by (simp add: unsigned_of_nat take_bit_nat_eq_self)
    show ?thesis
      using run True fg s2 wr n fin low by (auto simp: written_def intro!: exI [of _ "full @ g"])
  qed
qed

lemma Uncompress_expands:
  assumes "tokens_ok ts []" and "length (expand ts []) = N" and "0 < N" and "N < 2 ^ 31" and "N \<le> length obuf"
  shows "\<exists>obuf'. Uncompress (Some (lzss_header N @ lz_body (ts @ [end_token]) @ rest)) obuf = Some (obuf', of_nat N) \<and>
    take N obuf' = expand ts [] \<and> length obuf' = length obuf"
proof -
  let ?inp = "lzss_header N @ lz_body (ts @ [end_token]) @ rest"
  have "holds ?inp (int lzss_header_size) (lz_body (ts @ [end_token]))"
    by (simp add: holds_def lzss_header_size_def)
  moreover have "decoded obuf obuf []" by (simp add: decoded_def)
  ultimately obtain obuf' where d: "decoded obuf obuf' (expand ts [])"
    "uncompress_loop ?inp (int lzss_header_size) obuf 0 0 0 0 = Some (obuf', of_nat (length (expand ts [])))"
    using uncompress_body [of obuf obuf "[]" ts ?inp "int lzss_header_size" 0] assms(1,2,5) by auto
  have "(of_nat N :: u32) \<noteq> 0"
    using assms(3,4) by (simp add: word_of_nat_eq_0_iff nat_dvd_not_less)
  then show ?thesis
    using d assms(2) GetActualSize_header(1) [of N "lz_body (ts @ [end_token]) @ rest"]
    by (auto simp: Uncompress_def decoded_def)
qed

lemma CompressNoAlloc_fails:
  assumes "16 < N" and "N < 2 ^ 31" and "\<not> (b \<noteq> None \<and> al_table al \<and> al_target al)"
  shows "CompressNoAlloc al this inp base (int N) b = None"
proof -
  have "\<not> (of_int (int N) :: u32) \<le> of_nat lzss_header_size + 8"
    using assms(1,2) by (simp add: lzss_header_size_def word_le_nat_alt unsigned_of_nat take_bit_nat_eq_self)
  then show ?thesis
    using assms(3) unfolding CompressNoAlloc_def malloc_zeroed_def Let_def by (cases b) (simp_all del: of_int_of_nat_eq)
qed

subsection \<open>Decompression outside the buffer\<close>

text \<open>A run that ends would end in the same way in a larger buffer, and leave the rest of it alone.\<close>

lemma copy_back_frame:
  "copy_back n src out dst = Some (out', dst') \<Longrightarrow> copy_back n src (out @ ext) dst = Some (out' @ ext, dst') \<and> length out' = length out"
proof (induction n src out dst rule: copy_back.induct)
  case (2 n src out dst)
  then show ?case
    by (auto simp: peek8_def poke8_def nth_append list_update_append split: bind_splits if_splits)
qed simp

lemma uncompress_loop_frame:
  "uncompress_loop inp pIn out pOut tb cmd g = Some r \<Longrightarrow>
    uncompress_loop inp pIn (out @ ext) pOut tb cmd g = Some (fst r @ ext, snd r) \<and> length (fst r) = length out"
proof (rule uncompress_loop.raw_induct [where P = "\<lambda>inp pIn out pOut tb cmd g r.
    uncompress_loop inp pIn (out @ ext) pOut tb cmd g = Some (fst r @ ext, snd r) \<and> length (fst r) = length out"], goal_cases)
  case (1 loop inp pIn out pOut tb cmd g r)
  let ?f = "\<lambda>loop out. (\<lambda>(cmdByte, pIn).
     let getCmdByte = (g + 1) AND 7 in
     if cmdByte AND 1 \<noteq> 0 then
       Option.bind (peek8 inp pIn) (\<lambda>b0.
       Option.bind (peek8 inp (pIn + 1)) (\<lambda>b1.
         let position = push_bit LZSS_LOOKSHIFT (uint b0) OR drop_bit LZSS_LOOKSHIFT (uint b1);
             count = (uint b1 AND 0x0F) + 1
         in if count = 1 then Some (out, tb)
            else Option.bind (copy_back (nat count) (pOut - position - 1) out pOut) (\<lambda>(out, pOut).
              loop inp (pIn + 2) out pOut (tb + of_int count) (drop_bit 1 cmdByte) getCmdByte)))
     else
       Option.bind (peek8 inp pIn) (\<lambda>v.
       Option.bind (poke8 out pOut v) (\<lambda>out.
         loop inp (pIn + 1) out (pOut + 1) (tb + 1) (drop_bit 1 cmdByte) getCmdByte)))"
  let ?fetch = "if g = 0 then map_option (\<lambda>c. (uint c, pIn + 1)) (peek8 inp pIn) else Some (cmd, pIn)"
  have run: "Option.bind ?fetch (?f loop out) = Some r" using 1(3) .
  note IH = 1(2)
  from run obtain x where "?fetch = Some x" "?f loop out x = Some r" unfolding bind_eq_Some_conv by blast
  moreover obtain c q where "x = (c, q)" by (cases x)
  ultimately have fetch: "?fetch = Some (c, q)" and step: "?f loop out (c, q) = Some r" by blast+
  have "?f uncompress_loop (out @ ext) (c, q) = Some (fst r @ ext, snd r) \<and> length (fst r) = length out"
  proof (cases "c AND 1 \<noteq> 0")
    case True
    then obtain b0 b1 where b: "peek8 inp q = Some b0" "peek8 inp (q + 1) = Some b1" using step by (auto split: bind_splits)
    show ?thesis
    proof (cases "(uint b1 AND 0x0F) + 1 = 1")
      case True
      then show ?thesis using \<open>c AND 1 \<noteq> 0\<close> step by (auto simp: b)
    next
      case False
      let ?n = "nat ((uint b1 AND 0x0F) + 1)" and ?p = "pOut - (push_bit LZSS_LOOKSHIFT (uint b0) OR drop_bit LZSS_LOOKSHIFT (uint b1)) - 1"
      obtain out1 pOut1 where c1: "copy_back ?n ?p out pOut = Some (out1, pOut1)"
        "loop inp (q + 2) out1 pOut1 (tb + of_int ((uint b1 AND 0x0F) + 1)) (drop_bit 1 c) ((g + 1) AND 7) = Some r"
        using step True False by (auto simp: b Let_def split: bind_splits)
      from IH [OF c1(2)] copy_back_frame [OF c1(1), of ext] show ?thesis
        using True False by (simp add: b Let_def)
    qed
  next
    case False
    then obtain v out1 where c1: "peek8 inp q = Some v" "poke8 out pOut v = Some out1"
      "loop inp (q + 1) out1 (pOut + 1) (tb + 1) (drop_bit 1 c) ((g + 1) AND 7) = Some r"
      using step by (auto split: bind_splits)
    have "poke8 (out @ ext) pOut v = Some (out1 @ ext)" "length out1 = length out"
      using c1(2) by (auto simp: poke8_def list_update_append split: if_splits)
    with IH [OF c1(3)] False c1(1) show ?thesis by simp
  qed
  then show ?case using fetch by (subst uncompress_loop.simps) simp
qed

lemma Uncompress_overrun:
  assumes "tokens_ok ts []" and "0 < N" and "N < 2 ^ 32" and "length obuf < length (expand ts [])"
  shows "Uncompress (Some (lzss_header N @ lz_body (ts @ [end_token]) @ rest)) obuf = None"
proof -
  let ?inp = "lzss_header N @ lz_body (ts @ [end_token]) @ rest" and ?ex = "expand ts []"
  define ext where "ext = replicate (length ?ex) (?ex ! length obuf + 1)"
  have "holds ?inp (int lzss_header_size) (lz_body (ts @ [end_token]))" by (simp add: holds_def lzss_header_size_def)
  moreover have "decoded (obuf @ ext) (obuf @ ext) []" by (simp add: decoded_def)
  ultimately obtain out where out: "decoded (obuf @ ext) out ?ex"
    "uncompress_loop ?inp (int lzss_header_size) (obuf @ ext) 0 0 0 0 = Some (out, of_nat (length ?ex))"
    using uncompress_body [of "obuf @ ext" "obuf @ ext" "[]" ts ?inp "int lzss_header_size" 0] assms(1) by (auto simp: ext_def)
  have "uncompress_loop ?inp (int lzss_header_size) obuf 0 0 0 0 = None"
  proof (rule ccontr)
    assume "uncompress_loop ?inp (int lzss_header_size) obuf 0 0 0 0 \<noteq> None"
    then obtain r where "uncompress_loop ?inp (int lzss_header_size) obuf 0 0 0 0 = Some r" by blast
    from uncompress_loop_frame [OF this, of ext] out(2) have "out = fst r @ ext" "length (fst r) = length obuf" by simp_all
    moreover have "ext ! 0 = ?ex ! length obuf + 1" unfolding ext_def by (rule nth_replicate) (use assms(4) in linarith)
    ultimately have "out ! length obuf = ?ex ! length obuf + 1" by (simp add: nth_append)
    moreover have "out ! length obuf = ?ex ! length obuf"
      using out(1) assms(4) nth_take [of "length obuf" "length ?ex" out] by (simp add: decoded_def)
    ultimately show False by simp
  qed
  moreover have "(of_nat N :: u32) \<noteq> 0" using assms(2,3) by (simp add: word_of_nat_eq_0_iff nat_dvd_not_less)
  ultimately show ?thesis using GetActualSize_header(1) [of N "lz_body (ts @ [end_token]) @ rest"] by (simp add: Uncompress_def)
qed

subsection \<open>Properties\<close>

text \<open>
  C6: Compression is safe and lossless. For every window that is a power of two up to 4096, the
  default size and the largest whose distances fit the 12 bits of a token, every input buffer at every address and
  every length up to its size, \<open>Compress\<close> returns, with no access outside the buffers and no
  endless chain, exactly if there is nothing to compress or all three \<open>malloc\<close> calls succeed; and
  whenever it returns a buffer, the reported bytes are fewer than the input and \<open>Uncompress\<close> on
  exactly these bytes, into any buffer of at least the original length, restores the input and
  returns its length.
\<close>

theorem lzss_roundtrip:
  assumes "m_nWindowSize this = 2 ^ k" and "k \<le> 12" and "N \<le> length inp" and "N < 2 ^ 31" and "N \<le> length obuf"
  shows "\<exists>z r. Compress al this inp base (int N) =
      (if N \<le> 16 \<or> al_out al \<noteq> None \<and> al_table al \<and> al_target al then Some (z, r) else None) \<and>
    (case r of None \<Rightarrow> True
     | Some (buf, n) \<Rightarrow> length buf = N \<and> unat n < N \<and> IsCompressed (Some (take (unat n) buf)) = Some True \<and>
         (\<exists>obuf'. Uncompress (Some (take (unat n) buf)) obuf = Some (obuf', of_nat N) \<and>
            take N obuf' = take N inp \<and> length obuf' = length obuf))"
proof (cases "16 < N \<and> al_out al \<noteq> None \<and> al_table al \<and> al_target al")
  case False
  show ?thesis
  proof (cases "16 < N")
    case True
    then have "CompressNoAlloc al this inp base (int N) (malloc_block (al_out al) (int N)) = None"
      using CompressNoAlloc_fails [OF True assms(4)] False by (simp add: malloc_block_def)
    then show ?thesis using False True by (intro exI [of _ this] exI [of _ None]) (simp add: Compress_def)
  next
    case False
    then have "(of_int (int N) :: u32) \<le> of_nat lzss_header_size + 8"
      by (simp add: lzss_header_size_def word_le_nat_alt unsigned_of_nat take_bit_nat_eq_self)
    then have "CompressNoAlloc al this inp base (int N) b = Some (this, b, None)" for b
      unfolding CompressNoAlloc_def by (rule if_P)
    then show ?thesis using False by (simp add: Compress_def)
  qed
next
  case True
  then obtain mem where "al_out al = Some mem" by blast
  then have "malloc_block (al_out al) (int N) = Some (map mem [0..<N])" using assms(4) by (simp add: malloc_block_def)
  moreover obtain z out r where c: "CompressNoAlloc al this inp base (int N) (Some (map mem [0..<N])) = Some (z, Some out, r)"
    "length out = N"
    "case r of None \<Rightarrow> True | Some n \<Rightarrow> unat n < N \<and> (\<exists>ts. tokens_ok ts [] \<and> expand ts [] = take N inp \<and>
        take (unat n) out = lzss_header N @ lz_body (ts @ [end_token]))"
    using CompressNoAlloc_ok [OF assms(1,2) _ assms(4,3), of "map mem [0..<N]" al base] True by auto
  moreover have "case r of None \<Rightarrow> True | Some n \<Rightarrow> IsCompressed (Some (take (unat n) out)) = Some True \<and>
      (\<exists>obuf'. Uncompress (Some (take (unat n) out)) obuf = Some (obuf', of_nat N) \<and>
            take N obuf' = take N inp \<and> length obuf' = length obuf)"
  proof (cases r)
    case (Some n)
    then obtain ts where ts: "tokens_ok ts []" "expand ts [] = take N inp"
      "take (unat n) out = lzss_header N @ lz_body (ts @ [end_token])" using c(3) by auto
    then show ?thesis
      using Some Uncompress_expands [OF ts(1), of N obuf "[]"] ts(2,3) assms(3-5) True GetActualSize_header(2) by simp
  qed simp
  ultimately show ?thesis using True by (cases r) (simp_all add: Compress_def)
qed

definition sample_alloc :: lzss_alloc where
  "sample_alloc = \<lparr>al_out = Some (\<lambda>_. 0), al_table = True, al_target = True\<rparr>"

declare compress_loop.simps [code] match_chain.simps [code] uncompress_loop.simps [code]

lemma Compress_example: "map_option (\<lambda>(z, r). map_option (\<lambda>(b, n). take (unat n) b) r)
    (Compress sample_alloc \<lparr>m_pHashTable = [], m_pHashTarget = [], m_nWindowSize = 1\<rparr> (replicate 40 65) 0 40)
  = Some (Some [76, 90, 83, 83, 40, 0, 0, 0, 30, 65, 0, 15, 0, 15, 0, 6, 0, 0])"
  by code_simp

theorem lzss_roundtrip_witness:
  "\<exists>obuf'. Uncompress (Some [76, 90, 83, 83, 40, 0, 0, 0, 30, 65, 0, 15, 0, 15, 0, 6, 0, 0]) (replicate 40 0)
      = Some (obuf', of_nat 40) \<and> take 40 obuf' = take 40 (replicate 40 65)"
proof -
  define C where "C = Compress sample_alloc \<lparr>m_pHashTable = [], m_pHashTarget = [], m_nWindowSize = 1\<rparr> (replicate 40 65) 0 (int 40)"
  have al: "(if 40 \<le> (16 :: nat) \<or> al_out sample_alloc \<noteq> None \<and> al_table sample_alloc \<and> al_target sample_alloc then x else None) = x" for x :: "'x option"
    by (simp add: sample_alloc_def)
  have "\<exists>z r. C = (if 40 \<le> (16 :: nat) \<or> al_out sample_alloc \<noteq> None \<and> al_table sample_alloc \<and> al_target sample_alloc then Some (z, r) else None) \<and>
    (case r of None \<Rightarrow> True
     | Some (buf, n) \<Rightarrow> length buf = 40 \<and> unat n < 40 \<and> IsCompressed (Some (take (unat n) buf)) = Some True \<and>
         (\<exists>obuf'. Uncompress (Some (take (unat n) buf)) (replicate 40 0) = Some (obuf', of_nat 40) \<and>
            take 40 obuf' = take 40 (replicate 40 65) \<and> length obuf' = length (replicate 40 (0::u8))))"
    unfolding C_def by (rule lzss_roundtrip [of _ 0]) simp_all
  then obtain z r where C: "C = Some (z, r)" and r: "case r of None \<Rightarrow> True
     | Some (buf, n) \<Rightarrow> length buf = 40 \<and> unat n < 40 \<and> IsCompressed (Some (take (unat n) buf)) = Some True \<and>
         (\<exists>obuf'. Uncompress (Some (take (unat n) buf)) (replicate 40 0) = Some (obuf', of_nat 40) \<and>
            take 40 obuf' = take 40 (replicate 40 65) \<and> length obuf' = length (replicate 40 (0::u8)))" unfolding al by blast
  have "map_option (\<lambda>(z, r). map_option (\<lambda>(b, n). take (unat n) b) r) C
      = Some (Some [76, 90, 83, 83, 40, 0, 0, 0, 30, 65, 0, 15, 0, 15, 0, 6, 0, 0])"
    using Compress_example unfolding C_def of_nat_numeral .
  then obtain buf n where "r = Some (buf, n)" "take (unat n) buf = [76, 90, 83, 83, 40, 0, 0, 0, 30, 65, 0, 15, 0, 15, 0, 6, 0, 0]"
    unfolding C by (auto simp only: option.map prod.case option.inject map_option_eq_Some split: prod.splits)
  then show ?thesis using r by (simp only: option.case prod.case) blast
qed

text \<open>
  C37: Decompression computes the meaning of the token stream: for every well-formed stream of
  literals and back references that expands to \<open>N\<close> bytes, any bytes behind it and any
  output buffer of at least \<open>N\<close> bytes, \<open>Uncompress\<close> writes exactly the expansion and
  returns \<open>N\<close>.
\<close>

theorem lzss_uncompress_tokens:
  assumes "tokens_ok ts []" and "length (expand ts []) = N" and "0 < N" and "N < 2 ^ 31" and "N \<le> length obuf"
  shows "\<exists>obuf'. Uncompress (Some (lzss_header N @ lz_body (ts @ [end_token]) @ rest)) obuf = Some (obuf', of_nat N) \<and>
    take N obuf' = expand ts [] \<and> length obuf' = length obuf"
  by (rule Uncompress_expands [OF assms])

theorem lzss_uncompress_tokens_witness:
  "\<exists>obuf'. Uncompress (Some (lzss_header 5 @ lz_body ([Lit 1, Lit 2, Copy 2 3] @ [end_token]) @ [9])) (replicate 6 0)
      = Some (obuf', of_nat 5) \<and> take 5 obuf' = expand [Lit 1, Lit 2, Copy 2 3] [] \<and> length obuf' = length (replicate 6 (0::u8))"
  by (rule lzss_uncompress_tokens) (simp_all add: expand_def numeral_3_eq_3)

text \<open>
  C36: The hash chains. After the first \<open>la\<close> bytes of any input have been entered, slot reuse
  included, the chains satisfy the invariant: every chain is finite, strictly descending
  and inside the window; the search from the list of the next byte returns, and a match it
  reports lies in the window, so its distance fits the 12 bits of a token, and agrees with
  the input on its whole length.
\<close>

theorem lzss_hash_search:
  assumes "m_nWindowSize this = 2 ^ k" and "k \<le> 12" and "la + len \<le> length inp" and "0 < len"
  shows "\<exists>z e pos. foldM (BuildHash inp base) [0..<la] (this\<lparr>m_pHashTable := replicate 256 null_list,
        m_pHashTarget := replicate (2 ^ k) null_node\<rparr>) = Some z \<and> hash_inv inp base (2 ^ k) la z \<and>
    match_chain inp z la len (pStart (list_at z (inp ! la))) 0 None = Some (e, pos) \<and> e \<le> len \<and>
    (0 < e \<longrightarrow> (\<exists>p. pos = Some p \<and> p < la \<and> la - p - 1 < 4096 \<and> matches inp p la e))"
proof -
  let ?z = "this\<lparr>m_pHashTable := replicate 256 null_list, m_pHashTarget := replicate (2 ^ k) null_node\<rparr>"
  have w: "(2::nat) ^ k \<le> 4096" using power_increasing [OF assms(2), of "2::nat"] by simp
  have "hash_inv inp base (2 ^ k) 0 ?z" by (rule hash_inv_empty) (simp add: assms(1))
  then obtain z where z: "foldM (BuildHash inp base) [0..<0 + la] ?z = Some z" "hash_inv inp base (2 ^ k) (0 + la) z"
    using BuildHash_run [of inp base "2 ^ k" 0 ?z k la] assms(3) by auto
  have "case pStart (list_at z (inp ! la)) of None \<Rightarrow> True | Some a \<Rightarrow> \<exists>p. live z a p"
    using hash_inv_start [OF z(2), of "inp ! la"] by (auto split: option.split)
  moreover have "best_ok inp (2 ^ k) la len 0 None" by (simp add: best_ok_def)
  ultimately obtain e pos where "match_chain inp z la len (pStart (list_at z (inp ! la))) 0 None = Some (e, pos)"
      "best_ok inp (2 ^ k) la len e pos"
    using match_chain_ok [OF z(2)] assms(3) by fastforce
  with z w show ?thesis by (fastforce simp: best_ok_def)
qed

theorem lzss_hash_search_witness:
  "\<exists>z e pos. foldM (BuildHash [1, 1, 2, 1, 1] 6) [0..<3] (\<lparr>m_pHashTable = [], m_pHashTarget = [], m_nWindowSize = 2\<rparr>\<lparr>m_pHashTable := replicate 256 null_list,
        m_pHashTarget := replicate (2 ^ 1) null_node\<rparr>) = Some z \<and> hash_inv [1, 1, 2, 1, 1] 6 (2 ^ 1) 3 z \<and>
    match_chain [1, 1, 2, 1, 1] z 3 2 (pStart (list_at z ([1, 1, 2, 1, 1] ! 3))) 0 None = Some (e, pos) \<and> e \<le> 2 \<and>
    (0 < e \<longrightarrow> (\<exists>p. pos = Some p \<and> p < 3 \<and> 3 - p - 1 < 4096 \<and> matches [1, 1, 2, 1, 1] p 3 e))"
  by (rule lzss_hash_search) simp_all

text \<open>
  C38: \<open>Uncompress\<close> trusts the stream. For every well-formed stream of tokens that expands to more
  bytes than the output buffer has, whatever size other than 0 its header announces and whatever
  follows it, the call accesses memory outside the output buffer: the announced size is looked at
  only after the last token.
\<close>

theorem lzss_uncompress_overrun:
  assumes "tokens_ok ts []" and "0 < N" and "N < 2 ^ 32" and "length obuf < length (expand ts [])"
  shows "GetActualSize (Some (lzss_header N @ lz_body (ts @ [end_token]) @ rest)) = Some (of_nat N) \<and>
    Uncompress (Some (lzss_header N @ lz_body (ts @ [end_token]) @ rest)) obuf = None"
  using GetActualSize_header(1) [of N "lz_body (ts @ [end_token]) @ rest"] Uncompress_overrun [OF assms, of rest] by blast

theorem lzss_uncompress_overrun_witness:
  "Uncompress (Some (lzss_header 2 @ lz_body ([Lit 1, Copy 1 2] @ [end_token]) @ [])) (replicate 2 0) = None"
proof -
  have "tokens_ok [Lit 1, Copy 1 2] []" by code_simp
  moreover have "expand [Lit 1, Copy 1 2] [] = [1, 1, 1]" by code_simp
  ultimately show ?thesis using lzss_uncompress_overrun [of "[Lit 1, Copy 1 2]" 2 "replicate 2 0" "[]"] by simp
qed

end
