(* ===== verification/InStream.thy ===== *)
theory InStream
  imports Prelude
begin

text \<open>
  \<^verbatim>\<open>ArrayInputStream\<close> of \<^verbatim>\<open>io/zero_copy_stream_impl_lite.cc\<close>: a stream
  that hands out the blocks of an array one by one. The array is a part of a block of memory,
  which its reader knows; pointers are offsets into it, and \<open>None\<close> is a failed
  \<open>GOOGLE_CHECK\<close>.
\<close>

record ArrayInputStream =
  ai_data :: int
  ai_size :: int
  ai_block_size :: int
  ai_position :: int
  ai_last_returned_size :: int

definition ArrayInputStream_ctor :: "int \<Rightarrow> int \<Rightarrow> int \<Rightarrow> ArrayInputStream" where
  "ArrayInputStream_ctor data sz block_size =
     \<lparr>ai_data = data, ai_size = sz, ai_block_size = (if 0 < block_size then block_size else sz),
      ai_position = 0, ai_last_returned_size = 0\<rparr>"

definition AIS_Next :: "ArrayInputStream \<Rightarrow> (int \<times> int) option \<times> ArrayInputStream" where
  "AIS_Next s =
     (if ai_position s < ai_size s then
        let n = min (ai_block_size s) (ai_size s - ai_position s)
        in (Some (ai_data s + ai_position s, n),
            s\<lparr>ai_last_returned_size := n, ai_position := ai_position s + n\<rparr>)
      else (None, s\<lparr>ai_last_returned_size := 0\<rparr>))"

definition AIS_BackUp :: "int \<Rightarrow> ArrayInputStream \<Rightarrow> ArrayInputStream option" where
  "AIS_BackUp count s =
     (if 0 < ai_last_returned_size s \<and> count \<le> ai_last_returned_size s \<and> 0 \<le> count
      then Some (s\<lparr>ai_position := ai_position s - count, ai_last_returned_size := 0\<rparr>) else None)"

definition AIS_Skip :: "int \<Rightarrow> ArrayInputStream \<Rightarrow> (bool \<times> ArrayInputStream) option" where
  "AIS_Skip count s =
     (if 0 \<le> count then
        let s = s\<lparr>ai_last_returned_size := 0\<rparr>
        in Some (if ai_size s - ai_position s < count then (False, s\<lparr>ai_position := ai_size s\<rparr>)
                 else (True, s\<lparr>ai_position := ai_position s + count\<rparr>))
      else None)"

definition AIS_ByteCount :: "ArrayInputStream \<Rightarrow> int" where
  "AIS_ByteCount s = ai_position s"

text \<open>\<open>NextNonEmpty\<close> of \<^verbatim>\<open>coded_stream.cc\<close> asks again while the block it gets is empty.\<close>

partial_function (option) NextNonEmpty :: "ArrayInputStream \<Rightarrow> ((int \<times> int) option \<times> ArrayInputStream) option" where
  "NextNonEmpty input =
     (case AIS_Next input of
        (None, input) \<Rightarrow> Some (None, input)
      | (Some (ptr, n), input) \<Rightarrow> if n = 0 then NextNonEmpty input else Some (Some (ptr, n), input))"

declare NextNonEmpty.simps [code]

subsection \<open>What the blocks add up to\<close>

text \<open>A stream over an array of \<open>mem\<close>. Blocks are never empty, since the constructor replaces a size of 0.\<close>

definition array_input_ok :: "u8 list \<Rightarrow> ArrayInputStream \<Rightarrow> bool" where
  "array_input_ok mem s \<longleftrightarrow> 0 \<le> ai_data s \<and> 0 \<le> ai_position s \<and> ai_position s \<le> ai_size s \<and>
     ai_data s + ai_size s \<le> int (length mem) \<and> ai_size s \<le> 2147483647 \<and> (0 < ai_block_size s \<or> ai_size s = 0) \<and>
     0 \<le> ai_last_returned_size s \<and> ai_last_returned_size s \<le> ai_position s"

definition same_array :: "ArrayInputStream \<Rightarrow> ArrayInputStream \<Rightarrow> bool" where
  "same_array s s' \<longleftrightarrow> ai_data s' = ai_data s \<and> ai_size s' = ai_size s \<and> ai_block_size s' = ai_block_size s"

lemma ArrayInputStream_ctor_ok:
  assumes "0 \<le> data" and "0 \<le> sz" and "data + sz \<le> int (length mem)" and "sz \<le> 2147483647"
  shows "array_input_ok mem (ArrayInputStream_ctor data sz block_size)"
  using assms by (auto simp: array_input_ok_def ArrayInputStream_ctor_def)

lemma NextNonEmpty_ok:
  assumes "array_input_ok mem s"
  shows "NextNonEmpty s = Some (AIS_Next s)"
proof -
  have "0 < min (ai_block_size s) (ai_size s - ai_position s)" if "ai_position s < ai_size s"
    using assms that by (auto simp: array_input_ok_def)
  then show ?thesis by (subst NextNonEmpty.simps) (auto simp: AIS_Next_def Let_def)
qed

lemma AIS_Next_ok:
  assumes "array_input_ok mem s"
  obtains (more) n s' where "AIS_Next s = (Some (ai_data s + ai_position s, n), s')" "0 < n" "ai_position s + n \<le> ai_size s"
      "array_input_ok mem s'" "same_array s s'" "ai_position s' = ai_position s + n" "ai_last_returned_size s' = n"
  | (finished) s' where "AIS_Next s = (None, s')" "ai_position s = ai_size s" "array_input_ok mem s'" "same_array s s'"
      "ai_position s' = ai_position s" "ai_last_returned_size s' = 0"
proof (cases "ai_position s < ai_size s")
  case True
  let ?n = "min (ai_block_size s) (ai_size s - ai_position s)"
  have "0 < ?n" "ai_position s + ?n \<le> ai_size s" using assms True by (auto simp: array_input_ok_def)
  then show ?thesis using assms True
    by (intro more [of ?n "s\<lparr>ai_last_returned_size := ?n, ai_position := ai_position s + ?n\<rparr>"])
      (auto simp: AIS_Next_def Let_def array_input_ok_def same_array_def)
next
  case False
  then show ?thesis using assms
    by (intro finished [of "s\<lparr>ai_last_returned_size := 0\<rparr>"]) (auto simp: AIS_Next_def array_input_ok_def same_array_def)
qed

lemma AIS_Skip_ok:
  assumes "array_input_ok mem s" and "0 \<le> k"
  shows "\<exists>s'. AIS_Skip k s = Some (ai_position s + k \<le> ai_size s, s') \<and> array_input_ok mem s' \<and> same_array s s' \<and>
    ai_position s' = min (ai_size s) (ai_position s + k) \<and> ai_last_returned_size s' = 0"
  using assms by (auto simp: AIS_Skip_def Let_def array_input_ok_def same_array_def)

lemma AIS_BackUp_ok:
  assumes "array_input_ok mem s" and "0 < k" and "k \<le> ai_last_returned_size s"
  shows "\<exists>s'. AIS_BackUp k s = Some s' \<and> array_input_ok mem s' \<and> same_array s s' \<and> ai_position s' = ai_position s - k"
  using assms by (auto simp: AIS_BackUp_def array_input_ok_def same_array_def)

end
