(* ===== verification/CodedStream.thy ===== *)
theory CodedStream
  imports InStream
begin

text \<open>
  The protobuf wire reader and writer that the message classes are built on:
  \<open>CodedInputStream\<close> over a flat array (the constructor \<open>ParseFromArray\<close> uses) or over the
  blocks of an \<open>ArrayInputStream\<close>, and the \<open>ToArray\<close> writers of \<open>CodedOutputStream\<close>, from
  \<^verbatim>\<open>google/protobuf/io/coded_stream\<close>.

  A stream keeps the block of memory it points into; \<open>buffer_\<close> and \<open>buffer_end_\<close> are offsets
  into that block and every access is checked, so \<open>None\<close> is an invalid access, the use of the
  null \<open>input_\<close> of a flat stream, a failed \<open>GOOGLE_DCHECK\<close> or \<open>GOOGLE_CHECK\<close>, or a loop that
  never ends. A function with a \<open>bool\<close> result
  and an out parameter yields \<open>Some v\<close> for \<open>true\<close> and \<open>None\<close> for \<open>false\<close>. A writer yields
  the bytes it stores at \<open>target\<close>. The null pointers of an empty buffer are the offset 0, which
  is never accessed. Warnings about large messages, which only go to the log, are left out.
\<close>

subsection \<open>The stream\<close>

record CodedInputStream =
  i_input :: "ArrayInputStream option"
  i_mem :: "u8 list"
  i_buffer :: int
  i_buffer_end :: int
  i_total_bytes_read :: int
  i_overflow_bytes :: int
  i_last_tag :: u32
  i_legitimate_message_end :: bool
  i_current_limit :: int
  i_buffer_size_after_limit :: int
  i_total_bytes_limit :: int
  i_recursion_depth :: int
  i_recursion_limit :: int

definition kDefaultTotalBytesLimit :: int where "kDefaultTotalBytesLimit = push_bit 20 64"
definition default_recursion_limit :: int where "default_recursion_limit = 100"
definition INT_MAX :: int where "INT_MAX = 2147483647"
definition CIS_kMaxVarintBytes :: int where "CIS_kMaxVarintBytes = 10"

text \<open>\<open>buf\<close> is the offset of the array in the block \<open>mem\<close>.\<close>

definition CodedInputStream_ctor :: "u8 list \<Rightarrow> int \<Rightarrow> int \<Rightarrow> CodedInputStream" where
  "CodedInputStream_ctor mem buf sz =
     \<lparr>i_input = None, i_mem = mem, i_buffer = buf, i_buffer_end = buf + sz, i_total_bytes_read = sz, i_overflow_bytes = 0,
      i_last_tag = 0, i_legitimate_message_end = False, i_current_limit = sz, i_buffer_size_after_limit = 0,
      i_total_bytes_limit = kDefaultTotalBytesLimit, i_recursion_depth = 0, i_recursion_limit = default_recursion_limit\<rparr>"

definition BufferSize :: "CodedInputStream \<Rightarrow> int" where
  "BufferSize s = i_buffer_end s - i_buffer s"

definition Advance :: "int \<Rightarrow> CodedInputStream \<Rightarrow> CodedInputStream" where
  "Advance amount s = s\<lparr>i_buffer := i_buffer s + amount\<rparr>"

definition CurrentPosition :: "CodedInputStream \<Rightarrow> int" where
  "CurrentPosition s = i_total_bytes_read s - (BufferSize s + i_buffer_size_after_limit s)"

definition RecomputeBufferLimits :: "CodedInputStream \<Rightarrow> CodedInputStream" where
  "RecomputeBufferLimits s =
     (let buffer_end = i_buffer_end s + i_buffer_size_after_limit s;
          closest_limit = min (i_current_limit s) (i_total_bytes_limit s)
      in if closest_limit < i_total_bytes_read s
         then s\<lparr>i_buffer_size_after_limit := i_total_bytes_read s - closest_limit,
                i_buffer_end := buffer_end - (i_total_bytes_read s - closest_limit)\<rparr>
         else s\<lparr>i_buffer_size_after_limit := 0, i_buffer_end := buffer_end\<rparr>)"

definition Refresh :: "CodedInputStream \<Rightarrow> (bool \<times> CodedInputStream) option" where
  "Refresh s =
     (if BufferSize s \<noteq> 0 then None
      else if 0 < i_buffer_size_after_limit s \<or> 0 < i_overflow_bytes s \<or> i_total_bytes_read s = i_current_limit s
      then Some (False, s)
      else do {
        input \<leftarrow> i_input s;
        (blk, input) \<leftarrow> NextNonEmpty input;
        let s = s\<lparr>i_input := Some input\<rparr>;
        case blk of
          None \<Rightarrow> Some (False, s\<lparr>i_buffer := 0, i_buffer_end := 0\<rparr>)
        | Some (ptr, n) \<Rightarrow>
            (if n < 0 then None
             else let s = s\<lparr>i_buffer := ptr, i_buffer_end := ptr + n\<rparr>;
                      s = (if i_total_bytes_read s \<le> INT_MAX - n then s\<lparr>i_total_bytes_read := i_total_bytes_read s + n\<rparr>
                           else let overflow = i_total_bytes_read s - (INT_MAX - n)
                                in s\<lparr>i_overflow_bytes := overflow, i_buffer_end := i_buffer_end s - overflow, i_total_bytes_read := INT_MAX\<rparr>)
                  in Some (True, RecomputeBufferLimits s)) })"

text \<open>The constructor and the destructor of a stream over blocks; the latter gives back what was not read.\<close>

definition CodedInputStream_ctor_input :: "u8 list \<Rightarrow> ArrayInputStream \<Rightarrow> CodedInputStream option" where
  "CodedInputStream_ctor_input mem input =
     map_option snd (Refresh
       \<lparr>i_input = Some input, i_mem = mem, i_buffer = 0, i_buffer_end = 0, i_total_bytes_read = 0, i_overflow_bytes = 0,
        i_last_tag = 0, i_legitimate_message_end = False, i_current_limit = INT_MAX, i_buffer_size_after_limit = 0,
        i_total_bytes_limit = kDefaultTotalBytesLimit, i_recursion_depth = 0, i_recursion_limit = default_recursion_limit\<rparr>)"

definition BackUpInputToCurrentPosition :: "CodedInputStream \<Rightarrow> CodedInputStream option" where
  "BackUpInputToCurrentPosition s =
     (let backup_bytes = BufferSize s + i_buffer_size_after_limit s + i_overflow_bytes s
      in if 0 < backup_bytes then do {
           input \<leftarrow> i_input s;
           input \<leftarrow> AIS_BackUp backup_bytes input;
           Some (s\<lparr>i_input := Some input, i_total_bytes_read := i_total_bytes_read s - (BufferSize s + i_buffer_size_after_limit s),
                   i_buffer_end := i_buffer s, i_buffer_size_after_limit := 0, i_overflow_bytes := 0\<rparr>) }
         else Some s)"

definition CodedInputStream_dtor :: "CodedInputStream \<Rightarrow> ArrayInputStream option option" where
  "CodedInputStream_dtor s =
     (if i_input s \<noteq> None then map_option i_input (BackUpInputToCurrentPosition s) else Some None)"

definition IsFlat :: "CodedInputStream \<Rightarrow> bool" where
  "IsFlat s \<longleftrightarrow> i_input s = None"

subsection \<open>Limits\<close>

definition PushLimit :: "int \<Rightarrow> CodedInputStream \<Rightarrow> int \<times> CodedInputStream" where
  "PushLimit byte_limit s =
     (let current_position = CurrentPosition s;
          old_limit = i_current_limit s;
          limit = (if 0 \<le> byte_limit \<and> byte_limit \<le> INT_MAX - current_position
                   then current_position + byte_limit else INT_MAX)
      in (old_limit, RecomputeBufferLimits (s\<lparr>i_current_limit := min limit old_limit\<rparr>)))"

definition PopLimit :: "int \<Rightarrow> CodedInputStream \<Rightarrow> CodedInputStream" where
  "PopLimit limit s = (RecomputeBufferLimits (s\<lparr>i_current_limit := limit\<rparr>))\<lparr>i_legitimate_message_end := False\<rparr>"

definition BytesUntilLimit :: "CodedInputStream \<Rightarrow> int" where
  "BytesUntilLimit s = (if i_current_limit s = INT_MAX then - 1 else i_current_limit s - CurrentPosition s)"

definition SetTotalBytesLimit :: "int \<Rightarrow> CodedInputStream \<Rightarrow> CodedInputStream" where
  "SetTotalBytesLimit total_bytes_limit s =
     RecomputeBufferLimits (s\<lparr>i_total_bytes_limit := max (CurrentPosition s) total_bytes_limit\<rparr>)"

definition IncrementRecursionDepth :: "CodedInputStream \<Rightarrow> bool \<times> CodedInputStream" where
  "IncrementRecursionDepth s =
     (let s = s\<lparr>i_recursion_depth := i_recursion_depth s + 1\<rparr> in (i_recursion_depth s \<le> i_recursion_limit s, s))"

definition DecrementRecursionDepth :: "CodedInputStream \<Rightarrow> CodedInputStream" where
  "DecrementRecursionDepth s = (if 0 < i_recursion_depth s then s\<lparr>i_recursion_depth := i_recursion_depth s - 1\<rparr> else s)"

subsection \<open>Raw bytes\<close>

text \<open>The \<open>n\<close> bytes at offset \<open>a\<close>, as \<open>memcpy\<close> reads them; a negative \<open>n\<close> is a huge \<open>size_t\<close>.\<close>

definition mem_bytes :: "u8 list \<Rightarrow> int \<Rightarrow> int \<Rightarrow> u8 list option" where
  "mem_bytes mem a n = (if n = 0 then Some []
     else if 0 < n \<and> 0 \<le> a \<and> a + n \<le> int (length mem) then Some (take (nat n) (drop (nat a) mem)) else None)"

definition Skip :: "int \<Rightarrow> CodedInputStream \<Rightarrow> (bool \<times> CodedInputStream) option" where
  "Skip count s =
     (if count < 0 then Some (False, s)
      else let original_buffer_size = BufferSize s in
        if count \<le> original_buffer_size then Some (True, Advance count s)
        else if 0 < i_buffer_size_after_limit s then Some (False, Advance original_buffer_size s)
        else let count = count - original_buffer_size;
                 s = s\<lparr>i_buffer := 0, i_buffer_end := 0\<rparr>;
                 closest_limit = min (i_current_limit s) (i_total_bytes_limit s);
                 bytes_until_limit = closest_limit - i_total_bytes_read s
             in if bytes_until_limit < count then
                  (if 0 < bytes_until_limit then do {
                     input \<leftarrow> i_input s;
                     (b, input) \<leftarrow> AIS_Skip bytes_until_limit input;
                     Some (False, s\<lparr>i_total_bytes_read := closest_limit, i_input := Some input\<rparr>) }
                   else Some (False, s))
                else do {
                  input \<leftarrow> i_input s;
                  (b, input) \<leftarrow> AIS_Skip count input;
                  Some (b, s\<lparr>i_total_bytes_read := i_total_bytes_read s + count, i_input := Some input\<rparr>) })"

definition GetDirectBufferPointer :: "CodedInputStream \<Rightarrow> ((int \<times> int) option \<times> CodedInputStream) option" where
  "GetDirectBufferPointer s = do {
     (ok, s) \<leftarrow> (if BufferSize s = 0 then Refresh s else Some (True, s));
     Some (if ok then Some (i_buffer s, BufferSize s) else None, s) }"

partial_function (option) ReadRaw :: "int \<Rightarrow> CodedInputStream \<Rightarrow> (u8 list option \<times> CodedInputStream) option" where
  "ReadRaw n s =
     (if BufferSize s < n then do {
        part \<leftarrow> mem_bytes (i_mem s) (i_buffer s) (BufferSize s);
        (ok, s') \<leftarrow> Refresh (Advance (BufferSize s) s);
        if \<not> ok then Some (None, s')
        else do {
          (rest, s') \<leftarrow> ReadRaw (n - BufferSize s) s';
          Some (map_option (\<lambda>r. part @ r) rest, s') } }
      else do {
        bytes \<leftarrow> mem_bytes (i_mem s) (i_buffer s) n;
        Some (Some bytes, Advance n s) })"

declare ReadRaw.simps [code]

text \<open>\<open>ReadString\<close> changes the string it is given also when it fails.\<close>

partial_function (option) ReadString_append :: "u8 list \<Rightarrow> int \<Rightarrow> CodedInputStream \<Rightarrow> (bool \<times> u8 list \<times> CodedInputStream) option" where
  "ReadString_append str n s =
     (if BufferSize s < n then do {
        part \<leftarrow> (if BufferSize s \<noteq> 0 then mem_bytes (i_mem s) (i_buffer s) (BufferSize s) else Some []);
        (ok, s') \<leftarrow> Refresh (Advance (BufferSize s) s);
        if \<not> ok then Some (False, str @ part, s') else ReadString_append (str @ part) (n - BufferSize s) s' }
      else do {
        bytes \<leftarrow> mem_bytes (i_mem s) (i_buffer s) n;
        Some (True, str @ bytes, Advance n s) })"

declare ReadString_append.simps [code]

definition ReadStringFallback :: "u8 list \<Rightarrow> int \<Rightarrow> CodedInputStream \<Rightarrow> (bool \<times> u8 list \<times> CodedInputStream) option" where
  "ReadStringFallback str n s = ReadString_append [] n s"

definition InternalReadStringInline :: "u8 list \<Rightarrow> int \<Rightarrow> CodedInputStream \<Rightarrow> (bool \<times> u8 list \<times> CodedInputStream) option" where
  "InternalReadStringInline str n s =
     (if n < 0 then Some (False, str, s)
      else if n \<le> BufferSize s then
        (if 0 < n then do {
           bytes \<leftarrow> mem_bytes (i_mem s) (i_buffer s) n;
           Some (True, bytes, Advance n s) }
         else Some (True, [], s))
      else ReadStringFallback str n s)"

definition CIS_ReadString :: "u8 list \<Rightarrow> int \<Rightarrow> CodedInputStream \<Rightarrow> (bool \<times> u8 list \<times> CodedInputStream) option" where
  "CIS_ReadString str n s = (if n < 0 then Some (False, str, s) else InternalReadStringInline str n s)"

fun le32 :: "u8 list \<Rightarrow> u32" where
  "le32 (b0 # b1 # b2 # b3 # _) = ucast b0 OR push_bit 8 (ucast b1) OR push_bit 16 (ucast b2) OR push_bit 24 (ucast b3)"
| "le32 _ = 0"

definition le64 :: "u8 list \<Rightarrow> u64" where
  "le64 bs = ucast (le32 bs) OR push_bit 32 (ucast (le32 (drop 4 bs)))"

definition ReadLittleEndian32FromArray :: "u8 list \<Rightarrow> int \<Rightarrow> u32 option" where
  "ReadLittleEndian32FromArray mem ptr = do { bs \<leftarrow> mem_bytes mem ptr 4; Some (le32 bs) }"

definition ReadLittleEndian64FromArray :: "u8 list \<Rightarrow> int \<Rightarrow> u64 option" where
  "ReadLittleEndian64FromArray mem ptr = do { bs \<leftarrow> mem_bytes mem ptr 8; Some (le64 bs) }"

definition ReadLittleEndian32Fallback :: "CodedInputStream \<Rightarrow> (u32 option \<times> CodedInputStream) option" where
  "ReadLittleEndian32Fallback s =
     (if 4 \<le> BufferSize s then do {
        v \<leftarrow> ReadLittleEndian32FromArray (i_mem s) (i_buffer s);
        Some (Some v, Advance 4 s) }
      else do {
        (bytes, s) \<leftarrow> ReadRaw 4 s;
        Some (map_option le32 bytes, s) })"

definition ReadLittleEndian64Fallback :: "CodedInputStream \<Rightarrow> (u64 option \<times> CodedInputStream) option" where
  "ReadLittleEndian64Fallback s =
     (if 8 \<le> BufferSize s then do {
        v \<leftarrow> ReadLittleEndian64FromArray (i_mem s) (i_buffer s);
        Some (Some v, Advance 8 s) }
      else do {
        (bytes, s) \<leftarrow> ReadRaw 8 s;
        Some (map_option le64 bytes, s) })"

definition ReadLittleEndian32 :: "CodedInputStream \<Rightarrow> (u32 option \<times> CodedInputStream) option" where
  "ReadLittleEndian32 s =
     (if 4 \<le> BufferSize s then do {
        bs \<leftarrow> mem_bytes (i_mem s) (i_buffer s) 4;
        Some (Some (le32 bs), Advance 4 s) }
      else ReadLittleEndian32Fallback s)"

definition ReadLittleEndian64 :: "CodedInputStream \<Rightarrow> (u64 option \<times> CodedInputStream) option" where
  "ReadLittleEndian64 s =
     (if 8 \<le> BufferSize s then do {
        bs \<leftarrow> mem_bytes (i_mem s) (i_buffer s) 8;
        Some (Some (le64 bs), Advance 8 s) }
      else ReadLittleEndian64Fallback s)"

subsection \<open>Variable-length integers\<close>

definition byte32 :: "u8 list \<Rightarrow> int \<Rightarrow> u32 option" where
  "byte32 mem ptr = map_option ucast (peek8 mem ptr)"

text \<open>The loop that drops the high-order bytes of a varint of more than five bytes.\<close>

fun skip_high_bytes :: "nat \<Rightarrow> u8 list \<Rightarrow> int \<Rightarrow> int option option" where
  "skip_high_bytes 0 mem ptr = Some None"
| "skip_high_bytes (Suc i) mem ptr = do {
     b \<leftarrow> byte32 mem ptr;
     if b AND 0x80 = 0 then Some (Some (ptr + 1)) else skip_high_bytes i mem (ptr + 1) }"

definition ReadVarint32FromArray :: "u8 list \<Rightarrow> int \<Rightarrow> (u32 \<times> int) option option" where
  "ReadVarint32FromArray mem ptr = do {
     b \<leftarrow> byte32 mem ptr;
     let result = b AND 0x7F;
     if b AND 0x80 = 0 then Some (Some (result, ptr + 1)) else do {
     b \<leftarrow> byte32 mem (ptr + 1);
     let result = result OR shl32 (b AND 0x7F) 7;
     if b AND 0x80 = 0 then Some (Some (result, ptr + 2)) else do {
     b \<leftarrow> byte32 mem (ptr + 2);
     let result = result OR shl32 (b AND 0x7F) 14;
     if b AND 0x80 = 0 then Some (Some (result, ptr + 3)) else do {
     b \<leftarrow> byte32 mem (ptr + 3);
     let result = result OR shl32 (b AND 0x7F) 21;
     if b AND 0x80 = 0 then Some (Some (result, ptr + 4)) else do {
     b \<leftarrow> byte32 mem (ptr + 4);
     let result = result OR shl32 b 28;
     if b AND 0x80 = 0 then Some (Some (result, ptr + 5)) else do {
     end \<leftarrow> skip_high_bytes 5 mem (ptr + 5);
     Some (map_option (\<lambda>ptr. (result, ptr)) end) }}}}}}"

text \<open>\<open>buffer_end_[-1]\<close> ends a varint.\<close>

definition ends_varint :: "CodedInputStream \<Rightarrow> bool option" where
  "ends_varint s = (if i_buffer s < i_buffer_end s
     then do { b \<leftarrow> peek8 (i_mem s) (i_buffer_end s - 1); Some (b AND 0x80 = 0) } else Some False)"

definition fast_varint :: "CodedInputStream \<Rightarrow> bool option" where
  "fast_varint s = (if CIS_kMaxVarintBytes \<le> BufferSize s then Some True else ends_varint s)"

text \<open>
  The slow path reads byte by byte; \<open>left\<close> is \<open>kMaxVarintBytes - count\<close>, and \<open>fill_buffer\<close> is its
  inner loop \<open>while (buffer_ == buffer_end_)\<close>.
\<close>

partial_function (option) fill_buffer :: "CodedInputStream \<Rightarrow> (bool \<times> CodedInputStream) option" where
  "fill_buffer s =
     (if i_buffer s = i_buffer_end s then do {
        (ok, s') \<leftarrow> Refresh s;
        if \<not> ok then Some (False, s') else fill_buffer s' }
      else Some (True, s))"

declare fill_buffer.simps [code]

fun ReadVarint64Slow_loop :: "nat \<Rightarrow> int \<Rightarrow> u64 \<Rightarrow> CodedInputStream \<Rightarrow> (u64 option \<times> CodedInputStream) option" where
  "ReadVarint64Slow_loop 0 count result s = Some (None, s)"
| "ReadVarint64Slow_loop (Suc left) count result s = do {
     (ok, s) \<leftarrow> fill_buffer s;
     if \<not> ok then Some (None, s)
     else do {
       b \<leftarrow> byte32 (i_mem s) (i_buffer s);
       let result = result OR push_bit (nat (7 * count)) (ucast (b AND 0x7F));
       let s = Advance 1 s;
       if b AND 0x80 = 0 then Some (Some result, s)
       else ReadVarint64Slow_loop left (count + 1) result s } }"

definition ReadVarint64Slow :: "CodedInputStream \<Rightarrow> (u64 option \<times> CodedInputStream) option" where
  "ReadVarint64Slow s = ReadVarint64Slow_loop (nat CIS_kMaxVarintBytes) 0 0 s"

text \<open>
  The fast path collects the groups in three 32-bit parts. \<open>part_byte\<close> is one line of the
  sequence: \<open>part |= (b & 0x7F) << k\<close>.
\<close>

definition join_parts :: "u32 \<Rightarrow> u32 \<Rightarrow> u32 \<Rightarrow> u64" where
  "join_parts part0 part1 part2 = ucast part0 OR push_bit 28 (ucast part1) OR push_bit 56 (ucast part2)"

fun read_part :: "int list \<Rightarrow> u8 list \<Rightarrow> int \<Rightarrow> u32 \<Rightarrow> (bool \<times> u32 \<times> int) option" where
  "read_part [] mem ptr part = Some (False, part, ptr)"
| "read_part (k # ks) mem ptr part = do {
     b \<leftarrow> byte32 mem ptr;
     let part = part OR shl32 (b AND 0x7F) k;
     if b AND 0x80 = 0 then Some (True, part, ptr + 1) else read_part ks mem (ptr + 1) part }"

definition ReadVarint64Fallback :: "CodedInputStream \<Rightarrow> (u64 option \<times> CodedInputStream) option" where
  "ReadVarint64Fallback s = do {
     fast \<leftarrow> fast_varint s;
     if fast then do {
       (done0, part0, ptr) \<leftarrow> read_part [0, 7, 14, 21] (i_mem s) (i_buffer s) 0;
       if done0 then Some (Some (join_parts part0 0 0), Advance (ptr - i_buffer s) s) else do {
       (done1, part1, ptr) \<leftarrow> read_part [0, 7, 14, 21] (i_mem s) ptr 0;
       if done1 then Some (Some (join_parts part0 part1 0), Advance (ptr - i_buffer s) s) else do {
       (done2, part2, ptr) \<leftarrow> read_part [0, 7] (i_mem s) ptr 0;
       if done2 then Some (Some (join_parts part0 part1 part2), Advance (ptr - i_buffer s) s)
       else Some (None, s) }}}
     else ReadVarint64Slow s }"

definition ReadVarint32Slow :: "CodedInputStream \<Rightarrow> (u32 option \<times> CodedInputStream) option" where
  "ReadVarint32Slow s = do {
     (result, s) \<leftarrow> ReadVarint64Fallback s;
     Some (map_option ucast result, s) }"

definition ReadVarint32Fallback :: "CodedInputStream \<Rightarrow> (u32 option \<times> CodedInputStream) option" where
  "ReadVarint32Fallback s = do {
     fast \<leftarrow> fast_varint s;
     if fast then do {
       end \<leftarrow> ReadVarint32FromArray (i_mem s) (i_buffer s);
       case end of
         None \<Rightarrow> Some (None, s)
       | Some (value, ptr) \<Rightarrow> Some (Some value, s\<lparr>i_buffer := ptr\<rparr>) }
     else ReadVarint32Slow s }"

text \<open>The inlined one-byte case: the byte at \<open>buffer_\<close>, if it is there and below \<open>0x80\<close>.\<close>

definition small_byte :: "CodedInputStream \<Rightarrow> u8 option option" where
  "small_byte s = (if i_buffer s < i_buffer_end s
     then do { b \<leftarrow> peek8 (i_mem s) (i_buffer s); Some (if b < 0x80 then Some b else None) } else Some None)"

definition ReadVarint32 :: "CodedInputStream \<Rightarrow> (u32 option \<times> CodedInputStream) option" where
  "ReadVarint32 s = do {
     b \<leftarrow> small_byte s;
     case b of Some b \<Rightarrow> Some (Some (ucast b), Advance 1 s) | None \<Rightarrow> ReadVarint32Fallback s }"

definition ReadVarint64 :: "CodedInputStream \<Rightarrow> (u64 option \<times> CodedInputStream) option" where
  "ReadVarint64 s = do {
     b \<leftarrow> small_byte s;
     case b of Some b \<Rightarrow> Some (Some (ucast b), Advance 1 s) | None \<Rightarrow> ReadVarint64Fallback s }"

subsection \<open>Tags\<close>

definition ReadTagSlow :: "CodedInputStream \<Rightarrow> (u32 \<times> CodedInputStream) option" where
  "ReadTagSlow s = do {
     (ok, s) \<leftarrow> (if i_buffer s = i_buffer_end s then Refresh s else Some (True, s));
     if \<not> ok then
       (let current_position = i_total_bytes_read s - i_buffer_size_after_limit s
        in if i_total_bytes_limit s \<le> current_position
           then Some (0, s\<lparr>i_legitimate_message_end := (i_current_limit s = i_total_bytes_limit s)\<rparr>)
           else Some (0, s\<lparr>i_legitimate_message_end := True\<rparr>))
     else do {
       (result, s) \<leftarrow> ReadVarint64 s;
       Some (case result of None \<Rightarrow> 0 | Some v \<Rightarrow> ucast v, s) } }"

definition ReadTagFallback :: "CodedInputStream \<Rightarrow> (u32 \<times> CodedInputStream) option" where
  "ReadTagFallback s = do {
     fast \<leftarrow> fast_varint s;
     if fast then do {
       end \<leftarrow> ReadVarint32FromArray (i_mem s) (i_buffer s);
       case end of
         None \<Rightarrow> Some (0, s)
       | Some (tag, ptr) \<Rightarrow> Some (tag, s\<lparr>i_buffer := ptr\<rparr>) }
     else if BufferSize s = 0 \<and> (0 < i_buffer_size_after_limit s \<or> i_total_bytes_read s = i_current_limit s) \<and>
         i_total_bytes_read s - i_buffer_size_after_limit s < i_total_bytes_limit s
       then Some (0, s\<lparr>i_legitimate_message_end := True\<rparr>)
     else ReadTagSlow s }"

definition ReadTag :: "CodedInputStream \<Rightarrow> (u32 \<times> CodedInputStream) option" where
  "ReadTag s = do {
     b \<leftarrow> small_byte s;
     case b of
       Some b \<Rightarrow> Some (ucast b, Advance 1 (s\<lparr>i_last_tag := ucast b\<rparr>))
     | None \<Rightarrow> do { (tag, s) \<leftarrow> ReadTagFallback s; Some (tag, s\<lparr>i_last_tag := tag\<rparr>) } }"

definition LastTagWas :: "u32 \<Rightarrow> CodedInputStream \<Rightarrow> bool" where
  "LastTagWas expected s = (i_last_tag s = expected)"

definition ConsumedEntireMessage :: "CodedInputStream \<Rightarrow> bool" where
  "ConsumedEntireMessage s = i_legitimate_message_end s"

definition ExpectTag :: "u32 \<Rightarrow> CodedInputStream \<Rightarrow> (bool \<times> CodedInputStream) option" where
  "ExpectTag expected s =
     (if expected < push_bit 7 1 then
        (if i_buffer s < i_buffer_end s then do {
           b \<leftarrow> peek8 (i_mem s) (i_buffer s);
           Some (if ucast b = expected then (True, Advance 1 s) else (False, s)) }
         else Some (False, s))
      else if expected < push_bit 14 1 then
        (if 2 \<le> BufferSize s then do {
           b0 \<leftarrow> peek8 (i_mem s) (i_buffer s);
           if b0 = ucast (expected OR 0x80) then do {
             b1 \<leftarrow> peek8 (i_mem s) (i_buffer s + 1);
             Some (if b1 = ucast (shr32 expected 7) then (True, Advance 2 s) else (False, s)) }
           else Some (False, s) }
         else Some (False, s))
      else Some (False, s))"

definition ExpectAtEnd :: "CodedInputStream \<Rightarrow> bool \<times> CodedInputStream" where
  "ExpectAtEnd s =
     (if i_buffer s = i_buffer_end s \<and> (i_buffer_size_after_limit s \<noteq> 0 \<or> i_total_bytes_read s = i_current_limit s)
      then (True, s\<lparr>i_last_tag := 0, i_legitimate_message_end := True\<rparr>) else (False, s))"

subsection \<open>The writers\<close>

definition WriteVarint32FallbackToArray :: "u32 \<Rightarrow> u8 list" where
  "WriteVarint32FallbackToArray value =
     (let t0 = ucast (value OR 0x80); t1 = ucast (shr32 value 7 OR 0x80); t2 = ucast (shr32 value 14 OR 0x80);
          t3 = ucast (shr32 value 21 OR 0x80); t4 = ucast (shr32 value 28)
      in if push_bit 7 1 \<le> value then
           if push_bit 14 1 \<le> value then
             if push_bit 21 1 \<le> value then
               if push_bit 28 1 \<le> value then [t0, t1, t2, t3, t4]
               else [t0, t1, t2, t3 AND 0x7F]
             else [t0, t1, t2 AND 0x7F]
           else [t0, t1 AND 0x7F]
         else [t0 AND 0x7F])"

definition WriteVarint32ToArray :: "u32 \<Rightarrow> u8 list" where
  "WriteVarint32ToArray value = (if value < 0x80 then [ucast value] else WriteVarint32FallbackToArray value)"

text \<open>The binary search for the size, and the fall-through cascade from \<open>size\<close> down.\<close>

definition varint64_size :: "u32 \<Rightarrow> u32 \<Rightarrow> u32 \<Rightarrow> nat" where
  "varint64_size part0 part1 part2 =
     (if part2 = 0 then
        if part1 = 0 then
          if part0 < push_bit 14 1 then (if part0 < push_bit 7 1 then 1 else 2)
          else (if part0 < push_bit 21 1 then 3 else 4)
        else
          if part1 < push_bit 14 1 then (if part1 < push_bit 7 1 then 5 else 6)
          else (if part1 < push_bit 21 1 then 7 else 8)
      else (if part2 < push_bit 7 1 then 9 else 10))"

definition WriteVarint64ToArray :: "u64 \<Rightarrow> u8 list" where
  "WriteVarint64ToArray value =
     (let part0 = ucast value; part1 = ucast (drop_bit 28 value); part2 = ucast (drop_bit 56 value);
          n = varint64_size part0 part1 part2;
          target = take n (map (\<lambda>w. ucast (w OR 0x80))
            [part0, shr32 part0 7, shr32 part0 14, shr32 part0 21,
             part1, shr32 part1 7, shr32 part1 14, shr32 part1 21,
             part2, shr32 part2 7])
      in target[n - 1 := target ! (n - 1) AND 0x7F])"

definition WriteVarint32SignExtendedToArray :: "u32 \<Rightarrow> u8 list" where
  "WriteVarint32SignExtendedToArray value =
     (if sint value < 0 then WriteVarint64ToArray (scast value) else WriteVarint32ToArray value)"

definition WriteLittleEndian32ToArray :: "u32 \<Rightarrow> u8 list" where
  "WriteLittleEndian32ToArray value = [ucast value, ucast (shr32 value 8), ucast (shr32 value 16), ucast (shr32 value 24)]"

definition WriteLittleEndian64ToArray :: "u64 \<Rightarrow> u8 list" where
  "WriteLittleEndian64ToArray value =
     (let part0 = ucast value; part1 = ucast (drop_bit 32 value)
      in [ucast part0, ucast (shr32 part0 8), ucast (shr32 part0 16), ucast (shr32 part0 24),
          ucast part1, ucast (shr32 part1 8), ucast (shr32 part1 16), ucast (shr32 part1 24)])"

definition WriteTagToArray :: "u32 \<Rightarrow> u8 list" where
  "WriteTagToArray value =
     (if value < push_bit 7 1 then [ucast value]
      else if value < push_bit 14 1 then [ucast (value OR 0x80), ucast (shr32 value 7)]
      else WriteVarint32FallbackToArray value)"

definition VarintSize32Fallback :: "u32 \<Rightarrow> int" where
  "VarintSize32Fallback value =
     (if value < push_bit 7 1 then 1 else if value < push_bit 14 1 then 2 else if value < push_bit 21 1 then 3
      else if value < push_bit 28 1 then 4 else 5)"

definition VarintSize32 :: "u32 \<Rightarrow> int" where
  "VarintSize32 value = (if value < push_bit 7 1 then 1 else VarintSize32Fallback value)"

definition VarintSize32SignExtended :: "u32 \<Rightarrow> int" where
  "VarintSize32SignExtended value = (if sint value < 0 then 10 else VarintSize32 value)"

definition VarintSize64 :: "u64 \<Rightarrow> int" where
  "VarintSize64 value =
     (if value < push_bit 35 1 then
        if value < push_bit 7 1 then 1 else if value < push_bit 14 1 then 2 else if value < push_bit 21 1 then 3
        else if value < push_bit 28 1 then 4 else 5
      else if value < push_bit 42 1 then 6 else if value < push_bit 49 1 then 7 else if value < push_bit 56 1 then 8
      else if value < push_bit 63 1 then 9 else 10)"

subsection \<open>The encoding as a function on lists\<close>

text \<open>
  The reference decoder: the value and the rest, unless no byte below \<open>0x80\<close> ends the
  number within \<open>k\<close> bytes.
\<close>

fun varint_take :: "nat \<Rightarrow> u8 list \<Rightarrow> (nat \<times> u8 list) option" where
  "varint_take 0 bs = None"
| "varint_take (Suc k) [] = None"
| "varint_take (Suc k) (b # bs) =
     (if b < 128 then Some (unat b, bs)
      else map_option (\<lambda>(v, r). (unat b - 128 + 128 * v, r)) (varint_take k bs))"

lemma varint_take_Nil [simp]: "varint_take k [] = None"
  by (cases k) auto

lemma varint_take_bytes: "length (varint_bytes x) \<le> k \<Longrightarrow> varint_take k (varint_bytes x @ r) = Some (x, r)"
proof (induction x arbitrary: k rule: varint_bytes.induct)
  case (1 x)
  then obtain k' where k: "k = Suc k'" by (cases k) (auto simp: varint_bytes.simps [of x] split: if_splits)
  show ?case
  proof (cases "x < 128")
    case True
    then show ?thesis by (simp add: varint_bytes.simps [of x] k word_less_nat_alt unsigned_of_nat take_bit_nat_eq_self)
  next
    case False
    have b: "unat (of_nat (x mod 128 + 128) :: u8) = x mod 128 + 128"
      by (simp only: unsigned_of_nat) (simp add: take_bit_nat_eq_self)
    have "varint_take k' (varint_bytes (x div 128) @ r) = Some (x div 128, r)"
      using "1.IH" [OF False, of k'] "1.prems" False k by (simp add: varint_bytes.simps [of x])
    then show ?thesis using False by (subst varint_bytes.simps) (simp add: k word_less_nat_alt b del: of_nat_add)
  qed
qed

lemma varint_take_suffix: "varint_take k bs = Some (v, r) \<Longrightarrow> \<exists>u. bs = u @ r \<and> u \<noteq> [] \<and> length u \<le> k"
proof (induction k bs arbitrary: v r rule: varint_take.induct)
  case (3 k b bs)
  show ?case
  proof (cases "b < 128")
    case True
    with 3 show ?thesis by (intro exI [of _ "[b]"]) simp
  next
    case False
    with "3.prems" obtain v' where "varint_take k bs = Some (v', r)" by auto
    from "3.IH" [OF False this] obtain u where "bs = u @ r" "length u \<le> k" by blast
    then show ?thesis by (intro exI [of _ "b # u"]) simp
  qed
qed simp_all

text \<open>More input does not change what was decoded, and a longer limit only helps.\<close>

lemma varint_take_mono: "varint_take k bs = Some (v, r) \<Longrightarrow> k \<le> k' \<Longrightarrow> varint_take k' (bs @ ext) = Some (v, r @ ext)"
proof (induction k bs arbitrary: v r k' rule: varint_take.induct)
  case (3 k b bs)
  then obtain k'' where k: "k' = Suc k''" "k \<le> k''" by (cases k') auto
  show ?case
  proof (cases "b < 128")
    case False
    with "3.prems" obtain v' where v: "varint_take k bs = Some (v', r)" "v = unat b - 128 + 128 * v'" by auto
    from "3.IH" [OF False v(1) k(2)] show ?thesis using False v(2) k(1) by simp
  qed (use 3 k in simp)
qed simp_all

lemma varint_take_ends:
  assumes "varint_take k bs = None" and "bs \<noteq> []" and "last bs < 128"
  shows "k < length bs"
  using assms
proof (induction k bs rule: varint_take.induct)
  case (3 k b bs)
  then show ?case by (cases "b < 128"; cases "bs = []") auto
qed auto

subsection \<open>The unrolled decoders compute the reference\<close>

fun low_groups :: "nat \<Rightarrow> u8 list \<Rightarrow> nat" where
  "low_groups 0 bs = 0"
| "low_groups (Suc n) [] = 0"
| "low_groups (Suc n) (b # bs) = unat b mod 128 + 128 * low_groups n bs"

lemma low_groups_less: "low_groups n bs < 128 ^ n"
proof (induction n bs rule: low_groups.induct)
  case (3 n b bs)
  have "unat b mod 128 < 128" by simp
  then have "unat b mod 128 + 128 * low_groups n bs < 128 * Suc (low_groups n bs)" by simp
  also have "\<dots> \<le> 128 * 128 ^ n" using 3 by (intro mult_le_mono2) simp
  finally show ?case by simp
qed simp_all

lemma varint_take_add:
  "varint_take (n + m) xs =
     (case varint_take n xs of
        Some p \<Rightarrow> Some p
      | None \<Rightarrow> if n \<le> length xs then map_option (\<lambda>(v, r). (low_groups n xs + 128 ^ n * v, r)) (varint_take m (drop n xs)) else None)"
proof (induction n xs rule: varint_take.induct)
  case (1 bs)
  have "map_option (\<lambda>(v, r). (v, r)) x = x" for x :: "(nat \<times> u8 list) option" by (cases x) auto
  then show ?case by simp
next
  case (3 k b bs)
  have big: "unat b - 128 = unat b mod 128" if "\<not> b < 128"
    using that unsigned_less [of b, where 'a = nat] by (simp add: word_less_nat_alt le_mod_geq)
  show ?case
    using 3 big by (cases "varint_take k bs"; cases "varint_take m (drop k bs)") (auto simp: algebra_simps)
qed simp

lemma varint_take_limit:
  "varint_take k bs = None \<Longrightarrow> k \<le> length bs \<Longrightarrow> varint_take k (bs @ ext) = None"
proof (induction k bs rule: varint_take.induct)
  case (3 k b bs)
  then show ?case by (cases "b < 128") auto
qed auto

lemma or_shift_add:
  assumes "x < 2 ^ k"
  shows "(of_nat x OR push_bit k (of_nat y) :: 'a::len word) = of_nat (x + 2 ^ k * y)"
proof -
  have "(of_nat (x OR push_bit k y) :: 'a word) = of_nat x OR push_bit k (of_nat y)"
    by (simp add: of_nat_or_eq push_bit_of_nat)
  moreover have "x OR push_bit k y = x + push_bit k y"
  proof (rule disjunctive_add [symmetric])
    fix n
    have "\<not> bit x n" if "k \<le> n"
    proof -
      have "x < 2 ^ n" using assms that by (meson less_le_trans one_le_numeral power_increasing)
      then show ?thesis by (simp add: bit_iff_odd)
    qed
    then show "\<not> bit x n \<or> \<not> bit (push_bit k y) n" by (cases "k \<le> n") (auto simp: bit_push_bit_iff)
  qed
  ultimately show ?thesis by (simp add: push_bit_eq_mult mult.commute)
qed

lemma byte_top_bit: "bit (b::u8) 7 = (\<not> b < 128)"
proof -
  have "bit b 7 = bit (unat b) 7" by (simp add: bit_unsigned_iff)
  then have "bit b 7 = odd (unat b div 128)" by (simp add: bit_iff_odd)
  moreover have "unat b div 128 = (if unat b < 128 then 0 else 1)"
    using unsigned_less [of b, where 'a = nat] by (auto simp: le_div_geq)
  ultimately show ?thesis by (simp add: word_less_nat_alt)
qed

lemma byte_flag: "((ucast (b::u8) :: u32) AND 0x80 = 0) = (b < 128)"
proof -
  have "(ucast b :: u32) AND 0x80 = push_bit 7 (of_bool (bit b 7))"
    by (rule bit_word_eqI) (auto simp: bit_simps bit_ucast_byte less_Suc_eq numeral_eq_Suc bit_of_bool_iff)
  then show ?thesis by (auto simp: byte_top_bit)
qed

lemma byte_flag8: "((b::u8) AND 0x80 = 0) = (b < 128)"
proof -
  have "b AND 0x80 = push_bit 7 (of_bool (bit b 7))"
    by (rule bit_word_eqI) (auto simp: bit_simps less_Suc_eq numeral_eq_Suc bit_of_bool_iff)
  then show ?thesis by (auto simp: byte_top_bit)
qed

lemma byte_group: "(ucast (b::u8) :: u32) AND 0x7F = of_nat (unat b mod 128)"
proof -
  have "(ucast b :: u32) AND 0x7F = take_bit 7 (of_nat (unat b))" by (simp add: take_bit_eq_mask mask_eq_exp_minus_1)
  also have "\<dots> = of_nat (take_bit 7 (unat b))" by (simp add: of_nat_take_bit)
  finally show ?thesis by (simp add: take_bit_eq_mod)
qed

lemma byte32_drop: "0 \<le> ptr \<Longrightarrow> byte32 mem ptr = (case drop (nat ptr) mem of [] \<Rightarrow> None | b # _ \<Rightarrow> Some (ucast b))"
proof -
  assume p: "0 \<le> ptr"
  show ?thesis
  proof (cases "nat ptr < length mem")
    case True
    then have "drop (nat ptr) mem = mem ! nat ptr # drop (Suc (nat ptr)) mem" by (simp add: Cons_nth_drop_Suc)
    with True p show ?thesis by (simp add: byte32_def)
  next
    case False
    then have "\<not> ptr < int (length mem)" using p by linarith
    with False show ?thesis by (simp add: byte32_def peek8_def)
  qed
qed

lemma drop_next:
  assumes "0 \<le> ptr" and "drop (nat ptr) mem = b # xs"
  shows "drop (nat (ptr + 1)) mem = xs"
proof -
  have "nat (ptr + 1) = Suc (nat ptr)" using assms(1) by simp
  then have "drop (nat (ptr + 1)) mem = tl (drop (nat ptr) mem)" by (simp only: drop_Suc drop_tl)
  then show ?thesis by (simp add: assms(2))
qed

lemma skip_high_bytes_spec:
  "0 \<le> ptr \<Longrightarrow> skip_high_bytes i mem ptr =
     (case varint_take i (drop (nat ptr) mem) of
        Some (v, r) \<Rightarrow> Some (Some (ptr + int (length (drop (nat ptr) mem)) - int (length r)))
      | None \<Rightarrow> if i \<le> length (drop (nat ptr) mem) then Some None else None)"
proof (induction i arbitrary: ptr)
  case (Suc i)
  show ?case
  proof (cases "drop (nat ptr) mem")
    case Nil
    then show ?thesis using Suc.prems by (simp add: byte32_drop)
  next
    case (Cons b xs)
    have IH: "skip_high_bytes i mem (ptr + 1) =
     (case varint_take i xs of
        Some (v, r) \<Rightarrow> Some (Some (ptr + 1 + int (length xs) - int (length r)))
      | None \<Rightarrow> if i \<le> length xs then Some None else None)"
      using Suc.IH [of "ptr + 1"] Suc.prems unfolding drop_next [OF Suc.prems Cons] by simp
    have "skip_high_bytes (Suc i) mem ptr = (if b < 128 then Some (Some (ptr + 1)) else skip_high_bytes i mem (ptr + 1))"
      using Suc.prems Cons by (simp add: byte32_drop byte_flag)
    then show ?thesis unfolding IH Cons by (cases "varint_take i xs") auto
  qed
qed simp

lemma read_part_spec:
  assumes "0 \<le> ptr" and "acc < 128 ^ j" and "7 * (j + n) \<le> 32 + 6"
  shows "read_part (map (\<lambda>i. 7 * int i) [j..<j + n]) mem ptr (of_nat acc) =
     (case varint_take n (drop (nat ptr) mem) of
        Some (v, r) \<Rightarrow> Some (True, of_nat (acc + 128 ^ j * v), ptr + int (length (drop (nat ptr) mem)) - int (length r))
      | None \<Rightarrow> if n \<le> length (drop (nat ptr) mem)
                then Some (False, of_nat (acc + 128 ^ j * low_groups n (drop (nat ptr) mem)), ptr + int n) else None)"
  using assms
proof (induction n arbitrary: ptr acc j)
  case (Suc n)
  have up: "[j..<j + Suc n] = j # [Suc j..<Suc j + n]" by (simp add: upt_rec)
  show ?case
  proof (cases "drop (nat ptr) mem")
    case Nil
    then show ?thesis using Suc.prems unfolding up by (simp add: byte32_drop)
  next
    case (Cons b xs)
    have sh: "shl32 (of_nat y) (7 * int j) = (push_bit (7 * j) (of_nat y) :: u32)" for y
      using Suc.prems(3) by (simp add: nat_mult_distrib)
    have p2: "(2::nat) ^ (7 * j) = 128 ^ j" by (simp add: power_mult)
    define a where "a = acc + 128 ^ j * (unat b mod 128)"
    have or: "of_nat acc OR shl32 ((ucast b :: u32) AND 0x7F) (7 * int j) = of_nat a"
      unfolding byte_group sh a_def using or_shift_add [of acc "7 * j" "unat b mod 128", where 'a = 32] Suc.prems(2) by (simp add: p2)
    have al: "a < 128 ^ Suc j"
    proof -
      have "a < 128 ^ j + 128 ^ j * (unat b mod 128)" using Suc.prems(2) by (simp add: a_def)
      also have "\<dots> = 128 ^ j * Suc (unat b mod 128)" by simp
      also have "\<dots> \<le> 128 ^ j * 128" by (intro mult_le_mono2) (simp add: Suc_leI)
      finally show ?thesis by (simp add: mult.commute)
    qed
    have IH: "read_part (map (\<lambda>i. 7 * int i) [Suc j..<Suc j + n]) mem (ptr + 1) (of_nat a) =
     (case varint_take n xs of
        Some (v, r) \<Rightarrow> Some (True, of_nat (a + 128 ^ Suc j * v), ptr + 1 + int (length xs) - int (length r))
      | None \<Rightarrow> if n \<le> length xs then Some (False, of_nat (a + 128 ^ Suc j * low_groups n xs), ptr + 1 + int n) else None)"
    proof -
      have "0 \<le> ptr + 1" "7 * (Suc j + n) \<le> 32 + 6" using Suc.prems(1,3) by simp_all
      from Suc.IH [OF this(1) al this(2)] show ?thesis unfolding drop_next [OF Suc.prems(1) Cons] .
    qed
    have step: "read_part (map (\<lambda>i. 7 * int i) [j..<j + Suc n]) mem ptr (of_nat acc) =
      (if b < 128 then Some (True, of_nat a, ptr + 1) else read_part (map (\<lambda>i. 7 * int i) [Suc j..<Suc j + n]) mem (ptr + 1) (of_nat a))"
      unfolding up list.map read_part.simps byte32_drop [OF Suc.prems(1)] Cons list.case bind.bind_lunit Let_def or byte_flag ..
    have small: "unat b mod 128 = unat b" if "b < 128" using that by (simp add: word_less_nat_alt)
    have big: "unat b - 128 = unat b mod 128" if "\<not> b < 128"
      using that unsigned_less [of b, where 'a = nat] by (simp add: word_less_nat_alt le_mod_geq)
    show ?thesis
    proof (cases "b < 128")
      case True
      then show ?thesis unfolding step using small by (simp add: Cons a_def)
    next
      case False
      then show ?thesis unfolding step IH Cons using big
        by (cases "varint_take n xs") (auto simp: a_def distrib_left mult.assoc mult.left_commute)
    qed
  qed
qed simp

lemma ReadVarint32FromArray_parts:
  "ReadVarint32FromArray mem ptr = do {
     (d, r, p) \<leftarrow> read_part [0, 7, 14, 21] mem ptr 0;
     if d then Some (Some (r, p)) else do {
     b \<leftarrow> byte32 mem p;
     if b AND 0x80 = 0 then Some (Some (r OR shl32 b 28, p + 1)) else do {
     e \<leftarrow> skip_high_bytes 5 mem (p + 1);
     Some (map_option (\<lambda>ptr. (r OR shl32 b 28, ptr)) e) }}}"
  by (simp add: ReadVarint32FromArray_def Let_def add.assoc if_distrib [where f = "\<lambda>x. Option.bind x _"] cong: if_cong)

lemma read_part_0:
  assumes "0 \<le> ptr" and "ks = map (\<lambda>i. 7 * int i) [0..<n]" and "n \<le> 5"
  shows "read_part ks mem ptr 0 =
     (case varint_take n (drop (nat ptr) mem) of
        Some (v, r) \<Rightarrow> Some (True, of_nat v, ptr + int (length (drop (nat ptr) mem)) - int (length r))
      | None \<Rightarrow> if n \<le> length (drop (nat ptr) mem)
                then Some (False, of_nat (low_groups n (drop (nat ptr) mem)), ptr + int n) else None)"
  using read_part_spec [OF assms(1), of 0 0 n mem] assms(2,3) by (cases "varint_take n (drop (nat ptr) mem)") auto

lemma parts_upt: "[0, 7, 14, 21] = map (\<lambda>i. 7 * int i) [0..<4]" "[0, 7] = map (\<lambda>i. 7 * int i) [0..<2]"
  by (simp_all add: upt_rec)

lemma of_nat_mod_32: "(of_nat (x + 2 ^ 32 * y) :: u32) = of_nat x"
  unfolding word_of_nat_eq_iff take_bit_eq_mod by simp

lemma ReadVarint32FromArray_spec:
  assumes "0 \<le> ptr" and xs_def: "xs = drop (nat ptr) mem"
  shows "ReadVarint32FromArray mem ptr =
     (case varint_take 10 xs of
        Some (v, r) \<Rightarrow> Some (Some (of_nat v, ptr + int (length xs) - int (length r)))
      | None \<Rightarrow> if 10 \<le> length xs then Some None else None)"
proof -
  define l where "l = low_groups 4 xs"
  have l: "l < 2 ^ 28" using low_groups_less [of 4 xs] by (simp add: l_def)
  have P: "read_part [0, 7, 14, 21] mem ptr 0 =
     (case varint_take 4 xs of
        Some (v, r) \<Rightarrow> Some (True, of_nat v, ptr + int (length xs) - int (length r))
      | None \<Rightarrow> if 4 \<le> length xs then Some (False, of_nat l, ptr + 4) else None)"
    using read_part_0 [OF assms(1) parts_upt(1), of mem] unfolding xs_def [symmetric] l_def
    by (cases "varint_take 4 xs") (auto simp del: read_part.simps)
  have T: "varint_take 10 xs = (case varint_take 4 xs of Some p \<Rightarrow> Some p
      | None \<Rightarrow> if 4 \<le> length xs then map_option (\<lambda>(v, r). (l + 128 ^ 4 * v, r)) (varint_take 6 (drop 4 xs)) else None)"
    using varint_take_add [of 4 6 xs] unfolding l_def by simp
  show ?thesis
  proof (cases "varint_take 4 xs")
    case (Some p)
    then show ?thesis unfolding ReadVarint32FromArray_parts P T by (cases p) simp
  next
    case None
    show ?thesis
    proof (cases "drop 4 xs")
      case Nil
      have "byte32 mem (ptr + 4) = None" if "4 \<le> length xs"
        using byte32_drop [of "ptr + 4" mem] assms(1) Nil by (simp add: xs_def nat_add_distrib add.commute)
      then show ?thesis unfolding ReadVarint32FromArray_parts P T None using Nil by (auto simp: xs_def)
    next
      case (Cons b ys)
      have len: "length xs = length ys + 5" using arg_cong [OF Cons, of length] by simp
      have d4: "drop (nat (ptr + 4)) mem = b # ys" using Cons assms(1) by (simp add: xs_def nat_add_distrib add.commute)
      have d5: "drop (nat (ptr + 4 + 1)) mem = ys" by (rule drop_next [OF _ d4]) (use assms(1) in simp)
      have b: "byte32 mem (ptr + 4) = Some (ucast b)" using byte32_drop [of "ptr + 4" mem] assms(1) d4 by simp
      have sk: "skip_high_bytes 5 mem (ptr + 4 + 1) =
        (case varint_take 5 ys of Some (v, r) \<Rightarrow> Some (Some (ptr + 5 + int (length ys) - int (length r)))
          | None \<Rightarrow> if 5 \<le> length ys then Some None else None)"
        using skip_high_bytes_spec [of "ptr + 4 + 1" 5 mem] assms(1) unfolding d5 by (cases "varint_take 5 ys") auto
      have w: "of_nat l OR shl32 (ucast b :: u32) 28 = of_nat (l + 2 ^ 28 * unat b)"
        using or_shift_add [OF l, of "unat b", where 'a = 32] by simp
      have hi: "(of_nat (l + 128 ^ 4 * (unat b - 128 + 128 * v)) :: u32) = of_nat (l + 2 ^ 28 * unat b)" if "\<not> b < 128" for v
      proof -
        define c where "c = unat b - 128"
        have "unat b = c + 128" using that by (simp add: word_less_nat_alt c_def)
        then have "l + 2 ^ 28 * unat b = l + 2 ^ 28 * c + 2 ^ 32 * 8" by simp
        moreover have "l + 128 ^ 4 * (c + 128 * v) = l + 2 ^ 28 * c + 2 ^ 32 * (8 * v)" by simp
        ultimately show ?thesis unfolding c_def [symmetric] by (simp only: of_nat_mod_32)
      qed
      have six: "varint_take 6 (b # ys) = (if b < 128 then Some (unat b, ys)
          else map_option (\<lambda>(v, r). (unat b - 128 + 128 * v, r)) (varint_take 5 ys))"
        by (simp add: numeral_eq_Suc)
      show ?thesis
        unfolding ReadVarint32FromArray_parts P T None Cons six
        using len b sk w hi by (cases "b < 128"; cases "varint_take 5 ys") (auto simp: byte_flag)
    qed
  qed
qed

lemma join_parts_nat:
  assumes "a < 2 ^ 28" and "b < 2 ^ 28" and "c < 2 ^ 32"
  shows "join_parts (of_nat a) (of_nat b) (of_nat c) = of_nat (a + 2 ^ 28 * (b + 2 ^ 28 * c))"
proof -
  have u: "(ucast (of_nat x :: u32) :: u64) = of_nat x" if "x < 2 ^ 32" for x
    using that by (simp add: unsigned_of_nat unsigned_ucast_eq take_bit_nat_eq_self)
  have "a + 2 ^ 28 * b < 2 ^ 56"
  proof -
    have "a + 2 ^ 28 * b < 2 ^ 28 + 2 ^ 28 * b" using assms(1) by simp
    also have "\<dots> = 2 ^ 28 * Suc b" by simp
    also have "\<dots> \<le> 2 ^ 28 * 2 ^ 28" using assms(2) by (intro mult_le_mono2) simp
    finally show ?thesis by simp
  qed
  then have "(of_nat (a + 2 ^ 28 * b) OR push_bit 56 (of_nat c) :: u64) = of_nat (a + 2 ^ 28 * b + 2 ^ 56 * c)"
    by (rule or_shift_add)
  moreover have "(of_nat a OR push_bit 28 (of_nat b) :: u64) = of_nat (a + 2 ^ 28 * b)"
    using assms(1) by (rule or_shift_add)
  moreover have "a + 2 ^ 28 * b + 2 ^ 56 * c = a + 2 ^ 28 * (b + 2 ^ 28 * c)" by simp
  moreover have "(ucast (of_nat a :: u32) :: u64) = of_nat a" "(ucast (of_nat b :: u32) :: u64) = of_nat b"
    "(ucast (of_nat c :: u32) :: u64) = of_nat c" using assms by (simp_all add: u)
  ultimately show ?thesis by (simp only: join_parts_def or.assoc [symmetric])
qed

text \<open>The fast path of the 64-bit reader on the memory from \<open>buffer_\<close> on.\<close>

lemma varint_take_bound: "varint_take k bs = Some (v, r) \<Longrightarrow> v < 128 ^ k"
proof (induction k bs arbitrary: v r rule: varint_take.induct)
  case (3 k b bs)
  show ?case
  proof (cases "b < 128")
    case True
    then have "unat b < 128" by (simp add: word_less_nat_alt)
    also have "\<dots> \<le> 128 ^ Suc k" by simp
    finally show ?thesis using 3 True by simp
  next
    case False
    with "3.prems" obtain v' where v: "varint_take k bs = Some (v', r)" "v = unat b - 128 + 128 * v'" by auto
    have "unat b - 128 < 128" using unsigned_less [of b, where 'a = nat] by simp
    then have "v < 128 * Suc v'" using v(2) by simp
    also have "\<dots> \<le> 128 * 128 ^ k" using "3.IH" [OF False v(1)] by (intro mult_le_mono2) simp
    finally show ?thesis by simp
  qed
qed simp_all

lemma fast64_spec:
  assumes "0 \<le> i_buffer s" and xs_def: "xs = drop (nat (i_buffer s)) (i_mem s)" and "fast_varint s = Some True"
    and len: "varint_take 10 xs = None \<Longrightarrow> 10 \<le> length xs"
  shows "ReadVarint64Fallback s =
     (case varint_take 10 xs of
        Some (v, r) \<Rightarrow> Some (Some (of_nat v), Advance (int (length xs) - int (length r)) s)
      | None \<Rightarrow> Some (None, s))"
proof -
  define a where "a = low_groups 4 xs"
  define b where "b = low_groups 4 (drop 4 xs)"
  define c where "c = low_groups 2 (drop 8 xs)"
  have d: "drop (nat (i_buffer s + 4)) (i_mem s) = drop 4 xs" "drop (nat (i_buffer s + 8)) (i_mem s) = drop 8 xs"
    using assms(1) by (simp_all add: xs_def nat_add_distrib add.commute)
  have ab: "a < 2 ^ 28" "b < 2 ^ 28" using low_groups_less [of 4] by (simp_all add: a_def b_def)
  have P0: "read_part [0, 7, 14, 21] (i_mem s) (i_buffer s) 0 =
     (case varint_take 4 xs of
        Some (v, r) \<Rightarrow> Some (True, of_nat v, i_buffer s + int (length xs) - int (length r))
      | None \<Rightarrow> if 4 \<le> length xs then Some (False, of_nat a, i_buffer s + 4) else None)"
    using read_part_0 [OF assms(1) parts_upt(1), of "i_mem s"] unfolding xs_def [symmetric] a_def
    by (cases "varint_take 4 xs") (auto simp del: read_part.simps)
  have P1: "read_part [0, 7, 14, 21] (i_mem s) (i_buffer s + 4) 0 =
     (case varint_take 4 (drop 4 xs) of
        Some (v, r) \<Rightarrow> Some (True, of_nat v, i_buffer s + 4 + int (length (drop 4 xs)) - int (length r))
      | None \<Rightarrow> if 4 \<le> length (drop 4 xs) then Some (False, of_nat b, i_buffer s + 8) else None)"
    using read_part_0 [OF _ parts_upt(1), of "i_buffer s + 4" "i_mem s"] assms(1) unfolding d b_def
    by (cases "varint_take 4 (drop 4 xs)") (auto simp del: read_part.simps)
  have P2: "read_part [0, 7] (i_mem s) (i_buffer s + 8) 0 =
     (case varint_take 2 (drop 8 xs) of
        Some (v, r) \<Rightarrow> Some (True, of_nat v, i_buffer s + 8 + int (length (drop 8 xs)) - int (length r))
      | None \<Rightarrow> if 2 \<le> length (drop 8 xs) then Some (False, of_nat c, i_buffer s + 8 + 2) else None)"
    using read_part_0 [OF _ parts_upt(2), of "i_buffer s + 8" "i_mem s"] assms(1) unfolding d c_def
    by (cases "varint_take 2 (drop 8 xs)") (auto simp del: read_part.simps)
  have T6: "varint_take 6 ys = (case varint_take 4 ys of Some p \<Rightarrow> Some p
      | None \<Rightarrow> if 4 \<le> length ys then map_option (\<lambda>(v, r). (low_groups 4 ys + 128 ^ 4 * v, r)) (varint_take 2 (drop 4 ys)) else None)" for ys
    using varint_take_add [of 4 2 ys] by simp
  have T: "varint_take 10 xs = (case varint_take 4 xs of Some p \<Rightarrow> Some p
      | None \<Rightarrow> if 4 \<le> length xs then map_option (\<lambda>(v, r). (a + 128 ^ 4 * v, r)) (varint_take 6 (drop 4 xs)) else None)"
    using varint_take_add [of 4 6 xs] unfolding a_def by simp
  have F: "ReadVarint64Fallback s = do {
       (done0, part0, ptr) \<leftarrow> read_part [0, 7, 14, 21] (i_mem s) (i_buffer s) 0;
       if done0 then Some (Some (join_parts part0 0 0), Advance (ptr - i_buffer s) s) else do {
       (done1, part1, ptr) \<leftarrow> read_part [0, 7, 14, 21] (i_mem s) ptr 0;
       if done1 then Some (Some (join_parts part0 part1 0), Advance (ptr - i_buffer s) s) else do {
       (done2, part2, ptr) \<leftarrow> read_part [0, 7] (i_mem s) ptr 0;
       if done2 then Some (Some (join_parts part0 part1 part2), Advance (ptr - i_buffer s) s)
       else Some (None, s) }}}"
    unfolding ReadVarint64Fallback_def assms(3) bind.bind_lunit if_True ..
  show ?thesis
  proof (cases "varint_take 4 xs")
    case (Some p)
    obtain v r where p: "p = (v, r)" by (cases p)
    have "v < 2 ^ 28" using varint_take_bound [of 4 xs v r] Some p by simp
    then have "join_parts (of_nat v) 0 0 = of_nat v" using join_parts_nat [of v 0 0] by simp
    then show ?thesis unfolding F P0 T Some p by simp
  next
    case n0: None
    show ?thesis
    proof (cases "varint_take 4 (drop 4 xs)")
      case (Some p)
      obtain v r where p: "p = (v, r)" by (cases p)
      have v: "v < 2 ^ 28" using varint_take_bound [of 4 "drop 4 xs" v r] Some p by simp
      have l: "4 < length xs" using Some by (metis drop_eq_Nil not_le option.distinct(1) varint_take_Nil)
      have "join_parts (of_nat a) (of_nat v) 0 = of_nat (a + 128 ^ 4 * v)" using join_parts_nat [OF ab(1) v, of 0] by simp
      then show ?thesis unfolding F P0 T n0 using l by (simp add: P1 T6 Some p of_nat_diff del: read_part.simps)
    next
      case n1: None
      show ?thesis
      proof (cases "varint_take 2 (drop 8 xs)")
        case (Some p)
        obtain v r where p: "p = (v, r)" by (cases p)
        have v: "v < 2 ^ 14" using varint_take_bound [of 2 "drop 8 xs" v r] Some p by simp
        have l: "8 < length xs" using Some by (metis drop_eq_Nil not_le option.distinct(1) varint_take_Nil)
        then have l4: "4 \<le> length xs - 4" by linarith
        have j: "join_parts (of_nat a) (of_nat b) (of_nat v) = of_nat (a + 128 ^ 4 * (b + 128 ^ 4 * v))"
          using join_parts_nat [OF ab, of v] v by simp
        show ?thesis unfolding F P0 T n0 using l l4 j by (simp add: P1 P2 T6 n1 Some p b_def [symmetric] of_nat_diff del: read_part.simps)
      next
        case n2: None
        have none: "varint_take 10 xs = None" by (simp add: T T6 n0 n1 n2)
        then have "10 \<le> length xs" "4 \<le> length xs - 4" "2 \<le> length xs - 8" using len by linarith+
        then show ?thesis unfolding F P0 n0 using none by (simp add: P1 P2 n1 n2 del: read_part.simps)
      qed
    qed
  qed
qed

subsection \<open>What the writers write\<close>

lemma varint_bytes_groups:
  assumes "x < 128 ^ Suc n" and "n = 0 \<or> 128 ^ n \<le> x"
  shows "varint_bytes x = map (\<lambda>i. of_nat ((x div 128 ^ i) mod 128 + (if i < n then 128 else 0))) [0..<Suc n]"
  using assms
proof (induction n arbitrary: x)
  case 0
  then show ?case by (simp add: varint_bytes.simps)
next
  case (Suc n)
  have ge: "128 ^ Suc n \<le> x" using Suc.prems(2) by simp
  moreover have "(128::nat) \<le> 128 ^ Suc n" by simp
  ultimately have x: "\<not> x < 128" by linarith
  have "x div 128 < 128 ^ Suc n" using Suc.prems(1) by (simp add: less_mult_imp_div_less mult.commute)
  moreover have "128 ^ n \<le> x div 128" using ge by (simp add: less_eq_div_iff_mult_less_eq mult.commute)
  ultimately have IH: "varint_bytes (x div 128) = map (\<lambda>i. of_nat ((x div 128 div 128 ^ i) mod 128 + (if i < n then 128 else 0))) [0..<Suc n]"
    by (intro Suc.IH) auto
  have "[0..<Suc (Suc n)] = 0 # map Suc [0..<Suc n]" by (metis map_Suc_upt upt_conv_Cons zero_less_Suc)
  then show ?case
    using x by (subst varint_bytes.simps) (simp add: IH comp_def div_mult2_eq [symmetric] del: upt_Suc of_nat_add)
qed

lemma low_group: "(of_nat (unat (w::u32) mod 128) :: u8) = take_bit 7 (ucast w)"
proof -
  have "(of_nat (take_bit 7 (unat w)) :: u8) = take_bit 7 (of_nat (unat w))" by (rule of_nat_take_bit)
  then show ?thesis by (simp only: take_bit_eq_mod [of 7 "unat w"] of_nat_unat) simp
qed

lemma group_hi: "(ucast ((w::u32) OR 0x80) :: u8) = of_nat (unat w mod 128 + 128)"
proof -
  have "(of_nat (unat w mod 128 + 128) :: u8) = of_nat (unat w mod 128) OR push_bit 7 (of_nat 1)"
    by (subst or_shift_add) simp_all
  also have "\<dots> = ucast (w OR 0x80)"
    unfolding low_group by (rule bit_word_eqI) (auto simp: bit_simps less_Suc_eq numeral_eq_Suc)
  finally show ?thesis by simp
qed

lemma group_lo: "(ucast ((w::u32) OR 0x80) :: u8) AND 0x7F = of_nat (unat w mod 128)"
proof -
  have "(ucast (w OR 0x80) :: u8) AND 0x7F = take_bit 7 (ucast (w OR 0x80))" by (simp add: take_bit_eq_mask mask_eq_exp_minus_1)
  also have "\<dots> = take_bit 7 (ucast w)" by (rule bit_word_eqI) (auto simp: bit_simps less_Suc_eq numeral_eq_Suc)
  finally show ?thesis by (simp add: low_group)
qed

lemma unat_shr32: "k < 32 \<Longrightarrow> unat (shr32 w (int k)) = unat w div 2 ^ k"
  by (simp add: unat_drop_bit_eq flip: drop_bit_eq_div)

lemma word32_less: "k < 32 \<Longrightarrow> (w < push_bit k 1) = (unat (w::u32) < 2 ^ k)"
proof -
  assume k: "k < 32"
  then have "(2::nat) ^ k < 2 ^ 32" by (intro power_strict_increasing) simp_all
  then have "unat (of_nat (2 ^ k) :: u32) = 2 ^ k" unfolding unsigned_of_nat using k by (simp add: take_bit_nat_eq_self)
  moreover have "(push_bit k 1 :: u32) = of_nat (2 ^ k)" by (simp add: push_bit_eq_mult)
  ultimately show ?thesis by (simp only: word_less_nat_alt)
qed

lemma WriteVarint32FallbackToArray_ok: "WriteVarint32FallbackToArray w = varint_bytes (unat w)"
proof -
  define x where "x = unat w"
  have x: "x < 128 ^ Suc 4" using unsigned_less [of w, where 'a = nat] by (simp add: x_def)
  have sh: "unat (shr32 w 7) = x div 128" "unat (shr32 w 14) = x div 128 ^ 2" "unat (shr32 w 21) = x div 128 ^ 3"
    "unat (shr32 w 28) = x div 128 ^ 4"
    using unat_shr32 [of 7 w] unat_shr32 [of 14 w] unat_shr32 [of 21 w] unat_shr32 [of 28 w] by (simp_all add: x_def)
  have le: "(push_bit 7 1 \<le> w) = (128 \<le> x)" "(push_bit 14 1 \<le> w) = (128 ^ 2 \<le> x)"
    "(push_bit 21 1 \<le> w) = (128 ^ 3 \<le> x)" "(push_bit 28 1 \<le> w) = (128 ^ 4 \<le> x)"
    using word32_less [of 7 w] word32_less [of 14 w] word32_less [of 21 w] word32_less [of 28 w]
    by (auto simp: x_def not_less [symmetric])
  have t4: "(ucast (shr32 w 28) :: u8) = of_nat (x div 128 ^ 4)"
    using sh(4) by (metis of_nat_unat unsigned_ucast_eq of_nat_unat)
  have top: "x div 128 ^ 4 mod 128 = x div 128 ^ 4"
  proof -
    have "x < 2 ^ 32" using unsigned_less [of w, where 'a = nat] by (simp add: x_def)
    then have "x div 128 ^ 4 < 16" by (simp add: less_mult_imp_div_less)
    then show ?thesis by simp
  qed
  note defs = WriteVarint32FallbackToArray_def Let_def group_lo
  note defs2 = group_hi sh le t4 x_def [symmetric]
  consider "x < 128" | "128 \<le> x" "x < 128 ^ 2" | "128 ^ 2 \<le> x" "x < 128 ^ 3" | "128 ^ 3 \<le> x" "x < 128 ^ 4" | "128 ^ 4 \<le> x"
    by linarith
  then show ?thesis
  proof cases
    case 1
    then show ?thesis using varint_bytes_groups [of x 0] unfolding defs unfolding defs2 by simp
  next
    case 2
    then show ?thesis using varint_bytes_groups [of x 1] unfolding defs unfolding defs2 by (simp add: upt_rec)
  next
    case 3
    then show ?thesis using varint_bytes_groups [of x 2] unfolding defs unfolding defs2 by (simp add: upt_rec numeral_2_eq_2)
  next
    case 4
    then show ?thesis using varint_bytes_groups [of x 3] unfolding defs unfolding defs2 by (simp add: upt_rec numeral_3_eq_3)
  next
    case 5
    then show ?thesis using varint_bytes_groups [of x 4] x top unfolding defs unfolding defs2 by (simp add: upt_rec)
  qed
qed

lemma WriteVarint32ToArray_ok: "WriteVarint32ToArray w = varint_bytes (unat w)"
proof (cases "w < 0x80")
  case True
  then have "unat w < 128" by (simp add: word_less_nat_alt)
  then show ?thesis using True by (simp add: WriteVarint32ToArray_def varint_bytes.simps)
qed (simp add: WriteVarint32ToArray_def WriteVarint32FallbackToArray_ok)

lemma word32_cmp:
  fixes w :: u32
  shows "(w < push_bit 7 1) = (unat w < 128)" "(w < push_bit 14 1) = (unat w < 16384)"
    "(w < push_bit 21 1) = (unat w < 2097152)" "(w < push_bit 28 1) = (unat w < 268435456)"
  using word32_less [of 7 w] word32_less [of 14 w] word32_less [of 21 w] word32_less [of 28 w] by simp_all

lemma WriteTagToArray_ok: "WriteTagToArray w = varint_bytes (unat w)"
proof -
  consider "unat w < 128" | "128 \<le> unat w" "unat w < 16384" | "16384 \<le> unat w" by linarith
  then show ?thesis
  proof cases
    case 1
    then show ?thesis unfolding WriteTagToArray_def word32_cmp by (simp add: varint_bytes.simps)
  next
    case 2
    have "(of_nat (unat (shr32 w 7)) :: u8) = ucast (shr32 w 7)" by (rule of_nat_unat)
    moreover have "unat (shr32 w 7) = unat w div 128" using unat_shr32 [of 7 w] by simp
    ultimately have "(ucast (shr32 w 7) :: u8) = of_nat (unat w div 128)" by (simp only:)
    moreover have "unat w div 128 < 128" using 2(2) by (simp add: less_mult_imp_div_less)
    ultimately show ?thesis using 2 unfolding WriteTagToArray_def word32_cmp group_hi
      by (simp add: varint_bytes.simps [of "unat w"] varint_bytes.simps [of "unat w div 128"])
  next
    case 3
    then show ?thesis unfolding WriteTagToArray_def word32_cmp by (simp add: WriteVarint32FallbackToArray_ok)
  qed
qed

lemma group_mod:
  assumes "k + 7 \<le> m"
  shows "(x mod 2 ^ m) div 2 ^ k mod 128 = x div 2 ^ k mod (128::nat)"
proof -
  have "take_bit 7 (drop_bit k (take_bit m x)) = take_bit 7 (drop_bit k x)"
    using assms by (simp add: drop_bit_take_bit min.absorb1)
  then show ?thesis by (simp add: take_bit_eq_mod drop_bit_eq_div)
qed

lemma varint64_size_ok:
  fixes w :: u64
  defines "n \<equiv> varint64_size (ucast w) (ucast (drop_bit 28 w)) (ucast (drop_bit 56 w))"
  shows "1 \<le> n \<and> n \<le> 10 \<and> unat w < 128 ^ n \<and> (n = 1 \<or> 128 ^ (n - 1) \<le> unat w)"
proof -
  define x where "x = unat w"
  have x: "x < 2 ^ 64" using unsigned_less [of w, where 'a = nat] by (simp add: x_def)
  have p0: "unat (ucast w :: u32) = x mod 2 ^ 32" by (simp add: x_def unsigned_ucast_eq take_bit_eq_mod)
  have p1: "unat (ucast (drop_bit 28 w) :: u32) = x div 2 ^ 28 mod 2 ^ 32"
    by (simp add: x_def unsigned_ucast_eq take_bit_eq_mod unat_drop_bit_eq drop_bit_eq_div [of _ "unat w"])
  have "x div 2 ^ 56 < 2 ^ 8" using x by (simp add: less_mult_imp_div_less)
  then have p2: "unat (ucast (drop_bit 56 w) :: u32) = x div 2 ^ 56"
    by (simp add: x_def unsigned_ucast_eq take_bit_eq_mod unat_drop_bit_eq drop_bit_eq_div [of _ "unat w"])
  have z: "(ucast (drop_bit 28 w) = (0::u32)) = (x div 2 ^ 28 mod 2 ^ 32 = 0)" "(ucast (drop_bit 56 w) = (0::u32)) = (x div 2 ^ 56 = 0)"
    unfolding p1 [symmetric] p2 [symmetric] by (simp_all only: unat_eq_0)
  have part1: "x div 2 ^ 28 mod 2 ^ 32 = x div 2 ^ 28" if "x < 2 ^ 56"
  proof -
    have "x div 2 ^ 28 < 2 ^ 28" using that by (simp add: less_mult_imp_div_less)
    then show ?thesis by simp
  qed
  consider "x < 2 ^ 28" | "2 ^ 28 \<le> x" "x < 2 ^ 56" | "2 ^ 56 \<le> x" by linarith
  then show ?thesis
  proof cases
    case 1
    then show ?thesis unfolding n_def varint64_size_def z word32_cmp
      by (auto simp: p0 part1 x_def [symmetric] not_less)
  next
    case 2
    then have "x div 2 ^ 28 \<noteq> 0" "x div 2 ^ 56 = 0" by (auto simp: div_eq_0_iff)
    moreover have "(x div 2 ^ 28 < 2 ^ k) = (x < 2 ^ (28 + k))" for k
      by (simp add: power_add div_less_iff_less_mult mult.commute)
    ultimately show ?thesis unfolding n_def varint64_size_def z part1 [OF 2(2)] word32_cmp
      using 2 by (auto simp: p1 part1 x_def [symmetric] not_less)
  next
    case 3
    then have "x div 2 ^ 56 \<noteq> 0" by (auto simp: div_eq_0_iff)
    moreover have "(x div 2 ^ 56 < 2 ^ k) = (x < 2 ^ (56 + k))" for k
      by (simp add: power_add div_less_iff_less_mult mult.commute)
    ultimately show ?thesis unfolding n_def varint64_size_def z word32_cmp
      using 3 x by (auto simp: p2 x_def [symmetric] not_less)
  qed
qed

lemma WriteVarint64ToArray_ok: "WriteVarint64ToArray w = varint_bytes (unat w)"
proof -
  define x where "x = unat w"
  define part0 part1 part2 where p: "part0 = (ucast w :: u32)" "part1 = (ucast (drop_bit 28 w) :: u32)" "part2 = (ucast (drop_bit 56 w) :: u32)"
  define gs where "gs = [part0, shr32 part0 7, shr32 part0 14, shr32 part0 21, part1, shr32 part1 7, shr32 part1 14, shr32 part1 21, part2, shr32 part2 7]"
  obtain n where n: "varint64_size part0 part1 part2 = Suc n" "n \<le> 9" "x < 128 ^ Suc n" "n = 0 \<or> 128 ^ n \<le> x"
  proof -
    have "1 \<le> varint64_size part0 part1 part2" using varint64_size_ok [of w] by (simp add: p)
    then obtain n where "varint64_size part0 part1 part2 = Suc n" by (cases "varint64_size part0 part1 part2") auto
    with varint64_size_ok [of w] that show ?thesis by (simp add: p x_def)
  qed
  have x: "x < 2 ^ 64" using unsigned_less [of w, where 'a = nat] by (simp add: x_def)
  have u: "unat part0 = x mod 2 ^ 32" "unat part1 = x div 2 ^ 28 mod 2 ^ 32" "unat part2 = x div 2 ^ 56 mod 2 ^ 32"
    by (simp_all add: p x_def unsigned_ucast_eq take_bit_eq_mod unat_drop_bit_eq drop_bit_eq_div [of _ "unat w"])
  have sh: "unat (shr32 y 7) = unat y div 2 ^ 7" "unat (shr32 y 14) = unat y div 2 ^ 14" "unat (shr32 y 21) = unat y div 2 ^ 21" for y
    using unat_shr32 [of 7 y] unat_shr32 [of 14 y] unat_shr32 [of 21 y] by simp_all
  have G: "unat (shr32 y (int k)) mod 128 = x div 2 ^ (b + k) mod 128" if "unat y = x div 2 ^ b mod 2 ^ 32" "k + 7 \<le> 32" for y b k
    using that group_mod [of k 32 "x div 2 ^ b"] unat_shr32 [of k y] by (simp add: power_add div_mult2_eq)
  have u0: "unat part0 = x div 2 ^ 0 mod 2 ^ 32" using u(1) by simp
  have s0: "unat part0 mod 128 = x div 128 ^ 0 mod 128" using G [OF u0, of 0] by simp
  have s1: "unat (shr32 part0 7) mod 128 = x div 128 ^ 1 mod 128" using G [OF u0, of 7] by simp
  have s2: "unat (shr32 part0 14) mod 128 = x div 128 ^ 2 mod 128" using G [OF u0, of 14] by simp
  have s3: "unat (shr32 part0 21) mod 128 = x div 128 ^ 3 mod 128" using G [OF u0, of 21] by simp
  have s4: "unat part1 mod 128 = x div 128 ^ 4 mod 128" using G [OF u(2), of 0] by simp
  have s5: "unat (shr32 part1 7) mod 128 = x div 128 ^ 5 mod 128" using G [OF u(2), of 7] by simp
  have s6: "unat (shr32 part1 14) mod 128 = x div 128 ^ 6 mod 128" using G [OF u(2), of 14] by simp
  have s7: "unat (shr32 part1 21) mod 128 = x div 128 ^ 7 mod 128" using G [OF u(2), of 21] by simp
  have s8: "unat part2 mod 128 = x div 128 ^ 8 mod 128" using G [OF u(3), of 0] by simp
  have s9: "unat (shr32 part2 7) mod 128 = x div 128 ^ 9 mod 128" using G [OF u(3), of 7] by simp
  have g: "unat (gs ! i) mod 128 = x div 128 ^ i mod 128" if "i < 10" for i
  proof -
    have n: "gs ! 0 = part0" "gs ! 1 = shr32 part0 7" "gs ! 2 = shr32 part0 14" "gs ! 3 = shr32 part0 21" "gs ! 4 = part1"
      "gs ! 5 = shr32 part1 7" "gs ! 6 = shr32 part1 14" "gs ! 7 = shr32 part1 21" "gs ! 8 = part2" "gs ! 9 = shr32 part2 7"
      by (simp_all add: gs_def)
    have "i \<in> {0, 1, 2, 3, 4, 5, 6, 7, 8, 9}" using that by auto
    then show ?thesis
      by (elim insertE emptyE) (simp_all only: n s0 s1 s2 s3 s4 s5 s6 s7 s8 s9)
  qed
  have lg: "length gs = 10" by (simp add: gs_def)
  have "WriteVarint64ToArray w = (take (Suc n) (map (\<lambda>v. ucast (v OR 0x80)) gs))[n := (ucast (gs ! n OR 0x80)) AND 0x7F]"
    using n(2) lg unfolding WriteVarint64ToArray_def Let_def p [symmetric] gs_def [symmetric] n(1) by simp
  also have "\<dots> = map (\<lambda>i. of_nat ((x div 128 ^ i) mod 128 + (if i < n then 128 else 0))) [0..<Suc n]"
  proof (rule nth_equalityI)
    fix i assume "i < length ((take (Suc n) (map (\<lambda>v. ucast (v OR 0x80)) gs))[n := (ucast (gs ! n OR 0x80) :: u8) AND 0x7F])"
    then have i: "i \<le> n" "i < 10" using n(2) lg by auto
    then have l: "i < length gs" by (simp add: lg)
    show "(take (Suc n) (map (\<lambda>v. ucast (v OR 0x80)) gs))[n := (ucast (gs ! n OR 0x80)) AND 0x7F] ! i =
        map (\<lambda>i. of_nat ((x div 128 ^ i) mod 128 + (if i < n then 128 else 0)) :: u8) [0..<Suc n] ! i"
    proof (cases "i = n")
      case True
      have "(take (Suc n) (map (\<lambda>v. ucast (v OR 0x80)) gs))[n := (ucast (gs ! n OR 0x80) :: u8) AND 0x7F] ! i = of_nat (unat (gs ! n) mod 128)"
        using True i l by (simp add: group_lo)
      also have "\<dots> = of_nat (x div 128 ^ n mod 128)" using g [of n] True i by simp
      finally show ?thesis using True by (simp add: nth_append)
    next
      case False
      have "(take (Suc n) (map (\<lambda>v. ucast (v OR 0x80)) gs))[n := (ucast (gs ! n OR 0x80) :: u8) AND 0x7F] ! i = of_nat (unat (gs ! i) mod 128 + 128)"
        using False i l by (simp add: group_hi)
      also have "\<dots> = of_nat (x div 128 ^ i mod 128 + 128)" using g [OF i(2)] by simp
      finally show ?thesis using False i by (simp del: upt_Suc)
    qed
  qed (use n(2) lg in simp)
  also have "\<dots> = varint_bytes x" using varint_bytes_groups [OF n(3,4)] by simp
  finally show ?thesis by (simp add: x_def)
qed

lemma unat_scast_64:
  fixes w :: u32
  shows "unat (scast w :: u64) = (if sint w < 0 then unat w + (2 ^ 64 - 2 ^ 32) else unat w)"
proof -
  have u: "0 \<le> uint w" "uint w < 2 ^ 32" using unsigned_less [of w, where 'a = int] by simp_all
  have si: "sint w = uint w - 2 ^ 32 * of_bool (bit (uint w) 31)"
    using u by (simp add: sint_uint signed_take_bit_eq_take_bit_minus take_bit_int_eq_self)
  have "uint (scast w :: u64) = sint w mod 2 ^ 64" unfolding scast_eq uint_word_of_int by simp
  also have "\<dots> = (if sint w < 0 then uint w + (2 ^ 64 - 2 ^ 32) else uint w)"
  proof (cases "bit (uint w) 31")
    case True
    then have s: "sint w = uint w - 2 ^ 32" using si by simp
    have "(uint w - 2 ^ 32) mod 2 ^ 64 = (uint w - 2 ^ 32 + 2 ^ 64) mod 2 ^ 64" by (simp only: mod_add_self2)
    also have "\<dots> = uint w - 2 ^ 32 + 2 ^ 64" using u by (intro mod_pos_pos_trivial) simp_all
    finally show ?thesis using s u by simp
  next
    case False
    then show ?thesis using si u by simp
  qed
  finally have "int (unat (scast w :: u64)) = int (if sint w < 0 then unat w + (2 ^ 64 - 2 ^ 32) else unat w)" by simp
  then show ?thesis by (simp only: of_nat_eq_iff)
qed

text \<open>A negative \<open>int32\<close> is written as the ten bytes of its 64-bit sign extension.\<close>

lemma WriteVarint32SignExtendedToArray_ok:
  "WriteVarint32SignExtendedToArray w = varint_bytes (unat (scast w :: u64))"
  by (simp add: WriteVarint32SignExtendedToArray_def WriteVarint64ToArray_ok WriteVarint32ToArray_ok unat_scast_64)

lemma varint_bytes_size: "x < 128 ^ Suc n \<Longrightarrow> n = 0 \<or> 128 ^ n \<le> x \<Longrightarrow> length (varint_bytes x) = Suc n"
  by (simp add: varint_bytes_groups)

lemma VarintSize32_ok: "VarintSize32 w = int (length (varint_bytes (unat w)))"
proof -
  have x: "unat w < 128 ^ Suc 4" using unsigned_less [of w, where 'a = nat] by simp
  consider "unat w < 128" | "128 \<le> unat w" "unat w < 16384" | "16384 \<le> unat w" "unat w < 2097152"
    | "2097152 \<le> unat w" "unat w < 268435456" | "268435456 \<le> unat w" by linarith
  then show ?thesis
    unfolding VarintSize32_def VarintSize32Fallback_def word32_cmp
    using varint_bytes_size [of "unat w" 0] varint_bytes_size [of "unat w" 1] varint_bytes_size [of "unat w" 2]
      varint_bytes_size [of "unat w" 3] varint_bytes_size [of "unat w" 4] x
    by cases simp_all
qed

lemma word64_less: "k < 64 \<Longrightarrow> (w < push_bit k 1) = (unat (w::u64) < 2 ^ k)"
proof -
  assume k: "k < 64"
  then have "(2::nat) ^ k < 2 ^ 64" by (intro power_strict_increasing) simp_all
  then have "unat (of_nat (2 ^ k) :: u64) = 2 ^ k" unfolding unsigned_of_nat using k by (simp add: take_bit_nat_eq_self)
  moreover have "(push_bit k 1 :: u64) = of_nat (2 ^ k)" by (simp add: push_bit_eq_mult)
  ultimately show ?thesis by (simp only: word_less_nat_alt)
qed

lemma word64_cmp:
  fixes w :: u64
  shows "(w < push_bit 7 1) = (unat w < 128 ^ 1)" "(w < push_bit 14 1) = (unat w < 128 ^ 2)" "(w < push_bit 21 1) = (unat w < 128 ^ 3)"
    "(w < push_bit 28 1) = (unat w < 128 ^ 4)" "(w < push_bit 35 1) = (unat w < 128 ^ 5)" "(w < push_bit 42 1) = (unat w < 128 ^ 6)"
    "(w < push_bit 49 1) = (unat w < 128 ^ 7)" "(w < push_bit 56 1) = (unat w < 128 ^ 8)" "(w < push_bit 63 1) = (unat w < 128 ^ 9)"
  using word64_less [of 7 w] word64_less [of 14 w] word64_less [of 21 w] word64_less [of 28 w] word64_less [of 35 w]
    word64_less [of 42 w] word64_less [of 49 w] word64_less [of 56 w] word64_less [of 63 w] by simp_all

lemma VarintSize64_ok: "VarintSize64 w = int (length (varint_bytes (unat w)))"
proof -
  define x where "x = unat w"
  have x: "x < 128 ^ 10" using unsigned_less [of w, where 'a = nat] by (simp add: x_def)
  have sz: "length (varint_bytes x) = n" if "x < 128 ^ n" "\<not> x < 128 ^ (n - 1)" "1 < n" for n
    using varint_bytes_size [of x "n - 1"] that by simp
  have mono: "x < 128 ^ m" if "x < 128 ^ k" "k \<le> m" for k m
    using that power_increasing [of k m "128::nat"] by linarith
  show ?thesis
    unfolding VarintSize64_def word64_cmp x_def [symmetric]
    using sz [of 2] sz [of 3] sz [of 4] sz [of 5] sz [of 6] sz [of 7] sz [of 8] sz [of 9] sz [of 10] varint_bytes_size [of x 0] x
      mono [of 1 5] mono [of 2 5] mono [of 3 5] mono [of 4 5]
    by (auto simp del: power.simps)
qed

lemma VarintSize32SignExtended_ok: "VarintSize32SignExtended w = int (length (varint_bytes (unat (scast w :: u64))))"
proof (cases "sint w < 0")
  case True
  have "length (varint_bytes (unat (scast w :: u64))) = Suc 9"
  proof (rule varint_bytes_size)
    show "unat (scast w :: u64) < 128 ^ Suc 9" using unsigned_less [of "scast w :: u64", where 'a = nat] by simp
    show "9 = 0 \<or> 128 ^ 9 \<le> unat (scast w :: u64)" using True by (simp add: unat_scast_64)
  qed
  then show ?thesis using True by (simp add: VarintSize32SignExtended_def)
next
  case False
  then show ?thesis by (simp add: VarintSize32SignExtended_def VarintSize32_ok unat_scast_64)
qed

lemma le32_write: "le32 (WriteLittleEndian32ToArray w @ r) = w"
proof -
  have "ucast (ucast w :: u8) OR push_bit 8 (ucast (ucast (shr32 w 8) :: u8)) OR push_bit 16 (ucast (ucast (shr32 w 16) :: u8))
      OR push_bit 24 (ucast (ucast (shr32 w 24) :: u8)) = (w :: u32)"
  proof (rule bit_word_eqI)
    fix n assume "n < LENGTH(32)"
    then consider "n < 8" | "8 \<le> n" "n < 16" | "16 \<le> n" "n < 24" | "24 \<le> n" "n < 32" by fastforce
    then show "bit (ucast (ucast w :: u8) OR push_bit 8 (ucast (ucast (shr32 w 8) :: u8)) OR push_bit 16 (ucast (ucast (shr32 w 16) :: u8))
      OR push_bit 24 (ucast (ucast (shr32 w 24) :: u8)) :: u32) n = bit w n"
      by cases (auto simp: stream_bit_simps bit_ucast_byte bit_ucast_iff)
  qed
  then show ?thesis by (simp add: WriteLittleEndian32ToArray_def)
qed

lemma WriteLittleEndian64_parts:
  "WriteLittleEndian64ToArray w = WriteLittleEndian32ToArray (ucast w) @ WriteLittleEndian32ToArray (ucast (drop_bit 32 w))"
  by (simp add: WriteLittleEndian64ToArray_def WriteLittleEndian32ToArray_def Let_def)

lemma WriteLittleEndian_length [simp]: "length (WriteLittleEndian32ToArray v) = 4" "length (WriteLittleEndian64ToArray w) = 8"
  by (simp_all add: WriteLittleEndian32ToArray_def WriteLittleEndian64ToArray_def Let_def)

lemma le64_write: "le64 (WriteLittleEndian64ToArray w @ r) = w"
proof -
  have "(ucast (ucast w :: u32) OR push_bit 32 (ucast (ucast (drop_bit 32 w) :: u32)) :: u64) = w"
  proof (rule bit_word_eqI)
    fix n assume "n < LENGTH(64)"
    then consider "n < 32" | "32 \<le> n" "n < 64" by fastforce
    then show "bit (ucast (ucast w :: u32) OR push_bit 32 (ucast (ucast (drop_bit 32 w) :: u32)) :: u64) n = bit w n"
      by cases (auto simp: stream_bit_simps bit_ucast_iff)
  qed
  moreover have "drop 4 (WriteLittleEndian64ToArray w @ r) = WriteLittleEndian32ToArray (ucast (drop_bit 32 w)) @ r"
    by (simp add: WriteLittleEndian64_parts)
  moreover have "le32 (WriteLittleEndian64ToArray w @ r) = ucast w"
    using le32_write [of "ucast w" "WriteLittleEndian32ToArray (ucast (drop_bit 32 w)) @ r"] by (simp add: WriteLittleEndian64_parts)
  ultimately show ?thesis by (simp only: le64_def le32_write)
qed
end
