(* ===== verification/CodedReads.thy ===== *)
theory CodedReads
  imports CodedStream
begin

text \<open>
  What the reads of \<open>CodedInputStream\<close> do, for a stream over a flat array and for one over the blocks of
  an input stream alike: the invariant \<open>stream_ok\<close>, the bytes \<open>bytes_left\<close> between the position and the
  closest limit, and for every read the value it finds at the start of these bytes and what it
  leaves of them. Where the buffers end makes no difference to what is read.
\<close>

subsection \<open>Streams over an array and over its blocks\<close>

text \<open>
  The invariant of a stream over a flat array inside its block: the buffer lies in the block,
  the bytes behind \<open>buffer_end_\<close> are exactly those behind the closest limit, and the
  current limit is never behind the array, which is what keeps \<open>input_\<close> from being used.
\<close>

definition flat_ok :: "CodedInputStream \<Rightarrow> bool" where
  "flat_ok s \<longleftrightarrow> 0 \<le> i_buffer s \<and> i_buffer s \<le> i_buffer_end s \<and>
     i_buffer_end s + i_buffer_size_after_limit s \<le> int (length (i_mem s)) \<and> i_overflow_bytes s = 0 \<and>
     i_current_limit s \<le> i_total_bytes_read s \<and> i_total_bytes_read s \<le> INT_MAX \<and> 0 \<le> CurrentPosition s \<and>
     i_buffer_size_after_limit s = i_total_bytes_read s - min (i_current_limit s) (i_total_bytes_limit s)"

text \<open>
  The invariant of a stream over the blocks of an input stream: an unread part of the buffer is the end of the
  last block, at the current position of the array, and what was taken from the input stream is what
  was read, except behind its end, where a skip that fails leaves the count too high.
\<close>

definition blocks_ok :: "ArrayInputStream \<Rightarrow> CodedInputStream \<Rightarrow> bool" where
  "blocks_ok a s \<longleftrightarrow> array_input_ok (i_mem s) a \<and> 0 \<le> i_buffer s \<and> i_buffer s \<le> i_buffer_end s \<and> i_overflow_bytes s = 0 \<and>
     i_current_limit s \<le> INT_MAX \<and> 0 \<le> CurrentPosition s \<and> CurrentPosition s \<le> min (i_current_limit s) (i_total_bytes_limit s) \<and>
     i_buffer_size_after_limit s = max 0 (i_total_bytes_read s - min (i_current_limit s) (i_total_bytes_limit s)) \<and>
     (ai_position a = i_total_bytes_read s \<or>
      ai_position a = ai_size a \<and> ai_size a \<le> i_total_bytes_read s \<and> BufferSize s + i_buffer_size_after_limit s = 0) \<and>
     (BufferSize s + i_buffer_size_after_limit s = 0 \<or>
      i_buffer s = ai_data a + CurrentPosition s \<and> BufferSize s + i_buffer_size_after_limit s \<le> ai_last_returned_size a)"

definition stream_ok :: "CodedInputStream \<Rightarrow> bool" where
  "stream_ok s \<longleftrightarrow> (case i_input s of None \<Rightarrow> flat_ok s | Some a \<Rightarrow> blocks_ok a s)"

text \<open>The bytes before the closest limit that are still to be read, in the buffer or behind it.\<close>

definition bytes_left :: "CodedInputStream \<Rightarrow> u8 list" where
  "bytes_left s = (case i_input s of
     None \<Rightarrow> take (nat (BufferSize s)) (drop (nat (i_buffer s)) (i_mem s))
   | Some a \<Rightarrow> take (nat (min (min (i_current_limit s) (i_total_bytes_limit s)) (ai_size a) - CurrentPosition s))
        (drop (nat (ai_data a + CurrentPosition s)) (i_mem s)))"

text \<open>What reading does not change, and a stream that reading has left with \<open>r\<close> to be read.\<close>

definition stream_end :: "CodedInputStream \<Rightarrow> int" where
  "stream_end s = (case i_input s of None \<Rightarrow> i_total_bytes_read s | Some a \<Rightarrow> max (ai_size a) (i_total_bytes_read s))"

definition frame :: "CodedInputStream \<Rightarrow> u8 list \<times> int \<times> int \<times> int \<times> int \<times> (int \<times> int) option" where
  "frame s = (i_mem s, i_current_limit s, i_total_bytes_limit s, i_recursion_limit s, stream_end s,
     map_option (\<lambda>a. (ai_data a, ai_size a)) (i_input s))"

definition moved :: "CodedInputStream \<Rightarrow> CodedInputStream \<Rightarrow> bool" where
  "moved s s' \<longleftrightarrow> frame s' = frame s"

definition leaves :: "CodedInputStream \<Rightarrow> CodedInputStream \<Rightarrow> u8 list \<Rightarrow> bool" where
  "leaves s s' r \<longleftrightarrow> stream_ok s' \<and> moved s s' \<and> bytes_left s' = r \<and> i_last_tag s' = i_last_tag s \<and>
     i_legitimate_message_end s' = i_legitimate_message_end s \<and> i_recursion_depth s' = i_recursion_depth s"

text \<open>A stream that is not at its total limit; then the end of the array is a legitimate end.\<close>

definition below_limit :: "CodedInputStream \<Rightarrow> bool" where
  "below_limit s \<longleftrightarrow> min (i_current_limit s) (stream_end s) < i_total_bytes_limit s"

lemma moved_refl [simp]: "moved s s"
  by (simp add: moved_def)

lemma moved_trans: "moved s s1 \<Longrightarrow> moved s1 s2 \<Longrightarrow> moved s s2"
  by (simp add: moved_def)

lemma moved_limit: "moved s s' \<Longrightarrow> below_limit s' = below_limit s"
  by (simp add: moved_def frame_def below_limit_def)

lemma moved_limits: "moved s s' \<Longrightarrow> i_recursion_limit s' = i_recursion_limit s"
  by (simp add: moved_def frame_def)

lemma leaves_refl: "stream_ok s \<Longrightarrow> leaves s s (bytes_left s)"
  by (simp add: leaves_def)

lemma leaves_trans: "leaves s s1 r1 \<Longrightarrow> leaves s1 s2 r2 \<Longrightarrow> leaves s s2 r2"
  by (auto simp: leaves_def moved_def)

lemma leavesD: "leaves s s' r \<Longrightarrow> stream_ok s' \<and> bytes_left s' = r"
  by (simp add: leaves_def)

lemma Advance_0 [simp]: "Advance 0 s = s"
  by (simp add: Advance_def)

lemma Advance_fields [simp]:
  "i_input (Advance k s) = i_input s" "i_mem (Advance k s) = i_mem s" "i_buffer (Advance k s) = i_buffer s + k"
  "i_buffer_end (Advance k s) = i_buffer_end s" "BufferSize (Advance k s) = BufferSize s - k"
  "CurrentPosition (Advance k s) = CurrentPosition s + k" "i_recursion_depth (Advance k s) = i_recursion_depth s"
  "i_last_tag (Advance k s) = i_last_tag s" "i_legitimate_message_end (Advance k s) = i_legitimate_message_end s"
  "frame (Advance k s) = frame s" "i_current_limit (Advance k s) = i_current_limit s" "i_total_bytes_limit (Advance k s) = i_total_bytes_limit s"
  "i_total_bytes_read (Advance k s) = i_total_bytes_read s" "i_buffer_size_after_limit (Advance k s) = i_buffer_size_after_limit s"
  "i_overflow_bytes (Advance k s) = i_overflow_bytes s"
  by (simp_all add: Advance_def BufferSize_def CurrentPosition_def frame_def stream_end_def split: option.splits)

lemma stream_ok_update [simp]:
  "stream_ok (s\<lparr>i_last_tag := t\<rparr>) = stream_ok s" "stream_ok (s\<lparr>i_legitimate_message_end := b\<rparr>) = stream_ok s"
  "stream_ok (s\<lparr>i_recursion_depth := d\<rparr>) = stream_ok s"
  "bytes_left (s\<lparr>i_last_tag := t\<rparr>) = bytes_left s" "bytes_left (s\<lparr>i_legitimate_message_end := b\<rparr>) = bytes_left s"
  "bytes_left (s\<lparr>i_recursion_depth := d\<rparr>) = bytes_left s"
  "frame (s\<lparr>i_last_tag := t\<rparr>) = frame s" "frame (s\<lparr>i_legitimate_message_end := b\<rparr>) = frame s"
  "frame (s\<lparr>i_recursion_depth := d\<rparr>) = frame s"
  by (simp_all add: stream_ok_def flat_ok_def blocks_ok_def bytes_left_def BufferSize_def CurrentPosition_def frame_def stream_end_def
      split: option.splits)

lemma moved_update [simp]:
  "moved s (Advance k s') = moved s s'" "moved s (s'\<lparr>i_last_tag := t\<rparr>) = moved s s'"
  "moved s (s'\<lparr>i_legitimate_message_end := l\<rparr>) = moved s s'" "moved s (s'\<lparr>i_recursion_depth := d\<rparr>) = moved s s'"
  by (simp_all add: moved_def)

subsection \<open>The buffer\<close>

lemma BufferSize_nonneg: "stream_ok s \<Longrightarrow> 0 \<le> BufferSize s"
  by (auto simp: stream_ok_def flat_ok_def blocks_ok_def BufferSize_def split: option.splits)

lemma after_limit_nonneg: "stream_ok s \<Longrightarrow> 0 \<le> i_buffer_size_after_limit s"
  by (auto simp: stream_ok_def flat_ok_def blocks_ok_def split: option.splits)

lemma buffer_prefix:
  assumes "stream_ok s"
  shows "nat (BufferSize s) \<le> length (bytes_left s) \<and>
    take (nat (BufferSize s)) (bytes_left s) = take (nat (BufferSize s)) (drop (nat (i_buffer s)) (i_mem s)) \<and>
    0 \<le> i_buffer s \<and> (0 < BufferSize s \<longrightarrow> i_buffer_end s \<le> int (length (i_mem s)))"
proof (cases "i_input s")
  case None
  then show ?thesis using assms
    by (auto simp: stream_ok_def flat_ok_def bytes_left_def BufferSize_def CurrentPosition_def)
next
  case (Some a)
  then have ok: "blocks_ok a s" using assms by (simp add: stream_ok_def)
  then have b: "0 \<le> i_buffer s" "0 \<le> BufferSize s" by (auto simp: blocks_ok_def BufferSize_def)
  show ?thesis
  proof (cases "BufferSize s = 0")
    case True
    then show ?thesis using b by simp
  next
    case False
    then have pos: "0 < BufferSize s" "0 \<le> i_buffer_size_after_limit s" using b(2) ok by (auto simp: blocks_ok_def)
    then have st: "i_buffer s = ai_data a + CurrentPosition s" "ai_position a = i_total_bytes_read s" "0 \<le> CurrentPosition s"
      using ok by (auto simp: blocks_ok_def)
    have arr: "0 \<le> ai_data a" "ai_position a \<le> ai_size a" "ai_data a + ai_size a \<le> int (length (i_mem s))"
      using ok by (auto simp: blocks_ok_def array_input_ok_def)
    have after: "i_buffer_size_after_limit s = max 0 (i_total_bytes_read s - min (i_current_limit s) (i_total_bytes_limit s))"
      using ok by (simp add: blocks_ok_def)
    define n where "n = min (min (i_current_limit s) (i_total_bytes_limit s)) (ai_size a) - CurrentPosition s"
    have n: "BufferSize s \<le> n" using after st(2) arr(2) by (auto simp: n_def CurrentPosition_def)
    have "i_buffer s + n \<le> int (length (i_mem s))" using arr st by (auto simp: n_def)
    then have "nat n \<le> length (i_mem s) - nat (i_buffer s)" using b(1) by linarith
    moreover have "bytes_left s = take (nat n) (drop (nat (i_buffer s)) (i_mem s))" using Some st by (simp add: bytes_left_def n_def)
    ultimately have "nat (BufferSize s) \<le> length (bytes_left s)"
      "take (nat (BufferSize s)) (bytes_left s) = take (nat (BufferSize s)) (drop (nat (i_buffer s)) (i_mem s))"
      using n by (auto simp: min_def)
    moreover have "i_buffer_end s \<le> int (length (i_mem s))"
      using n \<open>i_buffer s + n \<le> int (length (i_mem s))\<close> by (simp add: BufferSize_def)
    ultimately show ?thesis using b(1) by simp
  qed
qed

lemma stream_ok_byte:
  assumes "stream_ok s" and "int i < BufferSize s"
  shows "peek8 (i_mem s) (i_buffer s + int i) = Some (bytes_left s ! i)" and "i < length (bytes_left s)"
proof -
  have p: "nat (BufferSize s) \<le> length (bytes_left s)"
    "take (nat (BufferSize s)) (bytes_left s) = take (nat (BufferSize s)) (drop (nat (i_buffer s)) (i_mem s))"
    "0 \<le> i_buffer s" "0 < BufferSize s \<Longrightarrow> i_buffer_end s \<le> int (length (i_mem s))"
    using buffer_prefix [OF assms(1)] by simp_all
  have i: "i < nat (BufferSize s)" using assms(2) by simp
  have e: "i_buffer s + int i < int (length (i_mem s))" using p(4) assms(2) by (simp add: BufferSize_def)
  then have "peek8 (i_mem s) (i_buffer s + int i) = Some (i_mem s ! nat (i_buffer s + int i))" using p(3) by simp
  moreover have "nat (i_buffer s + int i) = nat (i_buffer s) + i" using p(3) by (simp add: nat_add_distrib)
  moreover have "bytes_left s ! i = drop (nat (i_buffer s)) (i_mem s) ! i" using p(2) i by (metis nth_take)
  moreover have "nat (i_buffer s) \<le> length (i_mem s)" using e p(3) by simp
  ultimately show "peek8 (i_mem s) (i_buffer s + int i) = Some (bytes_left s ! i)" by simp
  show "i < length (bytes_left s)" using p(1) i by simp
qed

lemma buffer_bytes:
  assumes "stream_ok s" and "int n \<le> BufferSize s"
  shows "mem_bytes (i_mem s) (i_buffer s) (int n) = Some (take n (bytes_left s))"
proof -
  have p: "nat (BufferSize s) \<le> length (bytes_left s)"
    "take (nat (BufferSize s)) (bytes_left s) = take (nat (BufferSize s)) (drop (nat (i_buffer s)) (i_mem s))"
    "0 \<le> i_buffer s" "0 < BufferSize s \<Longrightarrow> i_buffer_end s \<le> int (length (i_mem s))"
    using buffer_prefix [OF assms(1)] by simp_all
  have "take n (bytes_left s) = take n (drop (nat (i_buffer s)) (i_mem s))"
    using arg_cong [OF p(2), of "take n"] assms(2) by (simp add: min_def split: if_splits)
  moreover have "i_buffer s + int n \<le> int (length (i_mem s))" if "n \<noteq> 0" using p(4) assms(2) that by (simp add: BufferSize_def)
  ultimately show ?thesis using p(3) by (cases "n = 0") (simp_all add: mem_bytes_def)
qed

lemma buffer_empty: "stream_ok s \<Longrightarrow> (i_buffer s = i_buffer_end s) = (BufferSize s = 0)"
  by (auto simp: BufferSize_def)

lemma buffer_nonempty: "stream_ok s \<Longrightarrow> (i_buffer s < i_buffer_end s) = (0 < BufferSize s)"
  by (auto simp: BufferSize_def)

lemma Advance_ok:
  assumes "stream_ok s" and "int k \<le> BufferSize s"
  shows "leaves s (Advance (int k) s) (drop k (bytes_left s))"
proof (cases "i_input s")
  case None
  have k: "i_buffer s + int k \<le> i_buffer_end s" "0 \<le> i_buffer s"
    using assms None by (auto simp: BufferSize_def stream_ok_def flat_ok_def)
  then have "stream_ok (Advance (int k) s)"
    using assms(1) None by (simp add: stream_ok_def flat_ok_def)
  moreover have "nat (i_buffer s + int k) = nat (i_buffer s) + k" "nat (BufferSize s - int k) = nat (BufferSize s) - k"
    using k by (simp_all add: nat_add_distrib nat_diff_distrib)
  then have "bytes_left (Advance (int k) s) = drop k (bytes_left s)" using None by (simp add: bytes_left_def drop_take add.commute)
  ultimately show ?thesis by (simp add: leaves_def)
next
  case (Some a)
  have ok: "blocks_ok a s" using assms(1) Some by (simp add: stream_ok_def)
  have after: "0 \<le> i_buffer_size_after_limit s" by (rule after_limit_nonneg [OF assms(1)])
  show ?thesis
  proof (cases "k = 0")
    case True
    then show ?thesis using leaves_refl [OF assms(1)] by simp
  next
    case False
    then have b: "0 < BufferSize s" using assms(2) by simp
    then have st: "i_buffer s = ai_data a + CurrentPosition s" "ai_position a = i_total_bytes_read s" "0 \<le> CurrentPosition s"
      "BufferSize s + i_buffer_size_after_limit s \<le> ai_last_returned_size a"
      using ok after by (auto simp: blocks_ok_def)
    have lim: "CurrentPosition s + BufferSize s \<le> min (i_current_limit s) (i_total_bytes_limit s)"
    proof -
      have "i_buffer_size_after_limit s = max 0 (i_total_bytes_read s - min (i_current_limit s) (i_total_bytes_limit s))"
        using ok unfolding blocks_ok_def by blast
      then show ?thesis unfolding CurrentPosition_def by linarith
    qed
    have "blocks_ok a (Advance (int k) s)"
      using ok st lim assms(2) by (simp add: blocks_ok_def BufferSize_def)
    then have "stream_ok (Advance (int k) s)" using Some by (simp add: stream_ok_def)
    moreover have "bytes_left (Advance (int k) s) = drop k (bytes_left s)"
    proof -
      let ?L = "min (min (i_current_limit s) (i_total_bytes_limit s)) (ai_size a)"
      have "0 \<le> ai_data a" using ok by (simp add: blocks_ok_def array_input_ok_def)
      then have "nat (ai_data a + (CurrentPosition s + int k)) = nat (ai_data a + CurrentPosition s) + k"
        "nat (?L - (CurrentPosition s + int k)) = nat (?L - CurrentPosition s) - k"
        using st(3) by linarith+
      then show ?thesis using Some by (simp only: bytes_left_def Advance_fields option.case drop_take drop_drop add.commute)
    qed
    ultimately show ?thesis by (simp add: leaves_def)
  qed
qed

lemma limits_fields [simp]:
  "i_input (RecomputeBufferLimits s) = i_input s" "i_mem (RecomputeBufferLimits s) = i_mem s"
  "i_buffer (RecomputeBufferLimits s) = i_buffer s" "i_total_bytes_read (RecomputeBufferLimits s) = i_total_bytes_read s"
  "i_overflow_bytes (RecomputeBufferLimits s) = i_overflow_bytes s" "i_last_tag (RecomputeBufferLimits s) = i_last_tag s"
  "i_legitimate_message_end (RecomputeBufferLimits s) = i_legitimate_message_end s"
  "i_current_limit (RecomputeBufferLimits s) = i_current_limit s" "i_total_bytes_limit (RecomputeBufferLimits s) = i_total_bytes_limit s"
  "i_recursion_depth (RecomputeBufferLimits s) = i_recursion_depth s" "i_recursion_limit (RecomputeBufferLimits s) = i_recursion_limit s"
  by (simp_all add: RecomputeBufferLimits_def Let_def)

lemma limits_buffer:
  "BufferSize (RecomputeBufferLimits s) + i_buffer_size_after_limit (RecomputeBufferLimits s) = BufferSize s + i_buffer_size_after_limit s"
  "i_buffer_size_after_limit (RecomputeBufferLimits s) = max 0 (i_total_bytes_read s - min (i_current_limit s) (i_total_bytes_limit s))"
  "CurrentPosition (RecomputeBufferLimits s) = CurrentPosition s"
  by (auto simp: RecomputeBufferLimits_def Let_def BufferSize_def CurrentPosition_def)

lemma Refresh_blocks:
  assumes "stream_ok s" and "i_input s = Some a" and "BufferSize s = 0" and "i_buffer_size_after_limit s = 0"
    and "i_total_bytes_read s \<noteq> i_current_limit s"
  defines "l \<equiv> min (i_current_limit s) (i_total_bytes_limit s)" and "t \<equiv> i_total_bytes_read s"
  obtains (more) s' where "Refresh s = Some (True, s')" "leaves s s' (bytes_left s)" "t < ai_size a" "t \<le> l" "CurrentPosition s = t"
      "bytes_left s \<noteq> [] \<longleftrightarrow> t < l" "0 < BufferSize s' \<longleftrightarrow> t < l" "t < l \<or> 0 < i_buffer_size_after_limit s'"
  | (finished) s' where "Refresh s = Some (False, s')" "leaves s s' []" "bytes_left s = []" "ai_size a \<le> t" "t \<le> l" "CurrentPosition s = t"
      "BufferSize s' = 0" "i_total_bytes_read s' = t" "i_buffer_size_after_limit s' = 0"
proof -
  have ok: "blocks_ok a s" using assms(1,2) by (simp add: stream_ok_def)
  then have arr: "array_input_ok (i_mem s) a" by (simp add: blocks_ok_def)
  have pos: "CurrentPosition s = t" by (simp add: CurrentPosition_def t_def assms(3,4))
  have tl: "t \<le> l" using ok pos by (simp add: blocks_ok_def l_def)
  have t0: "0 \<le> t" using ok pos by (simp add: blocks_ok_def)
  have ov: "i_overflow_bytes s = 0" "i_current_limit s \<le> INT_MAX" using ok by (simp_all add: blocks_ok_def)
  show ?thesis
  proof (rule AIS_Next_ok [OF arr])
    fix n a' assume nx: "AIS_Next a = (Some (ai_data a + ai_position a, n), a')" "0 < n" "ai_position a + n \<le> ai_size a"
      "array_input_ok (i_mem s) a'" "same_array a a'" "ai_position a' = ai_position a + n" "ai_last_returned_size a' = n"
    have p: "ai_position a = t" using ok nx(2,3) by (auto simp: blocks_ok_def t_def)
    have im: "t \<le> INT_MAX - n" using nx(3) arr p by (simp add: array_input_ok_def INT_MAX_def)
    define u where "u = s\<lparr>i_input := Some a', i_buffer := ai_data a + t, i_buffer_end := ai_data a + t + n, i_total_bytes_read := t + n\<rparr>"
    have R: "Refresh s = Some (True, RecomputeBufferLimits u)"
      using assms(2-5) ov(1) nx(2) im unfolding u_def
      by (simp add: Refresh_def NextNonEmpty_ok [OF arr] nx(1) p t_def [symmetric])
    have u: "BufferSize u = n" "i_buffer_size_after_limit u = 0" "i_total_bytes_read u = t + n" "CurrentPosition u = t"
      "min (i_current_limit u) (i_total_bytes_limit u) = l" "i_input u = Some a'" "i_buffer u = ai_data a + t" "i_mem u = i_mem s"
      "i_overflow_bytes u = 0" "i_current_limit u = i_current_limit s" "i_total_bytes_limit u = i_total_bytes_limit s"
      using assms(4) ov by (simp_all add: u_def BufferSize_def CurrentPosition_def l_def)
    let ?s = "RecomputeBufferLimits u"
    have after: "i_buffer_size_after_limit ?s = max 0 (t + n - l)" using limits_buffer(2) [of u] u(3,5) by simp
    have sum: "BufferSize ?s + i_buffer_size_after_limit ?s = n" unfolding limits_buffer(1) u by simp
    have cp: "CurrentPosition ?s = t" unfolding limits_buffer(3) u by simp
    have same: "ai_data a' = ai_data a" "ai_size a' = ai_size a" using nx(5) by (simp_all add: same_array_def)
    have d0: "0 \<le> ai_data a" using arr by (simp add: array_input_ok_def)
    have bs: "0 \<le> BufferSize ?s" "0 < BufferSize ?s \<longleftrightarrow> t < l" using sum after tl nx(2) by linarith+
    have "blocks_ok a' ?s"
      unfolding blocks_ok_def using nx(4,6,7) p sum after cp t0 tl d0 bs(1) ov nx(2) same u
      by (simp add: BufferSize_def l_def)
    then have ok': "stream_ok ?s" using u by (simp add: stream_ok_def)
    have "bytes_left ?s = bytes_left s"
      using assms(2) u same pos cp by (simp add: bytes_left_def l_def)
    moreover have "frame ?s = frame s"
      using assms(2) same nx(2,3) p unfolding frame_def stream_end_def u limits_fields
      by (simp add: u_def t_def)
    ultimately have lv: "leaves s ?s (bytes_left s)" using ok' by (simp add: leaves_def moved_def) (simp add: u_def)
    have ts: "t < ai_size a" using nx(2,3) p by simp
    have ne: "bytes_left s \<noteq> [] \<longleftrightarrow> t < l"
    proof -
      have "ai_data a + t < int (length (i_mem s))" using arr ts by (auto simp: array_input_ok_def)
      then have "0 < length (drop (nat (ai_data a + t)) (i_mem s))" using t0 d0 by (simp add: nat_less_iff)
      then show ?thesis using assms(2) ts unfolding bytes_left_def pos l_def [symmetric] by (auto simp: min_def)
    qed
    show ?thesis by (rule more [OF R lv ts tl pos ne bs(2)]) (use after nx(2) in linarith)
  next
    fix a' assume nx: "AIS_Next a = (None, a')" "ai_position a = ai_size a" "array_input_ok (i_mem s) a'" "same_array a a'"
      "ai_position a' = ai_position a" "ai_last_returned_size a' = 0"
    let ?s = "s\<lparr>i_input := Some a', i_buffer := 0, i_buffer_end := 0\<rparr>"
    have R: "Refresh s = Some (False, ?s)"
      using assms(2-5) ov(1) by (simp add: Refresh_def NextNonEmpty_ok [OF arr] nx(1))
    have same: "ai_data a' = ai_data a" "ai_size a' = ai_size a" using nx(4) by (simp_all add: same_array_def)
    have st: "ai_size a \<le> t" using ok nx(2) by (auto simp: blocks_ok_def t_def)
    have cp: "BufferSize ?s = 0" "CurrentPosition ?s = t" "i_buffer_size_after_limit ?s = 0"
      using assms(4) by (simp_all add: BufferSize_def CurrentPosition_def t_def)
    have "blocks_ok a' ?s"
      unfolding blocks_ok_def using nx(2,3,5) same st cp t0 tl ov by (simp add: l_def t_def)
    then have ok': "stream_ok ?s" by (simp add: stream_ok_def)
    have e: "bytes_left s = []" "bytes_left ?s = []"
      using assms(2) same st pos cp by (auto simp: bytes_left_def)
    moreover have "frame ?s = frame s" using assms(2) same by (simp add: frame_def stream_end_def)
    ultimately have "leaves s ?s []" using ok' by (simp add: leaves_def moved_def)
    then show ?thesis by (rule finished [OF R _ e(1) st tl pos cp(1)]) (simp_all add: t_def assms(4))
  qed
qed

text \<open>
  An empty buffer is filled when there is something left. Otherwise \<open>Refresh\<close> fails, except at a
  total limit before the current one, where it takes a block that lies behind the limit and
  fails the next time.
\<close>

lemma Refresh_ok:
  assumes "stream_ok s" and "BufferSize s = 0"
  obtains (filled) s' where "Refresh s = Some (True, s')" "leaves s s' (bytes_left s)" "0 < BufferSize s'" "bytes_left s \<noteq> []"
  | (limit) s' where "Refresh s = Some (True, s')" "leaves s s' []" "bytes_left s = []" "BufferSize s' = 0"
      "Refresh s' = Some (False, s')" "\<not> below_limit s"
  | (stopped) s' where "Refresh s = Some (False, s')" "leaves s s' []" "bytes_left s = []" "BufferSize s' = 0"
      "below_limit s \<Longrightarrow> i_total_bytes_read s' - i_buffer_size_after_limit s' < i_total_bytes_limit s'"
proof (cases "0 < i_buffer_size_after_limit s \<or> i_total_bytes_read s = i_current_limit s")
  case True
  let ?l = "min (i_current_limit s) (i_total_bytes_limit s)"
  have ov: "i_overflow_bytes s = 0" using assms(1) by (auto simp: stream_ok_def flat_ok_def blocks_ok_def split: option.splits)
  have R: "Refresh s = Some (False, s)" using True assms(2) by (auto simp: Refresh_def)
  have pos: "CurrentPosition s = i_total_bytes_read s - i_buffer_size_after_limit s" using assms(2) by (simp add: CurrentPosition_def)
  have after: "i_buffer_size_after_limit s = max 0 (i_total_bytes_read s - ?l)"
    using assms(1) by (auto simp: stream_ok_def flat_ok_def blocks_ok_def split: option.splits)
  have at: "CurrentPosition s = ?l" using True after pos by linarith
  have e: "bytes_left s = []" using at assms(2) by (auto simp: bytes_left_def split: option.splits)
  have "i_total_bytes_read s - i_buffer_size_after_limit s < i_total_bytes_limit s" if "below_limit s"
  proof -
    have "min (i_current_limit s) (stream_end s) < i_total_bytes_limit s" using that by (simp add: below_limit_def)
    moreover have "i_total_bytes_read s \<le> stream_end s" by (simp add: stream_end_def split: option.splits)
    ultimately show ?thesis using at pos after True by linarith
  qed
  with R show ?thesis using leaves_refl [OF assms(1)] e assms(2) by (intro stopped [of s]) simp_all
next
  case False
  then have after: "i_buffer_size_after_limit s = 0" using after_limit_nonneg [OF assms(1)] by simp
  show ?thesis
  proof (cases "i_input s")
    case None
    then have "flat_ok s" using assms(1) by (simp add: stream_ok_def)
    then show ?thesis using False after by (auto simp: flat_ok_def min_def split: if_splits)
  next
    case (Some a)
    have end_: "stream_end s = max (ai_size a) (i_total_bytes_read s)" using Some by (simp add: stream_end_def)
    have ne: "i_total_bytes_read s \<noteq> i_current_limit s" using False by simp
    show ?thesis
    proof (rule Refresh_blocks [OF assms(1) Some assms(2) after ne])
      fix s' assume r: "Refresh s = Some (True, s')" "leaves s s' (bytes_left s)" "i_total_bytes_read s < ai_size a"
        "i_total_bytes_read s \<le> min (i_current_limit s) (i_total_bytes_limit s)" "CurrentPosition s = i_total_bytes_read s"
        "bytes_left s \<noteq> [] \<longleftrightarrow> i_total_bytes_read s < min (i_current_limit s) (i_total_bytes_limit s)"
        "0 < BufferSize s' \<longleftrightarrow> i_total_bytes_read s < min (i_current_limit s) (i_total_bytes_limit s)"
        "i_total_bytes_read s < min (i_current_limit s) (i_total_bytes_limit s) \<or> 0 < i_buffer_size_after_limit s'"
      show ?thesis
      proof (cases "bytes_left s = []")
        case False
        then show ?thesis using r by (intro filled [of s']) simp_all
      next
        case True
        then have lim: "i_total_bytes_limit s = i_total_bytes_read s" "i_total_bytes_read s < i_current_limit s" using r(4,6) ne by auto
        have nb: "\<not> below_limit s" using lim r(3) by (auto simp: below_limit_def end_)
        have z: "BufferSize s' = 0" using True r(6,7) BufferSize_nonneg [of s'] leavesD [OF r(2)] by force
        have "0 < i_buffer_size_after_limit s'" using True r(6,8) by blast
        then have "Refresh s' = Some (False, s')" using z by (simp add: Refresh_def)
        then show ?thesis using r(1,2) True z nb by (intro limit [of s']) simp_all
      qed
    next
      fix s' assume r: "Refresh s = Some (False, s')" "leaves s s' []" "bytes_left s = []" "ai_size a \<le> i_total_bytes_read s"
        "i_total_bytes_read s \<le> min (i_current_limit s) (i_total_bytes_limit s)" "CurrentPosition s = i_total_bytes_read s"
        "BufferSize s' = 0" "i_total_bytes_read s' = i_total_bytes_read s" "i_buffer_size_after_limit s' = 0"
      have "i_total_bytes_limit s' = i_total_bytes_limit s" using r(2) by (simp add: leaves_def moved_def frame_def)
      then have "i_total_bytes_read s' - i_buffer_size_after_limit s' < i_total_bytes_limit s'" if "below_limit s"
        using that r(4,5,8,9) unfolding below_limit_def end_ by simp
      with r show ?thesis by (intro stopped [of s']) simp_all
    qed
  qed
qed

lemma Refresh_position:
  assumes "0 \<le> i_buffer_size_after_limit s" and "Refresh s = Some (b, s')"
  shows "CurrentPosition s' = CurrentPosition s"
proof (cases "0 < i_buffer_size_after_limit s \<or> 0 < i_overflow_bytes s \<or> i_total_bytes_read s = i_current_limit s")
  case True
  then show ?thesis using assms(2) by (auto simp: Refresh_def split: if_splits)
next
  case False
  have z: "BufferSize s = 0" "i_buffer_size_after_limit s = 0" using assms False by (auto simp: Refresh_def split: if_splits)
  then have cp: "CurrentPosition s = i_total_bytes_read s" by (simp add: CurrentPosition_def)
  obtain input blk input' where nx: "i_input s = Some input" "NextNonEmpty input = Some (blk, input')"
    using assms(2) False z(1) by (auto simp: Refresh_def bind_eq_Some_conv)
  show ?thesis
  proof (cases blk)
    case None
    then show ?thesis using assms(2) False z nx cp by (auto simp: Refresh_def CurrentPosition_def BufferSize_def)
  next
    case (Some p)
    obtain ptr n where "p = (ptr, n)" by (cases p)
    then show ?thesis
      using assms(2) False z nx cp Some by (auto simp: Refresh_def Let_def limits_buffer(3) CurrentPosition_def [of "_\<lparr>i_total_bytes_read := _\<rparr>"] BufferSize_def split: if_splits)
  qed
qed

lemma fill_buffer_ok:
  assumes "stream_ok s"
  shows "bytes_left s = [] \<Longrightarrow> \<exists>s'. fill_buffer s = Some (False, s') \<and> leaves s s' []"
    and "bytes_left s \<noteq> [] \<Longrightarrow> \<exists>s'. fill_buffer s = Some (True, s') \<and> leaves s s' (bytes_left s) \<and> 0 < BufferSize s'"
proof -
  have stay: "fill_buffer s = Some (True, s)" if "stream_ok s" "BufferSize s \<noteq> 0" for s
    using buffer_empty [OF that(1)] that(2) by (subst fill_buffer.simps) simp
  have step: "fill_buffer s = do { (ok, s') \<leftarrow> Refresh s; if \<not> ok then Some (False, s') else fill_buffer s' }"
    if "stream_ok s" "BufferSize s = 0" for s using buffer_empty [OF that(1)] that(2) by (subst fill_buffer.simps) simp
  have pre: "nat (BufferSize s) \<le> length (bytes_left s)" using buffer_prefix [OF assms] by simp
  have nn: "0 \<le> BufferSize s" by (rule BufferSize_nonneg [OF assms])
  show "\<exists>s'. fill_buffer s = Some (False, s') \<and> leaves s s' []" if "bytes_left s = []"
  proof -
    have z: "BufferSize s = 0" using pre nn that by simp
    show ?thesis
    proof (rule Refresh_ok [OF assms z])
      fix s' assume l: "Refresh s = Some (True, s')" "leaves s s' []" "BufferSize s' = 0" "Refresh s' = Some (False, s')"
      then have "fill_buffer s' = Some (False, s')" using step [of s'] leavesD by auto
      then show ?thesis using step [OF assms z] l by simp
    qed (use step [OF assms z] that in auto)
  qed
  show "\<exists>s'. fill_buffer s = Some (True, s') \<and> leaves s s' (bytes_left s) \<and> 0 < BufferSize s'" if "bytes_left s \<noteq> []"
  proof (cases "BufferSize s = 0")
    case True
    show ?thesis
    proof (rule Refresh_ok [OF assms True])
      fix s' assume l: "Refresh s = Some (True, s')" "leaves s s' (bytes_left s)" "0 < BufferSize s'"
      then have "fill_buffer s' = Some (True, s')" using stay [of s'] leavesD by auto
      then show ?thesis using step [OF assms True] l by auto
    qed (use that in auto)
  next
    case False
    then show ?thesis using stay [OF assms False] leaves_refl [OF assms] nn by auto
  qed
qed

text \<open>The bytes of the buffer, of which the fast paths look at the last.\<close>

definition buffered :: "CodedInputStream \<Rightarrow> u8 list" where
  "buffered s = take (nat (BufferSize s)) (bytes_left s)"

lemma buffered_ok:
  assumes "stream_ok s"
  shows "int (length (buffered s)) = BufferSize s" and "\<exists>ext. drop (nat (i_buffer s)) (i_mem s) = buffered s @ ext"
    and "\<exists>rest. bytes_left s = buffered s @ rest"
proof -
  show "int (length (buffered s)) = BufferSize s"
  proof -
    have "nat (BufferSize s) \<le> length (bytes_left s)" using buffer_prefix [OF assms] by blast
    then show ?thesis using BufferSize_nonneg [OF assms] by (simp add: buffered_def)
  qed
  show "\<exists>ext. drop (nat (i_buffer s)) (i_mem s) = buffered s @ ext"
    using buffer_prefix [OF assms] unfolding buffered_def by (metis append_take_drop_id)
  show "\<exists>rest. bytes_left s = buffered s @ rest" unfolding buffered_def by (metis append_take_drop_id)
qed

lemma small_byte_ok:
  assumes "stream_ok s"
  shows "small_byte s = Some (case buffered s of [] \<Rightarrow> None | b # _ \<Rightarrow> if b < 128 then Some b else None)"
proof (cases "buffered s")
  case Nil
  then have "BufferSize s = 0" using buffered_ok(1) [OF assms] by simp
  then show ?thesis using Nil buffer_nonempty [OF assms] by (simp add: small_byte_def)
next
  case (Cons b bs)
  then have p: "0 < BufferSize s" using buffered_ok(1) [OF assms] by (simp flip: of_nat_0_less_iff)
  moreover have "bytes_left s ! 0 = b" using buffered_ok(3) [OF assms] Cons by auto
  ultimately show ?thesis using stream_ok_byte(1) [OF assms, of 0] buffer_nonempty [OF assms] Cons by (simp add: small_byte_def)
qed

lemma fast_varint_ok:
  assumes "stream_ok s"
  shows "fast_varint s = Some (10 \<le> length (buffered s) \<or> buffered s \<noteq> [] \<and> last (buffered s) < 128)"
proof (cases "buffered s = []")
  case True
  then have "BufferSize s = 0" using buffered_ok(1) [OF assms] by simp
  then show ?thesis using True buffer_nonempty [OF assms] by (simp add: fast_varint_def ends_varint_def CIS_kMaxVarintBytes_def)
next
  case False
  let ?n = "length (buffered s)"
  have n: "0 < ?n" "int ?n = BufferSize s" using False buffered_ok(1) [OF assms] by simp_all
  have eq: "i_buffer_end s - 1 = i_buffer s + int (?n - 1)" and lt: "int (?n - 1) < BufferSize s"
    using n unfolding BufferSize_def by linarith+
  have "bytes_left s ! (?n - 1) = last (buffered s)"
    using buffered_ok(3) [OF assms] False n(1) by (auto simp: last_conv_nth nth_append)
  then have "peek8 (i_mem s) (i_buffer_end s - 1) = Some (last (buffered s))"
    unfolding eq using stream_ok_byte(1) [OF assms lt] by simp
  then show ?thesis using buffer_nonempty [OF assms] n False
    by (auto simp: fast_varint_def ends_varint_def CIS_kMaxVarintBytes_def byte_flag8)
qed

text \<open>Then the buffer holds all of the number, or ten bytes that are not the start of one.\<close>

lemma fast_prefix:
  assumes "stream_ok s" and "fast_varint s = Some True" and xs_def: "xs = drop (nat (i_buffer s)) (i_mem s)"
  shows "varint_take 10 (bytes_left s) = Some (v, r) \<Longrightarrow>
      \<exists>k. int k \<le> BufferSize s \<and> r = drop k (bytes_left s) \<and> varint_take 10 xs = Some (v, drop k xs) \<and> k \<le> length xs"
    and "varint_take 10 (bytes_left s) = None \<Longrightarrow> varint_take 10 xs = None \<and> 10 \<le> length xs"
proof -
  obtain ext rest where e: "xs = buffered s @ ext" "bytes_left s = buffered s @ rest"
    using buffered_ok(2,3) [OF assms(1)] xs_def by blast
  have fast: "10 \<le> length (buffered s) \<or> buffered s \<noteq> [] \<and> last (buffered s) < 128"
    using fast_varint_ok [OF assms(1)] assms(2) by simp
  have none: "10 \<le> length (buffered s)" if "varint_take 10 (buffered s) = None"
    using fast varint_take_ends [OF that] by auto
  show "varint_take 10 xs = None \<and> 10 \<le> length xs" if v: "varint_take 10 (bytes_left s) = None"
  proof (cases "varint_take 10 (buffered s)")
    case None
    then show ?thesis using varint_take_limit [OF None none [OF None]] none [OF None] e by simp
  next
    case (Some p)
    then show ?thesis using v varint_take_mono [of 10 "buffered s" "fst p" "snd p" 10 rest] e by simp
  qed
  show "\<exists>k. int k \<le> BufferSize s \<and> r = drop k (bytes_left s) \<and> varint_take 10 xs = Some (v, drop k xs) \<and> k \<le> length xs"
    if v: "varint_take 10 (bytes_left s) = Some (v, r)"
  proof (cases "varint_take 10 (buffered s)")
    case None
    then show ?thesis using v varint_take_limit [OF None none [OF None]] e by simp
  next
    case (Some p)
    obtain v' r' where p: "p = (v', r')" by (cases p)
    obtain u where u: "buffered s = u @ r'" using varint_take_suffix Some p by blast
    have x: "varint_take 10 xs = Some (v', r' @ ext)" "varint_take 10 (bytes_left s) = Some (v', r' @ rest)"
      using varint_take_mono [of 10 "buffered s" v' r' 10] Some p e by simp_all
    have "int (length u) \<le> BufferSize s" using u buffered_ok(1) [OF assms(1)] by simp
    then show ?thesis using x v u e by (intro exI [of _ "length u"]) simp
  qed
qed

lemma group_step:
  fixes b :: u8
  assumes "acc < 128 ^ j"
  defines "a \<equiv> acc + 128 ^ j * (unat b mod 128)"
  shows "of_nat acc OR push_bit (nat (7 * int j)) (ucast ((ucast b :: u32) AND 0x7F)) = (of_nat a :: u64)" and "a < 128 ^ Suc j"
proof -
  have p2: "(2::nat) ^ (7 * j) = 128 ^ j" by (simp add: power_mult)
  have grp: "(ucast (of_nat (unat b mod 128) :: u32) :: u64) = of_nat (unat b mod 128)"
    by (simp add: unsigned_of_nat unsigned_ucast_eq take_bit_nat_eq_self)
  show "of_nat acc OR push_bit (nat (7 * int j)) (ucast ((ucast b :: u32) AND 0x7F)) = (of_nat a :: u64)"
    unfolding byte_group grp a_def using or_shift_add [of acc "7 * j" "unat b mod 128", where 'a = 64] assms(1)
    by (simp add: p2 nat_mult_distrib)
  have "a < 128 ^ j + 128 ^ j * (unat b mod 128)" using assms(1) by (simp add: a_def)
  also have "\<dots> = 128 ^ j * Suc (unat b mod 128)" by simp
  also have "\<dots> \<le> 128 ^ j * 128" by (intro mult_le_mono2) (simp add: Suc_leI)
  finally show "a < 128 ^ Suc j" by (simp add: mult.commute)
qed

lemma ReadVarint64Slow_loop_ok:
  assumes "stream_ok s" and "acc < 128 ^ j"
  shows "case varint_take left (bytes_left s) of
        Some (v, r) \<Rightarrow> \<exists>s'. ReadVarint64Slow_loop left (int j) (of_nat acc) s = Some (Some (of_nat (acc + 128 ^ j * v)), s') \<and> leaves s s' r
      | None \<Rightarrow> \<exists>k s'. ReadVarint64Slow_loop left (int j) (of_nat acc) s = Some (None, s') \<and> leaves s s' (drop k (bytes_left s))"
  using assms
proof (induction left arbitrary: j acc s)
  case 0
  then show ?case using leaves_refl [of s] by (auto intro!: exI [of _ 0])
next
  case (Suc left)
  show ?case
  proof (cases "bytes_left s")
    case Nil
    then show ?thesis using fill_buffer_ok(1) [OF Suc.prems(1)] by auto
  next
    case (Cons b xs)
    obtain s1 where s1: "fill_buffer s = Some (True, s1)" "leaves s s1 (b # xs)" "0 < BufferSize s1"
      using fill_buffer_ok(2) [OF Suc.prems(1)] Cons by auto
    have ok1: "stream_ok s1" "bytes_left s1 = b # xs" using leavesD [OF s1(2)] by simp_all
    have b: "byte32 (i_mem s1) (i_buffer s1) = Some (ucast b)"
      using stream_ok_byte(1) [OF ok1(1), of 0] s1(3) ok1(2) by (simp add: byte32_def)
    have s2: "leaves s (Advance 1 s1) xs"
      using leaves_trans [OF s1(2) Advance_ok [OF ok1(1), of 1]] s1(3) ok1(2) by simp
    have ok2: "stream_ok (Advance 1 s1)" "bytes_left (Advance 1 s1) = xs" using leavesD [OF s2] by simp_all
    define a where "a = acc + 128 ^ j * (unat b mod 128)"
    note grp = group_step [OF Suc.prems(2), of b, folded a_def]
    note IH = Suc.IH [OF ok2(1) grp(2), unfolded ok2(2)]
    have step: "ReadVarint64Slow_loop (Suc left) (int j) (of_nat acc) s =
      (if b < 128 then Some (Some (of_nat a), Advance 1 s1) else ReadVarint64Slow_loop left (int (Suc j)) (of_nat a) (Advance 1 s1))"
      by (simp add: s1(1) b Let_def grp(1) byte_flag add.commute)
    have val: "unat b mod 128 = (if b < 128 then unat b else unat b - 128)"
      using unsigned_less [of b, where 'a = nat] by (simp add: word_less_nat_alt le_mod_geq)
    show ?thesis
    proof (cases "b < 128")
      case True
      then show ?thesis unfolding step using val s2 by (simp add: Cons a_def)
    next
      case False
      note val = val [unfolded if_not_P [OF False]]
      show ?thesis
      proof (cases "varint_take left xs")
        case None
        then obtain k s' where "ReadVarint64Slow_loop left (int (Suc j)) (of_nat a) (Advance 1 s1) = Some (None, s')"
          "leaves (Advance 1 s1) s' (drop k xs)" using IH by auto
        then show ?thesis unfolding step using False None leaves_trans [OF s2] Cons
          by (auto intro!: exI [of _ "Suc k"])
      next
        case (Some p)
        obtain v r where p: "p = (v, r)" by (cases p)
        then obtain s' where "ReadVarint64Slow_loop left (int (Suc j)) (of_nat a) (Advance 1 s1) = Some (Some (of_nat (a + 128 ^ Suc j * v)), s')"
          "leaves (Advance 1 s1) s' r" using IH Some by auto
        then show ?thesis unfolding step using False Some p val leaves_trans [OF s2]
          by (auto simp: Cons a_def distrib_left mult.assoc mult.left_commute)
      qed
    qed
  qed
qed

lemma ReadVarint64Fallback_ok:
  assumes "stream_ok s"
  shows "varint_take 10 (bytes_left s) = Some (v, r) \<Longrightarrow>
      \<exists>s'. ReadVarint64Fallback s = Some (Some (of_nat v), s') \<and> leaves s s' r"
    and "varint_take 10 (bytes_left s) = None \<Longrightarrow>
      \<exists>k s'. ReadVarint64Fallback s = Some (None, s') \<and> leaves s s' (drop k (bytes_left s))"
proof -
  define xs where "xs = drop (nat (i_buffer s)) (i_mem s)"
  have b: "0 \<le> i_buffer s" using buffer_prefix [OF assms] by simp
  have slow: "ReadVarint64Fallback s = ReadVarint64Slow_loop 10 (int 0) (of_nat 0) s" if "fast_varint s = Some False"
    using that by (simp add: ReadVarint64Fallback_def ReadVarint64Slow_def CIS_kMaxVarintBytes_def)
  have fast: "fast_varint s = Some False \<or> fast_varint s = Some True" using fast_varint_ok [OF assms] by auto
  note loop = ReadVarint64Slow_loop_ok [OF assms, of 0 0 10]
  show "\<exists>s'. ReadVarint64Fallback s = Some (Some (of_nat v), s') \<and> leaves s s' r"
    if v: "varint_take 10 (bytes_left s) = Some (v, r)"
  proof (cases "fast_varint s = Some True")
    case True
    obtain k where k: "int k \<le> BufferSize s" "r = drop k (bytes_left s)" "varint_take 10 xs = Some (v, drop k xs)" "k \<le> length xs"
      using fast_prefix(1) [OF assms True xs_def v] by blast
    then have "ReadVarint64Fallback s = Some (Some (of_nat v), Advance (int k) s)"
      using fast64_spec [OF b xs_def True] by (simp add: of_nat_diff)
    then show ?thesis using Advance_ok [OF assms k(1)] k(2) by simp
  qed (use fast slow v loop in auto)
  show "\<exists>k s'. ReadVarint64Fallback s = Some (None, s') \<and> leaves s s' (drop k (bytes_left s))" if v: "varint_take 10 (bytes_left s) = None"
  proof (cases "fast_varint s = Some True")
    case True
    then have "ReadVarint64Fallback s = Some (None, s)"
      using fast64_spec [OF b xs_def True] fast_prefix(2) [OF assms True xs_def v] by simp
    then show ?thesis using leaves_refl [OF assms] by (intro exI [of _ 0]) simp
  qed (use fast slow v loop in auto)
qed

text \<open>A small first byte is its own encoding, so the inlined case agrees with the rest.\<close>

lemma small_varint: "b < 128 \<Longrightarrow> varint_take 10 (b # bs) = Some (unat (b::u8), bs)"
  by (simp add: numeral_eq_Suc)

lemma small_byte_cases:
  assumes "stream_ok s"
  obtains (small) b bs where "small_byte s = Some (Some b)" "bytes_left s = b # bs" "b < 128" "leaves s (Advance 1 s) bs"
  | (other) "small_byte s = Some None"
proof (cases "small_byte s = Some None")
  case False
  then obtain b bs where b: "buffered s = b # bs" "b < 128" "small_byte s = Some (Some b)"
    using small_byte_ok [OF assms] by (auto split: list.splits if_splits)
  then obtain rest where r: "bytes_left s = b # rest" using buffered_ok(3) [OF assms] by auto
  have "int 1 \<le> BufferSize s" using buffered_ok(1) [OF assms] b(1) by simp
  from Advance_ok [OF assms this] show ?thesis using b r by (intro small) simp_all
qed (rule other)

lemma ReadVarint64_ok:
  assumes "stream_ok s"
  shows "varint_take 10 (bytes_left s) = Some (v, r) \<Longrightarrow> \<exists>s'. ReadVarint64 s = Some (Some (of_nat v), s') \<and> leaves s s' r"
    and "varint_take 10 (bytes_left s) = None \<Longrightarrow> \<exists>k s'. ReadVarint64 s = Some (None, s') \<and> leaves s s' (drop k (bytes_left s))"
  by (rule small_byte_cases [OF assms];
      use ReadVarint64Fallback_ok [OF assms] small_varint in \<open>fastforce simp: ReadVarint64_def\<close>)+

lemma fast32_ok:
  assumes "stream_ok s" and "fast_varint s = Some True"
  shows "varint_take 10 (bytes_left s) = Some (v, r) \<Longrightarrow>
      \<exists>k. ReadVarint32FromArray (i_mem s) (i_buffer s) = Some (Some (of_nat v, i_buffer s + int k)) \<and> leaves s (Advance (int k) s) r"
    and "varint_take 10 (bytes_left s) = None \<Longrightarrow> ReadVarint32FromArray (i_mem s) (i_buffer s) = Some None"
proof -
  define xs where "xs = drop (nat (i_buffer s)) (i_mem s)"
  have b: "0 \<le> i_buffer s" using buffer_prefix [OF assms(1)] by simp
  note spec = ReadVarint32FromArray_spec [OF b xs_def]
  show "ReadVarint32FromArray (i_mem s) (i_buffer s) = Some None" if "varint_take 10 (bytes_left s) = None"
    using fast_prefix(2) [OF assms xs_def that] spec by simp
  show "\<exists>k. ReadVarint32FromArray (i_mem s) (i_buffer s) = Some (Some (of_nat v, i_buffer s + int k)) \<and> leaves s (Advance (int k) s) r"
    if v: "varint_take 10 (bytes_left s) = Some (v, r)"
  proof -
    obtain k where k: "int k \<le> BufferSize s" "r = drop k (bytes_left s)" "varint_take 10 xs = Some (v, drop k xs)" "k \<le> length xs"
      using fast_prefix(1) [OF assms xs_def v] by blast
    then show ?thesis using spec Advance_ok [OF assms(1) k(1)] by (intro exI [of _ k]) (simp add: of_nat_diff)
  qed
qed

lemma ucast_of_nat_32: "(ucast (of_nat v :: u64) :: u32) = of_nat v"
proof -
  have "unat (ucast (of_nat v :: u64) :: u32) = take_bit 32 (take_bit 64 v)"
    by (simp add: unsigned_ucast_eq unsigned_of_nat)
  also have "\<dots> = unat (of_nat v :: u32)" by (simp add: unsigned_of_nat min_def)
  finally show ?thesis by (simp only: word_unat_eq_iff)
qed

lemma ReadVarint32Fallback_ok:
  assumes "stream_ok s"
  shows "varint_take 10 (bytes_left s) = Some (v, r) \<Longrightarrow> \<exists>s'. ReadVarint32Fallback s = Some (Some (of_nat v), s') \<and> leaves s s' r"
    and "varint_take 10 (bytes_left s) = None \<Longrightarrow> \<exists>k s'. ReadVarint32Fallback s = Some (None, s') \<and> leaves s s' (drop k (bytes_left s))"
proof -
  have fast: "fast_varint s = Some False \<or> fast_varint s = Some True" using fast_varint_ok [OF assms] by auto
  show "\<exists>s'. ReadVarint32Fallback s = Some (Some (of_nat v), s') \<and> leaves s s' r" if v: "varint_take 10 (bytes_left s) = Some (v, r)"
  proof (cases "fast_varint s = Some True")
    case True
    then show ?thesis using fast32_ok(1) [OF assms True v] by (auto simp: ReadVarint32Fallback_def Advance_def)
  next
    case False
    then show ?thesis using fast ReadVarint64Fallback_ok(1) [OF assms v]
      by (auto simp: ReadVarint32Fallback_def ReadVarint32Slow_def ucast_of_nat_32)
  qed
  show "\<exists>k s'. ReadVarint32Fallback s = Some (None, s') \<and> leaves s s' (drop k (bytes_left s))" if v: "varint_take 10 (bytes_left s) = None"
  proof (cases "fast_varint s = Some True")
    case True
    then show ?thesis using fast32_ok(2) [OF assms True v] leaves_refl [OF assms]
      by (intro exI [of _ 0]) (auto simp: ReadVarint32Fallback_def)
  next
    case False
    then show ?thesis using fast ReadVarint64Fallback_ok(2) [OF assms v]
      by (auto simp: ReadVarint32Fallback_def ReadVarint32Slow_def)
  qed
qed

lemma ReadVarint32_ok:
  assumes "stream_ok s"
  shows "varint_take 10 (bytes_left s) = Some (v, r) \<Longrightarrow> \<exists>s'. ReadVarint32 s = Some (Some (of_nat v), s') \<and> leaves s s' r"
    and "varint_take 10 (bytes_left s) = None \<Longrightarrow> \<exists>k s'. ReadVarint32 s = Some (None, s') \<and> leaves s s' (drop k (bytes_left s))"
  by (rule small_byte_cases [OF assms];
      use ReadVarint32Fallback_ok [OF assms] small_varint in \<open>fastforce simp: ReadVarint32_def\<close>)+

subsection \<open>Tags\<close>

lemma ReadTagSlow_end:
  assumes "stream_ok s" and "bytes_left s = []"
  shows "\<exists>b s'. ReadTagSlow s = Some (0, s'\<lparr>i_legitimate_message_end := b\<rparr>) \<and> leaves s s' [] \<and> (below_limit s \<longrightarrow> b)"
proof -
  have z: "BufferSize s = 0" using buffer_prefix [OF assms(1)] BufferSize_nonneg [OF assms(1)] assms(2) by simp
  then have e: "i_buffer s = i_buffer_end s" using buffer_empty [OF assms(1)] by simp
  show ?thesis
  proof (rule Refresh_ok [OF assms(1) z])
    fix s' assume l: "Refresh s = Some (True, s')" "leaves s s' []" "\<not> below_limit s"
    then have "stream_ok s'" "bytes_left s' = []" using leavesD [OF l(2)] by simp_all
    then obtain s2 where s2: "ReadVarint64 s' = Some (None, s2)" "leaves s' s2 []" using ReadVarint64_ok(2) [of s'] by auto
    then have "ReadTagSlow s = Some (0, s2)" using l(1) e by (simp add: ReadTagSlow_def)
    moreover have "s2 = s2\<lparr>i_legitimate_message_end := i_legitimate_message_end s2\<rparr>" by simp
    ultimately show ?thesis using leaves_trans [OF l(2) s2(2)] l(3) by metis
  next
    fix s' assume l: "Refresh s = Some (False, s')" "leaves s s' []"
      "below_limit s \<Longrightarrow> i_total_bytes_read s' - i_buffer_size_after_limit s' < i_total_bytes_limit s'"
    obtain b where "ReadTagSlow s = Some (0, s'\<lparr>i_legitimate_message_end := b\<rparr>)" "below_limit s \<longrightarrow> b"
    proof (cases "i_total_bytes_limit s' \<le> i_total_bytes_read s' - i_buffer_size_after_limit s'")
      case True
      then show ?thesis using e l by (intro that [of "i_current_limit s' = i_total_bytes_limit s'"]) (auto simp: ReadTagSlow_def Let_def)
    next
      case False
      then show ?thesis using e l by (intro that [of True]) (auto simp: ReadTagSlow_def Let_def)
    qed
    with l(2) show ?thesis by blast
  qed (use assms(2) in auto)
qed

lemma ReadTagFallback_ok:
  assumes "stream_ok s"
  shows "bytes_left s = [] \<Longrightarrow>
      \<exists>b s'. ReadTagFallback s = Some (0, s'\<lparr>i_legitimate_message_end := b\<rparr>) \<and> leaves s s' [] \<and> (below_limit s \<longrightarrow> b)"
    and "varint_take 10 (bytes_left s) = Some (v, r) \<Longrightarrow> \<exists>s'. ReadTagFallback s = Some (of_nat v, s') \<and> leaves s s' r"
    and "bytes_left s \<noteq> [] \<Longrightarrow> varint_take 10 (bytes_left s) = None \<Longrightarrow>
      \<exists>k s'. ReadTagFallback s = Some (0, s') \<and> leaves s s' (drop k (bytes_left s))"
proof -
  have fv: "fast_varint s = Some True \<or> fast_varint s = Some False" using fast_varint_ok [OF assms] by auto
  have z: "bytes_left s = [] \<Longrightarrow> BufferSize s = 0" using buffered_ok(1,3) [OF assms] by auto
  show "\<exists>b s'. ReadTagFallback s = Some (0, s'\<lparr>i_legitimate_message_end := b\<rparr>) \<and> leaves s s' [] \<and> (below_limit s \<longrightarrow> b)"
    if e: "bytes_left s = []"
  proof -
    have "buffered s = []" using e by (simp add: buffered_def)
    then have "fast_varint s = Some False" using fast_varint_ok [OF assms] by simp
    then have "ReadTagFallback s = Some (0, s\<lparr>i_legitimate_message_end := True\<rparr>) \<or> ReadTagFallback s = ReadTagSlow s"
      by (simp add: ReadTagFallback_def)
    moreover have "leaves s s []" using leaves_refl [OF assms] e by simp
    ultimately show ?thesis using ReadTagSlow_end [OF assms e] by metis
  qed
  have slow: "\<exists>s1. ReadTagFallback s = do { (result, s) \<leftarrow> ReadVarint64 s1; Some (case result of None \<Rightarrow> 0 | Some v \<Rightarrow> ucast v, s) } \<and>
      leaves s s1 (bytes_left s)"
    if "fast_varint s = Some False" "bytes_left s \<noteq> []"
  proof (cases "BufferSize s = 0")
    case False
    then show ?thesis using that(1) buffer_empty [OF assms] leaves_refl [OF assms]
      by (intro exI [of _ s]) (simp add: ReadTagFallback_def ReadTagSlow_def)
  next
    case True
    show ?thesis
    proof (rule Refresh_ok [OF assms True])
      fix s' assume l: "Refresh s = Some (True, s')" "leaves s s' (bytes_left s)"
      have "\<not> (0 < i_buffer_size_after_limit s \<or> i_total_bytes_read s = i_current_limit s)"
        using l(1) by (auto simp: Refresh_def True)
      then show ?thesis using that(1) l buffer_empty [OF assms] True
        by (intro exI [of _ s']) (simp add: ReadTagFallback_def ReadTagSlow_def)
    qed (use that(2) in auto)
  qed
  show "\<exists>s'. ReadTagFallback s = Some (of_nat v, s') \<and> leaves s s' r" if v: "varint_take 10 (bytes_left s) = Some (v, r)"
  proof (cases "fast_varint s = Some True")
    case True
    then show ?thesis using fast32_ok(1) [OF assms True v] by (auto simp: ReadTagFallback_def Advance_def)
  next
    case False
    have "bytes_left s \<noteq> []" using v by auto
    then obtain s1 where s1: "ReadTagFallback s = do { (result, s) \<leftarrow> ReadVarint64 s1; Some (case result of None \<Rightarrow> 0 | Some v \<Rightarrow> ucast v, s) }"
      "leaves s s1 (bytes_left s)" using slow fv False by blast
    then show ?thesis using ReadVarint64_ok(1) [of s1 v r] leavesD [OF s1(2)] v leaves_trans [OF s1(2)]
      by (auto simp: ucast_of_nat_32)
  qed
  show "\<exists>k s'. ReadTagFallback s = Some (0, s') \<and> leaves s s' (drop k (bytes_left s))" if v: "bytes_left s \<noteq> []" "varint_take 10 (bytes_left s) = None"
  proof (cases "fast_varint s = Some True")
    case True
    then show ?thesis using fast32_ok(2) [OF assms True v(2)] leaves_refl [OF assms]
      by (intro exI [of _ 0] exI [of _ s]) (simp add: ReadTagFallback_def)
  next
    case False
    then obtain s1 where s1: "ReadTagFallback s = do { (result, s) \<leftarrow> ReadVarint64 s1; Some (case result of None \<Rightarrow> 0 | Some v \<Rightarrow> ucast v, s) }"
      "leaves s s1 (bytes_left s)" using slow fv v(1) by blast
    then obtain k s2 where "ReadVarint64 s1 = Some (None, s2)" "leaves s1 s2 (drop k (bytes_left s))"
      using ReadVarint64_ok(2) [of s1] leavesD [OF s1(2)] v(2) by auto
    then show ?thesis using s1 leaves_trans [OF s1(2)] by auto
  qed
qed

text \<open>What \<open>ReadTag\<close> does: 0 and a legitimate end at the end, else the varint modulo \<open>2^32\<close>.\<close>

definition after_tag :: "CodedInputStream \<Rightarrow> u32 \<Rightarrow> CodedInputStream \<Rightarrow> u8 list \<Rightarrow> bool" where
  "after_tag s t s' r \<longleftrightarrow> stream_ok s' \<and> moved s s' \<and> bytes_left s' = r \<and> i_last_tag s' = t \<and> i_recursion_depth s' = i_recursion_depth s"

lemma after_tagI: "leaves s s' r \<Longrightarrow> after_tag s t (s'\<lparr>i_last_tag := t\<rparr>) r \<and>
    i_legitimate_message_end (s'\<lparr>i_last_tag := t\<rparr>) = i_legitimate_message_end s"
  by (simp add: leaves_def after_tag_def)

lemma ReadTag_ok:
  assumes "stream_ok s"
  shows "bytes_left s = [] \<Longrightarrow>
      \<exists>s'. ReadTag s = Some (0, s') \<and> after_tag s 0 s' [] \<and> (below_limit s \<longrightarrow> i_legitimate_message_end s')"
    and "varint_take 10 (bytes_left s) = Some (v, r) \<Longrightarrow>
      \<exists>s'. ReadTag s = Some (of_nat v, s') \<and> after_tag s (of_nat v) s' r \<and> i_legitimate_message_end s' = i_legitimate_message_end s"
    and "bytes_left s \<noteq> [] \<Longrightarrow> varint_take 10 (bytes_left s) = None \<Longrightarrow>
      \<exists>k s'. ReadTag s = Some (0, s') \<and> after_tag s 0 s' (drop k (bytes_left s)) \<and> i_legitimate_message_end s' = i_legitimate_message_end s"
proof -
  have other: "ReadTag s = do { (tag, s) \<leftarrow> ReadTagFallback s; Some (tag, s\<lparr>i_last_tag := tag\<rparr>) }" if "small_byte s = Some None"
    using that by (simp add: ReadTag_def)
  show "\<exists>s'. ReadTag s = Some (0, s') \<and> after_tag s 0 s' [] \<and> (below_limit s \<longrightarrow> i_legitimate_message_end s')" if e: "bytes_left s = []"
  proof -
    have "small_byte s = Some None" using small_byte_ok [OF assms] e by (simp add: buffered_def)
    moreover obtain b s' where s': "ReadTagFallback s = Some (0, s'\<lparr>i_legitimate_message_end := b\<rparr>)" "leaves s s' []" "below_limit s \<longrightarrow> b"
      using ReadTagFallback_ok(1) [OF assms e] by blast
    moreover have "after_tag s 0 (s'\<lparr>i_legitimate_message_end := b, i_last_tag := 0\<rparr>) []" using s'(2) by (simp add: leaves_def after_tag_def)
    ultimately show ?thesis using other by auto
  qed
  show "\<exists>s'. ReadTag s = Some (of_nat v, s') \<and> after_tag s (of_nat v) s' r \<and> i_legitimate_message_end s' = i_legitimate_message_end s"
    if v: "varint_take 10 (bytes_left s) = Some (v, r)"
  proof (rule small_byte_cases [OF assms])
    fix b bs assume b: "small_byte s = Some (Some b)" "bytes_left s = b # bs" "b < 128" "leaves s (Advance 1 s) bs"
    then have vr: "v = unat b" "r = bs" using v small_varint [of b bs] by simp_all
    have "ReadTag s = Some (of_nat v, (Advance 1 s)\<lparr>i_last_tag := of_nat v\<rparr>)" using b(1) vr(1) by (simp add: ReadTag_def) (simp add: Advance_def)
    then show ?thesis using after_tagI [OF b(4), of "of_nat v"] vr(2) by blast
  next
    assume "small_byte s = Some None"
    then show ?thesis using ReadTagFallback_ok(2) [OF assms v] other after_tagI by fastforce
  qed
  show "\<exists>k s'. ReadTag s = Some (0, s') \<and> after_tag s 0 s' (drop k (bytes_left s)) \<and> i_legitimate_message_end s' = i_legitimate_message_end s"
    if v: "bytes_left s \<noteq> []" "varint_take 10 (bytes_left s) = None"
  proof (rule small_byte_cases [OF assms])
    fix b bs assume "bytes_left s = b # bs" "b < 128"
    then show ?thesis using v(2) small_varint by simp
  next
    assume "small_byte s = Some None"
    then show ?thesis using ReadTagFallback_ok(3) [OF assms v] other after_tagI by fastforce
  qed
qed

subsection \<open>Bytes and strings\<close>

text \<open>The loop of \<open>ReadString\<close>, and of \<open>ReadRaw\<close>, takes what the buffer has and fills it again.\<close>

definition reading_rank :: "CodedInputStream \<Rightarrow> nat" where
  "reading_rank s = 2 * length (bytes_left s) + of_bool (BufferSize s = 0)"

lemma take_buffer:
  assumes "stream_ok s" and "BufferSize s < int n"
  defines "k \<equiv> nat (BufferSize s)"
  shows "mem_bytes (i_mem s) (i_buffer s) (BufferSize s) = Some (take k (bytes_left s))"
    and "leaves s (Advance (BufferSize s) s) (drop k (bytes_left s))" and "k \<le> length (bytes_left s)" and "k < n"
    and "length (bytes_left s) = k \<Longrightarrow>
      \<exists>b s'. Refresh (Advance (BufferSize s) s) = Some (b, s') \<and> leaves s s' [] \<and> (b \<longrightarrow> BufferSize s' = 0 \<and> Refresh s' = Some (False, s'))"
    and "k < length (bytes_left s) \<Longrightarrow>
      \<exists>s'. Refresh (Advance (BufferSize s) s) = Some (True, s') \<and> leaves s s' (drop k (bytes_left s)) \<and> reading_rank s' < reading_rank s"
proof -
  have k: "int k = BufferSize s" using BufferSize_nonneg [OF assms(1)] by (simp add: k_def)
  show "mem_bytes (i_mem s) (i_buffer s) (BufferSize s) = Some (take k (bytes_left s))"
    using buffer_bytes [OF assms(1), of k] k by simp
  show adv: "leaves s (Advance (BufferSize s) s) (drop k (bytes_left s))" using Advance_ok [OF assms(1), of k] k by simp
  show kl: "k \<le> length (bytes_left s)" using buffer_prefix [OF assms(1)] unfolding k_def by blast
  show "k < n" using k assms(2) by simp
  let ?s = "Advance (BufferSize s) s"
  have ok: "stream_ok ?s" "bytes_left ?s = drop k (bytes_left s)" "BufferSize ?s = 0" using leavesD [OF adv] by simp_all
  note R = Refresh_ok [OF ok(1,3)]
  show "\<exists>b s'. Refresh ?s = Some (b, s') \<and> leaves s s' [] \<and> (b \<longrightarrow> BufferSize s' = 0 \<and> Refresh s' = Some (False, s'))"
    if "length (bytes_left s) = k"
    by (rule R) (use that ok(2) leaves_trans [OF adv] in auto)
  show "\<exists>s'. Refresh ?s = Some (True, s') \<and> leaves s s' (drop k (bytes_left s)) \<and> reading_rank s' < reading_rank s"
    if l: "k < length (bytes_left s)"
  proof (rule R)
    fix s' assume r: "Refresh ?s = Some (True, s')" "leaves ?s s' (bytes_left ?s)" "0 < BufferSize s'"
    have "leaves s s' (drop k (bytes_left s))" using leaves_trans [OF adv r(2)] ok(2) by simp
    moreover have "reading_rank s' < reading_rank s"
      using leavesD [OF r(2)] ok(2) r(3) l k by (cases "k = 0") (auto simp: reading_rank_def)
    ultimately show ?thesis using r(1) by blast
  qed (use l ok(2) in auto)
qed

lemma ReadRaw_ok:
  assumes "stream_ok s"
  shows "(n \<le> length (bytes_left s) \<longrightarrow> (\<exists>s'. ReadRaw (int n) s = Some (Some (take n (bytes_left s)), s') \<and> leaves s s' (drop n (bytes_left s)))) \<and>
    (length (bytes_left s) < n \<longrightarrow> (\<exists>s'. ReadRaw (int n) s = Some (None, s') \<and> leaves s s' []))"
  using assms
proof (induction "reading_rank s" arbitrary: s n rule: less_induct)
  case less
  let ?bs = "bytes_left s"
  show ?case
  proof (cases "BufferSize s < int n")
    case False
    then have "int n \<le> BufferSize s" by simp
    note b = buffer_bytes [OF less.prems this] Advance_ok [OF less.prems this]
    have "n \<le> length ?bs" using buffer_prefix [OF less.prems] \<open>int n \<le> BufferSize s\<close> by linarith
    then show ?thesis using False b by (subst (1 2) ReadRaw.simps) auto
  next
    case True
    define k where "k = nat (BufferSize s)"
    note t = take_buffer [OF less.prems True, folded k_def]
    have step: "ReadRaw (int n) s = do {
        (ok, s') \<leftarrow> Refresh (Advance (BufferSize s) s);
        if \<not> ok then Some (None, s')
        else do { (rest, s') \<leftarrow> ReadRaw (int (n - k)) s'; Some (map_option (\<lambda>r. take k ?bs @ r) rest, s') } }"
    proof -
      have "int n - BufferSize s = int (n - k)" using t(4) BufferSize_nonneg [OF less.prems] by (simp add: k_def of_nat_diff)
      then show ?thesis using True t(1) by (subst ReadRaw.simps) (simp cong: if_cong)
    qed
    show ?thesis
    proof (cases "length ?bs = k")
      case full: True
      obtain b s' where r: "Refresh (Advance (BufferSize s) s) = Some (b, s')" "leaves s s' []"
        "b \<longrightarrow> BufferSize s' = 0 \<and> Refresh s' = Some (False, s')" using t(5) [OF full] by blast
      have "ReadRaw (int (n - k)) s' = Some (None, s')" if b using r(3) that t(4) by (subst ReadRaw.simps) (simp add: mem_bytes_def)
      then show ?thesis using step r full t(4) by (cases b) auto
    next
      case False
      then obtain s' where r: "Refresh (Advance (BufferSize s) s) = Some (True, s')" "leaves s s' (drop k ?bs)" "reading_rank s' < reading_rank s"
        using t(3,6) by force
      have ok: "stream_ok s'" "bytes_left s' = drop k ?bs" using leavesD [OF r(2)] by simp_all
      have tk: "take k ?bs @ take (n - k) (drop k ?bs) = take n ?bs" using t(4) by (metis le_add_diff_inverse less_imp_le take_add)
      show ?thesis using less.hyps [OF r(3) ok(1), of "n - k"] step r(1) leaves_trans [OF r(2)] tk t(3,4) unfolding ok(2)
        by (auto simp: drop_drop)
    qed
  qed
qed

lemma ReadString_append_ok:
  assumes "stream_ok s"
  shows "(n \<le> length (bytes_left s) \<longrightarrow> (\<exists>s'. ReadString_append str (int n) s = Some (True, str @ take n (bytes_left s), s') \<and> leaves s s' (drop n (bytes_left s)))) \<and>
    (length (bytes_left s) < n \<longrightarrow> (\<exists>s'. ReadString_append str (int n) s = Some (False, str @ bytes_left s, s') \<and> leaves s s' []))"
  using assms
proof (induction "reading_rank s" arbitrary: s n str rule: less_induct)
  case less
  let ?bs = "bytes_left s"
  show ?case
  proof (cases "BufferSize s < int n")
    case False
    then have "int n \<le> BufferSize s" by simp
    note b = buffer_bytes [OF less.prems this] Advance_ok [OF less.prems this]
    have "n \<le> length ?bs" using buffer_prefix [OF less.prems] \<open>int n \<le> BufferSize s\<close> by linarith
    then show ?thesis using False b by (subst (1 2) ReadString_append.simps) auto
  next
    case True
    define k where "k = nat (BufferSize s)"
    note t = take_buffer [OF less.prems True, folded k_def]
    have step: "ReadString_append str (int n) s = do {
        (ok, s') \<leftarrow> Refresh (Advance (BufferSize s) s);
        if \<not> ok then Some (False, str @ take k ?bs, s') else ReadString_append (str @ take k ?bs) (int (n - k)) s' }"
    proof -
      have "int n - BufferSize s = int (n - k)" using t(4) BufferSize_nonneg [OF less.prems] by (simp add: k_def of_nat_diff)
      moreover have "(if BufferSize s \<noteq> 0 then mem_bytes (i_mem s) (i_buffer s) (BufferSize s) else Some []) = Some (take k ?bs)"
        using t(1) by (auto simp: k_def)
      ultimately show ?thesis using True by (subst ReadString_append.simps) (simp cong: if_cong)
    qed
    show ?thesis
    proof (cases "length ?bs = k")
      case full: True
      obtain b s' where r: "Refresh (Advance (BufferSize s) s) = Some (b, s')" "leaves s s' []"
        "b \<longrightarrow> BufferSize s' = 0 \<and> Refresh s' = Some (False, s')" using t(5) [OF full] by blast
      have "ReadString_append (str @ ?bs) (int (n - k)) s' = Some (False, str @ ?bs, s')" if b
        using r(3) that t(4) by (subst ReadString_append.simps) simp
      then show ?thesis using step r full t(4) by (cases b) auto
    next
      case False
      then obtain s' where r: "Refresh (Advance (BufferSize s) s) = Some (True, s')" "leaves s s' (drop k ?bs)" "reading_rank s' < reading_rank s"
        using t(3,6) by force
      have ok: "stream_ok s'" "bytes_left s' = drop k ?bs" using leavesD [OF r(2)] by simp_all
      have tk: "take k ?bs @ take (n - k) (drop k ?bs) = take n ?bs" using t(4) by (metis le_add_diff_inverse less_imp_le take_add)
      show ?thesis using less.hyps [OF r(3) ok(1), of "n - k" "str @ take k ?bs"] step r(1) leaves_trans [OF r(2)] tk t(3,4) unfolding ok(2)
        by (auto simp: drop_drop)
    qed
  qed
qed

lemma CIS_ReadString_ok:
  assumes "stream_ok s"
  shows "n \<le> length (bytes_left s) \<Longrightarrow> \<exists>s'. CIS_ReadString str (int n) s = Some (True, take n (bytes_left s), s') \<and> leaves s s' (drop n (bytes_left s))"
    and "length (bytes_left s) < n \<Longrightarrow> \<exists>s'. CIS_ReadString str (int n) s = Some (False, bytes_left s, s') \<and> leaves s s' []"
    and "k < 0 \<Longrightarrow> CIS_ReadString str k s = Some (False, str, s)"
proof -
  note loop = ReadString_append_ok [OF assms, of n "[]"]
  have slow: "CIS_ReadString str (int n) s = ReadString_append [] (int n) s" if "BufferSize s < int n"
    using that by (simp add: CIS_ReadString_def InternalReadStringInline_def ReadStringFallback_def)
  have fast: "CIS_ReadString str (int n) s = Some (True, take n (bytes_left s), Advance (int n) s)" if "int n \<le> BufferSize s"
    using that buffer_bytes [OF assms that] by (auto simp: CIS_ReadString_def InternalReadStringInline_def)
  show "\<exists>s'. CIS_ReadString str (int n) s = Some (True, take n (bytes_left s), s') \<and> leaves s s' (drop n (bytes_left s))"
    if "n \<le> length (bytes_left s)"
    using that slow fast loop Advance_ok [OF assms, of n] by (cases "BufferSize s < int n") auto
  show "\<exists>s'. CIS_ReadString str (int n) s = Some (False, bytes_left s, s') \<and> leaves s s' []" if "length (bytes_left s) < n"
  proof -
    have "nat (BufferSize s) \<le> length (bytes_left s)" using buffer_prefix [OF assms] by blast
    then show ?thesis using that slow loop by auto
  qed
qed (simp add: CIS_ReadString_def)

lemma ReadLittleEndian32_ok:
  assumes "stream_ok s"
  shows "4 \<le> length (bytes_left s) \<Longrightarrow> \<exists>s'. ReadLittleEndian32 s = Some (Some (le32 (take 4 (bytes_left s))), s') \<and> leaves s s' (drop 4 (bytes_left s))"
    and "length (bytes_left s) < 4 \<Longrightarrow> \<exists>s'. ReadLittleEndian32 s = Some (None, s') \<and> leaves s s' []"
  using buffer_bytes [OF assms, of 4] Advance_ok [OF assms, of 4] ReadRaw_ok [OF assms, of 4] buffer_prefix [OF assms]
  by (auto simp: ReadLittleEndian32_def ReadLittleEndian32Fallback_def)

lemma ReadLittleEndian64_ok:
  assumes "stream_ok s"
  shows "8 \<le> length (bytes_left s) \<Longrightarrow> \<exists>s'. ReadLittleEndian64 s = Some (Some (le64 (take 8 (bytes_left s))), s') \<and> leaves s s' (drop 8 (bytes_left s))"
    and "length (bytes_left s) < 8 \<Longrightarrow> \<exists>s'. ReadLittleEndian64 s = Some (None, s') \<and> leaves s s' []"
  using buffer_bytes [OF assms, of 8] Advance_ok [OF assms, of 8] ReadRaw_ok [OF assms, of 8] buffer_prefix [OF assms]
  by (auto simp: ReadLittleEndian64_def ReadLittleEndian64Fallback_def)

subsection \<open>Expected tags and ends\<close>

lemma varint_two: "128 \<le> x \<Longrightarrow> x < 16384 \<Longrightarrow> varint_bytes x = [of_nat (x mod 128 + 128), of_nat (x div 128)]"
  using varint_bytes.simps [of x] varint_bytes.simps [of "x div 128"] by (simp add: less_mult_imp_div_less)

text \<open>A tag is expected in the buffer only: if it is cut by the end of the buffer, or behind it, the answer is \<open>false\<close>.\<close>

lemma ExpectTag_buffered:
  assumes "stream_ok s" and "unat t < 16384"
  defines "v \<equiv> varint_bytes (unat t)"
  shows "ExpectTag t s = Some (if take (length v) (buffered s) = v then (True, Advance (int (length v)) s) else (False, s))"
proof -
  have byte: "peek8 (i_mem s) (i_buffer s + int i) = Some (buffered s ! i)" if "i < length (buffered s)" for i
  proof -
    have "int i < BufferSize s" using that buffered_ok(1) [OF assms(1)] by simp
    from stream_ok_byte(1) [OF assms(1) this] show ?thesis using that by (simp add: buffered_def)
  qed
  have len: "(i_buffer s < i_buffer_end s) = (buffered s \<noteq> [])" "(2 \<le> BufferSize s) = (2 \<le> length (buffered s))"
    using buffered_ok(1) [OF assms(1)] buffer_nonempty [OF assms(1)] by (auto simp flip: of_nat_0_less_iff length_greater_0_conv)
  show ?thesis
  proof (cases "unat t < 128")
    case True
    then have v: "v = [ucast t]" by (simp add: v_def varint_bytes.simps)
    have eq: "((ucast b :: u32) = t) = (b = ucast t)" for b :: u8
    proof -
      have "unat (ucast t :: u8) = unat t" using True by (simp add: unsigned_ucast_eq take_bit_nat_eq_self)
      moreover have "unat (ucast b :: u32) = unat b" using unsigned_less [of b, where 'a = nat] by (simp add: unsigned_ucast_eq take_bit_nat_eq_self)
      ultimately show ?thesis by (simp only: word_unat_eq_iff)
    qed
    show ?thesis
      unfolding ExpectTag_def word32_cmp v len using True byte [of 0] eq by (cases "buffered s") auto
  next
    case False
    have "(of_nat (unat (shr32 t 7)) :: u8) = ucast (shr32 t 7)" by (rule of_nat_unat)
    moreover have "unat (shr32 t 7) = unat t div 128" using unat_shr32 [of 7 t] by simp
    ultimately have b1: "(ucast (shr32 t 7) :: u8) = of_nat (unat t div 128)" by (simp only:)
    have v: "v = [of_nat (unat t mod 128 + 128), of_nat (unat t div 128)]" unfolding v_def using varint_two False assms(2) by simp
    show ?thesis
    proof (cases "2 \<le> length (buffered s)")
      case True
      then obtain x y r where bs: "buffered s = x # y # r" by (metis Suc_le_length_iff numeral_2_eq_2)
      then have "peek8 (i_mem s) (i_buffer s) = Some x" "peek8 (i_mem s) (i_buffer s + 1) = Some y"
        using byte [of 0] byte [of 1] by simp_all
      then show ?thesis
        unfolding ExpectTag_def word32_cmp len group_hi b1 v using True False assms(2) bs by simp
    next
      case no: False
      then show ?thesis unfolding ExpectTag_def word32_cmp len group_hi b1 v using False assms(2) by (auto dest: arg_cong [where f = length])
    qed
  qed
qed

lemma ExpectTag_ok:
  assumes "stream_ok s" and "unat t < 16384"
  shows "ExpectTag t s = Some (False, s) \<or>
    (\<exists>s'. ExpectTag t s = Some (True, s') \<and> leaves s s' (bytes_left s') \<and> bytes_left s = varint_bytes (unat t) @ bytes_left s')"
proof -
  let ?v = "varint_bytes (unat t)"
  show ?thesis
  proof (cases "take (length ?v) (buffered s) = ?v")
    case True
    then have "length ?v \<le> length (buffered s)" by (metis length_take min.cobounded1)
    then have "int (length ?v) \<le> BufferSize s" using buffered_ok(1) [OF assms(1)] by linarith
    note adv = Advance_ok [OF assms(1) this]
    have bl: "bytes_left (Advance (int (length ?v)) s) = drop (length ?v) (bytes_left s)" using leavesD [OF adv] by simp
    obtain rest where "bytes_left s = buffered s @ rest" using buffered_ok(3) [OF assms(1)] by blast
    then have "take (length ?v) (bytes_left s) = ?v" using True \<open>length ?v \<le> length (buffered s)\<close> by simp
    then have "bytes_left s = ?v @ drop (length ?v) (bytes_left s)" by (metis append_take_drop_id)
    then show ?thesis using ExpectTag_buffered [OF assms] True adv bl by auto
  qed (use ExpectTag_buffered [OF assms] in simp)
qed

lemma ExpectAtEnd_ok:
  assumes "stream_ok s"
  shows "ExpectAtEnd s = (False, s) \<or>
    ExpectAtEnd s = (True, s\<lparr>i_last_tag := 0, i_legitimate_message_end := True\<rparr>) \<and> bytes_left s = []"
proof (cases "fst (ExpectAtEnd s)")
  case True
  then have at: "i_buffer s = i_buffer_end s" "i_buffer_size_after_limit s \<noteq> 0 \<or> i_total_bytes_read s = i_current_limit s"
    by (auto simp: ExpectAtEnd_def split: if_splits)
  have z: "BufferSize s = 0" using at(1) by (simp add: BufferSize_def)
  have "0 < i_buffer_size_after_limit s \<or> i_total_bytes_read s = i_current_limit s"
    using at(2) after_limit_nonneg [OF assms] by auto
  then have R: "Refresh s = Some (False, s)" using z by (auto simp: Refresh_def)
  have "bytes_left s = []" by (rule Refresh_ok [OF assms z]) (simp_all add: R)
  then show ?thesis using at by (simp add: ExpectAtEnd_def)
qed (auto simp: ExpectAtEnd_def)

subsection \<open>Limits and skips\<close>

definition limit_bound :: "CodedInputStream \<Rightarrow> int" where
  "limit_bound s = (case i_input s of None \<Rightarrow> i_total_bytes_read s | Some a \<Rightarrow> INT_MAX)"

lemma stream_ok_position:
  assumes "stream_ok s"
  shows "0 \<le> CurrentPosition s" "CurrentPosition s \<le> i_current_limit s" "CurrentPosition s \<le> i_total_bytes_limit s"
    "i_current_limit s \<le> limit_bound s" "CurrentPosition s \<le> limit_bound s" "CurrentPosition s \<le> INT_MAX"
proof -
  show "0 \<le> CurrentPosition s" using assms by (simp add: stream_ok_def flat_ok_def blocks_ok_def split: option.splits)
  have l: "CurrentPosition s \<le> min (i_current_limit s) (i_total_bytes_limit s)"
  proof (cases "i_input s")
    case None
    then have "i_buffer_size_after_limit s = i_total_bytes_read s - min (i_current_limit s) (i_total_bytes_limit s)"
      using assms by (simp add: stream_ok_def flat_ok_def)
    then show ?thesis using BufferSize_nonneg [OF assms] unfolding CurrentPosition_def by linarith
  next
    case (Some a)
    then show ?thesis using assms by (simp add: stream_ok_def blocks_ok_def)
  qed
  then show "CurrentPosition s \<le> i_current_limit s" "CurrentPosition s \<le> i_total_bytes_limit s" by simp_all
  moreover show "i_current_limit s \<le> limit_bound s"
    using assms by (simp add: limit_bound_def stream_ok_def flat_ok_def blocks_ok_def split: option.splits)
  moreover have "limit_bound s \<le> INT_MAX"
    using assms by (simp add: limit_bound_def stream_ok_def flat_ok_def split: option.splits)
  ultimately show "CurrentPosition s \<le> limit_bound s" "CurrentPosition s \<le> INT_MAX" by linarith+
qed

lemma RecomputeBufferLimits_ok:
  assumes "stream_ok s" and "CurrentPosition s \<le> l" and "l \<le> limit_bound s" and "CurrentPosition s \<le> tlim"
  shows "stream_ok (RecomputeBufferLimits (s\<lparr>i_current_limit := l, i_total_bytes_limit := tlim\<rparr>))"
proof -
  define u where "u = s\<lparr>i_current_limit := l, i_total_bytes_limit := tlim\<rparr>"
  let ?s = "RecomputeBufferLimits u"
  have u: "i_input u = i_input s" "i_mem u = i_mem s" "i_buffer u = i_buffer s" "i_overflow_bytes u = i_overflow_bytes s"
    "i_total_bytes_read u = i_total_bytes_read s" "i_current_limit u = l" "i_total_bytes_limit u = tlim"
    "i_buffer_size_after_limit u = i_buffer_size_after_limit s" "BufferSize u = BufferSize s" "CurrentPosition u = CurrentPosition s"
    by (simp_all add: u_def BufferSize_def CurrentPosition_def)
  have sum: "BufferSize ?s + i_buffer_size_after_limit ?s = BufferSize s + i_buffer_size_after_limit s" unfolding limits_buffer(1) u ..
  have after: "i_buffer_size_after_limit ?s = max 0 (i_total_bytes_read s - min l tlim)" unfolding limits_buffer(2) u ..
  have cp: "CurrentPosition ?s = CurrentPosition s" unfolding limits_buffer(3) u ..
  have nn: "0 \<le> BufferSize s" "0 \<le> i_buffer_size_after_limit s" by (rule BufferSize_nonneg [OF assms(1)], rule after_limit_nonneg [OF assms(1)])
  have b: "0 \<le> BufferSize ?s" using sum after assms(2,4) nn unfolding CurrentPosition_def by linarith
  have e: "i_buffer_end ?s = i_buffer s + BufferSize ?s" by (simp add: BufferSize_def u)
  have "stream_ok ?s"
  proof (cases "i_input s")
    case None
    then have f: "flat_ok s" and t: "l \<le> i_total_bytes_read s" using assms(1,3) by (simp_all add: stream_ok_def limit_bound_def)
    have "i_buffer_end s = i_buffer s + BufferSize s" by (simp add: BufferSize_def)
    then have "flat_ok ?s" using f t b sum after cp e unfolding flat_ok_def by (simp add: u)
    then show ?thesis using None by (simp add: stream_ok_def u)
  next
    case (Some a)
    then have bk: "blocks_ok a s" and l: "l \<le> INT_MAX" using assms(1,3) by (simp_all add: stream_ok_def limit_bound_def)
    define k where "k = BufferSize s + i_buffer_size_after_limit s"
    have "array_input_ok (i_mem s) a \<and> 0 \<le> i_buffer s \<and> i_overflow_bytes s = 0 \<and> 0 \<le> CurrentPosition s \<and>
      (ai_position a = i_total_bytes_read s \<or> ai_position a = ai_size a \<and> ai_size a \<le> i_total_bytes_read s \<and> k = 0) \<and>
      (k = 0 \<or> i_buffer s = ai_data a + CurrentPosition s \<and> k \<le> ai_last_returned_size a)"
      using bk unfolding blocks_ok_def k_def by blast
    then have "blocks_ok a ?s"
      unfolding blocks_ok_def sum cp limits_fields u k_def [symmetric] using assms(2,4) b after e l by simp
    then show ?thesis using Some by (simp add: stream_ok_def u)
  qed
  then show ?thesis by (simp add: u_def)
qed

lemma PushLimit_ok: "stream_ok s \<Longrightarrow> stream_ok (snd (PushLimit n s))"
proof -
  assume ok: "stream_ok s"
  let ?l = "min (if 0 \<le> n \<and> n \<le> INT_MAX - CurrentPosition s then CurrentPosition s + n else INT_MAX) (i_current_limit s)"
  have "CurrentPosition s \<le> ?l" "?l \<le> limit_bound s" "CurrentPosition s \<le> i_total_bytes_limit s"
    using stream_ok_position [OF ok] by auto
  from RecomputeBufferLimits_ok [OF ok this] show ?thesis by (simp add: PushLimit_def Let_def)
qed

lemma PopLimit_ok: "stream_ok s \<Longrightarrow> CurrentPosition s \<le> l \<Longrightarrow> l \<le> limit_bound s \<Longrightarrow> stream_ok (PopLimit l s)"
  using RecomputeBufferLimits_ok [of s l "i_total_bytes_limit s"] stream_ok_position(3) [of s] by (simp add: PopLimit_def)

lemma SetTotalBytesLimit_ok: "stream_ok s \<Longrightarrow> stream_ok (SetTotalBytesLimit n s)"
  using RecomputeBufferLimits_ok [of s "i_current_limit s" "max (CurrentPosition s) n"] stream_ok_position [of s]
  by (simp add: SetTotalBytesLimit_def)

lemma Skip_ok: "stream_ok s \<Longrightarrow> \<exists>b s'. Skip n s = Some (b, s') \<and> stream_ok s'"
proof -
  assume ok: "stream_ok s"
  note nn = BufferSize_nonneg [OF ok] after_limit_nonneg [OF ok]
  consider "n < 0" | "0 \<le> n" "n \<le> BufferSize s" | "BufferSize s < n" "0 < i_buffer_size_after_limit s"
    | "BufferSize s < n" "i_buffer_size_after_limit s = 0"
    using nn by linarith
  then show ?thesis
  proof cases
    case 1
    then show ?thesis using ok by (auto simp: Skip_def)
  next
    case 2
    then show ?thesis using leavesD [OF Advance_ok [OF ok, of "nat n"]] by (auto simp: Skip_def)
  next
    case 3
    then show ?thesis using nn leavesD [OF Advance_ok [OF ok, of "nat (BufferSize s)"]] by (auto simp: Skip_def)
  next
    case 4
    define l where "l = min (i_current_limit s) (i_total_bytes_limit s)"
    define t where "t = i_total_bytes_read s"
    define s1 where "s1 = s\<lparr>i_buffer := 0, i_buffer_end := 0\<rparr>"
    have pos: "CurrentPosition s \<le> l" using stream_ok_position(2,3) [OF ok] by (simp add: l_def)
    have tl: "t \<le> l \<and> (i_input s = None \<longrightarrow> t = l)" 
      using ok 4(2) by (cases "i_input s") (auto simp: stream_ok_def flat_ok_def blocks_ok_def l_def t_def max_def split: if_splits)
    have t0: "0 \<le> t" using stream_ok_position(1) [OF ok] nn by (simp add: CurrentPosition_def t_def)
    have S: "Skip n s = (if l - t < n - BufferSize s then
         (if 0 < l - t then do { input \<leftarrow> i_input s; (b, input) \<leftarrow> AIS_Skip (l - t) input; Some (False, s1\<lparr>i_total_bytes_read := l, i_input := Some input\<rparr>) }
          else Some (False, s1))
       else do { input \<leftarrow> i_input s; (b, input) \<leftarrow> AIS_Skip (n - BufferSize s) input;
                 Some (b, s1\<lparr>i_total_bytes_read := t + (n - BufferSize s), i_input := Some input\<rparr>) })"
      using 4 nn by (simp add: Skip_def Let_def s1_def l_def t_def)
    show ?thesis
    proof (cases "i_input s")
      case None
      then have "flat_ok s" and te: "t = l" using ok tl by (simp_all add: stream_ok_def)
      then have "i_overflow_bytes s = 0" "i_current_limit s \<le> t" "t \<le> INT_MAX" by (simp_all add: flat_ok_def t_def)
      then have "flat_ok s1" using 4(2) t0 te by (simp add: flat_ok_def s1_def CurrentPosition_def BufferSize_def t_def l_def)
      then have "stream_ok s1" using None by (simp add: stream_ok_def s1_def)
      moreover have "l - t < n - BufferSize s" "\<not> 0 < l - t" using tl None 4(1) by auto
      ultimately show ?thesis unfolding S by auto
    next
      case (Some a)
      then have bk: "blocks_ok a s" using ok by (simp add: stream_ok_def)
      then have arr: "array_input_ok (i_mem s) a" by (simp add: blocks_ok_def)
      have at: "ai_position a = t \<or> ai_position a = ai_size a \<and> ai_size a \<le> t" using bk by (auto simp: blocks_ok_def t_def)
      have le: "ai_position a \<le> ai_size a" using arr by (simp add: array_input_ok_def)
      have ok1: "stream_ok s1" using bk 4(2) t0 tl at Some
        by (simp add: stream_ok_def blocks_ok_def s1_def CurrentPosition_def BufferSize_def l_def t_def)
      have go: "\<exists>b a'. AIS_Skip k a = Some (b, a') \<and> stream_ok (s1\<lparr>i_total_bytes_read := t + k, i_input := Some a'\<rparr>)"
        if k: "0 \<le> k" "t + k \<le> l" for k
      proof -
        obtain a' where a': "AIS_Skip k a = Some (ai_position a + k \<le> ai_size a, a')" "array_input_ok (i_mem s) a'" "same_array a a'"
          "ai_position a' = min (ai_size a) (ai_position a + k)" using AIS_Skip_ok [OF arr k(1)] by blast
        have "ai_position a' = t + k \<or> ai_position a' = ai_size a' \<and> ai_size a' \<le> t + k"
          using at a'(3,4) k(1) le unfolding same_array_def by linarith
        then have "blocks_ok a' (s1\<lparr>i_total_bytes_read := t + k, i_input := Some a'\<rparr>)"
          using bk 4(2) t0 k a'(2) by (simp add: blocks_ok_def s1_def CurrentPosition_def BufferSize_def l_def)
        then show ?thesis using a'(1) by (auto simp: stream_ok_def)
      qed
      show ?thesis
      proof (cases "l - t < n - BufferSize s \<and> 0 < l - t")
        case True
        then obtain b a' where "AIS_Skip (l - t) a = Some (b, a')" "stream_ok (s1\<lparr>i_total_bytes_read := l, i_input := Some a'\<rparr>)"
          using go [of "l - t"] by auto
        then have "Skip n s = Some (False, s1\<lparr>i_total_bytes_read := l, i_input := Some a'\<rparr>)" unfolding S Some using True by simp
        then show ?thesis using \<open>stream_ok (s1\<lparr>i_total_bytes_read := l, i_input := Some a'\<rparr>)\<close> by blast
      next
        case False
        show ?thesis
        proof (cases "l - t < n - BufferSize s")
          case True
          then have "Skip n s = Some (False, s1)" unfolding S using False by simp
          then show ?thesis using ok1 by blast
        next
          case no: False
          then show ?thesis unfolding S Some using go [of "n - BufferSize s"] 4(1) by auto
        qed
      qed
    qed
  qed
qed

subsection \<open>Constructors and the destructor\<close>

lemma CodedInputStream_ctor_ok:
  assumes "0 \<le> off" and "0 \<le> n" and "off + n \<le> int (length mem)" and "n < kDefaultTotalBytesLimit"
  shows "stream_ok (CodedInputStream_ctor mem off n)" "below_limit (CodedInputStream_ctor mem off n)"
    "bytes_left (CodedInputStream_ctor mem off n) = take (nat n) (drop (nat off) mem)"
  using assms by (simp_all add: CodedInputStream_ctor_def stream_ok_def flat_ok_def below_limit_def bytes_left_def stream_end_def
    BufferSize_def CurrentPosition_def kDefaultTotalBytesLimit_def INT_MAX_def)

lemma CodedInputStream_ctor_input_ok:
  assumes "array_input_ok mem a" and "ai_position a = 0" and "ai_size a < kDefaultTotalBytesLimit"
  shows "\<exists>s. CodedInputStream_ctor_input mem a = Some s \<and> stream_ok s \<and> below_limit s \<and> i_mem s = mem \<and>
    bytes_left s = take (nat (ai_size a)) (drop (nat (ai_data a)) mem) \<and> i_recursion_depth s = 0 \<and> i_recursion_limit s = 100 \<and>
    \<not> i_legitimate_message_end s \<and> stream_end s = ai_size a \<and> i_current_limit s = INT_MAX \<and>
    i_total_bytes_limit s = kDefaultTotalBytesLimit \<and> CurrentPosition s = 0 \<and>
    (\<exists>a'. i_input s = Some a' \<and> ai_size a' = ai_size a \<and> ai_data a' = ai_data a)"
proof -
  define s0 where "s0 = \<lparr>i_input = Some a, i_mem = mem, i_buffer = 0, i_buffer_end = 0, i_total_bytes_read = 0, i_overflow_bytes = 0,
        i_last_tag = 0, i_legitimate_message_end = False, i_current_limit = INT_MAX, i_buffer_size_after_limit = 0,
        i_total_bytes_limit = kDefaultTotalBytesLimit, i_recursion_depth = 0, i_recursion_limit = default_recursion_limit\<rparr>"
  have sz: "0 \<le> ai_size a" using assms(1,2) by (simp add: array_input_ok_def)
  have k: "0 < kDefaultTotalBytesLimit" "kDefaultTotalBytesLimit < INT_MAX" by (simp_all add: kDefaultTotalBytesLimit_def INT_MAX_def)
  have s0: "stream_ok s0" "BufferSize s0 = 0" "CurrentPosition s0 = 0" "stream_end s0 = ai_size a" "below_limit s0"
    using assms sz k
    by (simp_all add: s0_def stream_ok_def blocks_ok_def BufferSize_def CurrentPosition_def stream_end_def below_limit_def)
  have bl: "bytes_left s0 = take (nat (ai_size a)) (drop (nat (ai_data a)) mem)"
    using s0(3) assms(3) k by (simp add: bytes_left_def) (simp add: s0_def)
  have f: "frame s0 = (mem, INT_MAX, kDefaultTotalBytesLimit, 100, ai_size a, Some (ai_data a, ai_size a))" "i_recursion_depth s0 = 0"
    "\<not> i_legitimate_message_end s0"
    using s0(4) by (simp_all add: frame_def) (simp_all add: s0_def default_recursion_limit_def)
  have C: "CodedInputStream_ctor_input mem a = map_option snd (Refresh s0)" by (simp add: CodedInputStream_ctor_input_def s0_def)
  obtain b s where s: "Refresh s0 = Some (b, s)" "leaves s0 s (bytes_left s0)"
    by (rule Refresh_ok [OF s0(1,2)]) auto
  then have "below_limit s" using s0(5) moved_limit [of s0 s] by (simp add: leaves_def)
  moreover have "frame s = frame s0" "stream_ok s" "bytes_left s = bytes_left s0" "i_recursion_depth s = 0" "\<not> i_legitimate_message_end s"
    using s(2) f by (auto simp: leaves_def moved_def)
  moreover have "CurrentPosition s = 0"
    using Refresh_position [OF _ s(1)] s0(3) by (simp add: s0_def)
  ultimately show ?thesis using C s(1) bl f(1) by (auto simp: frame_def)
qed

text \<open>The destructor gives back exactly what was not read.\<close>

lemma CodedInputStream_dtor_ok:
  assumes "stream_ok s"
  shows "\<exists>r. CodedInputStream_dtor s = Some r \<and> (i_input s = None \<longrightarrow> r = None) \<and>
    (\<forall>a. i_input s = Some a \<longrightarrow> (\<exists>a'. r = Some a' \<and> array_input_ok (i_mem s) a' \<and> same_array a a' \<and>
       AIS_ByteCount a' = min (ai_size a) (CurrentPosition s)))"
proof (cases "i_input s")
  case None
  then show ?thesis by (simp add: CodedInputStream_dtor_def)
next
  case (Some a)
  then have bk: "blocks_ok a s" using assms by (simp add: stream_ok_def)
  then have arr: "array_input_ok (i_mem s) a" and ov: "i_overflow_bytes s = 0" by (simp_all add: blocks_ok_def)
  have le: "ai_position a \<le> ai_size a" using arr by (simp add: array_input_ok_def)
  define k where "k = BufferSize s + i_buffer_size_after_limit s"
  have k0: "0 \<le> k" using BufferSize_nonneg [OF assms] after_limit_nonneg [OF assms] by (simp add: k_def)
  have cp: "CurrentPosition s = i_total_bytes_read s - k" by (simp add: CurrentPosition_def k_def)
  show ?thesis
  proof (cases "k = 0")
    case True
    have "ai_position a = min (ai_size a) (CurrentPosition s)"
      using bk cp True le by (auto simp: blocks_ok_def)
    then show ?thesis using True Some arr ov
      by (auto simp: CodedInputStream_dtor_def BackUpInputToCurrentPosition_def Let_def k_def same_array_def AIS_ByteCount_def)
  next
    case False
    then have pos: "ai_position a = i_total_bytes_read s" "k \<le> ai_last_returned_size a" "0 < k"
      using bk k0 by (auto simp: blocks_ok_def k_def)
    obtain a' where a': "AIS_BackUp k a = Some a'" "array_input_ok (i_mem s) a'" "same_array a a'" "ai_position a' = ai_position a - k"
      using AIS_BackUp_ok [OF arr pos(3,2)] by blast
    have "CodedInputStream_dtor s = Some (Some a')"
      using Some a'(1) pos(3) ov by (simp add: CodedInputStream_dtor_def BackUpInputToCurrentPosition_def Let_def k_def [symmetric])
    moreover have "ai_position a' = min (ai_size a) (CurrentPosition s)" using a'(4) cp pos k0 le by simp
    ultimately show ?thesis using Some a'(2,3) by (simp add: AIS_ByteCount_def)
  qed
qed

subsection \<open>Properties\<close>

text \<open>The operations on a stream; \<open>PopLimit\<close> is given a limit that was in force before.\<close>

datatype stream_op = OpReadTag | OpReadVarint32 | OpReadVarint64 | OpReadLittleEndian32 | OpReadLittleEndian64
  | OpReadRaw nat | OpReadString "u8 list" int | OpSkip int | OpGetDirectBufferPointer | OpExpectTag u32 | OpExpectAtEnd
  | OpPushLimit int | OpPopLimit int | OpSetTotalBytesLimit int

fun run_op :: "stream_op \<Rightarrow> CodedInputStream \<Rightarrow> CodedInputStream option" where
  "run_op OpReadTag s = map_option snd (ReadTag s)"
| "run_op OpReadVarint32 s = map_option snd (ReadVarint32 s)"
| "run_op OpReadVarint64 s = map_option snd (ReadVarint64 s)"
| "run_op OpReadLittleEndian32 s = map_option snd (ReadLittleEndian32 s)"
| "run_op OpReadLittleEndian64 s = map_option snd (ReadLittleEndian64 s)"
| "run_op (OpReadRaw n) s = map_option snd (ReadRaw (int n) s)"
| "run_op (OpReadString str n) s = map_option (\<lambda>(_, _, s). s) (CIS_ReadString str n s)"
| "run_op (OpSkip n) s = map_option snd (Skip n s)"
| "run_op OpGetDirectBufferPointer s = map_option snd (GetDirectBufferPointer s)"
| "run_op (OpExpectTag t) s = map_option snd (ExpectTag t s)"
| "run_op OpExpectAtEnd s = Some (snd (ExpectAtEnd s))"
| "run_op (OpPushLimit n) s = Some (snd (PushLimit n s))"
| "run_op (OpPopLimit l) s = Some (PopLimit (max (CurrentPosition s) (min l (limit_bound s))) s)"
| "run_op (OpSetTotalBytesLimit n) s = Some (SetTotalBytesLimit n s)"

lemma varint_read_ok:
  assumes "stream_ok s"
  shows "\<exists>v s'. ReadVarint32 s = Some (v, s') \<and> stream_ok s'" "\<exists>v s'. ReadVarint64 s = Some (v, s') \<and> stream_ok s'"
    "\<exists>t s'. ReadTag s = Some (t, s') \<and> stream_ok s'"
proof -
  consider v r where "varint_take 10 (bytes_left s) = Some (v, r)" | "varint_take 10 (bytes_left s) = None" "bytes_left s \<noteq> []"
    | "varint_take 10 (bytes_left s) = None" "bytes_left s = []" by (cases "varint_take 10 (bytes_left s)") auto
  note cases = this
  show "\<exists>v s'. ReadVarint32 s = Some (v, s') \<and> stream_ok s'"
    by (rule cases) (use ReadVarint32_ok [OF assms] leavesD in blast)+
  show "\<exists>v s'. ReadVarint64 s = Some (v, s') \<and> stream_ok s'"
    by (rule cases) (use ReadVarint64_ok [OF assms] leavesD in blast)+
  show "\<exists>t s'. ReadTag s = Some (t, s') \<and> stream_ok s'"
    by (rule cases) (use ReadTag_ok [OF assms] in \<open>unfold after_tag_def, blast\<close>)+
qed

lemma ExpectTag_total: "stream_ok s \<Longrightarrow> \<exists>b s'. ExpectTag t s = Some (b, s') \<and> stream_ok s'"
proof (cases "unat t < 16384")
  case True
  assume ok: "stream_ok s"
  then show ?thesis using ExpectTag_ok [OF ok True] leavesD by blast
next
  case False
  assume "stream_ok s"
  with False show ?thesis unfolding ExpectTag_def word32_cmp by (intro exI [of _ False] exI [of _ s]) simp
qed

lemma GetDirectBufferPointer_ok:
  "stream_ok s \<Longrightarrow> \<exists>p s'. GetDirectBufferPointer s = Some (p, s') \<and> leaves s s' (bytes_left s) \<and>
    (\<forall>ptr n. p = Some (ptr, n) \<longrightarrow> (\<exists>r. bytes_left s = buffered s' @ r) \<and> int (length (buffered s')) = n \<and> ptr = i_buffer s')"
proof -
  assume ok: "stream_ok s"
  have fin: "int (length (buffered s')) = BufferSize s'" "\<exists>r. bytes_left s = buffered s' @ r" if "leaves s s' (bytes_left s)" for s'
    using buffered_ok(1,3) [of s'] leavesD [OF that] by simp_all
  show ?thesis
  proof (cases "BufferSize s = 0")
    case True
    obtain b s' where s': "Refresh s = Some (b, s')" "leaves s s' (bytes_left s)" by (rule Refresh_ok [OF ok True]) auto
    then show ?thesis using True fin [OF s'(2)] by (auto simp: GetDirectBufferPointer_def)
  next
    case False
    then show ?thesis using leaves_refl [OF ok] fin [of s] by (auto simp: GetDirectBufferPointer_def)
  qed
qed

lemma CIS_ReadString_total: "stream_ok s \<Longrightarrow> \<exists>b str' s'. CIS_ReadString str k s = Some (b, str', s') \<and> stream_ok s'"
proof -
  assume ok: "stream_ok s"
  consider m where "k = int m" "m \<le> length (bytes_left s)" | m where "k = int m" "length (bytes_left s) < m" | "k < 0"
    by (cases "0 \<le> k") (force simp: nonneg_int_cases not_le elim: nonneg_int_cases)+
  then show ?thesis
  proof cases
    case 1
    from CIS_ReadString_ok(1) [OF ok 1(2), of str] show ?thesis using 1(1) leavesD by blast
  next
    case 2
    from CIS_ReadString_ok(2) [OF ok 2(2), of str] show ?thesis using 2(1) leavesD by blast
  next
    case 3
    from CIS_ReadString_ok(3) [OF ok 3, of str] show ?thesis using ok by blast
  qed
qed

lemma run_op_ok: "stream_ok s \<Longrightarrow> \<exists>s'. run_op x s = Some s' \<and> stream_ok s'"
proof -
  assume ok: "stream_ok s"
  show ?thesis
  proof (cases x)
    case (OpReadString str k)
    then show ?thesis using CIS_ReadString_total [OF ok, of str k] by auto
  next
    case (OpReadRaw m)
    obtain b s' where "ReadRaw (int m) s = Some (b, s')" "stream_ok s'"
      using ReadRaw_ok [OF ok, of m] leavesD by (cases "m \<le> length (bytes_left s)") (auto simp: not_le)
    then show ?thesis using OpReadRaw by simp
  next
    case OpReadLittleEndian32
    obtain b s' where "ReadLittleEndian32 s = Some (b, s')" "stream_ok s'"
      using ReadLittleEndian32_ok [OF ok] leavesD by (cases "4 \<le> length (bytes_left s)") (auto simp: not_le)
    then show ?thesis using OpReadLittleEndian32 by simp
  next
    case OpReadLittleEndian64
    obtain b s' where "ReadLittleEndian64 s = Some (b, s')" "stream_ok s'"
      using ReadLittleEndian64_ok [OF ok] leavesD by (cases "8 \<le> length (bytes_left s)") (auto simp: not_le)
    then show ?thesis using OpReadLittleEndian64 by simp
  next
    case (OpSkip k)
    then show ?thesis using Skip_ok [OF ok, of k] by auto
  next
    case OpGetDirectBufferPointer
    then show ?thesis using GetDirectBufferPointer_ok [OF ok] leavesD by auto
  next
    case (OpExpectTag t)
    then show ?thesis using ExpectTag_total [OF ok, of t] by auto
  next
    case OpExpectAtEnd
    then show ?thesis using ExpectAtEnd_ok [OF ok] ok by auto
  next
    case (OpPopLimit l)
    then show ?thesis using PopLimit_ok [OF ok, of "max (CurrentPosition s) (min l (limit_bound s))"] stream_ok_position(5) [OF ok] by simp
  qed (use varint_read_ok [OF ok] PushLimit_ok [OF ok] SetTotalBytesLimit_ok [OF ok] in auto)
qed

text \<open>
  C13: A stream stays inside its array, whether it has the array as one buffer or takes it block by
  block from an input stream. From any stream within its invariant, every
  read, skip, tag expectation, refill and change of limits returns: no loop runs on, no byte outside the array is read,
  a null underlying stream is never used, and the invariant holds afterwards; so
  the destructor can always give back what is left of the last block, and then the input stream stands at the
  position of the reader. The constructors establish the invariant for an array inside the block.
\<close>

theorem stream_invariant:
  "(stream_ok s \<longrightarrow> (\<exists>s'. foldM run_op ops s = Some s' \<and> stream_ok s' \<and>
      (\<exists>r. CodedInputStream_dtor s' = Some r \<and> (\<forall>a'. r = Some a' \<longrightarrow> AIS_ByteCount a' = min (ai_size a') (CurrentPosition s'))))) \<and>
   (0 \<le> off \<and> 0 \<le> n \<and> off + n \<le> int (length mem) \<and> n < kDefaultTotalBytesLimit \<longrightarrow>
      stream_ok (CodedInputStream_ctor mem off n) \<and>
      (\<exists>s. CodedInputStream_ctor_input mem (ArrayInputStream_ctor off n block_size) = Some s \<and> stream_ok s))"
proof (intro conjI impI)
  show "\<exists>s'. foldM run_op ops s = Some s' \<and> stream_ok s' \<and>
      (\<exists>r. CodedInputStream_dtor s' = Some r \<and> (\<forall>a'. r = Some a' \<longrightarrow> AIS_ByteCount a' = min (ai_size a') (CurrentPosition s')))"
    if ok: "stream_ok s"
  proof -
    obtain s' where s': "foldM run_op ops s = Some s'" "stream_ok s'" using foldM_list [of stream_ok s ops run_op] ok run_op_ok by blast
    from CodedInputStream_dtor_ok [OF s'(2)] obtain r where "CodedInputStream_dtor s' = Some r"
      "\<forall>a'. r = Some a' \<longrightarrow> AIS_ByteCount a' = min (ai_size a') (CurrentPosition s')"
      by (cases "i_input s'") (auto simp: same_array_def)
    with s' show ?thesis by blast
  qed
  assume b: "0 \<le> off \<and> 0 \<le> n \<and> off + n \<le> int (length mem) \<and> n < kDefaultTotalBytesLimit"
  then show "stream_ok (CodedInputStream_ctor mem off n)" by (auto intro: CodedInputStream_ctor_ok)
  have "array_input_ok mem (ArrayInputStream_ctor off n block_size)"
    using b by (intro ArrayInputStream_ctor_ok) (auto simp: kDefaultTotalBytesLimit_def)
  then show "\<exists>s. CodedInputStream_ctor_input mem (ArrayInputStream_ctor off n block_size) = Some s \<and> stream_ok s"
    using CodedInputStream_ctor_input_ok [of mem "ArrayInputStream_ctor off n block_size"] b by (auto simp: ArrayInputStream_ctor_def)
qed

theorem stream_invariant_witness:
  "\<exists>s s'. CodedInputStream_ctor_input [1, 8, 2, 200, 1, 7, 7, 9] (ArrayInputStream_ctor 1 6 2) = Some s \<and>
     foldM run_op [OpReadTag, OpPushLimit 2, OpReadVarint32, OpReadString [] 9, OpReadTag] s = Some s' \<and> stream_ok s'"
proof -
  obtain s where s: "CodedInputStream_ctor_input [1, 8, 2, 200, 1, 7, 7, 9] (ArrayInputStream_ctor 1 6 2) = Some s" "stream_ok s"
    using stream_invariant [of _ "[]" 1 6 "[1, 8, 2, 200, 1, 7, 7, 9]" 2] by (auto simp: kDefaultTotalBytesLimit_def)
  then show ?thesis
    using stream_invariant [of s "[OpReadTag, OpPushLimit 2, OpReadVarint32, OpReadString [] 9, OpReadTag]" 0 0 "[]" 0] by blast
qed

text \<open>
  C24: All paths of the varint readers compute the same function. Whether the inlined
  one-byte case, the unrolled 32-bit or three-part 64-bit sequence over the raw buffer, or the
  byte-wise slow path across the ends of buffers is taken, \<open>ReadVarint64\<close> and \<open>ReadVarint32\<close> return the value of the
  reference decoder (modulo \<open>2^64\<close> and \<open>2^32\<close>) and stop behind it; they report failure
  exactly when the remaining bytes hold no number of at most ten bytes.
\<close>

theorem varint_readers_reference:
  assumes "stream_ok s"
  shows "case varint_take 10 (bytes_left s) of
      Some (v, r) \<Rightarrow>
        (\<exists>s'. ReadVarint64 s = Some (Some (of_nat v), s') \<and> leaves s s' r) \<and>
        (\<exists>s'. ReadVarint32 s = Some (Some (of_nat v), s') \<and> leaves s s' r)
    | None \<Rightarrow>
        (\<exists>k s'. ReadVarint64 s = Some (None, s') \<and> leaves s s' (drop k (bytes_left s))) \<and>
        (\<exists>k s'. ReadVarint32 s = Some (None, s') \<and> leaves s s' (drop k (bytes_left s)))"
  using ReadVarint64_ok [OF assms] ReadVarint32_ok [OF assms] by (cases "varint_take 10 (bytes_left s)") auto

theorem varint_readers_reference_witness:
  "\<exists>s s'. CodedInputStream_ctor_input [0xAC, 0x02, 0xFF] (ArrayInputStream_ctor 0 3 1) = Some s \<and>
     ReadVarint32 s = Some (Some 300, s') \<and> bytes_left s' = [0xFF]"
proof -
  have "array_input_ok [0xAC, 0x02, 0xFF] (ArrayInputStream_ctor 0 3 1)" by (intro ArrayInputStream_ctor_ok) simp_all
  then obtain s where s: "CodedInputStream_ctor_input [0xAC, 0x02, 0xFF] (ArrayInputStream_ctor 0 3 1) = Some s" "stream_ok s"
    "bytes_left s = [0xAC, 0x02, 0xFF]"
    using CodedInputStream_ctor_input_ok [of "[0xAC, 0x02, 0xFF]" "ArrayInputStream_ctor 0 3 1"]
    by (auto simp: ArrayInputStream_ctor_def kDefaultTotalBytesLimit_def)
  moreover have "varint_take 10 [0xAC, 0x02, 0xFF] = Some (300, [0xFF :: u8])" by code_simp
  ultimately obtain s' where "ReadVarint32 s = Some (Some 300, s')" "leaves s s' [0xFF]"
    using varint_readers_reference [OF s(2)] by auto
  then show ?thesis using s(1) leavesD by blast
qed

text \<open>
  C25: Writing and reading back. The nested comparisons of \<open>WriteVarint32ToArray\<close>, the
  computed jump of \<open>WriteVarint64ToArray\<close>, the sign extension of negative \<open>int32\<close> values and
  \<open>WriteTagToArray\<close> all store the base-128 encoding of the value, whose length the size functions
  predict; a stream in front of it reads the value back and stands behind it.
\<close>

theorem varint_writers_roundtrip:
  "WriteVarint32ToArray w = varint_bytes (unat w) \<and> VarintSize32 w = int (length (WriteVarint32ToArray w)) \<and>
   WriteTagToArray w = WriteVarint32ToArray w \<and>
   WriteVarint64ToArray l = varint_bytes (unat l) \<and> VarintSize64 l = int (length (WriteVarint64ToArray l)) \<and>
   VarintSize32SignExtended w = int (length (WriteVarint32SignExtendedToArray w)) \<and>
   (stream_ok s \<longrightarrow>
     (bytes_left s = WriteVarint32ToArray w @ r \<longrightarrow> (\<exists>s'. ReadVarint32 s = Some (Some w, s') \<and> leaves s s' r)) \<and>
     (bytes_left s = WriteVarint32SignExtendedToArray w @ r \<longrightarrow> (\<exists>s'. ReadVarint32 s = Some (Some w, s') \<and> leaves s s' r)) \<and>
     (bytes_left s = WriteVarint64ToArray l @ r \<longrightarrow> (\<exists>s'. ReadVarint64 s = Some (Some l, s') \<and> leaves s s' r)))"
proof -
  have short: "length (varint_bytes (unat l)) \<le> 10" for l :: u64
    using varint_bytes_length [of "unat l" 9] unsigned_less [of l, where 'a = nat] by simp
  have short32: "length (varint_bytes (unat w)) \<le> 10" for w :: u32
    using varint_bytes_length [of "unat w" 9] unsigned_less [of w, where 'a = nat] by simp
  have "(of_nat (unat (scast w :: u64)) :: u32) = w"
  proof -
    have "(of_nat (unat w + 2 ^ 32 * (2 ^ 32 - 1)) :: u32) = of_nat (unat w)" by (rule of_nat_mod_32)
    moreover have "unat w + (2 ^ 64 - 2 ^ 32) = unat w + 2 ^ 32 * (2 ^ 32 - 1)" by simp
    ultimately have "(of_nat (unat w + (2 ^ 64 - 2 ^ 32)) :: u32) = w" by (simp only: of_nat_unat ucast_id)
    then show ?thesis by (simp add: unat_scast_64 del: of_nat_add)
  qed
  then show ?thesis
    using ReadVarint32_ok(1) [of s] ReadVarint64_ok(1) [of s] varint_take_bytes [OF short, of l r]
      varint_take_bytes [OF short, of "scast w" r] varint_take_bytes [OF short32, of w r]
    by (auto simp: WriteVarint32ToArray_ok WriteVarint64ToArray_ok WriteTagToArray_ok WriteVarint32SignExtendedToArray_ok
      VarintSize32_ok VarintSize64_ok VarintSize32SignExtended_ok)
qed

theorem varint_writers_roundtrip_witness:
  "\<exists>s'. ReadVarint32 (CodedInputStream_ctor (WriteVarint32ToArray 70000) 0 3) = Some (Some 70000, s') \<and> bytes_left s' = []"
proof -
  have b: "WriteVarint32ToArray 70000 = [0xF0, 0xA2, 0x04]" by code_simp
  let ?s = "CodedInputStream_ctor [0xF0, 0xA2, 0x04] 0 3"
  have "stream_ok ?s" "bytes_left ?s = [0xF0, 0xA2, 0x04]"
    using CodedInputStream_ctor_ok [of 0 3 "[0xF0, 0xA2, 0x04]"] by (simp_all add: kDefaultTotalBytesLimit_def)
  moreover have "stream_ok ?s \<longrightarrow> bytes_left ?s = WriteVarint32ToArray 70000 @ [] \<longrightarrow>
      (\<exists>s'. ReadVarint32 ?s = Some (Some 70000, s') \<and> leaves ?s s' [])"
    using varint_writers_roundtrip [of 70000 0 ?s "[]"] by blast
  ultimately show ?thesis unfolding b append_Nil2 using leavesD by metis
qed

end
