(* ===== verification/WireFormat.thy ===== *)
theory WireFormat
  imports CodedReads
begin

text \<open>
  Fields on the wire, from \<^verbatim>\<open>wire_format_lite\<close>, \<^verbatim>\<open>wire_format.cc\<close> and
  \<^verbatim>\<open>unknown_field_set.cc\<close>: tags, the primitive readers and writers the message classes
  instantiate, and the skipping of unknown fields into an \<open>UnknownFieldSet\<close>, with its
  serialisation and size.

  \<open>SkipField\<close> and \<open>SkipMessage\<close> call each other and loop; they run with fuel, one unit per tag,
  and \<open>None\<close> also stands for fuel that is used up. \<open>skip_total\<close> shows that one unit more than
  there are bytes left is always enough. Strings are byte lists; UTF-8 verification, which
  only writes a log message, is left out.
\<close>

subsection \<open>Tags\<close>

definition WIRETYPE_VARINT :: u32 where "WIRETYPE_VARINT = 0"
definition WIRETYPE_FIXED64 :: u32 where "WIRETYPE_FIXED64 = 1"
definition WIRETYPE_LENGTH_DELIMITED :: u32 where "WIRETYPE_LENGTH_DELIMITED = 2"
definition WIRETYPE_START_GROUP :: u32 where "WIRETYPE_START_GROUP = 3"
definition WIRETYPE_END_GROUP :: u32 where "WIRETYPE_END_GROUP = 4"
definition WIRETYPE_FIXED32 :: u32 where "WIRETYPE_FIXED32 = 5"

lemmas wiretype_defs = WIRETYPE_VARINT_def WIRETYPE_FIXED64_def WIRETYPE_LENGTH_DELIMITED_def
  WIRETYPE_START_GROUP_def WIRETYPE_END_GROUP_def WIRETYPE_FIXED32_def

definition kTagTypeBits :: int where "kTagTypeBits = 3"
definition kTagTypeMask :: u32 where "kTagTypeMask = push_bit 3 1 - 1"

definition MakeTag :: "u32 \<Rightarrow> u32 \<Rightarrow> u32" where
  "MakeTag field_number type = shl32 field_number kTagTypeBits OR type"

definition GetTagWireType :: "u32 \<Rightarrow> u32" where
  "GetTagWireType tag = tag AND kTagTypeMask"

definition GetTagFieldNumber :: "u32 \<Rightarrow> u32" where
  "GetTagFieldNumber tag = shr32 tag kTagTypeBits"

subsection \<open>Primitive readers and writers\<close>

definition ReadPrimitive_INT32 :: "CodedInputStream \<Rightarrow> (u32 option \<times> CodedInputStream) option" where
  "ReadPrimitive_INT32 input = do { (temp, input) \<leftarrow> ReadVarint32 input; Some (temp, input) }"

definition ReadPrimitive_UINT32 :: "CodedInputStream \<Rightarrow> (u32 option \<times> CodedInputStream) option" where
  "ReadPrimitive_UINT32 input = ReadVarint32 input"

definition ReadPrimitive_UINT64 :: "CodedInputStream \<Rightarrow> (u64 option \<times> CodedInputStream) option" where
  "ReadPrimitive_UINT64 input = ReadVarint64 input"

definition ReadPrimitive_FIXED32 :: "CodedInputStream \<Rightarrow> (u32 option \<times> CodedInputStream) option" where
  "ReadPrimitive_FIXED32 input = ReadLittleEndian32 input"

text \<open>A \<open>float\<close> is kept as its bit pattern: \<open>DecodeFloat\<close> is a reinterpretation.\<close>

definition ReadPrimitive_FLOAT :: "CodedInputStream \<Rightarrow> (u32 option \<times> CodedInputStream) option" where
  "ReadPrimitive_FLOAT input = do { (temp, input) \<leftarrow> ReadLittleEndian32 input; Some (temp, input) }"

definition ReadPrimitive_BOOL :: "CodedInputStream \<Rightarrow> (bool option \<times> CodedInputStream) option" where
  "ReadPrimitive_BOOL input = do { (temp, input) \<leftarrow> ReadVarint32 input; Some (map_option (\<lambda>t. t \<noteq> 0) temp, input) }"

definition WFL_ReadString :: "u8 list \<Rightarrow> CodedInputStream \<Rightarrow> (bool \<times> u8 list \<times> CodedInputStream) option" where
  "WFL_ReadString str input = do {
     (len, input) \<leftarrow> ReadVarint32 input;
     case len of
       None \<Rightarrow> Some (False, str, input)
     | Some n \<Rightarrow> InternalReadStringInline str (sint n) input }"

definition WFL_ReadBytes :: "u8 list \<Rightarrow> CodedInputStream \<Rightarrow> (bool \<times> u8 list \<times> CodedInputStream) option" where
  "WFL_ReadBytes str input = do {
     (len, input) \<leftarrow> ReadVarint32 input;
     case len of
       None \<Rightarrow> Some (False, str, input)
     | Some n \<Rightarrow> InternalReadStringInline str (sint n) input }"

definition WFL_WriteTagToArray :: "u32 \<Rightarrow> u32 \<Rightarrow> u8 list" where
  "WFL_WriteTagToArray field_number type = WriteTagToArray (MakeTag field_number type)"

definition WriteInt32ToArray :: "u32 \<Rightarrow> u32 \<Rightarrow> u8 list" where
  "WriteInt32ToArray n v = WFL_WriteTagToArray n WIRETYPE_VARINT @ WriteVarint32SignExtendedToArray v"

definition WriteInt64ToArray :: "u32 \<Rightarrow> u64 \<Rightarrow> u8 list" where
  "WriteInt64ToArray n v = WFL_WriteTagToArray n WIRETYPE_VARINT @ WriteVarint64ToArray v"

definition WriteUInt32ToArray :: "u32 \<Rightarrow> u32 \<Rightarrow> u8 list" where
  "WriteUInt32ToArray n v = WFL_WriteTagToArray n WIRETYPE_VARINT @ WriteVarint32ToArray v"

definition WriteUInt64ToArray :: "u32 \<Rightarrow> u64 \<Rightarrow> u8 list" where
  "WriteUInt64ToArray n v = WFL_WriteTagToArray n WIRETYPE_VARINT @ WriteVarint64ToArray v"

definition WriteFixed32ToArray :: "u32 \<Rightarrow> u32 \<Rightarrow> u8 list" where
  "WriteFixed32ToArray n v = WFL_WriteTagToArray n WIRETYPE_FIXED32 @ WriteLittleEndian32ToArray v"

definition WriteFixed64ToArray :: "u32 \<Rightarrow> u64 \<Rightarrow> u8 list" where
  "WriteFixed64ToArray n v = WFL_WriteTagToArray n WIRETYPE_FIXED64 @ WriteLittleEndian64ToArray v"

definition WriteFloatToArray :: "u32 \<Rightarrow> u32 \<Rightarrow> u8 list" where
  "WriteFloatToArray n v = WFL_WriteTagToArray n WIRETYPE_FIXED32 @ WriteLittleEndian32ToArray v"

definition WriteBoolToArray :: "u32 \<Rightarrow> bool \<Rightarrow> u8 list" where
  "WriteBoolToArray n v = WFL_WriteTagToArray n WIRETYPE_VARINT @ WriteVarint32ToArray (if v then 1 else 0)"

definition WFL_WriteStringToArray :: "u32 \<Rightarrow> u8 list \<Rightarrow> u8 list" where
  "WFL_WriteStringToArray n v =
     WFL_WriteTagToArray n WIRETYPE_LENGTH_DELIMITED @ WriteVarint32ToArray (of_nat (length v)) @ v"

definition WFL_WriteBytesToArray :: "u32 \<Rightarrow> u8 list \<Rightarrow> u8 list" where
  "WFL_WriteBytesToArray n v =
     WFL_WriteTagToArray n WIRETYPE_LENGTH_DELIMITED @ WriteVarint32ToArray (of_nat (length v)) @ v"

definition Int32Size :: "u32 \<Rightarrow> int" where "Int32Size v = VarintSize32SignExtended v"
definition UInt32Size :: "u32 \<Rightarrow> int" where "UInt32Size v = VarintSize32 v"
definition UInt64Size :: "u64 \<Rightarrow> int" where "UInt64Size v = VarintSize64 v"

definition StringSize :: "u8 list \<Rightarrow> int" where
  "StringSize v = VarintSize32 (of_nat (length v)) + int (length v)"

definition BytesSize :: "u8 list \<Rightarrow> int" where
  "BytesSize v = VarintSize32 (of_nat (length v)) + int (length v)"

subsection \<open>Unknown fields\<close>

datatype unknown_field =
    UVarint u32 u64
  | UFixed32 u32 u32
  | UFixed64 u32 u64
  | ULengthDelimited u32 "u8 list"
  | UGroup u32 "unknown_field list"

function (sequential)
  SkipField :: "nat \<Rightarrow> u32 \<Rightarrow> CodedInputStream \<Rightarrow> unknown_field list \<Rightarrow> (bool \<times> unknown_field list \<times> CodedInputStream) option"
  and SkipMessage :: "nat \<Rightarrow> CodedInputStream \<Rightarrow> unknown_field list \<Rightarrow> (bool \<times> unknown_field list \<times> CodedInputStream) option"
where
  "SkipField fuel tag input unknown_fields =
     (let number = GetTagFieldNumber tag; wire_type = GetTagWireType tag in
      if wire_type = WIRETYPE_VARINT then do {
        (v, input) \<leftarrow> ReadVarint64 input;
        case v of None \<Rightarrow> Some (False, unknown_fields, input)
        | Some v \<Rightarrow> Some (True, unknown_fields @ [UVarint number v], input) }
      else if wire_type = WIRETYPE_FIXED64 then do {
        (v, input) \<leftarrow> ReadLittleEndian64 input;
        case v of None \<Rightarrow> Some (False, unknown_fields, input)
        | Some v \<Rightarrow> Some (True, unknown_fields @ [UFixed64 number v], input) }
      else if wire_type = WIRETYPE_LENGTH_DELIMITED then do {
        (len, input) \<leftarrow> ReadVarint32 input;
        case len of None \<Rightarrow> Some (False, unknown_fields, input)
        | Some n \<Rightarrow> do {
            (ok, str, input) \<leftarrow> CIS_ReadString [] (sint n) input;
            Some (ok, unknown_fields @ [ULengthDelimited number str], input) } }
      else if wire_type = WIRETYPE_START_GROUP then
        (let (ok, input) = IncrementRecursionDepth input in
         if \<not> ok then Some (False, unknown_fields, input)
         else do {
           (ok, grp, input) \<leftarrow> SkipMessage fuel input [];
           let unknown_fields = unknown_fields @ [UGroup number grp];
           if \<not> ok then Some (False, unknown_fields, input)
           else let input = DecrementRecursionDepth input in
             Some (LastTagWas (MakeTag (GetTagFieldNumber tag) WIRETYPE_END_GROUP) input, unknown_fields, input) })
      else if wire_type = WIRETYPE_END_GROUP then Some (False, unknown_fields, input)
      else if wire_type = WIRETYPE_FIXED32 then do {
        (v, input) \<leftarrow> ReadLittleEndian32 input;
        case v of None \<Rightarrow> Some (False, unknown_fields, input)
        | Some v \<Rightarrow> Some (True, unknown_fields @ [UFixed32 number v], input) }
      else Some (False, unknown_fields, input))"
| "SkipMessage 0 input unknown_fields = None"
| "SkipMessage (Suc fuel) input unknown_fields = do {
     (tag, input) \<leftarrow> ReadTag input;
     if tag = 0 then Some (True, unknown_fields, input)
     else if GetTagWireType tag = WIRETYPE_END_GROUP then Some (True, unknown_fields, input)
     else do {
       (ok, unknown_fields, input) \<leftarrow> SkipField fuel tag input unknown_fields;
       if \<not> ok then Some (False, unknown_fields, input) else SkipMessage fuel input unknown_fields } }"
  by pat_completeness auto

termination
  by (relation "measure (\<lambda>x. case x of Inl (fuel, _) \<Rightarrow> 2 * fuel + 1 | Inr (fuel, _) \<Rightarrow> 2 * fuel)") auto

declare SkipField.simps [simp del] SkipMessage.simps [simp del]

fun SerializeUnknownFieldToArray :: "unknown_field \<Rightarrow> u8 list" where
  "SerializeUnknownFieldToArray (UVarint n v) = WriteInt64ToArray n v"
| "SerializeUnknownFieldToArray (UFixed32 n v) = WriteFixed32ToArray n v"
| "SerializeUnknownFieldToArray (UFixed64 n v) = WriteFixed64ToArray n v"
| "SerializeUnknownFieldToArray (ULengthDelimited n str) = WFL_WriteBytesToArray n str"
| "SerializeUnknownFieldToArray (UGroup n grp) =
     WFL_WriteTagToArray n WIRETYPE_START_GROUP @ concat (map SerializeUnknownFieldToArray grp) @
     WFL_WriteTagToArray n WIRETYPE_END_GROUP"

definition SerializeUnknownFieldsToArray :: "unknown_field list \<Rightarrow> u8 list" where
  "SerializeUnknownFieldsToArray unknown_fields = concat (map SerializeUnknownFieldToArray unknown_fields)"

text \<open>
  The sizes are added in an \<open>int\<close>, which wraps around; what one field adds is not reduced on its own,
  the sum is.
\<close>

fun ComputeUnknownFieldSize :: "unknown_field \<Rightarrow> int" where
  "ComputeUnknownFieldSize (UVarint n v) = VarintSize32 (MakeTag n WIRETYPE_VARINT) + VarintSize64 v"
| "ComputeUnknownFieldSize (UFixed32 n v) = VarintSize32 (MakeTag n WIRETYPE_FIXED32) + 4"
| "ComputeUnknownFieldSize (UFixed64 n v) = VarintSize32 (MakeTag n WIRETYPE_FIXED64) + 8"
| "ComputeUnknownFieldSize (ULengthDelimited n str) =
     VarintSize32 (MakeTag n WIRETYPE_LENGTH_DELIMITED) + VarintSize32 (of_nat (length str)) + int (length str)"
| "ComputeUnknownFieldSize (UGroup n grp) =
     VarintSize32 (MakeTag n WIRETYPE_START_GROUP) + i32 (sum_list (map ComputeUnknownFieldSize grp)) +
     VarintSize32 (MakeTag n WIRETYPE_END_GROUP)"

definition ComputeUnknownFieldsSize :: "unknown_field list \<Rightarrow> int" where
  "ComputeUnknownFieldsSize unknown_fields = i32 (sum_list (map ComputeUnknownFieldSize unknown_fields))"

subsection \<open>Moving through a stream\<close>

text \<open>\<open>forth s s'\<close>: still a good stream over the same array, not further back.\<close>

definition forth :: "CodedInputStream \<Rightarrow> CodedInputStream \<Rightarrow> bool" where
  "forth s s' \<longleftrightarrow> stream_ok s' \<and> moved s s' \<and> length (bytes_left s') \<le> length (bytes_left s)"

lemma forth_refl: "stream_ok s \<Longrightarrow> forth s s"
  by (simp add: forth_def)

lemma forth_trans: "forth s s1 \<Longrightarrow> forth s1 s2 \<Longrightarrow> forth s s2"
  unfolding forth_def using moved_trans by fastforce

lemma forth_leaves: "leaves s s' (drop k (bytes_left s)) \<Longrightarrow> forth s s'"
  by (simp add: leaves_def forth_def)

lemma forth_leaves_Nil: "leaves s s' [] \<Longrightarrow> forth s s'"
  by (simp add: leaves_def forth_def)

lemma leaves_shorter: "leaves s s' r \<Longrightarrow> bytes_left s = u @ r \<Longrightarrow> u \<noteq> [] \<Longrightarrow> forth s s' \<and> length (bytes_left s') < length (bytes_left s)"
  by (simp add: leaves_def forth_def)

lemma forth_update [simp]:
  "forth s (s'\<lparr>i_last_tag := t\<rparr>) = forth s s'" "forth s (s'\<lparr>i_legitimate_message_end := l\<rparr>) = forth s s'"
  "forth s (s'\<lparr>i_recursion_depth := d\<rparr>) = forth s s'"
  by (simp_all add: forth_def)

lemma ReadVarint32_forth: "stream_ok s \<Longrightarrow> \<exists>v s'. ReadVarint32 s = Some (v, s') \<and> forth s s' \<and> (v \<noteq> None \<longrightarrow> length (bytes_left s') < length (bytes_left s))"
proof (cases "varint_take 10 (bytes_left s)")
  case None
  assume "stream_ok s"
  with None show ?thesis using ReadVarint32_ok(2) forth_leaves by blast
next
  case (Some p)
  assume ok: "stream_ok s"
  obtain v r where p: "p = (v, r)" by (cases p)
  then obtain u where u: "bytes_left s = u @ r" "u \<noteq> []" using Some varint_take_suffix by blast
  then show ?thesis using ReadVarint32_ok(1) [OF ok, of v r] Some p leaves_shorter [OF _ u] by blast
qed

lemma ReadVarint64_forth: "stream_ok s \<Longrightarrow> \<exists>v s'. ReadVarint64 s = Some (v, s') \<and> forth s s' \<and> (v \<noteq> None \<longrightarrow> length (bytes_left s') < length (bytes_left s))"
proof (cases "varint_take 10 (bytes_left s)")
  case None
  assume "stream_ok s"
  with None show ?thesis using ReadVarint64_ok(2) forth_leaves by blast
next
  case (Some p)
  assume ok: "stream_ok s"
  obtain v r where p: "p = (v, r)" by (cases p)
  then obtain u where u: "bytes_left s = u @ r" "u \<noteq> []" using Some varint_take_suffix by blast
  then show ?thesis using ReadVarint64_ok(1) [OF ok, of v r] Some p leaves_shorter [OF _ u] by blast
qed

lemma ReadTag_forth:
  assumes "stream_ok s"
  shows "\<exists>t s'. ReadTag s = Some (t, s') \<and> forth s s' \<and> (t \<noteq> 0 \<longrightarrow> length (bytes_left s') < length (bytes_left s))"
proof -
  consider v r where "varint_take 10 (bytes_left s) = Some (v, r)" | "varint_take 10 (bytes_left s) = None" "bytes_left s \<noteq> []"
    | "bytes_left s = []" by (cases "varint_take 10 (bytes_left s)") auto
  then show ?thesis
  proof cases
    case 1
    then obtain u where u: "bytes_left s = u @ r" "u \<noteq> []" using varint_take_suffix by blast
    then show ?thesis using ReadTag_ok(2) [OF assms 1] by (auto simp: after_tag_def forth_def)
  next
    case 2
    then show ?thesis using ReadTag_ok(3) [OF assms] by (auto simp: after_tag_def forth_def)
  next
    case 3
    then show ?thesis using ReadTag_ok(1) [OF assms] by (auto simp: after_tag_def forth_def)
  qed
qed

lemma ReadLittleEndian32_forth: "stream_ok s \<Longrightarrow> \<exists>v s'. ReadLittleEndian32 s = Some (v, s') \<and> forth s s' \<and> (v \<noteq> None \<longrightarrow> length (bytes_left s') < length (bytes_left s))"
  using ReadLittleEndian32_ok [of s] by (cases "4 \<le> length (bytes_left s)") (force simp: leaves_def forth_def not_le)+

lemma ReadLittleEndian64_forth: "stream_ok s \<Longrightarrow> \<exists>v s'. ReadLittleEndian64 s = Some (v, s') \<and> forth s s' \<and> (v \<noteq> None \<longrightarrow> length (bytes_left s') < length (bytes_left s))"
  using ReadLittleEndian64_ok [of s] by (cases "8 \<le> length (bytes_left s)") (force simp: leaves_def forth_def not_le)+

lemma CIS_ReadString_forth: "stream_ok s \<Longrightarrow> \<exists>b str' s'. CIS_ReadString str n s = Some (b, str', s') \<and> forth s s'"
proof -
  assume ok: "stream_ok s"
  consider "n < 0" | "0 \<le> n" "nat n \<le> length (bytes_left s)" | "0 \<le> n" "length (bytes_left s) < nat n" by linarith
  then show ?thesis
  proof cases
    case 1
    then show ?thesis using CIS_ReadString_ok(3) [OF ok 1, of str] forth_refl [OF ok] by blast
  next
    case 2
    then show ?thesis using CIS_ReadString_ok(1) [OF ok 2(2), of str] forth_leaves by fastforce
  next
    case 3
    then show ?thesis using CIS_ReadString_ok(2) [OF ok 3(2), of str] forth_leaves_Nil by fastforce
  qed
qed

lemma InternalReadString_eq: "CIS_ReadString str n s = InternalReadStringInline str n s"
  by (simp add: CIS_ReadString_def InternalReadStringInline_def)

lemma WFL_ReadString_forth: "stream_ok s \<Longrightarrow> \<exists>b str' s'. WFL_ReadString str s = Some (b, str', s') \<and> forth s s' \<and> (b \<longrightarrow> length (bytes_left s') < length (bytes_left s))"
proof -
  assume ok: "stream_ok s"
  obtain v s1 where v: "ReadVarint32 s = Some (v, s1)" "forth s s1" "v \<noteq> None \<longrightarrow> length (bytes_left s1) < length (bytes_left s)"
    using ReadVarint32_forth [OF ok] by blast
  then have ok1: "stream_ok s1" by (simp add: forth_def)
  show ?thesis
  proof (cases v)
    case (Some n)
    obtain b str' s' where "CIS_ReadString str (sint n) s1 = Some (b, str', s')" "forth s1 s'" using CIS_ReadString_forth [OF ok1] by blast
    moreover have "length (bytes_left s') \<le> length (bytes_left s1)" using calculation(2) by (simp add: forth_def)
    ultimately show ?thesis using v Some forth_trans [OF v(2)] by (auto simp: WFL_ReadString_def InternalReadString_eq [symmetric])
  qed (use v in \<open>auto simp: WFL_ReadString_def\<close>)
qed

lemma WFL_ReadBytes_eq: "WFL_ReadBytes = WFL_ReadString"
  by (simp add: fun_eq_iff WFL_ReadBytes_def WFL_ReadString_def)

subsection \<open>Skipping always returns\<close>

lemma skip_field_total:
  assumes ok: "stream_ok s"
    and msg: "\<And>s uf. stream_ok s \<Longrightarrow> length (bytes_left s) < fuel \<Longrightarrow> \<exists>b uf' s'. SkipMessage fuel s uf = Some (b, uf', s') \<and> forth s s'"
    and len: "length (bytes_left s) < fuel"
  shows "\<exists>b uf' s'. SkipField fuel tag s uf = Some (b, uf', s') \<and> forth s s'"
proof -
  let ?w = "GetTagWireType tag"
  consider "?w = 0" | "?w = 1" | "?w = 2" | "?w = 3" | "?w = 4" | "?w = 5" | "?w \<notin> {0, 1, 2, 3, 4, 5}" by auto
  then show ?thesis
  proof cases
    case 1
    then show ?thesis using ReadVarint64_forth [OF ok]
      by (auto simp: SkipField.simps Let_def wiretype_defs split: option.splits)
  next
    case 2
    then show ?thesis using ReadLittleEndian64_forth [OF ok]
      by (auto simp: SkipField.simps Let_def wiretype_defs split: option.splits)
  next
    case 3
    obtain v s1 where v: "ReadVarint32 s = Some (v, s1)" "forth s s1" using ReadVarint32_forth [OF ok] by blast
    then have "stream_ok s1" by (simp add: forth_def)
    then have "\<exists>b str' s'. CIS_ReadString [] n s1 = Some (b, str', s') \<and> forth s1 s'" for n by (rule CIS_ReadString_forth)
    note str = this
    show ?thesis
    proof (cases v)
      case (Some n)
      obtain b str' s' where "CIS_ReadString [] (sint n) s1 = Some (b, str', s')" "forth s s'"
        using str forth_trans [OF v(2)] by blast
      then show ?thesis using 3 v(1) Some by (simp add: SkipField.simps Let_def wiretype_defs)
    qed (use 3 v in \<open>auto simp: SkipField.simps Let_def wiretype_defs\<close>)
  next
    case 4
    define s1 where "s1 = s\<lparr>i_recursion_depth := i_recursion_depth s + 1\<rparr>"
    have s1: "stream_ok s1" "length (bytes_left s1) < fuel" "forth s s1" using ok len forth_refl [OF ok] by (simp_all add: s1_def)
    obtain b g s2 where "SkipMessage fuel s1 [] = Some (b, g, s2)" "forth s1 s2" using msg [OF s1(1,2)] by blast
    moreover have "forth s s2" using forth_trans s1(3) calculation(2) by blast
    ultimately show ?thesis using 4 s1(3)
      by (auto simp: SkipField.simps Let_def wiretype_defs IncrementRecursionDepth_def DecrementRecursionDepth_def s1_def [symmetric])
  next
    case 6
    then show ?thesis using ReadLittleEndian32_forth [OF ok]
      by (auto simp: SkipField.simps Let_def wiretype_defs split: option.splits)
  qed (use forth_refl [OF ok] in \<open>auto simp: SkipField.simps Let_def wiretype_defs\<close>)
qed

lemma skip_message_total:
  "stream_ok s \<Longrightarrow> length (bytes_left s) < fuel \<Longrightarrow> \<exists>b uf' s'. SkipMessage fuel s uf = Some (b, uf', s') \<and> forth s s'"
proof (induction fuel arbitrary: s uf)
  case (Suc fuel)
  obtain t s1 where t: "ReadTag s = Some (t, s1)" "forth s s1" "t \<noteq> 0 \<longrightarrow> length (bytes_left s1) < length (bytes_left s)"
    using ReadTag_forth [OF Suc.prems(1)] by blast
  show ?case
  proof (cases "t = 0 \<or> GetTagWireType t = WIRETYPE_END_GROUP")
    case True
    then show ?thesis using t(1,2) by (auto simp: SkipMessage.simps)
  next
    case False
    have s1: "stream_ok s1" "length (bytes_left s1) < fuel" using t False Suc.prems(2) by (auto simp: forth_def)
    obtain b uf1 s2 where f: "SkipField fuel t s1 uf = Some (b, uf1, s2)" "forth s1 s2"
      using skip_field_total [OF s1(1) Suc.IH s1(2)] by blast
    have s2: "stream_ok s2" "length (bytes_left s2) < fuel" using f(2) s1(2) by (auto simp: forth_def)
    have fs: "forth s s2" using forth_trans t(2) f(2) by blast
    show ?thesis
    proof (cases b)
      case True
      obtain b' uf' s' where "SkipMessage fuel s2 uf1 = Some (b', uf', s')" "forth s2 s'" using Suc.IH [OF s2] by blast
      then show ?thesis using t(1) False f(1) True forth_trans [OF fs] by (auto simp: SkipMessage.simps)
    qed (use t(1) False f(1) fs in \<open>auto simp: SkipMessage.simps\<close>)
  qed
qed simp

lemmas skip_total = skip_field_total [OF _ skip_message_total]

subsection \<open>Skipping reads back what was serialised\<close>

definition num_ok :: "u32 \<Rightarrow> bool" where
  "num_ok n \<longleftrightarrow> 0 < unat n \<and> unat n < 2 ^ 29"

lemma unat_MakeTag: "num_ok n \<Longrightarrow> unat w < 8 \<Longrightarrow> unat (MakeTag n w) = 8 * unat n + unat w"
proof -
  assume n: "num_ok n" and w: "unat w < 8"
  have "MakeTag n w = of_nat (unat w) OR push_bit 3 (of_nat (unat n))"
    by (simp add: MakeTag_def kTagTypeBits_def or.commute)
  also have "\<dots> = of_nat (unat w + 2 ^ 3 * unat n)" using w by (intro or_shift_add) simp
  finally have m: "MakeTag n w = of_nat (unat w + 2 ^ 3 * unat n)" .
  have "unat w + 2 ^ 3 * unat n < 2 ^ 32" using n w by (simp add: num_ok_def)
  then have "unat (of_nat (unat w + 2 ^ 3 * unat n) :: u32) = unat w + 2 ^ 3 * unat n"
    unfolding unsigned_of_nat by (simp add: take_bit_nat_eq_self)
  then show ?thesis unfolding m by simp
qed

lemma unat_GetTag: "unat (GetTagFieldNumber t) = unat t div 8" "unat (GetTagWireType t) = unat t mod 8"
proof -
  show "unat (GetTagFieldNumber t) = unat t div 8"
    using unat_shr32 [of 3 t] by (simp add: GetTagFieldNumber_def kTagTypeBits_def)
  have "GetTagWireType t = take_bit 3 t" by (simp add: GetTagWireType_def kTagTypeMask_def take_bit_eq_mask mask_eq_exp_minus_1)
  then show "unat (GetTagWireType t) = unat t mod 8" by (simp add: unsigned_take_bit_eq take_bit_eq_mod [of _ "unat t"])
qed

lemma GetTag_MakeTag:
  assumes "num_ok n" and "unat w < 8"
  shows "GetTagFieldNumber (MakeTag n w) = n" "GetTagWireType (MakeTag n w) = w" "MakeTag n w \<noteq> 0"
proof -
  show "GetTagFieldNumber (MakeTag n w) = n" "GetTagWireType (MakeTag n w) = w"
    using unat_MakeTag [OF assms] assms(2) by (simp_all add: word_unat_eq_iff unat_GetTag)
  have "unat (MakeTag n w) \<noteq> 0" using unat_MakeTag [OF assms] assms(1) by (simp add: num_ok_def)
  then show "MakeTag n w \<noteq> 0" by (metis unat_0)
qed

text \<open>A serialised field is its tag and a payload.\<close>

fun field_tag :: "unknown_field \<Rightarrow> u32" where
  "field_tag (UVarint n v) = MakeTag n 0"
| "field_tag (UFixed64 n v) = MakeTag n 1"
| "field_tag (ULengthDelimited n str) = MakeTag n 2"
| "field_tag (UGroup n g) = MakeTag n 3"
| "field_tag (UFixed32 n v) = MakeTag n 5"

fun field_payload :: "unknown_field \<Rightarrow> u8 list" where
  "field_payload (UVarint n v) = varint_bytes (unat v)"
| "field_payload (UFixed64 n v) = WriteLittleEndian64ToArray v"
| "field_payload (ULengthDelimited n str) = varint_bytes (unat (of_nat (length str) :: u32)) @ str"
| "field_payload (UGroup n g) = SerializeUnknownFieldsToArray g @ varint_bytes (unat (MakeTag n 4))"
| "field_payload (UFixed32 n v) = WriteLittleEndian32ToArray v"

lemma serialize_field: "SerializeUnknownFieldToArray f = varint_bytes (unat (field_tag f)) @ field_payload f"
  by (cases f) (simp_all add: WriteInt64ToArray_def WriteFixed32ToArray_def WriteFixed64ToArray_def WFL_WriteBytesToArray_def
    WFL_WriteTagToArray_def WriteTagToArray_ok WriteVarint64ToArray_ok WriteVarint32ToArray_ok wiretype_defs SerializeUnknownFieldsToArray_def)

text \<open>Fields that can be on the wire, with groups nested at most \<open>d\<close> deep.\<close>

fun field_ok :: "nat \<Rightarrow> unknown_field \<Rightarrow> bool" where
  "field_ok d (UGroup n g) = (num_ok n \<and> 0 < d \<and> list_all (field_ok (d - 1)) g)"
| "field_ok d (ULengthDelimited n str) = (num_ok n \<and> length str < 2 ^ 31)"
| "field_ok d (UVarint n v) = num_ok n"
| "field_ok d (UFixed32 n v) = num_ok n"
| "field_ok d (UFixed64 n v) = num_ok n"

definition behind :: "CodedInputStream \<Rightarrow> CodedInputStream \<Rightarrow> u8 list \<Rightarrow> bool" where
  "behind s s' r \<longleftrightarrow> stream_ok s' \<and> moved s s' \<and> bytes_left s' = r \<and> i_recursion_depth s' = i_recursion_depth s \<and>
     i_legitimate_message_end s' = i_legitimate_message_end s"

lemma behind_trans: "behind s s1 r1 \<Longrightarrow> behind s1 s2 r2 \<Longrightarrow> behind s s2 r2"
  using moved_trans by (auto simp: behind_def)

lemma behind_leaves: "leaves s s' r \<Longrightarrow> behind s s' r"
  by (simp add: leaves_def behind_def)

lemma varint_short: "length (varint_bytes (unat (w::u32))) \<le> 10" "length (varint_bytes (unat (l::u64))) \<le> 10"
  using varint_bytes_length [of "unat w" 9] unsigned_less [of w, where 'a = nat]
    varint_bytes_length [of "unat l" 9] unsigned_less [of l, where 'a = nat] by simp_all

lemma ReadVarint32_at:
  assumes "stream_ok s" and "bytes_left s = varint_bytes x @ r" and "length (varint_bytes x) \<le> 10"
  shows "\<exists>s'. ReadVarint32 s = Some (Some (of_nat x), s') \<and> behind s s' r"
  using ReadVarint32_ok(1) [OF assms(1), of x r] varint_take_bytes [OF assms(3), of r] behind_leaves assms(2) by fastforce

lemma ReadVarint64_at:
  assumes "stream_ok s" and "bytes_left s = varint_bytes x @ r" and "length (varint_bytes x) \<le> 10"
  shows "\<exists>s'. ReadVarint64 s = Some (Some (of_nat x), s') \<and> behind s s' r"
  using ReadVarint64_ok(1) [OF assms(1), of x r] varint_take_bytes [OF assms(3), of r] behind_leaves assms(2) by fastforce

lemma ReadTag_at:
  assumes "stream_ok s" and "bytes_left s = varint_bytes (unat t) @ r"
  shows "\<exists>s'. ReadTag s = Some (t, s') \<and> behind s s' r \<and> i_last_tag s' = t"
  using ReadTag_ok(2) [OF assms(1), of "unat t" r] varint_take_bytes [OF varint_short(1), of t r] assms(2)
  by (auto simp: after_tag_def behind_def)

lemma ReadLittleEndian32_at:
  assumes "stream_ok s" and "bytes_left s = WriteLittleEndian32ToArray w @ r"
  shows "\<exists>s'. ReadLittleEndian32 s = Some (Some w, s') \<and> behind s s' r"
  using ReadLittleEndian32_ok(1) [OF assms(1)] behind_leaves assms(2) le32_write [of w "[]"] by fastforce

lemma ReadLittleEndian64_at:
  assumes "stream_ok s" and "bytes_left s = WriteLittleEndian64ToArray w @ r"
  shows "\<exists>s'. ReadLittleEndian64 s = Some (Some w, s') \<and> behind s s' r"
  using ReadLittleEndian64_ok(1) [OF assms(1)] behind_leaves assms(2) le64_write [of w "[]"] by fastforce

lemma WFL_ReadString_at:
  assumes "stream_ok s" and "bytes_left s = varint_bytes (unat (of_nat (length str) :: u32)) @ str @ r" and "length str < 2 ^ 31"
  shows "\<exists>s'. WFL_ReadString old s = Some (True, str, s') \<and> behind s s' r"
proof -
  obtain s1 where s1: "ReadVarint32 s = Some (Some (of_nat (length str)), s1)" "behind s s1 (str @ r)"
    using ReadVarint32_at [OF assms(1,2) varint_short(1)] by auto
  have "sint (of_nat (length str) :: u32) = int (length str)"
    using assms(3) by (simp add: signed_of_nat signed_take_bit_int_eq_self)
  moreover have ok: "stream_ok s1" "bytes_left s1 = str @ r" using s1(2) by (auto simp: behind_def)
  ultimately obtain s2 where "InternalReadStringInline old (sint (of_nat (length str) :: u32)) s1 = Some (True, str, s2)" "leaves s1 s2 r"
    using CIS_ReadString_ok(1) [of s1 "length str" old] by (auto simp: InternalReadString_eq)
  then show ?thesis using s1 behind_trans [OF s1(2) behind_leaves] by (simp add: WFL_ReadString_def)
qed

text \<open>Reading the fields of a list one by one, given that each of them can be skipped.\<close>

lemma skip_list:
  assumes fld: "\<And>f s uf r fuel. f \<in> set fs \<Longrightarrow> stream_ok s \<Longrightarrow> bytes_left s = field_payload f @ r \<Longrightarrow>
      0 \<le> i_recursion_depth s \<Longrightarrow> i_recursion_depth s + int d \<le> i_recursion_limit s \<Longrightarrow> length (bytes_left s) < fuel \<Longrightarrow>
      \<exists>s'. SkipField fuel (field_tag f) s uf = Some (True, uf @ [f], s') \<and> behind s s' r"
    and tag: "\<And>f. f \<in> set fs \<Longrightarrow> field_tag f \<noteq> 0 \<and> GetTagWireType (field_tag f) \<noteq> WIRETYPE_END_GROUP"
    and "stream_ok s" and "bytes_left s = SerializeUnknownFieldsToArray fs @ r"
    and "0 \<le> i_recursion_depth s" and "i_recursion_depth s + int d \<le> i_recursion_limit s" and "length (bytes_left s) < fuel"
  shows "\<exists>fuel' s'. SkipMessage fuel s uf = SkipMessage fuel' s' (uf @ fs) \<and> behind s s' r \<and> length r < fuel'"
  using assms
proof (induction fs arbitrary: s uf fuel)
  case Nil
  then show ?case by (intro exI [of _ fuel] exI [of _ s]) (simp add: SerializeUnknownFieldsToArray_def behind_def)
next
  case (Cons f fs)
  let ?rest = "SerializeUnknownFieldsToArray fs @ r"
  have bs: "bytes_left s = varint_bytes (unat (field_tag f)) @ field_payload f @ ?rest"
    using Cons.prems(4) by (simp add: SerializeUnknownFieldsToArray_def serialize_field)
  have "varint_bytes (unat (field_tag f)) \<noteq> []" by (subst varint_bytes.simps) simp
  then have lt: "length (field_payload f @ ?rest) < length (bytes_left s)" using bs by simp
  obtain k where k: "fuel = Suc k" using Cons.prems(7) by (cases fuel) auto
  obtain s1 where s1: "ReadTag s = Some (field_tag f, s1)" "behind s s1 (field_payload f @ ?rest)"
    using ReadTag_at [OF Cons.prems(3) bs] by auto
  then have a: "stream_ok s1" "bytes_left s1 = field_payload f @ ?rest" "i_recursion_depth s1 = i_recursion_depth s"
    "i_recursion_limit s1 = i_recursion_limit s" using moved_limits by (auto simp: behind_def)
  obtain s2 where s2: "SkipField k (field_tag f) s1 uf = Some (True, uf @ [f], s2)" "behind s1 s2 ?rest"
    using Cons.prems(1) [OF _ a(1,2), of k uf] a lt Cons.prems(5-7) k by auto
  then have b: "stream_ok s2" "bytes_left s2 = ?rest" "i_recursion_depth s2 = i_recursion_depth s" "i_recursion_limit s2 = i_recursion_limit s"
    using a moved_limits by (auto simp: behind_def)
  have "SkipMessage fuel s uf = SkipMessage k s2 (uf @ [f])"
    using s1(1) s2(1) Cons.prems(2) [of f] k by (simp add: SkipMessage.simps)
  moreover have "\<exists>fuel' s'. SkipMessage k s2 (uf @ [f]) = SkipMessage fuel' s' ((uf @ [f]) @ fs) \<and> behind s2 s' r \<and> length r < fuel'"
  proof (rule Cons.IH [OF Cons.prems(1,2) b(1,2)])
    show "0 \<le> i_recursion_depth s2" "i_recursion_depth s2 + int d \<le> i_recursion_limit s2" using b Cons.prems(5,6) by simp_all
    show "length (bytes_left s2) < k" unfolding b(2) using lt Cons.prems(7) k by simp
  qed simp_all
  ultimately show ?case using behind_trans [OF s1(2) s2(2)] behind_trans by fastforce
qed

lemma field_tag_facts:
  assumes "field_ok d f"
  shows "field_tag f \<noteq> 0 \<and> GetTagWireType (field_tag f) \<noteq> WIRETYPE_END_GROUP"
  using assms GetTag_MakeTag(2,3) by (cases f) (auto simp: wiretype_defs)

lemma skip_field_back:
  "field_ok d f \<Longrightarrow> stream_ok s \<Longrightarrow> bytes_left s = field_payload f @ r \<Longrightarrow> 0 \<le> i_recursion_depth s \<Longrightarrow>
    i_recursion_depth s + int d \<le> i_recursion_limit s \<Longrightarrow> length (bytes_left s) < fuel \<Longrightarrow>
    \<exists>s'. SkipField fuel (field_tag f) s uf = Some (True, uf @ [f], s') \<and> behind s s' r"
proof (induction f arbitrary: d s r uf fuel)
  case (UVarint n v)
  then obtain s' where "ReadVarint64 s = Some (Some (of_nat (unat v)), s')" "behind s s' r"
    using ReadVarint64_at [of s "unat v" r] varint_short(2) by auto
  then show ?case using UVarint.prems(1) GetTag_MakeTag [of n 0] by (simp add: SkipField.simps Let_def wiretype_defs)
next
  case (UFixed32 n v)
  then obtain s' where "ReadLittleEndian32 s = Some (Some v, s')" "behind s s' r" using ReadLittleEndian32_at [of s v r] by auto
  then show ?case using UFixed32.prems(1) GetTag_MakeTag [of n 5] by (simp add: SkipField.simps Let_def wiretype_defs)
next
  case (UFixed64 n v)
  then obtain s' where "ReadLittleEndian64 s = Some (Some v, s')" "behind s s' r" using ReadLittleEndian64_at [of s v r] by auto
  then show ?case using UFixed64.prems(1) GetTag_MakeTag [of n 1] by (simp add: SkipField.simps Let_def wiretype_defs)
next
  case (ULengthDelimited n str)
  then obtain s' where s': "WFL_ReadString [] s = Some (True, str, s')" "behind s s' r"
    using WFL_ReadString_at [of s str r "[]"] by auto
  have "SkipField fuel (field_tag (ULengthDelimited n str)) s uf =
      (case WFL_ReadString [] s of Some (ok, str, s') \<Rightarrow>
         (case ReadVarint32 s of Some (None, _) \<Rightarrow> Some (False, uf, s') | _ \<Rightarrow> Some (ok, uf @ [ULengthDelimited n str], s')) | None \<Rightarrow> None)"
    using ULengthDelimited.prems(1) GetTag_MakeTag [of n 2]
    by (auto simp: SkipField.simps Let_def wiretype_defs WFL_ReadString_def InternalReadString_eq split: option.splits bind_splits)
  moreover obtain w s1 where "ReadVarint32 s = Some (Some w, s1)"
    using s'(1) by (auto simp: WFL_ReadString_def split: bind_splits option.splits)
  ultimately show ?case using s' by simp
next
  case (UGroup n g)
  define s0 where "s0 = s\<lparr>i_recursion_depth := i_recursion_depth s + 1\<rparr>"
  let ?tail = "varint_bytes (unat (MakeTag n 4))"
  have n: "num_ok n" "0 < d" and g: "f \<in> set g \<Longrightarrow> field_ok (d - 1) f" for f
    using UGroup.prems(1) by (auto simp: list_all_iff)
  have s0: "stream_ok s0" "bytes_left s0 = SerializeUnknownFieldsToArray g @ ?tail @ r" "0 \<le> i_recursion_depth s0"
    "i_recursion_depth s0 + int (d - 1) \<le> i_recursion_limit s0" "length (bytes_left s0) < fuel"
    using UGroup.prems n(2) by (simp_all add: s0_def of_nat_diff)
  obtain fuel' s1 where s1: "SkipMessage fuel s0 [] = SkipMessage fuel' s1 ([] @ g)" "behind s0 s1 (?tail @ r)" "length (?tail @ r) < fuel'"
  proof -
    have "\<exists>fuel' s'. SkipMessage fuel s0 [] = SkipMessage fuel' s' ([] @ g) \<and> behind s0 s' (?tail @ r) \<and> length (?tail @ r) < fuel'"
      by (rule skip_list [of g "d - 1", OF _ _ s0]) (use UGroup.IH g field_tag_facts in blast)+
    then show ?thesis using that by blast
  qed
  then have a: "stream_ok s1" "bytes_left s1 = ?tail @ r" by (auto simp: behind_def)
  obtain s2 where s2: "ReadTag s1 = Some (MakeTag n 4, s2)" "behind s1 s2 r" "i_last_tag s2 = MakeTag n 4"
    using ReadTag_at [OF a] by auto
  obtain k where "fuel' = Suc k" using s1(3) by (cases fuel') auto
  then have m: "SkipMessage fuel s0 [] = Some (True, g, s2)"
    using s1(1) s2(1) GetTag_MakeTag [OF n(1), of 4] by (simp add: SkipMessage.simps wiretype_defs)
  have b: "behind s0 s2 r" using behind_trans s1(2) s2(2) by blast
  define s' where "s' = DecrementRecursionDepth s2"
  have "i_recursion_depth s2 = i_recursion_depth s + 1" using b by (simp add: behind_def s0_def)
  then have s': "s' = s2\<lparr>i_recursion_depth := i_recursion_depth s\<rparr>" using UGroup.prems(4) by (simp add: s'_def DecrementRecursionDepth_def)
  have "moved s s2" using b by (auto simp: behind_def s0_def intro: moved_trans [of s "s\<lparr>i_recursion_depth := i_recursion_depth s + 1\<rparr>"])
  then have "behind s s' r" using b by (simp add: behind_def s') (simp add: s0_def)
  moreover have "LastTagWas (MakeTag n 4) s'" using s2(3) by (simp add: LastTagWas_def s')
  moreover have "i_recursion_depth s0 \<le> i_recursion_limit s0" using UGroup.prems(5) n(2) by (simp add: s0_def)
  ultimately show ?case using m GetTag_MakeTag [OF n(1), of 3]
    by (simp add: SkipField.simps Let_def wiretype_defs IncrementRecursionDepth_def s0_def [symmetric] s'_def [symmetric])
qed

lemma i32_add: "i32 (i32 x + y) = i32 (x + y)" "i32 (x + i32 y) = i32 (x + y)"
proof -
  have mod: "i32 x = (x + 2 ^ 31) mod 2 ^ 32 - 2 ^ 31" for x
    by (simp add: i32_def signed_take_bit_eq_take_bit_shift take_bit_eq_mod)
  have "(i32 x + y + 2 ^ 31) mod 2 ^ 32 = (x + y + 2 ^ 31) mod 2 ^ 32" for x y
    using mod_add_left_eq [of "x + 2 ^ 31" "2 ^ 32" y] unfolding mod by (simp add: algebra_simps)
  then have l: "i32 (i32 x + y) = i32 (x + y)" for x y unfolding mod [of "i32 x + y"] mod [of "x + y"] by simp
  show "i32 (i32 x + y) = i32 (x + y)" by (rule l)
  show "i32 (x + i32 y) = i32 (x + y)" using l [of y x] by (simp add: add.commute)
qed

lemma i32_sum_list:
  assumes "\<And>x. x \<in> set xs \<Longrightarrow> i32 (f x) = i32 (g x)"
  shows "i32 (sum_list (map f xs)) = i32 (sum_list (map g xs))"
  using assms
proof (induction xs)
  case (Cons x xs)
  then have "i32 (i32 (f x) + i32 (sum_list (map f xs))) = i32 (i32 (g x) + i32 (sum_list (map g xs)))" by simp
  then show ?case by (simp add: i32_add)
qed simp

lemma compute_size: "i32 (ComputeUnknownFieldSize f) = i32 (int (length (SerializeUnknownFieldToArray f)))"
proof (induction f)
  case (UGroup n g)
  let ?a = "VarintSize32 (MakeTag n WIRETYPE_START_GROUP)" and ?b = "VarintSize32 (MakeTag n WIRETYPE_END_GROUP)"
  have "sum_list (map (\<lambda>f. int (length (SerializeUnknownFieldToArray f))) g) = int (length (concat (map SerializeUnknownFieldToArray g)))"
    by (induction g) auto
  then have "i32 (sum_list (map ComputeUnknownFieldSize g)) = i32 (int (length (concat (map SerializeUnknownFieldToArray g))))"
    using i32_sum_list [of g ComputeUnknownFieldSize "\<lambda>f. int (length (SerializeUnknownFieldToArray f))", OF UGroup] by simp
  then have "i32 ((?a + ?b) + i32 (sum_list (map ComputeUnknownFieldSize g))) =
      i32 ((?a + ?b) + i32 (int (length (concat (map SerializeUnknownFieldToArray g)))))" by simp
  moreover have "?a + x + ?b = (?a + ?b) + x" for x by simp
  ultimately have "i32 (ComputeUnknownFieldSize (UGroup n g)) = i32 (?a + ?b + int (length (concat (map SerializeUnknownFieldToArray g))))"
    by (simp only: ComputeUnknownFieldSize.simps i32_add)
  then show ?case by (simp add: WFL_WriteTagToArray_def WriteTagToArray_ok VarintSize32_ok add_ac)
qed (simp_all add: WriteInt64ToArray_def WriteFixed32ToArray_def WriteFixed64ToArray_def WFL_WriteBytesToArray_def
    WFL_WriteTagToArray_def WriteTagToArray_ok WriteVarint64ToArray_ok WriteVarint32ToArray_ok VarintSize32_ok VarintSize64_ok add.assoc)

text \<open>
  \<open>SkipMessage\<close> on the bytes of a set of unknown fields returns the same set, at a legitimate
  message end, with fuel for one tag per byte.
\<close>

lemma serialized_size: "ComputeUnknownFieldsSize fs = i32 (int (length (SerializeUnknownFieldsToArray fs)))"
proof -
  have "sum_list (map (\<lambda>f. int (length (SerializeUnknownFieldToArray f))) fs) = int (length (concat (map SerializeUnknownFieldToArray fs)))"
    by (induction fs) auto
  then show ?thesis
    using i32_sum_list [of fs ComputeUnknownFieldSize "\<lambda>f. int (length (SerializeUnknownFieldToArray f))", OF compute_size] by (simp add: ComputeUnknownFieldsSize_def SerializeUnknownFieldsToArray_def)
qed

lemma SkipMessage_back:
  assumes "list_all (field_ok 100) fs" and "stream_ok s" and "below_limit s" and "bytes_left s = SerializeUnknownFieldsToArray fs"
    and "i_recursion_depth s = 0" and "i_recursion_limit s = 100" and "length (bytes_left s) < fuel"
  shows "\<exists>s'. SkipMessage fuel s [] = Some (True, fs, s') \<and> ConsumedEntireMessage s'"
proof -
  have s: "bytes_left s = SerializeUnknownFieldsToArray fs @ []" using assms(4) by simp
  have d: "0 \<le> i_recursion_depth s" "i_recursion_depth s + int 100 \<le> i_recursion_limit s" "length (bytes_left s) < fuel"
    using assms(5-7) by simp_all
  have f: "f \<in> set fs \<Longrightarrow> field_ok 100 f" for f using assms(1) by (simp add: list_all_iff)
  obtain fuel' s1 where s1: "SkipMessage fuel s [] = SkipMessage fuel' s1 ([] @ fs)" "behind s s1 []" "length ([] :: u8 list) < fuel'"
    using skip_list [of fs 100, OF skip_field_back [OF f] field_tag_facts [OF f] assms(2) s d] by blast
  then have ok: "stream_ok s1" "bytes_left s1 = []" "below_limit s1" using assms(3) moved_limit by (auto simp: behind_def)
  from ReadTag_ok(1) [OF ok(1,2)] obtain s2 where "ReadTag s1 = Some (0, s2)" "i_legitimate_message_end s2" using ok(3) by blast
  then have "SkipMessage fuel' s1 fs = Some (True, fs, s2)"
    using s1(3) by (cases fuel') (simp_all add: SkipMessage.simps)
  then show ?thesis using s1(1) \<open>i_legitimate_message_end s2\<close> by (simp add: ConsumedEntireMessage_def)
qed

end
