(* ===== verification/StreamAgree.thy ===== *)
theory StreamAgree
  imports WireFormat
begin

text \<open>
  Two streams that have the same bytes left read the same values, whatever their buffers are. \<open>agree\<close>
  is the relation between such streams; every read takes agreeing streams to agreeing streams as long
  as it succeeds, and leaves them with the same end flag when it fails (a failed read of a varint may stop at different places).
\<close>

definition agree :: "CodedInputStream \<Rightarrow> CodedInputStream \<Rightarrow> bool" where
  "agree s t \<longleftrightarrow> stream_ok s \<and> stream_ok t \<and> bytes_left t = bytes_left s \<and> below_limit s \<and> below_limit t \<and>
     i_legitimate_message_end t = i_legitimate_message_end s \<and> i_recursion_depth t = i_recursion_depth s \<and>
     i_recursion_limit t = i_recursion_limit s"

definition same_end :: "CodedInputStream \<Rightarrow> CodedInputStream \<Rightarrow> bool" where
  "same_end s t \<longleftrightarrow> i_legitimate_message_end t = i_legitimate_message_end s"

definition agree_on :: "bool \<Rightarrow> CodedInputStream \<Rightarrow> CodedInputStream \<Rightarrow> bool" where
  "agree_on ok s t \<longleftrightarrow> same_end s t \<and> (ok \<longrightarrow> agree s t)"

lemma agree_ok: "agree s t \<Longrightarrow> stream_ok s" "agree s t \<Longrightarrow> stream_ok t"
  by (simp_all add: agree_def)

lemma agree_same_end: "agree s t \<Longrightarrow> same_end s t"
  by (simp add: agree_def same_end_def)

lemma agree_onD: "agree s t \<Longrightarrow> agree_on b s t"
  by (simp add: agree_on_def agree_same_end)

lemma agree_leaves: "agree s t \<Longrightarrow> leaves s s' r \<Longrightarrow> leaves t t' r \<Longrightarrow> agree s' t'"
  using moved_limit [of s s'] moved_limit [of t t'] moved_limits [of s s'] moved_limits [of t t']
  by (simp add: agree_def leaves_def)

lemma agree_failed: "agree s t \<Longrightarrow> leaves s s' r \<Longrightarrow> leaves t t' r' \<Longrightarrow> agree_on False s' t'"
  by (simp add: agree_def leaves_def agree_on_def same_end_def)

lemma agree_update [simp]:
  "agree (s\<lparr>i_last_tag := a\<rparr>) t = agree s t" "agree s (t\<lparr>i_last_tag := b\<rparr>) = agree s t"
proof -
  have "below_limit (s\<lparr>i_last_tag := a\<rparr>) = below_limit s" for s a by (rule moved_limit) simp
  then show "agree (s\<lparr>i_last_tag := a\<rparr>) t = agree s t" "agree s (t\<lparr>i_last_tag := b\<rparr>) = agree s t"
    by (simp_all add: agree_def)
qed

lemma agree_depth: "agree s t \<Longrightarrow> agree (s\<lparr>i_recursion_depth := d\<rparr>) (t\<lparr>i_recursion_depth := d\<rparr>)"
  using moved_limit [of s "s\<lparr>i_recursion_depth := d\<rparr>"] moved_limit [of t "t\<lparr>i_recursion_depth := d\<rparr>"] by (simp add: agree_def)

subsection \<open>Reads\<close>

definition reads_same :: "(CodedInputStream \<Rightarrow> ('v option \<times> CodedInputStream) option) \<Rightarrow> bool" where
  "reads_same f \<longleftrightarrow> (\<forall>s t. agree s t \<longrightarrow> (\<exists>v s' t'. f s = Some (v, s') \<and> f t = Some (v, t') \<and> agree_on (v \<noteq> None) s' t'))"

lemma reads_sameD: "reads_same f \<Longrightarrow> agree s t \<Longrightarrow> \<exists>v s' t'. f s = Some (v, s') \<and> f t = Some (v, t') \<and> agree_on (v \<noteq> None) s' t'"
  by (simp add: reads_same_def)

lemma reads_sameI:
  assumes "\<And>s. stream_ok s \<Longrightarrow> (case spec (bytes_left s) of
      Some (v, r) \<Rightarrow> \<exists>s'. f s = Some (Some v, s') \<and> leaves s s' r
    | None \<Rightarrow> \<exists>r s'. f s = Some (None, s') \<and> leaves s s' r)"
  shows "reads_same f"
  unfolding reads_same_def
proof (intro allI impI)
  fix s t assume a: "agree s t"
  then have bl: "bytes_left t = bytes_left s" by (simp add: agree_def)
  note s = assms [OF agree_ok(1) [OF a]] and t = assms [OF agree_ok(2) [OF a], unfolded bl]
  show "\<exists>v s' t'. f s = Some (v, s') \<and> f t = Some (v, t') \<and> agree_on (v \<noteq> None) s' t'"
  proof (cases "spec (bytes_left s)")
    case None
    then obtain r s' r' t' where "f s = Some (None, s')" "leaves s s' r" "f t = Some (None, t')" "leaves t t' r'" using s t by auto
    then show ?thesis using agree_failed [OF a] by auto
  next
    case (Some p)
    obtain v r where p: "p = (v, r)" by (cases p)
    then obtain s' t' where "f s = Some (Some v, s')" "leaves s s' r" "f t = Some (Some v, t')" "leaves t t' r" using s t Some by auto
    then show ?thesis using agree_leaves [OF a] agree_onD by auto
  qed
qed

lemma reads_same_map: "reads_same f \<Longrightarrow> reads_same (\<lambda>s. do { (v, s) \<leftarrow> f s; Some (map_option g v, s) })"
  unfolding reads_same_def by fastforce

lemma ReadVarint64_same: "reads_same ReadVarint64"
proof (rule reads_sameI [where spec = "\<lambda>bs. map_option (\<lambda>(v, r). (of_nat v, r)) (varint_take 10 bs)"])
  fix s assume "stream_ok s"
  then show "case map_option (\<lambda>(v, r). (of_nat v, r)) (varint_take 10 (bytes_left s)) of
      Some (v, r) \<Rightarrow> \<exists>s'. ReadVarint64 s = Some (Some v, s') \<and> leaves s s' r
    | None \<Rightarrow> \<exists>r s'. ReadVarint64 s = Some (None, s') \<and> leaves s s' r"
    using ReadVarint64_ok [of s] by (cases "varint_take 10 (bytes_left s)") auto
qed

lemma ReadVarint32_same: "reads_same ReadVarint32"
proof (rule reads_sameI [where spec = "\<lambda>bs. map_option (\<lambda>(v, r). (of_nat v, r)) (varint_take 10 bs)"])
  fix s assume "stream_ok s"
  then show "case map_option (\<lambda>(v, r). (of_nat v, r)) (varint_take 10 (bytes_left s)) of
      Some (v, r) \<Rightarrow> \<exists>s'. ReadVarint32 s = Some (Some v, s') \<and> leaves s s' r
    | None \<Rightarrow> \<exists>r s'. ReadVarint32 s = Some (None, s') \<and> leaves s s' r"
    using ReadVarint32_ok [of s] by (cases "varint_take 10 (bytes_left s)") auto
qed

lemma ReadLittleEndian32_same: "reads_same ReadLittleEndian32"
proof (rule reads_sameI [where spec = "\<lambda>bs. if 4 \<le> length bs then Some (le32 (take 4 bs), drop 4 bs) else None"])
  fix s assume "stream_ok s"
  then show "case if 4 \<le> length (bytes_left s) then Some (le32 (take 4 (bytes_left s)), drop 4 (bytes_left s)) else None of
      Some (v, r) \<Rightarrow> \<exists>s'. ReadLittleEndian32 s = Some (Some v, s') \<and> leaves s s' r
    | None \<Rightarrow> \<exists>r s'. ReadLittleEndian32 s = Some (None, s') \<and> leaves s s' r"
    using ReadLittleEndian32_ok [of s] by auto
qed

lemma ReadLittleEndian64_same: "reads_same ReadLittleEndian64"
proof (rule reads_sameI [where spec = "\<lambda>bs. if 8 \<le> length bs then Some (le64 (take 8 bs), drop 8 bs) else None"])
  fix s assume "stream_ok s"
  then show "case if 8 \<le> length (bytes_left s) then Some (le64 (take 8 (bytes_left s)), drop 8 (bytes_left s)) else None of
      Some (v, r) \<Rightarrow> \<exists>s'. ReadLittleEndian64 s = Some (Some v, s') \<and> leaves s s' r
    | None \<Rightarrow> \<exists>r s'. ReadLittleEndian64 s = Some (None, s') \<and> leaves s s' r"
    using ReadLittleEndian64_ok [of s] by auto
qed

lemmas reads_same_rules = ReadVarint64_same ReadVarint32_same ReadLittleEndian32_same ReadLittleEndian64_same

lemma both_results:
  "x = Some (b, u, s') \<Longrightarrow> y = Some (b, u, t') \<Longrightarrow> agree_on b s' t' \<Longrightarrow>
    \<exists>b u s' t'. x = Some (b, u, s') \<and> y = Some (b, u, t') \<and> agree_on b s' t'"
  by blast

lemma CIS_ReadString_same:
  assumes "agree s t"
  shows "\<exists>b str' s' t'. CIS_ReadString str n s = Some (b, str', s') \<and> CIS_ReadString str n t = Some (b, str', t') \<and> agree_on b s' t'"
proof -
  have ok: "stream_ok s" "stream_ok t" and bl: "bytes_left t = bytes_left s" using assms by (simp_all add: agree_def)
  consider "n < 0" | "0 \<le> n" "nat n \<le> length (bytes_left s)" | "0 \<le> n" "length (bytes_left s) < nat n" by linarith
  then show ?thesis
  proof cases
    case 1
    show ?thesis by (rule both_results [OF CIS_ReadString_ok(3) [OF ok(1) 1] CIS_ReadString_ok(3) [OF ok(2) 1] agree_onD [OF assms]])
  next
    case 2
    have t2: "nat n \<le> length (bytes_left t)" using 2 bl by simp
    obtain s' t' where "CIS_ReadString str n s = Some (True, take (nat n) (bytes_left s), s')" "leaves s s' (drop (nat n) (bytes_left s))"
      "CIS_ReadString str n t = Some (True, take (nat n) (bytes_left s), t')" "leaves t t' (drop (nat n) (bytes_left s))"
      using CIS_ReadString_ok(1) [OF ok(1) 2(2), of str] CIS_ReadString_ok(1) [OF ok(2) t2, of str] 2(1) bl by auto
    then show ?thesis using agree_onD agree_leaves [OF assms] by blast
  next
    case 3
    have t3: "length (bytes_left t) < nat n" using 3 bl by simp
    obtain s' t' where "CIS_ReadString str n s = Some (False, bytes_left s, s')" "leaves s s' []"
      "CIS_ReadString str n t = Some (False, bytes_left s, t')" "leaves t t' []"
      using CIS_ReadString_ok(2) [OF ok(1) 3(2), of str] CIS_ReadString_ok(2) [OF ok(2) t3, of str] 3(1) bl by auto
    then show ?thesis using agree_failed [OF assms] by blast
  qed
qed

lemma WFL_ReadString_same:
  assumes "agree s t"
  shows "\<exists>b str' s' t'. WFL_ReadString str s = Some (b, str', s') \<and> WFL_ReadString str t = Some (b, str', t') \<and> agree_on b s' t'"
proof -
  obtain v s1 t1 where v: "ReadVarint32 s = Some (v, s1)" "ReadVarint32 t = Some (v, t1)" "agree_on (v \<noteq> None) s1 t1"
    using reads_sameD [OF ReadVarint32_same assms] by blast
  show ?thesis
  proof (cases v)
    case None
    then have "WFL_ReadString str s = Some (False, str, s1)" "WFL_ReadString str t = Some (False, str, t1)" "agree_on False s1 t1"
      using v by (simp_all add: WFL_ReadString_def)
    then show ?thesis by (rule both_results)
  next
    case (Some n)
    then have "agree s1 t1" using v(3) by (simp add: agree_on_def)
    from CIS_ReadString_same [OF this, of str "sint n"] show ?thesis
      using v Some by (auto simp: WFL_ReadString_def InternalReadString_eq [symmetric])
  qed
qed

text \<open>Reading a tag; the tag 0 ends the reading.\<close>

lemma ReadTag_same:
  assumes "agree s t"
  shows "\<exists>tag s' t'. ReadTag s = Some (tag, s') \<and> ReadTag t = Some (tag, t') \<and> i_last_tag s' = tag \<and> i_last_tag t' = tag \<and>
    agree_on (tag \<noteq> 0) s' t'"
proof -
  have ok: "stream_ok s" "stream_ok t" "below_limit s" "below_limit t" and bl: "bytes_left t = bytes_left s"
    and fl: "i_legitimate_message_end t = i_legitimate_message_end s"
    using assms by (simp_all add: agree_def)
  consider v r where "varint_take 10 (bytes_left s) = Some (v, r)" | "varint_take 10 (bytes_left s) = None" "bytes_left s \<noteq> []"
    | "bytes_left s = []" by (cases "varint_take 10 (bytes_left s)") auto
  then show ?thesis
  proof cases
    case 1
    have one: "\<exists>s'. ReadTag s = Some (of_nat v, s') \<and> after_tag s (of_nat v) s' r \<and> i_legitimate_message_end s' = i_legitimate_message_end s"
      using ReadTag_ok(2) [OF ok(1) 1] .
    have "varint_take 10 (bytes_left t) = Some (v, r)" using 1 bl by simp
    from ReadTag_ok(2) [OF ok(2) this] one obtain s' t' where
      st: "ReadTag s = Some (of_nat v, s')" "after_tag s (of_nat v) s' r" "i_legitimate_message_end s' = i_legitimate_message_end s"
        "ReadTag t = Some (of_nat v, t')" "after_tag t (of_nat v) t' r" "i_legitimate_message_end t' = i_legitimate_message_end t"
      by blast
    have "agree s' t'"
      using assms st moved_limit [of s s'] moved_limit [of t t'] moved_limits [of s s'] moved_limits [of t t']
      by (simp add: agree_def after_tag_def)
    then show ?thesis using st agree_onD by (auto simp: after_tag_def)
  next
    case 2
    then have "varint_take 10 (bytes_left t) = None" "bytes_left t \<noteq> []" using bl by simp_all
    then show ?thesis using ReadTag_ok(3) [OF ok(1) 2(2,1)] ReadTag_ok(3) [OF ok(2)] fl
      by (fastforce simp: agree_on_def same_end_def after_tag_def)
  next
    case 3
    then have "bytes_left t = []" using bl by simp
    then show ?thesis using ReadTag_ok(1) [OF ok(1) 3] ReadTag_ok(1) [OF ok(2)] ok(3,4)
      by (fastforce simp: agree_on_def same_end_def after_tag_def)
  qed
qed

subsection \<open>Skipped fields\<close>

definition skips_same :: "nat \<Rightarrow> bool" where
  "skips_same fuel \<longleftrightarrow> (\<forall>s t uf. agree s t \<longrightarrow> length (bytes_left s) < fuel \<longrightarrow>
     (\<exists>b uf' s' t'. SkipMessage fuel s uf = Some (b, uf', s') \<and> SkipMessage fuel t uf = Some (b, uf', t') \<and>
        same_end s' t' \<and> (b \<longrightarrow> i_last_tag t' = i_last_tag s' \<and> (i_last_tag s' \<noteq> 0 \<longrightarrow> agree s' t'))))"

lemma field_same_read:
  assumes "reads_same f" and "agree s t"
  shows "\<exists>b uf' s' t'. do { (v, s) \<leftarrow> f s; case v of None \<Rightarrow> Some (False, uf, s) | Some v \<Rightarrow> Some (True, uf @ [g v], s) } = Some (b, uf', s') \<and>
    do { (v, s) \<leftarrow> f t; case v of None \<Rightarrow> Some (False, uf, s) | Some v \<Rightarrow> Some (True, uf @ [g v], s) } = Some (b, uf', t') \<and> agree_on b s' t'"
proof -
  obtain v s' t' where v: "f s = Some (v, s')" "f t = Some (v, t')" "agree_on (v \<noteq> None) s' t'"
    using reads_sameD [OF assms] by blast
  then show ?thesis by (cases v) auto
qed

lemma end_group_tag: "MakeTag n WIRETYPE_END_GROUP \<noteq> 0"
proof -
  have "bit (MakeTag n WIRETYPE_END_GROUP) 2" by (simp add: MakeTag_def wiretype_defs bit_simps kTagTypeBits_def)
  then show ?thesis by auto
qed

lemma SkipField_same:
  assumes a: "agree s t" and msg: "skips_same fuel" and len: "length (bytes_left s) < fuel"
  shows "\<exists>b uf' s' t'. SkipField fuel tag s uf = Some (b, uf', s') \<and> SkipField fuel tag t uf = Some (b, uf', t') \<and> agree_on b s' t'"
proof -
  let ?w = "GetTagWireType tag"
  consider "?w = 0" | "?w = 1" | "?w = 2" | "?w = 3" | "?w = 4" | "?w = 5" | "?w \<notin> {0, 1, 2, 3, 4, 5}" by auto
  then show ?thesis
  proof cases
    case 1
    then show ?thesis using field_same_read [OF ReadVarint64_same a, of uf "UVarint (GetTagFieldNumber tag)"]
      by (simp add: SkipField.simps Let_def wiretype_defs)
  next
    case 2
    then show ?thesis using field_same_read [OF ReadLittleEndian64_same a, of uf "UFixed64 (GetTagFieldNumber tag)"]
      by (simp add: SkipField.simps Let_def wiretype_defs)
  next
    case 3
    obtain v s1 t1 where v: "ReadVarint32 s = Some (v, s1)" "ReadVarint32 t = Some (v, t1)" "agree_on (v \<noteq> None) s1 t1"
      using reads_sameD [OF ReadVarint32_same a] by blast
    show ?thesis
    proof (cases v)
      case None
      then have "SkipField fuel tag s uf = Some (False, uf, s1)" "SkipField fuel tag t uf = Some (False, uf, t1)" "agree_on False s1 t1"
        using 3 v by (simp_all add: SkipField.simps Let_def wiretype_defs)
      then show ?thesis by (rule both_results)
    next
      case (Some n)
      then have "agree s1 t1" using v(3) by (simp add: agree_on_def)
      from CIS_ReadString_same [OF this, of "[]" "sint n"] show ?thesis
        using 3 v Some by (auto simp: SkipField.simps Let_def wiretype_defs)
    qed
  next
    case 4
    define s1 where "s1 = s\<lparr>i_recursion_depth := i_recursion_depth s + 1\<rparr>"
    define t1 where "t1 = t\<lparr>i_recursion_depth := i_recursion_depth t + 1\<rparr>"
    have d: "i_recursion_depth t = i_recursion_depth s" "i_recursion_limit t = i_recursion_limit s" using a by (simp_all add: agree_def)
    have a1: "agree s1 t1" using agree_depth [OF a] d(1) by (simp add: s1_def t1_def)
    have "length (bytes_left s1) < fuel" using len by (simp add: s1_def)
    then obtain b g s2 t2 where g: "SkipMessage fuel s1 [] = Some (b, g, s2)" "SkipMessage fuel t1 [] = Some (b, g, t2)" "same_end s2 t2"
      "b \<longrightarrow> i_last_tag t2 = i_last_tag s2 \<and> (i_last_tag s2 \<noteq> 0 \<longrightarrow> agree s2 t2)" using msg a1 unfolding skips_same_def by blast
    have inc: "IncrementRecursionDepth s = (i_recursion_depth s1 \<le> i_recursion_limit s, s1)"
      "IncrementRecursionDepth t = (i_recursion_depth s1 \<le> i_recursion_limit s, t1)"
      using d by (simp_all add: IncrementRecursionDepth_def s1_def t1_def)
    have dec: "agree (DecrementRecursionDepth s2) (DecrementRecursionDepth t2)" if "agree s2 t2"
    proof -
      have "i_recursion_depth t2 = i_recursion_depth s2" using that by (simp add: agree_def)
      then show ?thesis using agree_depth [OF that, of "i_recursion_depth s2 - 1"] that by (simp add: DecrementRecursionDepth_def)
    qed
    have lt: "LastTagWas x (DecrementRecursionDepth u) = (i_last_tag u = x)" for x u by (simp add: LastTagWas_def DecrementRecursionDepth_def)
    have se: "same_end (DecrementRecursionDepth s2) (DecrementRecursionDepth t2)" using g(3) by (simp add: same_end_def DecrementRecursionDepth_def)
    let ?e = "MakeTag (GetTagFieldNumber tag) WIRETYPE_END_GROUP"
    have F: "SkipField fuel tag s uf = (if i_recursion_depth s1 \<le> i_recursion_limit s
        then if b then Some (i_last_tag s2 = ?e, uf @ [UGroup (GetTagFieldNumber tag) g], DecrementRecursionDepth s2)
          else Some (False, uf @ [UGroup (GetTagFieldNumber tag) g], s2) else Some (False, uf, s1))"
      using 4 g(1) inc by (simp add: SkipField.simps Let_def wiretype_defs lt)
    have G: "SkipField fuel tag t uf = (if i_recursion_depth s1 \<le> i_recursion_limit s
        then if b then Some (i_last_tag t2 = ?e, uf @ [UGroup (GetTagFieldNumber tag) g], DecrementRecursionDepth t2)
          else Some (False, uf @ [UGroup (GetTagFieldNumber tag) g], t2) else Some (False, uf, t1))"
      using 4 g(2) inc by (simp add: SkipField.simps Let_def wiretype_defs lt)
    show ?thesis
      unfolding F G using g(3,4) agree_same_end [OF a1] se dec end_group_tag [of "GetTagFieldNumber tag"]
      by (auto simp: agree_on_def)
  next
    case 6
    then show ?thesis using field_same_read [OF ReadLittleEndian32_same a, of uf "UFixed32 (GetTagFieldNumber tag)"]
      by (simp add: SkipField.simps Let_def wiretype_defs)
  qed (use agree_same_end [OF a] in \<open>auto simp: SkipField.simps Let_def wiretype_defs agree_on_def\<close>)
qed

lemma SkipMessage_same: "skips_same fuel"
proof (induction fuel)
  case 0
  then show ?case by (simp add: skips_same_def)
next
  case (Suc fuel)
  show ?case
    unfolding skips_same_def
  proof (intro allI impI)
    fix s t uf assume a: "agree s t" and len: "length (bytes_left s) < Suc fuel"
    obtain tag s1 t1 where t: "ReadTag s = Some (tag, s1)" "ReadTag t = Some (tag, t1)" "i_last_tag s1 = tag" "i_last_tag t1 = tag"
      "agree_on (tag \<noteq> 0) s1 t1" using ReadTag_same [OF a] by blast
    have lt: "tag \<noteq> 0 \<longrightarrow> length (bytes_left s1) < length (bytes_left s)" using ReadTag_forth [OF agree_ok(1) [OF a]] t(1) by auto
    show "\<exists>b uf' s' t'. SkipMessage (Suc fuel) s uf = Some (b, uf', s') \<and> SkipMessage (Suc fuel) t uf = Some (b, uf', t') \<and>
        same_end s' t' \<and> (b \<longrightarrow> i_last_tag t' = i_last_tag s' \<and> (i_last_tag s' \<noteq> 0 \<longrightarrow> agree s' t'))"
    proof (cases "tag = 0 \<or> GetTagWireType tag = WIRETYPE_END_GROUP")
      case True
      then show ?thesis using t by (auto simp: SkipMessage.simps agree_on_def)
    next
      case False
      then have a1: "agree s1 t1" and l1: "length (bytes_left s1) < fuel" using t(5) lt len by (auto simp: agree_on_def)
      obtain b uf1 s2 t2 where f: "SkipField fuel tag s1 uf = Some (b, uf1, s2)" "SkipField fuel tag t1 uf = Some (b, uf1, t2)" "agree_on b s2 t2"
        using SkipField_same [OF a1 Suc.IH l1] by blast
      show ?thesis
      proof (cases b)
        case True
        have "forth s1 s2" using skip_total [OF agree_ok(1) [OF a1] _ _ l1, of tag uf] f(1) by auto
        then have "agree s2 t2" "length (bytes_left s2) < fuel" using f(3) True l1 by (auto simp: agree_on_def forth_def)
        then show ?thesis using Suc.IH t(1,2) False f(1,2) True unfolding skips_same_def by (simp add: SkipMessage.simps)
      next
        case no: False
          then show ?thesis using t(1,2) False f by (auto simp: SkipMessage.simps agree_on_def intro: exI [of _ False])
      qed
    qed
  qed
qed

end
