(* ===== verification/UnknownFields.thy ===== *)
theory UnknownFields
  imports StreamAgree
begin

text \<open>
  \<open>UnknownFieldSet\<close> of \<^verbatim>\<open>unknown_field_set.h\<close> and \<^verbatim>\<open>unknown_field_set.cc\<close>: the fields of a
  message that its class does not know, in the order they were added. A set is the list of its fields; a
  null \<open>fields_\<close> is the empty list for every operation that treats the two alike, and \<open>None\<close> in
  \<open>DeleteSubrange\<close>, which does not. An index outside the vector is a fault, \<open>None\<close>. The loops that
  delete fields move the others down in place; they are proved equal to what they are for.
\<close>

subsection \<open>The fields of a set\<close>

text \<open>\<open>number_\<close> is a bit field of 29 bits.\<close>

definition field_number :: "int \<Rightarrow> u32" where
  "field_number number = of_int number AND 0x1FFFFFFF"

fun number_of :: "unknown_field \<Rightarrow> int" where
  "number_of (UVarint n v) = uint n"
| "number_of (UFixed32 n v) = uint n"
| "number_of (UFixed64 n v) = uint n"
| "number_of (ULengthDelimited n str) = uint n"
| "number_of (UGroup n grp) = uint n"

definition AddVarint :: "int \<Rightarrow> u64 \<Rightarrow> unknown_field list \<Rightarrow> unknown_field list" where
  "AddVarint number v fs = fs @ [UVarint (field_number number) v]"

definition AddFixed32 :: "int \<Rightarrow> u32 \<Rightarrow> unknown_field list \<Rightarrow> unknown_field list" where
  "AddFixed32 number v fs = fs @ [UFixed32 (field_number number) v]"

definition AddFixed64 :: "int \<Rightarrow> u64 \<Rightarrow> unknown_field list \<Rightarrow> unknown_field list" where
  "AddFixed64 number v fs = fs @ [UFixed64 (field_number number) v]"

text \<open>\<open>AddLengthDelimited\<close> and \<open>AddGroup\<close> return a pointer to the new value, which the caller then fills.\<close>

definition AddLengthDelimited :: "int \<Rightarrow> u8 list \<Rightarrow> unknown_field list \<Rightarrow> unknown_field list" where
  "AddLengthDelimited number str fs = fs @ [ULengthDelimited (field_number number) str]"

definition AddGroup :: "int \<Rightarrow> unknown_field list \<Rightarrow> unknown_field list \<Rightarrow> unknown_field list" where
  "AddGroup number grp fs = fs @ [UGroup (field_number number) grp]"

fun DeepCopy :: "unknown_field \<Rightarrow> unknown_field" where
  "DeepCopy (UGroup n grp) = UGroup n (foldl (\<lambda>fs f. fs @ [f]) [] (map DeepCopy grp))"
| "DeepCopy f = f"

definition AddField :: "unknown_field \<Rightarrow> unknown_field list \<Rightarrow> unknown_field list" where
  "AddField field fs = fs @ [DeepCopy field]"

definition UFS_MergeFrom :: "unknown_field list \<Rightarrow> unknown_field list \<Rightarrow> unknown_field list" where
  "UFS_MergeFrom fs other = foldl (\<lambda>fs f. AddField f fs) fs other"

definition UFS_Clear :: "unknown_field list \<Rightarrow> unknown_field list" where
  "UFS_Clear fs = []"

definition UFS_Swap :: "unknown_field list \<Rightarrow> unknown_field list \<Rightarrow> unknown_field list \<times> unknown_field list" where
  "UFS_Swap fs x = (x, fs)"

definition field_count :: "unknown_field list \<Rightarrow> int" where
  "field_count fs = int (length fs)"

definition field_at :: "int \<Rightarrow> unknown_field list \<Rightarrow> unknown_field option" where
  "field_at index fs = (if 0 \<le> index \<and> index < int (length fs) then Some (fs ! nat index) else None)"

definition put_field :: "int \<Rightarrow> unknown_field \<Rightarrow> unknown_field list \<Rightarrow> unknown_field list option" where
  "put_field index f fs = (if 0 \<le> index \<and> index < int (length fs) then Some (fs[nat index := f]) else None)"

subsection \<open>Deleting\<close>

text \<open>
  The three loops of \<open>DeleteSubrange\<close>: free, slide down, pop. The second compares its \<open>int\<close> with an
  unsigned size, so a negative index is not below it.
\<close>

fun free_fields :: "nat \<Rightarrow> int \<Rightarrow> unknown_field list \<Rightarrow> unit option" where
  "free_fields 0 i fs = Some ()"
| "free_fields (Suc n) i fs = do { f \<leftarrow> field_at i fs; free_fields n (i + 1) fs }"

lemma put_field_length: "put_field i f fs = Some fs' \<Longrightarrow> length fs' = length fs"
  by (auto simp: put_field_def split: if_splits)

function slide_fields :: "int \<Rightarrow> int \<Rightarrow> unknown_field list \<Rightarrow> unknown_field list option" where
  "slide_fields num i fs =
     (if 0 \<le> i \<and> i < int (length fs) then do {
        f \<leftarrow> field_at i fs;
        fs \<leftarrow> put_field (i - num) f fs;
        slide_fields num (i + 1) fs }
      else Some fs)"
  by pat_completeness auto

termination
  by (relation "measure (\<lambda>(num, i, fs). nat (int (length fs) - i))") (auto dest: put_field_length)

declare slide_fields.simps [simp del]

fun pop_fields :: "nat \<Rightarrow> unknown_field list \<Rightarrow> unknown_field list option" where
  "pop_fields 0 fs = Some fs"
| "pop_fields (Suc n) fs = (if fs = [] then None else pop_fields n (butlast fs))"

text \<open>The argument is \<open>fields_\<close>, which is asserted not to be null.\<close>

definition DeleteSubrange :: "int \<Rightarrow> int \<Rightarrow> unknown_field list option \<Rightarrow> unknown_field list option" where
  "DeleteSubrange start num vec = do {
     fs \<leftarrow> vec;
     u \<leftarrow> free_fields (nat num) start fs;
     fs \<leftarrow> slide_fields num (start + num) fs;
     pop_fields (nat num) fs }"

text \<open>\<open>left\<close> counts the fields that stay; \<open>resize\<close> cuts the rest off.\<close>

function delete_loop :: "int \<Rightarrow> nat \<Rightarrow> nat \<Rightarrow> unknown_field list \<Rightarrow> nat \<times> unknown_field list" where
  "delete_loop number i left fs =
     (if i < length fs then
        if number_of (fs ! i) = number then delete_loop number (i + 1) left fs
        else delete_loop number (i + 1) (left + 1) (if i \<noteq> left then fs[left := fs ! i] else fs)
      else (left, fs))"
  by pat_completeness auto

termination
  by (relation "measure (\<lambda>(number, i, left, fs). length fs - i)") auto

declare delete_loop.simps [simp del]

definition DeleteByNumber :: "int \<Rightarrow> unknown_field list \<Rightarrow> unknown_field list" where
  "DeleteByNumber number fs = (case delete_loop number 0 0 fs of (left, fs) \<Rightarrow> take left fs)"

lemma DeepCopy_same: "DeepCopy f = f"
proof (induction f)
  case (UGroup n grp)
  have "foldl (\<lambda>fs f. fs @ [f]) as bs = as @ bs" for as bs :: "unknown_field list"
    by (induction bs arbitrary: as) simp_all
  moreover have "map DeepCopy grp = grp" using UGroup by (simp add: map_idI)
  ultimately show ?case by simp
qed simp_all

lemma UFS_MergeFrom_append: "UFS_MergeFrom fs other = fs @ other"
  unfolding UFS_MergeFrom_def by (induction other arbitrary: fs) (simp_all add: AddField_def DeepCopy_same)

lemma slide_fields_ok:
  assumes "num \<le> i" and "0 \<le> num" and "i \<le> length fs"
  shows "slide_fields (int num) (int i) fs = Some (take (i - num) fs @ drop i fs @ drop (length fs - num) fs)"
  using assms
proof (induction "length fs - i" arbitrary: i fs)
  case 0
  then have "i = length fs" by simp
  then show ?case by (subst slide_fields.simps) simp
next
  case (Suc k)
  then have i: "i < length fs" by simp
  let ?fs = "fs[i - num := fs ! i]"
  have step: "slide_fields (int num) (int i) fs = slide_fields (int num) (int (i + 1)) ?fs"
    using i Suc.prems(1)
    by (subst slide_fields.simps) (simp add: field_at_def put_field_def nat_diff_distrib add.commute del: of_nat_diff)
  have "slide_fields (int num) (int (i + 1)) ?fs = Some (take (i + 1 - num) ?fs @ drop (i + 1) ?fs @ drop (length ?fs - num) ?fs)"
    using Suc.hyps(2) Suc.prems i by (intro Suc.hyps(1)) simp_all
  moreover have "take (i + 1 - num) ?fs = take (i - num) fs @ [fs ! i]"
    using i Suc.prems(1) by (simp add: Suc_diff_le take_Suc_conv_app_nth)
  moreover have "drop (i + 1) ?fs = drop (i + 1) fs" using i by (simp add: drop_update_cancel)
  moreover have "drop (length ?fs - num) ?fs = drop (length fs - num) fs" using i Suc.prems(1) by (simp add: drop_update_cancel)
  moreover have "drop i fs = fs ! i # drop (i + 1) fs" using i by (simp add: Cons_nth_drop_Suc)
  ultimately show ?case unfolding step by simp
qed

lemma pop_fields_ok: "n \<le> length fs \<Longrightarrow> pop_fields n fs = Some (take (length fs - n) fs)"
proof (induction n arbitrary: fs)
  case (Suc n)
  then have "fs \<noteq> []" "n \<le> length (butlast fs)" "length fs - Suc n < length fs" by auto
  then show ?case using Suc.IH [of "butlast fs"] take_butlast [of "length fs - Suc n" fs] by simp
qed simp

lemma free_fields_ok: "0 \<le> i \<Longrightarrow> i + int n \<le> int (length fs) \<Longrightarrow> free_fields n i fs = Some ()"
  by (induction n arbitrary: i) (simp_all add: field_at_def)

lemma free_fields_bad: "0 < n \<Longrightarrow> i < 0 \<or> int (length fs) < i + int n \<Longrightarrow> free_fields n i fs = None"
proof (induction n arbitrary: i)
  case (Suc n)
  show ?case
  proof (cases "0 \<le> i \<and> i < int (length fs)")
    case True
    then have "0 < n" "int (length fs) < i + 1 + int n" using Suc.prems(2) by auto
    then have "free_fields n (i + 1) fs = None" using Suc.IH [of "i + 1"] by simp
    then show ?thesis using True by (simp add: field_at_def)
  qed (auto simp: field_at_def)
qed simp

lemma DeleteSubrange_ok:
  assumes "start + num \<le> length fs"
  shows "DeleteSubrange (int start) (int num) (Some fs) = Some (take start fs @ drop (start + num) fs)"
proof -
  have "free_fields num (int start) fs = Some ()" using assms by (simp add: free_fields_ok)
  moreover have "slide_fields (int num) (int start + int num) fs =
      Some (take start fs @ drop (start + num) fs @ drop (length fs - num) fs)"
    using slide_fields_ok [of num "start + num" fs] assms by simp
  moreover have "take (length fs - num) (take start fs @ drop (start + num) fs @ drop (length fs - num) fs) =
      take start fs @ drop (start + num) fs" using assms by simp
  ultimately show ?thesis
    using pop_fields_ok [of num "take start fs @ drop (start + num) fs @ drop (length fs - num) fs"] assms
    by (simp add: DeleteSubrange_def)
qed

lemma DeleteSubrange_bad:
  assumes "0 < num" and "start < 0 \<or> int (length fs) < start + num"
  shows "DeleteSubrange start num (Some fs) = None"
  using free_fields_bad [of "nat num" start fs] assms by (simp add: DeleteSubrange_def)

lemma delete_loop_ok:
  assumes "left \<le> i" and "i \<le> length fs"
  shows "(case delete_loop number i left fs of (left, fs) \<Rightarrow> take left fs) =
    take left fs @ filter (\<lambda>f. number_of f \<noteq> number) (drop i fs)"
  using assms
proof (induction number i left fs rule: delete_loop.induct)
  case (1 number i left fs)
  show ?case
  proof (cases "i < length fs")
    case False
    then show ?thesis by (subst delete_loop.simps) simp
  next
    case True
    then have d: "drop i fs = fs ! i # drop (i + 1) fs" by (simp add: Cons_nth_drop_Suc)
    show ?thesis
    proof (cases "number_of (fs ! i) = number")
      case same: True
      then show ?thesis using 1(1) [OF True same] True 1(3) d by (subst delete_loop.simps) simp
    next
      case False
      let ?fs = "if i \<noteq> left then fs[left := fs ! i] else fs"
      have "take (left + 1) ?fs = take left fs @ [fs ! i]"
        using True 1(3) by (auto simp: take_Suc_conv_app_nth)
      moreover have "drop (i + 1) ?fs = drop (i + 1) fs" using 1(3) by (simp add: drop_update_cancel)
      ultimately show ?thesis using 1(2) [OF True False] True False 1(3) d by (subst delete_loop.simps) simp
    qed
  qed
qed

lemma DeleteByNumber_ok: "DeleteByNumber number fs = filter (\<lambda>f. number_of f \<noteq> number) fs"
  using delete_loop_ok [of 0 0 fs number] by (simp add: DeleteByNumber_def)

subsection \<open>Parsing a set\<close>

definition UFS_MergeFromCodedStream :: "unknown_field list \<Rightarrow> CodedInputStream \<Rightarrow> (bool \<times> unknown_field list \<times> CodedInputStream) option" where
  "UFS_MergeFromCodedStream fs input = do {
     (ok, other, input) \<leftarrow> SkipMessage (Suc (length (i_mem input))) input [];
     if ok \<and> ConsumedEntireMessage input then Some (True, UFS_MergeFrom fs other, input) else Some (False, fs, input) }"

definition UFS_ParseFromCodedStream :: "unknown_field list \<Rightarrow> CodedInputStream \<Rightarrow> (bool \<times> unknown_field list \<times> CodedInputStream) option" where
  "UFS_ParseFromCodedStream fs input = UFS_MergeFromCodedStream (UFS_Clear fs) input"

definition UFS_ParseFromZeroCopyStream :: "unknown_field list \<Rightarrow> u8 list \<Rightarrow> ArrayInputStream \<Rightarrow> (bool \<times> unknown_field list \<times> ArrayInputStream option) option" where
  "UFS_ParseFromZeroCopyStream fs mem input = do {
     coded_input \<leftarrow> CodedInputStream_ctor_input mem input;
     (ok, fs, coded_input) \<leftarrow> UFS_ParseFromCodedStream fs coded_input;
     input \<leftarrow> CodedInputStream_dtor coded_input;
     Some (ok \<and> ConsumedEntireMessage coded_input, fs, input) }"

definition UFS_ParseFromArray :: "unknown_field list \<Rightarrow> u8 list \<Rightarrow> int \<Rightarrow> int \<Rightarrow> (bool \<times> unknown_field list) option" where
  "UFS_ParseFromArray fs mem data sz = do {
     (ok, fs, input) \<leftarrow> UFS_ParseFromZeroCopyStream fs mem (ArrayInputStream_ctor data sz (- 1));
     Some (ok, fs) }"

definition UFS_ParseFromString :: "unknown_field list \<Rightarrow> u8 list \<Rightarrow> (bool \<times> unknown_field list) option" where
  "UFS_ParseFromString fs data = UFS_ParseFromArray fs data 0 (int (length data))"

text \<open>The stream \<open>ParseFromZeroCopyStream\<close> reads from, before its first byte.\<close>

lemma fresh_blocks:
  assumes "0 \<le> data" and "0 \<le> n" and "data + n \<le> int (length mem)" and "n < kDefaultTotalBytesLimit"
  obtains s where "CodedInputStream_ctor_input mem (ArrayInputStream_ctor data n block_size) = Some s" "stream_ok s" "below_limit s" "i_mem s = mem"
    "bytes_left s = take (nat n) (drop (nat data) mem)" "i_recursion_depth s = 0" "i_recursion_limit s = 100" "\<not> i_legitimate_message_end s"
    "i_input s \<noteq> None" "length (bytes_left s) < Suc (length mem)"
proof -
  let ?a = "ArrayInputStream_ctor data n block_size"
  have n31: "n \<le> 2147483647" using assms(4) by (simp add: kDefaultTotalBytesLimit_def)
  have a: "array_input_ok mem ?a" "ai_position ?a = 0" "ai_size ?a = n" "ai_data ?a = data"
    using ArrayInputStream_ctor_ok [OF assms(1-3) n31] by (simp_all add: ArrayInputStream_ctor_def)
  show ?thesis using CodedInputStream_ctor_input_ok [OF a(1,2)] assms(4) a(3,4) that by fastforce
qed

text \<open>A stream that has been parsed gives its input stream back.\<close>

lemma dtor_forth:
  assumes "forth s s'" and "i_input s \<noteq> None"
  shows "\<exists>input. CodedInputStream_dtor s' = Some (Some input) \<and> array_input_ok (i_mem s) input"
proof -
  have ok: "stream_ok s'" and fr: "frame s' = frame s" using assms(1) by (simp_all add: forth_def moved_def)
  obtain a where "i_input s' = Some a" using fr assms(2) by (auto simp: frame_def)
  then show ?thesis using CodedInputStream_dtor_ok [OF ok] fr by (auto simp: frame_def)
qed

text \<open>Blocks of any size give what \<open>SkipMessage\<close> makes of the array; a set that does not parse is left empty.\<close>

lemma UFS_Parse_flat:
  assumes "0 \<le> data" and "0 \<le> n" and "data + n \<le> int (length mem)" and "n < kDefaultTotalBytesLimit"
    and "SkipMessage (Suc (length mem)) (CodedInputStream_ctor mem data n) [] = Some (ok, uf, t')"
  defines "b \<equiv> ok \<and> ConsumedEntireMessage t'"
  shows "\<exists>input. UFS_ParseFromZeroCopyStream fs mem (ArrayInputStream_ctor data n block_size) = Some (b, if b then uf else [], Some input)"
proof (rule fresh_blocks [OF assms(1-4), of block_size])
  let ?t = "CodedInputStream_ctor mem data n"
  fix s assume s: "CodedInputStream_ctor_input mem (ArrayInputStream_ctor data n block_size) = Some s" "stream_ok s" "below_limit s" "i_mem s = mem"
    "bytes_left s = take (nat n) (drop (nat data) mem)" "i_recursion_depth s = 0" "i_recursion_limit s = 100" "\<not> i_legitimate_message_end s"
    "i_input s \<noteq> None" "length (bytes_left s) < Suc (length mem)"
  have "agree s ?t"
    using s CodedInputStream_ctor_ok [OF assms(1-4)] by (simp add: agree_def CodedInputStream_ctor_def default_recursion_limit_def)
  then obtain b' uf' s1 t1 where "SkipMessage (Suc (length mem)) s [] = Some (b', uf', s1)"
    "SkipMessage (Suc (length mem)) ?t [] = Some (b', uf', t1)" "same_end s1 t1"
    using SkipMessage_same [of "Suc (length mem)"] s(10) unfolding skips_same_def by blast
  then have r: "SkipMessage (Suc (length mem)) s [] = Some (ok, uf, s1)" "same_end s1 t'" using assms(5) by simp_all
  have "forth s s1" using skip_message_total [OF s(2,10), of "[]"] r(1) by auto
  then obtain input where "CodedInputStream_dtor s1 = Some (Some input)" using dtor_forth s(9) by blast
  then show ?thesis
    using s(1,4) r by (auto simp: b_def UFS_ParseFromZeroCopyStream_def UFS_ParseFromCodedStream_def UFS_MergeFromCodedStream_def
      UFS_Clear_def UFS_MergeFrom_append ConsumedEntireMessage_def same_end_def)
qed

lemma UFS_ParseFromArray_flat:
  assumes "0 \<le> data" and "0 \<le> n" and "data + n \<le> int (length mem)" and "n < kDefaultTotalBytesLimit"
    and "SkipMessage (Suc (length mem)) (CodedInputStream_ctor mem data n) [] = Some (ok, uf, t')"
  defines "b \<equiv> ok \<and> ConsumedEntireMessage t'"
  shows "UFS_ParseFromArray fs mem data n = Some (b, if b then uf else [])"
  using UFS_Parse_flat [OF assms(1-5), of fs "- 1"] unfolding b_def UFS_ParseFromArray_def by auto

subsection \<open>Properties\<close>

text \<open>
  C16: Unknown fields survive a round trip. A set of unknown fields with valid numbers, whose
  groups are nested no deeper than the recursion limit, is serialised to exactly the computed
  number of bytes; \<open>SkipMessage\<close> on these bytes returns the same set, at a legitimate
  message end, with fuel for one tag per byte; and so does \<open>ParseFromArray\<close> of a set wherever
  the bytes lie in memory, and \<open>ParseFromZeroCopyStream\<close> whatever the size of the blocks.
\<close>

theorem unknown_fields_roundtrip:
  assumes "list_all (field_ok 100) fs" and "length (SerializeUnknownFieldsToArray fs) < 2 ^ 26"
  defines "bs \<equiv> SerializeUnknownFieldsToArray fs"
  shows "ComputeUnknownFieldsSize fs = int (length bs) \<and>
    (\<exists>s'. SkipMessage (Suc (length bs)) (CodedInputStream_ctor bs 0 (int (length bs))) [] = Some (True, fs, s') \<and> ConsumedEntireMessage s') \<and>
    UFS_ParseFromArray old (pre @ bs @ post) (int (length pre)) (int (length bs)) = Some (True, fs) \<and>
    (\<exists>input. UFS_ParseFromZeroCopyStream old (pre @ bs @ post) (ArrayInputStream_ctor (int (length pre)) (int (length bs)) block_size) =
      Some (True, fs, Some input))"
proof -
  have lim: "int (length bs) < kDefaultTotalBytesLimit" using assms(2) by (simp add: bs_def kDefaultTotalBytesLimit_def)
  have flat: "\<exists>s'. SkipMessage (Suc (length mem)) (CodedInputStream_ctor mem (int k) (int (length bs))) [] = Some (True, fs, s') \<and> ConsumedEntireMessage s'"
    if "take (length bs) (drop k mem) = bs" "k + length bs \<le> length mem" for mem k
  proof -
    let ?s = "CodedInputStream_ctor mem (int k) (int (length bs))"
    have s: "stream_ok ?s" "below_limit ?s" "bytes_left ?s = SerializeUnknownFieldsToArray fs"
      using CodedInputStream_ctor_ok [of "int k" "int (length bs)" mem] lim that by (simp_all add: bs_def)
    show ?thesis
      by (rule SkipMessage_back [OF assms(1) s]) (use s(3) that in \<open>simp_all add: CodedInputStream_ctor_def default_recursion_limit_def bs_def\<close>)
  qed
  let ?mem = "pre @ bs @ post"
  have m: "0 \<le> int (length pre)" "0 \<le> int (length bs)" "int (length pre) + int (length bs) \<le> int (length ?mem)" by simp_all
  obtain s' where s': "SkipMessage (Suc (length ?mem)) (CodedInputStream_ctor ?mem (int (length pre)) (int (length bs))) [] = Some (True, fs, s')"
    "ConsumedEntireMessage s'" using flat [of "length pre" ?mem] by auto
  show ?thesis
    using flat [of 0 bs] UFS_ParseFromArray_flat [OF m lim s'(1), of old] UFS_Parse_flat [OF m lim s'(1), of old block_size] s'(2)
    lim by (simp add: serialized_size bs_def [symmetric] kDefaultTotalBytesLimit_def)
qed

theorem unknown_fields_roundtrip_witness:
  "UFS_ParseFromArray [UVarint 1 1] ([7] @ [0x53, 0x08, 0x96, 0x01, 0x54] @ [9]) 1 5 = Some (True, [UGroup 10 [UVarint 1 150]]) \<and>
   (\<exists>input. UFS_ParseFromZeroCopyStream [UVarint 1 1] ([7] @ [0x53, 0x08, 0x96, 0x01, 0x54] @ [9]) (ArrayInputStream_ctor 1 5 2) =
     Some (True, [UGroup 10 [UVarint 1 150]], Some input))"
proof -
  have b: "SerializeUnknownFieldsToArray [UGroup 10 [UVarint 1 150]] = [0x53, 0x08, 0x96, 0x01, 0x54]" by code_simp
  have "list_all (field_ok 100) [UGroup 10 [UVarint 1 150]]" by (simp add: num_ok_def)
  from unknown_fields_roundtrip [OF this, of "[UVarint 1 1]" "[7]" "[9]" 2, unfolded b] show ?thesis by simp
qed

text \<open>
  C39: Deleting does what it says. \<open>DeleteByNumber\<close>, which moves the fields it keeps down in place,
  keeps exactly the fields of other numbers in their order; \<open>DeleteSubrange\<close>, for any start and
  any number of fields, removes exactly the fields of its range, is an access outside the vector if
  there are fields to remove and the range is not inside it, and does not accept a set without a
  vector, not even an empty range of it.
\<close>

theorem unknown_field_set_operations:
  "DeleteByNumber number fs = filter (\<lambda>f. number_of f \<noteq> number) fs \<and>
   DeleteSubrange start (int n) (Some fs) =
     (if n = 0 \<or> 0 \<le> start \<and> start + int n \<le> int (length fs) then Some (take (nat start) fs @ drop (nat start + n) fs) else None) \<and>
   DeleteSubrange start (int n) None = None"
proof -
  have "DeleteSubrange start (int n) (Some fs) =
     (if n = 0 \<or> 0 \<le> start \<and> start + int n \<le> int (length fs) then Some (take (nat start) fs @ drop (nat start + n) fs) else None)"
  proof (cases "0 \<le> start \<and> start + int n \<le> int (length fs)")
    case True
    then obtain i where "start = int i" "i + n \<le> length fs" by (metis nonneg_int_cases of_nat_add of_nat_le_iff)
    then show ?thesis by (simp add: DeleteSubrange_ok)
  next
    case False
    have "DeleteSubrange start 0 (Some fs) = Some fs" if "start < 0 \<or> int (length fs) < start"
      using that by (subst DeleteSubrange_def, subst slide_fields.simps) auto
    then show ?thesis using False DeleteSubrange_bad [of "int n" start fs] by (cases "n = 0") auto
  qed
  then show ?thesis by (simp add: DeleteByNumber_ok DeleteSubrange_def [of _ _ None])
qed

end
