(* ===== verification/MessageParse.thy ===== *)
theory MessageParse
  imports StreamAgree
begin

text \<open>
  The shape that \<^verbatim>\<open>protoc\<close> gives every \<open>MergePartialFromCodedStream\<close>: a loop that reads a tag,
  switches to the case of the field, reads the value and then either jumps straight to the
  case of the tag it expects next or goes round the loop; unknown fields are skipped. A
  message class supplies the data of \<open>message_ops\<close>: the tags of its cases, the case bodies and
  the place of the unknown fields. \<open>ParseFromArray\<close> of \<^verbatim>\<open>message_lite.cc\<close> is the entry point.

  The generated code calls \<open>ReadTagWithCutoff\<close>, which the copy of the runtime in the
  repository does not have; it is the parameter \<open>rtc\<close>, and \<open>cutoff_reader\<close> states what its
  documentation promises: the tag and the state of \<open>ReadTag\<close>, and a flag that is true only for
  tags up to the cutoff and false only for tags above it or 0.

  The loop has fuel, one unit per case or skipped field; \<open>None\<close> also stands for fuel used up.
  The locale \<open>message_class\<close> states what a class has to promise about its cases, and proves
  for every class that one unit more than there are bytes is enough, that any input is
  parsed without a fault, and that encoded fields are read back in any order.
\<close>

subsection \<open>The parse loop\<close>

datatype parse_next = Break | Goto nat | Success | Failure

record 'm message_ops =
  mo_cutoff :: u32
  mo_tags :: "(nat \<times> u32) list"
  mo_case :: "nat \<Rightarrow> 'm \<Rightarrow> CodedInputStream \<Rightarrow> (parse_next \<times> 'm \<times> CodedInputStream) option"
  mo_unknown :: "'m \<Rightarrow> unknown_field list"
  mo_set_unknown :: "unknown_field list \<Rightarrow> 'm \<Rightarrow> 'm"
  mo_is_initialized :: "'m \<Rightarrow> bool"

type_synonym tag_reader = "u32 \<Rightarrow> CodedInputStream \<Rightarrow> ((u32 \<times> bool) \<times> CodedInputStream) option"

text \<open>\<open>switch (GetTagFieldNumber (tag))\<close>: each case accepts one tag, the others are unusual.\<close>

fun switch_tag :: "(nat \<times> u32) list \<Rightarrow> u32 \<Rightarrow> nat option" where
  "switch_tag [] tag = None"
| "switch_tag ((n, t) # cs) tag =
     (if GetTagFieldNumber tag = of_nat n then (if tag = t then Some n else None) else switch_tag cs tag)"

fun merge_loop :: "tag_reader \<Rightarrow> 'm message_ops \<Rightarrow> nat \<Rightarrow> nat option \<Rightarrow> 'm \<Rightarrow> CodedInputStream \<Rightarrow> (bool \<times> 'm \<times> CodedInputStream) option" where
  "merge_loop rtc ops 0 label m input = None"
| "merge_loop rtc ops (Suc fuel) label m input =
     (let run = (\<lambda>n m input. do {
            (next, m, input) \<leftarrow> mo_case ops n m input;
            case next of
              Break \<Rightarrow> merge_loop rtc ops fuel None m input
            | Goto k \<Rightarrow> merge_loop rtc ops fuel (Some k) m input
            | Success \<Rightarrow> Some (True, m, input)
            | Failure \<Rightarrow> Some (False, m, input) });
          handle_unusual = (\<lambda>tag m input.
            if tag = 0 \<or> GetTagWireType tag = WIRETYPE_END_GROUP then Some (True, m, input)
            else do {
              (ok, uf, input) \<leftarrow> SkipField fuel tag input (mo_unknown ops m);
              let m = mo_set_unknown ops uf m;
              if ok then merge_loop rtc ops fuel None m input else Some (False, m, input) })
      in case label of
           Some n \<Rightarrow> run n m input
         | None \<Rightarrow> do {
             ((tag, below), input) \<leftarrow> rtc (mo_cutoff ops) input;
             if \<not> below then handle_unusual tag m input
             else case switch_tag (mo_tags ops) tag of
                    Some n \<Rightarrow> run n m input
                  | None \<Rightarrow> handle_unusual tag m input })"

declare merge_loop.simps(2) [simp del]

definition MergePartialFromCodedStream :: "tag_reader \<Rightarrow> 'm message_ops \<Rightarrow> 'm \<Rightarrow> CodedInputStream \<Rightarrow> (bool \<times> 'm \<times> CodedInputStream) option" where
  "MergePartialFromCodedStream rtc ops m input = merge_loop rtc ops (Suc (length (i_mem input))) None m input"

definition InlineMergeFromCodedStream :: "tag_reader \<Rightarrow> 'm message_ops \<Rightarrow> 'm \<Rightarrow> CodedInputStream \<Rightarrow> (bool \<times> 'm \<times> CodedInputStream) option" where
  "InlineMergeFromCodedStream rtc ops m input = do {
     (ok, m, input) \<leftarrow> MergePartialFromCodedStream rtc ops m input;
     if \<not> ok then Some (False, m, input)
     else if \<not> mo_is_initialized ops m then Some (False, m, input)
     else Some (True, m, input) }"

definition InlineParseFromCodedStream :: "tag_reader \<Rightarrow> 'm message_ops \<Rightarrow> ('m \<Rightarrow> 'm) \<Rightarrow> 'm \<Rightarrow> CodedInputStream \<Rightarrow> (bool \<times> 'm \<times> CodedInputStream) option" where
  "InlineParseFromCodedStream rtc ops clear m input = InlineMergeFromCodedStream rtc ops (clear m) input"

definition ParseFromArray :: "tag_reader \<Rightarrow> 'm message_ops \<Rightarrow> ('m \<Rightarrow> 'm) \<Rightarrow> 'm \<Rightarrow> u8 list \<Rightarrow> int \<Rightarrow> int \<Rightarrow> (bool \<times> 'm) option" where
  "ParseFromArray rtc ops clear m mem data n = do {
     (ok, m, input) \<leftarrow> InlineParseFromCodedStream rtc ops clear m (CodedInputStream_ctor mem data n);
     Some (ok \<and> ConsumedEntireMessage input, m) }"

subsection \<open>The statements of a case\<close>

fun expect_tags :: "(u32 \<times> nat) list \<Rightarrow> CodedInputStream \<Rightarrow> (parse_next \<times> CodedInputStream) option" where
  "expect_tags [] input = Some (Break, input)"
| "expect_tags ((t, k) # es) input = do {
     (b, input) \<leftarrow> ExpectTag t input;
     if b then Some (Goto k, input) else expect_tags es input }"

definition expect_end :: "CodedInputStream \<Rightarrow> (parse_next \<times> CodedInputStream) option" where
  "expect_end input = (let (b, input) = ExpectAtEnd input in Some (if b then Success else Break, input))"

text \<open>\<open>DO_ (ReadPrimitive (input, &field)); set_has_field ();\<close> and what follows.\<close>

definition read_field :: "(CodedInputStream \<Rightarrow> ('v option \<times> CodedInputStream) option) \<Rightarrow> ('v \<Rightarrow> 'm \<Rightarrow> 'm) \<Rightarrow>
    (CodedInputStream \<Rightarrow> (parse_next \<times> CodedInputStream) option) \<Rightarrow> 'm \<Rightarrow> CodedInputStream \<Rightarrow> (parse_next \<times> 'm \<times> CodedInputStream) option" where
  "read_field read store then_do m input = do {
     (v, input) \<leftarrow> read input;
     case v of
       None \<Rightarrow> Some (Failure, m, input)
     | Some v \<Rightarrow> do { (next, input) \<leftarrow> then_do input; Some (next, store v m, input) } }"

text \<open>\<open>DO_ (ReadString (input, mutable_field ()));\<close> where \<open>mutable_field\<close> sets the has-bit first.\<close>

definition read_string_field :: "(u8 list \<Rightarrow> CodedInputStream \<Rightarrow> (bool \<times> u8 list \<times> CodedInputStream) option) \<Rightarrow> ('m \<Rightarrow> u8 list) \<Rightarrow> (u8 list \<Rightarrow> 'm \<Rightarrow> 'm) \<Rightarrow>
    (CodedInputStream \<Rightarrow> (parse_next \<times> CodedInputStream) option) \<Rightarrow> 'm \<Rightarrow> CodedInputStream \<Rightarrow> (parse_next \<times> 'm \<times> CodedInputStream) option" where
  "read_string_field read old store then_do m input = do {
     (ok, str, input) \<leftarrow> read (old m) input;
     if \<not> ok then Some (Failure, store str m, input)
     else do { (next, input) \<leftarrow> then_do input; Some (next, store str m, input) } }"

subsection \<open>What follows a value\<close>

definition cutoff_reader :: "tag_reader \<Rightarrow> bool" where
  "cutoff_reader rtc \<longleftrightarrow> (\<forall>c s.
     case ReadTag s of
       None \<Rightarrow> rtc c s = None
     | Some (t, s') \<Rightarrow> \<exists>b. rtc c s = Some ((t, b), s') \<and> (b \<longrightarrow> t \<le> c) \<and> (\<not> b \<longrightarrow> c < t \<or> t = 0))"

lemma cutoff_readerD:
  "cutoff_reader rtc \<Longrightarrow> ReadTag s = Some (t, s') \<Longrightarrow> \<exists>b. rtc c s = Some ((t, b), s') \<and> (b \<longrightarrow> t \<le> c) \<and> (\<not> b \<longrightarrow> c < t \<or> t = 0)"
  unfolding cutoff_reader_def by (drule spec [of _ c], drule spec [of _ s]) simp

text \<open>A reader with the promised behaviour.\<close>

definition plain_reader :: tag_reader where
  "plain_reader c s = map_option (\<lambda>(t, s'). ((t, t \<le> c), s')) (ReadTag s)"

lemma plain_reader_ok: "cutoff_reader plain_reader"
  by (auto simp: cutoff_reader_def plain_reader_def split: option.splits)

definition next_ok :: "(nat \<times> u32) list \<Rightarrow> parse_next \<Rightarrow> CodedInputStream \<Rightarrow> CodedInputStream \<Rightarrow> u8 list \<Rightarrow> bool" where
  "next_ok tags nx s s' r \<longleftrightarrow> stream_ok s' \<and> moved s s' \<and> i_recursion_depth s' = i_recursion_depth s \<and>
     (nx = Success \<or> i_legitimate_message_end s' = i_legitimate_message_end s) \<and>
     (case nx of
        Break \<Rightarrow> bytes_left s' = r
      | Goto k \<Rightarrow> (\<exists>t. (k, t) \<in> set tags \<and> r = varint_bytes (unat t) @ bytes_left s')
      | Success \<Rightarrow> r = [] \<and> bytes_left s' = [] \<and> i_legitimate_message_end s'
      | Failure \<Rightarrow> False)"

lemma behind_next_ok: "behind s s1 r \<Longrightarrow> next_ok tags nx s1 s2 r \<Longrightarrow> next_ok tags nx s s2 r"
  using moved_trans by (auto simp: behind_def next_ok_def)

lemma expect_tags_ok:
  assumes "stream_ok s" and "list_all (\<lambda>(t, k). (k, t) \<in> set tags \<and> unat t < 16384) es"
  shows "\<exists>nx s'. expect_tags es s = Some (nx, s') \<and> next_ok tags nx s s' (bytes_left s)"
  using assms(2)
proof (induction es)
  case Nil
  then show ?case using assms(1) by (simp add: next_ok_def)
next
  case (Cons e es)
  obtain t k where e: "e = (t, k)" by (cases e)
  then have t: "(k, t) \<in> set tags" "unat t < 16384" using Cons.prems by auto
  show ?case
  proof (cases "ExpectTag t s = Some (False, s)")
    case True
    then show ?thesis using Cons e by simp
  next
    case False
    then obtain s' where s': "ExpectTag t s = Some (True, s')" "leaves s s' (bytes_left s')"
      "bytes_left s = varint_bytes (unat t) @ bytes_left s'" using ExpectTag_ok [OF assms(1) t(2)] by blast
    then have "next_ok tags (Goto k) s s' (bytes_left s)" using t(1) by (auto simp: leaves_def next_ok_def)
    then show ?thesis using s'(1) e by simp
  qed
qed

lemma expect_end_ok: "stream_ok s \<Longrightarrow> \<exists>nx s'. expect_end s = Some (nx, s') \<and> next_ok tags nx s s' (bytes_left s)"
  using ExpectAtEnd_ok [of s] by (auto simp: expect_end_def next_ok_def)

text \<open>\<open>follows tags then_do\<close>: a continuation that goes on as the loop would.\<close>

definition follows :: "(nat \<times> u32) list \<Rightarrow> (CodedInputStream \<Rightarrow> (parse_next \<times> CodedInputStream) option) \<Rightarrow> bool" where
  "follows tags then_do \<longleftrightarrow> (\<forall>s. stream_ok s \<longrightarrow> (\<exists>nx s'. then_do s = Some (nx, s') \<and> next_ok tags nx s s' (bytes_left s)))"

lemma follows_tags: "list_all (\<lambda>(t, k). (k, t) \<in> set tags \<and> unat t < 16384) es \<Longrightarrow> follows tags (expect_tags es)"
  unfolding follows_def using expect_tags_ok by blast

lemma follows_end: "follows tags expect_end"
  unfolding follows_def using expect_end_ok by blast

lemma next_ok_forth: "next_ok tags nx s s' (bytes_left s) \<Longrightarrow> forth s s'"
  by (auto simp: next_ok_def forth_def split: parse_next.splits)

lemma read_field_ok:
  assumes "follows tags then_do" and "read s = Some (Some v, s1)" and "behind s s1 r"
  shows "\<exists>nx s'. read_field read store then_do m s = Some (nx, store v m, s') \<and> next_ok tags nx s s' r"
proof -
  obtain nx s' where "then_do s1 = Some (nx, s')" "next_ok tags nx s1 s' r"
    using assms(1,3) unfolding follows_def behind_def by metis
  then show ?thesis using assms(2) behind_next_ok [OF assms(3)] by (simp add: read_field_def)
qed

lemma read_string_field_ok:
  assumes "follows tags then_do" and "read (old m) s = Some (True, str, s1)" and "behind s s1 r"
  shows "\<exists>nx s'. read_string_field read old store then_do m s = Some (nx, store str m, s') \<and> next_ok tags nx s s' r"
proof -
  obtain nx s' where "then_do s1 = Some (nx, s')" "next_ok tags nx s1 s' r"
    using assms(1,3) unfolding follows_def behind_def by metis
  then show ?thesis using assms(2) behind_next_ok [OF assms(3)] by (simp add: read_string_field_def)
qed

text \<open>\<open>returns f\<close>: the case never faults, and it consumes input unless it fails.\<close>

definition returns :: "('m \<Rightarrow> CodedInputStream \<Rightarrow> (parse_next \<times> 'm \<times> CodedInputStream) option) \<Rightarrow> bool" where
  "returns f \<longleftrightarrow> (\<forall>m s. stream_ok s \<longrightarrow> (\<exists>nx m' s'. f m s = Some (nx, m', s') \<and> forth s s' \<and>
     (nx \<noteq> Failure \<longrightarrow> length (bytes_left s') < length (bytes_left s))))"

lemma returns_fail: "returns (\<lambda>m s. Some (Failure, m, s))"
  by (auto simp: returns_def forth_refl)

lemma returns_read_field:
  assumes "follows tags then_do"
    and "\<And>s. stream_ok s \<Longrightarrow> \<exists>v s'. read s = Some (v, s') \<and> forth s s' \<and> (v \<noteq> None \<longrightarrow> length (bytes_left s') < length (bytes_left s))"
  shows "returns (read_field read store then_do)"
  unfolding returns_def
proof (intro allI impI)
  fix m s assume "stream_ok s"
  from assms(2) [OF this] obtain v s1 where v: "read s = Some (v, s1)" "forth s s1" "v \<noteq> None \<longrightarrow> length (bytes_left s1) < length (bytes_left s)" by blast
  then have "stream_ok s1" by (simp add: forth_def)
  then obtain nx s2 where s2: "then_do s1 = Some (nx, s2)" "forth s1 s2"
    using assms(1) next_ok_forth unfolding follows_def by blast
  have "forth s s2" "length (bytes_left s2) \<le> length (bytes_left s1)" using forth_trans v(2) s2(2) by (auto simp: forth_def)
  then show "\<exists>nx m' s'. read_field read store then_do m s = Some (nx, m', s') \<and> forth s s' \<and> (nx \<noteq> Failure \<longrightarrow> length (bytes_left s') < length (bytes_left s))"
    using v s2 by (cases v) (auto simp: read_field_def)
qed

lemma returns_read_string_field:
  assumes "follows tags then_do"
    and "\<And>str s. stream_ok s \<Longrightarrow> \<exists>b str' s'. read str s = Some (b, str', s') \<and> forth s s' \<and> (b \<longrightarrow> length (bytes_left s') < length (bytes_left s))"
  shows "returns (read_string_field read old store then_do)"
  unfolding returns_def
proof (intro allI impI)
  fix m s assume "stream_ok s"
  from assms(2) [OF this, of "old m"] obtain b str' s1 where v: "read (old m) s = Some (b, str', s1)" "forth s s1" "b \<longrightarrow> length (bytes_left s1) < length (bytes_left s)" by blast
  then have "stream_ok s1" by (simp add: forth_def)
  then obtain nx s2 where s2: "then_do s1 = Some (nx, s2)" "forth s1 s2"
    using assms(1) next_ok_forth unfolding follows_def by blast
  have "forth s s2" "length (bytes_left s2) \<le> length (bytes_left s1)" using forth_trans v(2) s2(2) by (auto simp: forth_def)
  then show "\<exists>nx m' s'. read_string_field read old store then_do m s = Some (nx, m', s') \<and> forth s s' \<and> (nx \<noteq> Failure \<longrightarrow> length (bytes_left s') < length (bytes_left s))"
    using v s2 by (cases b) (auto simp: read_string_field_def)
qed

text \<open>
  \<open>alike_case tags f\<close>: on two streams with the same bytes left the case yields the same message; it
  fails on both, or it reads the same value and goes on as the loop would, which may be a jump on
  one stream and the top of the loop on the other, where the next tag is not in the buffer yet.
\<close>

definition goes_on :: "(nat \<times> u32) list \<Rightarrow> parse_next \<Rightarrow> CodedInputStream \<Rightarrow> CodedInputStream \<Rightarrow> bool" where
  "goes_on tags nx u s \<longleftrightarrow> next_ok tags nx u s (bytes_left u)"

definition alike_case :: "(nat \<times> u32) list \<Rightarrow> ('m \<Rightarrow> CodedInputStream \<Rightarrow> (parse_next \<times> 'm \<times> CodedInputStream) option) \<Rightarrow> bool" where
  "alike_case tags f \<longleftrightarrow> (\<forall>m s t. agree s t \<longrightarrow>
     (\<exists>m' s' t'. f m s = Some (Failure, m', s') \<and> f m t = Some (Failure, m', t') \<and> same_end s' t') \<or>
     (\<exists>m' nx s' nx' t' u v. f m s = Some (nx, m', s') \<and> f m t = Some (nx', m', t') \<and> agree u v \<and>
        length (bytes_left u) < length (bytes_left s) \<and> goes_on tags nx u s' \<and> goes_on tags nx' v t'))"

lemma goes_on_same: "stream_ok s \<Longrightarrow> goes_on tags Break s s"
  by (simp add: goes_on_def next_ok_def)

lemma follows_goes_on: "follows tags then_do \<Longrightarrow> stream_ok s \<Longrightarrow> \<exists>nx s'. then_do s = Some (nx, s') \<and> goes_on tags nx s s'"
  by (simp add: follows_def goes_on_def)

lemma alike_fail: "alike_case tags (\<lambda>m s. Some (Failure, m, s))"
  by (auto simp: alike_case_def agree_same_end)

lemma alike_read_field:
  assumes k: "follows tags k" and same: "reads_same read"
    and forth: "\<And>s. stream_ok s \<Longrightarrow> \<exists>v s'. read s = Some (v, s') \<and> forth s s' \<and> (v \<noteq> None \<longrightarrow> length (bytes_left s') < length (bytes_left s))"
  shows "alike_case tags (read_field read store k)"
  unfolding alike_case_def
proof (intro allI impI)
  fix m s t assume a: "agree s t"
  obtain v u w where v: "read s = Some (v, u)" "read t = Some (v, w)" "agree_on (v \<noteq> None) u w" using reads_sameD [OF same a] by blast
  show "(\<exists>m' s' t'. read_field read store k m s = Some (Failure, m', s') \<and> read_field read store k m t = Some (Failure, m', t') \<and> same_end s' t') \<or>
     (\<exists>m' nx s' nx' t' u v. read_field read store k m s = Some (nx, m', s') \<and> read_field read store k m t = Some (nx', m', t') \<and> agree u v \<and>
        length (bytes_left u) < length (bytes_left s) \<and> goes_on tags nx u s' \<and> goes_on tags nx' v t')"
  proof (cases v)
    case None
    then show ?thesis using v by (auto simp: read_field_def agree_on_def)
  next
    case (Some x)
    then have uw: "agree u w" using v(3) by (simp add: agree_on_def)
    obtain nx s' nx' t' where "k u = Some (nx, s')" "goes_on tags nx u s'" "k w = Some (nx', t')" "goes_on tags nx' w t'"
      using follows_goes_on [OF k agree_ok(1) [OF uw]] follows_goes_on [OF k agree_ok(2) [OF uw]] by blast
    moreover have "length (bytes_left u) < length (bytes_left s)" using forth [OF agree_ok(1) [OF a]] v(1) Some by auto
    ultimately show ?thesis using v(1,2) uw Some by (auto simp: read_field_def)
  qed
qed

lemma alike_read_string_field:
  assumes k: "follows tags k"
    and same: "\<And>str s t. agree s t \<Longrightarrow> \<exists>b str' s' t'. read str s = Some (b, str', s') \<and> read str t = Some (b, str', t') \<and> agree_on b s' t'"
    and forth: "\<And>str s. stream_ok s \<Longrightarrow> \<exists>b str' s'. read str s = Some (b, str', s') \<and> forth s s' \<and> (b \<longrightarrow> length (bytes_left s') < length (bytes_left s))"
  shows "alike_case tags (read_string_field read old store k)"
  unfolding alike_case_def
proof (intro allI impI)
  fix m s t assume a: "agree s t"
  obtain b str u w where v: "read (old m) s = Some (b, str, u)" "read (old m) t = Some (b, str, w)" "agree_on b u w" using same [OF a] by blast
  show "(\<exists>m' s' t'. read_string_field read old store k m s = Some (Failure, m', s') \<and> read_string_field read old store k m t = Some (Failure, m', t') \<and> same_end s' t') \<or>
     (\<exists>m' nx s' nx' t' u v. read_string_field read old store k m s = Some (nx, m', s') \<and> read_string_field read old store k m t = Some (nx', m', t') \<and> agree u v \<and>
        length (bytes_left u) < length (bytes_left s) \<and> goes_on tags nx u s' \<and> goes_on tags nx' v t')"
  proof (cases b)
    case False
    then show ?thesis using v by (auto simp: read_string_field_def agree_on_def)
  next
    case True
    then have uw: "agree u w" using v(3) by (simp add: agree_on_def)
    obtain nx s' nx' t' where "k u = Some (nx, s')" "goes_on tags nx u s'" "k w = Some (nx', t')" "goes_on tags nx' w t'"
      using follows_goes_on [OF k agree_ok(1) [OF uw]] follows_goes_on [OF k agree_ok(2) [OF uw]] by blast
    moreover have "length (bytes_left u) < length (bytes_left s)" using forth [OF agree_ok(1) [OF a], of "old m"] v(1) True by auto
    ultimately show ?thesis using v(1,2) uw True by (auto simp: read_string_field_def)
  qed
qed

subsection \<open>Values and items on the wire\<close>

datatype wire_value = WVar nat | WFix32 u32 | WBytes "u8 list"

fun value_bytes :: "wire_value \<Rightarrow> u8 list" where
  "value_bytes (WVar x) = varint_bytes x"
| "value_bytes (WFix32 w) = WriteLittleEndian32ToArray w"
| "value_bytes (WBytes b) = varint_bytes (unat (of_nat (length b) :: u32)) @ b"

text \<open>A value that fits the wire type of a tag.\<close>

fun value_ok :: "u32 \<Rightarrow> wire_value \<Rightarrow> bool" where
  "value_ok t (WVar x) = (GetTagWireType t = WIRETYPE_VARINT \<and> x < 2 ^ 64)"
| "value_ok t (WFix32 w) = (GetTagWireType t = WIRETYPE_FIXED32)"
| "value_ok t (WBytes b) = (GetTagWireType t = WIRETYPE_LENGTH_DELIMITED \<and> length b < 2 ^ 31)"

datatype item = Known nat wire_value | Unknown unknown_field

lemma value_bytes_nonempty: "value_bytes v \<noteq> []"
proof (cases v)
  case (WVar x)
  then show ?thesis by simp
next
  case (WFix32 w)
  then show ?thesis by (simp add: WriteLittleEndian32ToArray_def)
next
  case (WBytes b)
  then show ?thesis by simp
qed

text \<open>Small tags and encoded tags determine each other.\<close>

lemma tag_bytes_inj:
  assumes "varint_bytes (unat (t::u32)) @ r = varint_bytes (unat t') @ r'"
  shows "t = t' \<and> r = r'"
proof -
  have "Some (unat t, r) = varint_take 10 (varint_bytes (unat t) @ r)" by (rule varint_take_bytes [OF varint_short(1), symmetric])
  also have "\<dots> = Some (unat t', r')" unfolding assms by (rule varint_take_bytes [OF varint_short(1)])
  finally show ?thesis by (simp only: option.inject prod.inject word_unat_eq_iff)
qed

subsection \<open>Message classes\<close>

text \<open>A stream that has been read to a legitimate end.\<close>

definition read_out :: "CodedInputStream \<Rightarrow> CodedInputStream \<Rightarrow> bool" where
  "read_out s s' \<longleftrightarrow> stream_ok s' \<and> moved s s' \<and> bytes_left s' = [] \<and> ConsumedEntireMessage s'"

lemma read_out_moved: "moved s s1 \<Longrightarrow> read_out s1 s' \<Longrightarrow> read_out s s'"
  using moved_trans by (auto simp: read_out_def)

locale message_class =
  fixes ops :: "'m message_ops"
    and upd :: "nat \<Rightarrow> wire_value \<Rightarrow> 'm \<Rightarrow> 'm"
  assumes tags_switch: "(n, t) \<in> set (mo_tags ops) \<Longrightarrow> switch_tag (mo_tags ops) t = Some n"
    and tags_ok: "(n, t) \<in> set (mo_tags ops) \<Longrightarrow> t \<noteq> 0 \<and> t \<le> mo_cutoff ops"
    and tags_only: "switch_tag (mo_tags ops) t = Some n \<Longrightarrow> (n, t) \<in> set (mo_tags ops)"
    and case_reads: "(n, t) \<in> set (mo_tags ops) \<Longrightarrow> value_ok t v \<Longrightarrow> stream_ok s \<Longrightarrow> bytes_left s = value_bytes v @ r \<Longrightarrow>
      \<exists>nx s'. mo_case ops n m s = Some (nx, upd n v m, s') \<and> next_ok (mo_tags ops) nx s s' r"
    and case_returns: "returns (mo_case ops n)"
    and case_alike: "alike_case (mo_tags ops) (mo_case ops n)"
begin

definition tag_of :: "nat \<Rightarrow> u32" where
  "tag_of n = the (map_of (mo_tags ops) n)"

definition item_ok :: "item \<Rightarrow> bool" where
  "item_ok i = (case i of
     Known n v \<Rightarrow> (\<exists>t. (n, t) \<in> set (mo_tags ops) \<and> tag_of n = t \<and> value_ok t v)
   | Unknown f \<Rightarrow> field_ok 100 f \<and> switch_tag (mo_tags ops) (field_tag f) = None)"

definition item_bytes :: "item \<Rightarrow> u8 list" where
  "item_bytes i = (case i of
     Known n v \<Rightarrow> varint_bytes (unat (tag_of n)) @ value_bytes v
   | Unknown f \<Rightarrow> SerializeUnknownFieldToArray f)"

definition item_upd :: "item \<Rightarrow> 'm \<Rightarrow> 'm" where
  "item_upd i m = (case i of Known n v \<Rightarrow> upd n v m | Unknown f \<Rightarrow> mo_set_unknown ops (mo_unknown ops m @ [f]) m)"

definition item_tag :: "item \<Rightarrow> u32" where
  "item_tag i = (case i of Known n v \<Rightarrow> tag_of n | Unknown f \<Rightarrow> field_tag f)"

definition item_rest :: "item \<Rightarrow> u8 list" where
  "item_rest i = (case i of Known n v \<Rightarrow> value_bytes v | Unknown f \<Rightarrow> field_payload f)"

lemma item_bytes_split: "item_bytes i = varint_bytes (unat (item_tag i)) @ item_rest i"
  by (cases i) (simp_all add: item_bytes_def item_tag_def item_rest_def serialize_field)

lemma item_bytes_nonempty: "item_bytes i \<noteq> []"
proof -
  have "varint_bytes x \<noteq> []" for x by (subst varint_bytes.simps) simp
  then show ?thesis by (simp add: item_bytes_split)
qed

text \<open>One step of the loop on a case: what it does with the continuation.\<close>

lemma loop_case:
  assumes "mo_case ops n m s = Some (nx, m', s')"
  shows "merge_loop rtc ops (Suc fuel) (Some n) m s =
    (case nx of Break \<Rightarrow> merge_loop rtc ops fuel None m' s' | Goto k \<Rightarrow> merge_loop rtc ops fuel (Some k) m' s'
     | Success \<Rightarrow> Some (True, m', s') | Failure \<Rightarrow> Some (False, m', s'))"
  using assms by (simp add: merge_loop.simps(2))

lemma loop_tag_case:
  assumes "cutoff_reader rtc" and "ReadTag s = Some (t, s1)" and "(n, t) \<in> set (mo_tags ops)"
  shows "merge_loop rtc ops (Suc fuel) None m s = merge_loop rtc ops (Suc fuel) (Some n) m s1"
proof -
  obtain b where "rtc (mo_cutoff ops) s = Some ((t, b), s1)" "\<not> b \<longrightarrow> mo_cutoff ops < t \<or> t = 0"
    using cutoff_readerD [OF assms(1,2)] by blast
  moreover have "t \<noteq> 0" "t \<le> mo_cutoff ops" using tags_ok [OF assms(3)] by auto
  ultimately show ?thesis using tags_switch [OF assms(3)] by (cases b) (simp_all add: merge_loop.simps(2))
qed

lemma loop_tag_unknown:
  assumes "cutoff_reader rtc" and "ReadTag s = Some (t, s1)" and "switch_tag (mo_tags ops) t = None" and "t \<noteq> 0"
    and "GetTagWireType t \<noteq> WIRETYPE_END_GROUP"
  shows "merge_loop rtc ops (Suc fuel) None m s = do {
    (ok, uf, s) \<leftarrow> SkipField fuel t s1 (mo_unknown ops m);
    if ok then merge_loop rtc ops fuel None (mo_set_unknown ops uf m) s else Some (False, mo_set_unknown ops uf m, s) }"
proof -
  obtain b where "rtc (mo_cutoff ops) s = Some ((t, b), s1)" using cutoff_readerD [OF assms(1,2)] by blast
  then show ?thesis using assms(3-5) by (cases b) (simp_all add: merge_loop.simps(2) Let_def)
qed

lemma loop_tag_end:
  assumes "cutoff_reader rtc" and "ReadTag s = Some (t, s1)" and "switch_tag (mo_tags ops) t = None"
    and "t = 0 \<or> GetTagWireType t = WIRETYPE_END_GROUP"
  shows "merge_loop rtc ops (Suc fuel) None m s = Some (True, m, s1)"
proof -
  obtain b where "rtc (mo_cutoff ops) s = Some ((t, b), s1)" using cutoff_readerD [OF assms(1,2)] by blast
  then show ?thesis using assms(3,4) by (cases b) (auto simp: merge_loop.simps(2) Let_def)
qed

lemma switch_0: "switch_tag (mo_tags ops) 0 = None"
  using tags_only tags_ok by (metis not_Some_eq)

text \<open>Encoded items are read back, whatever their order; \<open>label\<close> is the case jumped to.\<close>

definition loop_at :: "nat option \<Rightarrow> item list \<Rightarrow> CodedInputStream \<Rightarrow> bool" where
  "loop_at label is s \<longleftrightarrow> (case label of
     None \<Rightarrow> bytes_left s = concat (map item_bytes is)
   | Some n \<Rightarrow> \<exists>v is'. is = Known n v # is' \<and> bytes_left s = value_bytes v @ concat (map item_bytes is'))"

definition loop_ready :: "CodedInputStream \<Rightarrow> bool" where
  "loop_ready s \<longleftrightarrow> stream_ok s \<and> below_limit s \<and> i_recursion_depth s = 0 \<and> i_recursion_limit s = 100"

lemma loop_ready_moved: "loop_ready s \<Longrightarrow> stream_ok s' \<Longrightarrow> moved s s' \<Longrightarrow> i_recursion_depth s' = i_recursion_depth s \<Longrightarrow> loop_ready s'"
  using moved_limit [of s s'] moved_limits [of s s'] by (auto simp: loop_ready_def)

lemma loop_at_goto:
  assumes "(k, t) \<in> set (mo_tags ops)" and "concat (map item_bytes is) = varint_bytes (unat t) @ bytes_left s" and "list_all item_ok is"
  shows "loop_at (Some k) is s"
proof (cases "is")
  case Nil
  have "varint_bytes (unat t) \<noteq> []" by (subst varint_bytes.simps) simp
  then show ?thesis using assms(2) Nil by simp
next
  case (Cons i is')
  have "varint_bytes (unat (item_tag i)) @ item_rest i @ concat (map item_bytes is') = varint_bytes (unat t) @ bytes_left s"
    using assms(2) Cons by (simp add: item_bytes_split)
  note tag_bytes_inj [OF this]
  then have t: "item_tag i = t" and r: "bytes_left s = item_rest i @ concat (map item_bytes is')" by simp_all
  have ok: "item_ok i" using assms(3) Cons by simp
  show ?thesis
  proof (cases i)
    case (Known n v)
    then have "(n, t) \<in> set (mo_tags ops)" using ok t by (auto simp: item_ok_def item_tag_def)
    then have "n = k" using tags_switch [of n t] tags_switch [OF assms(1)] by simp
    then show ?thesis using Known Cons r by (simp add: loop_at_def item_rest_def)
  next
    case (Unknown f)
    then show ?thesis using ok t tags_switch [OF assms(1)] by (simp add: item_ok_def item_tag_def)
  qed
qed

lemma loop_at_end: "concat (map item_bytes is) = [] \<Longrightarrow> is = []"
  using item_bytes_nonempty by (cases "is") auto

lemma parse_items:
  assumes "cutoff_reader rtc"
  shows "loop_at label is s \<Longrightarrow> list_all item_ok is \<Longrightarrow> loop_ready s \<Longrightarrow> length (bytes_left s) < fuel \<Longrightarrow>
    \<exists>s'. merge_loop rtc ops fuel label m s = Some (True, fold item_upd is m, s') \<and> read_out s s'"
proof (induction fuel arbitrary: label "is" m s)
  case (Suc fuel)
  have known: "\<exists>s'. merge_loop rtc ops (Suc fuel) (Some n) m s1 = Some (True, fold item_upd (Known n v # is') m, s') \<and> read_out s1 s'"
    if k: "list_all item_ok (Known n v # is')" "bytes_left s1 = value_bytes v @ concat (map item_bytes is')" "loop_ready s1"
      "length (bytes_left s1) < Suc fuel" for n v is' s1
  proof -
    let ?r = "concat (map item_bytes is')"
    obtain t where t: "(n, t) \<in> set (mo_tags ops)" "value_ok t v" using k(1) by (auto simp: item_ok_def)
    have ok: "stream_ok s1" using k(3) by (simp add: loop_ready_def)
    obtain nx s2 where nx: "mo_case ops n m s1 = Some (nx, upd n v m, s2)" "next_ok (mo_tags ops) nx s1 s2 ?r"
      using case_reads [OF t ok k(2)] by blast
    have mv: "moved s1 s2" and rdy: "loop_ready s2" using nx(2) loop_ready_moved [OF k(3)] by (auto simp: next_ok_def)
    have len: "length ?r < fuel" using k(2,4) value_bytes_nonempty [of v] by (cases "value_bytes v") auto
    have u: "fold item_upd (Known n v # is') m = fold item_upd is' (upd n v m)" by (simp add: item_upd_def)
    have ok': "list_all item_ok is'" using k(1) by simp
    show ?thesis
    proof (cases nx)
      case Break
      then have "loop_at None is' s2" "length (bytes_left s2) < fuel" using nx(2) len by (auto simp: next_ok_def loop_at_def)
      from Suc.IH [OF this(1) ok' rdy this(2)] show ?thesis unfolding loop_case [OF nx(1)] u using Break read_out_moved [OF mv] by auto
    next
      case (Goto j)
      then obtain t' where t': "(j, t') \<in> set (mo_tags ops)" "?r = varint_bytes (unat t') @ bytes_left s2"
        using nx(2) by (auto simp: next_ok_def)
      have "loop_at (Some j) is' s2" by (rule loop_at_goto [OF t' ok'])
      moreover have "length (bytes_left s2) < fuel" using len t'(2) by simp
      ultimately obtain s' where "merge_loop rtc ops fuel (Some j) (upd n v m) s2 = Some (True, fold item_upd is' (upd n v m), s')" "read_out s2 s'"
        using Suc.IH [OF _ ok' rdy] by blast
      then show ?thesis unfolding loop_case [OF nx(1)] u using Goto read_out_moved [OF mv] by simp
    next
      case Success
      then have "is' = []" "read_out s1 s2" using nx(2) loop_at_end by (auto simp: next_ok_def read_out_def ConsumedEntireMessage_def)
      then show ?thesis unfolding loop_case [OF nx(1)] u using Success by simp
    next
      case Failure
      then show ?thesis using nx(2) by (simp add: next_ok_def)
    qed
  qed
  have ok: "stream_ok s" "below_limit s" using Suc.prems(3) by (simp_all add: loop_ready_def)
  show ?case
  proof (cases label)
    case (Some n)
    then obtain v is' where "is = Known n v # is'" "bytes_left s = value_bytes v @ concat (map item_bytes is')"
      using Suc.prems(1) by (auto simp: loop_at_def)
    then show ?thesis using known [of n v is' s] Suc.prems Some by simp
  next
    case None
    then have bs: "bytes_left s = concat (map item_bytes is)" using Suc.prems(1) by (simp add: loop_at_def)
    show ?thesis
    proof (cases "is")
      case Nil
      then obtain s1 where s1: "ReadTag s = Some (0, s1)" "read_out s s1"
        using ReadTag_ok(1) [OF ok(1)] ok(2) bs by (auto simp: read_out_def after_tag_def ConsumedEntireMessage_def)
      from loop_tag_end [OF assms s1(1) switch_0] show ?thesis using None Nil s1(2) by simp
    next
      case (Cons i is')
      have b: "bytes_left s = varint_bytes (unat (item_tag i)) @ item_rest i @ concat (map item_bytes is')"
        using bs Cons by (simp add: item_bytes_split)
      obtain s1 where s1: "ReadTag s = Some (item_tag i, s1)" "behind s s1 (item_rest i @ concat (map item_bytes is'))"
        using ReadTag_at [OF ok(1) b] by blast
      have mv: "moved s s1" and rdy: "loop_ready s1" and bs1: "bytes_left s1 = item_rest i @ concat (map item_bytes is')"
        using s1(2) loop_ready_moved [OF Suc.prems(3)] by (auto simp: behind_def)
      have "varint_bytes (unat (item_tag i)) \<noteq> []" by (subst varint_bytes.simps) simp
      then have len: "length (bytes_left s1) < fuel" using Suc.prems(4) b bs1 by (cases "varint_bytes (unat (item_tag i))") auto
      show ?thesis
      proof (cases i)
        case (Known n v)
        then have "(n, item_tag i) \<in> set (mo_tags ops)" using Suc.prems(2) Cons by (auto simp: item_ok_def item_tag_def)
        from loop_tag_case [OF assms s1(1) this] known [of n v is' s1] show ?thesis
          using Suc.prems(2) Cons Known None bs1 rdy len read_out_moved [OF mv] by (auto simp: item_rest_def)
      next
        case (Unknown f)
        then have f: "field_ok 100 f" "switch_tag (mo_tags ops) (item_tag i) = None" "item_tag i = field_tag f"
          using Suc.prems(2) Cons by (auto simp: item_ok_def item_tag_def)
        obtain s2 where s2: "SkipField fuel (field_tag f) s1 (mo_unknown ops m) = Some (True, mo_unknown ops m @ [f], s2)"
          "behind s1 s2 (concat (map item_bytes is'))"
          using skip_field_back [OF f(1), of s1 "concat (map item_bytes is')" fuel] rdy bs1 len Unknown
          by (auto simp: loop_ready_def item_rest_def)
        have "loop_at None is' s2" "loop_ready s2" "length (bytes_left s2) < fuel" and mv2: "moved s s2"
          using s2(2) loop_ready_moved [OF rdy] len bs1 moved_trans [OF mv] by (auto simp: behind_def loop_at_def)
        moreover have "list_all item_ok is'" using Suc.prems(2) Cons by simp
        moreover have u: "item_upd i m = mo_set_unknown ops (mo_unknown ops m @ [f]) m" using Unknown by (simp add: item_upd_def)
        ultimately obtain s' where "merge_loop rtc ops fuel None (item_upd i m) s2 = Some (True, fold item_upd is' (item_upd i m), s')" "read_out s s'"
          using Suc.IH read_out_moved [OF mv2] by blast
        then show ?thesis
          using loop_tag_unknown [OF assms s1(1) f(2)] field_tag_facts [OF f(1)] f(3) s2(1) Cons None u
          by simp
      qed
    qed
  qed
qed simp

text \<open>Any bytes at all are parsed without a fault and within the fuel.\<close>

lemma parse_total:
  assumes "cutoff_reader rtc"
  shows "stream_ok s \<Longrightarrow> length (bytes_left s) < fuel \<Longrightarrow> \<exists>b m' s'. merge_loop rtc ops fuel label m s = Some (b, m', s') \<and> forth s s'"
proof (induction fuel arbitrary: label m s)
  case (Suc fuel)
  have known: "\<exists>b m' s'. merge_loop rtc ops (Suc fuel) (Some n) m s1 = Some (b, m', s') \<and> forth s1 s'"
    if k: "stream_ok s1" "length (bytes_left s1) < Suc fuel" for n s1
  proof -
    obtain nx m1 s2 where nx: "mo_case ops n m s1 = Some (nx, m1, s2)" "forth s1 s2" "nx \<noteq> Failure \<longrightarrow> length (bytes_left s2) < length (bytes_left s1)"
      using case_returns [of n] k(1) unfolding returns_def by blast
    have s2: "stream_ok s2" using nx(2) by (simp add: forth_def)
    have "\<exists>b m' s'. merge_loop rtc ops fuel l m1 s2 = Some (b, m', s') \<and> forth s1 s'" if "nx \<noteq> Failure" for l
      using Suc.IH [OF s2, of l m1] nx(3) that k(2) forth_trans [OF nx(2)] by fastforce
    then show ?thesis unfolding loop_case [OF nx(1)] using nx(2) by (cases nx) auto
  qed
  show ?case
  proof (cases label)
    case (Some n)
    then show ?thesis using known Suc.prems by simp
  next
    case None
    obtain t s1 where t: "ReadTag s = Some (t, s1)" "forth s s1" "t \<noteq> 0 \<longrightarrow> length (bytes_left s1) < length (bytes_left s)"
      using ReadTag_forth [OF Suc.prems(1)] by blast
    have s1: "stream_ok s1" "length (bytes_left s1) < Suc fuel" using t(2) Suc.prems(2) by (auto simp: forth_def)
    show ?thesis
    proof (cases "switch_tag (mo_tags ops) t")
      case (Some n)
      then show ?thesis using loop_tag_case [OF assms t(1) tags_only] known [OF s1] forth_trans [OF t(2)] None by fastforce
    next
      case un: None
      show ?thesis
      proof (cases "t = 0 \<or> GetTagWireType t = WIRETYPE_END_GROUP")
        case True
        then show ?thesis using loop_tag_end [OF assms t(1) un] None t(2) by auto
      next
        case False
        then have len: "length (bytes_left s1) < fuel" using t(3) Suc.prems(2) by simp
        obtain b uf s2 where f: "SkipField fuel t s1 (mo_unknown ops m) = Some (b, uf, s2)" "forth s1 s2"
          using skip_total [OF s1(1) _ _ len] by blast
        have s2: "stream_ok s2" "length (bytes_left s2) < fuel" "forth s s2"
          using f(2) len forth_trans [OF t(2) f(2)] by (auto simp: forth_def)
        show ?thesis
          using loop_tag_unknown [OF assms t(1) un] False f(1) Suc.IH [OF s2(1,2), of None "mo_set_unknown ops uf m"] forth_trans [OF s2(3)] s2(3) None
          by (cases b) fastforce+
      qed
    qed
  qed
qed simp

text \<open>
  Two streams with the same bytes left give the same result. A step of the loop is described by the
  stream \<open>u\<close> behind the last value: whether the next tag has been expected or is read at the top of the
  loop, the loop then runs the case of the tag on a stream with the same bytes left.
\<close>

definition go_on :: "tag_reader \<Rightarrow> nat \<Rightarrow> parse_next \<Rightarrow> 'm \<Rightarrow> CodedInputStream \<Rightarrow> (bool \<times> 'm \<times> CodedInputStream) option" where
  "go_on rtc fuel nx m s = (case nx of
     Break \<Rightarrow> merge_loop rtc ops fuel None m s | Goto k \<Rightarrow> merge_loop rtc ops fuel (Some k) m s
   | Success \<Rightarrow> Some (True, m, s) | Failure \<Rightarrow> Some (False, m, s))"

lemma goes_on_Break:
  assumes "goes_on tags Break u s" and "agree u v"
  shows "stream_ok s \<and> below_limit s \<and> bytes_left s = bytes_left u \<and> behind u s (bytes_left u)"
  using assms moved_limit [of u s] by (simp add: goes_on_def next_ok_def behind_def agree_def)

lemma agree_behind: "agree u v \<Longrightarrow> behind u s r \<Longrightarrow> behind v t r \<Longrightarrow> agree s t"
  using moved_limit [of u s] moved_limit [of v t] moved_limits [of u s] moved_limits [of v t] by (simp add: agree_def behind_def)

lemma go_on_end:
  assumes "cutoff_reader rtc" and "stream_ok u" and "below_limit u" and "goes_on (mo_tags ops) nx u s" and "bytes_left u = []"
  shows "\<exists>s'. go_on rtc (Suc fuel) nx m s = Some (True, m, s') \<and> i_legitimate_message_end s'"
proof (cases nx)
  case Break
  then have s: "stream_ok s" "below_limit s" "bytes_left s = []"
    using assms(3-5) moved_limit [of u s] by (simp_all add: goes_on_def next_ok_def)
  from ReadTag_ok(1) [OF s(1,3)] obtain s' where s': "ReadTag s = Some (0, s')" "i_legitimate_message_end s'" using s(2) by blast
  from loop_tag_end [OF assms(1) s'(1) switch_0] s'(2) Break show ?thesis by (simp add: go_on_def)
next
  case (Goto k)
  then show ?thesis using assms(4,5) by (auto simp: goes_on_def next_ok_def varint_bytes_nonempty)
qed (use assms(4) in \<open>auto simp: goes_on_def next_ok_def go_on_def\<close>)

lemma go_on_case:
  assumes "cutoff_reader rtc" and "goes_on (mo_tags ops) nx u s" and "stream_ok u"
    and v: "varint_take 10 (bytes_left u) = Some (x, r)" and n: "switch_tag (mo_tags ops) (of_nat x) = Some n"
  shows "\<exists>s1. go_on rtc (Suc fuel) nx m s = merge_loop rtc ops (Suc fuel) (Some n) m s1 \<and> behind u s1 r"
proof (cases nx)
  case Break
  then have s: "stream_ok s" "behind u s (bytes_left u)" "varint_take 10 (bytes_left s) = Some (x, r)"
    using assms(2) v by (simp_all add: goes_on_def next_ok_def behind_def)
  from ReadTag_ok(2) [OF s(1,3)] obtain s1 where s1: "ReadTag s = Some (of_nat x, s1)" "behind s s1 r"
    by (auto simp: after_tag_def behind_def)
  from loop_tag_case [OF assms(1) s1(1) tags_only [OF n]] behind_trans [OF s(2) s1(2)] Break show ?thesis by (auto simp: go_on_def)
next
  case (Goto k)
  then obtain t where t: "(k, t) \<in> set (mo_tags ops)" "bytes_left u = varint_bytes (unat t) @ bytes_left s"
    using assms(2) by (auto simp: goes_on_def next_ok_def)
  then have "x = unat t" "r = bytes_left s" using v varint_take_bytes [OF varint_short(1), of t "bytes_left s"] by simp_all
  moreover from this have "k = n" using tags_switch [OF t(1)] n by simp
  moreover have "behind u s (bytes_left s)" using assms(2) Goto by (auto simp: goes_on_def next_ok_def behind_def)
  ultimately show ?thesis using Goto by (auto simp: go_on_def)
next
  case Success
  then have "bytes_left u = []" using assms(2) by (simp add: goes_on_def next_ok_def)
  then show ?thesis using v by (simp add: varint_take_Nil)
qed (use assms(2) in \<open>simp add: goes_on_def next_ok_def\<close>)

lemma go_on_other:
  assumes "goes_on (mo_tags ops) nx u s" and "bytes_left u \<noteq> []"
    and "\<And>x r. varint_take 10 (bytes_left u) = Some (x, r) \<Longrightarrow> switch_tag (mo_tags ops) (of_nat x) = None"
  shows "nx = Break"
proof (cases nx)
  case (Goto k)
  then obtain t where t: "(k, t) \<in> set (mo_tags ops)" "bytes_left u = varint_bytes (unat t) @ bytes_left s"
    using assms(1) by (auto simp: goes_on_def next_ok_def)
  then show ?thesis using assms(3) varint_take_bytes [OF varint_short(1), of t "bytes_left s"] tags_switch [OF t(1)] by fastforce
qed (use assms(1,2) in \<open>auto simp: goes_on_def next_ok_def\<close>)

lemma go_on_alike:
  assumes "cutoff_reader rtc"
  shows "agree u v \<Longrightarrow> goes_on (mo_tags ops) nx u s \<Longrightarrow> goes_on (mo_tags ops) nx' v t \<Longrightarrow> length (bytes_left u) < fuel \<Longrightarrow>
    \<exists>b m' s' t'. go_on rtc fuel nx m s = Some (b, m', s') \<and> go_on rtc fuel nx' m t = Some (b, m', t') \<and> same_end s' t'"
proof (induction fuel arbitrary: nx nx' m u v s t)
  case (Suc fuel)
  note a = Suc.prems(1) and g = Suc.prems(2,3)
  have ok: "stream_ok u" "stream_ok v" "below_limit u" "below_limit v" and bl: "bytes_left v = bytes_left u"
    using a by (simp_all add: agree_def)
  have broken: "agree s t \<and> bytes_left s = bytes_left u" if "nx = Break" "nx' = Break"
    using goes_on_Break [of _ u s v] goes_on_Break [of _ v t u] g that a bl agree_behind [OF a, of s "bytes_left u" t]
    by (auto simp: goes_on_def next_ok_def behind_def)
  show ?case
  proof (cases "bytes_left u = []")
    case True
    then have "bytes_left v = []" using bl by simp
    from go_on_end [OF assms ok(1,3) g(1) True] go_on_end [OF assms ok(2,4) g(2) this] show ?thesis
      unfolding same_end_def by blast
  next
    case ne: False
    show ?thesis
    proof (cases "\<exists>x r n. varint_take 10 (bytes_left u) = Some (x, r) \<and> switch_tag (mo_tags ops) (of_nat x) = Some n")
      case True
      then obtain x r n where x: "varint_take 10 (bytes_left u) = Some (x, r)" "switch_tag (mo_tags ops) (of_nat x) = Some n" by blast
      then have xv: "varint_take 10 (bytes_left v) = Some (x, r)" using bl by simp
      obtain s1 t1 where run: "go_on rtc (Suc fuel) nx m s = merge_loop rtc ops (Suc fuel) (Some n) m s1" "behind u s1 r"
        "go_on rtc (Suc fuel) nx' m t = merge_loop rtc ops (Suc fuel) (Some n) m t1" "behind v t1 r"
        using go_on_case [OF assms g(1) ok(1) x] go_on_case [OF assms g(2) ok(2) xv x(2)] by blast
      have a1: "agree s1 t1" by (rule agree_behind [OF a run(2,4)])
      obtain w where "bytes_left u = w @ r" "w \<noteq> []" using varint_take_suffix [OF x(1)] by blast
      moreover have "bytes_left s1 = r" using run(2) by (simp add: behind_def)
      ultimately have len: "length (bytes_left s1) < fuel" using Suc.prems(4) by (cases w) simp_all
      have step: "merge_loop rtc ops (Suc fuel) (Some n) m w = go_on rtc fuel nx m' w'" if "mo_case ops n m w = Some (nx, m', w')" for nx m' w w'
        unfolding loop_case [OF that] go_on_def ..
      from case_alike [of n, unfolded alike_case_def, rule_format, OF a1, of m] show ?thesis
      proof (elim disjE exE conjE)
        fix m' s' t' assume "mo_case ops n m s1 = Some (Failure, m', s')" "mo_case ops n m t1 = Some (Failure, m', t')" "same_end s' t'"
        then show ?thesis unfolding run(1,3) by (auto simp: step go_on_def intro: exI [of _ False])
      next
        fix m' k s' k' t' u' v' assume c: "mo_case ops n m s1 = Some (k, m', s')" "mo_case ops n m t1 = Some (k', m', t')" "agree u' v'"
          "length (bytes_left u') < length (bytes_left s1)" "goes_on (mo_tags ops) k u' s'" "goes_on (mo_tags ops) k' v' t'"
        have "length (bytes_left u') < fuel" using c(4) len by simp
        from Suc.IH [OF c(3,5,6) this] show ?thesis unfolding run(1,3) step [OF c(1)] step [OF c(2)] .
      qed
    next
      case un: False
      then have nb: "nx = Break" "nx' = Break" using go_on_other [OF g(1) ne] go_on_other [OF g(2)] ne bl by force+
      then have st: "agree s t" "bytes_left s = bytes_left u" using broken by simp_all
      obtain tag s1 t1 where t: "ReadTag s = Some (tag, s1)" "ReadTag t = Some (tag, t1)" "agree_on (tag \<noteq> 0) s1 t1"
        using ReadTag_same [OF st(1)] by blast
      have sw: "switch_tag (mo_tags ops) tag = None"
      proof (cases "varint_take 10 (bytes_left u)")
        case None
        then have "tag = 0" using ReadTag_ok(3) [OF agree_ok(1) [OF st(1)]] ne st(2) t(1) by auto
        then show ?thesis using switch_0 by simp
      next
        case (Some p)
        then obtain x r where "varint_take 10 (bytes_left s) = Some (x, r)" using st(2) by (cases p) auto
        then show ?thesis using ReadTag_ok(2) [OF agree_ok(1) [OF st(1)]] un st(2) t(1) by force
      qed
      show ?thesis
      proof (cases "tag = 0 \<or> GetTagWireType tag = WIRETYPE_END_GROUP")
        case True
        then show ?thesis using loop_tag_end [OF assms t(1) sw] loop_tag_end [OF assms t(2) sw] t(3) nb by (auto simp: go_on_def agree_on_def intro: exI [of _ True])
      next
        case False
        then have a1: "agree s1 t1" using t(3) by (simp add: agree_on_def)
        have len: "length (bytes_left s1) < fuel"
          using ReadTag_forth [OF agree_ok(1) [OF st(1)]] t(1) False st(2) Suc.prems(4) by auto
        obtain b uf s2 t2 where f: "SkipField fuel tag s1 (mo_unknown ops m) = Some (b, uf, s2)"
          "SkipField fuel tag t1 (mo_unknown ops m) = Some (b, uf, t2)" "agree_on b s2 t2"
          using SkipField_same [OF a1 SkipMessage_same len] by blast
        let ?m = "mo_set_unknown ops uf m"
        have F: "go_on rtc (Suc fuel) nx m s = (if b then go_on rtc fuel Break ?m s2 else Some (False, ?m, s2))"
          "go_on rtc (Suc fuel) nx' m t = (if b then go_on rtc fuel Break ?m t2 else Some (False, ?m, t2))"
          using loop_tag_unknown [OF assms t(1) sw] loop_tag_unknown [OF assms t(2) sw] False f(1,2) nb by (simp_all add: go_on_def)
        show ?thesis
        proof (cases b)
          case True
          then have a2: "agree s2 t2" using f(3) by (simp add: agree_on_def)
          have "forth s1 s2" using skip_total [OF agree_ok(1) [OF a1] _ _ len, of tag "mo_unknown ops m"] f(1) by auto
          then have "length (bytes_left s2) < fuel" using len by (simp add: forth_def)
          from Suc.IH [OF a2 goes_on_same goes_on_same this] agree_ok [OF a2] show ?thesis unfolding F using True by simp
        next
          case no: False
          then show ?thesis unfolding F using f(3) by (auto simp: agree_on_def intro: exI [of _ False])
        qed
      qed
    qed
  qed
qed simp

lemma merge_loop_alike:
  assumes "cutoff_reader rtc" and "agree s t" and "length (bytes_left s) < fuel"
  shows "\<exists>b m' s' t'. merge_loop rtc ops fuel None m s = Some (b, m', s') \<and> merge_loop rtc ops fuel None m t = Some (b, m', t') \<and> same_end s' t'"
  using go_on_alike [OF assms(1,2) goes_on_same goes_on_same assms(3)] agree_ok [OF assms(2)] by (simp add: go_on_def)

end

end
