(* ===== verification/MessageFields.thy ===== *)
theory MessageFields
  imports MessageParse
begin

text \<open>
  What the generated message classes share: optional fields behind has-bits, the kinds of
  field (varint, fixed, string) with their reader, writer and size, and the conditions under
  which a list of fields makes a \<open>message_class\<close>. A message theory lists its fields once and
  gets the parse loop's theorems by \<open>message_class_fields\<close>.
\<close>

named_theorems case_ok_intros

subsection \<open>Optional parts\<close>

definition if_has :: "bool \<Rightarrow> ('m \<Rightarrow> 'm) \<Rightarrow> 'm \<Rightarrow> 'm" where
  "if_has c f m = (if c then f m else m)"

definition optional :: "bool \<Rightarrow> 'a list \<Rightarrow> 'a list" where
  "optional c xs = (if c then xs else [])"

definition optional_size :: "bool \<Rightarrow> int \<Rightarrow> int" where
  "optional_size c n = (if c then n else 0)"

lemma optional_simps [simp]:
  "concat (map f (optional c xs)) = optional c (concat (map f xs))" "int (length (optional c ys)) = optional_size c (int (length ys))"
  "fold g (optional c xs) m = if_has c (fold g xs) m" "list_all P (optional c xs) = (c \<longrightarrow> list_all P xs)"
  by (simp_all add: optional_def optional_size_def if_has_def)

lemma optional_values [simp]: "if_has False f m = m" "optional False xs = []" "optional_size False n = 0"
  "if_has True f m = f m" "optional True xs = xs" "optional_size True n = n"
  by (simp_all add: if_has_def optional_def optional_size_def)

lemma has_mask: "x AND m = 0 \<Longrightarrow> k AND m = k \<Longrightarrow> x AND k = (0 :: u32)"
proof -
  assume "x AND m = 0" and k: "k AND m = k"
  then have "(x AND m) AND k = 0" by simp
  moreover have "(x AND m) AND k = x AND (k AND m)" by (simp only: ac_simps)
  ultimately show ?thesis unfolding k by simp
qed

subsection \<open>Cases by field number\<close>

definition case_of :: "(nat \<times> ('m \<Rightarrow> CodedInputStream \<Rightarrow> (parse_next \<times> 'm \<times> CodedInputStream) option)) list \<Rightarrow> nat \<Rightarrow>
    'm \<Rightarrow> CodedInputStream \<Rightarrow> (parse_next \<times> 'm \<times> CodedInputStream) option" where
  "case_of cs n = (case map_of cs n of Some f \<Rightarrow> f | None \<Rightarrow> \<lambda>m s. Some (Failure, m, s))"

definition upd_of :: "(nat \<times> (wire_value \<Rightarrow> 'm \<Rightarrow> 'm)) list \<Rightarrow> nat \<Rightarrow> wire_value \<Rightarrow> 'm \<Rightarrow> 'm" where
  "upd_of us n v m = (case map_of us n of Some u \<Rightarrow> u v m | None \<Rightarrow> m)"

definition case_ok :: "(nat \<times> u32) list \<Rightarrow> u32 \<Rightarrow> ('m \<Rightarrow> CodedInputStream \<Rightarrow> (parse_next \<times> 'm \<times> CodedInputStream) option) \<Rightarrow>
    (wire_value \<Rightarrow> 'm \<Rightarrow> 'm) \<Rightarrow> bool" where
  "case_ok tags t f u \<longleftrightarrow> returns f \<and> alike_case tags f \<and> (\<forall>v m s r. value_ok t v \<longrightarrow> stream_ok s \<longrightarrow> bytes_left s = value_bytes v @ r \<longrightarrow>
     (\<exists>nx s'. f m s = Some (nx, u v m, s') \<and> next_ok tags nx s s' r))"

lemma switch_tag_only: "switch_tag tags t = Some n \<Longrightarrow> (n, t) \<in> set tags"
  by (induction tags) (auto split: if_splits)

lemma message_class_fields:
  assumes tags: "mo_tags ops = map (\<lambda>(n, t, f, u). (n, t)) fs"
    and cases: "mo_case ops = case_of (map (\<lambda>(n, t, f, u). (n, f)) fs)"
    and upd: "upd = upd_of (map (\<lambda>(n, t, f, u). (n, u)) fs)"
    and ok: "list_all (\<lambda>(n, t). t \<noteq> 0 \<and> t \<le> mo_cutoff ops \<and> switch_tag (mo_tags ops) t = Some n) (mo_tags ops)"
    and dist: "distinct (map fst (mo_tags ops))"
    and fields: "list_all (\<lambda>(n, t, f, u). case_ok (mo_tags ops) t f u) fs"
  shows "message_class ops upd"
proof
  have field: "\<exists>f u. mo_case ops n = f \<and> upd n = u \<and> case_ok (mo_tags ops) t f u" if nt: "(n, t) \<in> set (mo_tags ops)" for n t
  proof -
    obtain f u where fu: "(n, t, f, u) \<in> set fs" using nt by (auto simp: tags)
    have d: "distinct (map fst (map (\<lambda>(n, t, f, u). (n, f)) fs))" "distinct (map fst (map (\<lambda>(n, t, f, u). (n, u)) fs))"
      using dist by (simp_all add: tags comp_def case_prod_unfold)
    have "map_of (map (\<lambda>(n, t, f, u). (n, f)) fs) n = Some f" "map_of (map (\<lambda>(n, t, f, u). (n, u)) fs) n = Some u"
      using fu by (auto intro!: map_of_is_SomeI [OF d(1)] map_of_is_SomeI [OF d(2)] rev_image_eqI)
    then have "mo_case ops n = f" "upd n = u" by (simp_all add: cases upd case_of_def upd_of_def fun_eq_iff)
    then show ?thesis using fields fu by (auto simp: list_all_iff)
  qed
  fix n t m v s r
  show "switch_tag (mo_tags ops) t = Some n" "t \<noteq> 0 \<and> t \<le> mo_cutoff ops" if "(n, t) \<in> set (mo_tags ops)"
    using ok that by (auto simp: list_all_iff)
  show "(n, t) \<in> set (mo_tags ops)" if "switch_tag (mo_tags ops) t = Some n" by (rule switch_tag_only [OF that])
  show "\<exists>nx s'. mo_case ops n m s = Some (nx, upd n v m, s') \<and> next_ok (mo_tags ops) nx s s' r"
    if "(n, t) \<in> set (mo_tags ops)" "value_ok t v" "stream_ok s" "bytes_left s = value_bytes v @ r"
    using field [OF that(1)] that(2-) unfolding case_ok_def by blast
  have "returns (mo_case ops n) \<and> alike_case (mo_tags ops) (mo_case ops n)"
  proof (cases "map_of (map (\<lambda>(n, t, f, u). (n, f)) fs) n")
    case None
    then show ?thesis by (simp add: cases case_of_def returns_fail alike_fail)
  next
    case (Some f)
    then obtain t u where "(n, t, f, u) \<in> set fs" by (auto dest!: map_of_SomeD)
    then show ?thesis using fields Some by (auto simp: list_all_iff cases case_of_def case_ok_def)
  qed
  then show "returns (mo_case ops n)" "alike_case (mo_tags ops) (mo_case ops n)" by simp_all
qed

subsection \<open>The kinds of field\<close>

fun as_u32 :: "wire_value \<Rightarrow> u32" where
  "as_u32 (WVar x) = of_nat x" | "as_u32 _ = 0"

fun as_u64 :: "wire_value \<Rightarrow> u64" where
  "as_u64 (WVar x) = of_nat x" | "as_u64 _ = 0"

fun as_bool :: "wire_value \<Rightarrow> bool" where
  "as_bool (WVar x) = ((of_nat x :: u32) \<noteq> 0)" | "as_bool _ = False"

fun as_fix32 :: "wire_value \<Rightarrow> u32" where
  "as_fix32 (WFix32 w) = w" | "as_fix32 _ = 0"

fun as_bytes :: "wire_value \<Rightarrow> u8 list" where
  "as_bytes (WBytes b) = b" | "as_bytes _ = []"

lemma ucast_scast_32 [simp]: "(ucast (scast (v :: u32) :: u64) :: u32) = v"
proof (rule bit_word_eqI)
  fix n assume "n < LENGTH(32)"
  then have "n < 31 \<or> n = 31" by auto
  then show "bit (ucast (scast v :: u64) :: u32) n = bit v n"
    by (auto simp: bit_unsigned_iff bit_signed_iff min_def)
qed

lemma as_values [simp]:
  "as_u32 (WVar (unat v)) = v" "as_u32 (WVar (unat (scast v :: u64))) = v" "as_u64 (WVar (unat l)) = l"
  "as_bool (WVar (if b then 1 else 0)) = b"
  by simp_all

lemma unat_below_64 [simp]: "unat (v :: u32) < 18446744073709551616" "unat (l :: u64) < 18446744073709551616"
  using unsigned_less [of v, where 'a = nat] unsigned_less [of l, where 'a = nat] by simp_all

lemma varint_64_length: "x < 2 ^ 64 \<Longrightarrow> length (varint_bytes x) \<le> 10"
  using varint_bytes_length [of x 9] by simp

lemma value_cases:
  "value_ok t v \<Longrightarrow> GetTagWireType t = WIRETYPE_VARINT \<Longrightarrow> \<exists>x. v = WVar x \<and> x < 2 ^ 64"
  "value_ok t v \<Longrightarrow> GetTagWireType t = WIRETYPE_FIXED32 \<Longrightarrow> \<exists>w. v = WFix32 w"
  "value_ok t v \<Longrightarrow> GetTagWireType t = WIRETYPE_LENGTH_DELIMITED \<Longrightarrow> \<exists>b. v = WBytes b \<and> length b < 2 ^ 31"
  by (cases v; simp add: wiretype_defs)+

text \<open>A reader that never faults, and that reads back the values of a wire type.\<close>

definition reader_for :: "u32 \<Rightarrow> (wire_value \<Rightarrow> 'v) \<Rightarrow> (CodedInputStream \<Rightarrow> ('v option \<times> CodedInputStream) option) \<Rightarrow> bool" where
  "reader_for t dec read \<longleftrightarrow> reads_same read \<and>
     (\<forall>s. stream_ok s \<longrightarrow> (\<exists>v s'. read s = Some (v, s') \<and> forth s s' \<and> (v \<noteq> None \<longrightarrow> length (bytes_left s') < length (bytes_left s)))) \<and>
     (\<forall>v s r. value_ok t v \<longrightarrow> stream_ok s \<longrightarrow> bytes_left s = value_bytes v @ r \<longrightarrow> (\<exists>s'. read s = Some (Some (dec v), s') \<and> behind s s' r))"

lemma case_read_field:
  assumes "reader_for t dec read" and "follows tags k"
  shows "case_ok tags t (read_field read st k) (\<lambda>v. st (dec v))"
proof -
  have "returns (read_field read st k)"
    using returns_read_field [OF assms(2)] assms(1) unfolding reader_for_def by blast
  moreover have "alike_case tags (read_field read st k)"
    using alike_read_field [OF assms(2)] assms(1) unfolding reader_for_def by blast
  moreover have "\<exists>nx s'. read_field read st k m s = Some (nx, st (dec v) m, s') \<and> next_ok tags nx s s' r"
    if v: "value_ok t v" "stream_ok s" "bytes_left s = value_bytes v @ r" for v m s r
  proof -
    obtain s1 where "read s = Some (Some (dec v), s1)" "behind s s1 r" using assms(1) v unfolding reader_for_def by blast
    then show ?thesis by (rule read_field_ok [OF assms(2)])
  qed
  ultimately show ?thesis by (simp add: case_ok_def)
qed

lemma reader_var32:
  assumes "GetTagWireType t = WIRETYPE_VARINT"
  shows "reader_for t as_u32 ReadVarint32"
  unfolding reader_for_def
  using ReadVarint32_same ReadVarint32_forth ReadVarint32_at varint_64_length value_cases(1) [OF _ assms] by (metis as_u32.simps(1) value_bytes.simps(1))

lemma reader_kinds:
  "GetTagWireType t = WIRETYPE_VARINT \<Longrightarrow> reader_for t as_u32 ReadPrimitive_INT32"
  "GetTagWireType t = WIRETYPE_VARINT \<Longrightarrow> reader_for t as_u32 ReadPrimitive_UINT32"
  using reader_var32 by (auto simp: ReadPrimitive_INT32_def [abs_def] ReadPrimitive_UINT32_def [abs_def] split_def)

lemma reader_uint64:
  assumes "GetTagWireType t = WIRETYPE_VARINT"
  shows "reader_for t as_u64 ReadPrimitive_UINT64"
  unfolding reader_for_def ReadPrimitive_UINT64_def
  using ReadVarint64_same ReadVarint64_forth ReadVarint64_at varint_64_length value_cases(1) [OF _ assms] by (metis as_u64.simps(1) value_bytes.simps(1))

lemma reader_bool:
  assumes "GetTagWireType t = WIRETYPE_VARINT"
  shows "reader_for t as_bool ReadPrimitive_BOOL"
  unfolding reader_for_def
proof (intro conjI allI impI)
  show "reads_same ReadPrimitive_BOOL" unfolding ReadPrimitive_BOOL_def [abs_def] by (rule reads_same_map [OF ReadVarint32_same])
next
  fix s assume "stream_ok s"
  then obtain v s' where "ReadVarint32 s = Some (v, s')" "forth s s'" "v \<noteq> None \<longrightarrow> length (bytes_left s') < length (bytes_left s)"
    using ReadVarint32_forth by blast
  then show "\<exists>v s'. ReadPrimitive_BOOL s = Some (v, s') \<and> forth s s' \<and> (v \<noteq> None \<longrightarrow> length (bytes_left s') < length (bytes_left s))"
    by (auto simp: ReadPrimitive_BOOL_def)
next
  fix v s r assume *: "value_ok t v" "stream_ok s" "bytes_left s = value_bytes v @ r"
  then obtain x where x: "v = WVar x" "x < 2 ^ 64" using value_cases(1) [OF _ assms] by blast
  then show "\<exists>s'. ReadPrimitive_BOOL s = Some (Some (as_bool v), s') \<and> behind s s' r"
    using ReadVarint32_at [OF *(2), of x r] *(3) varint_64_length by (auto simp: ReadPrimitive_BOOL_def)
qed

lemma reader_fixed32:
  assumes "GetTagWireType t = WIRETYPE_FIXED32"
  shows "reader_for t as_fix32 ReadLittleEndian32"
  unfolding reader_for_def
  using ReadLittleEndian32_same ReadLittleEndian32_forth ReadLittleEndian32_at value_cases(2) [OF _ assms] by (metis as_fix32.simps(1) value_bytes.simps(2))

lemma reader_fixed_kinds:
  "GetTagWireType t = WIRETYPE_FIXED32 \<Longrightarrow> reader_for t as_fix32 ReadPrimitive_FIXED32"
  "GetTagWireType t = WIRETYPE_FIXED32 \<Longrightarrow> reader_for t as_fix32 ReadPrimitive_FLOAT"
  using reader_fixed32 by (auto simp: ReadPrimitive_FIXED32_def [abs_def] ReadPrimitive_FLOAT_def [abs_def] split_def)

lemmas case_kinds [case_ok_intros] =
  case_read_field [OF reader_kinds(1)] case_read_field [OF reader_kinds(2)] case_read_field [OF reader_uint64]
  case_read_field [OF reader_bool] case_read_field [OF reader_fixed_kinds(1)] case_read_field [OF reader_fixed_kinds(2)]

lemma case_string [case_ok_intros]:
  assumes "GetTagWireType t = WIRETYPE_LENGTH_DELIMITED" and "follows tags k"
  shows "case_ok tags t (read_string_field WFL_ReadString old st k) (\<lambda>v. st (as_bytes v))"
proof -
  have "\<exists>nx s'. read_string_field WFL_ReadString old st k m s = Some (nx, st (as_bytes v) m, s') \<and> next_ok tags nx s s' r"
    if v: "value_ok t v" "stream_ok s" "bytes_left s = value_bytes v @ r" for v m s r
  proof -
    obtain b where b: "v = WBytes b" "length b < 2 ^ 31" using value_cases(3) [OF v(1) assms(1)] by blast
    then obtain s1 where "WFL_ReadString (old m) s = Some (True, b, s1)" "behind s s1 r"
      using WFL_ReadString_at [OF v(2), of b r "old m"] v(3) by auto
    from read_string_field_ok [where read = WFL_ReadString and old = old and m = m, OF assms(2) this] b(1) show ?thesis by simp
  qed
  moreover have "returns (read_string_field WFL_ReadString old st k)"
    by (rule returns_read_string_field [OF assms(2) WFL_ReadString_forth])
  moreover have "alike_case tags (read_string_field WFL_ReadString old st k)"
    by (rule alike_read_string_field [OF assms(2) WFL_ReadString_same WFL_ReadString_forth])
  ultimately show ?thesis by (simp add: case_ok_def)
qed

lemma case_bytes [case_ok_intros]:
  "GetTagWireType t = WIRETYPE_LENGTH_DELIMITED \<Longrightarrow> follows tags k \<Longrightarrow>
    case_ok tags t (read_string_field WFL_ReadBytes old st k) (\<lambda>v. st (as_bytes v))"
  unfolding WFL_ReadBytes_eq by (rule case_string)

subsection \<open>Written fields\<close>

lemma WFL_WriteTag_bytes: "WFL_WriteTagToArray n w = varint_bytes (unat (MakeTag n w))"
  by (simp add: WFL_WriteTagToArray_def WriteTagToArray_ok)

lemma written_fields:
  "WriteUInt32ToArray n v = WFL_WriteTagToArray n WIRETYPE_VARINT @ value_bytes (WVar (unat v))"
  "WriteInt32ToArray n v = WFL_WriteTagToArray n WIRETYPE_VARINT @ value_bytes (WVar (unat (scast v :: u64)))"
  "WriteUInt64ToArray n l = WFL_WriteTagToArray n WIRETYPE_VARINT @ value_bytes (WVar (unat l))"
  "WriteBoolToArray n b = WFL_WriteTagToArray n WIRETYPE_VARINT @ value_bytes (WVar (if b then 1 else 0))"
  "WriteFixed32ToArray n v = WFL_WriteTagToArray n WIRETYPE_FIXED32 @ value_bytes (WFix32 v)"
  "WriteFloatToArray n v = WFL_WriteTagToArray n WIRETYPE_FIXED32 @ value_bytes (WFix32 v)"
  "WFL_WriteStringToArray n str = WFL_WriteTagToArray n WIRETYPE_LENGTH_DELIMITED @ value_bytes (WBytes str)"
  "WFL_WriteBytesToArray n str = WFL_WriteTagToArray n WIRETYPE_LENGTH_DELIMITED @ value_bytes (WBytes str)"
  by (simp_all add: WriteUInt32ToArray_def WriteInt32ToArray_def WriteUInt64ToArray_def WriteBoolToArray_def WriteFixed32ToArray_def
      WriteFloatToArray_def WFL_WriteStringToArray_def WFL_WriteBytesToArray_def WriteVarint32ToArray_ok
      WriteVarint32SignExtendedToArray_ok WriteVarint64ToArray_ok)

lemma tag_length:
  assumes "unat n < 2048" and "unat w < 8"
  shows "int (length (WFL_WriteTagToArray n w)) = (if unat n < 16 then 1 else 2)"
proof (cases "n = 0")
  case True
  have "MakeTag 0 w = w" by (simp add: MakeTag_def shl32_def)
  then show ?thesis using True assms(2) varint_bytes.simps [of "unat w"] by (simp add: WFL_WriteTag_bytes)
next
  case False
  then have "unat (MakeTag n w) = 8 * unat n + unat w"
    using unat_MakeTag [of n w] assms by (simp add: num_ok_def unat_gt_0 word_less_nat_alt)
  then show ?thesis
    using varint_bytes_size [of "8 * unat n + unat w" 0] varint_bytes_size [of "8 * unat n + unat w" 1] assms
    by (simp add: WFL_WriteTag_bytes)
qed

lemma written_sizes:
  "int (length (WriteUInt32ToArray n v)) = int (length (WFL_WriteTagToArray n WIRETYPE_VARINT)) + UInt32Size v"
  "int (length (WriteInt32ToArray n v)) = int (length (WFL_WriteTagToArray n WIRETYPE_VARINT)) + Int32Size v"
  "int (length (WriteUInt64ToArray n l)) = int (length (WFL_WriteTagToArray n WIRETYPE_VARINT)) + UInt64Size l"
  "int (length (WriteBoolToArray n b)) = int (length (WFL_WriteTagToArray n WIRETYPE_VARINT)) + 1"
  "int (length (WriteFixed32ToArray n v)) = int (length (WFL_WriteTagToArray n WIRETYPE_FIXED32)) + 4"
  "int (length (WriteFloatToArray n v)) = int (length (WFL_WriteTagToArray n WIRETYPE_FIXED32)) + 4"
  "int (length (WFL_WriteStringToArray n str)) = int (length (WFL_WriteTagToArray n WIRETYPE_LENGTH_DELIMITED)) + StringSize str"
  "int (length (WFL_WriteBytesToArray n str)) = int (length (WFL_WriteTagToArray n WIRETYPE_LENGTH_DELIMITED)) + BytesSize str"
  by (simp_all add: written_fields UInt32Size_def Int32Size_def UInt64Size_def StringSize_def BytesSize_def
      VarintSize32_ok VarintSize32SignExtended_ok VarintSize64_ok varint_bytes.simps)

subsection \<open>Invariants of the message\<close>

definition keeps :: "('m \<Rightarrow> bool) \<Rightarrow> ('m \<Rightarrow> CodedInputStream \<Rightarrow> (parse_next \<times> 'm \<times> CodedInputStream) option) \<Rightarrow> bool" where
  "keeps I f \<longleftrightarrow> (\<forall>m s nx m' s'. I m \<longrightarrow> f m s = Some (nx, m', s') \<longrightarrow> I m')"

lemma keeps_read_field: "(\<And>v m. I m \<Longrightarrow> I (st v m)) \<Longrightarrow> keeps I (read_field read st k)"
  by (fastforce simp: keeps_def read_field_def bind_eq_Some_conv split: option.splits)

lemma keeps_read_string_field: "(\<And>v m. I m \<Longrightarrow> I (st v m)) \<Longrightarrow> keeps I (read_string_field read old st k)"
  by (fastforce simp: keeps_def read_string_field_def bind_eq_Some_conv split: if_splits)

lemmas keeps_fields = keeps_read_field keeps_read_string_field

lemma keeps_case_of: "list_all (\<lambda>(n, f). keeps I f) cs \<Longrightarrow> keeps I (case_of cs n)"
proof (cases "map_of cs n")
  case (Some f)
  then have "(n, f) \<in> set cs" by (rule map_of_SomeD)
  moreover assume "list_all (\<lambda>(n, f). keeps I f) cs"
  ultimately show ?thesis using Some by (auto simp: list_all_iff case_of_def)
qed (simp add: case_of_def keeps_def)

lemma merge_loop_keeps:
  assumes "\<And>n. keeps I (mo_case ops n)" and "\<And>uf m. I m \<Longrightarrow> I (mo_set_unknown ops uf m)"
  shows "I m \<Longrightarrow> merge_loop rtc ops fuel label m s = Some (b, m', s') \<Longrightarrow> I m'"
proof (induction fuel arbitrary: label m s)
  case (Suc fuel)
  have run: "I m'" if "mo_case ops n m s1 = Some (nx, m1, s2)" and
      "(case nx of Break \<Rightarrow> merge_loop rtc ops fuel None m1 s2 | Goto k \<Rightarrow> merge_loop rtc ops fuel (Some k) m1 s2
        | Success \<Rightarrow> Some (True, m1, s2) | Failure \<Rightarrow> Some (False, m1, s2)) = Some (b, m', s')" for n s1 nx m1 s2
  proof -
    have "I m1" using assms(1) [of n] Suc.prems(1) that(1) unfolding keeps_def by blast
    then show ?thesis using that(2) Suc.IH by (cases nx) auto
  qed
  have unusual: "I m'" if "(if t = 0 \<or> GetTagWireType t = WIRETYPE_END_GROUP then Some (True, m, s1)
      else do { (ok, uf, s2) \<leftarrow> SkipField fuel t s1 (mo_unknown ops m);
        if ok then merge_loop rtc ops fuel None (mo_set_unknown ops uf m) s2 else Some (False, mo_set_unknown ops uf m, s2) }) = Some (b, m', s')" for t s1
    using that Suc.prems(1) Suc.IH [OF assms(2) [OF Suc.prems(1)]] assms(2) [OF Suc.prems(1)]
    by (auto simp: bind_eq_Some_conv split: if_splits)
  show ?case
  proof (cases label)
    case (Some n)
    then show ?thesis using Suc.prems(2) run unfolding merge_loop.simps(2) by (auto simp: bind_eq_Some_conv)
  next
    case None
    then obtain t below s1 where t: "rtc (mo_cutoff ops) s = Some ((t, below), s1)"
      using Suc.prems(2) unfolding merge_loop.simps(2) by (auto simp: bind_eq_Some_conv)
    show ?thesis
    proof (cases "below \<and> switch_tag (mo_tags ops) t \<noteq> None")
      case True
      then show ?thesis using Suc.prems(2) None t run unfolding merge_loop.simps(2) by (auto simp: bind_eq_Some_conv)
    next
      case False
      then show ?thesis using Suc.prems(2) None t unusual [of t s1] unfolding merge_loop.simps(2) Let_def by (auto split: option.splits if_splits)
    qed
  qed
qed simp

lemma ParseFromArray_keeps:
  assumes "\<And>n. keeps I (mo_case ops n)" and "\<And>uf m. I m \<Longrightarrow> I (mo_set_unknown ops uf m)" and "I (clear m)"
    and "ParseFromArray rtc ops clear m mem data n = Some (b, m')"
  shows "I m'"
proof -
  obtain ok s' where "merge_loop rtc ops (Suc (length (i_mem (CodedInputStream_ctor mem data n)))) None (clear m) (CodedInputStream_ctor mem data n) = Some (ok, m', s')"
    using assms(4) by (auto simp: ParseFromArray_def InlineParseFromCodedStream_def InlineMergeFromCodedStream_def
        MergePartialFromCodedStream_def bind_eq_Some_conv split: if_splits)
  from merge_loop_keeps [OF assms(1,2,3) this] show ?thesis .
qed

subsection \<open>Parsing an array\<close>

context message_class
begin

lemma ParseFromArray_total:
  assumes "cutoff_reader rtc" and "0 \<le> data" and "0 \<le> n" and "data + n \<le> int (length mem)" and "n < kDefaultTotalBytesLimit"
  shows "\<exists>b m'. ParseFromArray rtc ops clear m mem data n = Some (b, m')"
proof -
  let ?s = "CodedInputStream_ctor mem data n"
  have s: "stream_ok ?s" "bytes_left ?s = take (nat n) (drop (nat data) mem)" using CodedInputStream_ctor_ok [OF assms(2-5)] by simp_all
  have "i_mem ?s = mem" by (simp add: CodedInputStream_ctor_def)
  then have "length (bytes_left ?s) < Suc (length (i_mem ?s))" using s(2) by simp
  from parse_total [OF assms(1) s(1) this, of None "clear m"] show ?thesis
    by (auto simp: ParseFromArray_def InlineParseFromCodedStream_def InlineMergeFromCodedStream_def MergePartialFromCodedStream_def)
qed

lemma ParseFromArray_items:
  assumes "cutoff_reader rtc" and "\<And>m. mo_is_initialized ops m" and "list_all item_ok is"
    and mem: "mem = pre @ concat (map item_bytes is) @ post" and n: "n = int (length (concat (map item_bytes is)))"
    and "n < kDefaultTotalBytesLimit"
  shows "ParseFromArray rtc ops clear m mem (int (length pre)) n = Some (True, fold item_upd is (clear m))"
proof -
  let ?s = "CodedInputStream_ctor mem (int (length pre)) n"
  have s: "stream_ok ?s" "below_limit ?s" "bytes_left ?s = concat (map item_bytes is)"
    using CodedInputStream_ctor_ok [of "int (length pre)" n mem] assms(6) by (simp_all add: mem n)
  have f: "i_mem ?s = mem" "i_recursion_depth ?s = 0" "i_recursion_limit ?s = 100"
    by (simp_all add: CodedInputStream_ctor_def default_recursion_limit_def)
  have "loop_ready ?s" "loop_at None is ?s" "length (bytes_left ?s) < Suc (length (i_mem ?s))"
    using s f by (simp_all add: loop_ready_def loop_at_def) (simp add: mem)
  from parse_items [OF assms(1) this(2) assms(3) this(1,3), of "clear m"] assms(2) show ?thesis
    by (auto simp: ParseFromArray_def InlineParseFromCodedStream_def InlineMergeFromCodedStream_def MergePartialFromCodedStream_def read_out_def)
qed

end

subsection \<open>Reasoning about has-bits\<close>

definition pick :: "bool \<Rightarrow> 'a \<Rightarrow> 'a \<Rightarrow> 'a" where
  "pick c a b = (if c then a else b)"

lemma pick_simps [simp]: "pick True a b = a" "pick False a b = b" "pick c a a = a"
  by (simp_all add: pick_def)

lemma pick_default: "c \<or> a = b \<Longrightarrow> pick c a b = a"
  by (auto simp: pick_def)

lemma if_has_I: "(\<And>m. I m \<Longrightarrow> I (f m)) \<Longrightarrow> I m \<Longrightarrow> I (if_has c f m)"
  by (simp add: if_has_def)

lemma single_bit: "x AND push_bit i 1 \<noteq> 0 \<Longrightarrow> x AND push_bit i 1 = (push_bit i 1 :: u32)"
proof -
  assume "x AND push_bit i 1 \<noteq> 0"
  then obtain n where "bit (x AND push_bit i 1) n" using bit_eqI [of "x AND push_bit i 1" 0] by fastforce
  then have "bit x i" by (auto simp: bit_simps)
  then show ?thesis by (intro bit_word_eqI) (auto simp: bit_simps)
qed

lemma single_bits:
  fixes x :: u32
  shows "x AND 1 \<noteq> 0 \<Longrightarrow> x AND 1 = 1" "x AND 2 \<noteq> 0 \<Longrightarrow> x AND 2 = 2" "x AND 4 \<noteq> 0 \<Longrightarrow> x AND 4 = 4" "x AND 8 \<noteq> 0 \<Longrightarrow> x AND 8 = 8"
    "x AND 16 \<noteq> 0 \<Longrightarrow> x AND 16 = 16" "x AND 32 \<noteq> 0 \<Longrightarrow> x AND 32 = 32" "x AND 64 \<noteq> 0 \<Longrightarrow> x AND 64 = 64" "x AND 128 \<noteq> 0 \<Longrightarrow> x AND 128 = 128"
    "x AND 256 \<noteq> 0 \<Longrightarrow> x AND 256 = 256" "x AND 512 \<noteq> 0 \<Longrightarrow> x AND 512 = 512" "x AND 1024 \<noteq> 0 \<Longrightarrow> x AND 1024 = 1024"
    "x AND 2048 \<noteq> 0 \<Longrightarrow> x AND 2048 = 2048" "x AND 4096 \<noteq> 0 \<Longrightarrow> x AND 4096 = 4096" "x AND 8192 \<noteq> 0 \<Longrightarrow> x AND 8192 = 8192"
    "x AND 16384 \<noteq> 0 \<Longrightarrow> x AND 16384 = 16384" "x AND 32768 \<noteq> 0 \<Longrightarrow> x AND 32768 = 32768" "x AND 65536 \<noteq> 0 \<Longrightarrow> x AND 65536 = 65536"
    "x AND 131072 \<noteq> 0 \<Longrightarrow> x AND 131072 = 131072" "x AND 262144 \<noteq> 0 \<Longrightarrow> x AND 262144 = 262144"
    "x AND 524288 \<noteq> 0 \<Longrightarrow> x AND 524288 = 524288" "x AND 1048576 \<noteq> 0 \<Longrightarrow> x AND 1048576 = 1048576"
  using single_bit [of x 0] single_bit [of x 1] single_bit [of x 2] single_bit [of x 3] single_bit [of x 4] single_bit [of x 5]
    single_bit [of x 6] single_bit [of x 7] single_bit [of x 8] single_bit [of x 9] single_bit [of x 10] single_bit [of x 11]
    single_bit [of x 12] single_bit [of x 13] single_bit [of x 14] single_bit [of x 15] single_bit [of x 16] single_bit [of x 17]
    single_bit [of x 18] single_bit [of x 19] single_bit [of x 20]
  by simp_all

text \<open>The effect of an optional setter on the has-bits, for a mask of one bit.\<close>

lemma set_bits: "(x AND k \<noteq> 0 \<Longrightarrow> x AND k = k) \<Longrightarrow> (if x AND k \<noteq> 0 then h OR k else h) = h OR (x AND (k :: u32))"
  by auto

lemma or_and_absorb [simp]: "(x AND k) OR k = (k :: u32)"
  by (rule bit_word_eqI) (auto simp: bit_simps)

lemmas has_or = bit.conj_disj_distrib2 [where ?'a = "32 word"]

lemma has_groups: "(x AND a) OR (x AND b) = x AND (a OR (b :: u32))" "(x AND a) OR (x AND b) OR y = (x AND (a OR b)) OR y"
  by (simp_all add: bit.conj_disj_distrib or.assoc)

lemma and_not_mask_zero: "x AND k = x \<Longrightarrow> x AND NOT k = (0 :: u32)"
proof -
  assume "x AND k = x"
  then have "x AND NOT k = (x AND k) AND NOT k" by simp
  then show ?thesis by (simp add: and.assoc)
qed

lemma wiretype_small [simp]: "unat WIRETYPE_VARINT < 8" "unat WIRETYPE_FIXED32 < 8" "unat WIRETYPE_LENGTH_DELIMITED < 8"
  by (simp_all add: wiretype_defs)

lemma written_strings_size:
  "int (length (concat (map (WFL_WriteStringToArray n) ps))) =
     int (length (WFL_WriteTagToArray n WIRETYPE_LENGTH_DELIMITED)) * int (length ps) + sum_list (map StringSize ps)"
  by (induction ps) (simp_all add: written_sizes algebra_simps)

end
