(* ===== verification/MessageLite.thy ===== *)
theory MessageLite
  imports MessageFields
begin

text \<open>
  The entry points of \<^verbatim>\<open>message_lite.cc\<close> that parse: from a coded stream, from an array or a string, and
  from an input stream, whole or up to a number of bytes; the \<open>Partial\<close> versions leave out the
  check for required fields. A parse of an input stream returns the state the input stream is left in
  when the \<open>CodedInputStream\<close> is destroyed. Parsing blocks gives the result of parsing the array at once.
\<close>

definition InlineParsePartialFromCodedStream :: "tag_reader \<Rightarrow> 'm message_ops \<Rightarrow> ('m \<Rightarrow> 'm) \<Rightarrow> 'm \<Rightarrow> CodedInputStream \<Rightarrow> (bool \<times> 'm \<times> CodedInputStream) option" where
  "InlineParsePartialFromCodedStream rtc ops clear m input = MergePartialFromCodedStream rtc ops (clear m) input"

definition ParsePartialFromArray :: "tag_reader \<Rightarrow> 'm message_ops \<Rightarrow> ('m \<Rightarrow> 'm) \<Rightarrow> 'm \<Rightarrow> u8 list \<Rightarrow> int \<Rightarrow> int \<Rightarrow> (bool \<times> 'm) option" where
  "ParsePartialFromArray rtc ops clear m mem data n = do {
     (ok, m, input) \<leftarrow> InlineParsePartialFromCodedStream rtc ops clear m (CodedInputStream_ctor mem data n);
     Some (ok \<and> ConsumedEntireMessage input, m) }"

text \<open>A string is a block of memory of its own.\<close>

definition ParseFromString :: "tag_reader \<Rightarrow> 'm message_ops \<Rightarrow> ('m \<Rightarrow> 'm) \<Rightarrow> 'm \<Rightarrow> u8 list \<Rightarrow> (bool \<times> 'm) option" where
  "ParseFromString rtc ops clear m data = ParseFromArray rtc ops clear m data 0 (int (length data))"

definition ParsePartialFromString :: "tag_reader \<Rightarrow> 'm message_ops \<Rightarrow> ('m \<Rightarrow> 'm) \<Rightarrow> 'm \<Rightarrow> u8 list \<Rightarrow> (bool \<times> 'm) option" where
  "ParsePartialFromString rtc ops clear m data = ParsePartialFromArray rtc ops clear m data 0 (int (length data))"

definition ParseFromZeroCopyStream :: "tag_reader \<Rightarrow> 'm message_ops \<Rightarrow> ('m \<Rightarrow> 'm) \<Rightarrow> 'm \<Rightarrow> u8 list \<Rightarrow> ArrayInputStream \<Rightarrow>
    (bool \<times> 'm \<times> ArrayInputStream option) option" where
  "ParseFromZeroCopyStream rtc ops clear m mem input = do {
     decoder \<leftarrow> CodedInputStream_ctor_input mem input;
     (ok, m, decoder) \<leftarrow> InlineParseFromCodedStream rtc ops clear m decoder;
     input \<leftarrow> CodedInputStream_dtor decoder;
     Some (ok \<and> ConsumedEntireMessage decoder, m, input) }"

definition ParsePartialFromZeroCopyStream :: "tag_reader \<Rightarrow> 'm message_ops \<Rightarrow> ('m \<Rightarrow> 'm) \<Rightarrow> 'm \<Rightarrow> u8 list \<Rightarrow> ArrayInputStream \<Rightarrow>
    (bool \<times> 'm \<times> ArrayInputStream option) option" where
  "ParsePartialFromZeroCopyStream rtc ops clear m mem input = do {
     decoder \<leftarrow> CodedInputStream_ctor_input mem input;
     (ok, m, decoder) \<leftarrow> InlineParsePartialFromCodedStream rtc ops clear m decoder;
     input \<leftarrow> CodedInputStream_dtor decoder;
     Some (ok \<and> ConsumedEntireMessage decoder, m, input) }"

definition ParseFromBoundedZeroCopyStream :: "tag_reader \<Rightarrow> 'm message_ops \<Rightarrow> ('m \<Rightarrow> 'm) \<Rightarrow> 'm \<Rightarrow> u8 list \<Rightarrow> ArrayInputStream \<Rightarrow> int \<Rightarrow>
    (bool \<times> 'm \<times> ArrayInputStream option) option" where
  "ParseFromBoundedZeroCopyStream rtc ops clear m mem input sz = do {
     decoder \<leftarrow> CodedInputStream_ctor_input mem input;
     let decoder = snd (PushLimit sz decoder);
     (ok, m, decoder) \<leftarrow> InlineParseFromCodedStream rtc ops clear m decoder;
     input \<leftarrow> CodedInputStream_dtor decoder;
     Some (ok \<and> ConsumedEntireMessage decoder \<and> BytesUntilLimit decoder = 0, m, input) }"

definition ParsePartialFromBoundedZeroCopyStream :: "tag_reader \<Rightarrow> 'm message_ops \<Rightarrow> ('m \<Rightarrow> 'm) \<Rightarrow> 'm \<Rightarrow> u8 list \<Rightarrow> ArrayInputStream \<Rightarrow> int \<Rightarrow>
    (bool \<times> 'm \<times> ArrayInputStream option) option" where
  "ParsePartialFromBoundedZeroCopyStream rtc ops clear m mem input sz = do {
     decoder \<leftarrow> CodedInputStream_ctor_input mem input;
     let decoder = snd (PushLimit sz decoder);
     (ok, m, decoder) \<leftarrow> InlineParsePartialFromCodedStream rtc ops clear m decoder;
     input \<leftarrow> CodedInputStream_dtor decoder;
     Some (ok \<and> ConsumedEntireMessage decoder \<and> BytesUntilLimit decoder = 0, m, input) }"

text \<open>Without required fields the partial versions are the same.\<close>

lemma Inline_total:
  assumes "\<And>m. mo_is_initialized ops m"
  shows "InlineMergeFromCodedStream rtc ops m s = MergePartialFromCodedStream rtc ops m s"
    and "InlineParseFromCodedStream rtc ops clear m s = MergePartialFromCodedStream rtc ops (clear m) s"
proof -
  show "InlineMergeFromCodedStream rtc ops m s = MergePartialFromCodedStream rtc ops m s" for m s
    using assms by (cases "MergePartialFromCodedStream rtc ops m s") (auto simp: InlineMergeFromCodedStream_def)
  then show "InlineParseFromCodedStream rtc ops clear m s = MergePartialFromCodedStream rtc ops (clear m) s"
    by (simp add: InlineParseFromCodedStream_def)
qed

lemma partial_same:
  assumes "\<And>m. mo_is_initialized ops m"
  shows "InlineParsePartialFromCodedStream rtc ops = InlineParseFromCodedStream rtc ops"
    and "ParsePartialFromZeroCopyStream rtc ops = ParseFromZeroCopyStream rtc ops"
    and "ParsePartialFromBoundedZeroCopyStream rtc ops = ParseFromBoundedZeroCopyStream rtc ops"
    and "ParsePartialFromArray rtc ops = ParseFromArray rtc ops"
proof -
  show *: "InlineParsePartialFromCodedStream rtc ops = InlineParseFromCodedStream rtc ops"
    by (simp add: fun_eq_iff InlineParsePartialFromCodedStream_def Inline_total(2) [OF assms])
  show "ParsePartialFromZeroCopyStream rtc ops = ParseFromZeroCopyStream rtc ops"
    by (simp add: fun_eq_iff ParsePartialFromZeroCopyStream_def ParseFromZeroCopyStream_def *)
  show "ParsePartialFromBoundedZeroCopyStream rtc ops = ParseFromBoundedZeroCopyStream rtc ops"
    by (simp add: fun_eq_iff ParsePartialFromBoundedZeroCopyStream_def ParseFromBoundedZeroCopyStream_def *)
  show "ParsePartialFromArray rtc ops = ParseFromArray rtc ops"
    by (simp add: fun_eq_iff ParsePartialFromArray_def ParseFromArray_def *)
qed

subsection \<open>Limits\<close>

lemma PushLimit_left:
  assumes "stream_ok s" and "0 \<le> n" and "n \<le> INT_MAX - CurrentPosition s"
  defines "s' \<equiv> snd (PushLimit n s)"
  shows "stream_ok s' \<and> bytes_left s' = take (nat n) (bytes_left s) \<and> (below_limit s \<longrightarrow> below_limit s') \<and>
    i_mem s' = i_mem s \<and> i_input s' = i_input s \<and> i_recursion_depth s' = i_recursion_depth s \<and> i_recursion_limit s' = i_recursion_limit s \<and>
    i_legitimate_message_end s' = i_legitimate_message_end s \<and> i_current_limit s' = min (CurrentPosition s + n) (i_current_limit s)"
proof -
  define l where "l = min (CurrentPosition s + n) (i_current_limit s)"
  define u where "u = s\<lparr>i_current_limit := l\<rparr>"
  have s': "s' = RecomputeBufferLimits u" using assms(2,3) by (simp add: s'_def PushLimit_def Let_def u_def l_def)
  have u: "i_input u = i_input s" "i_mem u = i_mem s" "i_buffer u = i_buffer s" "i_total_bytes_read u = i_total_bytes_read s"
    "i_current_limit u = l" "i_total_bytes_limit u = i_total_bytes_limit s"
    "i_buffer_size_after_limit u = i_buffer_size_after_limit s" "BufferSize u = BufferSize s" "CurrentPosition u = CurrentPosition s"
    by (simp_all add: u_def BufferSize_def CurrentPosition_def)
  have ok: "stream_ok s'" using PushLimit_ok [OF assms(1)] by (simp add: s'_def)
  note pos = stream_ok_position [OF assms(1)]
  have bl: "bytes_left s' = take (nat n) (bytes_left s)"
  proof (cases "i_input s")
    case None
    then have f: "i_buffer_size_after_limit s = i_total_bytes_read s - min (i_current_limit s) (i_total_bytes_limit s)"
      "i_current_limit s \<le> i_total_bytes_read s" "0 \<le> BufferSize s"
      using assms(1) BufferSize_nonneg [OF assms(1)] by (simp_all add: stream_ok_def flat_ok_def)
    have "BufferSize s' + i_buffer_size_after_limit s' = BufferSize s + i_buffer_size_after_limit s"
      unfolding s' limits_buffer(1) u ..
    moreover have "i_buffer_size_after_limit s' = max 0 (i_total_bytes_read s - min l (i_total_bytes_limit s))"
      unfolding s' limits_buffer(2) u ..
    moreover have "CurrentPosition s = min (i_current_limit s) (i_total_bytes_limit s) - BufferSize s"
      using f(1) by (simp add: CurrentPosition_def)
    ultimately have "BufferSize s' = min n (BufferSize s)" using f assms(2) unfolding l_def by linarith
    then have "nat (BufferSize s') = min (nat n) (nat (BufferSize s))" by simp
    then show ?thesis using None by (simp add: bytes_left_def s' u)
  next
    case (Some a)
    have cp: "CurrentPosition s' = CurrentPosition s" unfolding s' limits_buffer(3) u ..
    define x where "x = min (min (i_current_limit s) (i_total_bytes_limit s)) (ai_size a) - CurrentPosition s"
    have "min (min l (i_total_bytes_limit s)) (ai_size a) - CurrentPosition s = min n x" unfolding l_def x_def by linarith
    then have "nat (min (min l (i_total_bytes_limit s)) (ai_size a) - CurrentPosition s) = min (nat n) (nat x)"
      by (simp add: min_def nat_le_eq_zle)
    then show ?thesis using Some cp by (simp add: bytes_left_def x_def [symmetric]) (simp add: s' u)
  qed
  have "stream_end s' = stream_end s" unfolding stream_end_def s' limits_fields u ..
  moreover have "min l e \<le> min (i_current_limit s) e" for e by (simp add: l_def)
  ultimately have "below_limit s \<longrightarrow> below_limit s'" unfolding below_limit_def s' limits_fields u by (metis le_less_trans)
  then show ?thesis using ok bl by (simp add: s' u l_def) (simp add: u_def)
qed

text \<open>A stream over blocks with nothing left before its limit has reached the limit or the end of the array.\<close>

lemma read_out_position:
  assumes "read_out s s'" and "i_input s = Some a" and "i_current_limit s \<le> ai_size a" and "i_current_limit s < i_total_bytes_limit s"
  shows "CurrentPosition s' = i_current_limit s" and "i_current_limit s' = i_current_limit s"
proof -
  have s': "stream_ok s'" "bytes_left s' = []" and f: "frame s' = frame s" using assms(1) by (simp_all add: read_out_def moved_def)
  obtain a' where a': "i_input s' = Some a'" "ai_data a' = ai_data a" "ai_size a' = ai_size a"
    using f assms(2) by (auto simp: frame_def)
  show l: "i_current_limit s' = i_current_limit s" using f by (simp add: frame_def)
  have t: "i_total_bytes_limit s' = i_total_bytes_limit s" using f by (simp add: frame_def)
  have arr: "0 \<le> ai_data a'" "ai_data a' + ai_size a' \<le> int (length (i_mem s'))"
    using s'(1) a'(1) by (simp_all add: stream_ok_def blocks_ok_def array_input_ok_def)
  note pos = stream_ok_position [OF s'(1)]
  have "min (min (i_current_limit s) (i_total_bytes_limit s)) (ai_size a) = i_current_limit s" using assms(3,4) by simp
  then have "take (nat (i_current_limit s - CurrentPosition s')) (drop (nat (ai_data a + CurrentPosition s')) (i_mem s')) = []"
    using s'(2) a' l t by (simp add: bytes_left_def)
  then have "i_current_limit s \<le> CurrentPosition s' \<or> int (length (i_mem s')) \<le> ai_data a + CurrentPosition s'"
    using pos(1) arr(1) a'(2) by (auto simp: le_nat_iff)
  then show "CurrentPosition s' = i_current_limit s" using pos(2) arr assms(3) a'(2,3) unfolding l by linarith
qed

subsection \<open>Parsing input streams\<close>

context message_class
begin

text \<open>An input stream of any block size gives the message and the verdict of the array; it is left in a good state.\<close>

lemma ParseFromZeroCopyStream_array:
  assumes "cutoff_reader rtc" and "\<And>m. mo_is_initialized ops m"
    and "0 \<le> data" and "0 \<le> n" and "data + n \<le> int (length mem)" and "n < kDefaultTotalBytesLimit"
  shows "\<exists>b m' input. ParseFromZeroCopyStream rtc ops clear m mem (ArrayInputStream_ctor data n block_size) = Some (b, m', Some input) \<and>
    array_input_ok mem input \<and> ParseFromArray rtc ops clear m mem data n = Some (b, m')"
proof -
  let ?a = "ArrayInputStream_ctor data n block_size" and ?t = "CodedInputStream_ctor mem data n"
  have n31: "n \<le> 2147483647" using assms(6) by (simp add: kDefaultTotalBytesLimit_def)
  have a: "array_input_ok mem ?a" "ai_position ?a = 0" "ai_size ?a = n" "ai_data ?a = data"
    using ArrayInputStream_ctor_ok [OF assms(3-5) n31] by (simp_all add: ArrayInputStream_ctor_def)
  obtain s where s: "CodedInputStream_ctor_input mem ?a = Some s" "stream_ok s" "below_limit s" "i_mem s = mem"
    "bytes_left s = take (nat n) (drop (nat data) mem)" "i_recursion_depth s = 0" "i_recursion_limit s = 100" "\<not> i_legitimate_message_end s"
    "\<exists>a'. i_input s = Some a'"
    using CodedInputStream_ctor_input_ok [OF a(1,2)] assms(6) a(3,4) by auto
  have t: "stream_ok ?t" "below_limit ?t" "bytes_left ?t = bytes_left s" "i_mem ?t = mem" "i_recursion_depth ?t = 0" "i_recursion_limit ?t = 100"
    "\<not> i_legitimate_message_end ?t"
    using CodedInputStream_ctor_ok [OF assms(3-6)] s(5) by (simp_all add: CodedInputStream_ctor_def default_recursion_limit_def)
  have ag: "agree s ?t" using s t by (simp add: agree_def)
  have len: "length (bytes_left s) < Suc (length mem)" using s(5) by simp
  obtain b m' s' t' where r: "merge_loop rtc ops (Suc (length mem)) None (clear m) s = Some (b, m', s')"
    "merge_loop rtc ops (Suc (length mem)) None (clear m) ?t = Some (b, m', t')" "same_end s' t'"
    using merge_loop_alike [OF assms(1) ag len] by blast
  then have "forth s s'" using parse_total [OF assms(1) s(2) len, of None "clear m"] by auto
  then have ok: "stream_ok s'" and fr: "frame s' = frame s" by (simp_all add: forth_def moved_def)
  obtain a' where a': "i_input s' = Some a'" using fr s(9) by (auto simp: frame_def)
  have "i_mem s' = mem" using fr s(4) by (simp add: frame_def)
  then obtain input where "CodedInputStream_dtor s' = Some (Some input)" "array_input_ok mem input"
    using CodedInputStream_dtor_ok [OF ok] a' by auto
  then show ?thesis
    using s(1,4) t(4) r by (simp add: ParseFromZeroCopyStream_def ParseFromArray_def Inline_total [OF assms(2)]
      MergePartialFromCodedStream_def ConsumedEntireMessage_def same_end_def)
qed

text \<open>A bounded parse reads the items of its range and leaves the input stream right behind them.\<close>

lemma ParseFromBoundedZeroCopyStream_items:
  assumes "cutoff_reader rtc" and "\<And>m. mo_is_initialized ops m" and "list_all item_ok is"
    and mem: "mem = pre @ concat (map item_bytes is) @ post" and k: "k = int (length (concat (map item_bytes is)))"
    and n: "n = k + int (length rest)" and post: "post = rest @ post'" and "n < kDefaultTotalBytesLimit"
  shows "\<exists>input. ParseFromBoundedZeroCopyStream rtc ops clear m mem (ArrayInputStream_ctor (int (length pre)) n block_size) k =
      Some (True, fold item_upd is (clear m), Some input) \<and> AIS_ByteCount input = k"
proof -
  let ?a = "ArrayInputStream_ctor (int (length pre)) n block_size"
  have n31: "n \<le> 2147483647" using assms(8) by (simp add: kDefaultTotalBytesLimit_def)
  have range: "0 \<le> int (length pre)" "0 \<le> n" "int (length pre) + n \<le> int (length mem)" by (simp_all add: n k mem post)
  have a: "array_input_ok mem ?a" "ai_position ?a = 0" "ai_size ?a = n" "ai_data ?a = int (length pre)"
    using ArrayInputStream_ctor_ok [OF range n31] by (simp_all add: ArrayInputStream_ctor_def)
  obtain s b where s: "CodedInputStream_ctor_input mem ?a = Some s" "stream_ok s" "below_limit s" "i_mem s = mem"
    "bytes_left s = take (nat n) (drop (length pre) mem)" "i_recursion_depth s = 0" "i_recursion_limit s = 100"
    "i_current_limit s = INT_MAX" "i_input s = Some b" "ai_size b = n" "ai_data b = int (length pre)" "CurrentPosition s = 0"
    "i_total_bytes_limit s = kDefaultTotalBytesLimit"
    using CodedInputStream_ctor_input_ok [OF a(1,2)] assms(8) a(3,4) by auto
  define s1 where "s1 = snd (PushLimit k s)"
  have lim: "k < kDefaultTotalBytesLimit" "kDefaultTotalBytesLimit < INT_MAX" "0 \<le> k"
    using assms(8) by (simp_all add: n k kDefaultTotalBytesLimit_def INT_MAX_def)
  have p: "0 \<le> k" "k \<le> INT_MAX - CurrentPosition s" using lim s(12) by simp_all
  have s1: "stream_ok s1" "below_limit s1" "i_mem s1 = mem" "i_input s1 = Some b" "i_recursion_depth s1 = 0" "i_recursion_limit s1 = 100"
    "i_current_limit s1 = k" "bytes_left s1 = take (nat k) (bytes_left s)"
    using PushLimit_left [OF s(2) p] s lim unfolding s1_def by simp_all
  have bl: "bytes_left s1 = concat (map item_bytes is)"
    unfolding s1(8) s(5) by (simp add: mem post n k)
  have t: "i_total_bytes_limit s1 = kDefaultTotalBytesLimit" using s(13) by (simp add: s1_def PushLimit_def Let_def)
  have "loop_ready s1" "loop_at None is s1" "length (bytes_left s1) < Suc (length (i_mem s1))"
    using s1 bl by (simp_all add: loop_ready_def loop_at_def) (simp add: mem)
  from parse_items [OF assms(1) this(2) assms(3) this(1,3), of "clear m"] obtain s' where
    r: "merge_loop rtc ops (Suc (length mem)) None (clear m) s1 = Some (True, fold item_upd is (clear m), s')" "read_out s1 s'"
    using s1(3) by auto
  have "k \<le> ai_size b" using s(10) by (simp add: n)
  then have pos: "CurrentPosition s' = k" "i_current_limit s' = k"
    using read_out_position [OF r(2) s1(4)] s1(7) t lim(1) by simp_all
  have ok: "stream_ok s'" and fr: "frame s' = frame s1" using r(2) by (simp_all add: read_out_def moved_def)
  obtain b' where b': "i_input s' = Some b'" "ai_size b' = n" using fr s1(4) s(10) by (auto simp: frame_def)
  then obtain input where "CodedInputStream_dtor s' = Some (Some input)" "AIS_ByteCount input = min n k"
    using CodedInputStream_dtor_ok [OF ok] pos(1) by auto
  moreover have "BytesUntilLimit s' = 0" using pos lim by (simp add: BytesUntilLimit_def)
  moreover have "ConsumedEntireMessage s'" using r(2) by (simp add: read_out_def)
  ultimately show ?thesis
    using s(1) s1(3) r(1) n by (simp add: ParseFromBoundedZeroCopyStream_def Inline_total [OF assms(2)]
      MergePartialFromCodedStream_def s1_def [symmetric])
qed

end

end
