(* ===== verification/NetTick.thy ===== *)
theory NetTick
  imports MessageLite
begin

text \<open>
  The message class \<open>CNETMsg_Tick\<close> of \<^verbatim>\<open>netmessages_public.pb.cc\<close>: the record has the members
  of the class, the accessors of \<^verbatim>\<open>netmessages_public.pb.h\<close> work on its has-bits, and one definition
  per case of the parser is put together in \<open>nt_ops\<close>.
\<close>

subsection \<open>The class\<close>

record CNETMsg_Tick =
  nt_has_bits :: u32
  nt_unknown_fields :: "unknown_field list"
  nt_cached_size :: int
  nt_tick :: u32
  nt_host_computationtime :: u32
  nt_host_computationtime_std_deviation :: u32
  nt_host_framestarttime_std_deviation :: u32

definition has_nt_tick :: "CNETMsg_Tick \<Rightarrow> bool" where
  "has_nt_tick m \<longleftrightarrow> nt_has_bits m AND 0x00000001 \<noteq> 0"
definition set_nt_tick :: "u32 \<Rightarrow> CNETMsg_Tick \<Rightarrow> CNETMsg_Tick" where
  "set_nt_tick v m = m\<lparr>nt_has_bits := nt_has_bits m OR 0x00000001, nt_tick := v\<rparr>"
definition clear_nt_tick :: "CNETMsg_Tick \<Rightarrow> CNETMsg_Tick" where
  "clear_nt_tick m = m\<lparr>nt_tick := 0, nt_has_bits := nt_has_bits m AND NOT 0x00000001\<rparr>"

definition has_nt_host_computationtime :: "CNETMsg_Tick \<Rightarrow> bool" where
  "has_nt_host_computationtime m \<longleftrightarrow> nt_has_bits m AND 0x00000002 \<noteq> 0"
definition set_nt_host_computationtime :: "u32 \<Rightarrow> CNETMsg_Tick \<Rightarrow> CNETMsg_Tick" where
  "set_nt_host_computationtime v m = m\<lparr>nt_has_bits := nt_has_bits m OR 0x00000002, nt_host_computationtime := v\<rparr>"
definition clear_nt_host_computationtime :: "CNETMsg_Tick \<Rightarrow> CNETMsg_Tick" where
  "clear_nt_host_computationtime m = m\<lparr>nt_host_computationtime := 0, nt_has_bits := nt_has_bits m AND NOT 0x00000002\<rparr>"

definition has_nt_host_computationtime_std_deviation :: "CNETMsg_Tick \<Rightarrow> bool" where
  "has_nt_host_computationtime_std_deviation m \<longleftrightarrow> nt_has_bits m AND 0x00000004 \<noteq> 0"
definition set_nt_host_computationtime_std_deviation :: "u32 \<Rightarrow> CNETMsg_Tick \<Rightarrow> CNETMsg_Tick" where
  "set_nt_host_computationtime_std_deviation v m = m\<lparr>nt_has_bits := nt_has_bits m OR 0x00000004,
    nt_host_computationtime_std_deviation := v\<rparr>"
definition clear_nt_host_computationtime_std_deviation :: "CNETMsg_Tick \<Rightarrow> CNETMsg_Tick" where
  "clear_nt_host_computationtime_std_deviation m = m\<lparr>nt_host_computationtime_std_deviation := 0, nt_has_bits := nt_has_bits m AND
    NOT 0x00000004\<rparr>"

definition has_nt_host_framestarttime_std_deviation :: "CNETMsg_Tick \<Rightarrow> bool" where
  "has_nt_host_framestarttime_std_deviation m \<longleftrightarrow> nt_has_bits m AND 0x00000008 \<noteq> 0"
definition set_nt_host_framestarttime_std_deviation :: "u32 \<Rightarrow> CNETMsg_Tick \<Rightarrow> CNETMsg_Tick" where
  "set_nt_host_framestarttime_std_deviation v m = m\<lparr>nt_has_bits := nt_has_bits m OR 0x00000008, nt_host_framestarttime_std_deviation
    := v\<rparr>"
definition clear_nt_host_framestarttime_std_deviation :: "CNETMsg_Tick \<Rightarrow> CNETMsg_Tick" where
  "clear_nt_host_framestarttime_std_deviation m = m\<lparr>nt_host_framestarttime_std_deviation := 0, nt_has_bits := nt_has_bits m AND NOT
    0x00000008\<rparr>"

definition nt_SharedCtor :: CNETMsg_Tick where
  "nt_SharedCtor = \<lparr>nt_has_bits = 0, nt_unknown_fields = [], nt_cached_size = 0,
     nt_tick = 0, nt_host_computationtime = 0, nt_host_computationtime_std_deviation = 0, nt_host_framestarttime_std_deviation = 0\<rparr>"

definition nt_Clear :: "CNETMsg_Tick \<Rightarrow> CNETMsg_Tick" where
  "nt_Clear m =
     (m\<lparr>nt_tick := 0, nt_host_computationtime := 0, nt_host_computationtime_std_deviation := 0, nt_host_framestarttime_std_deviation
       := 0, nt_has_bits := 0, nt_unknown_fields := []\<rparr>)"

subsection \<open>Parsing\<close>

definition parse_nt_tick :: "CNETMsg_Tick \<Rightarrow> CodedInputStream \<Rightarrow> (parse_next \<times> CNETMsg_Tick \<times>
  CodedInputStream) option" where
  "parse_nt_tick = read_field ReadPrimitive_UINT32 set_nt_tick (expect_tags [(32, 4)])"

definition parse_nt_host_computationtime :: "CNETMsg_Tick \<Rightarrow> CodedInputStream \<Rightarrow> (parse_next \<times> CNETMsg_Tick
  \<times> CodedInputStream) option" where
  "parse_nt_host_computationtime = read_field ReadPrimitive_UINT32 set_nt_host_computationtime (expect_tags [(40, 5)])"

definition parse_nt_host_computationtime_std_deviation :: "CNETMsg_Tick \<Rightarrow> CodedInputStream \<Rightarrow> (parse_next \<times>
  CNETMsg_Tick \<times> CodedInputStream) option" where
  "parse_nt_host_computationtime_std_deviation = read_field ReadPrimitive_UINT32 set_nt_host_computationtime_std_deviation (expect_tags [(48, 6)])"

definition parse_nt_host_framestarttime_std_deviation :: "CNETMsg_Tick \<Rightarrow> CodedInputStream \<Rightarrow> (parse_next \<times>
  CNETMsg_Tick \<times> CodedInputStream) option" where
  "parse_nt_host_framestarttime_std_deviation = read_field ReadPrimitive_UINT32 set_nt_host_framestarttime_std_deviation expect_end"

definition nt_IsInitialized :: "CNETMsg_Tick \<Rightarrow> bool" where
  "nt_IsInitialized m = True"

definition nt_tags :: "(nat \<times> u32) list" where
  "nt_tags = [(1, 8), (4, 32), (5, 40), (6, 48)]"

definition nt_ops :: "CNETMsg_Tick message_ops" where
  "nt_ops = \<lparr>mo_cutoff = 127, mo_tags = nt_tags,
     mo_case = case_of [(1, parse_nt_tick), (4, parse_nt_host_computationtime), (5, parse_nt_host_computationtime_std_deviation), (6,
       parse_nt_host_framestarttime_std_deviation)],
     mo_unknown = nt_unknown_fields, mo_set_unknown = (\<lambda>uf m. m\<lparr>nt_unknown_fields := uf\<rparr>), mo_is_initialized =
       nt_IsInitialized\<rparr>"

subsection \<open>Serializing, merging, swapping\<close>

definition nt_Serialize :: "CNETMsg_Tick \<Rightarrow> u8 list" where
  "nt_Serialize m =
     optional (has_nt_tick m) (WriteUInt32ToArray 1 (nt_tick m)) @
     optional (has_nt_host_computationtime m) (WriteUInt32ToArray 4 (nt_host_computationtime m)) @
     optional (has_nt_host_computationtime_std_deviation m) (WriteUInt32ToArray 5 (nt_host_computationtime_std_deviation m)) @
     optional (has_nt_host_framestarttime_std_deviation m) (WriteUInt32ToArray 6 (nt_host_framestarttime_std_deviation m)) @
     SerializeUnknownFieldsToArray (nt_unknown_fields m)"

definition nt_ByteSize :: "CNETMsg_Tick \<Rightarrow> int \<times> CNETMsg_Tick" where
  "nt_ByteSize m =
     (let total_size = i32 (
        optional_size (nt_has_bits m AND 15 \<noteq> 0)
          (optional_size (has_nt_tick m) (1 + UInt32Size (nt_tick m)) +
           optional_size (has_nt_host_computationtime m) (1 + UInt32Size (nt_host_computationtime m)) +
           optional_size (has_nt_host_computationtime_std_deviation m) (1 + UInt32Size (nt_host_computationtime_std_deviation m)) +
           optional_size (has_nt_host_framestarttime_std_deviation m) (1 + UInt32Size (nt_host_framestarttime_std_deviation m))) +
        ComputeUnknownFieldsSize (nt_unknown_fields m))
      in (total_size, m\<lparr>nt_cached_size := total_size\<rparr>))"

definition nt_merge_0 :: "CNETMsg_Tick \<Rightarrow> CNETMsg_Tick \<Rightarrow> CNETMsg_Tick" where
  "nt_merge_0 from m =
     (let m = if_has (has_nt_tick from) (set_nt_tick (nt_tick from)) m in
      let m = if_has (has_nt_host_computationtime from) (set_nt_host_computationtime (nt_host_computationtime from)) m in
      let m = if_has (has_nt_host_computationtime_std_deviation from) (set_nt_host_computationtime_std_deviation
        (nt_host_computationtime_std_deviation from)) m in
      let m = if_has (has_nt_host_framestarttime_std_deviation from) (set_nt_host_framestarttime_std_deviation
        (nt_host_framestarttime_std_deviation from)) m in
      m)"

definition nt_MergeFrom :: "CNETMsg_Tick \<Rightarrow> CNETMsg_Tick \<Rightarrow> CNETMsg_Tick" where
  "nt_MergeFrom from m =
     (let m = if_has (nt_has_bits from AND 0xff \<noteq> 0) (nt_merge_0 from) m in
      m\<lparr>nt_unknown_fields := nt_unknown_fields m @ nt_unknown_fields from\<rparr>)"

definition nt_CopyFrom :: "CNETMsg_Tick \<Rightarrow> CNETMsg_Tick \<Rightarrow> CNETMsg_Tick" where
  "nt_CopyFrom from m = nt_MergeFrom from (nt_Clear m)"

definition nt_InternalSwap :: "CNETMsg_Tick \<Rightarrow> CNETMsg_Tick \<Rightarrow> CNETMsg_Tick \<times> CNETMsg_Tick" where
  "nt_InternalSwap m other =
     (m\<lparr>nt_tick := nt_tick other, nt_host_computationtime := nt_host_computationtime other, nt_host_computationtime_std_deviation :=
       nt_host_computationtime_std_deviation other, nt_host_framestarttime_std_deviation := nt_host_framestarttime_std_deviation other,
       nt_has_bits := nt_has_bits other, nt_unknown_fields := nt_unknown_fields other, nt_cached_size := nt_cached_size other\<rparr>,
      other\<lparr>nt_tick := nt_tick m, nt_host_computationtime := nt_host_computationtime m, nt_host_computationtime_std_deviation :=
        nt_host_computationtime_std_deviation m, nt_host_framestarttime_std_deviation := nt_host_framestarttime_std_deviation m,
        nt_has_bits := nt_has_bits m, nt_unknown_fields := nt_unknown_fields m, nt_cached_size := nt_cached_size m\<rparr>)"

subsection \<open>The class as a message class\<close>

lemmas nt_set_defs = set_nt_tick_def
  set_nt_host_computationtime_def
  set_nt_host_computationtime_std_deviation_def
  set_nt_host_framestarttime_std_deviation_def

lemmas nt_has_defs = has_nt_tick_def
  has_nt_host_computationtime_def
  has_nt_host_computationtime_std_deviation_def
  has_nt_host_framestarttime_std_deviation_def

lemmas nt_clear_defs = clear_nt_tick_def
  clear_nt_host_computationtime_def
  clear_nt_host_computationtime_std_deviation_def
  clear_nt_host_framestarttime_std_deviation_def

lemmas nt_parse_defs = parse_nt_tick_def
  parse_nt_host_computationtime_def
  parse_nt_host_computationtime_std_deviation_def
  parse_nt_host_framestarttime_std_deviation_def

lemma nt_make_tags:
  "MakeTag 1 WIRETYPE_VARINT = 8" "GetTagWireType 8 = WIRETYPE_VARINT"
  "MakeTag 4 WIRETYPE_VARINT = 32" "GetTagWireType 32 = WIRETYPE_VARINT"
  "MakeTag 5 WIRETYPE_VARINT = 40" "GetTagWireType 40 = WIRETYPE_VARINT"
  "MakeTag 6 WIRETYPE_VARINT = 48" "GetTagWireType 48 = WIRETYPE_VARINT"
  by code_simp+

lemma nt_tags_ok: "list_all (\<lambda>(n, t). t \<noteq> 0 \<and> t \<le> 127 \<and> switch_tag nt_tags t = Some n) nt_tags"
  by code_simp

definition nt_upd :: "nat \<Rightarrow> wire_value \<Rightarrow> CNETMsg_Tick \<Rightarrow> CNETMsg_Tick" where
  "nt_upd = upd_of [(1, \<lambda>v. set_nt_tick (as_u32 v)),
     (4, \<lambda>v. set_nt_host_computationtime (as_u32 v)),
     (5, \<lambda>v. set_nt_host_computationtime_std_deviation (as_u32 v)),
     (6, \<lambda>v. set_nt_host_framestarttime_std_deviation (as_u32 v))]"

lemma nt_ops_simps [simp]: "mo_cutoff nt_ops = 127" "mo_tags nt_ops = nt_tags" "mo_unknown nt_ops = nt_unknown_fields"
  "mo_set_unknown nt_ops = (\<lambda>uf m. m\<lparr>nt_unknown_fields := uf\<rparr>)" "mo_is_initialized nt_ops m"
  by (simp_all add: nt_ops_def nt_IsInitialized_def)

lemma nt_class: "message_class nt_ops nt_upd"
proof (rule message_class_fields)
  let ?fs = "[(1, 8, parse_nt_tick, \<lambda>v. set_nt_tick (as_u32 v)),
     (4, 32, parse_nt_host_computationtime, \<lambda>v. set_nt_host_computationtime (as_u32 v)),
     (5, 40, parse_nt_host_computationtime_std_deviation, \<lambda>v. set_nt_host_computationtime_std_deviation (as_u32 v)),
     (6, 48, parse_nt_host_framestarttime_std_deviation, \<lambda>v. set_nt_host_framestarttime_std_deviation (as_u32 v))]"
  show "mo_tags nt_ops = map (\<lambda>(n, t, f, u). (n, t)) ?fs" by (simp add: nt_ops_def nt_tags_def)
  show "mo_case nt_ops = case_of (map (\<lambda>(n, t, f, u). (n, f)) ?fs)" by (simp add: nt_ops_def)
  show "nt_upd = upd_of (map (\<lambda>(n, t, f, u). (n, u)) ?fs)" by (simp add: nt_upd_def)
  show "list_all (\<lambda>(n, t). t \<noteq> 0 \<and> t \<le> mo_cutoff nt_ops \<and> switch_tag (mo_tags nt_ops) t = Some n) (mo_tags nt_ops)"
    using nt_tags_ok by (simp add: nt_ops_def)
  show "distinct (map fst (mo_tags nt_ops))" by (simp add: nt_ops_def nt_tags_def)
  have "mo_tags nt_ops = nt_tags" by (simp add: nt_ops_def)
  then show "list_all (\<lambda>(n, t, f, u). case_ok (mo_tags nt_ops) t f u) ?fs"
    unfolding nt_parse_defs list.pred_inject prod.case
    by (intro conjI TrueI case_ok_intros follows_tags follows_end nt_make_tags) (simp_all add: nt_tags_def)
qed

interpretation nt: message_class nt_ops nt_upd
  by (rule nt_class)

subsection \<open>The fields of a message\<close>

text \<open>What a serialized message holds, field by field.\<close>

definition nt_items :: "CNETMsg_Tick \<Rightarrow> item list" where
  "nt_items m =
     optional (has_nt_tick m) [Known 1 (WVar (unat (nt_tick m)))] @
     optional (has_nt_host_computationtime m) [Known 4 (WVar (unat (nt_host_computationtime m)))] @
     optional (has_nt_host_computationtime_std_deviation m) [Known 5 (WVar (unat (nt_host_computationtime_std_deviation m)))] @
     optional (has_nt_host_framestarttime_std_deviation m) [Known 6 (WVar (unat (nt_host_framestarttime_std_deviation m)))] @
     map Unknown (nt_unknown_fields m)"

definition nt_serializable :: "CNETMsg_Tick \<Rightarrow> bool" where
  "nt_serializable m \<longleftrightarrow> list_all (\<lambda>f. field_ok 100 f \<and> switch_tag nt_tags (field_tag f) = None) (nt_unknown_fields m)"

text \<open>The type invariant: no bits but the has-bits, and a field without its has-bit has its default.\<close>

definition nt_wf :: "CNETMsg_Tick \<Rightarrow> bool" where
  "nt_wf m \<longleftrightarrow> nt_has_bits m AND 15 = nt_has_bits m \<and>
     (has_nt_tick m \<or> nt_tick m = 0) \<and>
     (has_nt_host_computationtime m \<or> nt_host_computationtime m = 0) \<and>
     (has_nt_host_computationtime_std_deviation m \<or> nt_host_computationtime_std_deviation m = 0) \<and>
     (has_nt_host_framestarttime_std_deviation m \<or> nt_host_framestarttime_std_deviation m = 0)"

lemma nt_tag_of: "nt.tag_of 1 = 8" "nt.tag_of 4 = 32" "nt.tag_of 5 = 40" "nt.tag_of 6 = 48"
  by (simp_all add: nt.tag_of_def nt_tags_def)

lemma nt_in_tags: "(1, 8) \<in> set nt_tags" "(4, 32) \<in> set nt_tags" "(5, 40) \<in> set nt_tags" "(6, 48) \<in> set nt_tags"
  by (simp_all add: nt_tags_def)

lemma nt_upd_simps:
  "nt_upd 1 v = set_nt_tick (as_u32 v)"
  "nt_upd 4 v = set_nt_host_computationtime (as_u32 v)"
  "nt_upd 5 v = set_nt_host_computationtime_std_deviation (as_u32 v)"
  "nt_upd 6 v = set_nt_host_framestarttime_std_deviation (as_u32 v)"
  by (simp_all add: fun_eq_iff nt_upd_def upd_of_def del: One_nat_def)

lemma nt_unknown_bytes: "concat (map nt.item_bytes (map Unknown fs)) = SerializeUnknownFieldsToArray fs"
  by (induction fs) (simp_all add: nt.item_bytes_def SerializeUnknownFieldsToArray_def)

lemma nt_items_bytes: "concat (map nt.item_bytes (nt_items m)) = nt_Serialize m"
  unfolding nt_items_def nt_Serialize_def map_append concat_append nt_unknown_bytes
  by (simp add: nt.item_bytes_def nt_tag_of written_fields WFL_WriteTag_bytes nt_make_tags del: One_nat_def value_bytes.simps)

lemma nt_item_known:
  "nt.item_ok (Known 1 v) = value_ok 8 v"
  "nt.item_ok (Known 4 v) = value_ok 32 v"
  "nt.item_ok (Known 5 v) = value_ok 40 v"
  "nt.item_ok (Known 6 v) = value_ok 48 v"
  by (simp_all add: nt.item_ok_def nt_tag_of nt_in_tags del: One_nat_def)

lemma nt_unknown_ok: "list_all nt.item_ok (map Unknown fs) = list_all (\<lambda>f. field_ok 100 f \<and> switch_tag nt_tags (field_tag f) = None) fs"
  by (induction fs) (simp_all add: nt.item_ok_def)

lemma nt_items_ok: "nt_serializable m \<Longrightarrow> list_all nt.item_ok (nt_items m)"
  unfolding nt_items_def nt_serializable_def list_all_append nt_unknown_ok
  by (simp add: nt_item_known nt_make_tags del: One_nat_def)

subsection \<open>Merging\<close>

lemma nt_set_canon:
  "if_has (has_nt_tick from) (set_nt_tick v) m = m\<lparr>nt_has_bits := nt_has_bits m OR (nt_has_bits from AND 1), nt_tick := pick
    (has_nt_tick from) v (nt_tick m)\<rparr>"
  "if_has (has_nt_host_computationtime from) (set_nt_host_computationtime v) m = m\<lparr>nt_has_bits := nt_has_bits m OR (nt_has_bits from
    AND 2), nt_host_computationtime := pick (has_nt_host_computationtime from) v (nt_host_computationtime m)\<rparr>"
  "if_has (has_nt_host_computationtime_std_deviation from) (set_nt_host_computationtime_std_deviation v) m = m\<lparr>nt_has_bits :=
    nt_has_bits m OR (nt_has_bits from AND 4), nt_host_computationtime_std_deviation := pick (has_nt_host_computationtime_std_deviation
    from) v (nt_host_computationtime_std_deviation m)\<rparr>"
  "if_has (has_nt_host_framestarttime_std_deviation from) (set_nt_host_framestarttime_std_deviation v) m = m\<lparr>nt_has_bits :=
    nt_has_bits m OR (nt_has_bits from AND 8), nt_host_framestarttime_std_deviation := pick (has_nt_host_framestarttime_std_deviation from)
    v (nt_host_framestarttime_std_deviation m)\<rparr>"
  by (simp_all add: if_has_def pick_def nt_has_defs nt_set_defs single_bits)

lemma nt_merge_0_skip: "nt_has_bits from AND 255 = 0 \<Longrightarrow> nt_merge_0 from m = m"
  by (simp add: nt_merge_0_def nt_has_defs has_mask [of "nt_has_bits from" 255])

lemma nt_merge_0_if: "if_has (nt_has_bits from AND 255 \<noteq> 0) (nt_merge_0 from) m = nt_merge_0 from m"
  using nt_merge_0_skip by (simp add: if_has_def)

lemma nt_MergeFrom_canon:
  "nt_MergeFrom from m = m\<lparr>nt_has_bits := nt_has_bits m OR (nt_has_bits from AND 15), nt_unknown_fields := nt_unknown_fields m @
    nt_unknown_fields from,
     nt_tick := pick (has_nt_tick from) (nt_tick from) (nt_tick m), nt_host_computationtime := pick (has_nt_host_computationtime from)
       (nt_host_computationtime from) (nt_host_computationtime m), nt_host_computationtime_std_deviation := pick
       (has_nt_host_computationtime_std_deviation from) (nt_host_computationtime_std_deviation from) (nt_host_computationtime_std_deviation
       m), nt_host_framestarttime_std_deviation := pick (has_nt_host_framestarttime_std_deviation from)
       (nt_host_framestarttime_std_deviation from) (nt_host_framestarttime_std_deviation m)\<rparr>"
  unfolding nt_MergeFrom_def nt_merge_0_if
  by (simp add: nt_merge_0_def nt_set_canon or.assoc has_groups)

lemma nt_fold_unknown: "fold nt.item_upd (map Unknown fs) m = m\<lparr>nt_unknown_fields := nt_unknown_fields m @ fs\<rparr>"
  by (induction fs arbitrary: m) (simp_all add: nt.item_upd_def)

lemma nt_item_upd: "nt.item_upd (Known n v) = nt_upd n v"
  by (simp add: fun_eq_iff nt.item_upd_def)

lemma nt_items_fold: "fold nt.item_upd (nt_items from) m = nt_MergeFrom from m"
  unfolding nt_items_def fold_append comp_apply nt_MergeFrom_canon nt_fold_unknown optional_simps
  by (simp add: nt_item_upd nt_upd_simps nt_set_canon or.assoc has_groups del: One_nat_def as_u32.simps as_u64.simps as_bool.simps)

subsection \<open>Clearing, copying, swapping and sizes\<close>

lemma nt_wf_has: "nt_wf m \<Longrightarrow> nt_has_bits m AND 15 = nt_has_bits m"
  "nt_wf m \<Longrightarrow> \<not> has_nt_tick m \<Longrightarrow> nt_tick m = 0"
  "nt_wf m \<Longrightarrow> \<not> has_nt_host_computationtime m \<Longrightarrow> nt_host_computationtime m = 0"
  "nt_wf m \<Longrightarrow> \<not> has_nt_host_computationtime_std_deviation m \<Longrightarrow> nt_host_computationtime_std_deviation m = 0"
  "nt_wf m \<Longrightarrow> \<not> has_nt_host_framestarttime_std_deviation m \<Longrightarrow> nt_host_framestarttime_std_deviation m = 0"
  by (simp_all add: nt_wf_def)

lemma nt_Clear_eq: "nt_Clear m = nt_SharedCtor\<lparr>nt_cached_size := nt_cached_size m\<rparr>"
  by (simp add: nt_Clear_def nt_SharedCtor_def)

lemma nt_wf_SharedCtor: "nt_wf nt_SharedCtor"
  by (simp add: nt_wf_def nt_SharedCtor_def)

lemma nt_wf_other [simp]: "nt_wf (m\<lparr>nt_cached_size := n\<rparr>) = nt_wf m" "nt_wf (m\<lparr>nt_unknown_fields := uf\<rparr>) = nt_wf m"
  by (simp_all add: nt_wf_def nt_has_defs)

lemma nt_wf_set:
  "nt_wf m \<Longrightarrow> nt_wf (set_nt_tick v m)"
  "nt_wf m \<Longrightarrow> nt_wf (set_nt_host_computationtime v m)"
  "nt_wf m \<Longrightarrow> nt_wf (set_nt_host_computationtime_std_deviation v m)"
  "nt_wf m \<Longrightarrow> nt_wf (set_nt_host_framestarttime_std_deviation v m)"
  by (simp_all add: nt_wf_def nt_has_defs nt_set_defs has_or)

lemma nt_wf_Clear: "nt_wf (nt_Clear m)"
  by (simp add: nt_Clear_eq nt_wf_SharedCtor)

lemma nt_wf_MergeFrom: "nt_wf m \<Longrightarrow> nt_wf (nt_MergeFrom from m)"
  unfolding nt_MergeFrom_def nt_merge_0_def Let_def nt_wf_other
  by (intro if_has_I [where I = nt_wf] nt_wf_set) (simp_all add: nt_wf_other)

lemma nt_cases_keep: "keeps nt_wf (mo_case nt_ops n)"
  unfolding nt_ops_def message_ops.simps nt_parse_defs
  by (rule keeps_case_of) (simp add: keeps_fields nt_wf_set)

lemma nt_parse_wf: "nt_wf m \<Longrightarrow> ParseFromArray rtc nt_ops nt_Clear m mem data n = Some (b, m') \<Longrightarrow> nt_wf m'"
  by (rule ParseFromArray_keeps [where I = nt_wf, OF nt_cases_keep]) (simp_all add: nt_wf_Clear)

lemma nt_MergeFrom_Clear: "nt_wf from \<Longrightarrow> nt_wf m \<Longrightarrow> nt_MergeFrom from (nt_Clear m) =
  from\<lparr>nt_cached_size := nt_cached_size m\<rparr>"
  unfolding nt_MergeFrom_canon by (simp add: nt_Clear_eq nt_SharedCtor_def nt_wf_def pick_default)

lemma nt_CopyFrom_eq: "nt_wf from \<Longrightarrow> nt_wf m \<Longrightarrow> nt_CopyFrom from m = from\<lparr>nt_cached_size :=
  nt_cached_size m\<rparr>"
  by (simp add: nt_CopyFrom_def nt_MergeFrom_Clear)

lemma nt_InternalSwap_eq: "nt_InternalSwap m other = (other, m)"
  by (simp add: nt_InternalSwap_def)

lemma nt_Clear_fields: "nt_wf m \<Longrightarrow> nt_Clear m = clear_nt_host_framestarttime_std_deviation
  (clear_nt_host_computationtime_std_deviation (clear_nt_host_computationtime (clear_nt_tick (m\<lparr>nt_unknown_fields := []\<rparr>))))"
proof -
  assume wf: "nt_wf m"
  then have "nt_has_bits m AND NOT 15 = 0" using and_not_mask_zero [OF nt_wf_has(1)] by blast
  then show ?thesis using wf by (simp add: nt_Clear_eq nt_SharedCtor_def nt_clear_defs and.assoc)
qed

lemma nt_size_group_0:
  "optional_size (nt_has_bits m AND 15 \<noteq> 0)
     (optional_size (has_nt_tick m) (1 + UInt32Size (nt_tick m)) +
      optional_size (has_nt_host_computationtime m) (1 + UInt32Size (nt_host_computationtime m)) +
      optional_size (has_nt_host_computationtime_std_deviation m) (1 + UInt32Size (nt_host_computationtime_std_deviation m)) +
      optional_size (has_nt_host_framestarttime_std_deviation m) (1 + UInt32Size (nt_host_framestarttime_std_deviation m))) =
     optional_size (has_nt_tick m) (1 + UInt32Size (nt_tick m)) +
     optional_size (has_nt_host_computationtime m) (1 + UInt32Size (nt_host_computationtime m)) +
     optional_size (has_nt_host_computationtime_std_deviation m) (1 + UInt32Size (nt_host_computationtime_std_deviation m)) +
     optional_size (has_nt_host_framestarttime_std_deviation m) (1 + UInt32Size (nt_host_framestarttime_std_deviation m))"
  by (cases "nt_has_bits m AND 15 = 0") (simp_all add: nt_has_defs has_mask [of "nt_has_bits m" 15])

lemma nt_tag_sizes:
  "int (length (WFL_WriteTagToArray 1 WIRETYPE_VARINT)) = 1"
  "int (length (WFL_WriteTagToArray 4 WIRETYPE_VARINT)) = 1"
  "int (length (WFL_WriteTagToArray 5 WIRETYPE_VARINT)) = 1"
  "int (length (WFL_WriteTagToArray 6 WIRETYPE_VARINT)) = 1"
  by (simp_all add: tag_length)

lemma nt_ByteSize_eq:
  "nt_ByteSize m = (i32 (int (length (nt_Serialize m))), m\<lparr>nt_cached_size := i32 (int (length (nt_Serialize m)))\<rparr>)"
proof -
  have "fst (nt_ByteSize m) = i32 (int (length (nt_Serialize m)))"
    unfolding nt_ByteSize_def nt_Serialize_def Let_def fst_conv serialized_size i32_add(2) length_append of_nat_add optional_simps nt_size_group_0
    by (simp only: written_sizes written_strings_size nt_tag_sizes ac_simps)
  then show ?thesis by (simp add: nt_ByteSize_def Let_def)
qed

subsection \<open>Parsing a serialized message\<close>

lemma nt_parse:
  assumes "cutoff_reader rtc" and "nt_serializable from" and "length (nt_Serialize from) < 2 ^ 26"
  shows "ParseFromArray rtc nt_ops nt_Clear m (pre @ nt_Serialize from @ post) (int (length pre)) (int (length (nt_Serialize from))) =
    Some (True, nt_MergeFrom from (nt_Clear m))"
  using nt.ParseFromArray_items [OF assms(1) _ nt_items_ok [OF assms(2)], of _ pre post _ nt_Clear m] assms(3)
  by (simp add: nt_items_bytes nt_items_fold kDefaultTotalBytesLimit_def)

lemma nt_parse_two:
  assumes "cutoff_reader rtc" and "nt_serializable m1" and "nt_serializable m2" and "length (nt_Serialize m1 @ nt_Serialize m2) < 2 ^ 26"
  shows "ParseFromArray rtc nt_ops nt_Clear m (nt_Serialize m1 @ nt_Serialize m2) 0 (int (length (nt_Serialize m1 @ nt_Serialize m2))) =
    Some (True, nt_MergeFrom m2 (nt_MergeFrom m1 (nt_Clear m)))"
  using nt.ParseFromArray_items [OF assms(1), of "nt_items m1 @ nt_items m2" _ "[]" "[]" _ nt_Clear m] nt_items_ok [OF assms(2)]
    nt_items_ok [OF assms(3)] assms(4)
  by (simp add: nt_items_bytes nt_items_fold kDefaultTotalBytesLimit_def)

end
