(* ===== verification/NetSignonState.thy ===== *)
theory NetSignonState
  imports NetTick
begin

text \<open>
  The message class \<open>CNETMsg_SignonState\<close>: like \<open>CNETMsg_Tick\<close>, with a repeated string whose case
  expects itself again, and a string that is cleared only when it is set.
\<close>

subsection \<open>The class\<close>

record CNETMsg_SignonState =
  ns_has_bits :: u32
  ns_unknown_fields :: "unknown_field list"
  ns_cached_size :: int
  ns_signon_state :: u32
  ns_spawn_count :: u32
  ns_players_networkids :: "u8 list list"
  ns_map_name :: "u8 list"
  ns_num_server_players :: u32

definition has_ns_signon_state :: "CNETMsg_SignonState \<Rightarrow> bool" where
  "has_ns_signon_state m \<longleftrightarrow> ns_has_bits m AND 0x00000001 \<noteq> 0"
definition set_ns_signon_state :: "u32 \<Rightarrow> CNETMsg_SignonState \<Rightarrow> CNETMsg_SignonState" where
  "set_ns_signon_state v m = m\<lparr>ns_has_bits := ns_has_bits m OR 0x00000001, ns_signon_state := v\<rparr>"
definition clear_ns_signon_state :: "CNETMsg_SignonState \<Rightarrow> CNETMsg_SignonState" where
  "clear_ns_signon_state m = m\<lparr>ns_signon_state := 0, ns_has_bits := ns_has_bits m AND NOT 0x00000001\<rparr>"

definition has_ns_spawn_count :: "CNETMsg_SignonState \<Rightarrow> bool" where
  "has_ns_spawn_count m \<longleftrightarrow> ns_has_bits m AND 0x00000002 \<noteq> 0"
definition set_ns_spawn_count :: "u32 \<Rightarrow> CNETMsg_SignonState \<Rightarrow> CNETMsg_SignonState" where
  "set_ns_spawn_count v m = m\<lparr>ns_has_bits := ns_has_bits m OR 0x00000002, ns_spawn_count := v\<rparr>"
definition clear_ns_spawn_count :: "CNETMsg_SignonState \<Rightarrow> CNETMsg_SignonState" where
  "clear_ns_spawn_count m = m\<lparr>ns_spawn_count := 0, ns_has_bits := ns_has_bits m AND NOT 0x00000002\<rparr>"

definition has_ns_num_server_players :: "CNETMsg_SignonState \<Rightarrow> bool" where
  "has_ns_num_server_players m \<longleftrightarrow> ns_has_bits m AND 0x00000004 \<noteq> 0"
definition set_ns_num_server_players :: "u32 \<Rightarrow> CNETMsg_SignonState \<Rightarrow> CNETMsg_SignonState" where
  "set_ns_num_server_players v m = m\<lparr>ns_has_bits := ns_has_bits m OR 0x00000004, ns_num_server_players := v\<rparr>"
definition clear_ns_num_server_players :: "CNETMsg_SignonState \<Rightarrow> CNETMsg_SignonState" where
  "clear_ns_num_server_players m = m\<lparr>ns_num_server_players := 0, ns_has_bits := ns_has_bits m AND NOT 0x00000004\<rparr>"

definition has_ns_map_name :: "CNETMsg_SignonState \<Rightarrow> bool" where
  "has_ns_map_name m \<longleftrightarrow> ns_has_bits m AND 0x00000010 \<noteq> 0"
definition set_ns_map_name :: "u8 list \<Rightarrow> CNETMsg_SignonState \<Rightarrow> CNETMsg_SignonState" where
  "set_ns_map_name v m = m\<lparr>ns_has_bits := ns_has_bits m OR 0x00000010, ns_map_name := v\<rparr>"
definition clear_ns_map_name :: "CNETMsg_SignonState \<Rightarrow> CNETMsg_SignonState" where
  "clear_ns_map_name m = m\<lparr>ns_map_name := [], ns_has_bits := ns_has_bits m AND NOT 0x00000010\<rparr>"

definition add_ns_players_networkids :: "u8 list \<Rightarrow> CNETMsg_SignonState \<Rightarrow> CNETMsg_SignonState" where
  "add_ns_players_networkids v m = m\<lparr>ns_players_networkids := ns_players_networkids m @ [v]\<rparr>"
definition clear_ns_players_networkids :: "CNETMsg_SignonState \<Rightarrow> CNETMsg_SignonState" where
  "clear_ns_players_networkids m = m\<lparr>ns_players_networkids := []\<rparr>"

definition ns_SharedCtor :: CNETMsg_SignonState where
  "ns_SharedCtor = \<lparr>ns_has_bits = 0, ns_unknown_fields = [], ns_cached_size = 0,
     ns_signon_state = 0, ns_spawn_count = 0, ns_players_networkids = [], ns_map_name = [], ns_num_server_players = 0\<rparr>"

definition ns_clear_group_0 :: "CNETMsg_SignonState \<Rightarrow> CNETMsg_SignonState" where
  "ns_clear_group_0 m = if_has (has_ns_map_name m) (\<lambda>m. m\<lparr>ns_map_name := []\<rparr>) (m\<lparr>ns_signon_state := 0,
    ns_spawn_count := 0, ns_num_server_players := 0\<rparr>)"

definition ns_Clear :: "CNETMsg_SignonState \<Rightarrow> CNETMsg_SignonState" where
  "ns_Clear m =
     (let m = if_has (ns_has_bits m AND 23 \<noteq> 0) ns_clear_group_0 m in
      m\<lparr>ns_players_networkids := [], ns_has_bits := 0, ns_unknown_fields := []\<rparr>)"

subsection \<open>Parsing\<close>

definition parse_ns_signon_state :: "CNETMsg_SignonState \<Rightarrow> CodedInputStream \<Rightarrow> (parse_next \<times>
  CNETMsg_SignonState \<times> CodedInputStream) option" where
  "parse_ns_signon_state = read_field ReadPrimitive_UINT32 set_ns_signon_state (expect_tags [(16, 2)])"

definition parse_ns_spawn_count :: "CNETMsg_SignonState \<Rightarrow> CodedInputStream \<Rightarrow> (parse_next \<times>
  CNETMsg_SignonState \<times> CodedInputStream) option" where
  "parse_ns_spawn_count = read_field ReadPrimitive_UINT32 set_ns_spawn_count (expect_tags [(24, 3)])"

definition parse_ns_num_server_players :: "CNETMsg_SignonState \<Rightarrow> CodedInputStream \<Rightarrow> (parse_next \<times>
  CNETMsg_SignonState \<times> CodedInputStream) option" where
  "parse_ns_num_server_players = read_field ReadPrimitive_UINT32 set_ns_num_server_players (expect_tags [(34, 4)])"

definition parse_ns_players_networkids :: "CNETMsg_SignonState \<Rightarrow> CodedInputStream \<Rightarrow> (parse_next \<times>
  CNETMsg_SignonState \<times> CodedInputStream) option" where
  "parse_ns_players_networkids = read_string_field WFL_ReadString (\<lambda>_. []) add_ns_players_networkids (expect_tags [(34, 4), (42, 5)])"

definition parse_ns_map_name :: "CNETMsg_SignonState \<Rightarrow> CodedInputStream \<Rightarrow> (parse_next \<times> CNETMsg_SignonState
  \<times> CodedInputStream) option" where
  "parse_ns_map_name = read_string_field WFL_ReadString ns_map_name set_ns_map_name expect_end"

definition ns_IsInitialized :: "CNETMsg_SignonState \<Rightarrow> bool" where
  "ns_IsInitialized m = True"

definition ns_tags :: "(nat \<times> u32) list" where
  "ns_tags = [(1, 8), (2, 16), (3, 24), (4, 34), (5, 42)]"

definition ns_ops :: "CNETMsg_SignonState message_ops" where
  "ns_ops = \<lparr>mo_cutoff = 127, mo_tags = ns_tags,
     mo_case = case_of [(1, parse_ns_signon_state), (2, parse_ns_spawn_count), (3, parse_ns_num_server_players), (4,
       parse_ns_players_networkids), (5, parse_ns_map_name)],
     mo_unknown = ns_unknown_fields, mo_set_unknown = (\<lambda>uf m. m\<lparr>ns_unknown_fields := uf\<rparr>), mo_is_initialized =
       ns_IsInitialized\<rparr>"

subsection \<open>Serializing, merging, swapping\<close>

definition ns_Serialize :: "CNETMsg_SignonState \<Rightarrow> u8 list" where
  "ns_Serialize m =
     optional (has_ns_signon_state m) (WriteUInt32ToArray 1 (ns_signon_state m)) @
     optional (has_ns_spawn_count m) (WriteUInt32ToArray 2 (ns_spawn_count m)) @
     optional (has_ns_num_server_players m) (WriteUInt32ToArray 3 (ns_num_server_players m)) @
     concat (map (WFL_WriteStringToArray 4) (ns_players_networkids m)) @
     optional (has_ns_map_name m) (WFL_WriteStringToArray 5 (ns_map_name m)) @
     SerializeUnknownFieldsToArray (ns_unknown_fields m)"

definition ns_ByteSize :: "CNETMsg_SignonState \<Rightarrow> int \<times> CNETMsg_SignonState" where
  "ns_ByteSize m =
     (let total_size = i32 (
        optional_size (ns_has_bits m AND 23 \<noteq> 0)
          (optional_size (has_ns_signon_state m) (1 + UInt32Size (ns_signon_state m)) +
           optional_size (has_ns_spawn_count m) (1 + UInt32Size (ns_spawn_count m)) +
           optional_size (has_ns_num_server_players m) (1 + UInt32Size (ns_num_server_players m)) +
           optional_size (has_ns_map_name m) (1 + StringSize (ns_map_name m))) +
        1 * int (length (ns_players_networkids m)) + sum_list (map StringSize (ns_players_networkids m)) +
        ComputeUnknownFieldsSize (ns_unknown_fields m))
      in (total_size, m\<lparr>ns_cached_size := total_size\<rparr>))"

definition ns_merge_0 :: "CNETMsg_SignonState \<Rightarrow> CNETMsg_SignonState \<Rightarrow> CNETMsg_SignonState" where
  "ns_merge_0 from m =
     (let m = if_has (has_ns_signon_state from) (set_ns_signon_state (ns_signon_state from)) m in
      let m = if_has (has_ns_spawn_count from) (set_ns_spawn_count (ns_spawn_count from)) m in
      let m = if_has (has_ns_num_server_players from) (set_ns_num_server_players (ns_num_server_players from)) m in
      let m = if_has (has_ns_map_name from) (set_ns_map_name (ns_map_name from)) m in
      m)"

definition ns_MergeFrom :: "CNETMsg_SignonState \<Rightarrow> CNETMsg_SignonState \<Rightarrow> CNETMsg_SignonState" where
  "ns_MergeFrom from m =
     (let m = m\<lparr>ns_players_networkids := ns_players_networkids m @ ns_players_networkids from\<rparr> in
      let m = if_has (ns_has_bits from AND 0xff \<noteq> 0) (ns_merge_0 from) m in
      m\<lparr>ns_unknown_fields := ns_unknown_fields m @ ns_unknown_fields from\<rparr>)"

definition ns_CopyFrom :: "CNETMsg_SignonState \<Rightarrow> CNETMsg_SignonState \<Rightarrow> CNETMsg_SignonState" where
  "ns_CopyFrom from m = ns_MergeFrom from (ns_Clear m)"

definition ns_InternalSwap :: "CNETMsg_SignonState \<Rightarrow> CNETMsg_SignonState \<Rightarrow> CNETMsg_SignonState \<times>
  CNETMsg_SignonState" where
  "ns_InternalSwap m other =
     (m\<lparr>ns_signon_state := ns_signon_state other, ns_spawn_count := ns_spawn_count other, ns_num_server_players :=
       ns_num_server_players other, ns_players_networkids := ns_players_networkids other, ns_map_name := ns_map_name other, ns_has_bits :=
       ns_has_bits other, ns_unknown_fields := ns_unknown_fields other, ns_cached_size := ns_cached_size other\<rparr>,
      other\<lparr>ns_signon_state := ns_signon_state m, ns_spawn_count := ns_spawn_count m, ns_num_server_players := ns_num_server_players
        m, ns_players_networkids := ns_players_networkids m, ns_map_name := ns_map_name m, ns_has_bits := ns_has_bits m, ns_unknown_fields
        := ns_unknown_fields m, ns_cached_size := ns_cached_size m\<rparr>)"

subsection \<open>The class as a message class\<close>

lemmas ns_set_defs = set_ns_signon_state_def
  set_ns_spawn_count_def
  set_ns_num_server_players_def
  set_ns_map_name_def add_ns_players_networkids_def

lemmas ns_has_defs = has_ns_signon_state_def
  has_ns_spawn_count_def
  has_ns_num_server_players_def
  has_ns_map_name_def

lemmas ns_clear_defs = clear_ns_signon_state_def
  clear_ns_spawn_count_def
  clear_ns_num_server_players_def
  clear_ns_map_name_def clear_ns_players_networkids_def

lemmas ns_parse_defs = parse_ns_signon_state_def
  parse_ns_spawn_count_def
  parse_ns_num_server_players_def
  parse_ns_players_networkids_def
  parse_ns_map_name_def

lemma ns_make_tags:
  "MakeTag 1 WIRETYPE_VARINT = 8" "GetTagWireType 8 = WIRETYPE_VARINT"
  "MakeTag 2 WIRETYPE_VARINT = 16" "GetTagWireType 16 = WIRETYPE_VARINT"
  "MakeTag 3 WIRETYPE_VARINT = 24" "GetTagWireType 24 = WIRETYPE_VARINT"
  "MakeTag 4 WIRETYPE_LENGTH_DELIMITED = 34" "GetTagWireType 34 = WIRETYPE_LENGTH_DELIMITED"
  "MakeTag 5 WIRETYPE_LENGTH_DELIMITED = 42" "GetTagWireType 42 = WIRETYPE_LENGTH_DELIMITED"
  by code_simp+

lemma ns_tags_ok: "list_all (\<lambda>(n, t). t \<noteq> 0 \<and> t \<le> 127 \<and> switch_tag ns_tags t = Some n) ns_tags"
  by code_simp

definition ns_upd :: "nat \<Rightarrow> wire_value \<Rightarrow> CNETMsg_SignonState \<Rightarrow> CNETMsg_SignonState" where
  "ns_upd = upd_of [(1, \<lambda>v. set_ns_signon_state (as_u32 v)),
     (2, \<lambda>v. set_ns_spawn_count (as_u32 v)),
     (3, \<lambda>v. set_ns_num_server_players (as_u32 v)),
     (4, \<lambda>v. add_ns_players_networkids (as_bytes v)),
     (5, \<lambda>v. set_ns_map_name (as_bytes v))]"

lemma ns_ops_simps [simp]: "mo_cutoff ns_ops = 127" "mo_tags ns_ops = ns_tags" "mo_unknown ns_ops = ns_unknown_fields"
  "mo_set_unknown ns_ops = (\<lambda>uf m. m\<lparr>ns_unknown_fields := uf\<rparr>)" "mo_is_initialized ns_ops m"
  by (simp_all add: ns_ops_def ns_IsInitialized_def)

lemma ns_class: "message_class ns_ops ns_upd"
proof (rule message_class_fields)
  let ?fs = "[(1, 8, parse_ns_signon_state, \<lambda>v. set_ns_signon_state (as_u32 v)),
     (2, 16, parse_ns_spawn_count, \<lambda>v. set_ns_spawn_count (as_u32 v)),
     (3, 24, parse_ns_num_server_players, \<lambda>v. set_ns_num_server_players (as_u32 v)),
     (4, 34, parse_ns_players_networkids, \<lambda>v. add_ns_players_networkids (as_bytes v)),
     (5, 42, parse_ns_map_name, \<lambda>v. set_ns_map_name (as_bytes v))]"
  show "mo_tags ns_ops = map (\<lambda>(n, t, f, u). (n, t)) ?fs" by (simp add: ns_ops_def ns_tags_def)
  show "mo_case ns_ops = case_of (map (\<lambda>(n, t, f, u). (n, f)) ?fs)" by (simp add: ns_ops_def)
  show "ns_upd = upd_of (map (\<lambda>(n, t, f, u). (n, u)) ?fs)" by (simp add: ns_upd_def)
  show "list_all (\<lambda>(n, t). t \<noteq> 0 \<and> t \<le> mo_cutoff ns_ops \<and> switch_tag (mo_tags ns_ops) t = Some n) (mo_tags ns_ops)"
    using ns_tags_ok by (simp add: ns_ops_def)
  show "distinct (map fst (mo_tags ns_ops))" by (simp add: ns_ops_def ns_tags_def)
  have "mo_tags ns_ops = ns_tags" by (simp add: ns_ops_def)
  then show "list_all (\<lambda>(n, t, f, u). case_ok (mo_tags ns_ops) t f u) ?fs"
    unfolding ns_parse_defs list.pred_inject prod.case
    by (intro conjI TrueI case_ok_intros follows_tags follows_end ns_make_tags) (simp_all add: ns_tags_def)
qed

interpretation ns: message_class ns_ops ns_upd
  by (rule ns_class)

subsection \<open>The fields of a message\<close>

text \<open>What a serialized message holds, field by field.\<close>

definition ns_items :: "CNETMsg_SignonState \<Rightarrow> item list" where
  "ns_items m =
     optional (has_ns_signon_state m) [Known 1 (WVar (unat (ns_signon_state m)))] @
     optional (has_ns_spawn_count m) [Known 2 (WVar (unat (ns_spawn_count m)))] @
     optional (has_ns_num_server_players m) [Known 3 (WVar (unat (ns_num_server_players m)))] @
     map (\<lambda>s. Known 4 (WBytes s)) (ns_players_networkids m) @
     optional (has_ns_map_name m) [Known 5 (WBytes (ns_map_name m))] @
     map Unknown (ns_unknown_fields m)"

definition ns_serializable :: "CNETMsg_SignonState \<Rightarrow> bool" where
  "ns_serializable m \<longleftrightarrow> length (ns_map_name m) < 2 ^ 31 \<and>
     list_all (\<lambda>s. length s < 2 ^ 31) (ns_players_networkids m) \<and>
     list_all (\<lambda>f. field_ok 100 f \<and> switch_tag ns_tags (field_tag f) = None) (ns_unknown_fields m)"

text \<open>The type invariant: no bits but the has-bits, and a field without its has-bit has its default.\<close>

definition ns_wf :: "CNETMsg_SignonState \<Rightarrow> bool" where
  "ns_wf m \<longleftrightarrow> ns_has_bits m AND 23 = ns_has_bits m \<and>
     (has_ns_signon_state m \<or> ns_signon_state m = 0) \<and>
     (has_ns_spawn_count m \<or> ns_spawn_count m = 0) \<and>
     (has_ns_num_server_players m \<or> ns_num_server_players m = 0) \<and>
     (has_ns_map_name m \<or> ns_map_name m = [])"

lemma ns_tag_of: "ns.tag_of 1 = 8" "ns.tag_of 2 = 16" "ns.tag_of 3 = 24" "ns.tag_of 4 = 34" "ns.tag_of 5 = 42"
  by (simp_all add: ns.tag_of_def ns_tags_def)

lemma ns_in_tags: "(1, 8) \<in> set ns_tags" "(2, 16) \<in> set ns_tags" "(3, 24) \<in> set ns_tags" "(4, 34) \<in> set ns_tags" "(5, 42)
  \<in> set ns_tags"
  by (simp_all add: ns_tags_def)

lemma ns_upd_simps:
  "ns_upd 1 v = set_ns_signon_state (as_u32 v)"
  "ns_upd 2 v = set_ns_spawn_count (as_u32 v)"
  "ns_upd 3 v = set_ns_num_server_players (as_u32 v)"
  "ns_upd 4 v = add_ns_players_networkids (as_bytes v)"
  "ns_upd 5 v = set_ns_map_name (as_bytes v)"
  by (simp_all add: fun_eq_iff ns_upd_def upd_of_def del: One_nat_def)

lemma ns_strings_bytes: "concat (map ns.item_bytes (map (\<lambda>s. Known 4 (WBytes s)) ps)) = concat (map (WFL_WriteStringToArray 4) ps)"
  by (induction ps) (simp_all add: ns.item_bytes_def ns_tag_of written_fields WFL_WriteTag_bytes ns_make_tags del: One_nat_def)

lemma ns_unknown_bytes: "concat (map ns.item_bytes (map Unknown fs)) = SerializeUnknownFieldsToArray fs"
  by (induction fs) (simp_all add: ns.item_bytes_def SerializeUnknownFieldsToArray_def)

lemma ns_items_bytes: "concat (map ns.item_bytes (ns_items m)) = ns_Serialize m"
  unfolding ns_items_def ns_Serialize_def map_append concat_append ns_unknown_bytes ns_strings_bytes
  by (simp add: ns.item_bytes_def ns_tag_of written_fields WFL_WriteTag_bytes ns_make_tags del: One_nat_def value_bytes.simps)

lemma ns_item_known:
  "ns.item_ok (Known 1 v) = value_ok 8 v"
  "ns.item_ok (Known 2 v) = value_ok 16 v"
  "ns.item_ok (Known 3 v) = value_ok 24 v"
  "ns.item_ok (Known 4 v) = value_ok 34 v"
  "ns.item_ok (Known 5 v) = value_ok 42 v"
  by (simp_all add: ns.item_ok_def ns_tag_of ns_in_tags del: One_nat_def)

lemma ns_unknown_ok: "list_all ns.item_ok (map Unknown fs) = list_all (\<lambda>f. field_ok 100 f \<and> switch_tag ns_tags (field_tag f) = None) fs"
  by (induction fs) (simp_all add: ns.item_ok_def)

lemma ns_strings_ok: "list_all ns.item_ok (map (\<lambda>s. Known 4 (WBytes s)) ps) = list_all (\<lambda>s. length s < 2 ^ 31) ps"
  by (induction ps) (simp_all add: ns_item_known ns_make_tags del: One_nat_def)

lemma ns_items_ok: "ns_serializable m \<Longrightarrow> list_all ns.item_ok (ns_items m)"
  unfolding ns_items_def ns_serializable_def list_all_append ns_unknown_ok ns_strings_ok
  by (simp add: ns_item_known ns_make_tags del: One_nat_def)

subsection \<open>Merging\<close>

lemma ns_set_canon:
  "if_has (has_ns_signon_state from) (set_ns_signon_state v) m = m\<lparr>ns_has_bits := ns_has_bits m OR (ns_has_bits from AND 1),
    ns_signon_state := pick (has_ns_signon_state from) v (ns_signon_state m)\<rparr>"
  "if_has (has_ns_spawn_count from) (set_ns_spawn_count v) m = m\<lparr>ns_has_bits := ns_has_bits m OR (ns_has_bits from AND 2),
    ns_spawn_count := pick (has_ns_spawn_count from) v (ns_spawn_count m)\<rparr>"
  "if_has (has_ns_num_server_players from) (set_ns_num_server_players v) m = m\<lparr>ns_has_bits := ns_has_bits m OR (ns_has_bits from AND
    4), ns_num_server_players := pick (has_ns_num_server_players from) v (ns_num_server_players m)\<rparr>"
  "if_has (has_ns_map_name from) (set_ns_map_name s) m = m\<lparr>ns_has_bits := ns_has_bits m OR (ns_has_bits from AND 16), ns_map_name :=
    pick (has_ns_map_name from) s (ns_map_name m)\<rparr>"
  by (simp_all add: if_has_def pick_def ns_has_defs ns_set_defs single_bits)

lemma ns_merge_0_skip: "ns_has_bits from AND 255 = 0 \<Longrightarrow> ns_merge_0 from m = m"
  by (simp add: ns_merge_0_def ns_has_defs has_mask [of "ns_has_bits from" 255])

lemma ns_merge_0_if: "if_has (ns_has_bits from AND 255 \<noteq> 0) (ns_merge_0 from) m = ns_merge_0 from m"
  using ns_merge_0_skip by (simp add: if_has_def)

lemma ns_MergeFrom_canon:
  "ns_MergeFrom from m = m\<lparr>ns_has_bits := ns_has_bits m OR (ns_has_bits from AND 23), ns_unknown_fields := ns_unknown_fields m @
    ns_unknown_fields from,
     ns_signon_state := pick (has_ns_signon_state from) (ns_signon_state from) (ns_signon_state m), ns_spawn_count := pick
       (has_ns_spawn_count from) (ns_spawn_count from) (ns_spawn_count m), ns_players_networkids := ns_players_networkids m @
       ns_players_networkids from, ns_map_name := pick (has_ns_map_name from) (ns_map_name from) (ns_map_name m), ns_num_server_players :=
       pick (has_ns_num_server_players from) (ns_num_server_players from) (ns_num_server_players m)\<rparr>"
  unfolding ns_MergeFrom_def ns_merge_0_if
  by (simp add: ns_merge_0_def ns_set_canon or.assoc has_groups)

lemma ns_fold_strings: "fold ns.item_upd (map (\<lambda>s. Known 4 (WBytes s)) ps) m = m\<lparr>ns_players_networkids :=
  ns_players_networkids m @ ps\<rparr>"
  by (induction ps arbitrary: m) (simp_all add: ns.item_upd_def ns_upd_simps add_ns_players_networkids_def)

lemma ns_fold_unknown: "fold ns.item_upd (map Unknown fs) m = m\<lparr>ns_unknown_fields := ns_unknown_fields m @ fs\<rparr>"
  by (induction fs arbitrary: m) (simp_all add: ns.item_upd_def)

lemma ns_item_upd: "ns.item_upd (Known n v) = ns_upd n v"
  by (simp add: fun_eq_iff ns.item_upd_def)

lemma ns_items_fold: "fold ns.item_upd (ns_items from) m = ns_MergeFrom from m"
  unfolding ns_items_def fold_append comp_apply ns_MergeFrom_canon ns_fold_unknown ns_fold_strings optional_simps
  by (simp add: ns_item_upd ns_upd_simps ns_set_canon or.assoc has_groups del: One_nat_def as_u32.simps as_u64.simps as_bool.simps)

subsection \<open>Clearing, copying, swapping and sizes\<close>

lemma ns_wf_has: "ns_wf m \<Longrightarrow> ns_has_bits m AND 23 = ns_has_bits m"
  "ns_wf m \<Longrightarrow> \<not> has_ns_signon_state m \<Longrightarrow> ns_signon_state m = 0"
  "ns_wf m \<Longrightarrow> \<not> has_ns_spawn_count m \<Longrightarrow> ns_spawn_count m = 0"
  "ns_wf m \<Longrightarrow> \<not> has_ns_num_server_players m \<Longrightarrow> ns_num_server_players m = 0"
  "ns_wf m \<Longrightarrow> \<not> has_ns_map_name m \<Longrightarrow> ns_map_name m = []"
  by (simp_all add: ns_wf_def)

lemma ns_clear_group_0_eq:
  assumes "h = ns_has_bits m" and "has_ns_signon_state m \<or> ns_signon_state m = 0"
    and "has_ns_spawn_count m \<or> ns_spawn_count m = 0"
    and "has_ns_num_server_players m \<or> ns_num_server_players m = 0"
    and "has_ns_map_name m \<or> ns_map_name m = []"
  shows "if_has (h AND 23 \<noteq> 0) ns_clear_group_0 m = m\<lparr>ns_signon_state := 0, ns_spawn_count := 0, ns_num_server_players := 0,
    ns_map_name := []\<rparr>"
proof (cases "h AND 23 = 0")
  case True
  with assms have "ns_signon_state m = 0" "ns_spawn_count m = 0" "ns_num_server_players m = 0" "ns_map_name m = []"
    by (simp_all add: ns_has_defs has_mask [OF True [unfolded assms(1)]])
  then show ?thesis using True by (intro CNETMsg_SignonState.equality) simp_all
next
  case False
  have "ns_clear_group_0 m = m\<lparr>ns_signon_state := 0, ns_spawn_count := 0, ns_num_server_players := 0, ns_map_name := []\<rparr>"
    using assms by (intro CNETMsg_SignonState.equality) (auto simp: ns_clear_group_0_def if_has_def)
  then show ?thesis using False by simp
qed

lemma ns_Clear_eq: "ns_wf m \<Longrightarrow> ns_Clear m = ns_SharedCtor\<lparr>ns_cached_size := ns_cached_size m\<rparr>"
proof -
  assume wf: "ns_wf m"
  note d = ns_wf_has(2-) [OF wf, unfolded ns_has_defs not_not]
  show ?thesis
    unfolding ns_Clear_def Let_def by (simp add: ns_SharedCtor_def ns_has_defs d ns_clear_group_0_eq)
qed

lemma ns_wf_SharedCtor: "ns_wf ns_SharedCtor"
  by (simp add: ns_wf_def ns_SharedCtor_def)

lemma ns_wf_other [simp]: "ns_wf (m\<lparr>ns_cached_size := n\<rparr>) = ns_wf m" "ns_wf (m\<lparr>ns_unknown_fields := uf\<rparr>) = ns_wf m"
  "ns_wf (m\<lparr>ns_players_networkids := ps\<rparr>) = ns_wf m"
  by (simp_all add: ns_wf_def ns_has_defs)

lemma ns_wf_set:
  "ns_wf m \<Longrightarrow> ns_wf (set_ns_signon_state v m)"
  "ns_wf m \<Longrightarrow> ns_wf (set_ns_spawn_count v m)"
  "ns_wf m \<Longrightarrow> ns_wf (set_ns_num_server_players v m)"
  "ns_wf m \<Longrightarrow> ns_wf (set_ns_map_name s m)"
  by (simp_all add: ns_wf_def ns_has_defs ns_set_defs has_or)

lemma ns_wf_Clear: "ns_wf m \<Longrightarrow> ns_wf (ns_Clear m)"
  by (simp add: ns_Clear_eq ns_wf_SharedCtor)

lemma ns_wf_MergeFrom: "ns_wf m \<Longrightarrow> ns_wf (ns_MergeFrom from m)"
  unfolding ns_MergeFrom_def ns_merge_0_def Let_def ns_wf_other
  by (intro if_has_I [where I = ns_wf] ns_wf_set) (simp_all add: ns_wf_other)

lemma ns_cases_keep: "keeps ns_wf (mo_case ns_ops n)"
  unfolding ns_ops_def message_ops.simps ns_parse_defs
  by (rule keeps_case_of) (simp add: keeps_fields ns_wf_set add_ns_players_networkids_def)

lemma ns_parse_wf: "ns_wf m \<Longrightarrow> ParseFromArray rtc ns_ops ns_Clear m mem data n = Some (b, m') \<Longrightarrow> ns_wf m'"
  by (rule ParseFromArray_keeps [where I = ns_wf, OF ns_cases_keep]) (simp_all add: ns_wf_Clear)

lemma ns_MergeFrom_Clear: "ns_wf from \<Longrightarrow> ns_wf m \<Longrightarrow> ns_MergeFrom from (ns_Clear m) =
  from\<lparr>ns_cached_size := ns_cached_size m\<rparr>"
  unfolding ns_MergeFrom_canon by (simp add: ns_Clear_eq ns_SharedCtor_def ns_wf_def pick_default)

lemma ns_CopyFrom_eq: "ns_wf from \<Longrightarrow> ns_wf m \<Longrightarrow> ns_CopyFrom from m = from\<lparr>ns_cached_size :=
  ns_cached_size m\<rparr>"
  by (simp add: ns_CopyFrom_def ns_MergeFrom_Clear)

lemma ns_InternalSwap_eq: "ns_InternalSwap m other = (other, m)"
  by (simp add: ns_InternalSwap_def)

lemma ns_Clear_fields: "ns_wf m \<Longrightarrow> ns_Clear m = clear_ns_map_name (clear_ns_players_networkids (clear_ns_num_server_players
  (clear_ns_spawn_count (clear_ns_signon_state (m\<lparr>ns_unknown_fields := []\<rparr>)))))"
proof -
  assume wf: "ns_wf m"
  then have "ns_has_bits m AND NOT 23 = 0" using and_not_mask_zero [OF ns_wf_has(1)] by blast
  then show ?thesis using wf by (simp add: ns_Clear_eq ns_SharedCtor_def ns_clear_defs and.assoc)
qed

lemma ns_size_group_0:
  "optional_size (ns_has_bits m AND 23 \<noteq> 0)
     (optional_size (has_ns_signon_state m) (1 + UInt32Size (ns_signon_state m)) +
      optional_size (has_ns_spawn_count m) (1 + UInt32Size (ns_spawn_count m)) +
      optional_size (has_ns_num_server_players m) (1 + UInt32Size (ns_num_server_players m)) +
      optional_size (has_ns_map_name m) (1 + StringSize (ns_map_name m))) =
     optional_size (has_ns_signon_state m) (1 + UInt32Size (ns_signon_state m)) +
     optional_size (has_ns_spawn_count m) (1 + UInt32Size (ns_spawn_count m)) +
     optional_size (has_ns_num_server_players m) (1 + UInt32Size (ns_num_server_players m)) +
     optional_size (has_ns_map_name m) (1 + StringSize (ns_map_name m))"
  by (cases "ns_has_bits m AND 23 = 0") (simp_all add: ns_has_defs has_mask [of "ns_has_bits m" 23])

lemma ns_tag_sizes:
  "int (length (WFL_WriteTagToArray 1 WIRETYPE_VARINT)) = 1"
  "int (length (WFL_WriteTagToArray 2 WIRETYPE_VARINT)) = 1"
  "int (length (WFL_WriteTagToArray 3 WIRETYPE_VARINT)) = 1"
  "int (length (WFL_WriteTagToArray 4 WIRETYPE_LENGTH_DELIMITED)) = 1"
  "int (length (WFL_WriteTagToArray 5 WIRETYPE_LENGTH_DELIMITED)) = 1"
  by (simp_all add: tag_length)

lemma ns_ByteSize_eq:
  "ns_ByteSize m = (i32 (int (length (ns_Serialize m))), m\<lparr>ns_cached_size := i32 (int (length (ns_Serialize m)))\<rparr>)"
proof -
  have "fst (ns_ByteSize m) = i32 (int (length (ns_Serialize m)))"
    unfolding ns_ByteSize_def ns_Serialize_def Let_def fst_conv serialized_size i32_add(2) length_append of_nat_add optional_simps ns_size_group_0
    by (simp only: written_sizes written_strings_size ns_tag_sizes ac_simps)
  then show ?thesis by (simp add: ns_ByteSize_def Let_def)
qed

subsection \<open>Parsing a serialized message\<close>

lemma ns_parse:
  assumes "cutoff_reader rtc" and "ns_serializable from" and "length (ns_Serialize from) < 2 ^ 26"
  shows "ParseFromArray rtc ns_ops ns_Clear m (pre @ ns_Serialize from @ post) (int (length pre)) (int (length (ns_Serialize from))) =
    Some (True, ns_MergeFrom from (ns_Clear m))"
  using ns.ParseFromArray_items [OF assms(1) _ ns_items_ok [OF assms(2)], of _ pre post _ ns_Clear m] assms(3)
  by (simp add: ns_items_bytes ns_items_fold kDefaultTotalBytesLimit_def)

lemma ns_parse_two:
  assumes "cutoff_reader rtc" and "ns_serializable m1" and "ns_serializable m2" and "length (ns_Serialize m1 @ ns_Serialize m2) < 2 ^ 26"
  shows "ParseFromArray rtc ns_ops ns_Clear m (ns_Serialize m1 @ ns_Serialize m2) 0 (int (length (ns_Serialize m1 @ ns_Serialize m2))) =
    Some (True, ns_MergeFrom m2 (ns_MergeFrom m1 (ns_Clear m)))"
  using ns.ParseFromArray_items [OF assms(1), of "ns_items m1 @ ns_items m2" _ "[]" "[]" _ ns_Clear m] ns_items_ok [OF assms(2)]
    ns_items_ok [OF assms(3)] assms(4)
  by (simp add: ns_items_bytes ns_items_fold kDefaultTotalBytesLimit_def)

end
