(* ===== verification/SvcServerInfo.thy ===== *)
theory SvcServerInfo
  imports NetSignonState
begin

text \<open>
  The message class \<open>CSVCMsg_ServerInfo\<close>: 21 optional fields of every kind the protocol uses,
  with has-bits in three groups; field 21 is stored with the first group.
\<close>

subsection \<open>The class\<close>

record CSVCMsg_ServerInfo =
  si_has_bits :: u32
  si_unknown_fields :: "unknown_field list"
  si_cached_size :: int
  si_protocol :: u32
  si_server_count :: u32
  si_is_dedicated :: bool
  si_is_official_valve_server :: bool
  si_is_hltv :: bool
  si_is_replay :: bool
  si_is_redirecting_to_proxy_relay :: bool
  si_c_os :: u32
  si_map_crc :: u32
  si_client_crc :: u32
  si_string_table_crc :: u32
  si_max_clients :: u32
  si_max_classes :: u32
  si_player_slot :: u32
  si_tick_interval :: u32
  si_game_dir :: "u8 list"
  si_map_name :: "u8 list"
  si_map_group_name :: "u8 list"
  si_sky_name :: "u8 list"
  si_host_name :: "u8 list"
  si_ugc_map_id :: u64

definition has_si_protocol :: "CSVCMsg_ServerInfo \<Rightarrow> bool" where
  "has_si_protocol m \<longleftrightarrow> si_has_bits m AND 0x00000001 \<noteq> 0"
definition set_si_protocol :: "u32 \<Rightarrow> CSVCMsg_ServerInfo \<Rightarrow> CSVCMsg_ServerInfo" where
  "set_si_protocol v m = m\<lparr>si_has_bits := si_has_bits m OR 0x00000001, si_protocol := v\<rparr>"
definition clear_si_protocol :: "CSVCMsg_ServerInfo \<Rightarrow> CSVCMsg_ServerInfo" where
  "clear_si_protocol m = m\<lparr>si_protocol := 0, si_has_bits := si_has_bits m AND NOT 0x00000001\<rparr>"

definition has_si_server_count :: "CSVCMsg_ServerInfo \<Rightarrow> bool" where
  "has_si_server_count m \<longleftrightarrow> si_has_bits m AND 0x00000002 \<noteq> 0"
definition set_si_server_count :: "u32 \<Rightarrow> CSVCMsg_ServerInfo \<Rightarrow> CSVCMsg_ServerInfo" where
  "set_si_server_count v m = m\<lparr>si_has_bits := si_has_bits m OR 0x00000002, si_server_count := v\<rparr>"
definition clear_si_server_count :: "CSVCMsg_ServerInfo \<Rightarrow> CSVCMsg_ServerInfo" where
  "clear_si_server_count m = m\<lparr>si_server_count := 0, si_has_bits := si_has_bits m AND NOT 0x00000002\<rparr>"

definition has_si_is_dedicated :: "CSVCMsg_ServerInfo \<Rightarrow> bool" where
  "has_si_is_dedicated m \<longleftrightarrow> si_has_bits m AND 0x00000004 \<noteq> 0"
definition set_si_is_dedicated :: "bool \<Rightarrow> CSVCMsg_ServerInfo \<Rightarrow> CSVCMsg_ServerInfo" where
  "set_si_is_dedicated v m = m\<lparr>si_has_bits := si_has_bits m OR 0x00000004, si_is_dedicated := v\<rparr>"
definition clear_si_is_dedicated :: "CSVCMsg_ServerInfo \<Rightarrow> CSVCMsg_ServerInfo" where
  "clear_si_is_dedicated m = m\<lparr>si_is_dedicated := False, si_has_bits := si_has_bits m AND NOT 0x00000004\<rparr>"

definition has_si_is_official_valve_server :: "CSVCMsg_ServerInfo \<Rightarrow> bool" where
  "has_si_is_official_valve_server m \<longleftrightarrow> si_has_bits m AND 0x00000008 \<noteq> 0"
definition set_si_is_official_valve_server :: "bool \<Rightarrow> CSVCMsg_ServerInfo \<Rightarrow> CSVCMsg_ServerInfo" where
  "set_si_is_official_valve_server v m = m\<lparr>si_has_bits := si_has_bits m OR 0x00000008, si_is_official_valve_server := v\<rparr>"
definition clear_si_is_official_valve_server :: "CSVCMsg_ServerInfo \<Rightarrow> CSVCMsg_ServerInfo" where
  "clear_si_is_official_valve_server m = m\<lparr>si_is_official_valve_server := False, si_has_bits := si_has_bits m AND NOT 0x00000008\<rparr>"

definition has_si_is_hltv :: "CSVCMsg_ServerInfo \<Rightarrow> bool" where
  "has_si_is_hltv m \<longleftrightarrow> si_has_bits m AND 0x00000010 \<noteq> 0"
definition set_si_is_hltv :: "bool \<Rightarrow> CSVCMsg_ServerInfo \<Rightarrow> CSVCMsg_ServerInfo" where
  "set_si_is_hltv v m = m\<lparr>si_has_bits := si_has_bits m OR 0x00000010, si_is_hltv := v\<rparr>"
definition clear_si_is_hltv :: "CSVCMsg_ServerInfo \<Rightarrow> CSVCMsg_ServerInfo" where
  "clear_si_is_hltv m = m\<lparr>si_is_hltv := False, si_has_bits := si_has_bits m AND NOT 0x00000010\<rparr>"

definition has_si_is_replay :: "CSVCMsg_ServerInfo \<Rightarrow> bool" where
  "has_si_is_replay m \<longleftrightarrow> si_has_bits m AND 0x00000020 \<noteq> 0"
definition set_si_is_replay :: "bool \<Rightarrow> CSVCMsg_ServerInfo \<Rightarrow> CSVCMsg_ServerInfo" where
  "set_si_is_replay v m = m\<lparr>si_has_bits := si_has_bits m OR 0x00000020, si_is_replay := v\<rparr>"
definition clear_si_is_replay :: "CSVCMsg_ServerInfo \<Rightarrow> CSVCMsg_ServerInfo" where
  "clear_si_is_replay m = m\<lparr>si_is_replay := False, si_has_bits := si_has_bits m AND NOT 0x00000020\<rparr>"

definition has_si_is_redirecting_to_proxy_relay :: "CSVCMsg_ServerInfo \<Rightarrow> bool" where
  "has_si_is_redirecting_to_proxy_relay m \<longleftrightarrow> si_has_bits m AND 0x00000040 \<noteq> 0"
definition set_si_is_redirecting_to_proxy_relay :: "bool \<Rightarrow> CSVCMsg_ServerInfo \<Rightarrow> CSVCMsg_ServerInfo" where
  "set_si_is_redirecting_to_proxy_relay v m = m\<lparr>si_has_bits := si_has_bits m OR 0x00000040, si_is_redirecting_to_proxy_relay := v\<rparr>"
definition clear_si_is_redirecting_to_proxy_relay :: "CSVCMsg_ServerInfo \<Rightarrow> CSVCMsg_ServerInfo" where
  "clear_si_is_redirecting_to_proxy_relay m = m\<lparr>si_is_redirecting_to_proxy_relay := False, si_has_bits := si_has_bits m AND NOT
    0x00000040\<rparr>"

definition has_si_c_os :: "CSVCMsg_ServerInfo \<Rightarrow> bool" where
  "has_si_c_os m \<longleftrightarrow> si_has_bits m AND 0x00000080 \<noteq> 0"
definition set_si_c_os :: "u32 \<Rightarrow> CSVCMsg_ServerInfo \<Rightarrow> CSVCMsg_ServerInfo" where
  "set_si_c_os v m = m\<lparr>si_has_bits := si_has_bits m OR 0x00000080, si_c_os := v\<rparr>"
definition clear_si_c_os :: "CSVCMsg_ServerInfo \<Rightarrow> CSVCMsg_ServerInfo" where
  "clear_si_c_os m = m\<lparr>si_c_os := 0, si_has_bits := si_has_bits m AND NOT 0x00000080\<rparr>"

definition has_si_map_crc :: "CSVCMsg_ServerInfo \<Rightarrow> bool" where
  "has_si_map_crc m \<longleftrightarrow> si_has_bits m AND 0x00000100 \<noteq> 0"
definition set_si_map_crc :: "u32 \<Rightarrow> CSVCMsg_ServerInfo \<Rightarrow> CSVCMsg_ServerInfo" where
  "set_si_map_crc v m = m\<lparr>si_has_bits := si_has_bits m OR 0x00000100, si_map_crc := v\<rparr>"
definition clear_si_map_crc :: "CSVCMsg_ServerInfo \<Rightarrow> CSVCMsg_ServerInfo" where
  "clear_si_map_crc m = m\<lparr>si_map_crc := 0, si_has_bits := si_has_bits m AND NOT 0x00000100\<rparr>"

definition has_si_client_crc :: "CSVCMsg_ServerInfo \<Rightarrow> bool" where
  "has_si_client_crc m \<longleftrightarrow> si_has_bits m AND 0x00000200 \<noteq> 0"
definition set_si_client_crc :: "u32 \<Rightarrow> CSVCMsg_ServerInfo \<Rightarrow> CSVCMsg_ServerInfo" where
  "set_si_client_crc v m = m\<lparr>si_has_bits := si_has_bits m OR 0x00000200, si_client_crc := v\<rparr>"
definition clear_si_client_crc :: "CSVCMsg_ServerInfo \<Rightarrow> CSVCMsg_ServerInfo" where
  "clear_si_client_crc m = m\<lparr>si_client_crc := 0, si_has_bits := si_has_bits m AND NOT 0x00000200\<rparr>"

definition has_si_string_table_crc :: "CSVCMsg_ServerInfo \<Rightarrow> bool" where
  "has_si_string_table_crc m \<longleftrightarrow> si_has_bits m AND 0x00000400 \<noteq> 0"
definition set_si_string_table_crc :: "u32 \<Rightarrow> CSVCMsg_ServerInfo \<Rightarrow> CSVCMsg_ServerInfo" where
  "set_si_string_table_crc v m = m\<lparr>si_has_bits := si_has_bits m OR 0x00000400, si_string_table_crc := v\<rparr>"
definition clear_si_string_table_crc :: "CSVCMsg_ServerInfo \<Rightarrow> CSVCMsg_ServerInfo" where
  "clear_si_string_table_crc m = m\<lparr>si_string_table_crc := 0, si_has_bits := si_has_bits m AND NOT 0x00000400\<rparr>"

definition has_si_max_clients :: "CSVCMsg_ServerInfo \<Rightarrow> bool" where
  "has_si_max_clients m \<longleftrightarrow> si_has_bits m AND 0x00000800 \<noteq> 0"
definition set_si_max_clients :: "u32 \<Rightarrow> CSVCMsg_ServerInfo \<Rightarrow> CSVCMsg_ServerInfo" where
  "set_si_max_clients v m = m\<lparr>si_has_bits := si_has_bits m OR 0x00000800, si_max_clients := v\<rparr>"
definition clear_si_max_clients :: "CSVCMsg_ServerInfo \<Rightarrow> CSVCMsg_ServerInfo" where
  "clear_si_max_clients m = m\<lparr>si_max_clients := 0, si_has_bits := si_has_bits m AND NOT 0x00000800\<rparr>"

definition has_si_max_classes :: "CSVCMsg_ServerInfo \<Rightarrow> bool" where
  "has_si_max_classes m \<longleftrightarrow> si_has_bits m AND 0x00001000 \<noteq> 0"
definition set_si_max_classes :: "u32 \<Rightarrow> CSVCMsg_ServerInfo \<Rightarrow> CSVCMsg_ServerInfo" where
  "set_si_max_classes v m = m\<lparr>si_has_bits := si_has_bits m OR 0x00001000, si_max_classes := v\<rparr>"
definition clear_si_max_classes :: "CSVCMsg_ServerInfo \<Rightarrow> CSVCMsg_ServerInfo" where
  "clear_si_max_classes m = m\<lparr>si_max_classes := 0, si_has_bits := si_has_bits m AND NOT 0x00001000\<rparr>"

definition has_si_player_slot :: "CSVCMsg_ServerInfo \<Rightarrow> bool" where
  "has_si_player_slot m \<longleftrightarrow> si_has_bits m AND 0x00002000 \<noteq> 0"
definition set_si_player_slot :: "u32 \<Rightarrow> CSVCMsg_ServerInfo \<Rightarrow> CSVCMsg_ServerInfo" where
  "set_si_player_slot v m = m\<lparr>si_has_bits := si_has_bits m OR 0x00002000, si_player_slot := v\<rparr>"
definition clear_si_player_slot :: "CSVCMsg_ServerInfo \<Rightarrow> CSVCMsg_ServerInfo" where
  "clear_si_player_slot m = m\<lparr>si_player_slot := 0, si_has_bits := si_has_bits m AND NOT 0x00002000\<rparr>"

definition has_si_tick_interval :: "CSVCMsg_ServerInfo \<Rightarrow> bool" where
  "has_si_tick_interval m \<longleftrightarrow> si_has_bits m AND 0x00004000 \<noteq> 0"
definition set_si_tick_interval :: "u32 \<Rightarrow> CSVCMsg_ServerInfo \<Rightarrow> CSVCMsg_ServerInfo" where
  "set_si_tick_interval v m = m\<lparr>si_has_bits := si_has_bits m OR 0x00004000, si_tick_interval := v\<rparr>"
definition clear_si_tick_interval :: "CSVCMsg_ServerInfo \<Rightarrow> CSVCMsg_ServerInfo" where
  "clear_si_tick_interval m = m\<lparr>si_tick_interval := 0, si_has_bits := si_has_bits m AND NOT 0x00004000\<rparr>"

definition has_si_game_dir :: "CSVCMsg_ServerInfo \<Rightarrow> bool" where
  "has_si_game_dir m \<longleftrightarrow> si_has_bits m AND 0x00008000 \<noteq> 0"
definition set_si_game_dir :: "u8 list \<Rightarrow> CSVCMsg_ServerInfo \<Rightarrow> CSVCMsg_ServerInfo" where
  "set_si_game_dir v m = m\<lparr>si_has_bits := si_has_bits m OR 0x00008000, si_game_dir := v\<rparr>"
definition clear_si_game_dir :: "CSVCMsg_ServerInfo \<Rightarrow> CSVCMsg_ServerInfo" where
  "clear_si_game_dir m = m\<lparr>si_game_dir := [], si_has_bits := si_has_bits m AND NOT 0x00008000\<rparr>"

definition has_si_map_name :: "CSVCMsg_ServerInfo \<Rightarrow> bool" where
  "has_si_map_name m \<longleftrightarrow> si_has_bits m AND 0x00010000 \<noteq> 0"
definition set_si_map_name :: "u8 list \<Rightarrow> CSVCMsg_ServerInfo \<Rightarrow> CSVCMsg_ServerInfo" where
  "set_si_map_name v m = m\<lparr>si_has_bits := si_has_bits m OR 0x00010000, si_map_name := v\<rparr>"
definition clear_si_map_name :: "CSVCMsg_ServerInfo \<Rightarrow> CSVCMsg_ServerInfo" where
  "clear_si_map_name m = m\<lparr>si_map_name := [], si_has_bits := si_has_bits m AND NOT 0x00010000\<rparr>"

definition has_si_map_group_name :: "CSVCMsg_ServerInfo \<Rightarrow> bool" where
  "has_si_map_group_name m \<longleftrightarrow> si_has_bits m AND 0x00020000 \<noteq> 0"
definition set_si_map_group_name :: "u8 list \<Rightarrow> CSVCMsg_ServerInfo \<Rightarrow> CSVCMsg_ServerInfo" where
  "set_si_map_group_name v m = m\<lparr>si_has_bits := si_has_bits m OR 0x00020000, si_map_group_name := v\<rparr>"
definition clear_si_map_group_name :: "CSVCMsg_ServerInfo \<Rightarrow> CSVCMsg_ServerInfo" where
  "clear_si_map_group_name m = m\<lparr>si_map_group_name := [], si_has_bits := si_has_bits m AND NOT 0x00020000\<rparr>"

definition has_si_sky_name :: "CSVCMsg_ServerInfo \<Rightarrow> bool" where
  "has_si_sky_name m \<longleftrightarrow> si_has_bits m AND 0x00040000 \<noteq> 0"
definition set_si_sky_name :: "u8 list \<Rightarrow> CSVCMsg_ServerInfo \<Rightarrow> CSVCMsg_ServerInfo" where
  "set_si_sky_name v m = m\<lparr>si_has_bits := si_has_bits m OR 0x00040000, si_sky_name := v\<rparr>"
definition clear_si_sky_name :: "CSVCMsg_ServerInfo \<Rightarrow> CSVCMsg_ServerInfo" where
  "clear_si_sky_name m = m\<lparr>si_sky_name := [], si_has_bits := si_has_bits m AND NOT 0x00040000\<rparr>"

definition has_si_host_name :: "CSVCMsg_ServerInfo \<Rightarrow> bool" where
  "has_si_host_name m \<longleftrightarrow> si_has_bits m AND 0x00080000 \<noteq> 0"
definition set_si_host_name :: "u8 list \<Rightarrow> CSVCMsg_ServerInfo \<Rightarrow> CSVCMsg_ServerInfo" where
  "set_si_host_name v m = m\<lparr>si_has_bits := si_has_bits m OR 0x00080000, si_host_name := v\<rparr>"
definition clear_si_host_name :: "CSVCMsg_ServerInfo \<Rightarrow> CSVCMsg_ServerInfo" where
  "clear_si_host_name m = m\<lparr>si_host_name := [], si_has_bits := si_has_bits m AND NOT 0x00080000\<rparr>"

definition has_si_ugc_map_id :: "CSVCMsg_ServerInfo \<Rightarrow> bool" where
  "has_si_ugc_map_id m \<longleftrightarrow> si_has_bits m AND 0x00100000 \<noteq> 0"
definition set_si_ugc_map_id :: "u64 \<Rightarrow> CSVCMsg_ServerInfo \<Rightarrow> CSVCMsg_ServerInfo" where
  "set_si_ugc_map_id v m = m\<lparr>si_has_bits := si_has_bits m OR 0x00100000, si_ugc_map_id := v\<rparr>"
definition clear_si_ugc_map_id :: "CSVCMsg_ServerInfo \<Rightarrow> CSVCMsg_ServerInfo" where
  "clear_si_ugc_map_id m = m\<lparr>si_ugc_map_id := 0, si_has_bits := si_has_bits m AND NOT 0x00100000\<rparr>"

definition si_SharedCtor :: CSVCMsg_ServerInfo where
  "si_SharedCtor = \<lparr>si_has_bits = 0, si_unknown_fields = [], si_cached_size = 0,
     si_protocol = 0, si_server_count = 0, si_is_dedicated = False, si_is_official_valve_server = False, si_is_hltv = False, si_is_replay =
       False, si_is_redirecting_to_proxy_relay = False, si_c_os = 0, si_map_crc = 0, si_client_crc = 0, si_string_table_crc = 0,
       si_max_clients = 0, si_max_classes = 0, si_player_slot = 0, si_tick_interval = 0, si_game_dir = [], si_map_name = [],
       si_map_group_name = [], si_sky_name = [], si_host_name = [], si_ugc_map_id = 0\<rparr>"

definition si_clear_group_0 :: "CSVCMsg_ServerInfo \<Rightarrow> CSVCMsg_ServerInfo" where
  "si_clear_group_0 m = m\<lparr>si_protocol := 0, si_server_count := 0, si_is_dedicated := False, si_is_official_valve_server := False,
    si_is_hltv := False, si_is_replay := False, si_is_redirecting_to_proxy_relay := False, si_c_os := 0\<rparr>"

definition si_clear_group_1 :: "CSVCMsg_ServerInfo \<Rightarrow> CSVCMsg_ServerInfo" where
  "si_clear_group_1 m = if_has (has_si_game_dir m) (\<lambda>m. m\<lparr>si_game_dir := []\<rparr>) (m\<lparr>si_map_crc := 0,
    si_client_crc := 0, si_string_table_crc := 0, si_max_clients := 0, si_max_classes := 0, si_player_slot := 0, si_tick_interval := 0\<rparr>)"

definition si_clear_group_2 :: "CSVCMsg_ServerInfo \<Rightarrow> CSVCMsg_ServerInfo" where
  "si_clear_group_2 m = if_has (has_si_host_name m) (\<lambda>m. m\<lparr>si_host_name := []\<rparr>) (if_has (has_si_sky_name m)
    (\<lambda>m. m\<lparr>si_sky_name := []\<rparr>) (if_has (has_si_map_group_name m) (\<lambda>m. m\<lparr>si_map_group_name :=
    []\<rparr>) (if_has (has_si_map_name m) (\<lambda>m. m\<lparr>si_map_name := []\<rparr>) (m\<lparr>si_ugc_map_id := 0\<rparr>))))"

definition si_Clear :: "CSVCMsg_ServerInfo \<Rightarrow> CSVCMsg_ServerInfo" where
  "si_Clear m =
     (let m = if_has (si_has_bits m AND 255 \<noteq> 0) si_clear_group_0 m in
      let m = if_has (si_has_bits m AND 65280 \<noteq> 0) si_clear_group_1 m in
      let m = if_has (si_has_bits m AND 2031616 \<noteq> 0) si_clear_group_2 m in
      m\<lparr>si_has_bits := 0, si_unknown_fields := []\<rparr>)"

subsection \<open>Parsing\<close>

definition parse_si_protocol :: "CSVCMsg_ServerInfo \<Rightarrow> CodedInputStream \<Rightarrow> (parse_next \<times> CSVCMsg_ServerInfo
  \<times> CodedInputStream) option" where
  "parse_si_protocol = read_field ReadPrimitive_INT32 set_si_protocol (expect_tags [(16, 2)])"

definition parse_si_server_count :: "CSVCMsg_ServerInfo \<Rightarrow> CodedInputStream \<Rightarrow> (parse_next \<times>
  CSVCMsg_ServerInfo \<times> CodedInputStream) option" where
  "parse_si_server_count = read_field ReadPrimitive_INT32 set_si_server_count (expect_tags [(24, 3)])"

definition parse_si_is_dedicated :: "CSVCMsg_ServerInfo \<Rightarrow> CodedInputStream \<Rightarrow> (parse_next \<times>
  CSVCMsg_ServerInfo \<times> CodedInputStream) option" where
  "parse_si_is_dedicated = read_field ReadPrimitive_BOOL set_si_is_dedicated (expect_tags [(32, 4)])"

definition parse_si_is_official_valve_server :: "CSVCMsg_ServerInfo \<Rightarrow> CodedInputStream \<Rightarrow> (parse_next \<times>
  CSVCMsg_ServerInfo \<times> CodedInputStream) option" where
  "parse_si_is_official_valve_server = read_field ReadPrimitive_BOOL set_si_is_official_valve_server (expect_tags [(40, 5)])"

definition parse_si_is_hltv :: "CSVCMsg_ServerInfo \<Rightarrow> CodedInputStream \<Rightarrow> (parse_next \<times> CSVCMsg_ServerInfo
  \<times> CodedInputStream) option" where
  "parse_si_is_hltv = read_field ReadPrimitive_BOOL set_si_is_hltv (expect_tags [(48, 6)])"

definition parse_si_is_replay :: "CSVCMsg_ServerInfo \<Rightarrow> CodedInputStream \<Rightarrow> (parse_next \<times> CSVCMsg_ServerInfo
  \<times> CodedInputStream) option" where
  "parse_si_is_replay = read_field ReadPrimitive_BOOL set_si_is_replay (expect_tags [(56, 7)])"

definition parse_si_c_os :: "CSVCMsg_ServerInfo \<Rightarrow> CodedInputStream \<Rightarrow> (parse_next \<times> CSVCMsg_ServerInfo
  \<times> CodedInputStream) option" where
  "parse_si_c_os = read_field ReadPrimitive_INT32 set_si_c_os (expect_tags [(69, 8)])"

definition parse_si_map_crc :: "CSVCMsg_ServerInfo \<Rightarrow> CodedInputStream \<Rightarrow> (parse_next \<times> CSVCMsg_ServerInfo
  \<times> CodedInputStream) option" where
  "parse_si_map_crc = read_field ReadPrimitive_FIXED32 set_si_map_crc (expect_tags [(77, 9)])"

definition parse_si_client_crc :: "CSVCMsg_ServerInfo \<Rightarrow> CodedInputStream \<Rightarrow> (parse_next \<times> CSVCMsg_ServerInfo
  \<times> CodedInputStream) option" where
  "parse_si_client_crc = read_field ReadPrimitive_FIXED32 set_si_client_crc (expect_tags [(85, 10)])"

definition parse_si_string_table_crc :: "CSVCMsg_ServerInfo \<Rightarrow> CodedInputStream \<Rightarrow> (parse_next \<times>
  CSVCMsg_ServerInfo \<times> CodedInputStream) option" where
  "parse_si_string_table_crc = read_field ReadPrimitive_FIXED32 set_si_string_table_crc (expect_tags [(88, 11)])"

definition parse_si_max_clients :: "CSVCMsg_ServerInfo \<Rightarrow> CodedInputStream \<Rightarrow> (parse_next \<times> CSVCMsg_ServerInfo
  \<times> CodedInputStream) option" where
  "parse_si_max_clients = read_field ReadPrimitive_INT32 set_si_max_clients (expect_tags [(96, 12)])"

definition parse_si_max_classes :: "CSVCMsg_ServerInfo \<Rightarrow> CodedInputStream \<Rightarrow> (parse_next \<times> CSVCMsg_ServerInfo
  \<times> CodedInputStream) option" where
  "parse_si_max_classes = read_field ReadPrimitive_INT32 set_si_max_classes (expect_tags [(104, 13)])"

definition parse_si_player_slot :: "CSVCMsg_ServerInfo \<Rightarrow> CodedInputStream \<Rightarrow> (parse_next \<times> CSVCMsg_ServerInfo
  \<times> CodedInputStream) option" where
  "parse_si_player_slot = read_field ReadPrimitive_INT32 set_si_player_slot (expect_tags [(117, 14)])"

definition parse_si_tick_interval :: "CSVCMsg_ServerInfo \<Rightarrow> CodedInputStream \<Rightarrow> (parse_next \<times>
  CSVCMsg_ServerInfo \<times> CodedInputStream) option" where
  "parse_si_tick_interval = read_field ReadPrimitive_FLOAT set_si_tick_interval (expect_tags [(122, 15)])"

definition parse_si_game_dir :: "CSVCMsg_ServerInfo \<Rightarrow> CodedInputStream \<Rightarrow> (parse_next \<times> CSVCMsg_ServerInfo
  \<times> CodedInputStream) option" where
  "parse_si_game_dir = read_string_field WFL_ReadString si_game_dir set_si_game_dir (expect_tags [(130, 16)])"

definition parse_si_map_name :: "CSVCMsg_ServerInfo \<Rightarrow> CodedInputStream \<Rightarrow> (parse_next \<times> CSVCMsg_ServerInfo
  \<times> CodedInputStream) option" where
  "parse_si_map_name = read_string_field WFL_ReadString si_map_name set_si_map_name (expect_tags [(138, 17)])"

definition parse_si_map_group_name :: "CSVCMsg_ServerInfo \<Rightarrow> CodedInputStream \<Rightarrow> (parse_next \<times>
  CSVCMsg_ServerInfo \<times> CodedInputStream) option" where
  "parse_si_map_group_name = read_string_field WFL_ReadString si_map_group_name set_si_map_group_name (expect_tags [(146, 18)])"

definition parse_si_sky_name :: "CSVCMsg_ServerInfo \<Rightarrow> CodedInputStream \<Rightarrow> (parse_next \<times> CSVCMsg_ServerInfo
  \<times> CodedInputStream) option" where
  "parse_si_sky_name = read_string_field WFL_ReadString si_sky_name set_si_sky_name (expect_tags [(154, 19)])"

definition parse_si_host_name :: "CSVCMsg_ServerInfo \<Rightarrow> CodedInputStream \<Rightarrow> (parse_next \<times> CSVCMsg_ServerInfo
  \<times> CodedInputStream) option" where
  "parse_si_host_name = read_string_field WFL_ReadString si_host_name set_si_host_name (expect_tags [(168, 21)])"

definition parse_si_is_redirecting_to_proxy_relay :: "CSVCMsg_ServerInfo \<Rightarrow> CodedInputStream \<Rightarrow> (parse_next \<times>
  CSVCMsg_ServerInfo \<times> CodedInputStream) option" where
  "parse_si_is_redirecting_to_proxy_relay = read_field ReadPrimitive_BOOL set_si_is_redirecting_to_proxy_relay (expect_tags [(176, 22)])"

definition parse_si_ugc_map_id :: "CSVCMsg_ServerInfo \<Rightarrow> CodedInputStream \<Rightarrow> (parse_next \<times> CSVCMsg_ServerInfo
  \<times> CodedInputStream) option" where
  "parse_si_ugc_map_id = read_field ReadPrimitive_UINT64 set_si_ugc_map_id expect_end"

definition si_IsInitialized :: "CSVCMsg_ServerInfo \<Rightarrow> bool" where
  "si_IsInitialized m = True"

definition si_tags :: "(nat \<times> u32) list" where
  "si_tags = [(1, 8), (2, 16), (3, 24), (4, 32), (5, 40), (6, 48), (7, 56), (8, 69), (9, 77), (10, 85), (11, 88), (12, 96), (13, 104), (14,
    117), (15, 122), (16, 130), (17, 138), (18, 146), (19, 154), (21, 168), (22, 176)]"

definition si_ops :: "CSVCMsg_ServerInfo message_ops" where
  "si_ops = \<lparr>mo_cutoff = 16383, mo_tags = si_tags,
     mo_case = case_of [(1, parse_si_protocol), (2, parse_si_server_count), (3, parse_si_is_dedicated), (4,
       parse_si_is_official_valve_server), (5, parse_si_is_hltv), (6, parse_si_is_replay), (7, parse_si_c_os), (8, parse_si_map_crc), (9,
       parse_si_client_crc), (10, parse_si_string_table_crc), (11, parse_si_max_clients), (12, parse_si_max_classes), (13,
       parse_si_player_slot), (14, parse_si_tick_interval), (15, parse_si_game_dir), (16, parse_si_map_name), (17,
       parse_si_map_group_name), (18, parse_si_sky_name), (19, parse_si_host_name), (21, parse_si_is_redirecting_to_proxy_relay), (22,
       parse_si_ugc_map_id)],
     mo_unknown = si_unknown_fields, mo_set_unknown = (\<lambda>uf m. m\<lparr>si_unknown_fields := uf\<rparr>), mo_is_initialized =
       si_IsInitialized\<rparr>"

subsection \<open>Serializing, merging, swapping\<close>

definition si_Serialize :: "CSVCMsg_ServerInfo \<Rightarrow> u8 list" where
  "si_Serialize m =
     optional (has_si_protocol m) (WriteInt32ToArray 1 (si_protocol m)) @
     optional (has_si_server_count m) (WriteInt32ToArray 2 (si_server_count m)) @
     optional (has_si_is_dedicated m) (WriteBoolToArray 3 (si_is_dedicated m)) @
     optional (has_si_is_official_valve_server m) (WriteBoolToArray 4 (si_is_official_valve_server m)) @
     optional (has_si_is_hltv m) (WriteBoolToArray 5 (si_is_hltv m)) @
     optional (has_si_is_replay m) (WriteBoolToArray 6 (si_is_replay m)) @
     optional (has_si_c_os m) (WriteInt32ToArray 7 (si_c_os m)) @
     optional (has_si_map_crc m) (WriteFixed32ToArray 8 (si_map_crc m)) @
     optional (has_si_client_crc m) (WriteFixed32ToArray 9 (si_client_crc m)) @
     optional (has_si_string_table_crc m) (WriteFixed32ToArray 10 (si_string_table_crc m)) @
     optional (has_si_max_clients m) (WriteInt32ToArray 11 (si_max_clients m)) @
     optional (has_si_max_classes m) (WriteInt32ToArray 12 (si_max_classes m)) @
     optional (has_si_player_slot m) (WriteInt32ToArray 13 (si_player_slot m)) @
     optional (has_si_tick_interval m) (WriteFloatToArray 14 (si_tick_interval m)) @
     optional (has_si_game_dir m) (WFL_WriteStringToArray 15 (si_game_dir m)) @
     optional (has_si_map_name m) (WFL_WriteStringToArray 16 (si_map_name m)) @
     optional (has_si_map_group_name m) (WFL_WriteStringToArray 17 (si_map_group_name m)) @
     optional (has_si_sky_name m) (WFL_WriteStringToArray 18 (si_sky_name m)) @
     optional (has_si_host_name m) (WFL_WriteStringToArray 19 (si_host_name m)) @
     optional (has_si_is_redirecting_to_proxy_relay m) (WriteBoolToArray 21 (si_is_redirecting_to_proxy_relay m)) @
     optional (has_si_ugc_map_id m) (WriteUInt64ToArray 22 (si_ugc_map_id m)) @
     SerializeUnknownFieldsToArray (si_unknown_fields m)"

definition si_ByteSize :: "CSVCMsg_ServerInfo \<Rightarrow> int \<times> CSVCMsg_ServerInfo" where
  "si_ByteSize m =
     (let total_size = i32 (
        optional_size (si_has_bits m AND 255 \<noteq> 0)
          (optional_size (has_si_protocol m) (1 + Int32Size (si_protocol m)) +
           optional_size (has_si_server_count m) (1 + Int32Size (si_server_count m)) +
           optional_size (has_si_is_dedicated m) (1 + 1) +
           optional_size (has_si_is_official_valve_server m) (1 + 1) +
           optional_size (has_si_is_hltv m) (1 + 1) +
           optional_size (has_si_is_replay m) (1 + 1) +
           optional_size (has_si_is_redirecting_to_proxy_relay m) (2 + 1) +
           optional_size (has_si_c_os m) (1 + Int32Size (si_c_os m))) +
        optional_size (si_has_bits m AND 65280 \<noteq> 0)
          (optional_size (has_si_map_crc m) (1 + 4) +
           optional_size (has_si_client_crc m) (1 + 4) +
           optional_size (has_si_string_table_crc m) (1 + 4) +
           optional_size (has_si_max_clients m) (1 + Int32Size (si_max_clients m)) +
           optional_size (has_si_max_classes m) (1 + Int32Size (si_max_classes m)) +
           optional_size (has_si_player_slot m) (1 + Int32Size (si_player_slot m)) +
           optional_size (has_si_tick_interval m) (1 + 4) +
           optional_size (has_si_game_dir m) (1 + StringSize (si_game_dir m))) +
        optional_size (si_has_bits m AND 2031616 \<noteq> 0)
          (optional_size (has_si_map_name m) (2 + StringSize (si_map_name m)) +
           optional_size (has_si_map_group_name m) (2 + StringSize (si_map_group_name m)) +
           optional_size (has_si_sky_name m) (2 + StringSize (si_sky_name m)) +
           optional_size (has_si_host_name m) (2 + StringSize (si_host_name m)) +
           optional_size (has_si_ugc_map_id m) (2 + UInt64Size (si_ugc_map_id m))) +
        ComputeUnknownFieldsSize (si_unknown_fields m))
      in (total_size, m\<lparr>si_cached_size := total_size\<rparr>))"

definition si_merge_0 :: "CSVCMsg_ServerInfo \<Rightarrow> CSVCMsg_ServerInfo \<Rightarrow> CSVCMsg_ServerInfo" where
  "si_merge_0 from m =
     (let m = if_has (has_si_protocol from) (set_si_protocol (si_protocol from)) m in
      let m = if_has (has_si_server_count from) (set_si_server_count (si_server_count from)) m in
      let m = if_has (has_si_is_dedicated from) (set_si_is_dedicated (si_is_dedicated from)) m in
      let m = if_has (has_si_is_official_valve_server from) (set_si_is_official_valve_server (si_is_official_valve_server from)) m in
      let m = if_has (has_si_is_hltv from) (set_si_is_hltv (si_is_hltv from)) m in
      let m = if_has (has_si_is_replay from) (set_si_is_replay (si_is_replay from)) m in
      let m = if_has (has_si_is_redirecting_to_proxy_relay from) (set_si_is_redirecting_to_proxy_relay (si_is_redirecting_to_proxy_relay from)) m in
      let m = if_has (has_si_c_os from) (set_si_c_os (si_c_os from)) m in
      m)"

definition si_merge_1 :: "CSVCMsg_ServerInfo \<Rightarrow> CSVCMsg_ServerInfo \<Rightarrow> CSVCMsg_ServerInfo" where
  "si_merge_1 from m =
     (let m = if_has (has_si_map_crc from) (set_si_map_crc (si_map_crc from)) m in
      let m = if_has (has_si_client_crc from) (set_si_client_crc (si_client_crc from)) m in
      let m = if_has (has_si_string_table_crc from) (set_si_string_table_crc (si_string_table_crc from)) m in
      let m = if_has (has_si_max_clients from) (set_si_max_clients (si_max_clients from)) m in
      let m = if_has (has_si_max_classes from) (set_si_max_classes (si_max_classes from)) m in
      let m = if_has (has_si_player_slot from) (set_si_player_slot (si_player_slot from)) m in
      let m = if_has (has_si_tick_interval from) (set_si_tick_interval (si_tick_interval from)) m in
      let m = if_has (has_si_game_dir from) (set_si_game_dir (si_game_dir from)) m in
      m)"

definition si_merge_2 :: "CSVCMsg_ServerInfo \<Rightarrow> CSVCMsg_ServerInfo \<Rightarrow> CSVCMsg_ServerInfo" where
  "si_merge_2 from m =
     (let m = if_has (has_si_map_name from) (set_si_map_name (si_map_name from)) m in
      let m = if_has (has_si_map_group_name from) (set_si_map_group_name (si_map_group_name from)) m in
      let m = if_has (has_si_sky_name from) (set_si_sky_name (si_sky_name from)) m in
      let m = if_has (has_si_host_name from) (set_si_host_name (si_host_name from)) m in
      let m = if_has (has_si_ugc_map_id from) (set_si_ugc_map_id (si_ugc_map_id from)) m in
      m)"

definition si_MergeFrom :: "CSVCMsg_ServerInfo \<Rightarrow> CSVCMsg_ServerInfo \<Rightarrow> CSVCMsg_ServerInfo" where
  "si_MergeFrom from m =
     (let m = if_has (si_has_bits from AND 0xff \<noteq> 0) (si_merge_0 from) m in
      let m = if_has (si_has_bits from AND 0xff00 \<noteq> 0) (si_merge_1 from) m in
      let m = if_has (si_has_bits from AND 0xff0000 \<noteq> 0) (si_merge_2 from) m in
      m\<lparr>si_unknown_fields := si_unknown_fields m @ si_unknown_fields from\<rparr>)"

definition si_CopyFrom :: "CSVCMsg_ServerInfo \<Rightarrow> CSVCMsg_ServerInfo \<Rightarrow> CSVCMsg_ServerInfo" where
  "si_CopyFrom from m = si_MergeFrom from (si_Clear m)"

definition si_InternalSwap :: "CSVCMsg_ServerInfo \<Rightarrow> CSVCMsg_ServerInfo \<Rightarrow> CSVCMsg_ServerInfo \<times> CSVCMsg_ServerInfo" where
  "si_InternalSwap m other =
     (m\<lparr>si_protocol := si_protocol other, si_server_count := si_server_count other, si_is_dedicated := si_is_dedicated other,
       si_is_official_valve_server := si_is_official_valve_server other, si_is_hltv := si_is_hltv other, si_is_replay := si_is_replay
       other, si_is_redirecting_to_proxy_relay := si_is_redirecting_to_proxy_relay other, si_c_os := si_c_os other, si_map_crc :=
       si_map_crc other, si_client_crc := si_client_crc other, si_string_table_crc := si_string_table_crc other, si_max_clients :=
       si_max_clients other, si_max_classes := si_max_classes other, si_player_slot := si_player_slot other, si_tick_interval :=
       si_tick_interval other, si_game_dir := si_game_dir other, si_map_name := si_map_name other, si_map_group_name := si_map_group_name
       other, si_sky_name := si_sky_name other, si_host_name := si_host_name other, si_ugc_map_id := si_ugc_map_id other, si_has_bits :=
       si_has_bits other, si_unknown_fields := si_unknown_fields other, si_cached_size := si_cached_size other\<rparr>,
      other\<lparr>si_protocol := si_protocol m, si_server_count := si_server_count m, si_is_dedicated := si_is_dedicated m,
        si_is_official_valve_server := si_is_official_valve_server m, si_is_hltv := si_is_hltv m, si_is_replay := si_is_replay m,
        si_is_redirecting_to_proxy_relay := si_is_redirecting_to_proxy_relay m, si_c_os := si_c_os m, si_map_crc := si_map_crc m,
        si_client_crc := si_client_crc m, si_string_table_crc := si_string_table_crc m, si_max_clients := si_max_clients m, si_max_classes
        := si_max_classes m, si_player_slot := si_player_slot m, si_tick_interval := si_tick_interval m, si_game_dir := si_game_dir m,
        si_map_name := si_map_name m, si_map_group_name := si_map_group_name m, si_sky_name := si_sky_name m, si_host_name := si_host_name
        m, si_ugc_map_id := si_ugc_map_id m, si_has_bits := si_has_bits m, si_unknown_fields := si_unknown_fields m, si_cached_size :=
        si_cached_size m\<rparr>)"

subsection \<open>The class as a message class\<close>

lemmas si_set_defs = set_si_protocol_def
  set_si_server_count_def
  set_si_is_dedicated_def
  set_si_is_official_valve_server_def
  set_si_is_hltv_def
  set_si_is_replay_def
  set_si_is_redirecting_to_proxy_relay_def
  set_si_c_os_def
  set_si_map_crc_def
  set_si_client_crc_def
  set_si_string_table_crc_def
  set_si_max_clients_def
  set_si_max_classes_def
  set_si_player_slot_def
  set_si_tick_interval_def
  set_si_game_dir_def
  set_si_map_name_def
  set_si_map_group_name_def
  set_si_sky_name_def
  set_si_host_name_def
  set_si_ugc_map_id_def

lemmas si_has_defs = has_si_protocol_def
  has_si_server_count_def
  has_si_is_dedicated_def
  has_si_is_official_valve_server_def
  has_si_is_hltv_def
  has_si_is_replay_def
  has_si_is_redirecting_to_proxy_relay_def
  has_si_c_os_def
  has_si_map_crc_def
  has_si_client_crc_def
  has_si_string_table_crc_def
  has_si_max_clients_def
  has_si_max_classes_def
  has_si_player_slot_def
  has_si_tick_interval_def
  has_si_game_dir_def
  has_si_map_name_def
  has_si_map_group_name_def
  has_si_sky_name_def
  has_si_host_name_def
  has_si_ugc_map_id_def

lemmas si_clear_defs = clear_si_protocol_def
  clear_si_server_count_def
  clear_si_is_dedicated_def
  clear_si_is_official_valve_server_def
  clear_si_is_hltv_def
  clear_si_is_replay_def
  clear_si_is_redirecting_to_proxy_relay_def
  clear_si_c_os_def
  clear_si_map_crc_def
  clear_si_client_crc_def
  clear_si_string_table_crc_def
  clear_si_max_clients_def
  clear_si_max_classes_def
  clear_si_player_slot_def
  clear_si_tick_interval_def
  clear_si_game_dir_def
  clear_si_map_name_def
  clear_si_map_group_name_def
  clear_si_sky_name_def
  clear_si_host_name_def
  clear_si_ugc_map_id_def

lemmas si_parse_defs = parse_si_protocol_def
  parse_si_server_count_def
  parse_si_is_dedicated_def
  parse_si_is_official_valve_server_def
  parse_si_is_hltv_def
  parse_si_is_replay_def
  parse_si_c_os_def
  parse_si_map_crc_def
  parse_si_client_crc_def
  parse_si_string_table_crc_def
  parse_si_max_clients_def
  parse_si_max_classes_def
  parse_si_player_slot_def
  parse_si_tick_interval_def
  parse_si_game_dir_def
  parse_si_map_name_def
  parse_si_map_group_name_def
  parse_si_sky_name_def
  parse_si_host_name_def
  parse_si_is_redirecting_to_proxy_relay_def
  parse_si_ugc_map_id_def

lemma si_make_tags:
  "MakeTag 1 WIRETYPE_VARINT = 8" "GetTagWireType 8 = WIRETYPE_VARINT"
  "MakeTag 2 WIRETYPE_VARINT = 16" "GetTagWireType 16 = WIRETYPE_VARINT"
  "MakeTag 3 WIRETYPE_VARINT = 24" "GetTagWireType 24 = WIRETYPE_VARINT"
  "MakeTag 4 WIRETYPE_VARINT = 32" "GetTagWireType 32 = WIRETYPE_VARINT"
  "MakeTag 5 WIRETYPE_VARINT = 40" "GetTagWireType 40 = WIRETYPE_VARINT"
  "MakeTag 6 WIRETYPE_VARINT = 48" "GetTagWireType 48 = WIRETYPE_VARINT"
  "MakeTag 7 WIRETYPE_VARINT = 56" "GetTagWireType 56 = WIRETYPE_VARINT"
  "MakeTag 8 WIRETYPE_FIXED32 = 69" "GetTagWireType 69 = WIRETYPE_FIXED32"
  "MakeTag 9 WIRETYPE_FIXED32 = 77" "GetTagWireType 77 = WIRETYPE_FIXED32"
  "MakeTag 10 WIRETYPE_FIXED32 = 85" "GetTagWireType 85 = WIRETYPE_FIXED32"
  "MakeTag 11 WIRETYPE_VARINT = 88" "GetTagWireType 88 = WIRETYPE_VARINT"
  "MakeTag 12 WIRETYPE_VARINT = 96" "GetTagWireType 96 = WIRETYPE_VARINT"
  "MakeTag 13 WIRETYPE_VARINT = 104" "GetTagWireType 104 = WIRETYPE_VARINT"
  "MakeTag 14 WIRETYPE_FIXED32 = 117" "GetTagWireType 117 = WIRETYPE_FIXED32"
  "MakeTag 15 WIRETYPE_LENGTH_DELIMITED = 122" "GetTagWireType 122 = WIRETYPE_LENGTH_DELIMITED"
  "MakeTag 16 WIRETYPE_LENGTH_DELIMITED = 130" "GetTagWireType 130 = WIRETYPE_LENGTH_DELIMITED"
  "MakeTag 17 WIRETYPE_LENGTH_DELIMITED = 138" "GetTagWireType 138 = WIRETYPE_LENGTH_DELIMITED"
  "MakeTag 18 WIRETYPE_LENGTH_DELIMITED = 146" "GetTagWireType 146 = WIRETYPE_LENGTH_DELIMITED"
  "MakeTag 19 WIRETYPE_LENGTH_DELIMITED = 154" "GetTagWireType 154 = WIRETYPE_LENGTH_DELIMITED"
  "MakeTag 21 WIRETYPE_VARINT = 168" "GetTagWireType 168 = WIRETYPE_VARINT"
  "MakeTag 22 WIRETYPE_VARINT = 176" "GetTagWireType 176 = WIRETYPE_VARINT"
  by code_simp+

lemma si_tags_ok: "list_all (\<lambda>(n, t). t \<noteq> 0 \<and> t \<le> 16383 \<and> switch_tag si_tags t = Some n) si_tags"
  by code_simp

definition si_upd :: "nat \<Rightarrow> wire_value \<Rightarrow> CSVCMsg_ServerInfo \<Rightarrow> CSVCMsg_ServerInfo" where
  "si_upd = upd_of [(1, \<lambda>v. set_si_protocol (as_u32 v)),
     (2, \<lambda>v. set_si_server_count (as_u32 v)),
     (3, \<lambda>v. set_si_is_dedicated (as_bool v)),
     (4, \<lambda>v. set_si_is_official_valve_server (as_bool v)),
     (5, \<lambda>v. set_si_is_hltv (as_bool v)),
     (6, \<lambda>v. set_si_is_replay (as_bool v)),
     (7, \<lambda>v. set_si_c_os (as_u32 v)),
     (8, \<lambda>v. set_si_map_crc (as_fix32 v)),
     (9, \<lambda>v. set_si_client_crc (as_fix32 v)),
     (10, \<lambda>v. set_si_string_table_crc (as_fix32 v)),
     (11, \<lambda>v. set_si_max_clients (as_u32 v)),
     (12, \<lambda>v. set_si_max_classes (as_u32 v)),
     (13, \<lambda>v. set_si_player_slot (as_u32 v)),
     (14, \<lambda>v. set_si_tick_interval (as_fix32 v)),
     (15, \<lambda>v. set_si_game_dir (as_bytes v)),
     (16, \<lambda>v. set_si_map_name (as_bytes v)),
     (17, \<lambda>v. set_si_map_group_name (as_bytes v)),
     (18, \<lambda>v. set_si_sky_name (as_bytes v)),
     (19, \<lambda>v. set_si_host_name (as_bytes v)),
     (21, \<lambda>v. set_si_is_redirecting_to_proxy_relay (as_bool v)),
     (22, \<lambda>v. set_si_ugc_map_id (as_u64 v))]"

lemma si_ops_simps [simp]: "mo_cutoff si_ops = 16383" "mo_tags si_ops = si_tags" "mo_unknown si_ops = si_unknown_fields"
  "mo_set_unknown si_ops = (\<lambda>uf m. m\<lparr>si_unknown_fields := uf\<rparr>)" "mo_is_initialized si_ops m"
  by (simp_all add: si_ops_def si_IsInitialized_def)

lemma si_class: "message_class si_ops si_upd"
proof (rule message_class_fields)
  let ?fs = "[(1, 8, parse_si_protocol, \<lambda>v. set_si_protocol (as_u32 v)),
     (2, 16, parse_si_server_count, \<lambda>v. set_si_server_count (as_u32 v)),
     (3, 24, parse_si_is_dedicated, \<lambda>v. set_si_is_dedicated (as_bool v)),
     (4, 32, parse_si_is_official_valve_server, \<lambda>v. set_si_is_official_valve_server (as_bool v)),
     (5, 40, parse_si_is_hltv, \<lambda>v. set_si_is_hltv (as_bool v)),
     (6, 48, parse_si_is_replay, \<lambda>v. set_si_is_replay (as_bool v)),
     (7, 56, parse_si_c_os, \<lambda>v. set_si_c_os (as_u32 v)),
     (8, 69, parse_si_map_crc, \<lambda>v. set_si_map_crc (as_fix32 v)),
     (9, 77, parse_si_client_crc, \<lambda>v. set_si_client_crc (as_fix32 v)),
     (10, 85, parse_si_string_table_crc, \<lambda>v. set_si_string_table_crc (as_fix32 v)),
     (11, 88, parse_si_max_clients, \<lambda>v. set_si_max_clients (as_u32 v)),
     (12, 96, parse_si_max_classes, \<lambda>v. set_si_max_classes (as_u32 v)),
     (13, 104, parse_si_player_slot, \<lambda>v. set_si_player_slot (as_u32 v)),
     (14, 117, parse_si_tick_interval, \<lambda>v. set_si_tick_interval (as_fix32 v)),
     (15, 122, parse_si_game_dir, \<lambda>v. set_si_game_dir (as_bytes v)),
     (16, 130, parse_si_map_name, \<lambda>v. set_si_map_name (as_bytes v)),
     (17, 138, parse_si_map_group_name, \<lambda>v. set_si_map_group_name (as_bytes v)),
     (18, 146, parse_si_sky_name, \<lambda>v. set_si_sky_name (as_bytes v)),
     (19, 154, parse_si_host_name, \<lambda>v. set_si_host_name (as_bytes v)),
     (21, 168, parse_si_is_redirecting_to_proxy_relay, \<lambda>v. set_si_is_redirecting_to_proxy_relay (as_bool v)),
     (22, 176, parse_si_ugc_map_id, \<lambda>v. set_si_ugc_map_id (as_u64 v))]"
  show "mo_tags si_ops = map (\<lambda>(n, t, f, u). (n, t)) ?fs" by (simp add: si_ops_def si_tags_def)
  show "mo_case si_ops = case_of (map (\<lambda>(n, t, f, u). (n, f)) ?fs)" by (simp add: si_ops_def)
  show "si_upd = upd_of (map (\<lambda>(n, t, f, u). (n, u)) ?fs)" by (simp add: si_upd_def)
  show "list_all (\<lambda>(n, t). t \<noteq> 0 \<and> t \<le> mo_cutoff si_ops \<and> switch_tag (mo_tags si_ops) t = Some n) (mo_tags si_ops)"
    using si_tags_ok by (simp add: si_ops_def)
  show "distinct (map fst (mo_tags si_ops))" by (simp add: si_ops_def si_tags_def)
  have "mo_tags si_ops = si_tags" by (simp add: si_ops_def)
  then show "list_all (\<lambda>(n, t, f, u). case_ok (mo_tags si_ops) t f u) ?fs"
    unfolding si_parse_defs list.pred_inject prod.case
    by (intro conjI TrueI case_ok_intros follows_tags follows_end si_make_tags) (simp_all add: si_tags_def)
qed

interpretation si: message_class si_ops si_upd
  by (rule si_class)

subsection \<open>The fields of a message\<close>

text \<open>What a serialized message holds, field by field.\<close>

definition si_items :: "CSVCMsg_ServerInfo \<Rightarrow> item list" where
  "si_items m =
     optional (has_si_protocol m) [Known 1 (WVar (unat (scast (si_protocol m) :: u64)))] @
     optional (has_si_server_count m) [Known 2 (WVar (unat (scast (si_server_count m) :: u64)))] @
     optional (has_si_is_dedicated m) [Known 3 (WVar (if si_is_dedicated m then 1 else 0))] @
     optional (has_si_is_official_valve_server m) [Known 4 (WVar (if si_is_official_valve_server m then 1 else 0))] @
     optional (has_si_is_hltv m) [Known 5 (WVar (if si_is_hltv m then 1 else 0))] @
     optional (has_si_is_replay m) [Known 6 (WVar (if si_is_replay m then 1 else 0))] @
     optional (has_si_c_os m) [Known 7 (WVar (unat (scast (si_c_os m) :: u64)))] @
     optional (has_si_map_crc m) [Known 8 (WFix32 (si_map_crc m))] @
     optional (has_si_client_crc m) [Known 9 (WFix32 (si_client_crc m))] @
     optional (has_si_string_table_crc m) [Known 10 (WFix32 (si_string_table_crc m))] @
     optional (has_si_max_clients m) [Known 11 (WVar (unat (scast (si_max_clients m) :: u64)))] @
     optional (has_si_max_classes m) [Known 12 (WVar (unat (scast (si_max_classes m) :: u64)))] @
     optional (has_si_player_slot m) [Known 13 (WVar (unat (scast (si_player_slot m) :: u64)))] @
     optional (has_si_tick_interval m) [Known 14 (WFix32 (si_tick_interval m))] @
     optional (has_si_game_dir m) [Known 15 (WBytes (si_game_dir m))] @
     optional (has_si_map_name m) [Known 16 (WBytes (si_map_name m))] @
     optional (has_si_map_group_name m) [Known 17 (WBytes (si_map_group_name m))] @
     optional (has_si_sky_name m) [Known 18 (WBytes (si_sky_name m))] @
     optional (has_si_host_name m) [Known 19 (WBytes (si_host_name m))] @
     optional (has_si_is_redirecting_to_proxy_relay m) [Known 21 (WVar (if si_is_redirecting_to_proxy_relay m then 1 else 0))] @
     optional (has_si_ugc_map_id m) [Known 22 (WVar (unat (si_ugc_map_id m)))] @
     map Unknown (si_unknown_fields m)"

definition si_serializable :: "CSVCMsg_ServerInfo \<Rightarrow> bool" where
  "si_serializable m \<longleftrightarrow> length (si_game_dir m) < 2 ^ 31 \<and>
     length (si_map_name m) < 2 ^ 31 \<and>
     length (si_map_group_name m) < 2 ^ 31 \<and>
     length (si_sky_name m) < 2 ^ 31 \<and>
     length (si_host_name m) < 2 ^ 31 \<and>
     list_all (\<lambda>f. field_ok 100 f \<and> switch_tag si_tags (field_tag f) = None) (si_unknown_fields m)"

text \<open>The type invariant: no bits but the has-bits, and a field without its has-bit has its default.\<close>

definition si_wf :: "CSVCMsg_ServerInfo \<Rightarrow> bool" where
  "si_wf m \<longleftrightarrow> si_has_bits m AND 2097151 = si_has_bits m \<and>
     (has_si_protocol m \<or> si_protocol m = 0) \<and>
     (has_si_server_count m \<or> si_server_count m = 0) \<and>
     (has_si_is_dedicated m \<or> si_is_dedicated m = False) \<and>
     (has_si_is_official_valve_server m \<or> si_is_official_valve_server m = False) \<and>
     (has_si_is_hltv m \<or> si_is_hltv m = False) \<and>
     (has_si_is_replay m \<or> si_is_replay m = False) \<and>
     (has_si_is_redirecting_to_proxy_relay m \<or> si_is_redirecting_to_proxy_relay m = False) \<and>
     (has_si_c_os m \<or> si_c_os m = 0) \<and>
     (has_si_map_crc m \<or> si_map_crc m = 0) \<and>
     (has_si_client_crc m \<or> si_client_crc m = 0) \<and>
     (has_si_string_table_crc m \<or> si_string_table_crc m = 0) \<and>
     (has_si_max_clients m \<or> si_max_clients m = 0) \<and>
     (has_si_max_classes m \<or> si_max_classes m = 0) \<and>
     (has_si_player_slot m \<or> si_player_slot m = 0) \<and>
     (has_si_tick_interval m \<or> si_tick_interval m = 0) \<and>
     (has_si_game_dir m \<or> si_game_dir m = []) \<and>
     (has_si_map_name m \<or> si_map_name m = []) \<and>
     (has_si_map_group_name m \<or> si_map_group_name m = []) \<and>
     (has_si_sky_name m \<or> si_sky_name m = []) \<and>
     (has_si_host_name m \<or> si_host_name m = []) \<and>
     (has_si_ugc_map_id m \<or> si_ugc_map_id m = 0)"

lemma si_tag_of: "si.tag_of 1 = 8" "si.tag_of 2 = 16" "si.tag_of 3 = 24" "si.tag_of 4 = 32" "si.tag_of 5 = 40" "si.tag_of 6 = 48"
  "si.tag_of 7 = 56" "si.tag_of 8 = 69" "si.tag_of 9 = 77" "si.tag_of 10 = 85" "si.tag_of 11 = 88" "si.tag_of 12 = 96" "si.tag_of 13 = 104"
  "si.tag_of 14 = 117" "si.tag_of 15 = 122" "si.tag_of 16 = 130" "si.tag_of 17 = 138" "si.tag_of 18 = 146" "si.tag_of 19 = 154" "si.tag_of
  21 = 168" "si.tag_of 22 = 176"
  by (simp_all add: si.tag_of_def si_tags_def)

lemma si_in_tags: "(1, 8) \<in> set si_tags" "(2, 16) \<in> set si_tags" "(3, 24) \<in> set si_tags" "(4, 32) \<in> set si_tags" "(5, 40)
  \<in> set si_tags" "(6, 48) \<in> set si_tags" "(7, 56) \<in> set si_tags" "(8, 69) \<in> set si_tags" "(9, 77) \<in> set si_tags" "(10,
  85) \<in> set si_tags" "(11, 88) \<in> set si_tags" "(12, 96) \<in> set si_tags" "(13, 104) \<in> set si_tags" "(14, 117) \<in> set
  si_tags" "(15, 122) \<in> set si_tags" "(16, 130) \<in> set si_tags" "(17, 138) \<in> set si_tags" "(18, 146) \<in> set si_tags" "(19,
  154) \<in> set si_tags" "(21, 168) \<in> set si_tags" "(22, 176) \<in> set si_tags"
  by (simp_all add: si_tags_def)

lemma si_upd_simps:
  "si_upd 1 v = set_si_protocol (as_u32 v)"
  "si_upd 2 v = set_si_server_count (as_u32 v)"
  "si_upd 3 v = set_si_is_dedicated (as_bool v)"
  "si_upd 4 v = set_si_is_official_valve_server (as_bool v)"
  "si_upd 5 v = set_si_is_hltv (as_bool v)"
  "si_upd 6 v = set_si_is_replay (as_bool v)"
  "si_upd 7 v = set_si_c_os (as_u32 v)"
  "si_upd 8 v = set_si_map_crc (as_fix32 v)"
  "si_upd 9 v = set_si_client_crc (as_fix32 v)"
  "si_upd 10 v = set_si_string_table_crc (as_fix32 v)"
  "si_upd 11 v = set_si_max_clients (as_u32 v)"
  "si_upd 12 v = set_si_max_classes (as_u32 v)"
  "si_upd 13 v = set_si_player_slot (as_u32 v)"
  "si_upd 14 v = set_si_tick_interval (as_fix32 v)"
  "si_upd 15 v = set_si_game_dir (as_bytes v)"
  "si_upd 16 v = set_si_map_name (as_bytes v)"
  "si_upd 17 v = set_si_map_group_name (as_bytes v)"
  "si_upd 18 v = set_si_sky_name (as_bytes v)"
  "si_upd 19 v = set_si_host_name (as_bytes v)"
  "si_upd 21 v = set_si_is_redirecting_to_proxy_relay (as_bool v)"
  "si_upd 22 v = set_si_ugc_map_id (as_u64 v)"
  by (simp_all add: fun_eq_iff si_upd_def upd_of_def del: One_nat_def)

lemma si_unknown_bytes: "concat (map si.item_bytes (map Unknown fs)) = SerializeUnknownFieldsToArray fs"
  by (induction fs) (simp_all add: si.item_bytes_def SerializeUnknownFieldsToArray_def)

lemma si_items_bytes: "concat (map si.item_bytes (si_items m)) = si_Serialize m"
  unfolding si_items_def si_Serialize_def map_append concat_append si_unknown_bytes
  by (simp add: si.item_bytes_def si_tag_of written_fields WFL_WriteTag_bytes si_make_tags del: One_nat_def value_bytes.simps)

lemma si_item_known:
  "si.item_ok (Known 1 v) = value_ok 8 v"
  "si.item_ok (Known 2 v) = value_ok 16 v"
  "si.item_ok (Known 3 v) = value_ok 24 v"
  "si.item_ok (Known 4 v) = value_ok 32 v"
  "si.item_ok (Known 5 v) = value_ok 40 v"
  "si.item_ok (Known 6 v) = value_ok 48 v"
  "si.item_ok (Known 7 v) = value_ok 56 v"
  "si.item_ok (Known 8 v) = value_ok 69 v"
  "si.item_ok (Known 9 v) = value_ok 77 v"
  "si.item_ok (Known 10 v) = value_ok 85 v"
  "si.item_ok (Known 11 v) = value_ok 88 v"
  "si.item_ok (Known 12 v) = value_ok 96 v"
  "si.item_ok (Known 13 v) = value_ok 104 v"
  "si.item_ok (Known 14 v) = value_ok 117 v"
  "si.item_ok (Known 15 v) = value_ok 122 v"
  "si.item_ok (Known 16 v) = value_ok 130 v"
  "si.item_ok (Known 17 v) = value_ok 138 v"
  "si.item_ok (Known 18 v) = value_ok 146 v"
  "si.item_ok (Known 19 v) = value_ok 154 v"
  "si.item_ok (Known 21 v) = value_ok 168 v"
  "si.item_ok (Known 22 v) = value_ok 176 v"
  by (simp_all add: si.item_ok_def si_tag_of si_in_tags del: One_nat_def)

lemma si_unknown_ok: "list_all si.item_ok (map Unknown fs) = list_all (\<lambda>f. field_ok 100 f \<and> switch_tag si_tags (field_tag f) = None) fs"
  by (induction fs) (simp_all add: si.item_ok_def)

lemma si_items_ok: "si_serializable m \<Longrightarrow> list_all si.item_ok (si_items m)"
  unfolding si_items_def si_serializable_def list_all_append si_unknown_ok
  by (simp add: si_item_known si_make_tags del: One_nat_def)

subsection \<open>Merging\<close>

lemma si_set_canon:
  "if_has (has_si_protocol from) (set_si_protocol v) m = m\<lparr>si_has_bits := si_has_bits m OR (si_has_bits from AND 1), si_protocol :=
    pick (has_si_protocol from) v (si_protocol m)\<rparr>"
  "if_has (has_si_server_count from) (set_si_server_count v) m = m\<lparr>si_has_bits := si_has_bits m OR (si_has_bits from AND 2),
    si_server_count := pick (has_si_server_count from) v (si_server_count m)\<rparr>"
  "if_has (has_si_is_dedicated from) (set_si_is_dedicated b) m = m\<lparr>si_has_bits := si_has_bits m OR (si_has_bits from AND 4),
    si_is_dedicated := pick (has_si_is_dedicated from) b (si_is_dedicated m)\<rparr>"
  "if_has (has_si_is_official_valve_server from) (set_si_is_official_valve_server b) m = m\<lparr>si_has_bits := si_has_bits m OR
    (si_has_bits from AND 8), si_is_official_valve_server := pick (has_si_is_official_valve_server from) b (si_is_official_valve_server m)\<rparr>"
  "if_has (has_si_is_hltv from) (set_si_is_hltv b) m = m\<lparr>si_has_bits := si_has_bits m OR (si_has_bits from AND 16), si_is_hltv :=
    pick (has_si_is_hltv from) b (si_is_hltv m)\<rparr>"
  "if_has (has_si_is_replay from) (set_si_is_replay b) m = m\<lparr>si_has_bits := si_has_bits m OR (si_has_bits from AND 32), si_is_replay
    := pick (has_si_is_replay from) b (si_is_replay m)\<rparr>"
  "if_has (has_si_is_redirecting_to_proxy_relay from) (set_si_is_redirecting_to_proxy_relay b) m = m\<lparr>si_has_bits := si_has_bits m OR
    (si_has_bits from AND 64), si_is_redirecting_to_proxy_relay := pick (has_si_is_redirecting_to_proxy_relay from) b
    (si_is_redirecting_to_proxy_relay m)\<rparr>"
  "if_has (has_si_c_os from) (set_si_c_os v) m = m\<lparr>si_has_bits := si_has_bits m OR (si_has_bits from AND 128), si_c_os := pick
    (has_si_c_os from) v (si_c_os m)\<rparr>"
  "if_has (has_si_map_crc from) (set_si_map_crc v) m = m\<lparr>si_has_bits := si_has_bits m OR (si_has_bits from AND 256), si_map_crc :=
    pick (has_si_map_crc from) v (si_map_crc m)\<rparr>"
  "if_has (has_si_client_crc from) (set_si_client_crc v) m = m\<lparr>si_has_bits := si_has_bits m OR (si_has_bits from AND 512),
    si_client_crc := pick (has_si_client_crc from) v (si_client_crc m)\<rparr>"
  "if_has (has_si_string_table_crc from) (set_si_string_table_crc v) m = m\<lparr>si_has_bits := si_has_bits m OR (si_has_bits from AND
    1024), si_string_table_crc := pick (has_si_string_table_crc from) v (si_string_table_crc m)\<rparr>"
  "if_has (has_si_max_clients from) (set_si_max_clients v) m = m\<lparr>si_has_bits := si_has_bits m OR (si_has_bits from AND 2048),
    si_max_clients := pick (has_si_max_clients from) v (si_max_clients m)\<rparr>"
  "if_has (has_si_max_classes from) (set_si_max_classes v) m = m\<lparr>si_has_bits := si_has_bits m OR (si_has_bits from AND 4096),
    si_max_classes := pick (has_si_max_classes from) v (si_max_classes m)\<rparr>"
  "if_has (has_si_player_slot from) (set_si_player_slot v) m = m\<lparr>si_has_bits := si_has_bits m OR (si_has_bits from AND 8192),
    si_player_slot := pick (has_si_player_slot from) v (si_player_slot m)\<rparr>"
  "if_has (has_si_tick_interval from) (set_si_tick_interval v) m = m\<lparr>si_has_bits := si_has_bits m OR (si_has_bits from AND 16384),
    si_tick_interval := pick (has_si_tick_interval from) v (si_tick_interval m)\<rparr>"
  "if_has (has_si_game_dir from) (set_si_game_dir s) m = m\<lparr>si_has_bits := si_has_bits m OR (si_has_bits from AND 32768), si_game_dir
    := pick (has_si_game_dir from) s (si_game_dir m)\<rparr>"
  "if_has (has_si_map_name from) (set_si_map_name s) m = m\<lparr>si_has_bits := si_has_bits m OR (si_has_bits from AND 65536), si_map_name
    := pick (has_si_map_name from) s (si_map_name m)\<rparr>"
  "if_has (has_si_map_group_name from) (set_si_map_group_name s) m = m\<lparr>si_has_bits := si_has_bits m OR (si_has_bits from AND
    131072), si_map_group_name := pick (has_si_map_group_name from) s (si_map_group_name m)\<rparr>"
  "if_has (has_si_sky_name from) (set_si_sky_name s) m = m\<lparr>si_has_bits := si_has_bits m OR (si_has_bits from AND 262144),
    si_sky_name := pick (has_si_sky_name from) s (si_sky_name m)\<rparr>"
  "if_has (has_si_host_name from) (set_si_host_name s) m = m\<lparr>si_has_bits := si_has_bits m OR (si_has_bits from AND 524288),
    si_host_name := pick (has_si_host_name from) s (si_host_name m)\<rparr>"
  "if_has (has_si_ugc_map_id from) (set_si_ugc_map_id l) m = m\<lparr>si_has_bits := si_has_bits m OR (si_has_bits from AND 1048576),
    si_ugc_map_id := pick (has_si_ugc_map_id from) l (si_ugc_map_id m)\<rparr>"
  by (simp_all add: if_has_def pick_def si_has_defs si_set_defs single_bits)

lemma si_merge_0_skip: "si_has_bits from AND 255 = 0 \<Longrightarrow> si_merge_0 from m = m"
  by (simp add: si_merge_0_def si_has_defs has_mask [of "si_has_bits from" 255])

lemma si_merge_0_if: "if_has (si_has_bits from AND 255 \<noteq> 0) (si_merge_0 from) m = si_merge_0 from m"
  using si_merge_0_skip by (simp add: if_has_def)

lemma si_merge_1_skip: "si_has_bits from AND 65280 = 0 \<Longrightarrow> si_merge_1 from m = m"
  by (simp add: si_merge_1_def si_has_defs has_mask [of "si_has_bits from" 65280])

lemma si_merge_1_if: "if_has (si_has_bits from AND 65280 \<noteq> 0) (si_merge_1 from) m = si_merge_1 from m"
  using si_merge_1_skip by (simp add: if_has_def)

lemma si_merge_2_skip: "si_has_bits from AND 16711680 = 0 \<Longrightarrow> si_merge_2 from m = m"
  by (simp add: si_merge_2_def si_has_defs has_mask [of "si_has_bits from" 16711680])

lemma si_merge_2_if: "if_has (si_has_bits from AND 16711680 \<noteq> 0) (si_merge_2 from) m = si_merge_2 from m"
  using si_merge_2_skip by (simp add: if_has_def)

lemma si_MergeFrom_canon:
  "si_MergeFrom from m = m\<lparr>si_has_bits := si_has_bits m OR (si_has_bits from AND 2097151), si_unknown_fields := si_unknown_fields m
    @ si_unknown_fields from,
     si_protocol := pick (has_si_protocol from) (si_protocol from) (si_protocol m), si_server_count := pick (has_si_server_count from)
       (si_server_count from) (si_server_count m), si_is_dedicated := pick (has_si_is_dedicated from) (si_is_dedicated from)
       (si_is_dedicated m), si_is_official_valve_server := pick (has_si_is_official_valve_server from) (si_is_official_valve_server from)
       (si_is_official_valve_server m), si_is_hltv := pick (has_si_is_hltv from) (si_is_hltv from) (si_is_hltv m), si_is_replay := pick
       (has_si_is_replay from) (si_is_replay from) (si_is_replay m), si_is_redirecting_to_proxy_relay := pick
       (has_si_is_redirecting_to_proxy_relay from) (si_is_redirecting_to_proxy_relay from) (si_is_redirecting_to_proxy_relay m), si_c_os :=
       pick (has_si_c_os from) (si_c_os from) (si_c_os m), si_map_crc := pick (has_si_map_crc from) (si_map_crc from) (si_map_crc m),
       si_client_crc := pick (has_si_client_crc from) (si_client_crc from) (si_client_crc m), si_string_table_crc := pick
       (has_si_string_table_crc from) (si_string_table_crc from) (si_string_table_crc m), si_max_clients := pick (has_si_max_clients from)
       (si_max_clients from) (si_max_clients m), si_max_classes := pick (has_si_max_classes from) (si_max_classes from) (si_max_classes m),
       si_player_slot := pick (has_si_player_slot from) (si_player_slot from) (si_player_slot m), si_tick_interval := pick
       (has_si_tick_interval from) (si_tick_interval from) (si_tick_interval m), si_game_dir := pick (has_si_game_dir from) (si_game_dir
       from) (si_game_dir m), si_map_name := pick (has_si_map_name from) (si_map_name from) (si_map_name m), si_map_group_name := pick
       (has_si_map_group_name from) (si_map_group_name from) (si_map_group_name m), si_sky_name := pick (has_si_sky_name from) (si_sky_name
       from) (si_sky_name m), si_host_name := pick (has_si_host_name from) (si_host_name from) (si_host_name m), si_ugc_map_id := pick
       (has_si_ugc_map_id from) (si_ugc_map_id from) (si_ugc_map_id m)\<rparr>"
  unfolding si_MergeFrom_def si_merge_0_if si_merge_1_if si_merge_2_if
  by (simp add: si_merge_0_def si_merge_1_def si_merge_2_def si_set_canon or.assoc has_groups)

lemma si_fold_unknown: "fold si.item_upd (map Unknown fs) m = m\<lparr>si_unknown_fields := si_unknown_fields m @ fs\<rparr>"
  by (induction fs arbitrary: m) (simp_all add: si.item_upd_def)

lemma si_item_upd: "si.item_upd (Known n v) = si_upd n v"
  by (simp add: fun_eq_iff si.item_upd_def)

lemma si_items_fold: "fold si.item_upd (si_items from) m = si_MergeFrom from m"
  unfolding si_items_def fold_append comp_apply si_MergeFrom_canon si_fold_unknown optional_simps
  by (simp add: si_item_upd si_upd_simps si_set_canon or.assoc has_groups del: One_nat_def as_u32.simps as_u64.simps as_bool.simps)

subsection \<open>Clearing, copying, swapping and sizes\<close>

lemma si_wf_has: "si_wf m \<Longrightarrow> si_has_bits m AND 2097151 = si_has_bits m"
  "si_wf m \<Longrightarrow> \<not> has_si_protocol m \<Longrightarrow> si_protocol m = 0"
  "si_wf m \<Longrightarrow> \<not> has_si_server_count m \<Longrightarrow> si_server_count m = 0"
  "si_wf m \<Longrightarrow> \<not> has_si_is_dedicated m \<Longrightarrow> si_is_dedicated m = False"
  "si_wf m \<Longrightarrow> \<not> has_si_is_official_valve_server m \<Longrightarrow> si_is_official_valve_server m = False"
  "si_wf m \<Longrightarrow> \<not> has_si_is_hltv m \<Longrightarrow> si_is_hltv m = False"
  "si_wf m \<Longrightarrow> \<not> has_si_is_replay m \<Longrightarrow> si_is_replay m = False"
  "si_wf m \<Longrightarrow> \<not> has_si_is_redirecting_to_proxy_relay m \<Longrightarrow> si_is_redirecting_to_proxy_relay m = False"
  "si_wf m \<Longrightarrow> \<not> has_si_c_os m \<Longrightarrow> si_c_os m = 0"
  "si_wf m \<Longrightarrow> \<not> has_si_map_crc m \<Longrightarrow> si_map_crc m = 0"
  "si_wf m \<Longrightarrow> \<not> has_si_client_crc m \<Longrightarrow> si_client_crc m = 0"
  "si_wf m \<Longrightarrow> \<not> has_si_string_table_crc m \<Longrightarrow> si_string_table_crc m = 0"
  "si_wf m \<Longrightarrow> \<not> has_si_max_clients m \<Longrightarrow> si_max_clients m = 0"
  "si_wf m \<Longrightarrow> \<not> has_si_max_classes m \<Longrightarrow> si_max_classes m = 0"
  "si_wf m \<Longrightarrow> \<not> has_si_player_slot m \<Longrightarrow> si_player_slot m = 0"
  "si_wf m \<Longrightarrow> \<not> has_si_tick_interval m \<Longrightarrow> si_tick_interval m = 0"
  "si_wf m \<Longrightarrow> \<not> has_si_game_dir m \<Longrightarrow> si_game_dir m = []"
  "si_wf m \<Longrightarrow> \<not> has_si_map_name m \<Longrightarrow> si_map_name m = []"
  "si_wf m \<Longrightarrow> \<not> has_si_map_group_name m \<Longrightarrow> si_map_group_name m = []"
  "si_wf m \<Longrightarrow> \<not> has_si_sky_name m \<Longrightarrow> si_sky_name m = []"
  "si_wf m \<Longrightarrow> \<not> has_si_host_name m \<Longrightarrow> si_host_name m = []"
  "si_wf m \<Longrightarrow> \<not> has_si_ugc_map_id m \<Longrightarrow> si_ugc_map_id m = 0"
  by (simp_all add: si_wf_def)

lemma si_clear_group_0_eq:
  assumes "h = si_has_bits m" and "has_si_protocol m \<or> si_protocol m = 0"
    and "has_si_server_count m \<or> si_server_count m = 0"
    and "has_si_is_dedicated m \<or> si_is_dedicated m = False"
    and "has_si_is_official_valve_server m \<or> si_is_official_valve_server m = False"
    and "has_si_is_hltv m \<or> si_is_hltv m = False"
    and "has_si_is_replay m \<or> si_is_replay m = False"
    and "has_si_is_redirecting_to_proxy_relay m \<or> si_is_redirecting_to_proxy_relay m = False"
    and "has_si_c_os m \<or> si_c_os m = 0"
  shows "if_has (h AND 255 \<noteq> 0) si_clear_group_0 m = m\<lparr>si_protocol := 0, si_server_count := 0, si_is_dedicated := False,
    si_is_official_valve_server := False, si_is_hltv := False, si_is_replay := False, si_is_redirecting_to_proxy_relay := False, si_c_os := 0\<rparr>"
proof (cases "h AND 255 = 0")
  case True
  with assms have "si_protocol m = 0" "si_server_count m = 0" "si_is_dedicated m = False" "si_is_official_valve_server m = False"
    "si_is_hltv m = False" "si_is_replay m = False" "si_is_redirecting_to_proxy_relay m = False" "si_c_os m = 0"
    by (simp_all add: si_has_defs has_mask [OF True [unfolded assms(1)]])
  then show ?thesis using True by (intro CSVCMsg_ServerInfo.equality) simp_all
next
  case False
  have "si_clear_group_0 m = m\<lparr>si_protocol := 0, si_server_count := 0, si_is_dedicated := False, si_is_official_valve_server :=
    False, si_is_hltv := False, si_is_replay := False, si_is_redirecting_to_proxy_relay := False, si_c_os := 0\<rparr>"
    using assms by (intro CSVCMsg_ServerInfo.equality) (auto simp: si_clear_group_0_def if_has_def)
  then show ?thesis using False by simp
qed

lemma si_clear_group_1_eq:
  assumes "h = si_has_bits m" and "has_si_map_crc m \<or> si_map_crc m = 0"
    and "has_si_client_crc m \<or> si_client_crc m = 0"
    and "has_si_string_table_crc m \<or> si_string_table_crc m = 0"
    and "has_si_max_clients m \<or> si_max_clients m = 0"
    and "has_si_max_classes m \<or> si_max_classes m = 0"
    and "has_si_player_slot m \<or> si_player_slot m = 0"
    and "has_si_tick_interval m \<or> si_tick_interval m = 0"
    and "has_si_game_dir m \<or> si_game_dir m = []"
  shows "if_has (h AND 65280 \<noteq> 0) si_clear_group_1 m = m\<lparr>si_map_crc := 0, si_client_crc := 0, si_string_table_crc := 0,
    si_max_clients := 0, si_max_classes := 0, si_player_slot := 0, si_tick_interval := 0, si_game_dir := []\<rparr>"
proof (cases "h AND 65280 = 0")
  case True
  with assms have "si_map_crc m = 0" "si_client_crc m = 0" "si_string_table_crc m = 0" "si_max_clients m = 0" "si_max_classes m = 0"
    "si_player_slot m = 0" "si_tick_interval m = 0" "si_game_dir m = []"
    by (simp_all add: si_has_defs has_mask [OF True [unfolded assms(1)]])
  then show ?thesis using True by (intro CSVCMsg_ServerInfo.equality) simp_all
next
  case False
  have "si_clear_group_1 m = m\<lparr>si_map_crc := 0, si_client_crc := 0, si_string_table_crc := 0, si_max_clients := 0, si_max_classes :=
    0, si_player_slot := 0, si_tick_interval := 0, si_game_dir := []\<rparr>"
    using assms by (intro CSVCMsg_ServerInfo.equality) (auto simp: si_clear_group_1_def if_has_def)
  then show ?thesis using False by simp
qed

lemma si_clear_group_2_eq:
  assumes "h = si_has_bits m" and "has_si_ugc_map_id m \<or> si_ugc_map_id m = 0"
    and "has_si_map_name m \<or> si_map_name m = []"
    and "has_si_map_group_name m \<or> si_map_group_name m = []"
    and "has_si_sky_name m \<or> si_sky_name m = []"
    and "has_si_host_name m \<or> si_host_name m = []"
  shows "if_has (h AND 2031616 \<noteq> 0) si_clear_group_2 m = m\<lparr>si_ugc_map_id := 0, si_map_name := [], si_map_group_name := [],
    si_sky_name := [], si_host_name := []\<rparr>"
proof (cases "h AND 2031616 = 0")
  case True
  with assms have "si_ugc_map_id m = 0" "si_map_name m = []" "si_map_group_name m = []" "si_sky_name m = []" "si_host_name m = []"
    by (simp_all add: si_has_defs has_mask [OF True [unfolded assms(1)]])
  then show ?thesis using True by (intro CSVCMsg_ServerInfo.equality) simp_all
next
  case False
  have "si_clear_group_2 m = m\<lparr>si_ugc_map_id := 0, si_map_name := [], si_map_group_name := [], si_sky_name := [], si_host_name := []\<rparr>"
    using assms by (intro CSVCMsg_ServerInfo.equality) (auto simp: si_clear_group_2_def if_has_def)
  then show ?thesis using False by simp
qed

lemma si_Clear_eq: "si_wf m \<Longrightarrow> si_Clear m = si_SharedCtor\<lparr>si_cached_size := si_cached_size m\<rparr>"
proof -
  assume wf: "si_wf m"
  note d = si_wf_has(2-) [OF wf, unfolded si_has_defs not_not]
  show ?thesis
    unfolding si_Clear_def Let_def by (simp add: si_SharedCtor_def si_has_defs d si_clear_group_0_eq si_clear_group_1_eq si_clear_group_2_eq)
qed

lemma si_wf_SharedCtor: "si_wf si_SharedCtor"
  by (simp add: si_wf_def si_SharedCtor_def)

lemma si_wf_other [simp]: "si_wf (m\<lparr>si_cached_size := n\<rparr>) = si_wf m" "si_wf (m\<lparr>si_unknown_fields := uf\<rparr>) = si_wf m"
  by (simp_all add: si_wf_def si_has_defs)

lemma si_wf_set:
  "si_wf m \<Longrightarrow> si_wf (set_si_protocol v m)"
  "si_wf m \<Longrightarrow> si_wf (set_si_server_count v m)"
  "si_wf m \<Longrightarrow> si_wf (set_si_is_dedicated b m)"
  "si_wf m \<Longrightarrow> si_wf (set_si_is_official_valve_server b m)"
  "si_wf m \<Longrightarrow> si_wf (set_si_is_hltv b m)"
  "si_wf m \<Longrightarrow> si_wf (set_si_is_replay b m)"
  "si_wf m \<Longrightarrow> si_wf (set_si_is_redirecting_to_proxy_relay b m)"
  "si_wf m \<Longrightarrow> si_wf (set_si_c_os v m)"
  "si_wf m \<Longrightarrow> si_wf (set_si_map_crc v m)"
  "si_wf m \<Longrightarrow> si_wf (set_si_client_crc v m)"
  "si_wf m \<Longrightarrow> si_wf (set_si_string_table_crc v m)"
  "si_wf m \<Longrightarrow> si_wf (set_si_max_clients v m)"
  "si_wf m \<Longrightarrow> si_wf (set_si_max_classes v m)"
  "si_wf m \<Longrightarrow> si_wf (set_si_player_slot v m)"
  "si_wf m \<Longrightarrow> si_wf (set_si_tick_interval v m)"
  "si_wf m \<Longrightarrow> si_wf (set_si_game_dir s m)"
  "si_wf m \<Longrightarrow> si_wf (set_si_map_name s m)"
  "si_wf m \<Longrightarrow> si_wf (set_si_map_group_name s m)"
  "si_wf m \<Longrightarrow> si_wf (set_si_sky_name s m)"
  "si_wf m \<Longrightarrow> si_wf (set_si_host_name s m)"
  "si_wf m \<Longrightarrow> si_wf (set_si_ugc_map_id l m)"
  by (simp_all add: si_wf_def si_has_defs si_set_defs has_or)

lemma si_wf_Clear: "si_wf m \<Longrightarrow> si_wf (si_Clear m)"
  by (simp add: si_Clear_eq si_wf_SharedCtor)

lemma si_wf_MergeFrom: "si_wf m \<Longrightarrow> si_wf (si_MergeFrom from m)"
  unfolding si_MergeFrom_def si_merge_0_def si_merge_1_def si_merge_2_def Let_def si_wf_other
  by (intro if_has_I [where I = si_wf] si_wf_set) (simp_all add: si_wf_other)

lemma si_cases_keep: "keeps si_wf (mo_case si_ops n)"
  unfolding si_ops_def message_ops.simps si_parse_defs
  by (rule keeps_case_of) (simp add: keeps_fields si_wf_set)

lemma si_parse_wf: "si_wf m \<Longrightarrow> ParseFromArray rtc si_ops si_Clear m mem data n = Some (b, m') \<Longrightarrow> si_wf m'"
  by (rule ParseFromArray_keeps [where I = si_wf, OF si_cases_keep]) (simp_all add: si_wf_Clear)

lemma si_MergeFrom_Clear: "si_wf from \<Longrightarrow> si_wf m \<Longrightarrow> si_MergeFrom from (si_Clear m) =
  from\<lparr>si_cached_size := si_cached_size m\<rparr>"
  unfolding si_MergeFrom_canon by (simp add: si_Clear_eq si_SharedCtor_def si_wf_def pick_default)

lemma si_CopyFrom_eq: "si_wf from \<Longrightarrow> si_wf m \<Longrightarrow> si_CopyFrom from m = from\<lparr>si_cached_size :=
  si_cached_size m\<rparr>"
  by (simp add: si_CopyFrom_def si_MergeFrom_Clear)

lemma si_InternalSwap_eq: "si_InternalSwap m other = (other, m)"
  by (simp add: si_InternalSwap_def)

lemma si_Clear_fields: "si_wf m \<Longrightarrow> si_Clear m = clear_si_ugc_map_id (clear_si_is_redirecting_to_proxy_relay
  (clear_si_host_name (clear_si_sky_name (clear_si_map_group_name (clear_si_map_name (clear_si_game_dir (clear_si_tick_interval
  (clear_si_player_slot (clear_si_max_classes (clear_si_max_clients (clear_si_string_table_crc (clear_si_client_crc (clear_si_map_crc
  (clear_si_c_os (clear_si_is_replay (clear_si_is_hltv (clear_si_is_official_valve_server (clear_si_is_dedicated (clear_si_server_count
  (clear_si_protocol (m\<lparr>si_unknown_fields := []\<rparr>)))))))))))))))))))))"
proof -
  assume wf: "si_wf m"
  then have "si_has_bits m AND NOT 2097151 = 0" using and_not_mask_zero [OF si_wf_has(1)] by blast
  then show ?thesis using wf by (simp add: si_Clear_eq si_SharedCtor_def si_clear_defs and.assoc)
qed

lemma si_size_group_0:
  "optional_size (si_has_bits m AND 255 \<noteq> 0)
     (optional_size (has_si_protocol m) (1 + Int32Size (si_protocol m)) +
      optional_size (has_si_server_count m) (1 + Int32Size (si_server_count m)) +
      optional_size (has_si_is_dedicated m) (1 + 1) +
      optional_size (has_si_is_official_valve_server m) (1 + 1) +
      optional_size (has_si_is_hltv m) (1 + 1) +
      optional_size (has_si_is_replay m) (1 + 1) +
      optional_size (has_si_is_redirecting_to_proxy_relay m) (2 + 1) +
      optional_size (has_si_c_os m) (1 + Int32Size (si_c_os m))) =
     optional_size (has_si_protocol m) (1 + Int32Size (si_protocol m)) +
     optional_size (has_si_server_count m) (1 + Int32Size (si_server_count m)) +
     optional_size (has_si_is_dedicated m) (1 + 1) +
     optional_size (has_si_is_official_valve_server m) (1 + 1) +
     optional_size (has_si_is_hltv m) (1 + 1) +
     optional_size (has_si_is_replay m) (1 + 1) +
     optional_size (has_si_is_redirecting_to_proxy_relay m) (2 + 1) +
     optional_size (has_si_c_os m) (1 + Int32Size (si_c_os m))"
  by (cases "si_has_bits m AND 255 = 0") (simp_all add: si_has_defs has_mask [of "si_has_bits m" 255])

lemma si_size_group_1:
  "optional_size (si_has_bits m AND 65280 \<noteq> 0)
     (optional_size (has_si_map_crc m) (1 + 4) +
      optional_size (has_si_client_crc m) (1 + 4) +
      optional_size (has_si_string_table_crc m) (1 + 4) +
      optional_size (has_si_max_clients m) (1 + Int32Size (si_max_clients m)) +
      optional_size (has_si_max_classes m) (1 + Int32Size (si_max_classes m)) +
      optional_size (has_si_player_slot m) (1 + Int32Size (si_player_slot m)) +
      optional_size (has_si_tick_interval m) (1 + 4) +
      optional_size (has_si_game_dir m) (1 + StringSize (si_game_dir m))) =
     optional_size (has_si_map_crc m) (1 + 4) +
     optional_size (has_si_client_crc m) (1 + 4) +
     optional_size (has_si_string_table_crc m) (1 + 4) +
     optional_size (has_si_max_clients m) (1 + Int32Size (si_max_clients m)) +
     optional_size (has_si_max_classes m) (1 + Int32Size (si_max_classes m)) +
     optional_size (has_si_player_slot m) (1 + Int32Size (si_player_slot m)) +
     optional_size (has_si_tick_interval m) (1 + 4) +
     optional_size (has_si_game_dir m) (1 + StringSize (si_game_dir m))"
  by (cases "si_has_bits m AND 65280 = 0") (simp_all add: si_has_defs has_mask [of "si_has_bits m" 65280])

lemma si_size_group_2:
  "optional_size (si_has_bits m AND 2031616 \<noteq> 0)
     (optional_size (has_si_map_name m) (2 + StringSize (si_map_name m)) +
      optional_size (has_si_map_group_name m) (2 + StringSize (si_map_group_name m)) +
      optional_size (has_si_sky_name m) (2 + StringSize (si_sky_name m)) +
      optional_size (has_si_host_name m) (2 + StringSize (si_host_name m)) +
      optional_size (has_si_ugc_map_id m) (2 + UInt64Size (si_ugc_map_id m))) =
     optional_size (has_si_map_name m) (2 + StringSize (si_map_name m)) +
     optional_size (has_si_map_group_name m) (2 + StringSize (si_map_group_name m)) +
     optional_size (has_si_sky_name m) (2 + StringSize (si_sky_name m)) +
     optional_size (has_si_host_name m) (2 + StringSize (si_host_name m)) +
     optional_size (has_si_ugc_map_id m) (2 + UInt64Size (si_ugc_map_id m))"
  by (cases "si_has_bits m AND 2031616 = 0") (simp_all add: si_has_defs has_mask [of "si_has_bits m" 2031616])

lemma si_tag_sizes:
  "int (length (WFL_WriteTagToArray 1 WIRETYPE_VARINT)) = 1"
  "int (length (WFL_WriteTagToArray 2 WIRETYPE_VARINT)) = 1"
  "int (length (WFL_WriteTagToArray 3 WIRETYPE_VARINT)) = 1"
  "int (length (WFL_WriteTagToArray 4 WIRETYPE_VARINT)) = 1"
  "int (length (WFL_WriteTagToArray 5 WIRETYPE_VARINT)) = 1"
  "int (length (WFL_WriteTagToArray 6 WIRETYPE_VARINT)) = 1"
  "int (length (WFL_WriteTagToArray 7 WIRETYPE_VARINT)) = 1"
  "int (length (WFL_WriteTagToArray 8 WIRETYPE_FIXED32)) = 1"
  "int (length (WFL_WriteTagToArray 9 WIRETYPE_FIXED32)) = 1"
  "int (length (WFL_WriteTagToArray 10 WIRETYPE_FIXED32)) = 1"
  "int (length (WFL_WriteTagToArray 11 WIRETYPE_VARINT)) = 1"
  "int (length (WFL_WriteTagToArray 12 WIRETYPE_VARINT)) = 1"
  "int (length (WFL_WriteTagToArray 13 WIRETYPE_VARINT)) = 1"
  "int (length (WFL_WriteTagToArray 14 WIRETYPE_FIXED32)) = 1"
  "int (length (WFL_WriteTagToArray 15 WIRETYPE_LENGTH_DELIMITED)) = 1"
  "int (length (WFL_WriteTagToArray 16 WIRETYPE_LENGTH_DELIMITED)) = 2"
  "int (length (WFL_WriteTagToArray 17 WIRETYPE_LENGTH_DELIMITED)) = 2"
  "int (length (WFL_WriteTagToArray 18 WIRETYPE_LENGTH_DELIMITED)) = 2"
  "int (length (WFL_WriteTagToArray 19 WIRETYPE_LENGTH_DELIMITED)) = 2"
  "int (length (WFL_WriteTagToArray 21 WIRETYPE_VARINT)) = 2"
  "int (length (WFL_WriteTagToArray 22 WIRETYPE_VARINT)) = 2"
  by (simp_all add: tag_length)

lemma si_ByteSize_eq:
  "si_ByteSize m = (i32 (int (length (si_Serialize m))), m\<lparr>si_cached_size := i32 (int (length (si_Serialize m)))\<rparr>)"
proof -
  have "fst (si_ByteSize m) = i32 (int (length (si_Serialize m)))"
    unfolding si_ByteSize_def si_Serialize_def Let_def fst_conv serialized_size i32_add(2) length_append of_nat_add optional_simps si_size_group_0
      si_size_group_1 si_size_group_2
    by (simp only: written_sizes written_strings_size si_tag_sizes ac_simps)
  then show ?thesis by (simp add: si_ByteSize_def Let_def)
qed

subsection \<open>Parsing a serialized message\<close>

lemma si_parse:
  assumes "cutoff_reader rtc" and "si_serializable from" and "length (si_Serialize from) < 2 ^ 26"
  shows "ParseFromArray rtc si_ops si_Clear m (pre @ si_Serialize from @ post) (int (length pre)) (int (length (si_Serialize from))) =
    Some (True, si_MergeFrom from (si_Clear m))"
  using si.ParseFromArray_items [OF assms(1) _ si_items_ok [OF assms(2)], of _ pre post _ si_Clear m] assms(3)
  by (simp add: si_items_bytes si_items_fold kDefaultTotalBytesLimit_def)

lemma si_parse_two:
  assumes "cutoff_reader rtc" and "si_serializable m1" and "si_serializable m2" and "length (si_Serialize m1 @ si_Serialize m2) < 2 ^ 26"
  shows "ParseFromArray rtc si_ops si_Clear m (si_Serialize m1 @ si_Serialize m2) 0 (int (length (si_Serialize m1 @ si_Serialize m2))) =
    Some (True, si_MergeFrom m2 (si_MergeFrom m1 (si_Clear m)))"
  using si.ParseFromArray_items [OF assms(1), of "si_items m1 @ si_items m2" _ "[]" "[]" _ si_Clear m] si_items_ok [OF assms(2)]
    si_items_ok [OF assms(3)] assms(4)
  by (simp add: si_items_bytes si_items_fold kDefaultTotalBytesLimit_def)

end
