(* ===== verification/SvcPacketEntities.thy ===== *)
theory SvcPacketEntities
  imports SvcServerInfo
begin

text \<open>
  The message class \<open>CSVCMsg_PacketEntities\<close>: integers, flags and the encoded entity data.
\<close>

subsection \<open>The class\<close>

record CSVCMsg_PacketEntities =
  pe_has_bits :: u32
  pe_unknown_fields :: "unknown_field list"
  pe_cached_size :: int
  pe_max_entries :: u32
  pe_updated_entries :: u32
  pe_is_delta :: bool
  pe_update_baseline :: bool
  pe_baseline :: u32
  pe_entity_data :: "u8 list"
  pe_delta_from :: u32

definition has_pe_max_entries :: "CSVCMsg_PacketEntities \<Rightarrow> bool" where
  "has_pe_max_entries m \<longleftrightarrow> pe_has_bits m AND 0x00000001 \<noteq> 0"
definition set_pe_max_entries :: "u32 \<Rightarrow> CSVCMsg_PacketEntities \<Rightarrow> CSVCMsg_PacketEntities" where
  "set_pe_max_entries v m = m\<lparr>pe_has_bits := pe_has_bits m OR 0x00000001, pe_max_entries := v\<rparr>"
definition clear_pe_max_entries :: "CSVCMsg_PacketEntities \<Rightarrow> CSVCMsg_PacketEntities" where
  "clear_pe_max_entries m = m\<lparr>pe_max_entries := 0, pe_has_bits := pe_has_bits m AND NOT 0x00000001\<rparr>"

definition has_pe_updated_entries :: "CSVCMsg_PacketEntities \<Rightarrow> bool" where
  "has_pe_updated_entries m \<longleftrightarrow> pe_has_bits m AND 0x00000002 \<noteq> 0"
definition set_pe_updated_entries :: "u32 \<Rightarrow> CSVCMsg_PacketEntities \<Rightarrow> CSVCMsg_PacketEntities" where
  "set_pe_updated_entries v m = m\<lparr>pe_has_bits := pe_has_bits m OR 0x00000002, pe_updated_entries := v\<rparr>"
definition clear_pe_updated_entries :: "CSVCMsg_PacketEntities \<Rightarrow> CSVCMsg_PacketEntities" where
  "clear_pe_updated_entries m = m\<lparr>pe_updated_entries := 0, pe_has_bits := pe_has_bits m AND NOT 0x00000002\<rparr>"

definition has_pe_is_delta :: "CSVCMsg_PacketEntities \<Rightarrow> bool" where
  "has_pe_is_delta m \<longleftrightarrow> pe_has_bits m AND 0x00000004 \<noteq> 0"
definition set_pe_is_delta :: "bool \<Rightarrow> CSVCMsg_PacketEntities \<Rightarrow> CSVCMsg_PacketEntities" where
  "set_pe_is_delta v m = m\<lparr>pe_has_bits := pe_has_bits m OR 0x00000004, pe_is_delta := v\<rparr>"
definition clear_pe_is_delta :: "CSVCMsg_PacketEntities \<Rightarrow> CSVCMsg_PacketEntities" where
  "clear_pe_is_delta m = m\<lparr>pe_is_delta := False, pe_has_bits := pe_has_bits m AND NOT 0x00000004\<rparr>"

definition has_pe_update_baseline :: "CSVCMsg_PacketEntities \<Rightarrow> bool" where
  "has_pe_update_baseline m \<longleftrightarrow> pe_has_bits m AND 0x00000008 \<noteq> 0"
definition set_pe_update_baseline :: "bool \<Rightarrow> CSVCMsg_PacketEntities \<Rightarrow> CSVCMsg_PacketEntities" where
  "set_pe_update_baseline v m = m\<lparr>pe_has_bits := pe_has_bits m OR 0x00000008, pe_update_baseline := v\<rparr>"
definition clear_pe_update_baseline :: "CSVCMsg_PacketEntities \<Rightarrow> CSVCMsg_PacketEntities" where
  "clear_pe_update_baseline m = m\<lparr>pe_update_baseline := False, pe_has_bits := pe_has_bits m AND NOT 0x00000008\<rparr>"

definition has_pe_baseline :: "CSVCMsg_PacketEntities \<Rightarrow> bool" where
  "has_pe_baseline m \<longleftrightarrow> pe_has_bits m AND 0x00000010 \<noteq> 0"
definition set_pe_baseline :: "u32 \<Rightarrow> CSVCMsg_PacketEntities \<Rightarrow> CSVCMsg_PacketEntities" where
  "set_pe_baseline v m = m\<lparr>pe_has_bits := pe_has_bits m OR 0x00000010, pe_baseline := v\<rparr>"
definition clear_pe_baseline :: "CSVCMsg_PacketEntities \<Rightarrow> CSVCMsg_PacketEntities" where
  "clear_pe_baseline m = m\<lparr>pe_baseline := 0, pe_has_bits := pe_has_bits m AND NOT 0x00000010\<rparr>"

definition has_pe_delta_from :: "CSVCMsg_PacketEntities \<Rightarrow> bool" where
  "has_pe_delta_from m \<longleftrightarrow> pe_has_bits m AND 0x00000020 \<noteq> 0"
definition set_pe_delta_from :: "u32 \<Rightarrow> CSVCMsg_PacketEntities \<Rightarrow> CSVCMsg_PacketEntities" where
  "set_pe_delta_from v m = m\<lparr>pe_has_bits := pe_has_bits m OR 0x00000020, pe_delta_from := v\<rparr>"
definition clear_pe_delta_from :: "CSVCMsg_PacketEntities \<Rightarrow> CSVCMsg_PacketEntities" where
  "clear_pe_delta_from m = m\<lparr>pe_delta_from := 0, pe_has_bits := pe_has_bits m AND NOT 0x00000020\<rparr>"

definition has_pe_entity_data :: "CSVCMsg_PacketEntities \<Rightarrow> bool" where
  "has_pe_entity_data m \<longleftrightarrow> pe_has_bits m AND 0x00000040 \<noteq> 0"
definition set_pe_entity_data :: "u8 list \<Rightarrow> CSVCMsg_PacketEntities \<Rightarrow> CSVCMsg_PacketEntities" where
  "set_pe_entity_data v m = m\<lparr>pe_has_bits := pe_has_bits m OR 0x00000040, pe_entity_data := v\<rparr>"
definition clear_pe_entity_data :: "CSVCMsg_PacketEntities \<Rightarrow> CSVCMsg_PacketEntities" where
  "clear_pe_entity_data m = m\<lparr>pe_entity_data := [], pe_has_bits := pe_has_bits m AND NOT 0x00000040\<rparr>"

definition pe_SharedCtor :: CSVCMsg_PacketEntities where
  "pe_SharedCtor = \<lparr>pe_has_bits = 0, pe_unknown_fields = [], pe_cached_size = 0,
     pe_max_entries = 0, pe_updated_entries = 0, pe_is_delta = False, pe_update_baseline = False, pe_baseline = 0, pe_entity_data = [],
       pe_delta_from = 0\<rparr>"

definition pe_clear_group_0 :: "CSVCMsg_PacketEntities \<Rightarrow> CSVCMsg_PacketEntities" where
  "pe_clear_group_0 m = if_has (has_pe_entity_data m) (\<lambda>m. m\<lparr>pe_entity_data := []\<rparr>) (m\<lparr>pe_max_entries := 0,
    pe_updated_entries := 0, pe_is_delta := False, pe_update_baseline := False, pe_baseline := 0, pe_delta_from := 0\<rparr>)"

definition pe_Clear :: "CSVCMsg_PacketEntities \<Rightarrow> CSVCMsg_PacketEntities" where
  "pe_Clear m =
     (let m = if_has (pe_has_bits m AND 127 \<noteq> 0) pe_clear_group_0 m in
      m\<lparr>pe_has_bits := 0, pe_unknown_fields := []\<rparr>)"

subsection \<open>Parsing\<close>

definition parse_pe_max_entries :: "CSVCMsg_PacketEntities \<Rightarrow> CodedInputStream \<Rightarrow> (parse_next \<times>
  CSVCMsg_PacketEntities \<times> CodedInputStream) option" where
  "parse_pe_max_entries = read_field ReadPrimitive_INT32 set_pe_max_entries (expect_tags [(16, 2)])"

definition parse_pe_updated_entries :: "CSVCMsg_PacketEntities \<Rightarrow> CodedInputStream \<Rightarrow> (parse_next \<times>
  CSVCMsg_PacketEntities \<times> CodedInputStream) option" where
  "parse_pe_updated_entries = read_field ReadPrimitive_INT32 set_pe_updated_entries (expect_tags [(24, 3)])"

definition parse_pe_is_delta :: "CSVCMsg_PacketEntities \<Rightarrow> CodedInputStream \<Rightarrow> (parse_next \<times>
  CSVCMsg_PacketEntities \<times> CodedInputStream) option" where
  "parse_pe_is_delta = read_field ReadPrimitive_BOOL set_pe_is_delta (expect_tags [(32, 4)])"

definition parse_pe_update_baseline :: "CSVCMsg_PacketEntities \<Rightarrow> CodedInputStream \<Rightarrow> (parse_next \<times>
  CSVCMsg_PacketEntities \<times> CodedInputStream) option" where
  "parse_pe_update_baseline = read_field ReadPrimitive_BOOL set_pe_update_baseline (expect_tags [(40, 5)])"

definition parse_pe_baseline :: "CSVCMsg_PacketEntities \<Rightarrow> CodedInputStream \<Rightarrow> (parse_next \<times>
  CSVCMsg_PacketEntities \<times> CodedInputStream) option" where
  "parse_pe_baseline = read_field ReadPrimitive_INT32 set_pe_baseline (expect_tags [(48, 6)])"

definition parse_pe_delta_from :: "CSVCMsg_PacketEntities \<Rightarrow> CodedInputStream \<Rightarrow> (parse_next \<times>
  CSVCMsg_PacketEntities \<times> CodedInputStream) option" where
  "parse_pe_delta_from = read_field ReadPrimitive_INT32 set_pe_delta_from (expect_tags [(58, 7)])"

definition parse_pe_entity_data :: "CSVCMsg_PacketEntities \<Rightarrow> CodedInputStream \<Rightarrow> (parse_next \<times>
  CSVCMsg_PacketEntities \<times> CodedInputStream) option" where
  "parse_pe_entity_data = read_string_field WFL_ReadBytes pe_entity_data set_pe_entity_data expect_end"

definition pe_IsInitialized :: "CSVCMsg_PacketEntities \<Rightarrow> bool" where
  "pe_IsInitialized m = True"

definition pe_tags :: "(nat \<times> u32) list" where
  "pe_tags = [(1, 8), (2, 16), (3, 24), (4, 32), (5, 40), (6, 48), (7, 58)]"

definition pe_ops :: "CSVCMsg_PacketEntities message_ops" where
  "pe_ops = \<lparr>mo_cutoff = 127, mo_tags = pe_tags,
     mo_case = case_of [(1, parse_pe_max_entries), (2, parse_pe_updated_entries), (3, parse_pe_is_delta), (4, parse_pe_update_baseline),
       (5, parse_pe_baseline), (6, parse_pe_delta_from), (7, parse_pe_entity_data)],
     mo_unknown = pe_unknown_fields, mo_set_unknown = (\<lambda>uf m. m\<lparr>pe_unknown_fields := uf\<rparr>), mo_is_initialized =
       pe_IsInitialized\<rparr>"

subsection \<open>Serializing, merging, swapping\<close>

definition pe_Serialize :: "CSVCMsg_PacketEntities \<Rightarrow> u8 list" where
  "pe_Serialize m =
     optional (has_pe_max_entries m) (WriteInt32ToArray 1 (pe_max_entries m)) @
     optional (has_pe_updated_entries m) (WriteInt32ToArray 2 (pe_updated_entries m)) @
     optional (has_pe_is_delta m) (WriteBoolToArray 3 (pe_is_delta m)) @
     optional (has_pe_update_baseline m) (WriteBoolToArray 4 (pe_update_baseline m)) @
     optional (has_pe_baseline m) (WriteInt32ToArray 5 (pe_baseline m)) @
     optional (has_pe_delta_from m) (WriteInt32ToArray 6 (pe_delta_from m)) @
     optional (has_pe_entity_data m) (WFL_WriteBytesToArray 7 (pe_entity_data m)) @
     SerializeUnknownFieldsToArray (pe_unknown_fields m)"

definition pe_ByteSize :: "CSVCMsg_PacketEntities \<Rightarrow> int \<times> CSVCMsg_PacketEntities" where
  "pe_ByteSize m =
     (let total_size = i32 (
        optional_size (pe_has_bits m AND 127 \<noteq> 0)
          (optional_size (has_pe_max_entries m) (1 + Int32Size (pe_max_entries m)) +
           optional_size (has_pe_updated_entries m) (1 + Int32Size (pe_updated_entries m)) +
           optional_size (has_pe_is_delta m) (1 + 1) +
           optional_size (has_pe_update_baseline m) (1 + 1) +
           optional_size (has_pe_baseline m) (1 + Int32Size (pe_baseline m)) +
           optional_size (has_pe_delta_from m) (1 + Int32Size (pe_delta_from m)) +
           optional_size (has_pe_entity_data m) (1 + BytesSize (pe_entity_data m))) +
        ComputeUnknownFieldsSize (pe_unknown_fields m))
      in (total_size, m\<lparr>pe_cached_size := total_size\<rparr>))"

definition pe_merge_0 :: "CSVCMsg_PacketEntities \<Rightarrow> CSVCMsg_PacketEntities \<Rightarrow> CSVCMsg_PacketEntities" where
  "pe_merge_0 from m =
     (let m = if_has (has_pe_max_entries from) (set_pe_max_entries (pe_max_entries from)) m in
      let m = if_has (has_pe_updated_entries from) (set_pe_updated_entries (pe_updated_entries from)) m in
      let m = if_has (has_pe_is_delta from) (set_pe_is_delta (pe_is_delta from)) m in
      let m = if_has (has_pe_update_baseline from) (set_pe_update_baseline (pe_update_baseline from)) m in
      let m = if_has (has_pe_baseline from) (set_pe_baseline (pe_baseline from)) m in
      let m = if_has (has_pe_delta_from from) (set_pe_delta_from (pe_delta_from from)) m in
      let m = if_has (has_pe_entity_data from) (set_pe_entity_data (pe_entity_data from)) m in
      m)"

definition pe_MergeFrom :: "CSVCMsg_PacketEntities \<Rightarrow> CSVCMsg_PacketEntities \<Rightarrow> CSVCMsg_PacketEntities" where
  "pe_MergeFrom from m =
     (let m = if_has (pe_has_bits from AND 0xff \<noteq> 0) (pe_merge_0 from) m in
      m\<lparr>pe_unknown_fields := pe_unknown_fields m @ pe_unknown_fields from\<rparr>)"

definition pe_CopyFrom :: "CSVCMsg_PacketEntities \<Rightarrow> CSVCMsg_PacketEntities \<Rightarrow> CSVCMsg_PacketEntities" where
  "pe_CopyFrom from m = pe_MergeFrom from (pe_Clear m)"

definition pe_InternalSwap :: "CSVCMsg_PacketEntities \<Rightarrow> CSVCMsg_PacketEntities \<Rightarrow> CSVCMsg_PacketEntities \<times>
  CSVCMsg_PacketEntities" where
  "pe_InternalSwap m other =
     (m\<lparr>pe_max_entries := pe_max_entries other, pe_updated_entries := pe_updated_entries other, pe_is_delta := pe_is_delta other,
       pe_update_baseline := pe_update_baseline other, pe_baseline := pe_baseline other, pe_delta_from := pe_delta_from other,
       pe_entity_data := pe_entity_data other, pe_has_bits := pe_has_bits other, pe_unknown_fields := pe_unknown_fields other,
       pe_cached_size := pe_cached_size other\<rparr>,
      other\<lparr>pe_max_entries := pe_max_entries m, pe_updated_entries := pe_updated_entries m, pe_is_delta := pe_is_delta m,
        pe_update_baseline := pe_update_baseline m, pe_baseline := pe_baseline m, pe_delta_from := pe_delta_from m, pe_entity_data :=
        pe_entity_data m, pe_has_bits := pe_has_bits m, pe_unknown_fields := pe_unknown_fields m, pe_cached_size := pe_cached_size m\<rparr>)"

subsection \<open>The class as a message class\<close>

lemmas pe_set_defs = set_pe_max_entries_def
  set_pe_updated_entries_def
  set_pe_is_delta_def
  set_pe_update_baseline_def
  set_pe_baseline_def
  set_pe_delta_from_def
  set_pe_entity_data_def

lemmas pe_has_defs = has_pe_max_entries_def
  has_pe_updated_entries_def
  has_pe_is_delta_def
  has_pe_update_baseline_def
  has_pe_baseline_def
  has_pe_delta_from_def
  has_pe_entity_data_def

lemmas pe_clear_defs = clear_pe_max_entries_def
  clear_pe_updated_entries_def
  clear_pe_is_delta_def
  clear_pe_update_baseline_def
  clear_pe_baseline_def
  clear_pe_delta_from_def
  clear_pe_entity_data_def

lemmas pe_parse_defs = parse_pe_max_entries_def
  parse_pe_updated_entries_def
  parse_pe_is_delta_def
  parse_pe_update_baseline_def
  parse_pe_baseline_def
  parse_pe_delta_from_def
  parse_pe_entity_data_def

lemma pe_make_tags:
  "MakeTag 1 WIRETYPE_VARINT = 8" "GetTagWireType 8 = WIRETYPE_VARINT"
  "MakeTag 2 WIRETYPE_VARINT = 16" "GetTagWireType 16 = WIRETYPE_VARINT"
  "MakeTag 3 WIRETYPE_VARINT = 24" "GetTagWireType 24 = WIRETYPE_VARINT"
  "MakeTag 4 WIRETYPE_VARINT = 32" "GetTagWireType 32 = WIRETYPE_VARINT"
  "MakeTag 5 WIRETYPE_VARINT = 40" "GetTagWireType 40 = WIRETYPE_VARINT"
  "MakeTag 6 WIRETYPE_VARINT = 48" "GetTagWireType 48 = WIRETYPE_VARINT"
  "MakeTag 7 WIRETYPE_LENGTH_DELIMITED = 58" "GetTagWireType 58 = WIRETYPE_LENGTH_DELIMITED"
  by code_simp+

lemma pe_tags_ok: "list_all (\<lambda>(n, t). t \<noteq> 0 \<and> t \<le> 127 \<and> switch_tag pe_tags t = Some n) pe_tags"
  by code_simp

definition pe_upd :: "nat \<Rightarrow> wire_value \<Rightarrow> CSVCMsg_PacketEntities \<Rightarrow> CSVCMsg_PacketEntities" where
  "pe_upd = upd_of [(1, \<lambda>v. set_pe_max_entries (as_u32 v)),
     (2, \<lambda>v. set_pe_updated_entries (as_u32 v)),
     (3, \<lambda>v. set_pe_is_delta (as_bool v)),
     (4, \<lambda>v. set_pe_update_baseline (as_bool v)),
     (5, \<lambda>v. set_pe_baseline (as_u32 v)),
     (6, \<lambda>v. set_pe_delta_from (as_u32 v)),
     (7, \<lambda>v. set_pe_entity_data (as_bytes v))]"

lemma pe_ops_simps [simp]: "mo_cutoff pe_ops = 127" "mo_tags pe_ops = pe_tags" "mo_unknown pe_ops = pe_unknown_fields"
  "mo_set_unknown pe_ops = (\<lambda>uf m. m\<lparr>pe_unknown_fields := uf\<rparr>)" "mo_is_initialized pe_ops m"
  by (simp_all add: pe_ops_def pe_IsInitialized_def)

lemma pe_class: "message_class pe_ops pe_upd"
proof (rule message_class_fields)
  let ?fs = "[(1, 8, parse_pe_max_entries, \<lambda>v. set_pe_max_entries (as_u32 v)),
     (2, 16, parse_pe_updated_entries, \<lambda>v. set_pe_updated_entries (as_u32 v)),
     (3, 24, parse_pe_is_delta, \<lambda>v. set_pe_is_delta (as_bool v)),
     (4, 32, parse_pe_update_baseline, \<lambda>v. set_pe_update_baseline (as_bool v)),
     (5, 40, parse_pe_baseline, \<lambda>v. set_pe_baseline (as_u32 v)),
     (6, 48, parse_pe_delta_from, \<lambda>v. set_pe_delta_from (as_u32 v)),
     (7, 58, parse_pe_entity_data, \<lambda>v. set_pe_entity_data (as_bytes v))]"
  show "mo_tags pe_ops = map (\<lambda>(n, t, f, u). (n, t)) ?fs" by (simp add: pe_ops_def pe_tags_def)
  show "mo_case pe_ops = case_of (map (\<lambda>(n, t, f, u). (n, f)) ?fs)" by (simp add: pe_ops_def)
  show "pe_upd = upd_of (map (\<lambda>(n, t, f, u). (n, u)) ?fs)" by (simp add: pe_upd_def)
  show "list_all (\<lambda>(n, t). t \<noteq> 0 \<and> t \<le> mo_cutoff pe_ops \<and> switch_tag (mo_tags pe_ops) t = Some n) (mo_tags pe_ops)"
    using pe_tags_ok by (simp add: pe_ops_def)
  show "distinct (map fst (mo_tags pe_ops))" by (simp add: pe_ops_def pe_tags_def)
  have "mo_tags pe_ops = pe_tags" by (simp add: pe_ops_def)
  then show "list_all (\<lambda>(n, t, f, u). case_ok (mo_tags pe_ops) t f u) ?fs"
    unfolding pe_parse_defs list.pred_inject prod.case
    by (intro conjI TrueI case_ok_intros follows_tags follows_end pe_make_tags) (simp_all add: pe_tags_def)
qed

interpretation pe: message_class pe_ops pe_upd
  by (rule pe_class)

subsection \<open>The fields of a message\<close>

text \<open>What a serialized message holds, field by field.\<close>

definition pe_items :: "CSVCMsg_PacketEntities \<Rightarrow> item list" where
  "pe_items m =
     optional (has_pe_max_entries m) [Known 1 (WVar (unat (scast (pe_max_entries m) :: u64)))] @
     optional (has_pe_updated_entries m) [Known 2 (WVar (unat (scast (pe_updated_entries m) :: u64)))] @
     optional (has_pe_is_delta m) [Known 3 (WVar (if pe_is_delta m then 1 else 0))] @
     optional (has_pe_update_baseline m) [Known 4 (WVar (if pe_update_baseline m then 1 else 0))] @
     optional (has_pe_baseline m) [Known 5 (WVar (unat (scast (pe_baseline m) :: u64)))] @
     optional (has_pe_delta_from m) [Known 6 (WVar (unat (scast (pe_delta_from m) :: u64)))] @
     optional (has_pe_entity_data m) [Known 7 (WBytes (pe_entity_data m))] @
     map Unknown (pe_unknown_fields m)"

definition pe_serializable :: "CSVCMsg_PacketEntities \<Rightarrow> bool" where
  "pe_serializable m \<longleftrightarrow> length (pe_entity_data m) < 2 ^ 31 \<and>
     list_all (\<lambda>f. field_ok 100 f \<and> switch_tag pe_tags (field_tag f) = None) (pe_unknown_fields m)"

text \<open>The type invariant: no bits but the has-bits, and a field without its has-bit has its default.\<close>

definition pe_wf :: "CSVCMsg_PacketEntities \<Rightarrow> bool" where
  "pe_wf m \<longleftrightarrow> pe_has_bits m AND 127 = pe_has_bits m \<and>
     (has_pe_max_entries m \<or> pe_max_entries m = 0) \<and>
     (has_pe_updated_entries m \<or> pe_updated_entries m = 0) \<and>
     (has_pe_is_delta m \<or> pe_is_delta m = False) \<and>
     (has_pe_update_baseline m \<or> pe_update_baseline m = False) \<and>
     (has_pe_baseline m \<or> pe_baseline m = 0) \<and>
     (has_pe_delta_from m \<or> pe_delta_from m = 0) \<and>
     (has_pe_entity_data m \<or> pe_entity_data m = [])"

lemma pe_tag_of: "pe.tag_of 1 = 8" "pe.tag_of 2 = 16" "pe.tag_of 3 = 24" "pe.tag_of 4 = 32" "pe.tag_of 5 = 40" "pe.tag_of 6 = 48" "pe.tag_of 7 = 58"
  by (simp_all add: pe.tag_of_def pe_tags_def)

lemma pe_in_tags: "(1, 8) \<in> set pe_tags" "(2, 16) \<in> set pe_tags" "(3, 24) \<in> set pe_tags" "(4, 32) \<in> set pe_tags" "(5, 40)
  \<in> set pe_tags" "(6, 48) \<in> set pe_tags" "(7, 58) \<in> set pe_tags"
  by (simp_all add: pe_tags_def)

lemma pe_upd_simps:
  "pe_upd 1 v = set_pe_max_entries (as_u32 v)"
  "pe_upd 2 v = set_pe_updated_entries (as_u32 v)"
  "pe_upd 3 v = set_pe_is_delta (as_bool v)"
  "pe_upd 4 v = set_pe_update_baseline (as_bool v)"
  "pe_upd 5 v = set_pe_baseline (as_u32 v)"
  "pe_upd 6 v = set_pe_delta_from (as_u32 v)"
  "pe_upd 7 v = set_pe_entity_data (as_bytes v)"
  by (simp_all add: fun_eq_iff pe_upd_def upd_of_def del: One_nat_def)

lemma pe_unknown_bytes: "concat (map pe.item_bytes (map Unknown fs)) = SerializeUnknownFieldsToArray fs"
  by (induction fs) (simp_all add: pe.item_bytes_def SerializeUnknownFieldsToArray_def)

lemma pe_items_bytes: "concat (map pe.item_bytes (pe_items m)) = pe_Serialize m"
  unfolding pe_items_def pe_Serialize_def map_append concat_append pe_unknown_bytes
  by (simp add: pe.item_bytes_def pe_tag_of written_fields WFL_WriteTag_bytes pe_make_tags del: One_nat_def value_bytes.simps)

lemma pe_item_known:
  "pe.item_ok (Known 1 v) = value_ok 8 v"
  "pe.item_ok (Known 2 v) = value_ok 16 v"
  "pe.item_ok (Known 3 v) = value_ok 24 v"
  "pe.item_ok (Known 4 v) = value_ok 32 v"
  "pe.item_ok (Known 5 v) = value_ok 40 v"
  "pe.item_ok (Known 6 v) = value_ok 48 v"
  "pe.item_ok (Known 7 v) = value_ok 58 v"
  by (simp_all add: pe.item_ok_def pe_tag_of pe_in_tags del: One_nat_def)

lemma pe_unknown_ok: "list_all pe.item_ok (map Unknown fs) = list_all (\<lambda>f. field_ok 100 f \<and> switch_tag pe_tags (field_tag f) = None) fs"
  by (induction fs) (simp_all add: pe.item_ok_def)

lemma pe_items_ok: "pe_serializable m \<Longrightarrow> list_all pe.item_ok (pe_items m)"
  unfolding pe_items_def pe_serializable_def list_all_append pe_unknown_ok
  by (simp add: pe_item_known pe_make_tags del: One_nat_def)

subsection \<open>Merging\<close>

lemma pe_set_canon:
  "if_has (has_pe_max_entries from) (set_pe_max_entries v) m = m\<lparr>pe_has_bits := pe_has_bits m OR (pe_has_bits from AND 1),
    pe_max_entries := pick (has_pe_max_entries from) v (pe_max_entries m)\<rparr>"
  "if_has (has_pe_updated_entries from) (set_pe_updated_entries v) m = m\<lparr>pe_has_bits := pe_has_bits m OR (pe_has_bits from AND 2),
    pe_updated_entries := pick (has_pe_updated_entries from) v (pe_updated_entries m)\<rparr>"
  "if_has (has_pe_is_delta from) (set_pe_is_delta b) m = m\<lparr>pe_has_bits := pe_has_bits m OR (pe_has_bits from AND 4), pe_is_delta :=
    pick (has_pe_is_delta from) b (pe_is_delta m)\<rparr>"
  "if_has (has_pe_update_baseline from) (set_pe_update_baseline b) m = m\<lparr>pe_has_bits := pe_has_bits m OR (pe_has_bits from AND 8),
    pe_update_baseline := pick (has_pe_update_baseline from) b (pe_update_baseline m)\<rparr>"
  "if_has (has_pe_baseline from) (set_pe_baseline v) m = m\<lparr>pe_has_bits := pe_has_bits m OR (pe_has_bits from AND 16), pe_baseline :=
    pick (has_pe_baseline from) v (pe_baseline m)\<rparr>"
  "if_has (has_pe_delta_from from) (set_pe_delta_from v) m = m\<lparr>pe_has_bits := pe_has_bits m OR (pe_has_bits from AND 32),
    pe_delta_from := pick (has_pe_delta_from from) v (pe_delta_from m)\<rparr>"
  "if_has (has_pe_entity_data from) (set_pe_entity_data s) m = m\<lparr>pe_has_bits := pe_has_bits m OR (pe_has_bits from AND 64),
    pe_entity_data := pick (has_pe_entity_data from) s (pe_entity_data m)\<rparr>"
  by (simp_all add: if_has_def pick_def pe_has_defs pe_set_defs single_bits)

lemma pe_merge_0_skip: "pe_has_bits from AND 255 = 0 \<Longrightarrow> pe_merge_0 from m = m"
  by (simp add: pe_merge_0_def pe_has_defs has_mask [of "pe_has_bits from" 255])

lemma pe_merge_0_if: "if_has (pe_has_bits from AND 255 \<noteq> 0) (pe_merge_0 from) m = pe_merge_0 from m"
  using pe_merge_0_skip by (simp add: if_has_def)

lemma pe_MergeFrom_canon:
  "pe_MergeFrom from m = m\<lparr>pe_has_bits := pe_has_bits m OR (pe_has_bits from AND 127), pe_unknown_fields := pe_unknown_fields m @
    pe_unknown_fields from,
     pe_max_entries := pick (has_pe_max_entries from) (pe_max_entries from) (pe_max_entries m), pe_updated_entries := pick
       (has_pe_updated_entries from) (pe_updated_entries from) (pe_updated_entries m), pe_is_delta := pick (has_pe_is_delta from)
       (pe_is_delta from) (pe_is_delta m), pe_update_baseline := pick (has_pe_update_baseline from) (pe_update_baseline from)
       (pe_update_baseline m), pe_baseline := pick (has_pe_baseline from) (pe_baseline from) (pe_baseline m), pe_entity_data := pick
       (has_pe_entity_data from) (pe_entity_data from) (pe_entity_data m), pe_delta_from := pick (has_pe_delta_from from) (pe_delta_from
       from) (pe_delta_from m)\<rparr>"
  unfolding pe_MergeFrom_def pe_merge_0_if
  by (simp add: pe_merge_0_def pe_set_canon or.assoc has_groups)

lemma pe_fold_unknown: "fold pe.item_upd (map Unknown fs) m = m\<lparr>pe_unknown_fields := pe_unknown_fields m @ fs\<rparr>"
  by (induction fs arbitrary: m) (simp_all add: pe.item_upd_def)

lemma pe_item_upd: "pe.item_upd (Known n v) = pe_upd n v"
  by (simp add: fun_eq_iff pe.item_upd_def)

lemma pe_items_fold: "fold pe.item_upd (pe_items from) m = pe_MergeFrom from m"
  unfolding pe_items_def fold_append comp_apply pe_MergeFrom_canon pe_fold_unknown optional_simps
  by (simp add: pe_item_upd pe_upd_simps pe_set_canon or.assoc has_groups del: One_nat_def as_u32.simps as_u64.simps as_bool.simps)

subsection \<open>Clearing, copying, swapping and sizes\<close>

lemma pe_wf_has: "pe_wf m \<Longrightarrow> pe_has_bits m AND 127 = pe_has_bits m"
  "pe_wf m \<Longrightarrow> \<not> has_pe_max_entries m \<Longrightarrow> pe_max_entries m = 0"
  "pe_wf m \<Longrightarrow> \<not> has_pe_updated_entries m \<Longrightarrow> pe_updated_entries m = 0"
  "pe_wf m \<Longrightarrow> \<not> has_pe_is_delta m \<Longrightarrow> pe_is_delta m = False"
  "pe_wf m \<Longrightarrow> \<not> has_pe_update_baseline m \<Longrightarrow> pe_update_baseline m = False"
  "pe_wf m \<Longrightarrow> \<not> has_pe_baseline m \<Longrightarrow> pe_baseline m = 0"
  "pe_wf m \<Longrightarrow> \<not> has_pe_delta_from m \<Longrightarrow> pe_delta_from m = 0"
  "pe_wf m \<Longrightarrow> \<not> has_pe_entity_data m \<Longrightarrow> pe_entity_data m = []"
  by (simp_all add: pe_wf_def)

lemma pe_clear_group_0_eq:
  assumes "h = pe_has_bits m" and "has_pe_max_entries m \<or> pe_max_entries m = 0"
    and "has_pe_updated_entries m \<or> pe_updated_entries m = 0"
    and "has_pe_is_delta m \<or> pe_is_delta m = False"
    and "has_pe_update_baseline m \<or> pe_update_baseline m = False"
    and "has_pe_baseline m \<or> pe_baseline m = 0"
    and "has_pe_delta_from m \<or> pe_delta_from m = 0"
    and "has_pe_entity_data m \<or> pe_entity_data m = []"
  shows "if_has (h AND 127 \<noteq> 0) pe_clear_group_0 m = m\<lparr>pe_max_entries := 0, pe_updated_entries := 0, pe_is_delta := False,
    pe_update_baseline := False, pe_baseline := 0, pe_delta_from := 0, pe_entity_data := []\<rparr>"
proof (cases "h AND 127 = 0")
  case True
  with assms have "pe_max_entries m = 0" "pe_updated_entries m = 0" "pe_is_delta m = False" "pe_update_baseline m = False" "pe_baseline m =
    0" "pe_delta_from m = 0" "pe_entity_data m = []"
    by (simp_all add: pe_has_defs has_mask [OF True [unfolded assms(1)]])
  then show ?thesis using True by (intro CSVCMsg_PacketEntities.equality) simp_all
next
  case False
  have "pe_clear_group_0 m = m\<lparr>pe_max_entries := 0, pe_updated_entries := 0, pe_is_delta := False, pe_update_baseline := False,
    pe_baseline := 0, pe_delta_from := 0, pe_entity_data := []\<rparr>"
    using assms by (intro CSVCMsg_PacketEntities.equality) (auto simp: pe_clear_group_0_def if_has_def)
  then show ?thesis using False by simp
qed

lemma pe_Clear_eq: "pe_wf m \<Longrightarrow> pe_Clear m = pe_SharedCtor\<lparr>pe_cached_size := pe_cached_size m\<rparr>"
proof -
  assume wf: "pe_wf m"
  note d = pe_wf_has(2-) [OF wf, unfolded pe_has_defs not_not]
  show ?thesis
    unfolding pe_Clear_def Let_def by (simp add: pe_SharedCtor_def pe_has_defs d pe_clear_group_0_eq)
qed

lemma pe_wf_SharedCtor: "pe_wf pe_SharedCtor"
  by (simp add: pe_wf_def pe_SharedCtor_def)

lemma pe_wf_other [simp]: "pe_wf (m\<lparr>pe_cached_size := n\<rparr>) = pe_wf m" "pe_wf (m\<lparr>pe_unknown_fields := uf\<rparr>) = pe_wf m"
  by (simp_all add: pe_wf_def pe_has_defs)

lemma pe_wf_set:
  "pe_wf m \<Longrightarrow> pe_wf (set_pe_max_entries v m)"
  "pe_wf m \<Longrightarrow> pe_wf (set_pe_updated_entries v m)"
  "pe_wf m \<Longrightarrow> pe_wf (set_pe_is_delta b m)"
  "pe_wf m \<Longrightarrow> pe_wf (set_pe_update_baseline b m)"
  "pe_wf m \<Longrightarrow> pe_wf (set_pe_baseline v m)"
  "pe_wf m \<Longrightarrow> pe_wf (set_pe_delta_from v m)"
  "pe_wf m \<Longrightarrow> pe_wf (set_pe_entity_data s m)"
  by (simp_all add: pe_wf_def pe_has_defs pe_set_defs has_or)

lemma pe_wf_Clear: "pe_wf m \<Longrightarrow> pe_wf (pe_Clear m)"
  by (simp add: pe_Clear_eq pe_wf_SharedCtor)

lemma pe_wf_MergeFrom: "pe_wf m \<Longrightarrow> pe_wf (pe_MergeFrom from m)"
  unfolding pe_MergeFrom_def pe_merge_0_def Let_def pe_wf_other
  by (intro if_has_I [where I = pe_wf] pe_wf_set) (simp_all add: pe_wf_other)

lemma pe_cases_keep: "keeps pe_wf (mo_case pe_ops n)"
  unfolding pe_ops_def message_ops.simps pe_parse_defs
  by (rule keeps_case_of) (simp add: keeps_fields pe_wf_set)

lemma pe_parse_wf: "pe_wf m \<Longrightarrow> ParseFromArray rtc pe_ops pe_Clear m mem data n = Some (b, m') \<Longrightarrow> pe_wf m'"
  by (rule ParseFromArray_keeps [where I = pe_wf, OF pe_cases_keep]) (simp_all add: pe_wf_Clear)

lemma pe_MergeFrom_Clear: "pe_wf from \<Longrightarrow> pe_wf m \<Longrightarrow> pe_MergeFrom from (pe_Clear m) =
  from\<lparr>pe_cached_size := pe_cached_size m\<rparr>"
  unfolding pe_MergeFrom_canon by (simp add: pe_Clear_eq pe_SharedCtor_def pe_wf_def pick_default)

lemma pe_CopyFrom_eq: "pe_wf from \<Longrightarrow> pe_wf m \<Longrightarrow> pe_CopyFrom from m = from\<lparr>pe_cached_size :=
  pe_cached_size m\<rparr>"
  by (simp add: pe_CopyFrom_def pe_MergeFrom_Clear)

lemma pe_InternalSwap_eq: "pe_InternalSwap m other = (other, m)"
  by (simp add: pe_InternalSwap_def)

lemma pe_Clear_fields: "pe_wf m \<Longrightarrow> pe_Clear m = clear_pe_entity_data (clear_pe_delta_from (clear_pe_baseline
  (clear_pe_update_baseline (clear_pe_is_delta (clear_pe_updated_entries (clear_pe_max_entries (m\<lparr>pe_unknown_fields := []\<rparr>)))))))"
proof -
  assume wf: "pe_wf m"
  then have "pe_has_bits m AND NOT 127 = 0" using and_not_mask_zero [OF pe_wf_has(1)] by blast
  then show ?thesis using wf by (simp add: pe_Clear_eq pe_SharedCtor_def pe_clear_defs and.assoc)
qed

lemma pe_size_group_0:
  "optional_size (pe_has_bits m AND 127 \<noteq> 0)
     (optional_size (has_pe_max_entries m) (1 + Int32Size (pe_max_entries m)) +
      optional_size (has_pe_updated_entries m) (1 + Int32Size (pe_updated_entries m)) +
      optional_size (has_pe_is_delta m) (1 + 1) +
      optional_size (has_pe_update_baseline m) (1 + 1) +
      optional_size (has_pe_baseline m) (1 + Int32Size (pe_baseline m)) +
      optional_size (has_pe_delta_from m) (1 + Int32Size (pe_delta_from m)) +
      optional_size (has_pe_entity_data m) (1 + BytesSize (pe_entity_data m))) =
     optional_size (has_pe_max_entries m) (1 + Int32Size (pe_max_entries m)) +
     optional_size (has_pe_updated_entries m) (1 + Int32Size (pe_updated_entries m)) +
     optional_size (has_pe_is_delta m) (1 + 1) +
     optional_size (has_pe_update_baseline m) (1 + 1) +
     optional_size (has_pe_baseline m) (1 + Int32Size (pe_baseline m)) +
     optional_size (has_pe_delta_from m) (1 + Int32Size (pe_delta_from m)) +
     optional_size (has_pe_entity_data m) (1 + BytesSize (pe_entity_data m))"
  by (cases "pe_has_bits m AND 127 = 0") (simp_all add: pe_has_defs has_mask [of "pe_has_bits m" 127])

lemma pe_tag_sizes:
  "int (length (WFL_WriteTagToArray 1 WIRETYPE_VARINT)) = 1"
  "int (length (WFL_WriteTagToArray 2 WIRETYPE_VARINT)) = 1"
  "int (length (WFL_WriteTagToArray 3 WIRETYPE_VARINT)) = 1"
  "int (length (WFL_WriteTagToArray 4 WIRETYPE_VARINT)) = 1"
  "int (length (WFL_WriteTagToArray 5 WIRETYPE_VARINT)) = 1"
  "int (length (WFL_WriteTagToArray 6 WIRETYPE_VARINT)) = 1"
  "int (length (WFL_WriteTagToArray 7 WIRETYPE_LENGTH_DELIMITED)) = 1"
  by (simp_all add: tag_length)

lemma pe_ByteSize_eq:
  "pe_ByteSize m = (i32 (int (length (pe_Serialize m))), m\<lparr>pe_cached_size := i32 (int (length (pe_Serialize m)))\<rparr>)"
proof -
  have "fst (pe_ByteSize m) = i32 (int (length (pe_Serialize m)))"
    unfolding pe_ByteSize_def pe_Serialize_def Let_def fst_conv serialized_size i32_add(2) length_append of_nat_add optional_simps pe_size_group_0
    by (simp only: written_sizes written_strings_size pe_tag_sizes ac_simps)
  then show ?thesis by (simp add: pe_ByteSize_def Let_def)
qed

subsection \<open>Parsing a serialized message\<close>

lemma pe_parse:
  assumes "cutoff_reader rtc" and "pe_serializable from" and "length (pe_Serialize from) < 2 ^ 26"
  shows "ParseFromArray rtc pe_ops pe_Clear m (pre @ pe_Serialize from @ post) (int (length pre)) (int (length (pe_Serialize from))) =
    Some (True, pe_MergeFrom from (pe_Clear m))"
  using pe.ParseFromArray_items [OF assms(1) _ pe_items_ok [OF assms(2)], of _ pre post _ pe_Clear m] assms(3)
  by (simp add: pe_items_bytes pe_items_fold kDefaultTotalBytesLimit_def)

lemma pe_parse_two:
  assumes "cutoff_reader rtc" and "pe_serializable m1" and "pe_serializable m2" and "length (pe_Serialize m1 @ pe_Serialize m2) < 2 ^ 26"
  shows "ParseFromArray rtc pe_ops pe_Clear m (pe_Serialize m1 @ pe_Serialize m2) 0 (int (length (pe_Serialize m1 @ pe_Serialize m2))) =
    Some (True, pe_MergeFrom m2 (pe_MergeFrom m1 (pe_Clear m)))"
  using pe.ParseFromArray_items [OF assms(1), of "pe_items m1 @ pe_items m2" _ "[]" "[]" _ pe_Clear m] pe_items_ok [OF assms(2)]
    pe_items_ok [OF assms(3)] assms(4)
  by (simp add: pe_items_bytes pe_items_fold kDefaultTotalBytesLimit_def)

end
