(* ===== verification/NetMessages.thy ===== *)
theory NetMessages
  imports SvcPacketEntities
begin

text \<open>
  The four message classes the sniffer knows, side by side. \<open>netmsg\<close> is an object of one of
  them; the functions here only select the method of its class. The properties say what the
  generated code and the runtime library promise together: sizes, round trips, merging,
  independence of the order of the fields, and safety on arbitrary bytes.
\<close>

subsection \<open>Objects and their methods\<close>

datatype message = CNETMsg_Tick | CNETMsg_SignonState | CSVCMsg_ServerInfo | CSVCMsg_PacketEntities

datatype netmsg =
    M_Tick CNETMsg_Tick
  | M_SignonState CNETMsg_SignonState
  | M_ServerInfo CSVCMsg_ServerInfo
  | M_PacketEntities CSVCMsg_PacketEntities

fun class_of :: "netmsg \<Rightarrow> message" where
  "class_of (M_Tick m) = CNETMsg_Tick"
| "class_of (M_SignonState m) = CNETMsg_SignonState"
| "class_of (M_ServerInfo m) = CSVCMsg_ServerInfo"
| "class_of (M_PacketEntities m) = CSVCMsg_PacketEntities"

fun new_message :: "message \<Rightarrow> netmsg" where
  "new_message CNETMsg_Tick = M_Tick nt_SharedCtor"
| "new_message CNETMsg_SignonState = M_SignonState ns_SharedCtor"
| "new_message CSVCMsg_ServerInfo = M_ServerInfo si_SharedCtor"
| "new_message CSVCMsg_PacketEntities = M_PacketEntities pe_SharedCtor"

fun ParseFrom :: "tag_reader \<Rightarrow> netmsg \<Rightarrow> u8 list \<Rightarrow> int \<Rightarrow> int \<Rightarrow> (bool \<times> netmsg) option" where
  "ParseFrom rtc (M_Tick m) mem data n = map_option (map_prod id M_Tick) (ParseFromArray rtc nt_ops nt_Clear m mem data n)"
| "ParseFrom rtc (M_SignonState m) mem data n = map_option (map_prod id M_SignonState) (ParseFromArray rtc ns_ops ns_Clear m mem data n)"
| "ParseFrom rtc (M_ServerInfo m) mem data n = map_option (map_prod id M_ServerInfo) (ParseFromArray rtc si_ops si_Clear m mem data n)"
| "ParseFrom rtc (M_PacketEntities m) mem data n = map_option (map_prod id M_PacketEntities) (ParseFromArray rtc pe_ops pe_Clear m mem data n)"

fun Serialize :: "netmsg \<Rightarrow> u8 list" where
  "Serialize (M_Tick m) = nt_Serialize m"
| "Serialize (M_SignonState m) = ns_Serialize m"
| "Serialize (M_ServerInfo m) = si_Serialize m"
| "Serialize (M_PacketEntities m) = pe_Serialize m"

fun ByteSize :: "netmsg \<Rightarrow> int \<times> netmsg" where
  "ByteSize (M_Tick m) = map_prod id M_Tick (nt_ByteSize m)"
| "ByteSize (M_SignonState m) = map_prod id M_SignonState (ns_ByteSize m)"
| "ByteSize (M_ServerInfo m) = map_prod id M_ServerInfo (si_ByteSize m)"
| "ByteSize (M_PacketEntities m) = map_prod id M_PacketEntities (pe_ByteSize m)"

fun Clear :: "netmsg \<Rightarrow> netmsg" where
  "Clear (M_Tick m) = M_Tick (nt_Clear m)"
| "Clear (M_SignonState m) = M_SignonState (ns_Clear m)"
| "Clear (M_ServerInfo m) = M_ServerInfo (si_Clear m)"
| "Clear (M_PacketEntities m) = M_PacketEntities (pe_Clear m)"

text \<open>Both arguments are objects of one class: the overloads take a reference to it.\<close>

fun MergeFrom :: "netmsg \<Rightarrow> netmsg \<Rightarrow> netmsg option" where
  "MergeFrom (M_Tick from) (M_Tick m) = Some (M_Tick (nt_MergeFrom from m))"
| "MergeFrom (M_SignonState from) (M_SignonState m) = Some (M_SignonState (ns_MergeFrom from m))"
| "MergeFrom (M_ServerInfo from) (M_ServerInfo m) = Some (M_ServerInfo (si_MergeFrom from m))"
| "MergeFrom (M_PacketEntities from) (M_PacketEntities m) = Some (M_PacketEntities (pe_MergeFrom from m))"
| "MergeFrom _ _ = None"

fun CopyFrom :: "netmsg \<Rightarrow> netmsg \<Rightarrow> netmsg option" where
  "CopyFrom (M_Tick from) (M_Tick m) = Some (M_Tick (nt_CopyFrom from m))"
| "CopyFrom (M_SignonState from) (M_SignonState m) = Some (M_SignonState (ns_CopyFrom from m))"
| "CopyFrom (M_ServerInfo from) (M_ServerInfo m) = Some (M_ServerInfo (si_CopyFrom from m))"
| "CopyFrom (M_PacketEntities from) (M_PacketEntities m) = Some (M_PacketEntities (pe_CopyFrom from m))"
| "CopyFrom _ _ = None"

fun Swap :: "netmsg \<Rightarrow> netmsg \<Rightarrow> (netmsg \<times> netmsg) option" where
  "Swap (M_Tick m) (M_Tick other) = Some (map_prod M_Tick M_Tick (nt_InternalSwap m other))"
| "Swap (M_SignonState m) (M_SignonState other) = Some (map_prod M_SignonState M_SignonState (ns_InternalSwap m other))"
| "Swap (M_ServerInfo m) (M_ServerInfo other) = Some (map_prod M_ServerInfo M_ServerInfo (si_InternalSwap m other))"
| "Swap (M_PacketEntities m) (M_PacketEntities other) = Some (map_prod M_PacketEntities M_PacketEntities (pe_InternalSwap m other))"
| "Swap _ _ = None"

subsection \<open>Invariants and the abstract content of a buffer\<close>

fun wf_msg :: "netmsg \<Rightarrow> bool" where
  "wf_msg (M_Tick m) = nt_wf m"
| "wf_msg (M_SignonState m) = ns_wf m"
| "wf_msg (M_ServerInfo m) = si_wf m"
| "wf_msg (M_PacketEntities m) = pe_wf m"

fun serializable :: "netmsg \<Rightarrow> bool" where
  "serializable (M_Tick m) = nt_serializable m"
| "serializable (M_SignonState m) = ns_serializable m"
| "serializable (M_ServerInfo m) = si_serializable m"
| "serializable (M_PacketEntities m) = pe_serializable m"

fun cached_size :: "netmsg \<Rightarrow> int" where
  "cached_size (M_Tick m) = nt_cached_size m"
| "cached_size (M_SignonState m) = ns_cached_size m"
| "cached_size (M_ServerInfo m) = si_cached_size m"
| "cached_size (M_PacketEntities m) = pe_cached_size m"

fun with_cached_size :: "int \<Rightarrow> netmsg \<Rightarrow> netmsg" where
  "with_cached_size n (M_Tick m) = M_Tick (m\<lparr>nt_cached_size := n\<rparr>)"
| "with_cached_size n (M_SignonState m) = M_SignonState (m\<lparr>ns_cached_size := n\<rparr>)"
| "with_cached_size n (M_ServerInfo m) = M_ServerInfo (m\<lparr>si_cached_size := n\<rparr>)"
| "with_cached_size n (M_PacketEntities m) = M_PacketEntities (m\<lparr>pe_cached_size := n\<rparr>)"

text \<open>
  The reference semantics of a buffer: a list of items, each a field of the class with a value
  or an unknown field, applied from left to right.
\<close>

fun items_ok :: "message \<Rightarrow> item list \<Rightarrow> bool" where
  "items_ok CNETMsg_Tick is = list_all nt.item_ok is"
| "items_ok CNETMsg_SignonState is = list_all ns.item_ok is"
| "items_ok CSVCMsg_ServerInfo is = list_all si.item_ok is"
| "items_ok CSVCMsg_PacketEntities is = list_all pe.item_ok is"

fun items_bytes :: "message \<Rightarrow> item list \<Rightarrow> u8 list" where
  "items_bytes CNETMsg_Tick is = concat (map nt.item_bytes is)"
| "items_bytes CNETMsg_SignonState is = concat (map ns.item_bytes is)"
| "items_bytes CSVCMsg_ServerInfo is = concat (map si.item_bytes is)"
| "items_bytes CSVCMsg_PacketEntities is = concat (map pe.item_bytes is)"

fun apply_items :: "item list \<Rightarrow> netmsg \<Rightarrow> netmsg" where
  "apply_items is (M_Tick m) = M_Tick (fold nt.item_upd is m)"
| "apply_items is (M_SignonState m) = M_SignonState (fold ns.item_upd is m)"
| "apply_items is (M_ServerInfo m) = M_ServerInfo (fold si.item_upd is m)"
| "apply_items is (M_PacketEntities m) = M_PacketEntities (fold pe.item_upd is m)"

lemma same_class_cases:
  assumes "class_of a = class_of b"
  obtains (tick) m n where "a = M_Tick m" "b = M_Tick n" | (signon) m n where "a = M_SignonState m" "b = M_SignonState n"
    | (info) m n where "a = M_ServerInfo m" "b = M_ServerInfo n" | (entities) m n where "a = M_PacketEntities m" "b = M_PacketEntities n"
  using assms by (cases a; cases b) auto

lemma class_of_cached_size [simp]: "class_of (with_cached_size n m) = class_of m"
  by (cases m) simp_all

lemma new_message_class [simp]: "class_of (new_message c) = c"
  by (cases c) simp_all

lemma new_message_wf [simp]: "wf_msg (new_message c)"
  by (cases c) (simp_all add: nt_wf_SharedCtor ns_wf_SharedCtor si_wf_SharedCtor pe_wf_SharedCtor)

lemma MergeFrom_Clear:
  "class_of from = class_of m \<Longrightarrow> wf_msg from \<Longrightarrow> wf_msg m \<Longrightarrow> MergeFrom from (Clear m) = Some (with_cached_size (cached_size m) from)"
  by (erule same_class_cases) (simp_all add: nt_MergeFrom_Clear ns_MergeFrom_Clear si_MergeFrom_Clear pe_MergeFrom_Clear)

lemma ParseFrom_merges:
  assumes "cutoff_reader rtc" and "class_of from = class_of m" and "serializable from" and "length (Serialize from) < 2 ^ 26"
  shows "ParseFrom rtc m (pre @ Serialize from @ post) (int (length pre)) (int (length (Serialize from))) =
    map_option (\<lambda>r. (True, r)) (MergeFrom from (Clear m))"
  using assms(2-4) nt_parse [OF assms(1)] ns_parse [OF assms(1)] si_parse [OF assms(1)] pe_parse [OF assms(1)]
  by (elim same_class_cases) simp_all

lemma ParseFrom_serialized:
  assumes "cutoff_reader rtc" and "class_of from = class_of m" and "serializable from" and "wf_msg from" and "wf_msg m"
    and "length (Serialize from) < 2 ^ 26"
  shows "ParseFrom rtc m (pre @ Serialize from @ post) (int (length pre)) (int (length (Serialize from))) =
    Some (True, with_cached_size (cached_size m) from)"
  using ParseFrom_merges [OF assms(1-3,6)] MergeFrom_Clear [OF assms(2,4,5)] by simp

lemma ParseFrom_total_wf:
  assumes "cutoff_reader rtc" and "0 \<le> data" and "0 \<le> n" and "data + n \<le> int (length mem)" and "n < kDefaultTotalBytesLimit" and "wf_msg m"
  shows "\<exists>b m'. ParseFrom rtc m mem data n = Some (b, m') \<and> class_of m' = class_of m \<and> wf_msg m'"
proof (cases m)
  case (M_Tick x)
  then show ?thesis using nt.ParseFromArray_total [OF assms(1-5), of nt_Clear x] nt_parse_wf [of x rtc mem data n] assms(6) by fastforce
next
  case (M_SignonState x)
  then show ?thesis using ns.ParseFromArray_total [OF assms(1-5), of ns_Clear x] ns_parse_wf [of x rtc mem data n] assms(6) by fastforce
next
  case (M_ServerInfo x)
  then show ?thesis using si.ParseFromArray_total [OF assms(1-5), of si_Clear x] si_parse_wf [of x rtc mem data n] assms(6) by fastforce
next
  case (M_PacketEntities x)
  then show ?thesis using pe.ParseFromArray_total [OF assms(1-5), of pe_Clear x] pe_parse_wf [of x rtc mem data n] assms(6) by fastforce
qed

subsection \<open>Properties\<close>

text \<open>
  C5: Messages survive the wire. An object of any of the four classes that satisfies the class
  invariant, whose strings and unknown fields can be encoded and whose encoding is below the
  stream's limit of 64 MB, is read back from its serialized bytes, wherever they lie in memory
  and whatever the receiving object held before: the parse succeeds, consumes exactly the
  message, and the object equals the one sent in every field, every has-bit and the unknown
  fields (only the cached size stays the receiver's own).
\<close>

theorem message_roundtrip:
  assumes "cutoff_reader rtc" and "class_of from = class_of m" and "serializable from" and "wf_msg from" and "wf_msg m"
    and "length (Serialize from) < 2 ^ 26"
  shows "ParseFrom rtc m (pre @ Serialize from @ post) (int (length pre)) (int (length (Serialize from))) =
    Some (True, with_cached_size (cached_size m) from)"
  by (rule ParseFrom_serialized [OF assms])

definition sample_info :: CSVCMsg_ServerInfo where
  "sample_info = set_si_map_name [100, 101] (set_si_tick_interval 0x3C000000 (set_si_is_redirecting_to_proxy_relay True
     (set_si_protocol (-1) si_SharedCtor)))\<lparr>si_unknown_fields := [UVarint 40 7]\<rparr>"

lemma sample_info_bytes: "Serialize (M_ServerInfo sample_info) =
    [8, 255, 255, 255, 255, 255, 255, 255, 255, 255, 1, 117, 0, 0, 0, 60, 130, 1, 2, 100, 101, 168, 1, 1, 192, 2, 7]"
  by code_simp

lemma sample_info_ok: "serializable (M_ServerInfo sample_info)" "wf_msg (M_ServerInfo sample_info)"
proof -
  have "switch_tag si_tags (field_tag (UVarint 40 7)) = None" by code_simp
  moreover have "field_ok 100 (UVarint 40 7)" by (simp add: num_ok_def)
  ultimately show "serializable (M_ServerInfo sample_info)"
    by (simp add: sample_info_def si_serializable_def si_set_defs si_SharedCtor_def)
  show "wf_msg (M_ServerInfo sample_info)" by (simp add: sample_info_def si_wf_set si_wf_SharedCtor)
qed

theorem message_roundtrip_witness:
  "ParseFrom plain_reader (new_message CSVCMsg_ServerInfo)
     ([1, 2] @ [8, 255, 255, 255, 255, 255, 255, 255, 255, 255, 1, 117, 0, 0, 0, 60, 130, 1, 2, 100, 101, 168, 1, 1, 192, 2, 7] @ [9]) 2 27 =
   Some (True, with_cached_size 0 (M_ServerInfo sample_info))"
  using message_roundtrip [OF plain_reader_ok, of "M_ServerInfo sample_info" "new_message CSVCMsg_ServerInfo" "[1, 2]" "[9]"]
    sample_info_ok(1,2) new_message_wf [of CSVCMsg_ServerInfo] unfolding sample_info_bytes by (simp add: si_SharedCtor_def)

text \<open>
  C8: Parsing untrusted bytes is safe and keeps the type invariant. For every class, every
  memory and every range inside it that is shorter than the stream's limit, \<open>ParseFromArray\<close>
  returns (the loop ends, and no byte outside the range's memory is touched), and whatever
  it returns, failure included, the object is of its class and well formed: has-bits only for
  existing fields, and every field without its has-bit at its default.
\<close>

theorem parse_safe_typed:
  assumes "cutoff_reader rtc" and "0 \<le> data" and "0 \<le> n" and "data + n \<le> int (length mem)" and "n < kDefaultTotalBytesLimit" and "wf_msg m"
  shows "\<exists>b m'. ParseFrom rtc m mem data n = Some (b, m') \<and> class_of m' = class_of m \<and> wf_msg m'"
  by (rule ParseFrom_total_wf [OF assms])

theorem parse_safe_typed_witness:
  "\<exists>b m'. ParseFrom plain_reader (new_message CNETMsg_SignonState) [34, 200, 1, 0, 8] 0 4 = Some (b, m') \<and> class_of m' = CNETMsg_SignonState \<and> wf_msg m'"
  using parse_safe_typed [OF plain_reader_ok, of 0 4 "[34, 200, 1, 0, 8]" "new_message CNETMsg_SignonState"]
    new_message_wf [of CNETMsg_SignonState] by (simp add: kDefaultTotalBytesLimit_def del: new_message_wf)

text \<open>
  C9: The generated parser, with its jumps from each field to the field expected next, computes
  the reference semantics: fields of the class in any order, repeated fields and fields given
  more than once included, mixed with unknown fields, have the effect of the assignments from
  left to right on the cleared object.
\<close>

theorem parse_items_reference:
  assumes "cutoff_reader rtc" and "items_ok (class_of m) is" and "length (items_bytes (class_of m) is) < 2 ^ 26"
  shows "ParseFrom rtc m (pre @ items_bytes (class_of m) is @ post) (int (length pre)) (int (length (items_bytes (class_of m) is))) =
    Some (True, apply_items is (Clear m))"
proof (cases m)
  case (M_Tick x)
  then show ?thesis
    using nt.ParseFromArray_items [OF assms(1), of "is" _ pre post _ nt_Clear x] assms(2,3) by (simp add: kDefaultTotalBytesLimit_def)
next
  case (M_SignonState x)
  then show ?thesis
    using ns.ParseFromArray_items [OF assms(1), of "is" _ pre post _ ns_Clear x] assms(2,3) by (simp add: kDefaultTotalBytesLimit_def)
next
  case (M_ServerInfo x)
  then show ?thesis
    using si.ParseFromArray_items [OF assms(1), of "is" _ pre post _ si_Clear x] assms(2,3) by (simp add: kDefaultTotalBytesLimit_def)
next
  case (M_PacketEntities x)
  then show ?thesis
    using pe.ParseFromArray_items [OF assms(1), of "is" _ pre post _ pe_Clear x] assms(2,3) by (simp add: kDefaultTotalBytesLimit_def)
qed

theorem parse_items_reference_witness:
  "ParseFrom plain_reader (new_message CNETMsg_Tick) ([] @ [48, 3, 8, 150, 1, 48, 4] @ []) 0 7 =
   Some (True, apply_items [Known 6 (WVar 3), Known 1 (WVar 150), Known 6 (WVar 4)] (Clear (new_message CNETMsg_Tick)))"
proof -
  let ?is = "[Known 6 (WVar 3), Known 1 (WVar 150), Known 6 (WVar 4)]"
  have ok: "items_ok CNETMsg_Tick ?is" by (simp add: nt_item_known nt_make_tags del: One_nat_def)
  have b: "items_bytes CNETMsg_Tick ?is = [48, 3, 8, 150, 1, 48, 4]"
    by (simp add: nt.item_bytes_def nt_tag_of varint_bytes.simps del: One_nat_def)
  show ?thesis
    using parse_items_reference [OF plain_reader_ok, of "new_message CNETMsg_Tick" ?is "[]" "[]", unfolded new_message_class, OF ok]
    unfolding b by simp
qed

text \<open>
  C26: Concatenation is merging. Parsing the encodings of two messages of a class one after the
  other gives what \<open>MergeFrom\<close> makes of the two messages on the cleared object.
\<close>

theorem merge_concat:
  assumes "cutoff_reader rtc" and "class_of m1 = class_of m" and "class_of m2 = class_of m" and "serializable m1" and "serializable m2"
    and "length (Serialize m1 @ Serialize m2) < 2 ^ 26"
  shows "\<exists>m'. MergeFrom m1 (Clear m) = Some m' \<and>
    ParseFrom rtc m (Serialize m1 @ Serialize m2) 0 (int (length (Serialize m1 @ Serialize m2))) = map_option (Pair True) (MergeFrom m2 m')"
proof (cases m)
  case (M_Tick x)
  then obtain a b where "m1 = M_Tick a" "m2 = M_Tick b" using assms(2,3) by (cases m1; cases m2) auto
  then show ?thesis using nt_parse_two [OF assms(1), of a b x] assms(4-6) M_Tick by simp
next
  case (M_SignonState x)
  then obtain a b where "m1 = M_SignonState a" "m2 = M_SignonState b" using assms(2,3) by (cases m1; cases m2) auto
  then show ?thesis using ns_parse_two [OF assms(1), of a b x] assms(4-6) M_SignonState by simp
next
  case (M_ServerInfo x)
  then obtain a b where "m1 = M_ServerInfo a" "m2 = M_ServerInfo b" using assms(2,3) by (cases m1; cases m2) auto
  then show ?thesis using si_parse_two [OF assms(1), of a b x] assms(4-6) M_ServerInfo by simp
next
  case (M_PacketEntities x)
  then obtain a b where "m1 = M_PacketEntities a" "m2 = M_PacketEntities b" using assms(2,3) by (cases m1; cases m2) auto
  then show ?thesis using pe_parse_two [OF assms(1), of a b x] assms(4-6) M_PacketEntities by simp
qed

theorem merge_concat_witness:
  "\<exists>m'. MergeFrom (M_SignonState (add_ns_players_networkids [65] ns_SharedCtor)) (Clear (new_message CNETMsg_SignonState)) = Some m' \<and>
    ParseFrom plain_reader (new_message CNETMsg_SignonState) [34, 1, 65, 34, 1, 66] 0 6 =
      map_option (Pair True) (MergeFrom (M_SignonState (add_ns_players_networkids [66] ns_SharedCtor)) m')"
proof -
  let ?a = "M_SignonState (add_ns_players_networkids [65] ns_SharedCtor)" and ?b = "M_SignonState (add_ns_players_networkids [66] ns_SharedCtor)"
  have "serializable ?a" "serializable ?b" by (simp_all add: ns_serializable_def add_ns_players_networkids_def ns_SharedCtor_def)
  moreover have "Serialize ?a = [34, 1, 65]" "Serialize ?b = [34, 1, 66]" by code_simp+
  ultimately show ?thesis using merge_concat [OF plain_reader_ok, of ?a "new_message CNETMsg_SignonState" ?b] by simp
qed

text \<open>
  C27: \<open>ByteSize\<close> is exact up to the wrap of an \<open>int\<close>: for every object of the four classes it
  returns the number of bytes \<open>SerializeWithCachedSizesToArray\<close> writes, reduced to 32 bits, which is
  that number exactly if it is below \<open>2 ^ 31\<close>; and it changes nothing but the cached size, which it
  sets to the value it returns.
\<close>

theorem ByteSize_exact:
  "ByteSize m = (i32 (int (length (Serialize m))), with_cached_size (i32 (int (length (Serialize m)))) m) \<and>
    (fst (ByteSize m) = int (length (Serialize m))) = (length (Serialize m) < 2 ^ 31)"
proof -
  have "(i32 (int n) = int n) = (n < 2 ^ 31)" for n
    using i32_range [of "int n"] by (cases "n < 2 ^ 31") auto
  moreover have "ByteSize m = (i32 (int (length (Serialize m))), with_cached_size (i32 (int (length (Serialize m)))) m)"
    by (cases m) (simp_all add: nt_ByteSize_eq ns_ByteSize_eq si_ByteSize_eq pe_ByteSize_eq)
  ultimately show ?thesis by simp
qed

text \<open>
  Copying and swapping miss no field: between objects of a class, \<open>CopyFrom\<close> makes the target
  equal to the source (its own cached size apart), and \<open>Swap\<close> exchanges the two objects.
\<close>

theorem copy_and_swap:
  assumes "class_of from = class_of m" and "wf_msg from" and "wf_msg m"
  shows "CopyFrom from m = Some (with_cached_size (cached_size m) from) \<and> Swap from m = Some (m, from)"
  using assms
  by (elim same_class_cases)
    (simp_all add: nt_CopyFrom_eq ns_CopyFrom_eq si_CopyFrom_eq pe_CopyFrom_eq nt_InternalSwap_eq ns_InternalSwap_eq si_InternalSwap_eq pe_InternalSwap_eq)

theorem copy_and_swap_witness:
  "CopyFrom (M_ServerInfo sample_info) (new_message CSVCMsg_ServerInfo) = Some (with_cached_size 0 (M_ServerInfo sample_info)) \<and>
   Swap (M_ServerInfo sample_info) (new_message CSVCMsg_ServerInfo) = Some (new_message CSVCMsg_ServerInfo, M_ServerInfo sample_info)"
  using copy_and_swap [of "M_ServerInfo sample_info" "new_message CSVCMsg_ServerInfo"] sample_info_ok(2) new_message_wf [of CSVCMsg_ServerInfo]
  by (simp add: si_SharedCtor_def)

end
