(* ===== verification/NetInput.thy ===== *)
theory NetInput
  imports NetMessages UnknownFields
begin

text \<open>
  The four message classes parsed from an input stream: whole with \<open>ParseFromZeroCopyStream\<close>, and up
  to a number of bytes with \<open>ParseFromBoundedZeroCopyStream\<close>. The functions here select the class
  as \<open>ParseFrom\<close> does for an array.
\<close>

abbreviation in_class :: "('m \<Rightarrow> netmsg) \<Rightarrow> (bool \<times> 'm \<times> ArrayInputStream option) option \<Rightarrow> (bool \<times> netmsg \<times> ArrayInputStream option) option" where
  "in_class C \<equiv> map_option (map_prod id (map_prod C id))"

fun ParseFromInput :: "tag_reader \<Rightarrow> netmsg \<Rightarrow> u8 list \<Rightarrow> ArrayInputStream \<Rightarrow> (bool \<times> netmsg \<times> ArrayInputStream option) option" where
  "ParseFromInput rtc (M_Tick m) mem input = in_class M_Tick (ParseFromZeroCopyStream rtc nt_ops nt_Clear m mem input)"
| "ParseFromInput rtc (M_SignonState m) mem input = in_class M_SignonState (ParseFromZeroCopyStream rtc ns_ops ns_Clear m mem input)"
| "ParseFromInput rtc (M_ServerInfo m) mem input = in_class M_ServerInfo (ParseFromZeroCopyStream rtc si_ops si_Clear m mem input)"
| "ParseFromInput rtc (M_PacketEntities m) mem input = in_class M_PacketEntities (ParseFromZeroCopyStream rtc pe_ops pe_Clear m mem input)"

fun ParseFromBounded :: "tag_reader \<Rightarrow> netmsg \<Rightarrow> u8 list \<Rightarrow> ArrayInputStream \<Rightarrow> int \<Rightarrow> (bool \<times> netmsg \<times> ArrayInputStream option) option" where
  "ParseFromBounded rtc (M_Tick m) mem input n = in_class M_Tick (ParseFromBoundedZeroCopyStream rtc nt_ops nt_Clear m mem input n)"
| "ParseFromBounded rtc (M_SignonState m) mem input n = in_class M_SignonState (ParseFromBoundedZeroCopyStream rtc ns_ops ns_Clear m mem input n)"
| "ParseFromBounded rtc (M_ServerInfo m) mem input n = in_class M_ServerInfo (ParseFromBoundedZeroCopyStream rtc si_ops si_Clear m mem input n)"
| "ParseFromBounded rtc (M_PacketEntities m) mem input n = in_class M_PacketEntities (ParseFromBoundedZeroCopyStream rtc pe_ops pe_Clear m mem input n)"

lemma bounded_items:
  assumes "cutoff_reader rtc" and "items_ok (class_of m) is" and "length (items_bytes (class_of m) is @ rest) < 2 ^ 26"
  defines "bs \<equiv> items_bytes (class_of m) is"
  shows "\<exists>input. ParseFromBounded rtc m (pre @ bs @ rest @ post)
      (ArrayInputStream_ctor (int (length pre)) (int (length bs) + int (length rest)) block_size) (int (length bs)) =
    Some (True, apply_items is (Clear m), Some input) \<and> AIS_ByteCount input = int (length bs)"
proof (cases m)
  case (M_Tick x)
  then show ?thesis
    using nt.ParseFromBoundedZeroCopyStream_items [OF assms(1), of "is" _ pre _ _ _ rest post nt_Clear x block_size, OF _ _ refl refl refl refl] assms(2,3)
    by (auto simp: bs_def kDefaultTotalBytesLimit_def intro: exI [of _ True])
next
  case (M_SignonState x)
  then show ?thesis
    using ns.ParseFromBoundedZeroCopyStream_items [OF assms(1), of "is" _ pre _ _ _ rest post ns_Clear x block_size, OF _ _ refl refl refl refl] assms(2,3)
    by (auto simp: bs_def kDefaultTotalBytesLimit_def intro: exI [of _ True])
next
  case (M_ServerInfo x)
  then show ?thesis
    using si.ParseFromBoundedZeroCopyStream_items [OF assms(1), of "is" _ pre _ _ _ rest post si_Clear x block_size, OF _ _ refl refl refl refl] assms(2,3)
    by (auto simp: bs_def kDefaultTotalBytesLimit_def intro: exI [of _ True])
next
  case (M_PacketEntities x)
  then show ?thesis
    using pe.ParseFromBoundedZeroCopyStream_items [OF assms(1), of "is" _ pre _ _ _ rest post pe_Clear x block_size, OF _ _ refl refl refl refl] assms(2,3)
    by (auto simp: bs_def kDefaultTotalBytesLimit_def intro: exI [of _ True])
qed

text \<open>The items a message is serialized as.\<close>

fun items_of :: "netmsg \<Rightarrow> item list" where
  "items_of (M_Tick m) = nt_items m"
| "items_of (M_SignonState m) = ns_items m"
| "items_of (M_ServerInfo m) = si_items m"
| "items_of (M_PacketEntities m) = pe_items m"

lemma items_of_ok: "serializable m \<Longrightarrow> items_ok (class_of m) (items_of m)"
  by (cases m) (simp_all add: nt_items_ok ns_items_ok si_items_ok pe_items_ok)

lemma items_of_bytes: "items_bytes (class_of m) (items_of m) = Serialize m"
  by (cases m) (simp_all add: nt_items_bytes ns_items_bytes si_items_bytes pe_items_bytes)

lemma items_of_apply:
  assumes "class_of from = class_of m" and "wf_msg from" and "wf_msg m"
  shows "apply_items (items_of from) (Clear m) = with_cached_size (cached_size m) from"
  using assms nt_MergeFrom_Clear ns_MergeFrom_Clear si_MergeFrom_Clear pe_MergeFrom_Clear
  by (elim same_class_cases) (simp_all add: nt_items_fold ns_items_fold si_items_fold pe_items_fold)

subsection \<open>Properties\<close>

text \<open>
  C10: Where the blocks end makes no difference. For each of the four classes, any bytes in a range of memory
  below the stream's limit and any block size, \<open>ParseFromZeroCopyStream\<close> over the blocks returns, never
  touches a byte outside the range's memory, and gives the verdict and the object that \<open>ParseFromArray\<close>
  gives on the range, although a jump to an expected field is missed where its tag is
  not in the block yet; the input stream is left in a good state.
\<close>

theorem parse_blocks_like_array:
  assumes "cutoff_reader rtc" and "0 \<le> data" and "0 \<le> n" and "data + n \<le> int (length mem)" and "n < kDefaultTotalBytesLimit"
  shows "\<exists>b m' input. ParseFromInput rtc m mem (ArrayInputStream_ctor data n block_size) = Some (b, m', Some input) \<and>
    array_input_ok mem input \<and> ParseFrom rtc m mem data n = Some (b, m')"
proof (cases m)
  case (M_Tick x)
  then show ?thesis using nt.ParseFromZeroCopyStream_array [OF assms(1) _ assms(2-5), of nt_Clear x block_size] by fastforce
next
  case (M_SignonState x)
  then show ?thesis using ns.ParseFromZeroCopyStream_array [OF assms(1) _ assms(2-5), of ns_Clear x block_size] by fastforce
next
  case (M_ServerInfo x)
  then show ?thesis using si.ParseFromZeroCopyStream_array [OF assms(1) _ assms(2-5), of si_Clear x block_size] by fastforce
next
  case (M_PacketEntities x)
  then show ?thesis using pe.ParseFromZeroCopyStream_array [OF assms(1) _ assms(2-5), of pe_Clear x block_size] by fastforce
qed

theorem parse_blocks_like_array_witness:
  "\<exists>b m' input. ParseFromInput plain_reader (new_message CNETMsg_Tick) [0, 8, 150, 1, 48, 3] (ArrayInputStream_ctor 1 5 2) = Some (b, m', Some input) \<and>
    array_input_ok [0, 8, 150, 1, 48, 3] input \<and> ParseFrom plain_reader (new_message CNETMsg_Tick) [0, 8, 150, 1, 48, 3] 1 5 = Some (b, m')"
  using parse_blocks_like_array [OF plain_reader_ok, of 1 5 "[0, 8, 150, 1, 48, 3]" "new_message CNETMsg_Tick" 2]
  by (simp add: kDefaultTotalBytesLimit_def)

text \<open>
  C17: A bounded parse takes its message and nothing else. \<open>ParseFromBoundedZeroCopyStream\<close> with the size
  of a serialized message, over blocks of any size of an array in which other bytes follow the message,
  gives the message, and leaves the input stream exactly behind it, although the last block
  read may have gone further.
\<close>

theorem bounded_parse:
  assumes "cutoff_reader rtc" and "class_of from = class_of m" and "serializable from" and "wf_msg from" and "wf_msg m"
    and "length (Serialize from @ rest) < 2 ^ 26"
  shows "\<exists>input. ParseFromBounded rtc m (pre @ Serialize from @ rest @ post)
      (ArrayInputStream_ctor (int (length pre)) (int (length (Serialize from)) + int (length rest)) block_size) (int (length (Serialize from))) =
    Some (True, with_cached_size (cached_size m) from, Some input) \<and> AIS_ByteCount input = int (length (Serialize from))"
  using bounded_items [OF assms(1), of m "items_of from" rest pre post block_size] items_of_ok [OF assms(3)] items_of_bytes [of "from"]
    items_of_apply [OF assms(2,4,5)] assms(2,6) by simp

theorem bounded_parse_witness:
  "\<exists>input. ParseFromBounded plain_reader (new_message CSVCMsg_ServerInfo)
     ([1, 2] @ [8, 255, 255, 255, 255, 255, 255, 255, 255, 255, 1, 117, 0, 0, 0, 60, 130, 1, 2, 100, 101, 168, 1, 1, 192, 2, 7] @ [8, 3] @ [9])
     (ArrayInputStream_ctor 2 29 4) 27 =
   Some (True, with_cached_size 0 (M_ServerInfo sample_info), Some input) \<and> AIS_ByteCount input = 27"
  using bounded_parse [OF plain_reader_ok, of "M_ServerInfo sample_info" "new_message CSVCMsg_ServerInfo" "[8, 3]" "[1, 2]" "[9]" 4]
    sample_info_ok(1,2) new_message_wf [of CSVCMsg_ServerInfo] unfolding sample_info_bytes by (simp add: si_SharedCtor_def)

end
