(* ===== verification/OutStream.thy ===== *)
theory OutStream
  imports WireFormat "HOL-Library.Sublist"
begin

text \<open>
  Buffered output of the protocol buffer runtime: the streams
  \<^verbatim>\<open>ArrayOutputStream\<close> and \<^verbatim>\<open>StringOutputStream\<close> of
  \<^verbatim>\<open>io/zero_copy_stream_impl_lite.cc\<close>, the writer
  \<^verbatim>\<open>CodedOutputStream\<close> of \<^verbatim>\<open>io/coded_stream.cc\<close> over any of them,
  and the field writers of \<^verbatim>\<open>wire_format_lite.cc\<close> and
  \<^verbatim>\<open>wire_format.cc\<close> that use it.

  An underlying stream hands out blocks of memory (\<open>Next\<close>) and takes back the unused end of
  the last one (\<open>BackUp\<close>). The class is abstract in the code; here it is a record of its
  operations, together with \<open>out_store\<close>, the effect of \<open>memcpy\<close> into a block. \<open>None\<close> is a
  store outside the memory of the stream, a failed \<open>GOOGLE_CHECK\<close>, a signed overflow, or a loop
  that needs more iterations than the bytes it writes (which no stream below can cause: their
  blocks are never empty).
\<close>

subsection \<open>The streams underneath\<close>

record 's output_ops =
  out_Next :: "'s \<Rightarrow> ((int \<times> int) option \<times> 's) option"
  out_BackUp :: "int \<Rightarrow> 's \<Rightarrow> 's option"
  out_store :: "int \<Rightarrow> u8 list \<Rightarrow> 's \<Rightarrow> 's option"

definition mem_store :: "int \<Rightarrow> u8 list \<Rightarrow> u8 list \<Rightarrow> u8 list option" where
  "mem_store p bs mem = (if bs = [] then Some mem
     else if 0 \<le> p \<and> p + int (length bs) \<le> int (length mem)
     then Some (take (nat p) mem @ bs @ drop (nat p + length bs) mem) else None)"

text \<open>\<open>data_\<close> is the offset of the array in the memory \<open>ao_mem\<close>.\<close>

record ArrayOutputStream =
  ao_mem :: "u8 list"
  ao_data :: int
  ao_size :: int
  ao_block_size :: int
  ao_position :: int
  ao_last_returned_size :: int

definition ArrayOutputStream_ctor :: "u8 list \<Rightarrow> int \<Rightarrow> int \<Rightarrow> int \<Rightarrow> ArrayOutputStream" where
  "ArrayOutputStream_ctor mem data n block_size =
     \<lparr>ao_mem = mem, ao_data = data, ao_size = n, ao_block_size = (if block_size > 0 then block_size else n),
      ao_position = 0, ao_last_returned_size = 0\<rparr>"

definition AOS_Next :: "ArrayOutputStream \<Rightarrow> ((int \<times> int) option \<times> ArrayOutputStream) option" where
  "AOS_Next s =
     (if ao_position s < ao_size s then
        let last = min (ao_block_size s) (ao_size s - ao_position s)
        in Some (Some (ao_data s + ao_position s, last),
                 s\<lparr>ao_last_returned_size := last, ao_position := ao_position s + last\<rparr>)
      else Some (None, s\<lparr>ao_last_returned_size := 0\<rparr>))"

definition AOS_BackUp :: "int \<Rightarrow> ArrayOutputStream \<Rightarrow> ArrayOutputStream option" where
  "AOS_BackUp count s =
     (if ao_last_returned_size s > 0 \<and> count \<le> ao_last_returned_size s \<and> 0 \<le> count
      then Some (s\<lparr>ao_position := ao_position s - count, ao_last_returned_size := 0\<rparr>) else None)"

definition AOS_ByteCount :: "ArrayOutputStream \<Rightarrow> int" where
  "AOS_ByteCount s = ao_position s"

definition AOS_store :: "int \<Rightarrow> u8 list \<Rightarrow> ArrayOutputStream \<Rightarrow> ArrayOutputStream option" where
  "AOS_store p bs s = do { mem \<leftarrow> mem_store p bs (ao_mem s); Some (s\<lparr>ao_mem := mem\<rparr>) }"

definition array_ops :: "ArrayOutputStream output_ops" where
  "array_ops = \<lparr>out_Next = AOS_Next, out_BackUp = AOS_BackUp, out_store = AOS_store\<rparr>"

text \<open>
  A string has its characters and a capacity; \<open>grow n\<close> is the capacity the string class gives
  itself when it has to hold \<open>n\<close> characters. Addresses are offsets in the string. The casts of
  sizes to \<open>int\<close> and \<open>old_size * 2\<close> are checked.
\<close>

record StringOutputStream =
  so_target :: "u8 list"
  so_capacity :: nat

definition kMinimumSize :: int where "kMinimumSize = 16"

definition string_resize :: "(nat \<Rightarrow> nat) \<Rightarrow> nat \<Rightarrow> StringOutputStream \<Rightarrow> StringOutputStream" where
  "string_resize grow n s =
     s\<lparr>so_target := take n (so_target s) @ replicate (n - length (so_target s)) 0,
       so_capacity := (if n \<le> so_capacity s then so_capacity s else max n (grow n))\<rparr>"

definition SOS_Next :: "(nat \<Rightarrow> nat) \<Rightarrow> StringOutputStream \<Rightarrow> ((int \<times> int) option \<times> StringOutputStream) option" where
  "SOS_Next grow s =
     (let old_size = int (length (so_target s)) in
      if old_size > INT_MAX then None else do {
        s' \<leftarrow> (if old_size < int (so_capacity s) then Some (string_resize grow (so_capacity s) s)
              else if old_size * 2 > INT_MAX then None
              else Some (string_resize grow (nat (max (old_size * 2) (kMinimumSize + 0))) s));
        let n = int (length (so_target s')) - old_size;
        if n > INT_MAX then None else Some (Some (old_size, n), s') })"

definition SOS_BackUp :: "(nat \<Rightarrow> nat) \<Rightarrow> int \<Rightarrow> StringOutputStream \<Rightarrow> StringOutputStream option" where
  "SOS_BackUp grow count s =
     (if 0 \<le> count \<and> count \<le> int (length (so_target s))
      then Some (string_resize grow (length (so_target s) - nat count) s) else None)"

definition SOS_ByteCount :: "StringOutputStream \<Rightarrow> int" where
  "SOS_ByteCount s = int (length (so_target s))"

definition SOS_store :: "int \<Rightarrow> u8 list \<Rightarrow> StringOutputStream \<Rightarrow> StringOutputStream option" where
  "SOS_store p bs s = do { t \<leftarrow> mem_store p bs (so_target s); Some (s\<lparr>so_target := t\<rparr>) }"

definition string_ops :: "(nat \<Rightarrow> nat) \<Rightarrow> StringOutputStream output_ops" where
  "string_ops grow = \<lparr>out_Next = SOS_Next grow, out_BackUp = SOS_BackUp grow, out_store = SOS_store\<rparr>"

subsection \<open>The writer\<close>

record 's CodedOutputStream =
  o_output :: 's
  o_buffer :: int
  o_buffer_size :: int
  o_total_bytes :: int
  o_had_error :: bool

definition COS_Advance :: "int \<Rightarrow> 's CodedOutputStream \<Rightarrow> 's CodedOutputStream" where
  "COS_Advance amount s = s\<lparr>o_buffer := o_buffer s + amount, o_buffer_size := o_buffer_size s - amount\<rparr>"

definition COS_Refresh :: "'s output_ops \<Rightarrow> 's CodedOutputStream \<Rightarrow> (bool \<times> 's CodedOutputStream) option" where
  "COS_Refresh ops s = do {
     (block, out) \<leftarrow> out_Next ops (o_output s);
     case block of
       Some (b, n) \<Rightarrow>
         if o_total_bytes s + n > INT_MAX then None
         else Some (True, s\<lparr>o_output := out, o_buffer := b, o_buffer_size := n, o_total_bytes := o_total_bytes s + n\<rparr>)
     | None \<Rightarrow> Some (False, s\<lparr>o_output := out, o_buffer := 0, o_buffer_size := 0, o_had_error := True\<rparr>) }"

definition CodedOutputStream_ctor :: "'s output_ops \<Rightarrow> 's \<Rightarrow> 's CodedOutputStream option" where
  "CodedOutputStream_ctor ops output = do {
     (_, s) \<leftarrow> COS_Refresh ops
        \<lparr>o_output = output, o_buffer = 0, o_buffer_size = 0, o_total_bytes = 0, o_had_error = False\<rparr>;
     Some (s\<lparr>o_had_error := False\<rparr>) }"

text \<open>The destructor leaves only the underlying stream.\<close>

definition CodedOutputStream_dtor :: "'s output_ops \<Rightarrow> 's CodedOutputStream \<Rightarrow> 's option" where
  "CodedOutputStream_dtor ops s =
     (if o_buffer_size s > 0 then out_BackUp ops (o_buffer_size s) (o_output s) else Some (o_output s))"

definition store_at_buffer :: "'s output_ops \<Rightarrow> u8 list \<Rightarrow> 's CodedOutputStream \<Rightarrow> 's CodedOutputStream option" where
  "store_at_buffer ops bs s = do { out \<leftarrow> out_store ops (o_buffer s) bs (o_output s); Some (s\<lparr>o_output := out\<rparr>) }"

fun WriteRaw_loop :: "'s output_ops \<Rightarrow> nat \<Rightarrow> u8 list \<Rightarrow> 's CodedOutputStream \<Rightarrow> 's CodedOutputStream option" where
  "WriteRaw_loop ops 0 data s = None"
| "WriteRaw_loop ops (Suc fuel) data s =
     (if o_buffer_size s < int (length data) then do {
        s1 \<leftarrow> store_at_buffer ops (take (nat (o_buffer_size s)) data) s;
        (ok, s2) \<leftarrow> COS_Refresh ops s1;
        if \<not> ok then Some s2 else WriteRaw_loop ops fuel (drop (nat (o_buffer_size s)) data) s2 }
      else do {
        s1 \<leftarrow> store_at_buffer ops data s;
        Some (COS_Advance (int (length data)) s1) })"

definition WriteRaw :: "'s output_ops \<Rightarrow> u8 list \<Rightarrow> 's CodedOutputStream \<Rightarrow> 's CodedOutputStream option" where
  "WriteRaw ops data = WriteRaw_loop ops (length data + 2) data"

definition WriteString :: "'s output_ops \<Rightarrow> u8 list \<Rightarrow> 's CodedOutputStream \<Rightarrow> 's CodedOutputStream option" where
  "WriteString ops str = WriteRaw ops str"

definition WriteLittleEndian32 :: "'s output_ops \<Rightarrow> u32 \<Rightarrow> 's CodedOutputStream \<Rightarrow> 's CodedOutputStream option" where
  "WriteLittleEndian32 ops v s =
     (if 4 \<le> o_buffer_size s then do { s \<leftarrow> store_at_buffer ops (WriteLittleEndian32ToArray v) s; Some (COS_Advance 4 s) }
      else WriteRaw ops (WriteLittleEndian32ToArray v) s)"

definition WriteLittleEndian64 :: "'s output_ops \<Rightarrow> u64 \<Rightarrow> 's CodedOutputStream \<Rightarrow> 's CodedOutputStream option" where
  "WriteLittleEndian64 ops v s =
     (if 8 \<le> o_buffer_size s then do { s \<leftarrow> store_at_buffer ops (WriteLittleEndian64ToArray v) s; Some (COS_Advance 8 s) }
      else WriteRaw ops (WriteLittleEndian64ToArray v) s)"

text \<open>The loop of the slow paths, the same for both widths.\<close>

function slow_varint :: "'a::len word \<Rightarrow> u8 list" where
  "slow_varint v = (if v > 0x7F then (ucast v AND 0x7F OR 0x80) # slow_varint (drop_bit 7 v) else [ucast v AND 0x7F])"
  by pat_completeness auto

definition COS_kMaxVarint32Bytes :: int where "COS_kMaxVarint32Bytes = 5"
definition COS_kMaxVarintBytes :: int where "COS_kMaxVarintBytes = 10"

definition write_local :: "'s output_ops \<Rightarrow> int \<Rightarrow> u8 list \<Rightarrow> 's CodedOutputStream \<Rightarrow> 's CodedOutputStream option" where
  "write_local ops capacity bytes s = (if int (length bytes) \<le> capacity then WriteRaw ops bytes s else None)"

definition WriteVarint32 :: "'s output_ops \<Rightarrow> u32 \<Rightarrow> 's CodedOutputStream \<Rightarrow> 's CodedOutputStream option" where
  "WriteVarint32 ops v s =
     (if COS_kMaxVarint32Bytes \<le> o_buffer_size s then do {
        let bs = WriteVarint32FallbackToArray v;
        s \<leftarrow> store_at_buffer ops bs s;
        Some (COS_Advance (int (length bs)) s) }
      else write_local ops COS_kMaxVarint32Bytes (slow_varint v) s)"

definition WriteVarint64 :: "'s output_ops \<Rightarrow> u64 \<Rightarrow> 's CodedOutputStream \<Rightarrow> 's CodedOutputStream option" where
  "WriteVarint64 ops v s =
     (if COS_kMaxVarintBytes \<le> o_buffer_size s then do {
        let bs = WriteVarint64ToArray v;
        s \<leftarrow> store_at_buffer ops bs s;
        Some (COS_Advance (int (length bs)) s) }
      else write_local ops COS_kMaxVarintBytes (slow_varint v) s)"

definition WriteVarint32SignExtended :: "'s output_ops \<Rightarrow> u32 \<Rightarrow> 's CodedOutputStream \<Rightarrow> 's CodedOutputStream option" where
  "WriteVarint32SignExtended ops v s =
     (if sint v < 0 then WriteVarint64 ops (scast v) s else WriteVarint32 ops v s)"

definition COS_WriteTag :: "'s output_ops \<Rightarrow> u32 \<Rightarrow> 's CodedOutputStream \<Rightarrow> 's CodedOutputStream option" where
  "COS_WriteTag ops v s = WriteVarint32 ops v s"

fun COS_Skip_loop :: "'s output_ops \<Rightarrow> nat \<Rightarrow> int \<Rightarrow> 's CodedOutputStream \<Rightarrow> (bool \<times> 's CodedOutputStream) option" where
  "COS_Skip_loop ops 0 count s = None"
| "COS_Skip_loop ops (Suc fuel) count s =
     (if o_buffer_size s < count then do {
        (ok, s') \<leftarrow> COS_Refresh ops s;
        if \<not> ok then Some (False, s') else COS_Skip_loop ops fuel (count - o_buffer_size s) s' }
      else Some (True, COS_Advance count s))"

definition COS_Skip :: "'s output_ops \<Rightarrow> int \<Rightarrow> 's CodedOutputStream \<Rightarrow> (bool \<times> 's CodedOutputStream) option" where
  "COS_Skip ops count s = (if count < 0 then Some (False, s) else COS_Skip_loop ops (nat count + 2) count s)"

definition COS_GetDirectBufferPointer :: "'s output_ops \<Rightarrow> 's CodedOutputStream \<Rightarrow> ((int \<times> int) option \<times> 's CodedOutputStream) option" where
  "COS_GetDirectBufferPointer ops s = do {
     (ok, s) \<leftarrow> (if o_buffer_size s = 0 then COS_Refresh ops s else Some (True, s));
     Some (if ok then Some (o_buffer s, o_buffer_size s) else None, s) }"

definition GetDirectBufferForNBytesAndAdvance :: "int \<Rightarrow> 's CodedOutputStream \<Rightarrow> int option \<times> 's CodedOutputStream" where
  "GetDirectBufferForNBytesAndAdvance n s =
     (if o_buffer_size s < n then (None, s) else (Some (o_buffer s), COS_Advance n s))"

definition COS_ByteCount :: "'s CodedOutputStream \<Rightarrow> int" where
  "COS_ByteCount s = o_total_bytes s - o_buffer_size s"

definition HadError :: "'s CodedOutputStream \<Rightarrow> bool" where
  "HadError s = o_had_error s"


termination slow_varint
proof (relation "measure unat", simp)
  fix v :: "'a::len word"
  assume "v > 0x7F"
  then have "v \<noteq> 0" by auto
  then have "0 < unat v" by (simp add: unat_gt_0)
  moreover have "unat (drop_bit 7 v) = unat v div 2 ^ 7" by (subst unat_drop_bit_eq) (rule drop_bit_eq_div)
  ultimately show "(drop_bit 7 v, v) \<in> measure unat" by simp
qed

declare slow_varint.simps [simp del]

lemma slow_varint_bytes: "LENGTH('a) \<ge> 8 \<Longrightarrow> slow_varint (v :: 'a::len word) = varint_bytes (unat v)"
proof (induction v rule: slow_varint.induct)
  case (1 v)
  have n: "unat (0x7F :: 'a word) = 127"
  proof -
    have "(2::nat) ^ 8 \<le> 2 ^ LENGTH('a)" by (rule power_increasing) (use 1(2) in auto)
    then have "(127::nat) < 2 ^ LENGTH('a)" by simp
    then show ?thesis using unat_of_nat [of 127, where 'a = 'a] by simp
  qed
  have big: "v > 0x7F \<longleftrightarrow> \<not> unat v < 128" unfolding word_less_nat_alt n by auto
  have low: "ucast v AND (0x7F :: u8) = of_nat (unat v mod 128)"
  proof -
    have "ucast v AND (0x7F :: u8) = take_bit 7 (ucast v)" by (simp add: take_bit_eq_mask mask_eq_exp_minus_1)
    also have "\<dots> = word_of_nat (take_bit 7 (unat v))" using 1(2)
      by (intro bit_word_eqI) (auto simp: bit_simps bit_unsigned_iff)
    finally show ?thesis by (simp add: take_bit_eq_mod)
  qed
  have or80: "of_nat (unat v mod 128) OR (0x80 :: u8) = of_nat (unat v mod 128 + 128)"
  proof -
    have "of_nat k OR (0x80 :: u8) = of_nat (k + 128)" if "k < 128" for k
    proof -
      have "\<forall>k \<in> set [0..<128]. of_nat k OR (0x80 :: u8) = of_nat (k + 128)" by code_simp
      then show ?thesis using that by simp
    qed
    then show ?thesis by simp
  qed
  show ?case
  proof (cases "v > 0x7F")
    case True
    moreover have "unat (drop_bit 7 v) = unat v div 2 ^ 7" by (subst unat_drop_bit_eq) (rule drop_bit_eq_div)
    ultimately have "slow_varint (drop_bit 7 v) = varint_bytes (unat v div 128)" using 1 by simp
    then show ?thesis using True big by (subst slow_varint.simps, subst varint_bytes.simps) (simp add: low or80)
  next
    case False
    then show ?thesis using big by (subst slow_varint.simps, subst varint_bytes.simps) (simp add: low)
  qed
qed


subsection \<open>The contract of an output stream\<close>

text \<open>
  What the writer relies on. Of a stream in a consistent state (\<open>ok\<close>) the contract speaks of
  the bytes it holds, the last block included (\<open>content\<close>), the address behind them (\<open>limit\<close>),
  the size of the block last handed out (\<open>last_block\<close>), whether it could hold \<open>n\<close> more bytes
  (\<open>room\<close>), and everything it never touches (\<open>rest\<close>). A stream of 1 GB or more need not
  go on.
\<close>

locale zero_copy_output =
  fixes ops :: "'s output_ops"
    and ok :: "'s \<Rightarrow> bool" and content :: "'s \<Rightarrow> u8 list" and limit :: "'s \<Rightarrow> int" and last_block :: "'s \<Rightarrow> nat"
    and room :: "'s \<Rightarrow> nat \<Rightarrow> bool" and rest :: "'s \<Rightarrow> 'r"
  assumes last_block_le: "ok s \<Longrightarrow> last_block s \<le> length (content s)"
    and room_mono: "ok s \<Longrightarrow> room s n \<Longrightarrow> m \<le> n \<Longrightarrow> room s m"
    and room_0: "ok s \<Longrightarrow> room s 0"
    and next_block: "ok s \<Longrightarrow> room s 1 \<Longrightarrow> length (content s) < 2 ^ 30 \<Longrightarrow>
      \<exists>block s'. out_Next ops s = Some (Some (limit s' - int (length block), int (length block)), s') \<and> ok s' \<and> block \<noteq> [] \<and>
        content s' = content s @ block \<and> length block \<le> last_block s' \<and> length (content s') < 2 ^ 31 \<and>
        (\<forall>k. room s' k = room s (length block + k)) \<and> rest s' = rest s"
    and next_none: "ok s \<Longrightarrow> \<not> room s 1 \<Longrightarrow>
      \<exists>s'. out_Next ops s = Some (None, s') \<and> ok s' \<and> content s' = content s \<and> (\<forall>k. room s' k = room s k) \<and> rest s' = rest s"
    and store_nil: "ok s \<Longrightarrow> out_store ops p [] s = Some s"
    and store_block: "ok s \<Longrightarrow> n \<le> last_block s \<Longrightarrow> length bs \<le> n \<Longrightarrow>
      \<exists>s'. out_store ops (limit s - int n) bs s = Some s' \<and> ok s' \<and>
        content s' = take (length (content s) - n) (content s) @ bs @ drop (length (content s) - n + length bs) (content s) \<and>
        limit s' = limit s \<and> last_block s' = last_block s \<and> (\<forall>k. room s' k = room s k) \<and> rest s' = rest s"
    and backup: "ok s \<Longrightarrow> 0 < n \<Longrightarrow> n \<le> last_block s \<Longrightarrow>
      \<exists>s'. out_BackUp ops (int n) s = Some s' \<and> ok s' \<and> content s' = take (length (content s) - n) (content s) \<and> rest s' = rest s"
begin

text \<open>\<open>written s\<close>: the bytes written so far; \<open>start\<close> is what the stream held before the writer.\<close>

definition written :: "'s CodedOutputStream \<Rightarrow> u8 list" where
  "written s = take (length (content (o_output s)) - nat (o_buffer_size s)) (content (o_output s))"

definition inv :: "nat \<Rightarrow> 's CodedOutputStream \<Rightarrow> bool" where
  "inv start s \<longleftrightarrow> ok (o_output s) \<and> 0 \<le> o_buffer_size s \<and>
     (o_buffer_size s = 0 \<or> o_buffer_size s \<le> int (last_block (o_output s)) \<and> o_buffer s = limit (o_output s) - o_buffer_size s) \<and>
     o_total_bytes s + int start = int (length (content (o_output s)))"

definition fits :: "'s CodedOutputStream \<Rightarrow> nat \<Rightarrow> bool" where
  "fits s n \<longleftrightarrow> room (o_output s) (n - nat (o_buffer_size s))"

text \<open>
  \<open>wrote start s b s'\<close>: between \<open>s\<close> and \<open>s'\<close> exactly the bytes \<open>b\<close> were appended if they fit, and
  otherwise an error was reported; what was written before is undisturbed, and an error is never
  forgotten. \<open>writes\<close> is the same of an operation.
\<close>

definition wrote :: "nat \<Rightarrow> 's CodedOutputStream \<Rightarrow> u8 list \<Rightarrow> 's CodedOutputStream \<Rightarrow> bool" where
  "wrote start s b s' \<longleftrightarrow> inv start s' \<and> rest (o_output s') = rest (o_output s) \<and> prefix (written s) (written s') \<and>
     length (written s') \<le> length (written s) + length b \<and> (o_had_error s \<longrightarrow> o_had_error s') \<and>
     (fits s (length b) \<longrightarrow> written s' = written s @ b \<and> o_had_error s' = o_had_error s \<and> (\<forall>k. fits s' k = fits s (length b + k))) \<and>
     (\<not> fits s (length b) \<longrightarrow> o_had_error s')"

definition writes :: "nat \<Rightarrow> ('s CodedOutputStream \<Rightarrow> 's CodedOutputStream option) \<Rightarrow> u8 list \<Rightarrow> bool" where
  "writes start f b \<longleftrightarrow>
     (\<forall>s. inv start s \<longrightarrow> length (written s) + length b < 2 ^ 30 \<longrightarrow> (\<exists>s'. f s = Some s' \<and> wrote start s b s'))"

lemma fits_mono: "inv start s \<Longrightarrow> fits s n \<Longrightarrow> m \<le> n \<Longrightarrow> fits s m"
  unfolding fits_def inv_def using room_mono diff_le_mono by blast

lemma wrote_nil: "inv start s \<Longrightarrow> wrote start s [] s"
  by (auto simp: wrote_def fits_def inv_def room_0)

lemma wrote_trans:
  assumes "inv start s" and s1: "wrote start s b1 s1" and s2: "wrote start s1 b2 s2"
  shows "wrote start s (b1 @ b2) s2"
proof -
  have pre: "prefix (written s) (written s2)"
    using s1 s2 unfolding wrote_def by (blast intro: prefix_order.trans)
  have fit: "written s2 = written s @ b1 @ b2 \<and> o_had_error s2 = o_had_error s \<and> (\<forall>k. fits s2 k = fits s (length (b1 @ b2) + k))"
    if f: "fits s (length (b1 @ b2))"
  proof -
    have f1: "fits s (length b1)" by (rule fits_mono [OF assms(1) f]) simp
    then have w1: "written s1 = written s @ b1" "o_had_error s1 = o_had_error s" "\<And>k. fits s1 k = fits s (length b1 + k)"
      using s1 unfolding wrote_def by blast+
    then have "fits s1 (length b2)" using f by simp
    then show ?thesis using w1 s2 unfolding wrote_def by (simp add: add.assoc)
  qed
  have "o_had_error s2" if f: "\<not> fits s (length (b1 @ b2))"
  proof (cases "fits s (length b1)")
    case True
    then have "\<not> fits s1 (length b2)" using f s1 unfolding wrote_def by simp
    then show ?thesis using s2 unfolding wrote_def by blast
  next
    case False
    then show ?thesis using s1 s2 unfolding wrote_def by blast
  qed
  then show ?thesis using pre fit s1 s2 unfolding wrote_def by auto
qed

lemma writes_nil: "writes start Some []"
  unfolding writes_def using wrote_nil by blast

lemma writes_bind:
  assumes f: "writes start f b1" and g: "writes start g b2"
  shows "writes start (\<lambda>s. Option.bind (f s) g) (b1 @ b2)"
  unfolding writes_def
proof (intro allI impI)
  fix s assume s: "inv start s" "length (written s) + length (b1 @ b2) < 2 ^ 30"
  obtain s1 where s1: "f s = Some s1" "wrote start s b1 s1" using f s unfolding writes_def by fastforce
  then have "inv start s1" "length (written s1) + length b2 < 2 ^ 30" using s(2) unfolding wrote_def by auto
  then obtain s2 where "g s1 = Some s2" "wrote start s1 b2 s2" using g unfolding writes_def by blast
  then show "\<exists>s'. Option.bind (f s) g = Some s' \<and> wrote start s (b1 @ b2) s'" using s1 wrote_trans [OF s(1)] by simp
qed

lemma writes_if: "writes start f b \<Longrightarrow> writes start (\<lambda>s. if c then f s else Some s) (if c then b else [])"
  using writes_nil by (cases c) simp_all

lemma writes_foldM: "(\<And>x. writes start (f x) (b x)) \<Longrightarrow> writes start (foldM f xs) (concat (map b xs))"
proof (induction xs)
  case Nil
  have "foldM f [] = Some" by (rule ext) simp
  then show ?case by (simp only: list.map concat.simps writes_nil)
next
  case (Cons x xs)
  have "foldM f (x # xs) = (\<lambda>s. Option.bind (f x s) (foldM f xs))" by (rule ext) simp
  then show ?case using writes_bind [OF Cons.prems Cons.IH [OF Cons.prems], of x] by simp
qed

subsection \<open>The operations of the writer\<close>

lemma COS_Refresh_ok:
  assumes "inv start s" and "o_buffer_size s = 0" and "length (written s) < 2 ^ 30"
  shows "if fits s 1 then \<exists>s'. COS_Refresh ops s = Some (True, s') \<and> inv start s' \<and> 0 < o_buffer_size s' \<and> written s' = written s \<and>
      (\<forall>k. fits s' k = fits s k) \<and> o_had_error s' = o_had_error s \<and> rest (o_output s') = rest (o_output s)
    else \<exists>s'. COS_Refresh ops s = Some (False, s') \<and> inv start s' \<and> o_buffer_size s' = 0 \<and> written s' = written s \<and>
      (\<forall>k. fits s' k = fits s k) \<and> o_had_error s' \<and> rest (o_output s') = rest (o_output s)"
proof (cases "room (o_output s) 1")
  case True
  let ?out = "o_output s"
  have s: "ok ?out" "written s = content ?out" "o_total_bytes s + int start = int (length (content ?out))"
    using assms by (auto simp: inv_def written_def)
  obtain block out where out: "out_Next ops ?out = Some (Some (limit out - int (length block), int (length block)), out)" "ok out"
    "block \<noteq> []" "content out = content ?out @ block" "length block \<le> last_block out" "length (content out) < 2 ^ 31"
    "\<forall>k. room out k = room ?out (length block + k)" "rest out = rest ?out"
    using next_block [OF s(1) True] s(2) assms(3) by metis
  have room: "room out (k - length block) = room ?out k" for k
  proof (cases "length block \<le> k")
    case True
    then show ?thesis using out(7) by simp
  next
    case False
    have "room ?out (length block)" using out(2,7) room_0 [of out] by (metis add.right_neutral)
    then show ?thesis using False out(2) room_0 [of out] room_mono [OF s(1), of "length block" k] by simp
  qed
  have "o_total_bytes s + int (length block) \<le> INT_MAX" using s(3) out(4,6) by (simp add: INT_MAX_def)
  then have "COS_Refresh ops s = Some (True, s\<lparr>o_output := out, o_buffer := limit out - int (length block), o_buffer_size := int (length block),
      o_total_bytes := o_total_bytes s + int (length block)\<rparr>)"
    using out(1) by (simp add: COS_Refresh_def)
  then show ?thesis using True s(3) out assms(2) room by (simp add: fits_def inv_def written_def)
next
  case False
  have "ok (o_output s)" using assms(1) by (simp add: inv_def)
  then obtain out where "out_Next ops (o_output s) = Some (None, out)" "ok out" "content out = content (o_output s)"
    "\<forall>k. room out k = room (o_output s) k" "rest out = rest (o_output s)"
    using next_none False by blast
  then show ?thesis using False assms by (simp add: fits_def inv_def written_def COS_Refresh_def)
qed

text \<open>Storing at the cursor and advancing over what was stored.\<close>

lemma store_advance:
  assumes "inv start s" and "int (length bs) \<le> o_buffer_size s"
  shows "\<exists>s1. store_at_buffer ops bs s = Some s1 \<and> o_buffer_size s1 = o_buffer_size s \<and>
    wrote start s bs (COS_Advance (int (length bs)) s1)"
proof -
  let ?out = "o_output s" and ?n = "nat (o_buffer_size s)"
  have s: "ok ?out" "o_total_bytes s + int start = int (length (content ?out))" using assms(1) by (auto simp: inv_def)
  have k: "k - nat (o_buffer_size s - int (length bs)) = length bs + k - ?n" for k using assms(2) by linarith
  have f: "fits s (length bs)" using assms s(1) room_0 by (simp add: fits_def)
  show ?thesis
  proof (cases "o_buffer_size s = 0")
    case True
    then have "bs = []" using assms(2) by simp
    moreover have "COS_Advance 0 s = s" by (simp add: COS_Advance_def)
    ultimately show ?thesis using assms(1) s(1) wrote_nil by (simp add: store_at_buffer_def store_nil)
  next
    case False
    then have n: "?n \<le> last_block ?out" "o_buffer s = limit ?out - int ?n" "0 < ?n" "int ?n = o_buffer_size s"
      using assms(1) by (auto simp: inv_def)
    have le: "?n \<le> length (content ?out)" using n(1) last_block_le [OF s(1)] by simp
    have b: "length bs \<le> ?n" using assms(2) by simp
    obtain out where out: "out_store ops (limit ?out - int ?n) bs ?out = Some out" "ok out"
      "content out = take (length (content ?out) - ?n) (content ?out) @ bs @ drop (length (content ?out) - ?n + length bs) (content ?out)"
      "limit out = limit ?out" "last_block out = last_block ?out" "\<forall>k. room out k = room ?out k" "rest out = rest ?out"
      using store_block [OF s(1) n(1) b] by blast
    let ?s = "COS_Advance (int (length bs)) (s\<lparr>o_output := out\<rparr>)"
    have "store_at_buffer ops bs s = Some (s\<lparr>o_output := out\<rparr>)" using out(1) n(2) by (simp add: store_at_buffer_def)
    moreover have "length (content out) = length (content ?out)" using out(3) le b by simp
    moreover from this have "written ?s = written s @ bs"
      using le b n(4) by (simp add: written_def COS_Advance_def out(3) nat_diff_distrib)
    moreover have "inv start ?s"
      using calculation(2) out(2,4,5) s n assms(2) by (auto simp: inv_def COS_Advance_def)
    ultimately show ?thesis using f out(6,7) by (simp add: wrote_def) (simp add: fits_def COS_Advance_def k)
  qed
qed

lemma store_refresh:
  assumes s: "inv start s" and n: "o_buffer_size s < int (length data)" and len: "length (written s) + length data < 2 ^ 30"
  obtains (more) s1 s2 where "store_at_buffer ops (take (nat (o_buffer_size s)) data) s = Some s1" "COS_Refresh ops s1 = Some (True, s2)"
      "0 < o_buffer_size s2" "wrote start s (take (nat (o_buffer_size s)) data) s2"
    | (full) s1 s2 where "store_at_buffer ops (take (nat (o_buffer_size s)) data) s = Some s1" "COS_Refresh ops s1 = Some (False, s2)"
      "wrote start s data s2"
proof -
  let ?d = "take (nat (o_buffer_size s)) data"
  have "int (nat (o_buffer_size s)) = o_buffer_size s" using s by (simp add: inv_def)
  then have d: "int (length ?d) = o_buffer_size s" using n by simp
  obtain s1 where s1: "store_at_buffer ops ?d s = Some s1" "o_buffer_size s1 = o_buffer_size s" "wrote start s ?d (COS_Advance (o_buffer_size s) s1)"
    using store_advance [OF s, of ?d] unfolding d by blast
  let ?s = "COS_Advance (o_buffer_size s) s1"
  have z: "inv start ?s" "o_buffer_size ?s = 0" "length (written ?s) < 2 ^ 30"
    using s1(2,3) d len n by (auto simp: wrote_def COS_Advance_def)
  have ref: "COS_Refresh ops ?s = COS_Refresh ops s1"
    by (auto simp: COS_Refresh_def COS_Advance_def split: bind_splits option.splits)
  have f: "fits s (length ?d)" using s d room_0 by (simp add: fits_def inv_def)
  then have fit: "fits ?s k = fits s (length ?d + k)" for k using s1(3) unfolding wrote_def by blast
  show thesis
  proof (cases "fits ?s 1")
    case True
    then obtain s2 where s2: "COS_Refresh ops s1 = Some (True, s2)" "inv start s2" "0 < o_buffer_size s2" "written s2 = written ?s"
      "\<forall>k. fits s2 k = fits ?s k" "o_had_error s2 = o_had_error ?s" "rest (o_output s2) = rest (o_output ?s)"
      using COS_Refresh_ok [OF z] ref by auto
    then have "wrote start s ?d s2" using s1(3) f unfolding wrote_def by simp
    then show thesis using more s1(1) s2 by blast
  next
    case False
    then obtain s2 where s2: "COS_Refresh ops s1 = Some (False, s2)" "inv start s2" "written s2 = written ?s"
      "o_had_error s2" "rest (o_output s2) = rest (o_output ?s)"
      using COS_Refresh_ok [OF z] ref by auto
    have "length ?d + 1 \<le> length data" using d n by linarith
    then have "\<not> fits s (length data)" using False fit fits_mono [OF s] by blast
    then have "wrote start s data s2" using s1(3) s2 d n unfolding wrote_def by auto
    then show thesis using full s1(1) s2(1) by blast
  qed
qed

lemma WriteRaw_loop_ok:
  assumes "inv start s" and "length (written s) + length data < 2 ^ 30" and "length data + (if o_buffer_size s = 0 then 1 else 0) < fuel"
  shows "\<exists>s'. WriteRaw_loop ops fuel data s = Some s' \<and> wrote start s data s'"
  using assms
proof (induction fuel arbitrary: data s)
  case (Suc fuel)
  show ?case
  proof (cases "o_buffer_size s < int (length data)")
    case False
    then show ?thesis using store_advance [OF Suc.prems(1), of data] by fastforce
  next
    case True
    let ?n = "nat (o_buffer_size s)"
    have n: "int ?n = o_buffer_size s" "0 \<le> o_buffer_size s" using Suc.prems(1) by (auto simp: inv_def)
    from Suc.prems(1) True Suc.prems(2) show ?thesis
    proof (cases rule: store_refresh)
      case (more s1 s2)
      then have s2: "inv start s2" "length (written s2) + length (drop ?n data) < 2 ^ 30"
        using Suc.prems(2) True n unfolding wrote_def by auto
      have "length (drop ?n data) + (if o_buffer_size s2 = 0 then 1 else 0) < fuel"
        using Suc.prems(3) more(3) True n by (cases "o_buffer_size s = 0") auto
      then obtain s3 where s3: "WriteRaw_loop ops fuel (drop ?n data) s2 = Some s3" "wrote start s2 (drop ?n data) s3"
        using Suc.IH [OF s2] by blast
      have "wrote start s data s3" using wrote_trans [OF Suc.prems(1) more(4) s3(2)] by simp
      then show ?thesis using more(1,2) s3(1) True by simp
    next
      case (full s1 s2)
      then show ?thesis using True by simp
    qed
  qed
qed simp

lemma WriteRaw_writes: "writes start (WriteRaw ops data) data"
  unfolding writes_def WriteRaw_def using WriteRaw_loop_ok [of start _ data "length data + 2"] by simp

text \<open>The fast paths: enough room in the block for the longest encoding.\<close>

lemma fast_path:
  assumes "int (length b) \<le> o_buffer_size s"
  shows "do { s \<leftarrow> store_at_buffer ops b s; Some (COS_Advance (int (length b)) s) } = WriteRaw ops b s"
  using assms by (simp add: WriteRaw_def)

end

end
