(* ===== verification/OutFields.thy ===== *)
theory OutFields
  imports OutStream
begin

text \<open>
  The two streams meet the contract of theory OutStream, and the operations of the writer and
  the field writers of \<^verbatim>\<open>wire_format_lite.cc\<close> and
  \<^verbatim>\<open>wire_format.cc\<close> write, through any buffers, the bytes their
  \<open>...ToArray\<close> versions write to an array.
\<close>

subsection \<open>The array stream\<close>

definition array_ok :: "ArrayOutputStream \<Rightarrow> bool" where
  "array_ok s \<longleftrightarrow> 0 \<le> ao_data s \<and> 0 \<le> ao_position s \<and> ao_position s \<le> ao_size s \<and> ao_size s \<le> INT_MAX \<and>
     ao_data s + ao_size s \<le> int (length (ao_mem s)) \<and> 0 \<le> ao_last_returned_size s \<and>
     ao_last_returned_size s \<le> ao_position s \<and> (ao_block_size s > 0 \<or> ao_size s = 0)"

definition array_content :: "ArrayOutputStream \<Rightarrow> u8 list" where
  "array_content s = take (nat (ao_position s)) (drop (nat (ao_data s)) (ao_mem s))"

definition array_room :: "ArrayOutputStream \<Rightarrow> nat \<Rightarrow> bool" where
  "array_room s n \<longleftrightarrow> int n \<le> ao_size s - ao_position s"

text \<open>The memory before and behind the array, and the place of the array.\<close>

definition array_rest :: "ArrayOutputStream \<Rightarrow> u8 list \<times> u8 list \<times> int \<times> int" where
  "array_rest s = (take (nat (ao_data s)) (ao_mem s), drop (nat (ao_data s + ao_size s)) (ao_mem s), ao_data s, ao_size s)"

lemma take_split: "n \<le> m \<Longrightarrow> take m xs = take n xs @ take (m - n) (drop n xs)"
  by (metis le_add_diff_inverse take_add)

lemma array_content_length: "array_ok s \<Longrightarrow> length (array_content s) = nat (ao_position s)"
  by (auto simp: array_ok_def array_content_def)

lemma AOS_Next_block:
  assumes "array_ok s" and "array_room s 1"
  shows "\<exists>block s'. AOS_Next s = Some (Some (ao_data s' + ao_position s' - int (length block), int (length block)), s') \<and> array_ok s' \<and>
    block \<noteq> [] \<and> array_content s' = array_content s @ block \<and> length block \<le> nat (ao_last_returned_size s') \<and>
    length (array_content s') < 2 ^ 31 \<and> (\<forall>k. array_room s' k = array_room s (length block + k)) \<and> array_rest s' = array_rest s"
proof -
  let ?n = "min (ao_block_size s) (ao_size s - ao_position s)"
  let ?s = "s\<lparr>ao_last_returned_size := ?n, ao_position := ao_position s + ?n\<rparr>"
  have lt: "ao_position s < ao_size s" using assms(2) by (simp add: array_room_def)
  then have n: "0 < ?n" "?n \<le> ao_size s - ao_position s" using assms(1) by (auto simp: array_ok_def)
  have ok: "array_ok ?s" using assms(1) n by (auto simp: array_ok_def)
  let ?block = "take (nat ?n) (drop (nat (ao_position s)) (drop (nat (ao_data s)) (ao_mem s)))"
  have len: "length ?block = nat ?n" using assms(1) n by (auto simp: array_ok_def)
  have "nat (ao_position s + ?n) = nat (ao_position s) + nat ?n" using assms(1) n by (simp add: array_ok_def nat_add_distrib)
  then have c: "array_content ?s = array_content s @ ?block" by (simp add: array_content_def take_add)
  have "length (array_content ?s) < 2 ^ 31" using array_content_length [OF ok] ok by (auto simp: array_ok_def INT_MAX_def)
  moreover have "\<forall>k. array_room ?s k = array_room s (length ?block + k)" using n unfolding len by (auto simp: array_room_def)
  moreover have "AOS_Next s = Some (Some (ao_data ?s + ao_position ?s - int (length ?block), int (length ?block)), ?s)"
    unfolding len using lt n by (simp add: AOS_Next_def Let_def)
  moreover have "?block \<noteq> []" using len n by (metis list.size(3) zero_less_nat_eq less_irrefl)
  moreover have "length ?block \<le> nat (ao_last_returned_size ?s)" unfolding len by simp
  moreover have "array_rest ?s = array_rest s" by (simp add: array_rest_def)
  ultimately show ?thesis using ok c by blast
qed

lemma AOS_store_block:
  assumes "array_ok s" and "n \<le> nat (ao_last_returned_size s)" and "length bs \<le> n"
  shows "\<exists>s'. AOS_store (ao_data s + ao_position s - int n) bs s = Some s' \<and> array_ok s' \<and>
    array_content s' = take (length (array_content s) - n) (array_content s) @ bs @
      drop (length (array_content s) - n + length bs) (array_content s) \<and>
    ao_data s' + ao_position s' = ao_data s + ao_position s \<and> nat (ao_last_returned_size s') = nat (ao_last_returned_size s) \<and>
    (\<forall>k. array_room s' k = array_room s k) \<and> array_rest s' = array_rest s"
proof -
  define d p where dp: "d = nat (ao_data s)" "p = nat (ao_position s)"
  have s: "ao_data s = int d" "ao_position s = int p" "n \<le> p" "int p \<le> ao_size s" "d + nat (ao_size s) \<le> length (ao_mem s)" "0 \<le> ao_size s"
    using assms by (auto simp: array_ok_def dp)
  define mem where "mem = take (d + (p - n)) (ao_mem s) @ bs @ drop (d + (p - n) + length bs) (ao_mem s)"
  have a: "nat (int d + int p - int n) = d + (p - n)" "0 \<le> int d + int p - int n" using s(3) by auto
  have fit: "d + (p - n) + length bs \<le> length (ao_mem s)" using s assms(3) by linarith
  have run: "AOS_store (ao_data s + ao_position s - int n) bs s = Some (s\<lparr>ao_mem := mem\<rparr>)"
  proof (cases "bs = []")
    case True
    then show ?thesis by (simp add: AOS_store_def mem_store_def mem_def)
  next
    case False
    have "int d + int p - int n + int (length bs) \<le> int (length (ao_mem s))" using fit s(3) by linarith
    then show ?thesis using False a by (simp add: AOS_store_def mem_store_def s(1,2) mem_def)
  qed
  have len: "length mem = length (ao_mem s)" using fit by (simp add: mem_def)
  have pre: "take d mem = take d (ao_mem s)" using s by (simp add: mem_def)
  have post: "drop (d + nat (ao_size s)) mem = drop (d + nat (ao_size s)) (ao_mem s)"
  proof -
    have "d + (p - n) + length bs \<le> d + nat (ao_size s)" using s(3,4) assms(3) by linarith
    then show ?thesis using fit by (simp add: mem_def add.commute)
  qed
  have mid: "take p (drop d mem) = take (p - n) (take p (drop d (ao_mem s))) @ bs @ drop (p - n + length bs) (take p (drop d (ao_mem s)))"
  proof -
    have "p - (p - n + length bs) = p - (p - n) - length bs" by simp
    moreover have "length (take (p - n) (drop d (ao_mem s))) = p - n" using fit by simp
    moreover have "drop d mem = take (p - n) (drop d (ao_mem s)) @ bs @ drop (p - n + length bs) (drop d (ao_mem s))"
      using fit by (simp add: mem_def take_drop add.commute add.left_commute)
    ultimately show ?thesis using s(3) assms(3) by (simp add: drop_take)
  qed
  have "nat (int d + ao_size s) = d + nat (ao_size s)" using s(6) by simp
  then have "array_rest (s\<lparr>ao_mem := mem\<rparr>) = array_rest s" using pre post s(1) by (simp add: array_rest_def)
  moreover have "length (array_content s) = p" using array_content_length [OF assms(1)] by (simp add: dp)
  then have "array_content (s\<lparr>ao_mem := mem\<rparr>) = take (length (array_content s) - n) (array_content s) @ bs @
      drop (length (array_content s) - n + length bs) (array_content s)"
    using mid by (simp add: array_content_def dp)
  moreover have "array_ok (s\<lparr>ao_mem := mem\<rparr>)" using assms(1) len by (simp add: array_ok_def)
  ultimately show ?thesis using run by (simp add: array_room_def)
qed

interpretation aos: zero_copy_output array_ops array_ok array_content "\<lambda>s. ao_data s + ao_position s" "\<lambda>s. nat (ao_last_returned_size s)"
  array_room array_rest
proof
  fix s :: ArrayOutputStream and n m :: nat and bs :: "u8 list" and p :: int
  assume ok: "array_ok s"
  show "nat (ao_last_returned_size s) \<le> length (array_content s)"
    using ok array_content_length [OF ok] by (simp add: array_ok_def nat_mono)
  show "array_room s 0" using ok by (simp add: array_room_def array_ok_def)
  show "array_room s n \<Longrightarrow> m \<le> n \<Longrightarrow> array_room s m" by (simp add: array_room_def)
  show "out_store array_ops p [] s = Some s" by (simp add: array_ops_def AOS_store_def mem_store_def)
  show "array_room s 1 \<Longrightarrow> length (array_content s) < 2 ^ 30 \<Longrightarrow> \<exists>block s'.
      out_Next array_ops s = Some (Some (ao_data s' + ao_position s' - int (length block), int (length block)), s') \<and> array_ok s' \<and>
      block \<noteq> [] \<and> array_content s' = array_content s @ block \<and> length block \<le> nat (ao_last_returned_size s') \<and>
      length (array_content s') < 2 ^ 31 \<and> (\<forall>k. array_room s' k = array_room s (length block + k)) \<and> array_rest s' = array_rest s"
    using AOS_Next_block [OF ok] by (simp add: array_ops_def)
  show "\<not> array_room s 1 \<Longrightarrow> \<exists>s'. out_Next array_ops s = Some (None, s') \<and> array_ok s' \<and> array_content s' = array_content s \<and>
      (\<forall>k. array_room s' k = array_room s k) \<and> array_rest s' = array_rest s"
    using ok by (auto simp: array_ops_def AOS_Next_def array_room_def array_ok_def array_content_def array_rest_def)
  show "n \<le> nat (ao_last_returned_size s) \<Longrightarrow> length bs \<le> n \<Longrightarrow> \<exists>s'.
      out_store array_ops (ao_data s + ao_position s - int n) bs s = Some s' \<and> array_ok s' \<and>
      array_content s' = take (length (array_content s) - n) (array_content s) @ bs @
        drop (length (array_content s) - n + length bs) (array_content s) \<and>
      ao_data s' + ao_position s' = ao_data s + ao_position s \<and> nat (ao_last_returned_size s') = nat (ao_last_returned_size s) \<and>
      (\<forall>k. array_room s' k = array_room s k) \<and> array_rest s' = array_rest s"
    using AOS_store_block [OF ok] by (simp add: array_ops_def)
  show "0 < n \<Longrightarrow> n \<le> nat (ao_last_returned_size s) \<Longrightarrow> \<exists>s'. out_BackUp array_ops (int n) s = Some s' \<and> array_ok s' \<and>
      array_content s' = take (length (array_content s) - n) (array_content s) \<and> array_rest s' = array_rest s"
  proof -
    assume n: "0 < n" "n \<le> nat (ao_last_returned_size s)"
    then have "nat (ao_position s - int n) = nat (ao_position s) - n" "0 < ao_last_returned_size s" "int n \<le> ao_last_returned_size s"
      using ok by (auto simp: array_ok_def nat_diff_distrib)
    then show ?thesis using ok n array_content_length [OF ok]
      by (auto simp: array_ops_def AOS_BackUp_def array_ok_def array_content_def array_rest_def min_def)
  qed
qed


subsection \<open>The string stream\<close>

text \<open>
  A string is consistent when its capacity holds it and fits an \<open>int\<close>; that is all that is asked
  of the capacities it chooses (\<open>capacities_ok\<close>).
\<close>

definition string_ok :: "StringOutputStream \<Rightarrow> bool" where
  "string_ok s \<longleftrightarrow> length (so_target s) \<le> so_capacity s \<and> int (so_capacity s) \<le> INT_MAX"

definition capacities_ok :: "(nat \<Rightarrow> nat) \<Rightarrow> bool" where
  "capacities_ok grow \<longleftrightarrow> (\<forall>n. int (grow n) \<le> INT_MAX)"

lemma string_resize_target: "so_target (string_resize grow n s) = take n (so_target s) @ replicate (n - length (so_target s)) 0"
  by (simp add: string_resize_def)

lemma string_resize_ok: "capacities_ok grow \<Longrightarrow> string_ok s \<Longrightarrow> int n \<le> INT_MAX \<Longrightarrow> string_ok (string_resize grow n s)"
  by (auto simp: string_ok_def string_resize_def capacities_ok_def max_def)

lemma SOS_Next_grows:
  assumes "capacities_ok grow" and "string_ok s" and "length (so_target s) < 2 ^ 30"
  obtains n where "SOS_Next grow s = Some (Some (int (length (so_target s)), int n - int (length (so_target s))), string_resize grow n s)"
    "length (so_target s) < n" "int n \<le> INT_MAX"
proof -
  let ?n = "if length (so_target s) < so_capacity s then so_capacity s else max (2 * length (so_target s)) 16"
  have n: "length (so_target s) < ?n" "int ?n \<le> INT_MAX" using assms by (auto simp: string_ok_def INT_MAX_def)
  have len: "length (so_target (string_resize grow ?n s)) = ?n" using n(1) by (simp add: string_resize_target)
  have nat16: "nat (max (int (length (so_target s)) * 2) 16) = max (2 * length (so_target s)) 16" by (simp add: max_def nat_mult_distrib)
  have "SOS_Next grow s = Some (Some (int (length (so_target s)), int ?n - int (length (so_target s))), string_resize grow ?n s)"
  proof (cases "length (so_target s) < so_capacity s")
    case True
    then show ?thesis using n len assms(3) by (simp add: SOS_Next_def Let_def INT_MAX_def)
  next
    case False
    then have "so_capacity s \<le> length (so_target s)" by simp
    then show ?thesis using n len assms(3) nat16 by (simp add: SOS_Next_def Let_def INT_MAX_def kMinimumSize_def)
  qed
  then show thesis using that n by blast
qed

lemma mem_store_end:
  assumes "n \<le> length xs" and "length bs \<le> n"
  shows "mem_store (int (length xs) - int n) bs xs = Some (take (length xs - n) xs @ bs @ drop (length xs - n + length bs) xs)"
proof -
  have "nat (int (length xs) - int n) = length xs - n" by (simp add: nat_diff_distrib)
  then show ?thesis using assms by (cases "bs = []") (simp_all add: mem_store_def)
qed

lemma string_output:
  assumes "capacities_ok grow"
  shows "zero_copy_output (string_ops grow) string_ok so_target (\<lambda>s. int (length (so_target s))) (\<lambda>s. length (so_target s))
    (\<lambda>s n. True) (\<lambda>s. ())"
proof
  fix s :: StringOutputStream and n m :: nat and bs :: "u8 list" and p :: int
  assume ok: "string_ok s"
  show "length (so_target s) \<le> length (so_target s)" by simp
  show "True" by simp
  show "True" by simp
  show "out_store (string_ops grow) p [] s = Some s" by (simp add: string_ops_def SOS_store_def mem_store_def)
  show "\<not> True \<Longrightarrow> \<exists>s'. out_Next (string_ops grow) s = Some (None, s') \<and> string_ok s' \<and> so_target s' = so_target s \<and>
    (\<forall>k. True = True) \<and> () = ()" by simp
  show "length (so_target s) < 2 ^ 30 \<Longrightarrow> \<exists>block s'.
      out_Next (string_ops grow) s = Some (Some (int (length (so_target s')) - int (length block), int (length block)), s') \<and> string_ok s' \<and>
      block \<noteq> [] \<and> so_target s' = so_target s @ block \<and> length block \<le> length (so_target s') \<and>
      length (so_target s') < 2 ^ 31 \<and> (\<forall>k. True = True) \<and> () = ()"
  proof -
    assume "length (so_target s) < 2 ^ 30"
    with assms ok obtain n where n: "SOS_Next grow s = Some (Some (int (length (so_target s)), int n - int (length (so_target s))), string_resize grow n s)"
      "length (so_target s) < n" "int n \<le> INT_MAX" by (rule SOS_Next_grows)
    let ?block = "replicate (n - length (so_target s)) (0 :: u8)"
    show ?thesis
      using n string_resize_ok [OF assms ok n(3)]
      by (intro exI [of _ ?block] exI [of _ "string_resize grow n s"])
        (auto simp: string_ops_def string_resize_target INT_MAX_def)
  qed
  show "n \<le> length (so_target s) \<Longrightarrow> length bs \<le> n \<Longrightarrow> \<exists>s'.
      out_store (string_ops grow) (int (length (so_target s)) - int n) bs s = Some s' \<and> string_ok s' \<and>
      so_target s' = take (length (so_target s) - n) (so_target s) @ bs @ drop (length (so_target s) - n + length bs) (so_target s) \<and>
      int (length (so_target s')) = int (length (so_target s)) \<and> length (so_target s') = length (so_target s) \<and> (\<forall>k. True = True) \<and> () = ()"
    using ok by (auto simp: string_ops_def SOS_store_def mem_store_end string_ok_def)
  show "0 < n \<Longrightarrow> n \<le> length (so_target s) \<Longrightarrow> \<exists>s'. out_BackUp (string_ops grow) (int n) s = Some s' \<and> string_ok s' \<and>
      so_target s' = take (length (so_target s) - n) (so_target s) \<and> () = ()"
    using ok string_resize_ok [OF assms ok, of "length (so_target s) - n"]
    by (auto simp: string_ops_def SOS_BackUp_def string_resize_target string_ok_def INT_MAX_def)
qed

text \<open>The capacities of the class that doubles, within \<open>int\<close>, as an instance.\<close>

definition doubling :: "nat \<Rightarrow> nat" where "doubling n = min (2 * n) (nat INT_MAX)"

lemma doubling_ok [simp]: "capacities_ok doubling"
  by (simp add: capacities_ok_def doubling_def INT_MAX_def)

interpretation sos: zero_copy_output "string_ops doubling" string_ok so_target "\<lambda>s. int (length (so_target s))" "\<lambda>s. length (so_target s)"
  "\<lambda>s n. True" "\<lambda>s. ()"
  by (rule string_output) simp


subsection \<open>The fields\<close>

definition WFL_WriteTag :: "'s output_ops \<Rightarrow> u32 \<Rightarrow> u32 \<Rightarrow> 's CodedOutputStream \<Rightarrow> 's CodedOutputStream option" where
  "WFL_WriteTag ops field_number type = COS_WriteTag ops (MakeTag field_number type)"

definition WriteInt32 :: "'s output_ops \<Rightarrow> u32 \<Rightarrow> u32 \<Rightarrow> 's CodedOutputStream \<Rightarrow> 's CodedOutputStream option" where
  "WriteInt32 ops n v s = do { s \<leftarrow> WFL_WriteTag ops n WIRETYPE_VARINT s; WriteVarint32SignExtended ops v s }"

definition WriteInt64 :: "'s output_ops \<Rightarrow> u32 \<Rightarrow> u64 \<Rightarrow> 's CodedOutputStream \<Rightarrow> 's CodedOutputStream option" where
  "WriteInt64 ops n v s = do { s \<leftarrow> WFL_WriteTag ops n WIRETYPE_VARINT s; WriteVarint64 ops v s }"

definition WriteUInt32 :: "'s output_ops \<Rightarrow> u32 \<Rightarrow> u32 \<Rightarrow> 's CodedOutputStream \<Rightarrow> 's CodedOutputStream option" where
  "WriteUInt32 ops n v s = do { s \<leftarrow> WFL_WriteTag ops n WIRETYPE_VARINT s; WriteVarint32 ops v s }"

definition WriteUInt64 :: "'s output_ops \<Rightarrow> u32 \<Rightarrow> u64 \<Rightarrow> 's CodedOutputStream \<Rightarrow> 's CodedOutputStream option" where
  "WriteUInt64 ops n v s = do { s \<leftarrow> WFL_WriteTag ops n WIRETYPE_VARINT s; WriteVarint64 ops v s }"

definition WriteFixed32 :: "'s output_ops \<Rightarrow> u32 \<Rightarrow> u32 \<Rightarrow> 's CodedOutputStream \<Rightarrow> 's CodedOutputStream option" where
  "WriteFixed32 ops n v s = do { s \<leftarrow> WFL_WriteTag ops n WIRETYPE_FIXED32 s; WriteLittleEndian32 ops v s }"

definition WriteFixed64 :: "'s output_ops \<Rightarrow> u32 \<Rightarrow> u64 \<Rightarrow> 's CodedOutputStream \<Rightarrow> 's CodedOutputStream option" where
  "WriteFixed64 ops n v s = do { s \<leftarrow> WFL_WriteTag ops n WIRETYPE_FIXED64 s; WriteLittleEndian64 ops v s }"

text \<open>A \<open>float\<close> is its bit pattern here, as everywhere in the message classes.\<close>

definition WriteFloat :: "'s output_ops \<Rightarrow> u32 \<Rightarrow> u32 \<Rightarrow> 's CodedOutputStream \<Rightarrow> 's CodedOutputStream option" where
  "WriteFloat ops n v s = do { s \<leftarrow> WFL_WriteTag ops n WIRETYPE_FIXED32 s; WriteLittleEndian32 ops v s }"

definition WriteBool :: "'s output_ops \<Rightarrow> u32 \<Rightarrow> bool \<Rightarrow> 's CodedOutputStream \<Rightarrow> 's CodedOutputStream option" where
  "WriteBool ops n v s = do { s \<leftarrow> WFL_WriteTag ops n WIRETYPE_VARINT s; WriteVarint32 ops (if v then 1 else 0) s }"

text \<open>The \<open>GOOGLE_CHECK\<close> of the size comes after the tag.\<close>

definition write_sized :: "'s output_ops \<Rightarrow> u8 list \<Rightarrow> 's CodedOutputStream \<Rightarrow> 's CodedOutputStream option" where
  "write_sized ops v s = (if int (length v) \<le> INT_MAX
     then do { s \<leftarrow> WriteVarint32 ops (of_nat (length v)) s; WriteString ops v s } else None)"

definition WFL_WriteString :: "'s output_ops \<Rightarrow> u32 \<Rightarrow> u8 list \<Rightarrow> 's CodedOutputStream \<Rightarrow> 's CodedOutputStream option" where
  "WFL_WriteString ops n v s = do { s \<leftarrow> WFL_WriteTag ops n WIRETYPE_LENGTH_DELIMITED s; write_sized ops v s }"

definition WFL_WriteBytes :: "'s output_ops \<Rightarrow> u32 \<Rightarrow> u8 list \<Rightarrow> 's CodedOutputStream \<Rightarrow> 's CodedOutputStream option" where
  "WFL_WriteBytes ops n v s = do { s \<leftarrow> WFL_WriteTag ops n WIRETYPE_LENGTH_DELIMITED s; write_sized ops v s }"

text \<open>Unknown fields: the loop over a set and the recursion into groups.\<close>

fun SerializeUnknownField :: "'s output_ops \<Rightarrow> unknown_field \<Rightarrow> 's CodedOutputStream \<Rightarrow> 's CodedOutputStream option"
  and SerializeUnknownFields :: "'s output_ops \<Rightarrow> unknown_field list \<Rightarrow> 's CodedOutputStream \<Rightarrow> 's CodedOutputStream option" where
  "SerializeUnknownField ops (UVarint n v) s =
     do { s \<leftarrow> WriteVarint32 ops (MakeTag n WIRETYPE_VARINT) s; WriteVarint64 ops v s }"
| "SerializeUnknownField ops (UFixed32 n v) s =
     do { s \<leftarrow> WriteVarint32 ops (MakeTag n WIRETYPE_FIXED32) s; WriteLittleEndian32 ops v s }"
| "SerializeUnknownField ops (UFixed64 n v) s =
     do { s \<leftarrow> WriteVarint32 ops (MakeTag n WIRETYPE_FIXED64) s; WriteLittleEndian64 ops v s }"
| "SerializeUnknownField ops (ULengthDelimited n str) s = do {
     s \<leftarrow> WriteVarint32 ops (MakeTag n WIRETYPE_LENGTH_DELIMITED) s;
     s \<leftarrow> WriteVarint32 ops (of_nat (length str)) s;
     WriteString ops str s }"
| "SerializeUnknownField ops (UGroup n grp) s = do {
     s \<leftarrow> WriteVarint32 ops (MakeTag n WIRETYPE_START_GROUP) s;
     s \<leftarrow> SerializeUnknownFields ops grp s;
     WriteVarint32 ops (MakeTag n WIRETYPE_END_GROUP) s }"
| "SerializeUnknownFields ops [] s = Some s"
| "SerializeUnknownFields ops (f # fs) s = do { s \<leftarrow> SerializeUnknownField ops f s; SerializeUnknownFields ops fs s }"

named_theorems writes_intros

lemma WFL_tag_bytes: "WriteVarint32ToArray (MakeTag n t) = WFL_WriteTagToArray n t"
  by (simp add: WriteVarint32ToArray_ok WriteTagToArray_ok WFL_WriteTagToArray_def)

context zero_copy_output
begin

lemma WriteVarint32_eq: "WriteVarint32 ops v s = WriteRaw ops (WriteVarint32ToArray v) s"
proof -
  have "length (varint_bytes (unat v)) \<le> 5"
    by (rule varint_bytes_length [of _ 4, simplified], rule less_trans [OF unsigned_less]) simp
  moreover have "slow_varint v = varint_bytes (unat v)" by (rule slow_varint_bytes) simp
  ultimately show ?thesis
    using fast_path [of "varint_bytes (unat v)" s]
    by (simp add: WriteVarint32_def WriteVarint32FallbackToArray_ok WriteVarint32ToArray_ok write_local_def COS_kMaxVarint32Bytes_def)
qed

lemma WriteVarint64_eq: "WriteVarint64 ops v s = WriteRaw ops (WriteVarint64ToArray v) s"
proof -
  have "length (varint_bytes (unat v)) \<le> 10"
    by (rule varint_bytes_length [of _ 9, simplified], rule less_trans [OF unsigned_less]) simp
  moreover have "slow_varint v = varint_bytes (unat v)" by (rule slow_varint_bytes) simp
  ultimately show ?thesis
    using fast_path [of "varint_bytes (unat v)" s]
    by (simp add: WriteVarint64_def WriteVarint64ToArray_ok write_local_def COS_kMaxVarintBytes_def)
qed

lemma WriteLittleEndian_eq:
  "WriteLittleEndian32 ops v s = WriteRaw ops (WriteLittleEndian32ToArray v) s"
  "WriteLittleEndian64 ops w s = WriteRaw ops (WriteLittleEndian64ToArray w) s"
  using fast_path [of "WriteLittleEndian32ToArray v" s] fast_path [of "WriteLittleEndian64ToArray w" s]
  by (simp_all add: WriteLittleEndian32_def WriteLittleEndian64_def)

lemma WriteVarint32SignExtended_eq: "WriteVarint32SignExtended ops v s = WriteRaw ops (WriteVarint32SignExtendedToArray v) s"
  by (simp add: WriteVarint32SignExtended_def WriteVarint32SignExtendedToArray_def WriteVarint32_eq WriteVarint64_eq)

lemma WFL_WriteTag_eq: "WFL_WriteTag ops n t s = WriteRaw ops (WFL_WriteTagToArray n t) s"
  by (simp add: WFL_WriteTag_def COS_WriteTag_def WriteVarint32_eq WriteVarint32ToArray_ok WriteTagToArray_ok WFL_WriteTagToArray_def)

lemma write_eqs:
  "WriteVarint32 ops v = WriteRaw ops (WriteVarint32ToArray v)"
  "WriteVarint64 ops w = WriteRaw ops (WriteVarint64ToArray w)"
  "WriteLittleEndian32 ops v = WriteRaw ops (WriteLittleEndian32ToArray v)"
  "WriteLittleEndian64 ops w = WriteRaw ops (WriteLittleEndian64ToArray w)"
  "WriteVarint32SignExtended ops v = WriteRaw ops (WriteVarint32SignExtendedToArray v)"
  "WFL_WriteTag ops n t = WriteRaw ops (WFL_WriteTagToArray n t)"
  by (simp_all add: fun_eq_iff WriteVarint32_eq WriteVarint64_eq WriteLittleEndian_eq WriteVarint32SignExtended_eq WFL_WriteTag_eq)

lemma write_sized_writes: "writes start (write_sized ops v) (WriteVarint32ToArray (of_nat (length v)) @ v)"
proof -
  have "writes start (\<lambda>s. Option.bind (WriteRaw ops (WriteVarint32ToArray (of_nat (length v))) s) (WriteRaw ops v))
    (WriteVarint32ToArray (of_nat (length v)) @ v)"
    by (intro writes_bind WriteRaw_writes)
  then show ?thesis
    unfolding writes_def write_sized_def WriteString_def write_eqs by (simp add: INT_MAX_def)
qed

lemma field_writes [writes_intros]:
  "writes start (WriteInt32 ops n v) (WriteInt32ToArray n v)"
  "writes start (WriteInt64 ops n w) (WriteInt64ToArray n w)"
  "writes start (WriteUInt32 ops n v) (WriteUInt32ToArray n v)"
  "writes start (WriteUInt64 ops n w) (WriteUInt64ToArray n w)"
  "writes start (WriteFixed32 ops n v) (WriteFixed32ToArray n v)"
  "writes start (WriteFixed64 ops n w) (WriteFixed64ToArray n w)"
  "writes start (WriteFloat ops n v) (WriteFloatToArray n v)"
  "writes start (WriteBool ops n b) (WriteBoolToArray n b)"
  "writes start (WFL_WriteString ops n str) (WFL_WriteStringToArray n str)"
  "writes start (WFL_WriteBytes ops n str) (WFL_WriteBytesToArray n str)"
  unfolding WriteInt32_def [abs_def] WriteInt64_def [abs_def] WriteUInt32_def [abs_def] WriteUInt64_def [abs_def] WriteFixed32_def [abs_def]
    WriteFixed64_def [abs_def] WriteFloat_def [abs_def] WriteBool_def [abs_def] WFL_WriteString_def [abs_def] WFL_WriteBytes_def [abs_def]
    WriteInt32ToArray_def WriteInt64ToArray_def WriteUInt32ToArray_def WriteUInt64ToArray_def WriteFixed32ToArray_def
    WriteFixed64ToArray_def WriteFloatToArray_def WriteBoolToArray_def WFL_WriteStringToArray_def WFL_WriteBytesToArray_def write_eqs
  by (intro writes_bind WriteRaw_writes write_sized_writes)+

lemma unknown_list_writes:
  assumes "\<And>f. f \<in> set fs \<Longrightarrow> writes start (SerializeUnknownField ops f) (SerializeUnknownFieldToArray f)"
  shows "writes start (SerializeUnknownFields ops fs) (SerializeUnknownFieldsToArray fs)"
  using assms
proof (induction fs)
  case Nil
  have "SerializeUnknownFields ops [] = Some" by (rule ext) simp
  then show ?case by (simp only: SerializeUnknownFieldsToArray_def list.map concat.simps writes_nil)
next
  case (Cons f fs)
  have "SerializeUnknownFields ops (f # fs) = (\<lambda>s. Option.bind (SerializeUnknownField ops f s) (SerializeUnknownFields ops fs))"
    by (rule ext) simp
  then show ?case using writes_bind [of start "SerializeUnknownField ops f"] Cons by (simp add: SerializeUnknownFieldsToArray_def)
qed

lemma unknown_field_writes: "writes start (SerializeUnknownField ops f) (SerializeUnknownFieldToArray f)"
proof (induction f)
  case (UGroup n grp)
  have "writes start (\<lambda>s. Option.bind (WriteRaw ops (WFL_WriteTagToArray n WIRETYPE_START_GROUP) s)
      (\<lambda>s. Option.bind (SerializeUnknownFields ops grp s) (WriteRaw ops (WFL_WriteTagToArray n WIRETYPE_END_GROUP))))
    (WFL_WriteTagToArray n WIRETYPE_START_GROUP @ SerializeUnknownFieldsToArray grp @ WFL_WriteTagToArray n WIRETYPE_END_GROUP)"
    by (intro writes_bind WriteRaw_writes unknown_list_writes UGroup)
  then show ?case by (simp add: writes_def write_eqs WFL_tag_bytes SerializeUnknownFieldsToArray_def)
next
  case (ULengthDelimited n str)
  have "writes start (\<lambda>s. Option.bind (WriteRaw ops (WFL_WriteTagToArray n WIRETYPE_LENGTH_DELIMITED) s)
      (\<lambda>s. Option.bind (WriteRaw ops (WriteVarint32ToArray (of_nat (length str))) s) (WriteRaw ops str)))
    (WFL_WriteBytesToArray n str)"
    unfolding WFL_WriteBytesToArray_def by (intro writes_bind WriteRaw_writes)
  then show ?case by (simp add: writes_def write_eqs WFL_tag_bytes WriteString_def)
next
  case (UVarint n v)
  have "writes start (\<lambda>s. Option.bind (WriteRaw ops (WFL_WriteTagToArray n WIRETYPE_VARINT) s) (WriteRaw ops (WriteVarint64ToArray v)))
    (WriteInt64ToArray n v)"
    unfolding WriteInt64ToArray_def by (intro writes_bind WriteRaw_writes)
  then show ?case by (simp add: writes_def write_eqs WFL_tag_bytes)
next
  case (UFixed32 n v)
  have "writes start (\<lambda>s. Option.bind (WriteRaw ops (WFL_WriteTagToArray n WIRETYPE_FIXED32) s) (WriteRaw ops (WriteLittleEndian32ToArray v)))
    (WriteFixed32ToArray n v)"
    unfolding WriteFixed32ToArray_def by (intro writes_bind WriteRaw_writes)
  then show ?case by (simp add: writes_def write_eqs WFL_tag_bytes)
next
  case (UFixed64 n v)
  have "writes start (\<lambda>s. Option.bind (WriteRaw ops (WFL_WriteTagToArray n WIRETYPE_FIXED64) s) (WriteRaw ops (WriteLittleEndian64ToArray v)))
    (WriteFixed64ToArray n v)"
    unfolding WriteFixed64ToArray_def by (intro writes_bind WriteRaw_writes)
  then show ?case by (simp add: writes_def write_eqs WFL_tag_bytes)
qed

lemma unknown_fields_writes [writes_intros]: "writes start (SerializeUnknownFields ops fs) (SerializeUnknownFieldsToArray fs)"
  by (rule unknown_list_writes) (rule unknown_field_writes)

end

end
