(* ===== verification/NetStreams.thy ===== *)
theory NetStreams
  imports OutFields NetMessages
begin

text \<open>
  Serializing the message classes through buffered streams: their
  \<^verbatim>\<open>SerializeWithCachedSizes\<close> and the serialization half of
  \<^verbatim>\<open>message_lite.cc\<close>.

  The generated code calls \<^verbatim>\<open>WriteStringMaybeAliased\<close> and
  \<^verbatim>\<open>WriteBytesMaybeAliased\<close>, which the runtime library checked in does not have:
  they are the parameter \<open>lib\<close>. In the release that has them they do what \<open>WriteString\<close> and
  \<open>WriteBytes\<close> do unless aliasing was enabled on the stream; \<open>aliasing_off\<close> says that.
\<close>

record 's aliased_lib =
  WriteStringMaybeAliased :: "u32 \<Rightarrow> u8 list \<Rightarrow> 's CodedOutputStream \<Rightarrow> 's CodedOutputStream option"
  WriteBytesMaybeAliased :: "u32 \<Rightarrow> u8 list \<Rightarrow> 's CodedOutputStream \<Rightarrow> 's CodedOutputStream option"

definition aliasing_off :: "'s output_ops \<Rightarrow> 's aliased_lib \<Rightarrow> bool" where
  "aliasing_off ops lib \<longleftrightarrow> WriteStringMaybeAliased lib = WFL_WriteString ops \<and> WriteBytesMaybeAliased lib = WFL_WriteBytes ops"

definition plain_lib :: "'s output_ops \<Rightarrow> 's aliased_lib" where
  "plain_lib ops = \<lparr>WriteStringMaybeAliased = WFL_WriteString ops, WriteBytesMaybeAliased = WFL_WriteBytes ops\<rparr>"

lemma lib_eqs:
  "aliasing_off ops lib \<Longrightarrow> WriteStringMaybeAliased lib = WFL_WriteString ops"
  "aliasing_off ops lib \<Longrightarrow> WriteBytesMaybeAliased lib = WFL_WriteBytes ops"
  by (simp_all add: aliasing_off_def)

lemma plain_lib_off [simp]: "aliasing_off ops (plain_lib ops)"
  by (simp add: aliasing_off_def plain_lib_def)

subsection \<open>The generated stream writers\<close>

definition nt_SerializeWithCachedSizes ::
  "'s output_ops \<Rightarrow> 's aliased_lib \<Rightarrow> CNETMsg_Tick \<Rightarrow> 's CodedOutputStream \<Rightarrow> 's CodedOutputStream option" where
  "nt_SerializeWithCachedSizes ops lib m s = do {
     s \<leftarrow> (if has_nt_tick m then WriteUInt32 ops 1 (nt_tick m) s else Some s);
     s \<leftarrow> (if has_nt_host_computationtime m then WriteUInt32 ops 4 (nt_host_computationtime m) s else Some s);
     s \<leftarrow> (if has_nt_host_computationtime_std_deviation m then WriteUInt32 ops 5 (nt_host_computationtime_std_deviation m) s else Some s);
     s \<leftarrow> (if has_nt_host_framestarttime_std_deviation m then WriteUInt32 ops 6 (nt_host_framestarttime_std_deviation m) s else Some s);
     if nt_unknown_fields m \<noteq> [] then SerializeUnknownFields ops (nt_unknown_fields m) s else Some s }"

definition ns_SerializeWithCachedSizes ::
  "'s output_ops \<Rightarrow> 's aliased_lib \<Rightarrow> CNETMsg_SignonState \<Rightarrow> 's CodedOutputStream \<Rightarrow> 's CodedOutputStream option" where
  "ns_SerializeWithCachedSizes ops lib m s = do {
     s \<leftarrow> (if has_ns_signon_state m then WriteUInt32 ops 1 (ns_signon_state m) s else Some s);
     s \<leftarrow> (if has_ns_spawn_count m then WriteUInt32 ops 2 (ns_spawn_count m) s else Some s);
     s \<leftarrow> (if has_ns_num_server_players m then WriteUInt32 ops 3 (ns_num_server_players m) s else Some s);
     s \<leftarrow> foldM (WFL_WriteString ops 4) (ns_players_networkids m) s;
     s \<leftarrow> (if has_ns_map_name m then WriteStringMaybeAliased lib 5 (ns_map_name m) s else Some s);
     if ns_unknown_fields m \<noteq> [] then SerializeUnknownFields ops (ns_unknown_fields m) s else Some s }"

definition si_SerializeWithCachedSizes ::
  "'s output_ops \<Rightarrow> 's aliased_lib \<Rightarrow> CSVCMsg_ServerInfo \<Rightarrow> 's CodedOutputStream \<Rightarrow> 's CodedOutputStream option" where
  "si_SerializeWithCachedSizes ops lib m s = do {
     s \<leftarrow> (if has_si_protocol m then WriteInt32 ops 1 (si_protocol m) s else Some s);
     s \<leftarrow> (if has_si_server_count m then WriteInt32 ops 2 (si_server_count m) s else Some s);
     s \<leftarrow> (if has_si_is_dedicated m then WriteBool ops 3 (si_is_dedicated m) s else Some s);
     s \<leftarrow> (if has_si_is_official_valve_server m then WriteBool ops 4 (si_is_official_valve_server m) s else Some s);
     s \<leftarrow> (if has_si_is_hltv m then WriteBool ops 5 (si_is_hltv m) s else Some s);
     s \<leftarrow> (if has_si_is_replay m then WriteBool ops 6 (si_is_replay m) s else Some s);
     s \<leftarrow> (if has_si_c_os m then WriteInt32 ops 7 (si_c_os m) s else Some s);
     s \<leftarrow> (if has_si_map_crc m then WriteFixed32 ops 8 (si_map_crc m) s else Some s);
     s \<leftarrow> (if has_si_client_crc m then WriteFixed32 ops 9 (si_client_crc m) s else Some s);
     s \<leftarrow> (if has_si_string_table_crc m then WriteFixed32 ops 10 (si_string_table_crc m) s else Some s);
     s \<leftarrow> (if has_si_max_clients m then WriteInt32 ops 11 (si_max_clients m) s else Some s);
     s \<leftarrow> (if has_si_max_classes m then WriteInt32 ops 12 (si_max_classes m) s else Some s);
     s \<leftarrow> (if has_si_player_slot m then WriteInt32 ops 13 (si_player_slot m) s else Some s);
     s \<leftarrow> (if has_si_tick_interval m then WriteFloat ops 14 (si_tick_interval m) s else Some s);
     s \<leftarrow> (if has_si_game_dir m then WriteStringMaybeAliased lib 15 (si_game_dir m) s else Some s);
     s \<leftarrow> (if has_si_map_name m then WriteStringMaybeAliased lib 16 (si_map_name m) s else Some s);
     s \<leftarrow> (if has_si_map_group_name m then WriteStringMaybeAliased lib 17 (si_map_group_name m) s else Some s);
     s \<leftarrow> (if has_si_sky_name m then WriteStringMaybeAliased lib 18 (si_sky_name m) s else Some s);
     s \<leftarrow> (if has_si_host_name m then WriteStringMaybeAliased lib 19 (si_host_name m) s else Some s);
     s \<leftarrow> (if has_si_is_redirecting_to_proxy_relay m then WriteBool ops 21 (si_is_redirecting_to_proxy_relay m) s else Some s);
     s \<leftarrow> (if has_si_ugc_map_id m then WriteUInt64 ops 22 (si_ugc_map_id m) s else Some s);
     if si_unknown_fields m \<noteq> [] then SerializeUnknownFields ops (si_unknown_fields m) s else Some s }"

definition pe_SerializeWithCachedSizes ::
  "'s output_ops \<Rightarrow> 's aliased_lib \<Rightarrow> CSVCMsg_PacketEntities \<Rightarrow> 's CodedOutputStream \<Rightarrow> 's CodedOutputStream option" where
  "pe_SerializeWithCachedSizes ops lib m s = do {
     s \<leftarrow> (if has_pe_max_entries m then WriteInt32 ops 1 (pe_max_entries m) s else Some s);
     s \<leftarrow> (if has_pe_updated_entries m then WriteInt32 ops 2 (pe_updated_entries m) s else Some s);
     s \<leftarrow> (if has_pe_is_delta m then WriteBool ops 3 (pe_is_delta m) s else Some s);
     s \<leftarrow> (if has_pe_update_baseline m then WriteBool ops 4 (pe_update_baseline m) s else Some s);
     s \<leftarrow> (if has_pe_baseline m then WriteInt32 ops 5 (pe_baseline m) s else Some s);
     s \<leftarrow> (if has_pe_delta_from m then WriteInt32 ops 6 (pe_delta_from m) s else Some s);
     s \<leftarrow> (if has_pe_entity_data m then WriteBytesMaybeAliased lib 7 (pe_entity_data m) s else Some s);
     if pe_unknown_fields m \<noteq> [] then SerializeUnknownFields ops (pe_unknown_fields m) s else Some s }"


fun SerializeWithCachedSizes :: "'s output_ops \<Rightarrow> 's aliased_lib \<Rightarrow> netmsg \<Rightarrow> 's CodedOutputStream \<Rightarrow> 's CodedOutputStream option" where
  "SerializeWithCachedSizes ops lib (M_Tick m) = nt_SerializeWithCachedSizes ops lib m"
| "SerializeWithCachedSizes ops lib (M_SignonState m) = ns_SerializeWithCachedSizes ops lib m"
| "SerializeWithCachedSizes ops lib (M_ServerInfo m) = si_SerializeWithCachedSizes ops lib m"
| "SerializeWithCachedSizes ops lib (M_PacketEntities m) = pe_SerializeWithCachedSizes ops lib m"

fun IsInitialized :: "netmsg \<Rightarrow> bool" where
  "IsInitialized (M_Tick m) = nt_IsInitialized m"
| "IsInitialized (M_SignonState m) = ns_IsInitialized m"
| "IsInitialized (M_ServerInfo m) = si_IsInitialized m"
| "IsInitialized (M_PacketEntities m) = pe_IsInitialized m"

subsection \<open>Serialization in message\_lite.cc\<close>

text \<open>
  The methods of \<^verbatim>\<open>MessageLite\<close>; \<open>ByteSize\<close> also caches the size in the message, which
  is why they return it. \<open>GOOGLE_DCHECK\<close> is an assertion, \<open>ByteSizeConsistencyError\<close> ends the program.
\<close>

definition SerializePartialToCodedStream ::
  "'s output_ops \<Rightarrow> 's aliased_lib \<Rightarrow> netmsg \<Rightarrow> 's CodedOutputStream \<Rightarrow> (bool \<times> netmsg \<times> 's CodedOutputStream) option" where
  "SerializePartialToCodedStream ops lib m output =
     (let (n, m) = ByteSize m in
      case GetDirectBufferForNBytesAndAdvance n output of
        (Some buffer, output) \<Rightarrow> do {
          out \<leftarrow> out_store ops buffer (Serialize m) (o_output output);
          if int (length (Serialize m)) \<noteq> n then None else Some (True, m, output\<lparr>o_output := out\<rparr>) }
      | (None, output) \<Rightarrow> do {
          let original_byte_count = COS_ByteCount output;
          output \<leftarrow> SerializeWithCachedSizes ops lib m output;
          if HadError output then Some (False, m, output)
          else if COS_ByteCount output - original_byte_count \<noteq> n then None
          else Some (True, m, output) })"

definition SerializeToCodedStream ::
  "'s output_ops \<Rightarrow> 's aliased_lib \<Rightarrow> netmsg \<Rightarrow> 's CodedOutputStream \<Rightarrow> (bool \<times> netmsg \<times> 's CodedOutputStream) option" where
  "SerializeToCodedStream ops lib m output =
     (if IsInitialized m then SerializePartialToCodedStream ops lib m output else None)"

definition SerializeToZeroCopyStream :: "'s output_ops \<Rightarrow> 's aliased_lib \<Rightarrow> netmsg \<Rightarrow> 's \<Rightarrow> (bool \<times> netmsg \<times> 's) option" where
  "SerializeToZeroCopyStream ops lib m output = do {
     encoder \<leftarrow> CodedOutputStream_ctor ops output;
     (ok, m, encoder) \<leftarrow> SerializeToCodedStream ops lib m encoder;
     output \<leftarrow> CodedOutputStream_dtor ops encoder;
     Some (ok, m, output) }"

text \<open>\<open>STLStringResizeUninitialized\<close>, with zeros for the new bytes; a size is a \<open>size_t\<close>.\<close>

definition resize_string :: "u8 list \<Rightarrow> int \<Rightarrow> u8 list" where
  "resize_string s new_size = (let n = nat (new_size mod 2 ^ 32) in take n s @ replicate (n - length s) 0)"

definition AppendPartialToString :: "netmsg \<Rightarrow> u8 list \<Rightarrow> (netmsg \<times> u8 list) option" where
  "AppendPartialToString m output =
     (let old_size = i32 (int (length output)); (byte_size, m) = ByteSize m in do {
        output \<leftarrow> mem_store old_size (Serialize m) (resize_string output (i32 (old_size + byte_size)));
        if int (length (Serialize m)) \<noteq> byte_size then None else Some (m, output) })"

definition AppendToString :: "netmsg \<Rightarrow> u8 list \<Rightarrow> (netmsg \<times> u8 list) option" where
  "AppendToString m output = (if IsInitialized m then AppendPartialToString m output else None)"

definition SerializeToString :: "netmsg \<Rightarrow> u8 list \<Rightarrow> (netmsg \<times> u8 list) option" where
  "SerializeToString m output = AppendToString m []"

definition SerializePartialToArray :: "netmsg \<Rightarrow> u8 list \<Rightarrow> int \<Rightarrow> int \<Rightarrow> (bool \<times> netmsg \<times> u8 list) option" where
  "SerializePartialToArray m mem data n =
     (let (byte_size, m) = ByteSize m in
      if n < byte_size then Some (False, m, mem)
      else do {
        mem \<leftarrow> mem_store data (Serialize m) mem;
        if int (length (Serialize m)) \<noteq> byte_size then None else Some (True, m, mem) })"

definition SerializeToArray :: "netmsg \<Rightarrow> u8 list \<Rightarrow> int \<Rightarrow> int \<Rightarrow> (bool \<times> netmsg \<times> u8 list) option" where
  "SerializeToArray m mem data n = (if IsInitialized m then SerializePartialToArray m mem data n else None)"

subsection \<open>The stream writers write what the array writers write\<close>

lemma ByteSize_eq: "length (Serialize m) < 2 ^ 31 \<Longrightarrow> ByteSize m = (int (length (Serialize m)), with_cached_size (int (length (Serialize m))) m)"
  by (cases m) (simp_all add: nt_ByteSize_eq ns_ByteSize_eq si_ByteSize_eq pe_ByteSize_eq)

lemma IsInitialized_always [simp]: "IsInitialized m"
  by (cases m) (simp_all add: nt_IsInitialized_def ns_IsInitialized_def si_IsInitialized_def pe_IsInitialized_def)

lemma Serialize_cached [simp]: "Serialize (with_cached_size n m) = Serialize m"
  by (cases m) (simp_all add: nt_Serialize_def ns_Serialize_def si_Serialize_def pe_Serialize_def
    nt_has_defs ns_has_defs si_has_defs pe_has_defs)

context zero_copy_output
begin

lemma unknown_if_writes [writes_intros]:
  "writes start (\<lambda>s. if fs \<noteq> [] then SerializeUnknownFields ops fs s else Some s) (SerializeUnknownFieldsToArray fs)"
  using unknown_fields_writes [of start fs] writes_nil [of start]
  by (cases "fs = []") (simp_all add: SerializeUnknownFieldsToArray_def)

lemma nt_stream_writes:
  assumes "aliasing_off ops lib"
  shows "writes start (nt_SerializeWithCachedSizes ops lib m) (nt_Serialize m)"
  unfolding nt_SerializeWithCachedSizes_def [abs_def] nt_Serialize_def optional_def lib_eqs [OF assms]
  by (intro writes_bind writes_if writes_foldM writes_intros)

lemma ns_stream_writes:
  assumes "aliasing_off ops lib"
  shows "writes start (ns_SerializeWithCachedSizes ops lib m) (ns_Serialize m)"
  unfolding ns_SerializeWithCachedSizes_def [abs_def] ns_Serialize_def optional_def lib_eqs [OF assms]
  by (intro writes_bind writes_if writes_foldM writes_intros)

lemma si_stream_writes:
  assumes "aliasing_off ops lib"
  shows "writes start (si_SerializeWithCachedSizes ops lib m) (si_Serialize m)"
  unfolding si_SerializeWithCachedSizes_def [abs_def] si_Serialize_def optional_def lib_eqs [OF assms]
  by (intro writes_bind writes_if writes_foldM writes_intros)

lemma pe_stream_writes:
  assumes "aliasing_off ops lib"
  shows "writes start (pe_SerializeWithCachedSizes ops lib m) (pe_Serialize m)"
  unfolding pe_SerializeWithCachedSizes_def [abs_def] pe_Serialize_def optional_def lib_eqs [OF assms]
  by (intro writes_bind writes_if writes_foldM writes_intros)

lemma stream_writes: "aliasing_off ops lib \<Longrightarrow> writes start (SerializeWithCachedSizes ops lib m) (Serialize m)"
  by (cases m) (simp_all add: nt_stream_writes ns_stream_writes si_stream_writes pe_stream_writes)

text \<open>From the constructor to the destructor.\<close>

lemma ctor_ok:
  assumes "ok out" and "length (content out) < 2 ^ 30"
  obtains s where "CodedOutputStream_ctor ops out = Some s" "inv (length (content out)) s" "written s = content out"
    "rest (o_output s) = rest out" "\<not> o_had_error s" "\<And>k. fits s k = room out k"
proof -
  let ?s = "\<lparr>o_output = out, o_buffer = 0, o_buffer_size = 0, o_total_bytes = 0, o_had_error = False\<rparr>"
  have s: "inv (length (content out)) ?s" "o_buffer_size ?s = 0" "written ?s = content out" "\<And>k. fits ?s k = room out k"
    using assms(1) by (simp_all add: inv_def written_def fits_def)
  then obtain b s1 where s1: "COS_Refresh ops ?s = Some (b, s1)" "inv (length (content out)) s1" "written s1 = written ?s"
    "\<forall>k. fits s1 k = fits ?s k" "rest (o_output s1) = rest (o_output ?s)"
    using COS_Refresh_ok [OF s(1,2)] assms(2) by (auto split: if_splits)
  have upd: "inv (length (content out)) (s1\<lparr>o_had_error := False\<rparr>)" "written (s1\<lparr>o_had_error := False\<rparr>) = written s1"
    "\<And>k. fits (s1\<lparr>o_had_error := False\<rparr>) k = fits s1 k"
    using s1(2) by (simp_all add: inv_def written_def fits_def)
  show thesis
    by (rule that [of "s1\<lparr>o_had_error := False\<rparr>"]) (use s1 s upd in \<open>simp_all add: CodedOutputStream_ctor_def\<close>)
qed

lemma dtor_ok:
  assumes "inv start s"
  obtains out where "CodedOutputStream_dtor ops s = Some out" "ok out" "content out = written s" "rest out = rest (o_output s)"
proof (cases "0 < o_buffer_size s")
  case True
  then have n: "ok (o_output s)" "0 < nat (o_buffer_size s)" "nat (o_buffer_size s) \<le> last_block (o_output s)"
    "int (nat (o_buffer_size s)) = o_buffer_size s"
    using assms by (auto simp: inv_def)
  then show thesis using backup [OF n(1-3)] True that by (auto simp: CodedOutputStream_dtor_def written_def)
next
  case False
  then show thesis using assms that [of "o_output s"] by (simp add: CodedOutputStream_dtor_def written_def inv_def)
qed

lemma SerializePartial_ok:
  assumes lib: "aliasing_off ops lib" and s: "inv start s" "length (written s) + length (Serialize m) < 2 ^ 30" and err: "\<not> o_had_error s"
  shows "\<exists>s'. SerializePartialToCodedStream ops lib m s =
      Some (fits s (length (Serialize m)), with_cached_size (int (length (Serialize m))) m, s') \<and> wrote start s (Serialize m) s'"
proof -
  let ?b = "Serialize m" and ?m = "with_cached_size (int (length (Serialize m))) m"
  have size_eq: "ByteSize m = (int (length ?b), ?m)" using ByteSize_eq s(2) by simp
  show ?thesis
  proof (cases "int (length ?b) \<le> o_buffer_size s")
    case True
    then obtain s1 where s1: "store_at_buffer ops ?b s = Some s1" "wrote start s ?b (COS_Advance (int (length ?b)) s1)"
      using store_advance [OF s(1)] by blast
    have "room (o_output s) 0" using s(1) room_0 by (simp add: inv_def)
    then have f: "fits s (length ?b)" using True by (simp add: fits_def)
    obtain out where out: "out_store ops (o_buffer s) ?b (o_output s) = Some out" "s1 = s\<lparr>o_output := out\<rparr>"
      using s1(1) by (auto simp: store_at_buffer_def split: bind_splits)
    have "SerializePartialToCodedStream ops lib m s = Some (True, ?m, COS_Advance (int (length ?b)) s1)"
      using True out
      by (simp add: SerializePartialToCodedStream_def size_eq GetDirectBufferForNBytesAndAdvance_def COS_Advance_def)
    then show ?thesis using s1(2) f by simp
  next
    case False
    have "writes start (SerializeWithCachedSizes ops lib ?m) ?b" using stream_writes [OF lib, of start ?m] by simp
    then obtain s1 where s1: "SerializeWithCachedSizes ops lib ?m s = Some s1" "wrote start s ?b s1"
      using s unfolding writes_def by blast
    then have had: "o_had_error s1 \<longleftrightarrow> \<not> fits s (length ?b)" using err unfolding wrote_def by blast
    have "COS_ByteCount s1 - COS_ByteCount s = int (length ?b)" if "fits s (length ?b)"
    proof -
      have count: "COS_ByteCount t = int (length (written t)) - int start" if "inv start t" for t
        using that last_block_le [of "o_output t"] by (auto simp: COS_ByteCount_def inv_def written_def of_nat_diff)
      have "written s1 = written s @ ?b" "inv start s1" using s1(2) that unfolding wrote_def by blast+
      then show ?thesis using count s(1) by simp
    qed
    then have "SerializePartialToCodedStream ops lib m s = Some (fits s (length ?b), ?m, s1)"
      using False s1(1) had
      by (simp add: SerializePartialToCodedStream_def size_eq GetDirectBufferForNBytesAndAdvance_def HadError_def)
    then show ?thesis using s1(2) by blast
  qed
qed

lemma zero_copy_ok:
  assumes lib: "aliasing_off ops lib" and out: "ok out" "length (content out) + length (Serialize m) < 2 ^ 30"
  shows "\<exists>out'. SerializeToZeroCopyStream ops lib m out =
      Some (room out (length (Serialize m)), with_cached_size (int (length (Serialize m))) m, out') \<and>
    ok out' \<and> rest out' = rest out \<and> prefix (content out) (content out') \<and>
    (room out (length (Serialize m)) \<longrightarrow> content out' = content out @ Serialize m)"
proof -
  have "length (content out) < 2 ^ 30" using out(2) by simp
  with out(1) obtain s where s: "CodedOutputStream_ctor ops out = Some s" "inv (length (content out)) s" "written s = content out"
    "rest (o_output s) = rest out" "\<not> o_had_error s" "\<And>k. fits s k = room out k"
    using ctor_ok by metis
  obtain s' where s': "SerializePartialToCodedStream ops lib m s =
      Some (fits s (length (Serialize m)), with_cached_size (int (length (Serialize m))) m, s')" "wrote (length (content out)) s (Serialize m) s'"
    using SerializePartial_ok [OF lib s(2) _ s(5), of m] out(2) s(3) by auto
  obtain out' where out': "CodedOutputStream_dtor ops s' = Some out'" "ok out'" "content out' = written s'" "rest out' = rest (o_output s')"
    using s'(2) dtor_ok [of "length (content out)" s'] unfolding wrote_def by blast
  then show ?thesis
    using s s' by (simp add: SerializeToZeroCopyStream_def SerializeToCodedStream_def wrote_def)
qed

end

subsection \<open>Properties\<close>

lemma mem_store_append: "mem_store (int (length xs)) bs (xs @ replicate (length bs) 0) = Some (xs @ bs)"
  by (cases "bs = []") (simp_all add: mem_store_def)

lemma AppendToString_ok:
  assumes "length str + length (Serialize m) < 2 ^ 31"
  shows "AppendToString m str = Some (with_cached_size (int (length (Serialize m))) m, str @ Serialize m)"
proof -
  have "resize_string str (int (length str) + int (length (Serialize m))) = str @ replicate (length (Serialize m)) 0"
    using assms by (simp add: resize_string_def Let_def nat_add_distrib)
  then show ?thesis using assms by (simp add: AppendToString_def AppendPartialToString_def ByteSize_eq mem_store_append)
qed

text \<open>
  C15: Serializing to an array through a buffered stream is exact and stays in the array. For every
  class, every place of the array in memory and every block size of the stream, the call returns;
  it reports success exactly when the array holds the message, then the array starts with the
  bytes the direct writer produces and the stream counts them; whether it succeeds or not, no
  byte before or behind the array changes.
\<close>

theorem array_stream_exact:
  assumes "aliasing_off array_ops lib" and "0 \<le> data" and "0 \<le> n" and "n \<le> INT_MAX" and "data + n \<le> int (length mem)"
    and "length (Serialize m) < 2 ^ 30"
  shows "\<exists>out. SerializeToZeroCopyStream array_ops lib m (ArrayOutputStream_ctor mem data n block_size) =
      Some (int (length (Serialize m)) \<le> n, with_cached_size (int (length (Serialize m))) m, out) \<and>
    take (nat data) (ao_mem out) = take (nat data) mem \<and> drop (nat (data + n)) (ao_mem out) = drop (nat (data + n)) mem \<and>
    (int (length (Serialize m)) \<le> n \<longrightarrow>
       AOS_ByteCount out = int (length (Serialize m)) \<and> take (length (Serialize m)) (drop (nat data) (ao_mem out)) = Serialize m)"
proof -
  let ?a = "ArrayOutputStream_ctor mem data n block_size"
  have a: "array_ok ?a" "array_content ?a = []" "array_room ?a k = (int k \<le> n)" for k
    using assms by (auto simp: array_ok_def ArrayOutputStream_ctor_def array_content_def array_room_def)
  obtain out where out: "SerializeToZeroCopyStream array_ops lib m ?a =
      Some (int (length (Serialize m)) \<le> n, with_cached_size (int (length (Serialize m))) m, out)"
    "array_ok out" "array_rest out = array_rest ?a" "int (length (Serialize m)) \<le> n \<longrightarrow> array_content out = Serialize m"
    using aos.zero_copy_ok [OF assms(1) a(1), of m] a assms(6) by auto
  have "ao_data out = data" "ao_size out = n" "take (nat data) (ao_mem out) = take (nat data) mem"
    "drop (nat (data + n)) (ao_mem out) = drop (nat (data + n)) mem"
    using out(3) by (auto simp: array_rest_def ArrayOutputStream_ctor_def)
  moreover have "AOS_ByteCount out = int (length (Serialize m)) \<and> take (length (Serialize m)) (drop (nat data) (ao_mem out)) = Serialize m"
    if fit: "int (length (Serialize m)) \<le> n"
  proof -
    have c: "array_content out = Serialize m" using out(4) fit by blast
    then have "nat (ao_position out) = length (Serialize m)" using array_content_length [OF out(2)] by simp
    moreover have "0 \<le> ao_position out" using out(2) by (simp add: array_ok_def)
    ultimately show ?thesis using c \<open>ao_data out = data\<close> by (auto simp: AOS_ByteCount_def array_content_def)
  qed
  ultimately show ?thesis using out(1) by blast
qed

definition sample_tick :: netmsg where
  "sample_tick = M_Tick (set_nt_host_computationtime 300 (set_nt_tick 7 nt_SharedCtor))"

lemma sample_tick_bytes: "Serialize sample_tick = [8, 7, 32, 172, 2]"
  by code_simp

lemma sample_tick_length: "length (Serialize sample_tick) = 5"
  by (simp add: sample_tick_bytes)

theorem array_stream_exact_witness:
  "(\<exists>out. SerializeToZeroCopyStream array_ops (plain_lib array_ops) sample_tick (ArrayOutputStream_ctor [1, 2, 3, 4, 5, 6, 9] 1 5 2) =
      Some (True, with_cached_size 5 sample_tick, out) \<and>
    take 1 (ao_mem out) = [1] \<and> drop 6 (ao_mem out) = [9] \<and> AOS_ByteCount out = 5 \<and> take 5 (drop 1 (ao_mem out)) = [8, 7, 32, 172, 2]) \<and>
   (\<exists>out. SerializeToZeroCopyStream array_ops (plain_lib array_ops) sample_tick (ArrayOutputStream_ctor [1, 2, 3, 4, 5, 6, 9] 1 4 3) =
      Some (False, with_cached_size 5 sample_tick, out) \<and> take 1 (ao_mem out) = [1] \<and> drop 5 (ao_mem out) = [6, 9])"
  using array_stream_exact [OF plain_lib_off, of 1 5 "[1, 2, 3, 4, 5, 6, 9]" sample_tick 2]
    array_stream_exact [OF plain_lib_off, of 1 4 "[1, 2, 3, 4, 5, 6, 9]" sample_tick 3]
  unfolding sample_tick_length unfolding sample_tick_bytes by (auto simp: INT_MAX_def)

text \<open>
  C28: All ways to serialize a message give the same bytes. Whatever a string holds and however it
  chooses its capacities, appending through \<open>StringOutputStream\<close>, \<open>AppendToString\<close> and (on a
  cleared string) \<open>SerializeToString\<close> succeed and append exactly the bytes of the direct writer,
  and \<open>SerializeToArray\<close> writes them to an array that holds them and nothing otherwise.
\<close>

theorem serializers_agree:
  assumes "capacities_ok grow" and "aliasing_off (string_ops grow) lib" and "length str \<le> capacity" and "int capacity \<le> INT_MAX"
    and "length str + length (Serialize m) < 2 ^ 30" and "0 \<le> data" and "data + n \<le> int (length mem)"
  shows "(\<exists>out. SerializeToZeroCopyStream (string_ops grow) lib m \<lparr>so_target = str, so_capacity = capacity\<rparr> =
        Some (True, with_cached_size (int (length (Serialize m))) m, out) \<and> so_target out = str @ Serialize m) \<and>
    AppendToString m str = Some (with_cached_size (int (length (Serialize m))) m, str @ Serialize m) \<and>
    SerializeToString m str = Some (with_cached_size (int (length (Serialize m))) m, Serialize m) \<and>
    SerializeToArray m mem data n =
      Some (int (length (Serialize m)) \<le> n, with_cached_size (int (length (Serialize m))) m,
        if int (length (Serialize m)) \<le> n
        then take (nat data) mem @ Serialize m @ drop (nat data + length (Serialize m)) mem else mem)"
proof (intro conjI)
  have "string_ok \<lparr>so_target = str, so_capacity = capacity\<rparr>" using assms(3,4) by (simp add: string_ok_def)
  then show "\<exists>out. SerializeToZeroCopyStream (string_ops grow) lib m \<lparr>so_target = str, so_capacity = capacity\<rparr> =
      Some (True, with_cached_size (int (length (Serialize m))) m, out) \<and> so_target out = str @ Serialize m"
    using zero_copy_output.zero_copy_ok [OF string_output [OF assms(1)] assms(2), of "\<lparr>so_target = str, so_capacity = capacity\<rparr>" m] assms(5)
    by auto
  show "AppendToString m str = Some (with_cached_size (int (length (Serialize m))) m, str @ Serialize m)"
    using assms(5) by (intro AppendToString_ok) simp
  show "SerializeToString m str = Some (with_cached_size (int (length (Serialize m))) m, Serialize m)"
    using assms(5) by (simp add: SerializeToString_def AppendToString_ok)
  have "data + int (length (Serialize m)) \<le> int (length mem)" if "int (length (Serialize m)) \<le> n" using assms(7) that by simp
  then show "SerializeToArray m mem data n = Some (int (length (Serialize m)) \<le> n, with_cached_size (int (length (Serialize m))) m,
      if int (length (Serialize m)) \<le> n then take (nat data) mem @ Serialize m @ drop (nat data + length (Serialize m)) mem else mem)"
    using assms(5,6) by (auto simp: SerializeToArray_def SerializePartialToArray_def ByteSize_eq mem_store_def)
qed

theorem serializers_agree_witness:
  "(\<exists>out. SerializeToZeroCopyStream (string_ops doubling) (plain_lib (string_ops doubling)) sample_tick \<lparr>so_target = [1, 2], so_capacity = 3\<rparr> =
      Some (True, with_cached_size 5 sample_tick, out) \<and> so_target out = [1, 2, 8, 7, 32, 172, 2]) \<and>
    AppendToString sample_tick [1, 2] = Some (with_cached_size 5 sample_tick, [1, 2, 8, 7, 32, 172, 2]) \<and>
    SerializeToString sample_tick [1, 2] = Some (with_cached_size 5 sample_tick, [8, 7, 32, 172, 2]) \<and>
    SerializeToArray sample_tick [1, 1, 1, 1, 1, 1, 1] 1 6 = Some (True, with_cached_size 5 sample_tick, [1, 8, 7, 32, 172, 2, 1])"
  using serializers_agree [OF doubling_ok plain_lib_off, of "[1, 2]" 3 sample_tick 1 6 "[1, 1, 1, 1, 1, 1, 1]"]
  unfolding sample_tick_bytes by (simp add: INT_MAX_def)

end
