(* ===== verification/Sniffer.thy ===== *)
theory Sniffer
  imports BitCodec Ice NetMessages
begin

text \<open>
  The packet path of \<^verbatim>\<open>sniffles.cpp\<close>: \<open>packet_loop_handler\<close>, called for every captured
  datagram, decrypts the payload with ICE, checks the framing and hands the packet to
  \<open>ReadPacket\<close>, which walks the protobuf messages in it.

  The messages are parsed by the model of the generated classes (theory NetMessages), in place
  in the local array of \<open>ReadPacket\<close>. What is left as a parameter: \<open>lib\<close> gives the tag reader the
  vendored runtime lacks and the text \<open>DebugString\<close> produces by reflection, and the \<open>find_pdu\<close>
  results of libtins are the fields of a record. Everything printed is an entry of an event log. \<open>ReadPacket\<close> runs with fuel, one unit per iteration of its message loop,
  since that loop can run forever; \<open>Faulted\<close> is an access outside an array or a failed
  assertion.
\<close>

subsection \<open>Vocabulary\<close>

datatype 'a outcome = Returned 'a | Faulted | Running

definition NET_MAX_PAYLOAD :: nat where "NET_MAX_PAYLOAD = 262144 - 4"

definition g_iceKey :: "u8 list" where
  "g_iceKey = [0x43, 0x53, 0x47, 0x4F, 0xCC, 0x34, 0x00, 0x00, 0x33, 0x0D, 0x00, 0x00, 0x4C, 0x03, 0x00, 0x00]"

text \<open>The command numbers that select the four message classes.\<close>

definition net_Tick :: int where "net_Tick = 4"
definition net_SignonState :: int where "net_SignonState = 7"
definition svc_ServerInfo :: int where "svc_ServerInfo = 8"
definition svc_PacketEntities :: int where "svc_PacketEntities = 26"

definition message_of :: "int \<Rightarrow> message option" where
  "message_of Cmd =
     (if Cmd = net_Tick then Some CNETMsg_Tick
      else if Cmd = net_SignonState then Some CNETMsg_SignonState
      else if Cmd = svc_ServerInfo then Some CSVCMsg_ServerInfo
      else if Cmd = svc_PacketEntities then Some CSVCMsg_PacketEntities
      else None)"

datatype event =
    PacketLine int int
  | SrcLine string int
  | DstLine string int
  | PayloadSize nat
  | DeltaOffset nat
  | DataFinalSize u32
  | MsgPrintf message int string

record protobuf_lib =
  ReadTagWithCutoff :: tag_reader
  DebugString :: "netmsg \<Rightarrow> string"

subsection \<open>ReadPacket\<close>

definition dispatch :: "protobuf_lib \<Rightarrow> int \<Rightarrow> int \<Rightarrow> u8 list \<Rightarrow> int \<Rightarrow> event list option" where
  "dispatch lib Cmd bufferSize data parseBuffer =
     (case message_of Cmd of
        None \<Rightarrow> Some []
      | Some c \<Rightarrow> do {
          (ok, msg) \<leftarrow> ParseFrom (ReadTagWithCutoff lib) (new_message c) data parseBuffer bufferSize;
          if ok then Some [MsgPrintf c bufferSize (DebugString lib msg)] else Some [] })"

text \<open>One iteration: the events, the distance of the final \<open>SeekRelative\<close>, and the reader.\<close>

definition read_message :: "protobuf_lib \<Rightarrow> CBitRead \<Rightarrow> (event list \<times> int \<times> CBitRead) option" where
  "read_message lib buf = do {
     (Cmd, buf) \<leftarrow> ReadVarInt32 buf;
     (Size, buf) \<leftarrow> ReadVarInt32 buf;
     data \<leftarrow> m_pData buf;
     ev \<leftarrow> dispatch lib (sint Cmd) (sint Size) data (GetNumBytesRead buf);
     let ofs = i32 (sint Size * 8);
     (_, buf) \<leftarrow> SeekRelative ofs buf;
     Some (ev, ofs, buf) }"

fun message_loop :: "protobuf_lib \<Rightarrow> int \<Rightarrow> nat \<Rightarrow> CBitRead \<Rightarrow> event list \<Rightarrow> event list outcome" where
  "message_loop lib nBytes 0 buf log = Running"
| "message_loop lib nBytes (Suc fuel) buf log =
     (if GetNumBytesRead buf < nBytes then
        (case read_message lib buf of
           None \<Rightarrow> Faulted
         | Some (ev, ofs, buf) \<Rightarrow> message_loop lib nBytes fuel buf (log @ ev))
      else Returned log)"

text \<open>
  \<open>ReadPacket\<close>: the local array \<open>data\<close> is at address \<open>addr\<close> and initially holds \<open>stack\<close>; \<open>raw\<close> is
  the reader object before its constructor.
\<close>

definition ReadPacket_setup :: "nat \<Rightarrow> u8 list \<Rightarrow> CBitRead \<Rightarrow> u8 list \<Rightarrow> int \<Rightarrow> CBitRead option" where
  "ReadPacket_setup addr stack raw packetData nBytes = do {
     buf \<leftarrow> CBitRead_ctor addr (Some stack) (int NET_MAX_PAYLOAD) (-1) raw;
     data \<leftarrow> m_pData buf;
     data \<leftarrow> (if nat nBytes \<le> length packetData \<and> nat nBytes \<le> length data
            then Some (take (nat nBytes) packetData @ drop (nat nBytes) data) else None);
     (_, buf) \<leftarrow> Seek 0 (buf\<lparr>m_pData := Some data\<rparr>);
     Some buf }"

definition ReadPacket_header :: "CBitRead \<Rightarrow> (int \<times> CBitRead) option" where
  "ReadPacket_header buf = do {
     (nSeqNrIn, buf) \<leftarrow> ReadSBitLong 32 buf;
     (nSeqNrOut, buf) \<leftarrow> ReadSBitLong 32 buf;
     (nFlags, buf) \<leftarrow> ReadVarInt32 buf;
     (unk0, buf) \<leftarrow> ReadSBitLong 16 buf;
     (unk1, buf) \<leftarrow> ReadSignedVarInt32 buf;
     Some (sint nFlags, buf) }"

definition ReadPacket ::
  "protobuf_lib \<Rightarrow> nat \<Rightarrow> nat \<Rightarrow> u8 list \<Rightarrow> CBitRead \<Rightarrow> u8 list \<Rightarrow> int \<Rightarrow> (int \<times> event list) outcome" where
  "ReadPacket lib fuel addr stack raw packetData nBytes =
     (if nBytes < 8 then Returned (nBytes, [])
      else case (do { buf \<leftarrow> ReadPacket_setup addr stack raw packetData nBytes; ReadPacket_header buf }) of
          None \<Rightarrow> Faulted
        | Some (nFlags, buf) \<Rightarrow>
            if nFlags = 0 \<or> nFlags mod 256 \<ge> 0xE1 then
              (case message_loop lib nBytes fuel buf [] of
                 Returned log \<Rightarrow> Returned (nBytes, log)
               | Faulted \<Rightarrow> Faulted
               | Running \<Rightarrow> Running)
            else Returned (nBytes, []))"

subsection \<open>Decrypting the payload\<close>

text \<open>\<open>memcpy\<close> of \<open>bs\<close> to offset \<open>p\<close> of a block.\<close>

definition copy_into :: "u8 list \<Rightarrow> int \<Rightarrow> u8 list \<Rightarrow> u8 list option" where
  "copy_into out p bs = (if 0 \<le> p \<and> p + int (length bs) \<le> int (length out)
     then Some (take (nat p) out @ bs @ drop (nat p + length bs) out) else None)"

text \<open>The loop over 8-byte blocks; \<open>p\<close> is the offset of both \<open>p1\<close> and \<open>p2\<close>.\<close>

function decrypt_loop :: "(u8 list \<Rightarrow> u8 list option) \<Rightarrow> u8 list \<Rightarrow> int \<Rightarrow> nat \<Rightarrow> u8 list \<Rightarrow> u8 list option" where
  "decrypt_loop dec payload bytesLeft p out =
     (if 8 \<le> bytesLeft then do {
        b \<leftarrow> dec (drop p payload);
        out \<leftarrow> copy_into out (int p) b;
        decrypt_loop dec payload (bytesLeft - 8) (p + 8) out }
      else copy_into out (int p) (take (nat bytesLeft) (drop p payload)))"
  by pat_completeness auto

termination decrypt_loop
  by (relation "measure (\<lambda>(dec, payload, bytesLeft, p, out). nat bytesLeft)") auto

declare decrypt_loop.simps [simp del]

subsection \<open>The framing\<close>

text \<open>
  The first byte is the distance to the length field, the length is big-endian. The
  result is \<open>Some data\<close> if the packet is complete.
\<close>

definition frame_packet :: "u8 list \<Rightarrow> (nat \<times> u32 option \<times> u8 list option) option" where
  "frame_packet pDataOut = do {
     let size = (of_nat (length pDataOut) :: u32);
     deltaOffset \<leftarrow> peek8 pDataOut 0;
     if 0 < deltaOffset \<and> ucast deltaOffset + 5 < size then do {
       dataFinalSize \<leftarrow> get_long pDataOut (uint deltaOffset + 1);
       if dataFinalSize + ucast deltaOffset + 5 = size then do {
         let src = drop (unat deltaOffset + 5) pDataOut;
         if unat dataFinalSize \<le> length src
         then Some (unat deltaOffset, Some dataFinalSize, Some (take (unat dataFinalSize) src))
         else None }
       else Some (unat deltaOffset, Some dataFinalSize, None) }
     else Some (unat deltaOffset, None, None) }"

subsection \<open>The handler\<close>

record IP =
  ip_id :: int
  ip_version :: int
  ip_src :: string
  ip_dst :: string

record UDP =
  udp_sport :: int
  udp_dport :: int

record PDU =
  find_IP :: "IP option"
  find_UDP :: "UDP option"
  find_RawPDU :: "u8 list option"

text \<open>
  \<open>env\<close> collects what the handler finds in memory: the uninitialised contents of the
  heap blocks, the key schedule and the stack, and whether \<open>malloc\<close> returns a block for
  \<open>pDataOut\<close> and for \<open>packetData\<close>.
\<close>

record handler_env =
  env_heap :: "nat \<Rightarrow> u8"
  env_pDataOut :: bool
  env_packetData :: bool
  env_sched :: "nat \<Rightarrow> IceSubkey"
  env_addr :: nat
  env_stack :: "u8 list"
  env_reader :: CBitRead

text \<open>
  A null \<open>pDataOut\<close> is not tested: the first block, or the tail, is written through it, and its
  first byte is read behind the loop even if there was nothing to write.
\<close>

definition decrypt_payload :: "handler_env \<Rightarrow> ice_static \<Rightarrow> u8 list \<Rightarrow> (u8 list \<times> ice_static) option" where
  "decrypt_payload env st payload = do {
     (k, st) \<leftarrow> IceKey_ctor (env_sched env) 2 st;
     k \<leftarrow> set_key g_iceKey k;
     pDataOut \<leftarrow> (if env_pDataOut env then Some (map (env_heap env) [0..<length payload]) else None);
     out \<leftarrow> decrypt_loop (decrypt st k) payload (int (length payload)) 0 pDataOut;
     Some (out, st) }"

text \<open>
  \<open>memcpy\<close> of the packet to a null \<open>packetData\<close> comes before the test of the pointer; only for an
  empty packet does the test matter.
\<close>

definition packet_loop_handler ::
  "protobuf_lib \<Rightarrow> nat \<Rightarrow> handler_env \<Rightarrow> PDU \<Rightarrow> ice_static \<Rightarrow> (event list \<times> ice_static) outcome" where
  "packet_loop_handler lib fuel env eth st =
     (case find_IP eth of None \<Rightarrow> Returned ([], st) | Some ip \<Rightarrow>
      case find_UDP eth of None \<Rightarrow> Returned ([], st) | Some udp \<Rightarrow>
      if udp_sport udp \<noteq> 27015 then Returned ([], st)
      else case find_RawPDU eth of None \<Rightarrow> Faulted | Some payload \<Rightarrow>
        (let log = [PacketLine (ip_id ip) (ip_version ip), SrcLine (ip_src ip) (udp_dport udp),
                    DstLine (ip_dst ip) (udp_dport udp), PayloadSize (length payload)]
         in case decrypt_payload env st payload of
              None \<Rightarrow> Faulted
            | Some (pDataOut, st) \<Rightarrow>
                (case frame_packet pDataOut of
                   None \<Rightarrow> Faulted
                 | Some (deltaOffset, final, packet) \<Rightarrow>
                     (let log = log @ [DeltaOffset deltaOffset] @ (case final of None \<Rightarrow> [] | Some n \<Rightarrow> [DataFinalSize n])
                      in case packet of
                           None \<Rightarrow> Returned (log, st)
                         | Some data \<Rightarrow>
                             if \<not> env_packetData env then (if data = [] then Returned (log, st) else Faulted)
                             else (case ReadPacket lib fuel (env_addr env) (env_stack env) (env_reader env) data (int (length data)) of
                                Returned (_, msgs) \<Rightarrow> Returned (log @ msgs, st)
                              | Faulted \<Rightarrow> Faulted
                              | Running \<Rightarrow> Running)))))"

subsection \<open>Blockwise decryption\<close>

text \<open>What the sender does to a payload: whole blocks through the cipher, the tail as it is.\<close>

function apply_blocks :: "(u8 list \<Rightarrow> u8 list option) \<Rightarrow> u8 list \<Rightarrow> u8 list option" where
  "apply_blocks f xs =
     (if 8 \<le> length xs then do { b \<leftarrow> f xs; rest \<leftarrow> apply_blocks f (drop 8 xs); Some (b @ rest) } else Some xs)"
  by pat_completeness auto

termination apply_blocks
  by (relation "measure (\<lambda>(f, xs). length xs)") auto

declare apply_blocks.simps [simp del]

lemma decrypt_loop_blocks:
  assumes f: "\<And>xs. 8 \<le> length xs \<Longrightarrow> \<exists>b. f xs = Some b \<and> length b = 8"
    and "p \<le> length payload" and "length out = length payload" and "n = int (length payload) - int p"
  shows "\<exists>r. apply_blocks f (drop p payload) = Some r \<and> length r = length payload - p \<and>
    decrypt_loop f payload n p out = Some (take p out @ r)"
  using assms(2-4)
proof (induction "length payload - p" arbitrary: p out n rule: less_induct)
  case less
  show ?case
  proof (cases "8 \<le> length payload - p")
    case True
    then obtain b where b: "f (drop p payload) = Some b" "length b = 8" using f [of "drop p payload"] by auto
    define out1 where "out1 = take p out @ b @ drop (p + 8) out"
    have out1: "copy_into out (int p) b = Some out1" "length out1 = length payload" "take (p + 8) out1 = take p out @ b"
      using True less.prems b(2) by (auto simp: copy_into_def out1_def)
    obtain r where r: "apply_blocks f (drop (p + 8) payload) = Some r" "length r = length payload - (p + 8)"
      "decrypt_loop f payload (n - 8) (p + 8) out1 = Some (take (p + 8) out1 @ r)"
    proof -
      have "length payload - (p + 8) < length payload - p" "p + 8 \<le> length payload"
        "n - 8 = int (length payload) - int (p + 8)" using True less.prems by linarith+
      from less.hyps [OF this(1,2) out1(2) this(3)] show ?thesis using that by blast
    qed
    have "apply_blocks f (drop p payload) = Some (b @ r)"
      using True b r(1) by (subst apply_blocks.simps) (simp add: add.commute)
    moreover have "decrypt_loop f payload n p out = Some (take p out @ b @ r)"
    proof -
      have "8 \<le> n" using True less.prems by linarith
      then show ?thesis using b out1 r(3) by (subst decrypt_loop.simps) simp
    qed
    ultimately show ?thesis using b(2) r(2) True by auto
  next
    case False
    then have "apply_blocks f (drop p payload) = Some (drop p payload)"
      by (subst apply_blocks.simps) simp
    moreover have "nat n = length payload - p" "\<not> 8 \<le> n" using less.prems False by linarith+
    then have "decrypt_loop f payload n p out = copy_into out (int p) (drop p payload)"
      by (subst decrypt_loop.simps) simp
    moreover have "copy_into out (int p) (drop p payload) = Some (take p out @ drop p payload)"
      using less.prems by (simp add: copy_into_def)
    ultimately show ?thesis by simp
  qed
qed

context block_cipher
begin

lemma blocks_inverse:
  assumes "ready k"
  shows "\<exists>ys. apply_blocks (enc k) xs = Some ys \<and> length ys = length xs \<and> apply_blocks (dec k) ys = Some xs"
proof (induction "length xs" arbitrary: xs rule: less_induct)
  case less
  show ?case
  proof (cases "8 \<le> length xs")
    case True
    then obtain ys where ys: "apply_blocks (enc k) (drop 8 xs) = Some ys" "length ys = length xs - 8"
      "apply_blocks (dec k) ys = Some (drop 8 xs)"
    proof -
      have "length (drop 8 xs) < length xs" using True by (cases xs) auto
      from less.hyps [OF this] show ?thesis using that by auto
    qed
    obtain c where c: "enc k xs = Some c" "length c = 8" "dec k (c @ ys) = Some (take 8 xs)"
      using enc_then_dec [OF assms True] by blast
    have "apply_blocks (enc k) xs = Some (c @ ys)" using True c ys by (subst apply_blocks.simps) simp
    moreover have "apply_blocks (dec k) (c @ ys) = Some xs" using c ys by (subst apply_blocks.simps) simp
    ultimately show ?thesis using c(2) ys(2) True by auto
  next
    case False
    then show ?thesis by (simp add: apply_blocks.simps)
  qed
qed

end

lemma decrypt_payload_inverts:
  assumes "static_ok st"
  shows "\<exists>k st' ys. static_ok st' \<and> key_ready st' k \<and> ik_keysched k = key_schedule g_iceKey 2 \<and>
    apply_blocks (encrypt st' k) xs = Some ys \<and> length ys = length xs \<and>
    decrypt_payload env st ys = (if env_pDataOut env then Some (xs, st') else None)"
proof -
  have "8 * max 1 2 \<le> int (length g_iceKey)" by (simp add: g_iceKey_def)
  then obtain k0 st' k where k: "IceKey_ctor (env_sched env) 2 st = Some (k0, st')" "set_key g_iceKey k0 = Some k"
    "key_ready st' k" "static_ok st'" "ik_keysched k = key_schedule g_iceKey 2"
    using key_ready_after_set [OF assms, of 2 g_iceKey "env_sched env"] by auto
  obtain ys where ys: "apply_blocks (encrypt st' k) xs = Some ys" "length ys = length xs"
    "apply_blocks (decrypt st' k) ys = Some xs"
    using ice.blocks_inverse [of "(st', k)" xs] k(3) by auto
  have tot: "\<exists>b. decrypt st' k c = Some b \<and> length b = 8" if "8 \<le> length c" for c
    using ice.dec_total [of "(st', k)" c] k(3) that by auto
  from decrypt_loop_blocks [of "decrypt st' k", OF tot, of 0 ys "map (env_heap env) [0..<length ys]" "int (length ys)"] ys(3)
  have "decrypt_loop (decrypt st' k) ys (int (length ys)) 0 (map (env_heap env) [0..<length ys]) = Some xs" by auto
  then have "decrypt_payload env st ys = (if env_pDataOut env then Some (xs, st') else None)"
    using k(1,2) by (simp add: decrypt_payload_def)
  then show ?thesis using k ys by blast
qed

subsection \<open>The framing check\<close>

lemma be_bytes_surj: "length bs = 4 \<Longrightarrow> \<exists>w. bs = be_bytes w"
proof -
  assume l: "length bs = 4"
  have "8 \<le> length (bs @ bs)" using l by simp
  then obtain u v where "take 8 (bs @ bs) = be_bytes u @ be_bytes v" by (rule block_parts)
  then show ?thesis using l by auto
qed

lemma get_long_field:
  assumes "a + 4 \<le> length out"
  shows "\<exists>w. get_long out (int a) = Some w \<and> out = take a out @ be_bytes w @ drop (a + 4) out"
proof -
  obtain w where w: "take 4 (drop a out) = be_bytes w" using be_bytes_surj [of "take 4 (drop a out)"] assms by auto
  have "out = take a out @ take 4 (drop a out) @ drop 4 (drop a out)" by (simp only: append_take_drop_id)
  then have out: "out = take a out @ be_bytes w @ drop (a + 4) out" unfolding w by (simp add: add.commute)
  moreover have "length (take a out) = a" using assms by simp
  ultimately show ?thesis using get_long_be_bytes [of "take a out" a w "drop (a + 4) out"] by metis
qed

lemma be_bytes_inj: "be_bytes u = be_bytes v \<Longrightarrow> u = v"
  using get_long_be_bytes [of "[]" 0 u "[]"] get_long_be_bytes [of "[]" 0 v "[]"] by simp

text \<open>No 32-bit wrap-around can satisfy the check: the fields add up exactly.\<close>

lemma sum_no_wrap:
  assumes "d + 5 < n" and "n < 2 ^ 31" and "d < 256"
  shows "w + of_nat d + 5 = (of_nat n :: u32) \<longleftrightarrow> unat w + d + 5 = n"
proof -
  have "w + of_nat d + 5 = (of_nat n :: u32) \<longleftrightarrow> (of_nat (unat w + d + 5) :: u32) = of_nat n" by simp
  also have "\<dots> \<longleftrightarrow> (unat w + d + 5) mod 2 ^ 32 = n mod 2 ^ 32"
    unfolding word_of_nat_eq_iff by (simp add: take_bit_eq_mod)
  also have "\<dots> \<longleftrightarrow> unat w + d + 5 = n"
  proof
    assume e: "(unat w + d + 5) mod 2 ^ 32 = n mod 2 ^ 32"
    have w: "unat w < 2 ^ 32" using unsigned_less [of w, where 'a = nat] by simp
    show "unat w + d + 5 = n"
    proof (cases "unat w + d + 5 < 2 ^ 32")
      case True
      then show ?thesis using e assms(2) by simp
    next
      case False
      then have "(unat w + d + 5) mod 2 ^ 32 = unat w + d + 5 - 2 ^ 32" using w assms(3) by (simp add: le_mod_geq)
      with e assms w False show ?thesis by simp
    qed
  qed simp
  finally show ?thesis .
qed

lemma frame_packet_cases:
  assumes "0 < length out" and "length out < 2 ^ 31"
  shows "if 0 < unat (out ! 0) \<and> unat (out ! 0) + 5 < length out
    then \<exists>w. frame_packet out = Some (unat (out ! 0), Some w,
        if unat w + unat (out ! 0) + 5 = length out then Some (drop (unat (out ! 0) + 5) out) else None) \<and>
      out = take (unat (out ! 0) + 1) out @ be_bytes w @ drop (unat (out ! 0) + 5) out
    else frame_packet out = Some (unat (out ! 0), None, None)"
proof -
  define d where "d = out ! 0"
  have pk: "peek8 out 0 = Some d" using assms(1) by (simp add: d_def)
  have d: "unat d < 256" using unsigned_less [of d, where 'a = nat] by simp
  have ud: "(ucast d :: u32) = of_nat (unat d)" by simp
  have guard: "(0 < d \<and> ucast d + 5 < (of_nat (length out) :: u32)) \<longleftrightarrow> (0 < unat d \<and> unat d + 5 < length out)"
  proof -
    have "unat (of_nat (unat d + 5) :: u32) = unat d + 5"
      unfolding unsigned_of_nat using d by (simp add: take_bit_nat_eq_self)
    then have "unat (of_nat (unat d) + 5 :: u32) = unat d + 5" by simp
    then show ?thesis
      unfolding ud using assms(2) by (simp add: word_less_nat_alt unsigned_of_nat take_bit_nat_eq_self)
  qed
  show ?thesis
  proof (cases "0 < unat d \<and> unat d + 5 < length out")
    case False
    have "frame_packet out = Some (unat d, None, None)"
      unfolding frame_packet_def Let_def pk bind.bind_lunit guard if_not_P [OF False] ..
    with False show ?thesis by (simp add: d_def)
  next
    case True
    then obtain w where w: "get_long out (int (unat d + 1)) = Some w"
      "out = take (unat d + 1) out @ be_bytes w @ drop (unat d + 1 + 4) out"
      using get_long_field [of "unat d + 1" out] by auto
    have "frame_packet out = Some (unat d, Some w, if unat w + unat d + 5 = length out then Some (drop (unat d + 5) out) else None)"
    proof -
      have e: "uint d + 1 = int (unat d + 1)" by simp
      have sum: "(w + ucast d + 5 = (of_nat (length out) :: u32)) = (unat w + unat d + 5 = length out)"
        unfolding ud by (rule sum_no_wrap) (use True assms(2) d in auto)
      show ?thesis
        unfolding frame_packet_def Let_def pk bind.bind_lunit guard if_P [OF True] e w(1) sum
        by (cases "unat w + unat d + 5 = length out") auto
    qed
    with True w(2) show ?thesis unfolding d_def [symmetric] by (auto simp: numeral_eq_Suc)
  qed
qed

text \<open>A complete frame: the offset byte, that many bytes, the big-endian length, the packet.\<close>

definition frame_of :: "u8 list \<Rightarrow> u8 list \<Rightarrow> u8 list" where
  "frame_of fill data = of_nat (length fill) # fill @ be_bytes (of_nat (length data)) @ data"

lemma frame_packet_complete:
  assumes "0 < length fill" and "length fill < 256" and "data \<noteq> []" and "length data < 2 ^ 30"
  shows "frame_packet (frame_of fill data) = Some (length fill, Some (of_nat (length data)), Some data)"
proof -
  let ?out = "frame_of fill data"
  have d: "unat (?out ! 0) = length fill" using assms(2) by (simp add: frame_of_def unsigned_of_nat take_bit_nat_eq_self)
  have len: "length ?out = length fill + 5 + length data" by (simp add: frame_of_def)
  obtain w where w: "frame_packet ?out = Some (length fill, Some w,
      if unat w + length fill + 5 = length ?out then Some (drop (length fill + 5) ?out) else None)"
    "?out = take (length fill + 1) ?out @ be_bytes w @ drop (length fill + 5) ?out"
    using frame_packet_cases [of ?out] assms len unfolding d by auto
  have "take (length fill + 1) ?out = of_nat (length fill) # fill" "drop (length fill + 5) ?out = data"
    by (simp_all add: frame_of_def drop_Cons' add.commute [of _ 5])
  with w have "frame_packet ?out = Some (length fill, Some w, if unat w + length fill + 5 = length ?out then Some data else None)"
    and "be_bytes w = be_bytes (of_nat (length data))"
    by (simp_all add: frame_of_def)
  then have "w = of_nat (length data)" by (simp add: be_bytes_inj)
  then have "unat w = length data" using assms(4) by (simp add: unsigned_of_nat take_bit_nat_eq_self)
  with w \<open>drop (length fill + 5) ?out = data\<close> \<open>w = of_nat (length data)\<close> len show ?thesis by simp
qed

lemma frame_packet_only:
  assumes "0 < length out" and "length out < 2 ^ 31" and "frame_packet out = Some (d, f, Some data)"
  shows "\<exists>fill. out = frame_of fill data \<and> length fill = d \<and> 0 < d \<and> d < 256 \<and> data \<noteq> [] \<and> f = Some (of_nat (length data))"
proof -
  define e where "e = unat (out ! 0)"
  have e: "e < 256" using unsigned_less [of "out ! 0", where 'a = nat] by (simp add: e_def)
  have g: "0 < e \<and> e + 5 < length out" using frame_packet_cases [OF assms(1,2)] assms(3) by (auto simp: e_def split: if_splits)
  then obtain w where w: "frame_packet out = Some (e, Some w, if unat w + e + 5 = length out then Some (drop (e + 5) out) else None)"
    "out = take (e + 1) out @ be_bytes w @ drop (e + 5) out"
    using frame_packet_cases [OF assms(1,2)] by (auto simp: e_def)
  then have dat: "d = e" "f = Some w" "unat w + e + 5 = length out" "data = drop (e + 5) out" using assms(3) by (auto split: if_splits)
  obtain x xs where out: "out = x # xs" using assms(1) by (cases out) auto
  have "take (e + 1) out = of_nat e # take e xs" using out by (simp add: e_def)
  moreover have "unat w = length data" using dat(3,4) by simp
  then have "w = of_nat (length data)" by (metis of_nat_unat ucast_id)
  ultimately have "out = frame_of (take e xs) data" using w(2) dat(4) out g by (simp add: frame_of_def)
  then show ?thesis using dat g e out \<open>w = of_nat (length data)\<close> by (intro exI [of _ "take e xs"]) auto
qed

subsection \<open>Messages on the wire\<close>

type_synonym wire_message = "u32 \<times> u8 list"

definition message_bytes :: "wire_message \<Rightarrow> u8 list" where
  "message_bytes msg = varint_bytes (unat (fst msg)) @ varint_bytes (length (snd msg)) @ snd msg"

text \<open>\<open>dispatched lib msg ev\<close>: wherever the message lies in the array, it is dispatched with the events \<open>ev\<close>.\<close>

definition dispatched :: "protobuf_lib \<Rightarrow> wire_message \<Rightarrow> event list \<Rightarrow> bool" where
  "dispatched lib msg ev \<longleftrightarrow> (\<forall>pre post. length (pre @ snd msg @ post) < 2 ^ 27 \<longrightarrow>
     dispatch lib (sint (fst msg)) (int (length (snd msg))) (pre @ snd msg @ post) (int (length pre)) = Some ev)"

lemma carries_at: "m = pre @ bs @ post \<Longrightarrow> p = 8 * length pre \<Longrightarrow> carries m p bs"
  using carries_block by blast

lemma sint_of_nat_small: "n < 2 ^ 31 \<Longrightarrow> sint (of_nat n :: u32) = int n"
  by (simp add: signed_of_nat signed_take_bit_int_eq_self)

lemma read_message_ok:
  assumes at: "reads_at m (8 * length pre) s" and m: "m = pre @ message_bytes (cmd, body) @ post" and len: "4 \<le> length m"
    and ev: "dispatched lib (cmd, body) ev"
  shows "\<exists>s'. read_message lib s = Some (ev, 8 * int (length body), s') \<and>
    reads_at m (8 * length (pre @ message_bytes (cmd, body))) s'"
proof -
  let ?c = "varint_bytes (unat cmd)" and ?n = "varint_bytes (length body)"
  have small: "length m < 2 ^ 27" using at by (auto simp: reads_at_def reader_defs)
  then have body: "length body < 2 ^ 27" unfolding m by (simp add: message_bytes_def)
  then have n: "unat (of_nat (length body) :: u32) = length body" "sint (of_nat (length body) :: u32) = int (length body)"
    by (simp_all add: unsigned_of_nat take_bit_nat_eq_self sint_of_nat_small)
  obtain s1 where s1: "ReadVarInt32 s = Some (cmd, s1)" "reads_at m (8 * length (pre @ ?c)) s1"
    using ReadVarInt32_at [OF at, of cmd] carries_at [of m pre ?c "?n @ body @ post" "8 * length pre"] m
    by (auto simp: message_bytes_def distrib_left)
  obtain s2 where s2: "ReadVarInt32 s1 = Some (of_nat (length body), s2)" "reads_at m (8 * length (pre @ ?c @ ?n)) s2"
    using ReadVarInt32_at [OF s1(2), of "of_nat (length body)"]
      carries_at [of m "pre @ ?c" ?n "body @ post" "8 * length (pre @ ?c)"] m n(1)
    by (auto simp: message_bytes_def distrib_left add.assoc)
  define q where "q = length (pre @ ?c @ ?n)"
  have frame: "reader_frame m s2" "\<not> m_bOverflow s2" "m_pData s2 = Some m"
    using s2(2) by (auto simp: reads_at_def reader_defs)
  have bytes: "GetNumBytesRead s2 = int q" and bits: "GetNumBitsRead s2 = int (8 * q)"
    using GetNumBytesRead_at [OF s2(2)] GetNumBitsRead_at [OF s2(2)] by (simp_all add: q_def)
  have m': "m = (pre @ ?c @ ?n) @ body @ post" unfolding m by (simp add: message_bytes_def)
  then have qm: "q + length body \<le> length m" by (simp add: q_def)
  have disp: "dispatch lib (sint cmd) (int (length body)) m (int q) = Some ev"
  proof -
    have "length ((pre @ ?c @ ?n) @ body @ post) < 2 ^ 27" using small m' by simp
    with ev have "dispatch lib (sint cmd) (int (length body)) ((pre @ ?c @ ?n) @ body @ post) (int (length (pre @ ?c @ ?n))) = Some ev"
      unfolding dispatched_def fst_conv snd_conv by blast
    then show ?thesis unfolding m' [symmetric] q_def .
  qed
  have ofs: "i32 (int (length body) * 8) = 8 * int (length body)" using body by simp
  have tgt: "i32 (int (8 * q) + 8 * int (length body)) = int (8 * (q + length body))"
    using qm small by simp
  obtain s3 where s3: "Seek (int (8 * (q + length body))) s2 = Some (True, s3)" "reads_at m (8 * (q + length body)) s3"
    using Seek_reads [OF frame(1,2), of "8 * (q + length body)"] qm len by auto
  have "SeekRelative (8 * int (length body)) s2 = Some (True, s3)"
    unfolding SeekRelative_def bits tgt by (rule s3(1))
  then have "read_message lib s = Some (ev, 8 * int (length body), s3)"
    unfolding read_message_def
    by (simp only: s1(1) s2(1) frame(3) bytes bind.bind_lunit prod.case n(2) disp Let_def ofs)
  moreover have "q + length body = length (pre @ message_bytes (cmd, body))" by (simp add: q_def message_bytes_def)
  ultimately show ?thesis using s3(2) by metis
qed

lemma message_loop_ok:
  assumes "reads_at m (8 * length pre) s" and "m = pre @ concat (map message_bytes msgs) @ post" and "4 \<le> length m"
    and "sz = int (length (pre @ concat (map message_bytes msgs)))" and "length msgs < fuel" and "list_all2 (dispatched lib) msgs evs"
  shows "message_loop lib sz fuel s log = Returned (log @ concat evs)"
  using assms
proof (induction msgs arbitrary: pre s fuel log evs)
  case Nil
  then obtain f where "fuel = Suc f" by (cases fuel) auto
  moreover have "GetNumBytesRead s = int (length pre)" using GetNumBytesRead_at [OF Nil.prems(1)] by simp
  ultimately show ?case using Nil.prems(4,6) by simp
next
  case (Cons msg msgs)
  obtain cmd body where msg: "msg = (cmd, body)" by (cases msg)
  obtain ev evs' where ev: "evs = ev # evs'" "dispatched lib msg ev" "list_all2 (dispatched lib) msgs evs'"
    using Cons.prems(6) by (auto simp: list_all2_Cons1)
  obtain f where f: "fuel = Suc f" "length msgs < f" using Cons.prems(5) by (cases fuel) auto
  obtain s' where s': "read_message lib s = Some (ev, 8 * int (length body), s')"
    "reads_at m (8 * length (pre @ message_bytes msg)) s'"
    using read_message_ok [OF Cons.prems(1), of cmd body "concat (map message_bytes msgs) @ post" lib ev] Cons.prems(2,3) ev(2) msg by auto
  have "varint_bytes (unat cmd) \<noteq> []" by (subst varint_bytes.simps) simp
  then have "0 < length (message_bytes msg)" by (simp add: msg message_bytes_def)
  moreover have "GetNumBytesRead s = int (length pre)" using GetNumBytesRead_at [OF Cons.prems(1)] by simp
  ultimately have "GetNumBytesRead s < sz" using Cons.prems(4) by (simp del: length_greater_0_conv)
  moreover have "message_loop lib sz f s' (log @ ev) = Returned ((log @ ev) @ concat evs')"
    using Cons.IH [OF s'(2), of f evs' "log @ ev"] Cons.prems(2-4) f(2) ev(3) by simp
  ultimately show ?case using s'(1) f(1) ev(1) by simp
qed

subsection \<open>A whole packet\<close>

definition packet_bytes :: "u8 list \<Rightarrow> u32 \<Rightarrow> u8 list \<Rightarrow> u32 \<Rightarrow> u8 list \<Rightarrow> u8 list" where
  "packet_bytes seq flags unk0 unk1 body =
     seq @ varint_bytes (unat flags) @ unk0 @ varint_bytes (unat unk1) @ body"

lemma ReadSBitLong_at:
  assumes "reads_at m p s" and "1 \<le> n" and "n \<le> 32" and "p + n \<le> 8 * length m"
  shows "\<exists>v s'. ReadSBitLong (int n) s = Some (v, s') \<and> reads_at m (p + n) s'"
  using ReadUBitLong_reads [OF assms(1), of "int n"] assms(2-4) by (auto simp: ReadSBitLong_def)

lemma ReadPacket_setup_ok:
  assumes "addr mod 4 = 0" and "length stack = NET_MAX_PAYLOAD" and "length packet \<le> NET_MAX_PAYLOAD"
  shows "\<exists>s. ReadPacket_setup addr stack raw packet (int (length packet)) = Some s \<and>
    reads_at (packet @ drop (length packet) stack) 0 s"
proof -
  let ?m = "packet @ drop (length packet) stack"
  have len: "length ?m = NET_MAX_PAYLOAD" "length stack < 2 ^ 27" "stack \<noteq> []"
    using assms(2,3) by (auto simp: NET_MAX_PAYLOAD_def)
  obtain s where s: "CBitRead_ctor addr (Some stack) (int (length stack)) (-1) raw = Some s" "reads_at stack 0 s"
    using CBitRead_ctor_reads [OF assms(1) len(3,2)] by blast
  then have "m_pData s = Some stack" "reader_frame ?m (s\<lparr>m_pData := Some ?m\<rparr>)" "\<not> m_bOverflow (s\<lparr>m_pData := Some ?m\<rparr>)"
    using assms(2,3) by (auto simp: reads_at_def reader_defs)
  moreover obtain s' where "Seek (int 0) (s\<lparr>m_pData := Some ?m\<rparr>) = Some (True, s')" "reads_at ?m 0 s'"
    using Seek_reads [of ?m "s\<lparr>m_pData := Some ?m\<rparr>" 0] calculation
    unfolding len(1) by (auto simp: NET_MAX_PAYLOAD_def)
  ultimately show ?thesis using s(1) assms(2,3) by (auto simp: ReadPacket_setup_def)
qed

lemma ReadPacket_header_ok:
  assumes at: "reads_at m 0 s" and m: "m = packet_bytes seq flags unk0 unk1 body @ post"
    and len: "length seq = 8" "length unk0 = 2"
  shows "\<exists>s'. ReadPacket_header s = Some (sint flags, s') \<and>
    reads_at m (8 * length (packet_bytes seq flags unk0 unk1 [])) s'"
proof -
  let ?f = "varint_bytes (unat flags)" and ?u = "varint_bytes (unat unk1)"
  have m': "m = seq @ ?f @ unk0 @ ?u @ body @ post" by (simp add: m packet_bytes_def)
  have room: "64 + 8 * length ?f + 16 \<le> 8 * length m" unfolding m' using len by simp
  obtain v1 s1 where s1: "ReadSBitLong 32 s = Some (v1, s1)" "reads_at m 32 s1"
    using ReadSBitLong_at [OF at, of 32] room by auto
  obtain v2 s2 where s2: "ReadSBitLong 32 s1 = Some (v2, s2)" "reads_at m 64 s2"
    using ReadSBitLong_at [OF s1(2), of 32] room by auto
  obtain s3 where s3: "ReadVarInt32 s2 = Some (flags, s3)" "reads_at m (64 + 8 * length ?f) s3"
    using ReadVarInt32_at [OF s2(2), of flags] carries_at [OF m', of 64] len(1) by auto
  obtain v4 s4 where s4: "ReadSBitLong 16 s3 = Some (v4, s4)" "reads_at m (64 + 8 * length ?f + 16) s4"
    using ReadSBitLong_at [OF s3(2), of 16] room by auto
  have "carries m (64 + 8 * length ?f + 16) ?u"
    using carries_at [of m "seq @ ?f @ unk0" ?u "body @ post"] m' len by simp
  then obtain s5 where s5: "ReadVarInt32 s4 = Some (unk1, s5)" "reads_at m (64 + 8 * length ?f + 16 + 8 * length ?u) s5"
    using ReadVarInt32_at [OF s4(2), of unk1] by auto
  have "64 + 8 * length ?f + 16 + 8 * length ?u = 8 * length (packet_bytes seq flags unk0 unk1 [])"
    using len by (simp add: packet_bytes_def)
  with s1 s2 s3 s4 s5 show ?thesis
    by (simp add: ReadPacket_header_def ReadSignedVarInt32_def)
qed

lemma sint_mod_256: "sint (w::u32) mod 256 = int (unat w mod 256)"
proof -
  have "take_bit 8 (sint w) = take_bit 8 (uint w)"
    by (simp add: sint_uint take_bit_signed_take_bit)
  then show ?thesis by (simp add: take_bit_eq_mod zmod_int)
qed

definition flags_ok :: "u32 \<Rightarrow> bool" where
  "flags_ok flags \<longleftrightarrow> flags = 0 \<or> 0xE1 \<le> unat flags mod 256"

lemma ReadPacket_run:
  assumes "addr mod 4 = 0" and "length stack = NET_MAX_PAYLOAD" and "length seq = 8" and "length unk0 = 2" and "flags_ok flags"
    and p: "packet = packet_bytes seq flags unk0 unk1 body" and "length packet \<le> NET_MAX_PAYLOAD"
  shows "\<exists>s. reads_at (packet @ drop (length packet) stack) (8 * length (packet_bytes seq flags unk0 unk1 [])) s \<and>
    ReadPacket lib fuel addr stack raw packet (int (length packet)) =
      (case message_loop lib (int (length packet)) fuel s [] of
         Returned log \<Rightarrow> Returned (int (length packet), log) | Faulted \<Rightarrow> Faulted | Running \<Rightarrow> Running)"
proof -
  let ?m = "packet @ drop (length packet) stack"
  obtain s where s: "ReadPacket_setup addr stack raw packet (int (length packet)) = Some s" "reads_at ?m 0 s"
    using ReadPacket_setup_ok [OF assms(1,2,7)] by blast
  obtain s' where s': "ReadPacket_header s = Some (sint flags, s')" "reads_at ?m (8 * length (packet_bytes seq flags unk0 unk1 [])) s'"
    using ReadPacket_header_ok [OF s(2) _ assms(3,4), of flags unk1 body] p by auto
  have "sint flags = 0 \<or> sint flags mod 256 \<ge> 0xE1"
    using assms(5) by (auto simp: flags_ok_def sint_mod_256)
  moreover have "\<not> int (length packet) < 8" using p assms(3) by (simp add: packet_bytes_def)
  ultimately show ?thesis using s(1) s' by (auto simp: ReadPacket_def)
qed

lemma ReadPacket_messages:
  assumes "addr mod 4 = 0" and "length stack = NET_MAX_PAYLOAD" and "length seq = 8" and "length unk0 = 2" and "flags_ok flags"
    and p: "packet = packet_bytes seq flags unk0 unk1 (concat (map message_bytes msgs))" and "length packet \<le> NET_MAX_PAYLOAD"
    and "length msgs < fuel" and "list_all2 (dispatched lib) msgs evs"
  shows "ReadPacket lib fuel addr stack raw packet (int (length packet)) = Returned (int (length packet), concat evs)"
proof -
  let ?m = "packet @ drop (length packet) stack" and ?pre = "packet_bytes seq flags unk0 unk1 []"
  obtain s where s: "reads_at ?m (8 * length ?pre) s"
    "ReadPacket lib fuel addr stack raw packet (int (length packet)) =
      (case message_loop lib (int (length packet)) fuel s [] of
         Returned log \<Rightarrow> Returned (int (length packet), log) | Faulted \<Rightarrow> Faulted | Running \<Rightarrow> Running)"
    using ReadPacket_run [OF assms(1-7)] by blast
  have pk: "packet = ?pre @ concat (map message_bytes msgs)" by (simp add: p packet_bytes_def)
  have "4 \<le> length ?m" using assms(2,7) by (simp add: NET_MAX_PAYLOAD_def)
  then have "message_loop lib (int (length packet)) fuel s [] = Returned ([] @ concat evs)"
    using pk assms(8,9) by (intro message_loop_ok [OF s(1)]) auto
  with s(2) show ?thesis by simp
qed

subsection \<open>Progress of the message loop\<close>

inductive message_step :: "protobuf_lib \<Rightarrow> int \<Rightarrow> CBitRead \<Rightarrow> int \<Rightarrow> CBitRead \<Rightarrow> bool" for lib nBytes where
  step: "GetNumBytesRead s < nBytes \<Longrightarrow> read_message lib s = Some (ev, ofs, s') \<Longrightarrow> message_step lib nBytes s ofs s'"

inductive_cases message_stepE: "message_step lib nBytes s ofs s'"

definition reachable :: "protobuf_lib \<Rightarrow> int \<Rightarrow> CBitRead \<Rightarrow> CBitRead \<Rightarrow> bool" where
  "reachable lib nBytes = (\<lambda>s s'. \<exists>ofs. message_step lib nBytes s ofs s')\<^sup>*\<^sup>*"

lemma SeekRelative_forward:
  assumes "0 \<le> ofs" and "ofs < 2 ^ 31" and len: "4 \<le> length m"
    and "reader_spent m s \<or> reads_at m p s"
  shows "\<exists>b s'. SeekRelative ofs s = Some (b, s') \<and> (reader_spent m s' \<or> (\<exists>p'\<ge>p. \<not> reader_spent m s \<and> reads_at m p' s'))"
proof -
  define q where "q = (if reader_spent m s then 8 * length m else p)"
  have fr: "reader_frame m s" using assms(4) by (auto simp: reads_at_def reader_defs)
  have q: "GetNumBitsRead s = int q" "q \<le> 8 * length m"
    using assms(4) GetNumBitsRead_at GetNumBitsRead_spent by (auto simp: q_def reads_at_def reader_defs)
  have rel: "SeekRelative ofs s = Seek (i32 (int q + ofs)) s" by (simp add: SeekRelative_def q(1))
  have small: "8 * int (length m) < 2 ^ 30" using fr by (simp add: reader_defs)
  show ?thesis
  proof (cases "int q + ofs \<le> 8 * int (length m)")
    case False
    have "i32 (int q + ofs) < 0 \<or> 8 * int (length m) < i32 (int q + ofs)"
    proof (cases "int q + ofs < 2 ^ 31")
      case True
      then show ?thesis using False assms(1) by simp
    next
      case wrap: False
      have "int q \<le> 8 * int (length m)" using q(2) by linarith
      then have "int q + ofs < 2 ^ 32" using small assms(2) by simp
      then have "i32 (int q + ofs) = int q + ofs - 2 ^ 32"
        using wrap by (intro i32_wrap) simp_all
      then show ?thesis using \<open>int q + ofs < 2 ^ 32\<close> by simp
    qed
    from Seek_outside [OF fr len this] show ?thesis unfolding rel by blast
  next
    case True
    then have id: "i32 (int q + ofs) = int q + ofs" using assms(1) small by simp
    show ?thesis
    proof (cases "reader_spent m s")
      case spent: True
      then have "int q + ofs = 8 * int (length m)" using True assms(1) by (simp add: q_def)
      then show ?thesis using Seek_end_spent [OF spent len] rel id by auto
    next
      case live: False
      then have at: "reads_at m p s" "q = p" using assms(4) by (auto simp: q_def)
      define t where "t = nat (int q + ofs)"
      have t: "int t = int q + ofs" "t \<le> 8 * length m" "p \<le> t" using True assms(1) at(2) by (auto simp: t_def)
      have "\<not> m_bOverflow s" using at(1) by (auto simp: reads_at_def reader_defs)
      then obtain s' where "Seek (int t) s = Some (True, s')" "reads_at m t s'"
        using Seek_reads [OF fr, of t] t(2) len by blast
      then show ?thesis using rel id t(1,3) live by auto
    qed
  qed
qed

lemma read_message_advance:
  assumes "reader_spent m s \<or> reads_at m p s" and "4 \<le> length m"
    and run: "read_message lib s = Some (ev, ofs, s')" and "0 \<le> ofs"
  shows "reader_spent m s' \<or> (\<exists>p'\<ge>p + 8. reads_at m p' s')"
proof -
  obtain c s1 n s2 where r: "ReadVarInt32 s = Some (c, s1)" "ReadVarInt32 s1 = Some (n, s2)"
    and seek: "ofs = i32 (sint n * 8)" "\<exists>b. SeekRelative ofs s2 = Some (b, s')"
    using run by (auto simp: read_message_def Let_def split: bind_splits)
  have s1: "reader_spent m s1 \<or> (\<exists>p1\<ge>p + 8. reads_at m p1 s1)"
    using assms(1) ReadVarInt32_spent ReadVarInt32_live r(1) by fastforce
  have s2: "reader_spent m s2 \<or> (\<exists>p2\<ge>p + 8. reads_at m p2 s2)"
  proof (cases "reader_spent m s1")
    case True
    then show ?thesis using ReadVarInt32_spent r(2) by fastforce
  next
    case False
    then obtain p1 where "p + 8 \<le> p1" "reads_at m p1 s1" using s1 by blast
    then show ?thesis using ReadVarInt32_live [of m p1 s1] r(2) by fastforce
  qed
  have "ofs < 2 ^ 31" using i32_range [of "sint n * 8"] seek(1) by simp
  then show ?thesis
    using s2 seek(2) SeekRelative_forward [OF assms(4) _ assms(2), of s2] by fastforce
qed

definition only_forward :: "protobuf_lib \<Rightarrow> int \<Rightarrow> CBitRead \<Rightarrow> bool" where
  "only_forward lib nBytes s \<longleftrightarrow>
     (\<forall>s1 ofs s2. reachable lib nBytes s s1 \<longrightarrow> message_step lib nBytes s1 ofs s2 \<longrightarrow> 0 \<le> ofs)"

lemma only_forward_step:
  assumes "only_forward lib nBytes s" and "message_step lib nBytes s ofs s'"
  shows "0 \<le> ofs" "only_forward lib nBytes s'"
proof -
  show "0 \<le> ofs" using assms unfolding only_forward_def reachable_def by blast
  have "reachable lib nBytes s s1" if "reachable lib nBytes s' s1" for s1
    using that assms(2) unfolding reachable_def
    by (intro converse_rtranclp_into_rtranclp [of _ s s']) blast+
  then show "only_forward lib nBytes s'" using assms(1) unfolding only_forward_def by blast
qed

lemma message_loop_ends:
  assumes "reader_spent m s \<and> 0 < fuel \<or> reads_at m p s \<and> nat nBytes - p div 8 + 2 \<le> fuel" and "4 \<le> length m"
    and "nBytes \<le> int (length m)" and "only_forward lib nBytes s"
  shows "message_loop lib nBytes fuel s log \<noteq> Running"
  using assms(1,4)
proof (induction fuel arbitrary: p s log)
  case 0
  then show ?case by simp
next
  case (Suc fuel)
  show ?case
  proof (cases "GetNumBytesRead s < nBytes")
    case True
    then have at: "reads_at m p s" and fuel: "nat nBytes - p div 8 + 2 \<le> Suc fuel"
      using Suc.prems(1) GetNumBytesRead_spent [of m s] assms(3) by auto
    have p: "p div 8 < nat nBytes" using True GetNumBytesRead_at [OF at] by linarith
    show ?thesis
    proof (cases "read_message lib s")
      case None
      then show ?thesis using True by simp
    next
      case (Some r)
      obtain ev ofs s' where r: "r = (ev, ofs, s')" by (cases r) auto
      then have st: "message_step lib nBytes s ofs s'" using True Some by (auto intro: message_step.intros)
      note fwd = only_forward_step [OF Suc.prems(2) st]
      have "reader_spent m s' \<or> (\<exists>p'\<ge>p + 8. reads_at m p' s')"
        using read_message_advance [OF _ assms(2), of s p lib ev ofs s'] at Some r fwd(1) by blast
      then have "\<exists>p'. reader_spent m s' \<and> 0 < fuel \<or> reads_at m p' s' \<and> nat nBytes - p' div 8 + 2 \<le> fuel"
      proof
        assume "\<exists>p'\<ge>p + 8. reads_at m p' s'"
        then obtain p' where p': "p + 8 \<le> p'" "reads_at m p' s'" by blast
        then have "p div 8 + 1 \<le> p' div 8" using div_le_mono [of "p + 8" p' 8] by simp
        then show ?thesis using p'(2) fuel p by (intro exI [of _ p']) linarith
      qed (use fuel p in auto)
      then show ?thesis using Suc.IH [OF _ fwd(2)] True Some r by auto
    qed
  qed simp
qed

text \<open>A size field of \<open>-6\<close> leads the loop back to its own message.\<close>

lemma varint_minus_6: "varint_bytes (unat (-6 :: u32)) = [0xFA, 0xFF, 0xFF, 0xFF, 0x0F]" "varint_bytes (unat (0 :: u32)) = [0]"
  by (simp_all add: varint_bytes.simps)

lemma read_message_back:
  assumes at: "reads_at m (8 * q) s" and c: "carries m (8 * q) [0, 0xFA, 0xFF, 0xFF, 0xFF, 0x0F]" and len: "4 \<le> length m"
  shows "\<exists>s'. read_message lib s = Some ([], - 48, s') \<and> reads_at m (8 * q) s'"
proof -
  have c0: "carries m (8 * q) (varint_bytes (unat (0::u32)))" and c1: "carries m (8 * q + 8) (varint_bytes (unat (-6::u32)))"
    using c carries_append [of m "8 * q" "[0]" "[0xFA, 0xFF, 0xFF, 0xFF, 0x0F]"] unfolding varint_minus_6 by simp_all
  obtain s1 where s1: "ReadVarInt32 s = Some (0, s1)" "reads_at m (8 * q + 8) s1"
    using ReadVarInt32_at [OF at c0] unfolding varint_minus_6 by auto
  obtain s2 where s2: "ReadVarInt32 s1 = Some (- 6, s2)" "reads_at m (8 * q + 48) s2"
    using ReadVarInt32_at [OF s1(2) c1] unfolding varint_minus_6 by (auto simp: add.commute)
  have fr: "reader_frame m s2" "\<not> m_bOverflow s2" "m_pData s2 = Some m" "8 * q + 48 \<le> 8 * length m" "length m < 2 ^ 27"
    using s2(2) c by (auto simp: reads_at_def reader_defs carries_def)
  obtain s3 where s3: "Seek (int (8 * q)) s2 = Some (True, s3)" "reads_at m (8 * q) s3"
    using Seek_reads [OF fr(1,2), of "8 * q"] fr(4) len by auto
  have "i32 (int (8 * q + 48) + - 48) = int (8 * q)" using fr(4,5) by simp
  then have "SeekRelative (- 48) s2 = Some (True, s3)"
    using s3(1) GetNumBitsRead_at [OF s2(2)] by (simp add: SeekRelative_def)
  moreover have "dispatch lib 0 n data off = Some []" for n data off
    by (simp add: dispatch_def message_of_def net_Tick_def net_SignonState_def svc_ServerInfo_def svc_PacketEntities_def)
  ultimately have "read_message lib s = Some ([], - 48, s3)"
    using s1(1) s2(1) fr(3) by (simp add: read_message_def i32_def)
  then show ?thesis using s3(2) by blast
qed

lemma message_loop_stuck:
  assumes "reads_at m (8 * q) s" and "carries m (8 * q) [0, 0xFA, 0xFF, 0xFF, 0xFF, 0x0F]" and "4 \<le> length m" and "int q < nBytes"
  shows "message_loop lib nBytes fuel s log = Running"
  using assms(1)
proof (induction fuel arbitrary: s)
  case (Suc fuel)
  obtain s' where s': "read_message lib s = Some ([], - 48, s')" "reads_at m (8 * q) s'"
    using read_message_back [OF Suc.prems assms(2,3)] by blast
  have "GetNumBytesRead s < nBytes" using GetNumBytesRead_at [OF Suc.prems] assms(4) by simp
  with s' Suc.IH [OF s'(2)] show ?case by simp
qed simp

subsection \<open>Arbitrary packets\<close>

definition reader_ok :: "u8 list \<Rightarrow> CBitRead \<Rightarrow> bool" where
  "reader_ok m s \<longleftrightarrow> reader_spent m s \<or> (\<exists>p. reads_at m p s)"

lemma ReadUBitLong_ok:
  assumes "reader_ok m s" and "0 \<le> n" and "n \<le> 32"
  shows "\<exists>v s'. ReadUBitLong n s = Some (v, s') \<and> reader_ok m s'"
proof (cases "reader_spent m s")
  case True
  then show ?thesis using ReadUBitLong_spent [OF True, of n] assms(2,3) by (auto simp: reader_ok_def)
next
  case False
  then obtain p where p: "reads_at m p s" using assms(1) by (auto simp: reader_ok_def)
  show ?thesis
  proof (cases "p + nat n \<le> 8 * length m")
    case True
    then show ?thesis using ReadUBitLong_reads [OF p, of n] assms(2,3) by (auto simp: reader_ok_def)
  next
    case False
    then show ?thesis using ReadUBitLong_past_end [OF p, of n] assms(2,3) by (fastforce simp: reader_ok_def)
  qed
qed

lemma ReadSBitLong_ok: "reader_ok m s \<Longrightarrow> 0 \<le> n \<Longrightarrow> n \<le> 32 \<Longrightarrow> \<exists>v s'. ReadSBitLong n s = Some (v, s') \<and> reader_ok m s'"
  using ReadUBitLong_ok [of m s n] by (auto simp: ReadSBitLong_def)

lemma ReadVarInt32_ok: "reader_ok m s \<Longrightarrow> \<exists>v s'. ReadVarInt32 s = Some (v, s') \<and> reader_ok m s'"
  using ReadVarInt32_spent ReadVarInt32_live unfolding reader_ok_def by meson

lemma ReadPacket_header_total: "reader_ok m s \<Longrightarrow> \<exists>f s'. ReadPacket_header s = Some (f, s') \<and> reader_ok m s'"
proof -
  assume "reader_ok m s"
  then obtain v1 s1 where s1: "ReadSBitLong 32 s = Some (v1, s1)" "reader_ok m s1" using ReadSBitLong_ok [of m s 32] by auto
  then obtain v2 s2 where s2: "ReadSBitLong 32 s1 = Some (v2, s2)" "reader_ok m s2" using ReadSBitLong_ok [of m s1 32] by auto
  then obtain v3 s3 where s3: "ReadVarInt32 s2 = Some (v3, s3)" "reader_ok m s3" using ReadVarInt32_ok by blast
  then obtain v4 s4 where s4: "ReadSBitLong 16 s3 = Some (v4, s4)" "reader_ok m s4" using ReadSBitLong_ok [of m s3 16] by auto
  then obtain v5 s5 where s5: "ReadVarInt32 s4 = Some (v5, s5)" "reader_ok m s5" using ReadVarInt32_ok by blast
  from s1 s2 s3 s4 s5 show ?thesis by (simp add: ReadPacket_header_def ReadSignedVarInt32_def)
qed

definition livelock_packet :: "u8 list" where
  "livelock_packet = packet_bytes (replicate 8 0) 0 [0, 0] 0 [0, 0xFA, 0xFF, 0xFF, 0xFF, 0x0F]"

lemma ReadPacket_livelock_run:
  assumes "addr mod 4 = 0" and "length stack = NET_MAX_PAYLOAD"
  shows "ReadPacket lib fuel addr stack raw livelock_packet (int (length livelock_packet)) = Running"
proof -
  let ?p = "livelock_packet" and ?pre = "packet_bytes (replicate 8 0) 0 [0, 0] 0 []"
  let ?m = "?p @ drop (length ?p) stack"
  have l: "length ?pre = 12" "length ?p = 18" by (simp_all add: livelock_packet_def packet_bytes_def varint_bytes.simps)
  then have len: "length ?p \<le> NET_MAX_PAYLOAD" "4 \<le> length ?m" by (simp_all add: NET_MAX_PAYLOAD_def)
  obtain s where s: "reads_at ?m (8 * length ?pre) s"
    "ReadPacket lib fuel addr stack raw ?p (int (length ?p)) =
      (case message_loop lib (int (length ?p)) fuel s [] of
         Returned log \<Rightarrow> Returned (int (length ?p), log) | Faulted \<Rightarrow> Faulted | Running \<Rightarrow> Running)"
  proof -
    have "length (replicate 8 (0::u8)) = 8" "length [0, 0 :: u8] = 2" "flags_ok 0" by (simp_all add: flags_ok_def)
    from ReadPacket_run [OF assms this livelock_packet_def len(1), of lib fuel raw] show ?thesis using that by blast
  qed
  have "carries ?m (8 * length ?pre) [0, 0xFA, 0xFF, 0xFF, 0xFF, 0x0F]"
    by (rule carries_at [of _ ?pre _ "drop (length ?p) stack"]) (simp_all add: livelock_packet_def packet_bytes_def)
  then have "message_loop lib (int (length ?p)) fuel s [] = Running"
    using message_loop_stuck [OF s(1) _ len(2)] l by simp
  with s(2) show ?thesis by simp
qed

definition sample_lib :: protobuf_lib where
  "sample_lib = \<lparr>ReadTagWithCutoff = plain_reader, DebugString = (\<lambda>m. ''message'')\<rparr>"

definition sample_env :: handler_env where
  "sample_env = \<lparr>env_heap = (\<lambda>_. 0xCD), env_pDataOut = True, env_packetData = True, env_sched = (\<lambda>_. zero_subkey), env_addr = 0x1000,
     env_stack = replicate NET_MAX_PAYLOAD 0xCC, env_reader = sample_reader\<rparr>"

subsection \<open>Properties\<close>

lemma decrypt_payload_total:
  assumes "static_ok st" and "env_pDataOut env"
  shows "\<exists>out st'. decrypt_payload env st payload = Some (out, st') \<and> length out = length payload \<and> static_ok st'"
proof -
  have "8 * max 1 2 \<le> int (length g_iceKey)" by (simp add: g_iceKey_def)
  then obtain k0 st' k where k: "IceKey_ctor (env_sched env) 2 st = Some (k0, st')" "set_key g_iceKey k0 = Some k"
    "key_ready st' k" "static_ok st'"
    using key_ready_after_set [OF assms(1), of 2 g_iceKey "env_sched env"] by auto
  have tot: "\<exists>b. decrypt st' k c = Some b \<and> length b = 8" if "8 \<le> length c" for c
    using ice.dec_total [of "(st', k)" c] k(3) that by auto
  obtain r where "length r = length payload"
    "decrypt_loop (decrypt st' k) payload (int (length payload)) 0 (map (env_heap env) [0..<length payload]) = Some r"
    using decrypt_loop_blocks [of "decrypt st' k", OF tot, of 0 payload "map (env_heap env) [0..<length payload]" "int (length payload)"] by auto
  then show ?thesis using k assms(2) by (simp add: decrypt_payload_def)
qed

text \<open>
  C11: \<open>ReadPacket\<close> ends, by returning or by an invalid access, on every packet of at most the
  buffer's size in which no message seeks backwards: if the loop is still running after as many
  iterations as the packet has bytes, and two more, some iteration it reached ended in a
  \<open>SeekRelative\<close> with a negative distance, which is a negative size field or one whose multiple
  of eight leaves 32 bits.
\<close>

theorem ReadPacket_progress:
  assumes "addr mod 4 = 0" and "length stack = NET_MAX_PAYLOAD" and "length packet \<le> NET_MAX_PAYLOAD"
    and "length packet + 2 \<le> fuel"
    and run: "ReadPacket lib fuel addr stack raw packet (int (length packet)) = Running"
  shows "\<exists>buf nFlags s s1 ofs s2. ReadPacket_setup addr stack raw packet (int (length packet)) = Some buf \<and>
    ReadPacket_header buf = Some (nFlags, s) \<and> reachable lib (int (length packet)) s s1 \<and>
    message_step lib (int (length packet)) s1 ofs s2 \<and> ofs < 0"
proof -
  let ?m = "packet @ drop (length packet) stack" and ?n = "int (length packet)"
  obtain buf where buf: "ReadPacket_setup addr stack raw packet ?n = Some buf" "reads_at ?m 0 buf"
    using ReadPacket_setup_ok [OF assms(1-3)] by blast
  obtain f s where s: "ReadPacket_header buf = Some (f, s)" "reader_ok ?m s"
    using ReadPacket_header_total [of ?m buf] buf(2) by (auto simp: reader_ok_def)
  have "message_loop lib ?n fuel s [] = Running"
    using run buf(1) s(1) by (auto simp: ReadPacket_def split: if_splits outcome.splits)
  moreover have "\<exists>p. reader_spent ?m s \<and> 0 < fuel \<or> reads_at ?m p s \<and> nat ?n - p div 8 + 2 \<le> fuel"
    using s(2) assms(4) unfolding reader_ok_def by fastforce
  moreover have "4 \<le> length ?m" "?n \<le> int (length ?m)" using assms(2,3) by (simp_all add: NET_MAX_PAYLOAD_def)
  ultimately have "\<not> only_forward lib ?n s" using message_loop_ends by blast
  then show ?thesis using buf(1) s(1) unfolding only_forward_def by (meson not_le)
qed

theorem ReadPacket_progress_witness:
  "\<exists>buf nFlags s s1 ofs s2. ReadPacket_setup 0 (replicate NET_MAX_PAYLOAD 0) sample_reader livelock_packet (int (length livelock_packet)) = Some buf \<and>
    ReadPacket_header buf = Some (nFlags, s) \<and> reachable sample_lib (int (length livelock_packet)) s s1 \<and>
    message_step sample_lib (int (length livelock_packet)) s1 ofs s2 \<and> ofs < 0"
proof -
  have "length livelock_packet = 18" by (simp add: livelock_packet_def packet_bytes_def varint_bytes.simps)
  then have "length livelock_packet \<le> NET_MAX_PAYLOAD" "length livelock_packet + 2 \<le> 20" by (simp_all add: NET_MAX_PAYLOAD_def)
  from ReadPacket_progress [OF _ _ this ReadPacket_livelock_run] show ?thesis by simp
qed

text \<open>
  C21: There are packets on which \<open>ReadPacket\<close> never returns: the 18-byte packet
  \<open>livelock_packet\<close>, whose one message has the size field \<open>-6\<close>, keeps the loop running
  whatever the number of iterations, for every protobuf_lib and every content of the stack.
\<close>

theorem ReadPacket_livelock:
  assumes "addr mod 4 = 0" and "length stack = NET_MAX_PAYLOAD"
  shows "length livelock_packet = 18 \<and> (\<forall>fuel. ReadPacket lib fuel addr stack raw livelock_packet 18 = Running)"
proof -
  have "length livelock_packet = 18" by (simp add: livelock_packet_def packet_bytes_def varint_bytes.simps)
  then show ?thesis using ReadPacket_livelock_run [OF assms] by simp
qed

theorem ReadPacket_livelock_witness:
  "length livelock_packet = 18 \<and>
   (\<forall>fuel. ReadPacket sample_lib fuel 0 (replicate NET_MAX_PAYLOAD 0) sample_reader livelock_packet 18 = Running)"
  by (rule ReadPacket_livelock) simp_all

text \<open>
  C12: The framing check accepts exactly the complete frames. For a non-empty datagram of at most
  \<open>2 ^ 31 - 1\<close> bytes the framing code always returns: it reads the length field and copies the
  packet within the buffer. It extracts a packet if and only if the datagram is an offset byte
  \<open>d > 0\<close>, \<open>d\<close> bytes of filling, the packet's length in big-endian order and the non-empty packet,
  so the unsigned 32-bit sums of the check never wrap into a false match.
\<close>

theorem frame_packet_exact:
  assumes "0 < length out" and "length out < 2 ^ 31"
  shows "frame_packet out \<noteq> None \<and>
    (frame_packet out = Some (d, f, Some data) \<longleftrightarrow>
      (\<exists>fill. out = frame_of fill data \<and> length fill = d \<and> 0 < d \<and> d < 256 \<and> data \<noteq> [] \<and> f = Some (of_nat (length data))))"
proof -
  have "frame_packet out \<noteq> None" using frame_packet_cases [OF assms] by (auto split: if_splits)
  moreover have "frame_packet out = Some (length fill, Some (of_nat (length data)), Some data)"
    if fill: "out = frame_of fill data" "0 < length fill" "length fill < 256" "data \<noteq> []" for fill
  proof -
    let ?e = "length fill"
    have d: "unat (out ! 0) = ?e" using fill by (simp add: frame_of_def unsigned_of_nat take_bit_nat_eq_self)
    have len: "length out = ?e + 5 + length data" using fill by (simp add: frame_of_def)
    then have "?e + 5 < length out" using fill(4) by (cases data) auto
    note big = this
    obtain w where w: "frame_packet out = Some (?e, Some w,
        if unat w + ?e + 5 = length out then Some (drop (?e + 5) out) else None)"
      "out = take (?e + 1) out @ be_bytes w @ drop (?e + 5) out"
      using frame_packet_cases [OF assms] fill(2) big unfolding d by auto
    have dr: "take (?e + 1) out = of_nat ?e # fill" "drop (?e + 5) out = data"
      using fill(1) by (simp_all add: frame_of_def drop_Cons' add.commute [of _ 5])
    have "be_bytes w = be_bytes (of_nat (length data))"
      using w(2) unfolding dr using fill(1) by (simp add: frame_of_def)
    then have we: "w = of_nat (length data)" by (rule be_bytes_inj)
    then have "unat w = length data" using assms(2) len by (simp add: unsigned_of_nat take_bit_nat_eq_self)
    with w(1) len dr(2) we show ?thesis by simp
  qed
  ultimately show ?thesis using frame_packet_only [OF assms] by blast
qed

theorem frame_packet_exact_witness:
  "frame_packet [1, 9, 0, 0, 0, 2, 5, 6] \<noteq> None \<and>
    (frame_packet [1, 9, 0, 0, 0, 2, 5, 6] = Some (1, Some 2, Some [5, 6]) \<longleftrightarrow>
      (\<exists>fill. [1, 9, 0, 0, 0, 2, 5, 6] = frame_of fill [5, 6] \<and> length fill = 1 \<and> 0 < (1::nat) \<and> (1::nat) < 256 \<and> [5, 6 :: u8] \<noteq> []
        \<and> Some (2 :: u32) = Some (of_nat (length [5, 6 :: u8]))))"
  by (rule frame_packet_exact) simp_all

text \<open>
  C20: The ways the handler can fault. For a datagram from the game port the handler makes an
  invalid access exactly when there is no raw payload (the pointer is not checked), when the
  payload is empty (its first byte is read), when \<open>malloc\<close> has no block for the decrypted payload
  or for an extracted packet (neither is tested before it is written), or when \<open>ReadPacket\<close> does
  on the extracted packet; decryption and framing are safe for every other payload.
\<close>

theorem handler_faults:
  assumes "static_ok st" and "find_IP eth = Some ip" and "find_UDP eth = Some udp" and "udp_sport udp = 27015"
    and "case find_RawPDU eth of None \<Rightarrow> True | Some payload \<Rightarrow> length payload < 2 ^ 31"
  shows "packet_loop_handler lib fuel env eth st = Faulted \<longleftrightarrow>
    (case find_RawPDU eth of
       None \<Rightarrow> True
     | Some payload \<Rightarrow> payload = [] \<or> \<not> env_pDataOut env \<or>
         (\<exists>out st' d f data. decrypt_payload env st payload = Some (out, st') \<and> frame_packet out = Some (d, f, Some data) \<and>
            (\<not> env_packetData env \<or>
             ReadPacket lib fuel (env_addr env) (env_stack env) (env_reader env) data (int (length data)) = Faulted)))"
proof (cases "find_RawPDU eth")
  case None
  then show ?thesis using assms(2-4) by (simp add: packet_loop_handler_def)
next
  case (Some payload)
  show ?thesis
  proof (cases "env_pDataOut env")
    case False
    then have "decrypt_payload env st payload = None" by (simp add: decrypt_payload_def split: bind_splits)
    then show ?thesis using False Some assms(2-4) by (simp add: packet_loop_handler_def)
  next
    case mem: True
    obtain out st' where out: "decrypt_payload env st payload = Some (out, st')" "length out = length payload"
      using decrypt_payload_total [OF assms(1) mem] by blast
    show ?thesis
    proof (cases "payload = []")
      case True
      then show ?thesis using out assms(2-4) Some by (simp add: packet_loop_handler_def frame_packet_def peek8_def)
    next
      case False
      then have len: "0 < length out" "length out < 2 ^ 31" using assms(5) Some out(2) by auto
      then obtain d f pk where fr: "frame_packet out = Some (d, f, pk)"
        using frame_packet_cases [of out] by (auto split: if_splits)
      moreover have "data \<noteq> []" if "pk = Some data" for data using frame_packet_only [OF len] fr that by blast
      ultimately show ?thesis
        using False mem Some assms(2-4) out(1)
        by (cases pk) (auto simp: packet_loop_handler_def Let_def split: outcome.splits)
    qed
  qed
qed

theorem handler_faults_witness:
  "packet_loop_handler sample_lib 5 sample_env
     \<lparr>find_IP = Some \<lparr>ip_id = 1, ip_version = 4, ip_src = ''a'', ip_dst = ''b''\<rparr>,
      find_UDP = Some \<lparr>udp_sport = 27015, udp_dport = 27005\<rparr>, find_RawPDU = None\<rparr> ice_static_init = Faulted"
proof -
  let ?eth = "\<lparr>find_IP = Some \<lparr>ip_id = 1, ip_version = 4, ip_src = ''a'', ip_dst = ''b''\<rparr>,
      find_UDP = Some \<lparr>udp_sport = 27015, udp_dport = 27005\<rparr>, find_RawPDU = None\<rparr>"
  have "find_IP ?eth = Some \<lparr>ip_id = 1, ip_version = 4, ip_src = ''a'', ip_dst = ''b''\<rparr>"
    "find_UDP ?eth = Some \<lparr>udp_sport = 27015, udp_dport = 27005\<rparr>" by simp_all
  from handler_faults [OF static_ok_init this, of sample_lib 5 sample_env] show ?thesis by simp
qed

end
