(* ===== verification/Capture.thy ===== *)
theory Capture
  imports Sniffer BitSafe
begin

text \<open>
  The sniffer as a whole: what a sender puts into a datagram and what the handler prints, the
  parses that leave the local array of \<open>ReadPacket\<close>, and the proof that nothing else in
  \<open>ReadPacket\<close> can fault. \<open>sent\<close> is a message as the game sends it: an object of one of the
  four classes, or the bytes of some other command.
\<close>

subsection \<open>Messages as sent\<close>

datatype sent = Protobuf netmsg | Other u32 "u8 list"

fun command_of :: "message \<Rightarrow> u32" where
  "command_of CNETMsg_Tick = 4"
| "command_of CNETMsg_SignonState = 7"
| "command_of CSVCMsg_ServerInfo = 8"
| "command_of CSVCMsg_PacketEntities = 26"

fun wire_of :: "sent \<Rightarrow> wire_message" where
  "wire_of (Protobuf m) = (command_of (class_of m), Serialize m)"
| "wire_of (Other cmd body) = (cmd, body)"

fun sent_ok :: "sent \<Rightarrow> bool" where
  "sent_ok (Protobuf m) = (serializable m \<and> wf_msg m)"
| "sent_ok (Other cmd body) = (message_of (sint cmd) = None)"

text \<open>What the handler prints for a message: the object sent, with the cached size of a new object.\<close>

fun sent_events :: "protobuf_lib \<Rightarrow> sent \<Rightarrow> event list" where
  "sent_events lib (Protobuf m) =
     [MsgPrintf (class_of m) (int (length (Serialize m))) (DebugString lib (with_cached_size 0 m))]"
| "sent_events lib (Other cmd body) = []"

lemma message_of_command [simp]: "message_of (sint (command_of c)) = Some c"
  by (cases c) (simp_all add: message_of_def net_Tick_def net_SignonState_def svc_ServerInfo_def svc_PacketEntities_def)

lemma new_message_cached [simp]: "cached_size (new_message c) = 0"
  by (cases c) (simp_all add: nt_SharedCtor_def ns_SharedCtor_def si_SharedCtor_def pe_SharedCtor_def)

lemma sent_dispatched:
  assumes "cutoff_reader (ReadTagWithCutoff lib)" and "sent_ok x" and "length (snd (wire_of x)) < 2 ^ 26"
  shows "dispatched lib (wire_of x) (sent_events lib x)"
proof (cases x)
  case (Protobuf m)
  then show ?thesis
    using ParseFrom_serialized [OF assms(1), of m "new_message (class_of m)"] assms(2,3)
    by (simp add: dispatched_def dispatch_def)
next
  case (Other cmd body)
  then show ?thesis using assms(2) by (simp add: dispatched_def dispatch_def)
qed

lemma all_sent_dispatched:
  assumes "cutoff_reader (ReadTagWithCutoff lib)" and "list_all sent_ok xs" and "length (concat (map message_bytes (map wire_of xs))) < 2 ^ 26"
  shows "list_all2 (dispatched lib) (map wire_of xs) (map (sent_events lib) xs)"
  using assms(2,3)
proof (induction xs)
  case (Cons x xs)
  then have "length (snd (wire_of x)) < 2 ^ 26" by (simp add: message_bytes_def)
  then show ?case using sent_dispatched [OF assms(1)] Cons by simp
qed simp

subsection \<open>A parse that leaves the array\<close>

text \<open>A tag of field 100 in none of the classes, and a length of \<open>2 ^ 31 - 1\<close>.\<close>

definition long_field :: "u8 list" where
  "long_field = [0xA2, 0x06, 0xFF, 0xFF, 0xFF, 0xFF, 0x07]"

lemma long_field_bytes:
  assumes "mem = pre @ long_field @ post"
  shows "peek8 mem (int (length pre)) = Some 0xA2" "peek8 mem (int (length pre) + 1) = Some 0x06" "peek8 mem (int (length pre) + 2) = Some 0xFF"
    "peek8 mem (int (length pre) + 3) = Some 0xFF" "peek8 mem (int (length pre) + 4) = Some 0xFF"
    "peek8 mem (int (length pre) + 5) = Some 0xFF" "peek8 mem (int (length pre) + 6) = Some 0x07"
  unfolding assms by (simp_all add: peek8_append) (simp_all add: peek8_def long_field_def)

lemma long_field_tag:
  assumes "mem = pre @ long_field @ post" and "17 \<le> n"
  shows "ReadTag (CodedInputStream_ctor mem (int (length pre)) n) =
    Some (802, (CodedInputStream_ctor mem (int (length pre)) n)\<lparr>i_buffer := int (length pre) + 2, i_last_tag := 802\<rparr>)"
  using assms(2)
  by (simp add: ReadTag_def small_byte_def CodedInputStream_ctor_def ReadTagFallback_def fast_varint_def BufferSize_def CIS_kMaxVarintBytes_def
      ReadVarint32FromArray_def byte32_def long_field_bytes [OF assms(1)])

lemma long_field_skip:
  assumes "mem = pre @ long_field @ post" and "17 \<le> n" and "n < 2 ^ 31" and "int (length mem) < int (length pre) + n"
    and s: "s = (CodedInputStream_ctor mem (int (length pre)) n)\<lparr>i_buffer := int (length pre) + 2, i_last_tag := 802\<rparr>"
  shows "SkipField fuel 802 s uf = None"
proof -
  define q where "q = int (length pre) + 2"
  have f: "i_mem s = mem" "i_buffer s = q" "i_buffer_end s = q + (n - 2)"
    by (simp_all add: s q_def CodedInputStream_ctor_def)
  have b: "peek8 mem q = Some 0xFF" "peek8 mem (q + 1) = Some 0xFF" "peek8 mem (q + 2) = Some 0xFF" "peek8 mem (q + 3) = Some 0xFF"
    "peek8 mem (q + 4) = Some 0x07" using long_field_bytes [OF assms(1)] by (simp_all add: q_def add.assoc)
  have len: "ReadVarint32 s = Some (Some 0x7FFFFFFF, s\<lparr>i_buffer := q + 5\<rparr>)"
    using assms(2)
    by (simp add: f b ReadVarint32_def small_byte_def ReadVarint32Fallback_def fast_varint_def BufferSize_def CIS_kMaxVarintBytes_def
        ReadVarint32FromArray_def byte32_def)
  have "GetTagWireType 802 = WIRETYPE_LENGTH_DELIMITED" by code_simp
  moreover have "ReadString_append [] 2147483647 (s\<lparr>i_buffer := q + 5\<rparr>) = None"
    using assms(2-4) by (subst ReadString_append.simps) (simp add: f q_def BufferSize_def mem_bytes_def)
  then have "CIS_ReadString [] (sint (0x7FFFFFFF :: u32)) (s\<lparr>i_buffer := q + 5\<rparr>) = None"
    using assms(2,3) by (simp add: f q_def CIS_ReadString_def InternalReadStringInline_def ReadStringFallback_def BufferSize_def)
  ultimately show ?thesis by (simp add: SkipField.simps Let_def wiretype_defs len)
qed

context message_class
begin

lemma ParseFromArray_long_field:
  assumes "cutoff_reader rtc" and "switch_tag (mo_tags ops) 802 = None"
    and mem: "mem = pre @ long_field @ post" "17 \<le> n" "n < 2 ^ 31" "int (length mem) < int (length pre) + n"
  shows "ParseFromArray rtc ops clear m mem (int (length pre)) n = None"
proof -
  let ?s = "CodedInputStream_ctor mem (int (length pre)) n"
  have "GetTagWireType 802 \<noteq> WIRETYPE_END_GROUP" by code_simp
  from loop_tag_unknown [OF assms(1) long_field_tag [OF mem(1,2)] assms(2) _ this]
  have "merge_loop rtc ops (Suc (length (i_mem ?s))) None (clear m) ?s = None"
    using long_field_skip [OF mem refl] by simp
  then show ?thesis
    by (simp add: ParseFromArray_def InlineParseFromCodedStream_def InlineMergeFromCodedStream_def MergePartialFromCodedStream_def)
qed

end

lemma ParseFrom_long_field:
  assumes "cutoff_reader rtc" and "mem = pre @ long_field @ post" and "17 \<le> n" and "n < 2 ^ 31" and "int (length mem) < int (length pre) + n"
  shows "ParseFrom rtc m mem (int (length pre)) n = None"
proof -
  have "switch_tag nt_tags 802 = None" "switch_tag ns_tags 802 = None" "switch_tag si_tags 802 = None" "switch_tag pe_tags 802 = None"
    by code_simp+
  then show ?thesis
    using nt.ParseFromArray_long_field [OF assms(1) _ assms(2-5)] ns.ParseFromArray_long_field [OF assms(1) _ assms(2-5)]
      si.ParseFromArray_long_field [OF assms(1) _ assms(2-5)] pe.ParseFromArray_long_field [OF assms(1) _ assms(2-5)]
    by (cases m) simp_all
qed

subsection \<open>Datagrams of the game\<close>

text \<open>
  The game's cipher: the key of the sniffer's source in the state its constructor leaves. Every
  key object in use with that schedule encrypts alike.
\<close>

definition game_static :: ice_static where
  "game_static = \<lparr>ice_sbox = sbox_table, ice_sboxes_initialised = 1\<rparr>"

definition game_key :: IceKey where
  "game_key = \<lparr>ik_size = 2, ik_rounds = 32, ik_keysched = key_schedule g_iceKey 2\<rparr>"

definition game_payload :: "u8 list \<Rightarrow> u8 list" where
  "game_payload xs = the (apply_blocks (encrypt game_static game_key) xs)"

lemma encrypt_schedule:
  assumes "key_ready st k" and "key_ready st' k'" and "ik_keysched k = ik_keysched k'" and "8 \<le> length xs"
  shows "encrypt st k xs = encrypt st' k' xs"
proof -
  obtain l r where "take 8 xs = be_bytes l @ be_bytes r" by (rule block_parts [OF assms(4)])
  then have "xs = be_bytes l @ be_bytes r @ drop 8 xs" by (metis append.assoc append_take_drop_id)
  then show ?thesis using encrypt_block [OF assms(1), of l r "drop 8 xs"] encrypt_block [OF assms(2), of l r "drop 8 xs"] assms(3) by metis
qed

lemma apply_blocks_cong:
  assumes "\<And>xs. 8 \<le> length xs \<Longrightarrow> f xs = g xs"
  shows "apply_blocks f xs = apply_blocks g xs"
proof (induction "length xs" arbitrary: xs rule: less_induct)
  case less
  show ?case
  proof (cases "8 \<le> length xs")
    case True
    then have "apply_blocks f (drop 8 xs) = apply_blocks g (drop 8 xs)" by (intro less.hyps) auto
    then show ?thesis using assms [OF True] by (subst (1 2) apply_blocks.simps) simp
  qed (simp add: apply_blocks.simps)
qed

lemma game_ready: "key_ready game_static game_key"
proof -
  have "8 * max 1 2 \<le> int (length g_iceKey)" by (simp add: g_iceKey_def)
  then obtain k st' k' where "key_ready st' k'" "ik_keysched k' = key_schedule g_iceKey 2" "ik_rounds k' = 32"
    using key_ready_after_set [OF static_ok_init, of 2 g_iceKey "\<lambda>_. zero_subkey"] by auto
  then show ?thesis by (simp add: key_ready_def game_static_def game_key_def)
qed

lemma decrypt_game:
  assumes "static_ok st"
  shows "\<exists>st'. static_ok st' \<and> decrypt_payload env st (game_payload xs) = (if env_pDataOut env then Some (xs, st') else None)"
proof -
  obtain k st' ys where k: "static_ok st'" "key_ready st' k" "ik_keysched k = key_schedule g_iceKey 2"
    "apply_blocks (encrypt st' k) xs = Some ys" "decrypt_payload env st ys = (if env_pDataOut env then Some (xs, st') else None)"
    using decrypt_payload_inverts [OF assms, of xs env] by blast
  have "encrypt game_static game_key b = encrypt st' k b" if "8 \<le> length b" for b
    using encrypt_schedule [OF game_ready k(2)] k(3) that by (simp add: game_key_def)
  then have "apply_blocks (encrypt game_static game_key) xs = Some ys" using apply_blocks_cong k(4) by metis
  then show ?thesis using k by (auto simp: game_payload_def)
qed

record datagram =
  dg_ip :: IP
  dg_dport :: int
  dg_seq :: "u8 list"
  dg_flags :: u32
  dg_unk0 :: "u8 list"
  dg_unk1 :: u32
  dg_fill :: "u8 list"
  dg_sent :: "sent list"

definition dg_packet :: "datagram \<Rightarrow> u8 list" where
  "dg_packet d = packet_bytes (dg_seq d) (dg_flags d) (dg_unk0 d) (dg_unk1 d) (concat (map message_bytes (map wire_of (dg_sent d))))"

definition dg_payload :: "datagram \<Rightarrow> u8 list" where
  "dg_payload d = game_payload (frame_of (dg_fill d) (dg_packet d))"

definition dg_pdu :: "datagram \<Rightarrow> PDU" where
  "dg_pdu d = \<lparr>find_IP = Some (dg_ip d), find_UDP = Some \<lparr>udp_sport = 27015, udp_dport = dg_dport d\<rparr>, find_RawPDU = Some (dg_payload d)\<rparr>"

definition dg_ok :: "datagram \<Rightarrow> bool" where
  "dg_ok d \<longleftrightarrow> length (dg_seq d) = 8 \<and> flags_ok (dg_flags d) \<and> length (dg_unk0 d) = 2 \<and> 0 < length (dg_fill d) \<and> length (dg_fill d) < 256 \<and>
     list_all sent_ok (dg_sent d) \<and> length (dg_packet d) \<le> NET_MAX_PAYLOAD"

definition dg_events :: "protobuf_lib \<Rightarrow> datagram \<Rightarrow> event list" where
  "dg_events lib d = [PacketLine (ip_id (dg_ip d)) (ip_version (dg_ip d)), SrcLine (ip_src (dg_ip d)) (dg_dport d), DstLine (ip_dst (dg_ip d)) (dg_dport d),
       PayloadSize (length (dg_payload d)), DeltaOffset (length (dg_fill d)), DataFinalSize (of_nat (length (dg_packet d)))]
     @ concat (map (sent_events lib) (dg_sent d))"

text \<open>The stack of the handler, and memory for the two blocks.\<close>

definition stack_ok :: "handler_env \<Rightarrow> bool" where
  "stack_ok env \<longleftrightarrow> env_addr env mod 4 = 0 \<and> length (env_stack env) = NET_MAX_PAYLOAD"

definition env_ok :: "handler_env \<Rightarrow> bool" where
  "env_ok env \<longleftrightarrow> stack_ok env \<and> env_pDataOut env \<and> env_packetData env"

lemma handler_frame:
  assumes "cutoff_reader (ReadTagWithCutoff lib)" and "dg_ok d" and "stack_ok env" and "length (dg_sent d) < fuel"
    and dec: "decrypt_payload env st payload = (if env_pDataOut env then Some (frame_of (dg_fill d) (dg_packet d), st') else None)"
  shows "packet_loop_handler lib fuel env ((dg_pdu d)\<lparr>find_RawPDU := Some payload\<rparr>) st =
    (if env_pDataOut env \<and> env_packetData env then
       Returned ([PacketLine (ip_id (dg_ip d)) (ip_version (dg_ip d)), SrcLine (ip_src (dg_ip d)) (dg_dport d), DstLine (ip_dst (dg_ip d)) (dg_dport d),
           PayloadSize (length payload), DeltaOffset (length (dg_fill d)), DataFinalSize (of_nat (length (dg_packet d)))]
         @ concat (map (sent_events lib) (dg_sent d)), st')
     else Faulted)"
proof -
  have ok: "length (dg_seq d) = 8" "length (dg_unk0 d) = 2" "flags_ok (dg_flags d)" "0 < length (dg_fill d)" "length (dg_fill d) < 256"
    "list_all sent_ok (dg_sent d)" "length (dg_packet d) \<le> NET_MAX_PAYLOAD" using assms(2) by (auto simp: dg_ok_def)
  have env: "env_addr env mod 4 = 0" "length (env_stack env) = NET_MAX_PAYLOAD" using assms(3) by (auto simp: stack_ok_def)
  have ne: "dg_packet d \<noteq> []" using ok(1) by (auto simp: dg_packet_def packet_bytes_def)
  have "length (dg_packet d) < 2 ^ 30" using ok(7) by (simp add: NET_MAX_PAYLOAD_def)
  with ne have frame: "frame_packet (frame_of (dg_fill d) (dg_packet d)) = Some (length (dg_fill d), Some (of_nat (length (dg_packet d))), Some (dg_packet d))"
    by (rule frame_packet_complete [OF ok(4,5)])
  have "length (concat (map message_bytes (map wire_of (dg_sent d)))) < 2 ^ 26"
    using ok(7) unfolding dg_packet_def by (simp add: packet_bytes_def NET_MAX_PAYLOAD_def)
  then have "list_all2 (dispatched lib) (map wire_of (dg_sent d)) (map (sent_events lib) (dg_sent d))"
    by (rule all_sent_dispatched [OF assms(1) ok(6)])
  from ReadPacket_messages [OF env ok(1-3) dg_packet_def ok(7) _ this, of fuel "env_reader env"] assms(4)
  have "ReadPacket lib fuel (env_addr env) (env_stack env) (env_reader env) (dg_packet d) (int (length (dg_packet d))) =
      Returned (int (length (dg_packet d)), concat (map (sent_events lib) (dg_sent d)))" by simp
  with frame dec ne show ?thesis by (simp add: packet_loop_handler_def dg_pdu_def)
qed

lemma handler_datagram:
  assumes "cutoff_reader (ReadTagWithCutoff lib)" and "dg_ok d" and "env_ok env" and "length (dg_sent d) < fuel" and "static_ok st"
  shows "\<exists>st'. packet_loop_handler lib fuel env (dg_pdu d) st = Returned (dg_events lib d, st') \<and> static_ok st'"
proof -
  obtain st' where st': "static_ok st'"
    "decrypt_payload env st (dg_payload d) = (if env_pDataOut env then Some (frame_of (dg_fill d) (dg_packet d), st') else None)"
    using decrypt_game [OF assms(5), of env] unfolding dg_payload_def by blast
  have env: "stack_ok env" "env_pDataOut env" "env_packetData env" using assms(3) by (simp_all add: env_ok_def)
  have "(dg_pdu d)\<lparr>find_RawPDU := Some (dg_payload d)\<rparr> = dg_pdu d" by (simp add: dg_pdu_def)
  with handler_frame [OF assms(1,2) env(1) assms(4) st'(2)] env(2,3) st'(1) show ?thesis by (simp add: dg_events_def)
qed

subsection \<open>Properties\<close>

text \<open>
  C2: From the wire to the log. Any list of messages, objects of the four classes and other
  commands alike, packed behind a header with flags 0 or at least 0xE1, framed, encrypted
  blockwise with the game's ICE key and captured from source port 27015, is decrypted, unframed,
  dispatched and parsed completely: the log shows the datagram, the framing fields and, in
  order, exactly the objects of the four classes as they were sent. Neither the uninitialised
  heap, stack and key memory nor the contents of the header influence the result. If \<open>malloc\<close> has
  no block for the decrypted payload or for the packet, the handler writes through a null pointer.
\<close>

theorem handler_end_to_end:
  assumes "static_ok st" and "env_addr env mod 4 = 0" and "length (env_stack env) = NET_MAX_PAYLOAD"
    and "length seq = 8" and "length unk0 = 2" and "flags_ok flags" and "0 < length fill" and "length fill < 256"
    and p: "packet = packet_bytes seq flags unk0 unk1 (concat (map message_bytes (map wire_of xs)))" and "length packet \<le> NET_MAX_PAYLOAD"
    and "length xs < fuel" and "cutoff_reader (ReadTagWithCutoff lib)" and "list_all sent_ok xs"
  shows "\<exists>k st' payload. key_ready st' k \<and> ik_keysched k = key_schedule g_iceKey 2 \<and>
    apply_blocks (encrypt st' k) (frame_of fill packet) = Some payload \<and>
    packet_loop_handler lib fuel env \<lparr>find_IP = Some ip, find_UDP = Some \<lparr>udp_sport = 27015, udp_dport = dp\<rparr>, find_RawPDU = Some payload\<rparr> st =
      (if env_pDataOut env \<and> env_packetData env then
         Returned ([PacketLine (ip_id ip) (ip_version ip), SrcLine (ip_src ip) dp, DstLine (ip_dst ip) dp,
             PayloadSize (length payload), DeltaOffset (length fill), DataFinalSize (of_nat (length packet))]
           @ concat (map (sent_events lib) xs), st')
       else Faulted)"
proof -
  define d where "d = \<lparr>dg_ip = ip, dg_dport = dp, dg_seq = seq, dg_flags = flags, dg_unk0 = unk0, dg_unk1 = unk1, dg_fill = fill, dg_sent = xs\<rparr>"
  have d: "dg_packet d = packet" "dg_fill d = fill" "dg_sent d = xs" by (simp_all add: d_def dg_packet_def p)
  have "dg_ok d" "stack_ok env" "length (dg_sent d) < fuel" using assms d by (simp_all add: dg_ok_def stack_ok_def) (simp_all add: d_def)
  note run = handler_frame [OF assms(12) this]
  obtain k st' payload where k: "key_ready st' k" "ik_keysched k = key_schedule g_iceKey 2"
    "apply_blocks (encrypt st' k) (frame_of fill packet) = Some payload"
    "decrypt_payload env st payload = (if env_pDataOut env then Some (frame_of fill packet, st') else None)"
    using decrypt_payload_inverts [OF assms(1), of "frame_of fill packet" env] by blast
  have "(dg_pdu d)\<lparr>find_RawPDU := Some payload\<rparr> = \<lparr>find_IP = Some ip, find_UDP = Some \<lparr>udp_sport = 27015, udp_dport = dp\<rparr>, find_RawPDU = Some payload\<rparr>"
    "dg_ip d = ip" "dg_dport d = dp" by (simp_all add: d_def dg_pdu_def)
  with run [of st payload st', unfolded d, OF k(4)] k(1-3) show ?thesis unfolding d by metis
qed

definition sample_tick :: CNETMsg_Tick where "sample_tick = set_nt_tick 5 nt_SharedCtor"

lemma sample_tick_ok: "nt_serializable sample_tick" "nt_wf sample_tick" "nt_Serialize sample_tick = [8, 5]"
proof -
  show "nt_serializable sample_tick" by (simp add: sample_tick_def nt_serializable_def nt_set_defs nt_SharedCtor_def)
  show "nt_wf sample_tick" by (simp add: sample_tick_def nt_wf_set nt_wf_SharedCtor)
  show "nt_Serialize sample_tick = [8, 5]" by code_simp
qed

definition sample_sent :: "sent list" where "sample_sent = [Protobuf (M_Tick sample_tick), Other 30 [9]]"

definition sample_packet :: "u8 list" where
  "sample_packet = packet_bytes (replicate 8 1) 0 [2, 3] 4 (concat (map message_bytes (map wire_of sample_sent)))"

lemma sample_packet_bytes: "sample_packet = replicate 8 1 @ [0, 2, 3, 4, 4, 2, 8, 5, 30, 1, 9]"
  by (simp add: sample_packet_def sample_sent_def sample_tick_ok packet_bytes_def message_bytes_def varint_bytes.simps)

theorem handler_end_to_end_witness:
  "\<exists>k st' payload. key_ready st' k \<and> ik_keysched k = key_schedule g_iceKey 2 \<and>
    apply_blocks (encrypt st' k) (frame_of [7] sample_packet) = Some payload \<and>
    packet_loop_handler sample_lib 3 sample_env
      \<lparr>find_IP = Some \<lparr>ip_id = 1, ip_version = 4, ip_src = ''10.0.0.1'', ip_dst = ''10.0.0.2''\<rparr>,
       find_UDP = Some \<lparr>udp_sport = 27015, udp_dport = 27005\<rparr>, find_RawPDU = Some payload\<rparr> ice_static_init =
      Returned ([PacketLine 1 4, SrcLine ''10.0.0.1'' 27005, DstLine ''10.0.0.2'' 27005,
          PayloadSize (length payload), DeltaOffset 1, DataFinalSize 19, MsgPrintf CNETMsg_Tick 2 ''message''], st')"
proof -
  let ?ip = "\<lparr>ip_id = 1, ip_version = 4, ip_src = ''10.0.0.1'', ip_dst = ''10.0.0.2''\<rparr>"
  have len: "length sample_packet = 19" by (simp add: sample_packet_bytes)
  have other: "message_of (sint (30 :: u32)) = None"
    by (simp add: message_of_def net_Tick_def net_SignonState_def svc_ServerInfo_def svc_PacketEntities_def)
  then have ok: "list_all sent_ok sample_sent" by (simp add: sample_sent_def sample_tick_ok)
  have ev: "concat (map (sent_events sample_lib) sample_sent) = [MsgPrintf CNETMsg_Tick 2 ''message'']"
    by (simp add: sample_sent_def sample_tick_ok sample_lib_def)
  have "\<exists>k st' payload. key_ready st' k \<and> ik_keysched k = key_schedule g_iceKey 2 \<and>
    apply_blocks (encrypt st' k) (frame_of [7] sample_packet) = Some payload \<and>
    packet_loop_handler sample_lib 3 sample_env
      \<lparr>find_IP = Some ?ip, find_UDP = Some \<lparr>udp_sport = 27015, udp_dport = 27005\<rparr>, find_RawPDU = Some payload\<rparr> ice_static_init =
      (if env_pDataOut sample_env \<and> env_packetData sample_env then
         Returned ([PacketLine (ip_id ?ip) (ip_version ?ip), SrcLine (ip_src ?ip) 27005, DstLine (ip_dst ?ip) 27005,
             PayloadSize (length payload), DeltaOffset (length [7 :: u8]), DataFinalSize (of_nat (length sample_packet))]
           @ concat (map (sent_events sample_lib) sample_sent), st')
       else Faulted)"
    by (rule handler_end_to_end [OF static_ok_init _ _ _ _ _ _ _ sample_packet_def _ _ _ ok])
      (simp_all add: sample_env_def sample_lib_def flags_ok_def len NET_MAX_PAYLOAD_def plain_reader_ok sample_sent_def)
  moreover have "env_pDataOut sample_env \<and> env_packetData sample_env" by (simp add: sample_env_def)
  ultimately show ?thesis unfolding ev len by simp
qed

lemma read_message_overread:
  fixes cmd n :: u32
  assumes at: "reads_at m (8 * length pre) s" and lib: "cutoff_reader (ReadTagWithCutoff lib)"
    and m: "m = pre @ (varint_bytes (unat cmd) @ varint_bytes (unat n)) @ long_field @ post" and known: "message_of (sint cmd) \<noteq> None"
    and far: "17 \<le> sint n" "int (length m) < int (length (pre @ varint_bytes (unat cmd) @ varint_bytes (unat n))) + sint n"
  shows "read_message lib s = None"
proof -
  let ?c = "varint_bytes (unat cmd)" and ?n = "varint_bytes (unat n)"
  obtain s1 where s1: "ReadVarInt32 s = Some (cmd, s1)" "reads_at m (8 * length (pre @ ?c)) s1"
    using ReadVarInt32_at [OF at, of cmd] carries_at [of m pre ?c "?n @ long_field @ post" "8 * length pre"] m by (auto simp: distrib_left)
  obtain s2 where s2: "ReadVarInt32 s1 = Some (n, s2)" "reads_at m (8 * length (pre @ ?c @ ?n)) s2"
    using ReadVarInt32_at [OF s1(2), of n] carries_at [of m "pre @ ?c" ?n "long_field @ post" "8 * length (pre @ ?c)"] m
    by (auto simp: distrib_left add.assoc)
  have data: "m_pData s2 = Some m" using s2(2) by (auto simp: reads_at_def reader_defs)
  have pos: "GetNumBytesRead s2 = int (length (pre @ ?c @ ?n))" using GetNumBytesRead_at [OF s2(2)] by simp
  have m': "m = (pre @ ?c @ ?n) @ long_field @ post" unfolding m by simp
  have "sint n < 2 ^ 31" using sint_lt [of n] by simp
  then have "ParseFrom (ReadTagWithCutoff lib) msg m (int (length (pre @ ?c @ ?n))) (sint n) = None" for msg
    by (rule ParseFrom_long_field [OF lib m' far(1) _ far(2)])
  then have "dispatch lib (sint cmd) (sint n) m (GetNumBytesRead s2) = None"
    using known unfolding pos by (auto simp: dispatch_def)
  then show ?thesis
    unfolding read_message_def by (simp only: s1(1) s2(1) data bind.bind_lunit bind.bind_lzero prod.case)
qed

lemma ReadPacket_overread_run:
  fixes cmd n :: u32
  assumes "addr mod 4 = 0" and "length stack = NET_MAX_PAYLOAD" and "length seq = 8" and "length unk0 = 2" and "flags_ok flags"
    and p: "packet = packet_bytes seq flags unk0 unk1 (varint_bytes (unat cmd) @ varint_bytes (unat n) @ long_field @ rest)"
    and "length packet \<le> NET_MAX_PAYLOAD" and "message_of (sint cmd) \<noteq> None"
    and "17 \<le> sint n" and "int NET_MAX_PAYLOAD < int (length packet) - int (length (long_field @ rest)) + sint n" and "0 < fuel"
    and "cutoff_reader (ReadTagWithCutoff lib)"
  shows "ReadPacket lib fuel addr stack raw packet (int (length packet)) = Faulted"
proof -
  let ?m = "packet @ drop (length packet) stack" and ?pre = "packet_bytes seq flags unk0 unk1 []"
  let ?h = "varint_bytes (unat cmd) @ varint_bytes (unat n)"
  obtain s where s: "reads_at ?m (8 * length ?pre) s"
    "ReadPacket lib fuel addr stack raw packet (int (length packet)) =
      (case message_loop lib (int (length packet)) fuel s [] of
         Returned log \<Rightarrow> Returned (int (length packet), log) | Faulted \<Rightarrow> Faulted | Running \<Rightarrow> Running)"
    using ReadPacket_run [OF assms(1-7)] by blast
  have m: "?m = ?pre @ ?h @ long_field @ (rest @ drop (length packet) stack)" by (simp add: p packet_bytes_def)
  have len: "length packet = length (?pre @ ?h) + length (long_field @ rest)" by (simp add: p packet_bytes_def)
  have lm: "length ?m = NET_MAX_PAYLOAD" using assms(2,7) by simp
  have "int (length ?m) < int (length (?pre @ ?h)) + sint n" unfolding lm using assms(10) len by linarith
  from read_message_overread [OF s(1) assms(12) m assms(8,9) this] have "read_message lib s = None" .
  moreover have "varint_bytes (unat cmd) \<noteq> []" by (subst varint_bytes.simps) simp
  then have "GetNumBytesRead s < int (length packet)"
    using GetNumBytesRead_at [OF s(1)] unfolding len by (simp add: add_pos_nonneg)
  ultimately have "message_loop lib (int (length packet)) fuel s [] = Faulted" using assms(11) by (cases fuel) auto
  with s(2) show ?thesis by simp
qed

definition overread_packet :: "u8 list" where
  "overread_packet = packet_bytes (replicate 8 0) 0 [0, 0] 0 (varint_bytes (unat (4 :: u32)) @ varint_bytes (unat (262140 :: u32)) @ long_field @ [])"

lemma overread_length: "length overread_packet = 23"
  by (simp add: overread_packet_def packet_bytes_def varint_bytes.simps long_field_def)

lemma overread_faults: "ReadPacket sample_lib 1 0 (replicate NET_MAX_PAYLOAD 0) sample_reader overread_packet (int (length overread_packet)) = Faulted"
  by (rule ReadPacket_overread_run [OF _ _ _ _ _ overread_packet_def])
    (simp_all add: overread_length flags_ok_def message_of_def net_Tick_def NET_MAX_PAYLOAD_def sample_lib_def plain_reader_ok long_field_def)

subsection \<open>No other fault\<close>

lemma ReadPacket_setup_safe:
  assumes "addr mod 4 = 0" and "length stack = NET_MAX_PAYLOAD" and "length packet \<le> NET_MAX_PAYLOAD"
  shows "\<exists>s. ReadPacket_setup addr stack raw packet (int (length packet)) = Some s \<and> reader_safe (packet @ drop (length packet) stack) s"
proof -
  let ?m = "packet @ drop (length packet) stack"
  have len: "length ?m = NET_MAX_PAYLOAD" "4 \<le> length stack" "length stack < 2 ^ 27" using assms(2,3) by (auto simp: NET_MAX_PAYLOAD_def)
  obtain s where s: "CBitRead_ctor addr (Some stack) (int (length stack)) (-1) raw = Some s" "reader_safe stack s"
    using CBitRead_ctor_safe [OF assms(1) len(2,3)] by blast
  then have "m_pData s = Some stack" "reader_frame ?m (s\<lparr>m_pData := Some ?m\<rparr>)" using assms(2,3) by (auto simp: safe_defs)
  moreover obtain b s' where "Seek 0 (s\<lparr>m_pData := Some ?m\<rparr>) = Some (b, s')" "reader_safe ?m s'"
    using Seek_safe [of ?m "s\<lparr>m_pData := Some ?m\<rparr>" 0] calculation safe_fromD len(1) by (fastforce simp: NET_MAX_PAYLOAD_def)
  ultimately show ?thesis using s(1) assms(2,3) by (auto simp: ReadPacket_setup_def)
qed

lemma ReadPacket_header_safe:
  assumes "reader_safe m s"
  shows "\<exists>f s'. ReadPacket_header s = Some (f, s') \<and> reader_safe m s'"
proof -
  obtain v1 s1 where s1: "ReadSBitLong 32 s = Some (v1, s1)" "reader_safe m s1" using ReadSBitLong_safe [OF assms, of 32] safe_fromD by auto
  obtain v2 s2 where s2: "ReadSBitLong 32 s1 = Some (v2, s2)" "reader_safe m s2" using ReadSBitLong_safe [OF s1(2), of 32] safe_fromD by auto
  obtain v3 s3 where s3: "ReadVarInt32 s2 = Some (v3, s3)" "reader_safe m s3" using ReadVarInt_safe(1) [OF s2(2)] safe_fromD by auto
  obtain v4 s4 where s4: "ReadSBitLong 16 s3 = Some (v4, s4)" "reader_safe m s4" using ReadSBitLong_safe [OF s3(2), of 16] safe_fromD by auto
  obtain v5 s5 where s5: "ReadVarInt32 s4 = Some (v5, s5)" "reader_safe m s5" using ReadVarInt_safe(1) [OF s4(2)] safe_fromD by auto
  from s1 s2 s3 s4 s5 show ?thesis by (simp add: ReadPacket_header_def ReadSignedVarInt32_def)
qed

text \<open>\<open>bad_range m s\<close>: the iteration at \<open>s\<close> hands a range outside the array to a parser.\<close>

definition bad_range :: "u8 list \<Rightarrow> CBitRead \<Rightarrow> bool" where
  "bad_range m s \<longleftrightarrow> (\<exists>Cmd s1 Size s2. ReadVarInt32 s = Some (Cmd, s1) \<and> ReadVarInt32 s1 = Some (Size, s2) \<and>
     message_of (sint Cmd) \<noteq> None \<and> (sint Size < 0 \<or> int (length m) < GetNumBytesRead s2 + sint Size))"

lemma dispatch_inside:
  assumes "cutoff_reader (ReadTagWithCutoff lib)" and "0 \<le> data" and "0 \<le> n" and "data + n \<le> int (length m)" and "n < kDefaultTotalBytesLimit"
  shows "dispatch lib Cmd n m data \<noteq> None"
proof (cases "message_of Cmd")
  case (Some c)
  obtain b msg where "ParseFrom (ReadTagWithCutoff lib) (new_message c) m data n = Some (b, msg)"
    using ParseFrom_total_wf [OF assms new_message_wf] by blast
  then show ?thesis by (simp add: dispatch_def Some)
qed (simp add: dispatch_def)

lemma read_message_safe:
  assumes safe: "reader_safe m s" and lib: "cutoff_reader (ReadTagWithCutoff lib)" and small: "int (length m) < kDefaultTotalBytesLimit"
    and "\<not> bad_range m s"
  shows "\<exists>ev ofs s'. read_message lib s = Some (ev, ofs, s') \<and> reader_safe m s'"
proof -
  obtain Cmd s1 where s1: "ReadVarInt32 s = Some (Cmd, s1)" "reader_safe m s1" using ReadVarInt_safe(1) [OF safe] safe_fromD by auto
  obtain Size s2 where s2: "ReadVarInt32 s1 = Some (Size, s2)" "reader_safe m s2" using ReadVarInt_safe(1) [OF s1(2)] safe_fromD by auto
  have pos: "0 \<le> GetNumBytesRead s2" by (rule GetNumBytesRead_safe [OF s2(2)])
  have "dispatch lib (sint Cmd) (sint Size) m (GetNumBytesRead s2) \<noteq> None"
  proof (cases "message_of (sint Cmd)")
    case None
    then show ?thesis by (simp add: dispatch_def)
  next
    case (Some c)
    then have "0 \<le> sint Size" "GetNumBytesRead s2 + sint Size \<le> int (length m)"
      using assms(4) s1(1) s2(1) unfolding bad_range_def by fastforce+
    with pos small show ?thesis by (intro dispatch_inside [OF lib]) auto
  qed
  then obtain ev where ev: "dispatch lib (sint Cmd) (sint Size) m (GetNumBytesRead s2) = Some ev" by blast
  obtain ok s3 where "SeekRelative (i32 (sint Size * 8)) s2 = Some (ok, s3)" "reader_safe m s3"
    using SeekRelative_safe [OF s2(2)] safe_fromD by blast
  moreover have "m_pData s2 = Some m" using s2(2) by (simp add: safe_defs)
  ultimately show ?thesis using ev s1(1) s2(1) by (simp add: read_message_def Let_def)
qed

lemma message_loop_fault:
  assumes "cutoff_reader (ReadTagWithCutoff lib)" and "int (length m) < kDefaultTotalBytesLimit"
  shows "reader_safe m s \<Longrightarrow> message_loop lib nBytes fuel s log = Faulted \<Longrightarrow>
    \<exists>s1. reachable lib nBytes s s1 \<and> GetNumBytesRead s1 < nBytes \<and> bad_range m s1"
proof (induction fuel arbitrary: s log)
  case (Suc fuel)
  have more: "GetNumBytesRead s < nBytes" using Suc.prems(2) by (simp split: if_splits)
  show ?case
  proof (cases "bad_range m s")
    case True
    then show ?thesis using more by (auto simp: reachable_def)
  next
    case False
    obtain ev ofs s' where r: "read_message lib s = Some (ev, ofs, s')" "reader_safe m s'"
      using read_message_safe [OF Suc.prems(1) assms False] by blast
    with more Suc.prems(2) obtain s1 where s1: "reachable lib nBytes s' s1" "GetNumBytesRead s1 < nBytes" "bad_range m s1"
      using Suc.IH [OF r(2), of "log @ ev"] by auto
    have "message_step lib nBytes s ofs s'" using more r(1) by (rule message_step.intros)
    with s1(1) have "reachable lib nBytes s s1"
      unfolding reachable_def by (blast intro: converse_rtranclp_into_rtranclp)
    with s1 show ?thesis by blast
  qed
qed simp

subsection \<open>Properties of the unchecked range\<close>

text \<open>
  C22: The range handed to the protobuf parser is not checked. A packet of any size whose first
  message is of a known class, has a size field reaching beyond the local array and starts
  with an unknown length-delimited field of the greatest length makes the parser read outside
  the array.
\<close>

theorem ReadPacket_overread:
  fixes cmd n :: u32
  assumes "addr mod 4 = 0" and "length stack = NET_MAX_PAYLOAD" and "length seq = 8" and "length unk0 = 2" and "flags_ok flags"
    and p: "packet = packet_bytes seq flags unk0 unk1 (varint_bytes (unat cmd) @ varint_bytes (unat n) @ long_field @ rest)"
    and "length packet \<le> NET_MAX_PAYLOAD" and "message_of (sint cmd) \<noteq> None"
    and "17 \<le> sint n" and "int NET_MAX_PAYLOAD < int (length packet) - int (length (long_field @ rest)) + sint n" and "0 < fuel"
    and "cutoff_reader (ReadTagWithCutoff lib)"
  shows "ReadPacket lib fuel addr stack raw packet (int (length packet)) = Faulted"
  by (rule ReadPacket_overread_run [OF assms])

theorem ReadPacket_overread_witness:
  "ReadPacket sample_lib 1 0 (replicate NET_MAX_PAYLOAD 0) sample_reader overread_packet 23 = Faulted"
proof -
  have "ReadPacket sample_lib 1 0 (replicate NET_MAX_PAYLOAD 0) sample_reader overread_packet (int (length overread_packet)) = Faulted"
    by (rule ReadPacket_overread [OF _ _ _ _ _ overread_packet_def])
      (simp_all add: overread_length flags_ok_def message_of_def net_Tick_def NET_MAX_PAYLOAD_def sample_lib_def plain_reader_ok long_field_def)
  then show ?thesis unfolding overread_length by simp
qed

text \<open>
  C7: The unchecked range is the only way \<open>ReadPacket\<close> can fault. For every packet of at most the
  buffer's size and every number of iterations: if \<open>ReadPacket\<close> makes an invalid access, then
  some iteration it reached read a command of a known class and a size that is negative or
  takes the message beyond the end of the local array. The bit reader and the generated
  parsers themselves never fault on a range inside the array.
\<close>

theorem ReadPacket_fault_range:
  assumes "addr mod 4 = 0" and "length stack = NET_MAX_PAYLOAD" and "length packet \<le> NET_MAX_PAYLOAD"
    and lib: "cutoff_reader (ReadTagWithCutoff lib)"
    and run: "ReadPacket lib fuel addr stack raw packet (int (length packet)) = Faulted"
  shows "\<exists>buf nFlags s s1 s2 s3 Cmd Size. ReadPacket_setup addr stack raw packet (int (length packet)) = Some buf \<and>
    ReadPacket_header buf = Some (nFlags, s) \<and> reachable lib (int (length packet)) s s1 \<and>
    GetNumBytesRead s1 < int (length packet) \<and>
    ReadVarInt32 s1 = Some (Cmd, s2) \<and> ReadVarInt32 s2 = Some (Size, s3) \<and> message_of (sint Cmd) \<noteq> None \<and>
    (sint Size < 0 \<or> int NET_MAX_PAYLOAD < GetNumBytesRead s3 + sint Size)"
proof -
  let ?m = "packet @ drop (length packet) stack" and ?n = "int (length packet)"
  obtain buf where buf: "ReadPacket_setup addr stack raw packet ?n = Some buf" "reader_safe ?m buf"
    using ReadPacket_setup_safe [OF assms(1-3)] by blast
  obtain f s where s: "ReadPacket_header buf = Some (f, s)" "reader_safe ?m s"
    using ReadPacket_header_safe [OF buf(2)] by blast
  have len: "length ?m = NET_MAX_PAYLOAD" using assms(2,3) by simp
  then have small: "int (length ?m) < kDefaultTotalBytesLimit" by (simp add: NET_MAX_PAYLOAD_def kDefaultTotalBytesLimit_def)
  have "message_loop lib ?n fuel s [] = Faulted"
    using run buf(1) s(1) by (auto simp: ReadPacket_def split: if_splits outcome.splits)
  from message_loop_fault [OF lib small s(2) this] buf(1) s(1) show ?thesis
    unfolding bad_range_def len by blast
qed

theorem ReadPacket_fault_range_witness:
  "\<exists>buf nFlags s s1 s2 s3 Cmd Size. ReadPacket_setup 0 (replicate NET_MAX_PAYLOAD 0) sample_reader overread_packet 23 = Some buf \<and>
    ReadPacket_header buf = Some (nFlags, s) \<and> reachable sample_lib 23 s s1 \<and> GetNumBytesRead s1 < 23 \<and>
    ReadVarInt32 s1 = Some (Cmd, s2) \<and> ReadVarInt32 s2 = Some (Size, s3) \<and> message_of (sint Cmd) \<noteq> None \<and>
    (sint Size < 0 \<or> int NET_MAX_PAYLOAD < GetNumBytesRead s3 + sint Size)"
proof -
  have "length overread_packet \<le> NET_MAX_PAYLOAD" "cutoff_reader (ReadTagWithCutoff sample_lib)"
    by (simp_all add: overread_length NET_MAX_PAYLOAD_def sample_lib_def plain_reader_ok)
  from ReadPacket_fault_range [OF _ _ this, of 0 "replicate NET_MAX_PAYLOAD 0" 1 sample_reader] overread_faults
  show ?thesis by (simp add: overread_length)
qed

end
