(* ===== verification/Cfg.thy ===== *)
theory Cfg
  imports BitCodec
begin

text \<open>
  The configuration of the sniffer (\<^verbatim>\<open>cfg.h\<close>) and the memory holder it passes values in
  (\<^verbatim>\<open>mem.h\<close>). The configuration is a block of fields separated by \<open>'|'\<close>, kept in the file
  \<^verbatim>\<open>cfg\<close> and in \<open>g_config\<close>, which points to the static default or to a block of the heap.

  Pointers into the block are offsets. The file system is the contents of the one file, if it
  exists, and opening it succeeds; so do the \<open>malloc\<close> calls for a value and for the loaded file.
  What each call of \<open>realloc\<close> does is a parameter: it may extend or shrink the block in place, move
  it, or fail. \<open>memcpy\<close> between overlapping, different ranges is undefined, and so is \<open>None\<close>.
\<close>

subsection \<open>Memory holders\<close>

record memory_t =
  m_pValue :: "u8 list option"
  m_nSize :: int

text \<open>\<open>raw\<close> is what \<open>malloc\<close> leaves in the new block; it has the size asked for.\<close>

definition memory_init :: "u8 list \<Rightarrow> int \<Rightarrow> memory_t" where
  "memory_init raw n = \<lparr>m_pValue = Some raw, m_nSize = n\<rparr>"

definition memory_ctor_range :: "u8 list \<Rightarrow> int \<Rightarrow> int \<Rightarrow> memory_t option" where
  "memory_ctor_range mem a n =
     (if 0 \<le> a \<and> 0 \<le> n \<and> a + n \<le> int (length mem) then Some \<lparr>m_pValue = Some (take (nat n) (drop (nat a) mem)), m_nSize = n\<rparr> else None)"

definition memory_ctor_int :: "u32 \<Rightarrow> memory_t" where
  "memory_ctor_int val = \<lparr>m_pValue = Some (le_bytes val), m_nSize = 4\<rparr>"

definition memory_copy :: "memory_t \<Rightarrow> memory_t option" where
  "memory_copy mem = do { bs \<leftarrow> m_pValue mem; memory_ctor_range bs 0 (m_nSize mem) }"

text \<open>
  \<open>free\<close> gives the block, which comes from \<open>malloc\<close>, to \<open>delete[]\<close>. The language leaves that
  undefined; \<open>takes_malloc\<close> says whether the \<open>operator delete[]\<close> at hand accepts such a block.
\<close>

definition memory_free :: "bool \<Rightarrow> memory_t \<Rightarrow> memory_t option" where
  "memory_free takes_malloc mem =
     (if m_pValue mem \<noteq> None \<and> \<not> takes_malloc then None else Some (mem\<lparr>m_pValue := None, m_nSize := 0\<rparr>))"

definition memory_value :: "memory_t \<Rightarrow> u32 option" where
  "memory_value mem = (case m_pValue mem of None \<Rightarrow> Some 0 | Some bs \<Rightarrow> load32 bs 0)"

subsection \<open>State\<close>

definition INVALID_OPT :: int where "INVALID_OPT = - 1"
definition DEVICE :: int where "DEVICE = 0"
definition PORT :: int where "PORT = 1"
definition GAY :: int where "GAY = 2"
definition OPTCOUNT :: int where "OPTCOUNT = 3"

definition bar :: u8 where "bar = 0x7C"

text \<open>The array has the string's terminator as its last byte.\<close>

definition g_default_config :: "u8 list" where
  "g_default_config = [0x02, 0, 0, 0, bar, 0x87, 0x69, 0, 0, bar, 0x67, 0x61, 0x79, 0x70, 0x75, 0x73, 0x73, bar, 0]"

datatype config_block = Static "u8 list" | Heap "u8 list"

record cfg_state =
  g_config :: "config_block option"
  g_config_size :: nat

fun block_bytes :: "config_block \<Rightarrow> u8 list" where
  "block_bytes (Static m) = m"
| "block_bytes (Heap m) = m"

text \<open>The outcome of a \<open>realloc\<close>; \<open>InPlace\<close> carries the bytes it adds to a block that grows.\<close>

datatype realloc_result = InPlace "u8 list" | Moved | NoMemory

subsection \<open>Operations\<close>

fun memchr :: "u8 list \<Rightarrow> int \<Rightarrow> u8 \<Rightarrow> nat \<Rightarrow> int option option" where
  "memchr m a c 0 = Some None"
| "memchr m a c (Suc n) = do { b \<leftarrow> peek8 m a; if b = c then Some (Some a) else memchr m (a + 1) c n }"

text \<open>
  The loop that skips \<open>opt\<close> fields. If a separator is missing, \<open>v\<close> becomes \<open>NULL + 1\<close>, and
  the next \<open>memchr\<close>, in the loop or after it, reads from there.
\<close>

fun skip_fields :: "u8 list \<Rightarrow> nat \<Rightarrow> nat \<Rightarrow> int \<Rightarrow> int option" where
  "skip_fields m csize 0 v = Some v"
| "skip_fields m csize (Suc n) v = do {
     d \<leftarrow> memchr m v bar (nat (int csize - v));
     d \<leftarrow> d;
     skip_fields m csize n (d + 1) }"

definition get_config_value :: "int \<Rightarrow> cfg_state \<Rightarrow> int option" where
  "get_config_value opt st = do {
     blk \<leftarrow> g_config st;
     v \<leftarrow> skip_fields (block_bytes blk) (g_config_size st) (nat opt) 0;
     _ \<leftarrow> memchr (block_bytes blk) v bar (nat (int (g_config_size st) - v));
     Some v }"

definition copy_to :: "u8 list \<Rightarrow> int \<Rightarrow> u8 list \<Rightarrow> u8 list option" where
  "copy_to m p bs = (if 0 \<le> p \<and> p + int (length bs) \<le> int (length m)
     then Some (take (nat p) m @ bs @ drop (nat p + length bs) m) else None)"

definition copy_within :: "u8 list \<Rightarrow> int \<Rightarrow> int \<Rightarrow> nat \<Rightarrow> u8 list option" where
  "copy_within m dst src n =
     (if 0 \<le> src \<and> src + int n \<le> int (length m) \<and> (n = 0 \<or> dst = src \<or> dst + int n \<le> src \<or> src + int n \<le> dst)
      then copy_to m dst (take n (drop (nat src) m)) else None)"

text \<open>
  \<open>v\<close> and \<open>delimiter\<close> point into the old block: they dangle if \<open>realloc\<close> has moved it, and are
  still valid, with \<open>g_config\<close> null, if it has failed.
\<close>

definition set_config_value :: "realloc_result \<Rightarrow> int \<Rightarrow> u8 list \<Rightarrow> cfg_state \<Rightarrow> cfg_state option" where
  "set_config_value realloc opt val st = do {
     blk \<leftarrow> g_config st;
     let m = block_bytes blk;
     v \<leftarrow> skip_fields m (g_config_size st) (nat opt) 0;
     d \<leftarrow> memchr m v bar (nat (int (g_config_size st) - v));
     delimiter \<leftarrow> d;
     let len = nat (int (g_config_size st) - delimiter);
     let newSize = nat (int (g_config_size st) - (delimiter - v) + int (length val));
     case blk of
       Static _ \<Rightarrow> None
     | Heap _ \<Rightarrow>
         (case realloc of
            Moved \<Rightarrow> None
          | NoMemory \<Rightarrow> do {
              m \<leftarrow> copy_to m v val;
              m \<leftarrow> copy_within m (v + int (length val)) delimiter len;
              Some \<lparr>g_config = None, g_config_size = newSize\<rparr> }
          | InPlace added \<Rightarrow> do {
              m \<leftarrow> copy_to (take newSize (m @ added)) v val;
              m \<leftarrow> copy_within m (v + int (length val)) delimiter len;
              Some \<lparr>g_config = Some (Heap m), g_config_size = newSize\<rparr> }) }"

text \<open>An option above \<open>OPTCOUNT\<close> is an error message, and the configuration stays.\<close>

definition set_config_option :: "realloc_result \<Rightarrow> int \<Rightarrow> memory_t \<Rightarrow> cfg_state \<Rightarrow> cfg_state option" where
  "set_config_option realloc opt val st =
     (if opt > OPTCOUNT then Some st
      else do { val \<leftarrow> memory_copy val; bs \<leftarrow> m_pValue val; set_config_value realloc opt bs st })"

definition get_config_option :: "u8 list \<Rightarrow> int \<Rightarrow> cfg_state \<Rightarrow> memory_t option" where
  "get_config_option raw opt st =
     (if opt > OPTCOUNT then Some (memory_init raw 4)
      else do { v \<leftarrow> get_config_value opt st; blk \<leftarrow> g_config st; memory_ctor_range (block_bytes blk) v 4 })"

text \<open>The overload with a count ignores it.\<close>

definition get_config_option_count :: "u8 list \<Rightarrow> int \<Rightarrow> nat \<Rightarrow> cfg_state \<Rightarrow> memory_t option" where
  "get_config_option_count raw opt count st = get_config_option raw opt st"

definition file_exists :: "u8 list option \<Rightarrow> bool" where
  "file_exists file = (file \<noteq> None)"

text \<open>The results: whether the file existed, the configuration, and the file afterwards.\<close>

definition check_config_file :: "u8 list option \<Rightarrow> bool \<times> cfg_state \<times> u8 list" where
  "check_config_file file =
     (case file of
        None \<Rightarrow> (file_exists file, \<lparr>g_config = Some (Static g_default_config), g_config_size = length g_default_config\<rparr>, g_default_config)
      | Some bs \<Rightarrow> (file_exists file, \<lparr>g_config = Some (Heap bs), g_config_size = length bs\<rparr>, bs))"

definition save_config_file :: "cfg_state \<Rightarrow> u8 list \<Rightarrow> u8 list option" where
  "save_config_file st file = do {
     blk \<leftarrow> g_config st;
     let m = block_bytes blk;
     if g_config_size st \<le> length m then Some (take (g_config_size st) m @ drop (g_config_size st) file) else None }"

text \<open>The two parameters are what \<open>realloc\<close> does when it is called for the port and for the device.\<close>

definition save_config ::
  "realloc_result \<Rightarrow> realloc_result \<Rightarrow> memory_t \<Rightarrow> memory_t \<Rightarrow> cfg_state \<Rightarrow> u8 list \<Rightarrow> (cfg_state \<times> u8 list) option" where
  "save_config realloc1 realloc2 cfg_device cfg_port st file = do {
     st \<leftarrow> set_config_option realloc1 PORT cfg_port st;
     st \<leftarrow> set_config_option realloc2 DEVICE cfg_device st;
     file \<leftarrow> save_config_file st file;
     Some (st, file) }"

subsection \<open>Fields\<close>

lemma memchr_found:
  "c \<notin> set xs \<Longrightarrow> length xs < n \<Longrightarrow> memchr (pre @ xs @ c # post) (int (length pre)) c n = Some (Some (int (length (pre @ xs))))"
proof (induction n arbitrary: pre xs)
  case (Suc n)
  show ?case
  proof (cases xs)
    case Nil
    then show ?thesis by (simp add: peek8_def)
  next
    case (Cons x ys)
    then have "memchr (pre @ xs @ c # post) (int (length pre)) c (Suc n) = memchr ((pre @ [x]) @ ys @ c # post) (int (length (pre @ [x]))) c n"
      using Suc.prems(1) by (auto simp: peek8_def nth_append add.commute)
    also have "\<dots> = Some (Some (int (length ((pre @ [x]) @ ys))))"
      using Suc.prems Cons by (intro Suc.IH) auto
    finally show ?thesis using Cons by simp
  qed
qed simp

text \<open>Two fields in front of the rest, as the program keeps them.\<close>

definition config_bytes :: "u8 list \<Rightarrow> u8 list \<Rightarrow> u8 list \<Rightarrow> u8 list" where
  "config_bytes d p rest = d @ bar # p @ bar # rest"

definition field_ok :: "u8 list \<Rightarrow> bool" where
  "field_ok f \<longleftrightarrow> length f = 4 \<and> bar \<notin> set f"

lemma config_fields:
  assumes "field_ok d" and "field_ok p"
  shows "memchr (config_bytes d p rest) 0 bar (length (config_bytes d p rest)) = Some (Some 4)"
    "skip_fields (config_bytes d p rest) (length (config_bytes d p rest)) 1 0 = Some 5"
    "memchr (config_bytes d p rest) 5 bar (nat (int (length (config_bytes d p rest)) - 5)) = Some (Some 9)"
proof -
  have l: "length d = 4" "length p = 4" "bar \<notin> set d" "bar \<notin> set p" using assms by (auto simp: field_ok_def)
  show m: "memchr (config_bytes d p rest) 0 bar (length (config_bytes d p rest)) = Some (Some 4)"
    using memchr_found [of bar d "length (config_bytes d p rest)" "[]" "p @ bar # rest"] l by (simp add: config_bytes_def)
  then show "skip_fields (config_bytes d p rest) (length (config_bytes d p rest)) 1 0 = Some 5" by simp
  show "memchr (config_bytes d p rest) 5 bar (nat (int (length (config_bytes d p rest)) - 5)) = Some (Some 9)"
    using memchr_found [of bar p "nat (int (length (config_bytes d p rest)) - 5)" "d @ [bar]" rest] l by (simp add: config_bytes_def)
qed

lemma set_fields:
  assumes "field_ok d" and "field_ok p" and "length f = 4"
  shows "set_config_value (InPlace added) DEVICE f \<lparr>g_config = Some (Heap (config_bytes d p rest)), g_config_size = length (config_bytes d p rest)\<rparr> =
      Some \<lparr>g_config = Some (Heap (config_bytes f p rest)), g_config_size = length (config_bytes d p rest)\<rparr>"
    "set_config_value (InPlace added) PORT f \<lparr>g_config = Some (Heap (config_bytes d p rest)), g_config_size = length (config_bytes d p rest)\<rparr> =
      Some \<lparr>g_config = Some (Heap (config_bytes d f rest)), g_config_size = length (config_bytes d p rest)\<rparr>"
proof -
  let ?m = "config_bytes d p rest"
  have l: "length d = 4" "length p = 4" using assms(1,2) by (auto simp: field_ok_def)
  have len: "length ?m = 10 + length rest" using l by (simp add: config_bytes_def)
  note c = config_fields [OF assms(1,2), of rest]
  have sz: "nat (int (length ?m) - (4 - 0) + int (length f)) = length ?m" "nat (int (length ?m) - (9 - 5) + int (length f)) = length ?m"
    using assms(3) len by auto
  have d1: "copy_to ?m 0 f = Some (config_bytes f p rest)" using l assms(3) by (simp add: copy_to_def config_bytes_def)
  have p1: "copy_to ?m 5 f = Some (config_bytes d f rest)" using l assms(3) by (simp add: copy_to_def config_bytes_def)
  have d2: "copy_within (config_bytes f p rest) 4 4 (nat (int (length ?m) - 4)) = Some (config_bytes f p rest)"
    using l assms(3) by (simp add: copy_within_def copy_to_def config_bytes_def)
  have p2: "copy_within (config_bytes d f rest) 9 9 (nat (int (length ?m) - 9)) = Some (config_bytes d f rest)"
    using l assms(3) by (simp add: copy_within_def copy_to_def config_bytes_def)
  show "set_config_value (InPlace added) DEVICE f \<lparr>g_config = Some (Heap ?m), g_config_size = length ?m\<rparr> =
      Some \<lparr>g_config = Some (Heap (config_bytes f p rest)), g_config_size = length ?m\<rparr>"
    using c(1) sz(1) assms(3) d1 d2 by (simp add: set_config_value_def DEVICE_def Let_def)
  show "set_config_value (InPlace added) PORT f \<lparr>g_config = Some (Heap ?m), g_config_size = length ?m\<rparr> =
      Some \<lparr>g_config = Some (Heap (config_bytes d f rest)), g_config_size = length ?m\<rparr>"
    using c sz(2) assms(3) p1 p2 by (simp add: set_config_value_def PORT_def Let_def)
qed

subsection \<open>Saving and reading back\<close>

lemma le_bytes_length [simp]: "length (le_bytes w) = 4"
  by (simp add: le_bytes_def)

lemma load32_le_bytes: "load32 (le_bytes w @ post) 0 = Some w"
proof -
  have "ucast (ucast w :: u8) OR push_bit 8 (ucast (ucast (drop_bit 8 w) :: u8)) OR push_bit 16 (ucast (ucast (drop_bit 16 w) :: u8))
      OR push_bit 24 (ucast (ucast (drop_bit 24 w) :: u8)) = (w :: u32)" (is "?e = w")
  proof (rule bit_word_eqI)
    fix i assume "i < LENGTH(32)"
    then consider "i < 8" | "8 \<le> i" "i < 16" | "16 \<le> i" "i < 24" | "24 \<le> i" "i < 32" by fastforce
    then show "bit ?e i = bit w i"
      by cases (auto simp: bit_or_iff bit_push_bit_iff bit_ucast_iff bit_drop_bit_eq)
  qed
  then show ?thesis by (simp add: load32_def le_bytes_def peek8_def)
qed

lemma memory_copy_int [simp]: "memory_copy (memory_ctor_int w) = Some (memory_ctor_int w)"
  by (simp add: memory_copy_def memory_ctor_int_def memory_ctor_range_def)

lemma memory_value_int [simp]: "memory_value (memory_ctor_int w) = Some w"
  using load32_le_bytes [of w "[]"] by (simp add: memory_value_def memory_ctor_int_def)

lemma set_options:
  assumes "field_ok d" and "field_ok p"
  shows "set_config_option (InPlace added) DEVICE (memory_ctor_int w) \<lparr>g_config = Some (Heap (config_bytes d p rest)), g_config_size = length (config_bytes d p rest)\<rparr> =
      Some \<lparr>g_config = Some (Heap (config_bytes (le_bytes w) p rest)), g_config_size = length (config_bytes d p rest)\<rparr>"
    "set_config_option (InPlace added) PORT (memory_ctor_int w) \<lparr>g_config = Some (Heap (config_bytes d p rest)), g_config_size = length (config_bytes d p rest)\<rparr> =
      Some \<lparr>g_config = Some (Heap (config_bytes d (le_bytes w) rest)), g_config_size = length (config_bytes d p rest)\<rparr>"
  using set_fields [OF assms le_bytes_length, of added w rest]
  by (simp_all add: set_config_option_def DEVICE_def PORT_def OPTCOUNT_def) (simp_all add: memory_ctor_int_def)

lemma get_options:
  assumes "field_ok (le_bytes d)" and "field_ok (le_bytes p)" and "st = \<lparr>g_config = Some blk, g_config_size = length (block_bytes blk)\<rparr>"
    and "block_bytes blk = config_bytes (le_bytes d) (le_bytes p) rest"
  shows "get_config_option raw DEVICE st = Some (memory_ctor_int d)" "get_config_option raw PORT st = Some (memory_ctor_int p)"
proof -
  let ?m = "config_bytes (le_bytes d) (le_bytes p) rest"
  note c = config_fields [OF assms(1,2), of rest]
  have "get_config_value DEVICE st = Some 0" "get_config_value PORT st = Some 5"
    using c assms(3,4) by (simp_all add: get_config_value_def DEVICE_def PORT_def)
  moreover have "memory_ctor_range ?m 0 4 = Some (memory_ctor_int d)" "memory_ctor_range ?m 5 4 = Some (memory_ctor_int p)"
    by (simp_all add: memory_ctor_range_def memory_ctor_int_def config_bytes_def)
  ultimately show "get_config_option raw DEVICE st = Some (memory_ctor_int d)" "get_config_option raw PORT st = Some (memory_ctor_int p)"
    using assms(3,4) by (simp_all add: get_config_option_def DEVICE_def PORT_def OPTCOUNT_def)
qed

fun in_place :: "realloc_result \<Rightarrow> bool" where
  "in_place (InPlace added) = True" | "in_place _ = False"

text \<open>A block that has moved, or is lost, ends the save in undefined behaviour.\<close>

lemma set_config_option_moved: "set_config_option Moved opt (memory_ctor_int w) \<lparr>g_config = Some blk, g_config_size = n\<rparr> = None"
  if "opt \<le> OPTCOUNT"
  using that by (auto simp: set_config_option_def set_config_value_def Let_def split: bind_splits config_block.splits)

lemma set_config_option_lost:
  assumes "opt \<le> OPTCOUNT"
  shows "case set_config_option NoMemory opt (memory_ctor_int w) \<lparr>g_config = Some blk, g_config_size = n\<rparr> of
    None \<Rightarrow> True | Some st \<Rightarrow> g_config st = None"
  using assms by (auto simp: set_config_option_def set_config_value_def Let_def split: bind_splits config_block.splits option.splits)

lemma set_config_option_null: "g_config st = None \<Longrightarrow> opt \<le> OPTCOUNT \<Longrightarrow> set_config_option r opt (memory_ctor_int w) st = None"
  by (auto simp: set_config_option_def set_config_value_def split: bind_splits)

lemma set_config_option_fails:
  assumes "opt \<le> OPTCOUNT" and "\<not> in_place r"
  shows "set_config_option r opt (memory_ctor_int w) \<lparr>g_config = Some blk, g_config_size = n\<rparr> = None \<or>
    (\<exists>st. set_config_option r opt (memory_ctor_int w) \<lparr>g_config = Some blk, g_config_size = n\<rparr> = Some st \<and> g_config st = None)"
proof (cases r)
  case NoMemory
  then show ?thesis using set_config_option_lost [OF assms(1), of w blk n] by (auto split: option.splits)
qed (use assms set_config_option_moved in auto)

lemma save_config_ok:
  assumes "field_ok d" and "field_ok p" and "field_ok (le_bytes p')" and "file = config_bytes d p rest"
  shows "save_config r1 r2 (memory_ctor_int d') (memory_ctor_int p') \<lparr>g_config = Some (Heap file), g_config_size = length file\<rparr> file =
    (if in_place r1 \<and> in_place r2 then
       Some (\<lparr>g_config = Some (Heap (config_bytes (le_bytes d') (le_bytes p') rest)), g_config_size = length file\<rparr>, config_bytes (le_bytes d') (le_bytes p') rest)
     else None)"
proof -
  have l: "length d = 4" "length p = 4" using assms(1,2) by (auto simp: field_ok_def)
  have len: "length file = length (config_bytes d (le_bytes p') rest)" "length file = length (config_bytes (le_bytes d') (le_bytes p') rest)"
    using l assms(4) by (simp_all add: config_bytes_def)
  let ?st = "\<lparr>g_config = Some (Heap file), g_config_size = length file\<rparr>"
  let ?st1 = "\<lparr>g_config = Some (Heap (config_bytes d (le_bytes p') rest)), g_config_size = length file\<rparr>"
  have opts: "PORT \<le> OPTCOUNT" "DEVICE \<le> OPTCOUNT" by (simp_all add: PORT_def DEVICE_def OPTCOUNT_def)
  have 1: "set_config_option (InPlace a) PORT (memory_ctor_int p') ?st = Some ?st1" for a
    using set_options(2) [OF assms(1,2), of a p' rest] by (simp add: assms(4))
  have 2: "set_config_option (InPlace a) DEVICE (memory_ctor_int d') ?st1 =
      Some \<lparr>g_config = Some (Heap (config_bytes (le_bytes d') (le_bytes p') rest)), g_config_size = length file\<rparr>" for a
    using set_options(1) [OF assms(1,3), of a d' rest] unfolding len(1) .
  have 3: "save_config_file \<lparr>g_config = Some (Heap (config_bytes (le_bytes d') (le_bytes p') rest)), g_config_size = length file\<rparr> file =
      Some (config_bytes (le_bytes d') (le_bytes p') rest)"
    using len(2) by (simp add: save_config_file_def)
  show ?thesis
  proof (cases "in_place r1")
    case False
    then show ?thesis using set_config_option_fails [OF opts(1) False, of p' "Heap file" "length file"] set_config_option_null [OF _ opts(2)]
      by (auto simp: save_config_def)
  next
    case True
    then obtain a where r1: "r1 = InPlace a" by (cases r1) auto
    show ?thesis
    proof (cases "in_place r2")
      case False
      then show ?thesis using set_config_option_fails [OF opts(2) False, of d' "Heap (config_bytes d (le_bytes p') rest)" "length file"] 1 r1
        by (auto simp: save_config_def save_config_file_def)
    next
      case True
      then obtain b where "r2 = InPlace b" by (cases r2) auto
      then show ?thesis using 1 2 3 r1 by (simp add: save_config_def)
    qed
  qed
qed

text \<open>The first run, when there is no file: the static array goes to \<open>realloc\<close>.\<close>

lemma default_config_fields: "g_default_config = config_bytes [0x02, 0, 0, 0] [0x87, 0x69, 0, 0] [0x67, 0x61, 0x79, 0x70, 0x75, 0x73, 0x73, bar, 0]"
  by (simp add: g_default_config_def config_bytes_def)

lemma first_save_undefined:
  "save_config r1 r2 cfg_device (memory_ctor_int p) (fst (snd (check_config_file None))) file = None"
proof -
  let ?m = "config_bytes [0x02, 0, 0, 0] [0x87, 0x69, 0, 0] [0x67, 0x61, 0x79, 0x70, 0x75, 0x73, 0x73, bar, 0]"
  have "field_ok [0x02, 0, 0, 0]" "field_ok [0x87, 0x69, 0, 0]" by (simp_all add: field_ok_def bar_def)
  note c = config_fields [OF this, of "[0x67, 0x61, 0x79, 0x70, 0x75, 0x73, 0x73, bar, 0]"]
  have "set_config_value r1 PORT (le_bytes p) \<lparr>g_config = Some (Static ?m), g_config_size = length ?m\<rparr> = None"
    using c by (simp add: set_config_value_def PORT_def Let_def)
  then have "set_config_option r1 PORT (memory_ctor_int p) \<lparr>g_config = Some (Static ?m), g_config_size = length ?m\<rparr> = None"
    by (simp add: set_config_option_def PORT_def OPTCOUNT_def) (simp add: memory_ctor_int_def)
  then show ?thesis by (simp add: save_config_def check_config_file_def default_config_fields)
qed

text \<open>The separator is not escaped: a device number with that byte shifts the port.\<close>

lemma separator_in_value:
  "get_config_option raw PORT \<lparr>g_config = Some (Heap (config_bytes (le_bytes 0x7C) (le_bytes 27015) [])), g_config_size = 10\<rparr> =
    Some (memory_ctor_int 0x7C000000)"
proof -
  let ?m = "config_bytes (le_bytes 0x7C) (le_bytes 27015) []"
  have "?m = [bar, 0, 0, 0, bar, 0x87, 0x69, 0, 0, bar]" by (simp add: config_bytes_def le_bytes_def bar_def)
  then have m: "?m = [] @ [] @ bar # [0, 0, 0, bar, 0x87, 0x69, 0, 0, bar]" "?m = [bar] @ [0, 0, 0] @ bar # [0x87, 0x69, 0, 0, bar]" by simp_all
  have "memchr ?m 0 bar 10 = Some (Some 0)" unfolding m(1) using memchr_found [of bar "[]" 10 "[]"] by simp
  moreover have "memchr ?m 1 bar 9 = Some (Some 4)" unfolding m(2) using memchr_found [of bar "[0, 0, 0]" 9 "[bar]"] by (simp add: bar_def)
  ultimately have "get_config_value PORT \<lparr>g_config = Some (Heap ?m), g_config_size = 10\<rparr> = Some 1"
    by (simp add: get_config_value_def PORT_def)
  moreover have "memory_ctor_range ?m 1 4 = Some (memory_ctor_int 0x7C000000)"
    by (simp add: memory_ctor_range_def memory_ctor_int_def config_bytes_def le_bytes_def bar_def)
  ultimately show ?thesis by (simp add: get_config_option_def PORT_def OPTCOUNT_def)
qed

subsection \<open>Properties\<close>

text \<open>
  C18: What is saved is what the next run reads. If the configuration file exists with two
  four-byte fields, and none of the fields, old and new, contains the separator byte 0x7C, then
  saving a device and a port either replaces just these fields in the file, and a later run that
  loads the file gets the two numbers back, or it is undefined behaviour; and which of the two
  depends only on \<open>realloc\<close>: it succeeds exactly if both calls, which ask for the size the block
  already has, leave the block where it is, since the code goes on with pointers into the old
  block. In the first run, when there was no file, saving any port is undefined: the static default
  is passed to \<open>realloc\<close>.
\<close>

theorem config_persists:
  assumes "file = config_bytes d p rest" and "field_ok d" and "field_ok p"
    and "field_ok (le_bytes device)" and "field_ok (le_bytes port)"
  shows "(\<exists>st file'. save_config r1 r2 (memory_ctor_int device) (memory_ctor_int port) (fst (snd (check_config_file (Some file)))) file =
        (if in_place r1 \<and> in_place r2 then Some (st, file') else None) \<and>
      file' = config_bytes (le_bytes device) (le_bytes port) rest \<and>
      (let st' = fst (snd (check_config_file (Some file'))) in
        get_config_option raw DEVICE st' = Some (memory_ctor_int device) \<and> get_config_option raw PORT st' = Some (memory_ctor_int port))) \<and>
    save_config r1 r2 (memory_ctor_int device) (memory_ctor_int port) (fst (snd (check_config_file None))) g_default_config = None"
proof
  let ?new = "config_bytes (le_bytes device) (le_bytes port) rest"
  have "save_config r1 r2 (memory_ctor_int device) (memory_ctor_int port) (fst (snd (check_config_file (Some file)))) file =
      (if in_place r1 \<and> in_place r2 then Some (\<lparr>g_config = Some (Heap ?new), g_config_size = length file\<rparr>, ?new) else None)"
    using save_config_ok [OF assms(2,3,5,1), of r1 r2 device] by (simp add: check_config_file_def)
  moreover have "get_config_option raw DEVICE (fst (snd (check_config_file (Some ?new)))) = Some (memory_ctor_int device)"
    "get_config_option raw PORT (fst (snd (check_config_file (Some ?new)))) = Some (memory_ctor_int port)"
    using get_options [OF assms(4,5), of _ "Heap ?new" rest] by (simp_all add: check_config_file_def)
  ultimately show "\<exists>st file'. save_config r1 r2 (memory_ctor_int device) (memory_ctor_int port) (fst (snd (check_config_file (Some file)))) file =
        (if in_place r1 \<and> in_place r2 then Some (st, file') else None) \<and>
      file' = ?new \<and> (let st' = fst (snd (check_config_file (Some file'))) in
        get_config_option raw DEVICE st' = Some (memory_ctor_int device) \<and> get_config_option raw PORT st' = Some (memory_ctor_int port))"
    by (simp add: Let_def)
qed (rule first_save_undefined)

theorem config_persists_witness:
  "\<exists>st file'. save_config (InPlace []) (InPlace []) (memory_ctor_int 3) (memory_ctor_int 27015) (fst (snd (check_config_file (Some g_default_config)))) g_default_config = Some (st, file') \<and>
    get_config_option [] PORT (fst (snd (check_config_file (Some file')))) = Some (memory_ctor_int 27015)"
proof -
  have "field_ok [0x02, 0, 0, 0]" "field_ok [0x87, 0x69, 0, 0]" "field_ok (le_bytes 3)" "field_ok (le_bytes 27015)"
    by (simp_all add: field_ok_def bar_def le_bytes_def)
  then show ?thesis using config_persists [OF default_config_fields, of 3 27015 "InPlace []" "InPlace []" "[]"] by (auto simp: Let_def)
qed

end
