(* ===== verification/Str.thy ===== *)
theory Str
  imports Prelude
begin

text \<open>
  The string classes of \<^verbatim>\<open>str.h\<close>. A C string is a block of characters that holds a terminator;
  \<open>strlen\<close> of a null pointer or of a block without terminator is an invalid access, \<open>None\<close>.
  Objects are values: the temporary an operator leaks has no effect on the others. \<open>malloc\<close> and
  \<open>new\<close> succeed.
\<close>

subsection \<open>C strings\<close>

definition nul :: char where "nul = CHR 0x00"

text \<open>The characters before the terminator.\<close>

fun c_chars :: "char list \<Rightarrow> string option" where
  "c_chars [] = None"
| "c_chars (c # m) = (if c = nul then Some [] else map_option (Cons c) (c_chars m))"

definition c_string :: "string \<Rightarrow> char list" where
  "c_string s = s @ [nul]"

definition strlen :: "char list option \<Rightarrow> nat option" where
  "strlen p = do { m \<leftarrow> p; s \<leftarrow> c_chars m; Some (length s) }"

text \<open>
  \<open>strcpy_s\<close> and \<open>strcat_s\<close> into a block of \<open>n\<close> characters: too long a result calls the invalid
  parameter handler, which ends the program.
\<close>

definition strcpy_s :: "nat \<Rightarrow> char list option \<Rightarrow> char list option" where
  "strcpy_s n src = do { m \<leftarrow> src; s \<leftarrow> c_chars m; if length s < n then Some (c_string s) else None }"

definition strcat_s :: "nat \<Rightarrow> char list \<Rightarrow> char list option \<Rightarrow> char list option" where
  "strcat_s n dest src = do { d \<leftarrow> c_chars dest; m \<leftarrow> src; s \<leftarrow> c_chars m; if length d + length s < n then Some (c_string (d @ s)) else None }"

subsection \<open>Numbers in decimal\<close>

fun decimal_nat :: "nat \<Rightarrow> string" where
  "decimal_nat n = (if n < 10 then [char_of (48 + n)] else decimal_nat (n div 10) @ [char_of (48 + n mod 10)])"

declare decimal_nat.simps [simp del]

definition itoa :: "int \<Rightarrow> string" where
  "itoa i = (if i < 0 then CHR ''-'' # decimal_nat (nat (- i)) else decimal_nat (nat i))"

subsection \<open>string_t\<close>

record string_t = pszValue :: "char list option"

definition string_t_ctor :: string_t where "string_t_ctor = \<lparr>pszValue = None\<rparr>"

definition ToCStr :: "string_t \<Rightarrow> char list" where
  "ToCStr s = (case pszValue s of None \<Rightarrow> c_string [] | Some m \<Rightarrow> m)"

definition string_t_of :: "char list option \<Rightarrow> string_t option" where
  "string_t_of str = do { n \<leftarrow> strlen str; m \<leftarrow> strcpy_s (n + 1) str; Some \<lparr>pszValue = Some m\<rparr> }"

definition string_t_copy :: "string_t \<Rightarrow> string_t option" where
  "string_t_copy str = string_t_of (Some (ToCStr str))"

subsection \<open>String\<close>

record String =
  str_string :: "char list option"
  str_size :: int
  str_length :: nat

definition String_ctor :: String where
  "String_ctor = \<lparr>str_string = None, str_size = 0, str_length = 0\<rparr>"

definition String_of :: "char list option \<Rightarrow> String option" where
  "String_of str = do {
     n \<leftarrow> strlen str;
     m \<leftarrow> strcpy_s (n + 1) str;
     Some \<lparr>str_string = Some m, str_size = int n + 1, str_length = n\<rparr> }"

definition CStr :: "String \<Rightarrow> char list" where
  "CStr s = (case str_string s of None \<Rightarrow> c_string [] | Some m \<Rightarrow> m)"

text \<open>The body shared by the overloads of \<open>operator+\<close> and \<open>operator+=\<close>: the new object.\<close>

definition String_concat :: "String \<Rightarrow> char list option \<Rightarrow> String option" where
  "String_concat this rhs = do {
     r \<leftarrow> strlen rhs;
     l \<leftarrow> strlen (str_string this);
     m \<leftarrow> strcpy_s (r + l + 1) (str_string this);
     m \<leftarrow> strcat_s (r + l + 1) m rhs;
     Some \<lparr>str_string = Some m, str_size = int (r + l) + 1, str_length = r + l\<rparr> }"

definition String_plus_cstr :: "String \<Rightarrow> char list option \<Rightarrow> String option" where
  "String_plus_cstr this rhs = String_concat this rhs"

definition String_plus :: "String \<Rightarrow> String \<Rightarrow> String option" where
  "String_plus this rhs = String_concat this (Some (CStr rhs))"

definition String_plus_int :: "String \<Rightarrow> int \<Rightarrow> String option" where
  "String_plus_int this num = String_concat this (Some (c_string (itoa num)))"

text \<open>\<open>operator+=\<close> returns the temporary and makes the object share its block: both have its value.\<close>

definition String_append_cstr :: "String \<Rightarrow> char list option \<Rightarrow> (String \<times> String) option" where
  "String_append_cstr this rhs = do { temp \<leftarrow> String_concat this rhs; Some (temp, temp) }"

definition String_append :: "String \<Rightarrow> String \<Rightarrow> (String \<times> String) option" where
  "String_append this rhs = String_append_cstr this (Some (CStr rhs))"

definition String_append_int :: "String \<Rightarrow> int \<Rightarrow> (String \<times> String) option" where
  "String_append_int this num = String_append_cstr this (Some (c_string (itoa num)))"

text \<open>\<open>operator[]\<close>: an index out of range prints an error and yields the first character.\<close>

definition String_at :: "String \<Rightarrow> int \<Rightarrow> char option" where
  "String_at s i = do {
     m \<leftarrow> str_string s;
     let k = (if 0 \<le> i \<and> i < str_size s then nat i else 0);
     if k < length m then Some (m ! k) else None }"

text \<open>
  \<open>find\<close>: the inner loop compares from position \<open>i\<close>; the outer loop's bound \<open>n - m\<close> is unsigned
  and wraps if the pattern is longer than the string. \<open>pat\<close> reads a character of the pattern.
\<close>

fun matches_at :: "char list \<Rightarrow> (nat \<Rightarrow> char option) \<Rightarrow> nat \<Rightarrow> nat \<Rightarrow> nat \<Rightarrow> bool option" where
  "matches_at m pat i j 0 = Some True"
| "matches_at m pat i j (Suc left) = do {
     c \<leftarrow> (if i + j < length m then Some (m ! (i + j)) else None);
     p \<leftarrow> pat j;
     if c = p then matches_at m pat i (Suc j) left else Some False }"

lemma matches_at_inside: "matches_at m pat i 0 k = Some False \<Longrightarrow> i < length m"
  by (cases k) (auto split: bind_splits if_splits)

definition npos :: u32 where "npos = - 1"

function find_from :: "char list \<Rightarrow> (nat \<Rightarrow> char option) \<Rightarrow> nat \<Rightarrow> u32 \<Rightarrow> nat \<Rightarrow> u32 option" where
  "find_from m pat k bound i =
     (if i \<le> unat bound then
        (case matches_at m pat i 0 k of
           None \<Rightarrow> None
         | Some True \<Rightarrow> Some (of_nat i)
         | Some False \<Rightarrow> find_from m pat k bound (Suc i))
      else Some npos)"
  by pat_completeness auto

termination find_from
  by (relation "measure (\<lambda>(m, pat, k, bound, i). length m - i)") (auto dest: matches_at_inside)

declare find_from.simps [simp del]

definition String_find :: "String \<Rightarrow> String \<Rightarrow> u32 option" where
  "String_find s P = do {
     m \<leftarrow> (if str_string s = None then Some [] else str_string s);
     find_from m (\<lambda>j. String_at P (int j)) (str_length P) (of_nat (str_length s) - of_nat (str_length P)) 0 }"

definition String_find_cstr :: "String \<Rightarrow> char list option \<Rightarrow> u32 option" where
  "String_find_cstr s P = do {
     k \<leftarrow> strlen P;
     q \<leftarrow> P;
     m \<leftarrow> (if str_string s = None then Some [] else str_string s);
     find_from m (\<lambda>j. if j < length q then Some (q ! j) else None) k (of_nat (str_length s) - of_nat k) 0 }"

definition NumToStr :: "int \<Rightarrow> String option" where
  "NumToStr num = String_of (Some (c_string (itoa num)))"

subsection \<open>Objects that hold a string\<close>

definition holds :: "String \<Rightarrow> string \<Rightarrow> bool" where
  "holds s x \<longleftrightarrow> nul \<notin> set x \<and> s = \<lparr>str_string = Some (c_string x), str_size = int (length x) + 1, str_length = length x\<rparr>"

lemma c_chars_string [simp]: "nul \<notin> set x \<Longrightarrow> c_chars (x @ nul # post) = Some x"
  by (induction x) auto

lemma c_string_chars [simp]: "nul \<notin> set x \<Longrightarrow> c_chars (c_string x) = Some x"
  by (simp add: c_string_def)

lemma String_of_holds: "nul \<notin> set x \<Longrightarrow> \<exists>s. String_of (Some (c_string x)) = Some s \<and> holds s x"
  by (simp add: String_of_def strlen_def strcpy_s_def holds_def)

lemma String_concat_holds:
  assumes "holds s x" and "nul \<notin> set y"
  shows "\<exists>r. String_concat s (Some (c_string y)) = Some r \<and> holds r (x @ y)"
  using assms by (simp add: String_concat_def strlen_def strcpy_s_def strcat_s_def holds_def)

lemma CStr_holds: "holds s x \<Longrightarrow> CStr s = c_string x"
  by (simp add: CStr_def holds_def)

text \<open>Decimal numbers are digits, and are read back.\<close>

definition is_digit :: "char \<Rightarrow> bool" where
  "is_digit c \<longleftrightarrow> 48 \<le> (of_char c :: nat) \<and> (of_char c :: nat) \<le> 57"

definition digit_value :: "char \<Rightarrow> nat" where "digit_value c = of_char c - 48"

definition digits_value :: "string \<Rightarrow> nat" where
  "digits_value = foldl (\<lambda>v c. 10 * v + digit_value c) 0"

lemma digit_char: "k < 10 \<Longrightarrow> is_digit (char_of (48 + k)) \<and> digit_value (char_of (48 + k)) = k"
  by (simp add: is_digit_def digit_value_def)

lemma decimal_nat_digits: "list_all is_digit (decimal_nat n) \<and> decimal_nat n \<noteq> [] \<and> digits_value (decimal_nat n) = n"
proof (induction n rule: decimal_nat.induct)
  case (1 n)
  then show ?case
    using digit_char [of n] digit_char [of "n mod 10"]
    by (subst (1 2 3) decimal_nat.simps) (auto simp: digits_value_def)
qed

lemma digit_not_nul: "is_digit c \<Longrightarrow> c \<noteq> nul"
  by (auto simp: is_digit_def nul_def)

lemma itoa_not_nul: "nul \<notin> set (itoa i)"
  using decimal_nat_digits digit_not_nul by (auto simp: itoa_def list_all_iff nul_def)

lemma NumToStr_holds: "\<exists>s. NumToStr i = Some s \<and> holds s (itoa i)"
  unfolding NumToStr_def by (rule String_of_holds [OF itoa_not_nul])

subsection \<open>Searching\<close>

lemma matches_at_prefix:
  assumes "\<And>j'. j' < length p \<Longrightarrow> pat j' = Some (p ! j')" and "nul \<notin> set p" and "nul \<notin> set x" and "i \<le> length x" and "j \<le> length p"
  shows "i + j \<le> length x \<Longrightarrow> matches_at (c_string x) pat i j (length p - j) = Some (take (length p - j) (drop (i + j) x) = drop j p)"
  using assms(5)
proof (induction "length p - j" arbitrary: j)
  case 0
  then show ?case by simp
next
  case (Suc n)
  then have j: "j < length p" "length p - j = Suc (length p - Suc j)" "n = length p - Suc j" by auto
  have pj: "pat j = Some (p ! j)" "drop j p = p ! j # drop (Suc j) p" using assms(1) [OF j(1)] j(1) by (simp_all add: Cons_nth_drop_Suc)
  show ?case
  proof (cases "i + j < length x")
    case True
    then have x: "drop (i + j) x = x ! (i + j) # drop (i + Suc j) x" "c_string x ! (i + j) = x ! (i + j)"
      by (simp_all add: Cons_nth_drop_Suc c_string_def nth_append)
    have "matches_at (c_string x) pat i (Suc j) (length p - Suc j) = Some (take (length p - Suc j) (drop (i + Suc j) x) = drop (Suc j) p)"
      using Suc.hyps(1) [OF j(3)] True j(1) by simp
    then show ?thesis using True pj x unfolding j(2) by (simp add: c_string_def)
  next
    case False
    then have "i + j = length x" using Suc.prems by simp
    moreover have "p ! j \<noteq> nul" using assms(2) j(1) nth_mem by metis
    ultimately show ?thesis using pj unfolding j(2) by (simp add: c_string_def)
  qed
qed

lemmas matches_at_start = matches_at_prefix [where j = 0, simplified]

text \<open>The positions at which \<open>p\<close> occurs in \<open>x\<close>.\<close>

definition occurs_at :: "string \<Rightarrow> string \<Rightarrow> nat \<Rightarrow> bool" where
  "occurs_at x p i \<longleftrightarrow> take (length p) (drop i x) = p"

lemma find_from_first:
  assumes "\<And>j. j < length p \<Longrightarrow> pat j = Some (p ! j)" and "nul \<notin> set p" and "nul \<notin> set x" and "length p \<le> length x" and "length x < 2 ^ 32"
  shows "find_from (c_string x) pat (length p) (of_nat (length x) - of_nat (length p)) i =
    Some (case find (occurs_at x p) [i..<Suc (length x - length p)] of None \<Rightarrow> npos | Some k \<Rightarrow> of_nat k)"
proof (induction "Suc (length x - length p) - i" arbitrary: i)
  case 0
  have "(of_nat (length x) - of_nat (length p) :: u32) = of_nat (length x - length p)" using assms(4) by (simp add: of_nat_diff)
  then have b: "unat (of_nat (length x) - of_nat (length p) :: u32) = length x - length p" using assms(5) by (simp add: unsigned_of_nat take_bit_nat_eq_self)
  then show ?case using 0 by (subst find_from.simps) simp
next
  case (Suc n)
  have "(of_nat (length x) - of_nat (length p) :: u32) = of_nat (length x - length p)" using assms(4) by (simp add: of_nat_diff)
  then have b: "unat (of_nat (length x) - of_nat (length p) :: u32) = length x - length p" using assms(5) by (simp add: unsigned_of_nat take_bit_nat_eq_self)
  have i: "i \<le> length x - length p" "[i..<Suc (length x - length p)] = i # [Suc i..<Suc (length x - length p)]" using Suc.hyps(2) by (auto simp: upt_conv_Cons)
  have m: "matches_at (c_string x) pat i 0 (length p) = Some (occurs_at x p i)"
    using matches_at_start [of p pat x i] assms(1-3) i(1) by (simp add: occurs_at_def)
  show ?case
  proof (cases "occurs_at x p i")
    case True
    then show ?thesis using m i b by (subst find_from.simps) simp
  next
    case False
    then show ?thesis using m i b Suc.hyps(1) [of "Suc i"] Suc.hyps(2) by (subst find_from.simps) simp
  qed
qed

lemma wrapped_bound:
  assumes "a < b" and "b < 2 ^ 31"
  shows "Suc a \<le> unat (of_nat a - of_nat b :: u32)"
proof -
  have "(of_nat a - of_nat b :: u32) = word_of_int (int a - int b)" by simp
  then have "uint (of_nat a - of_nat b :: u32) = (int a - int b) mod 2 ^ 32" by (simp only: uint_word_of_int_eq take_bit_eq_mod) simp
  also have "\<dots> = int a - int b + 2 ^ 32"
    using assms mod_add_self2 [of "int a - int b" "2 ^ 32"] mod_pos_pos_trivial [of "int a - int b + 2 ^ 32" "2 ^ 32"] by simp
  finally have "int (unat (of_nat a - of_nat b :: u32)) = int a - int b + 2 ^ 32" by simp
  moreover have "int b < 2 ^ 31" using assms(2) by simp
  ultimately have "int (Suc a) \<le> int (unat (of_nat a - of_nat b :: u32))" by simp
  then show ?thesis by (simp only: of_nat_le_iff)
qed

lemma find_from_faults:
  assumes "\<And>j. j < length p \<Longrightarrow> pat j = Some (p ! j)" and "nul \<notin> set p" and "nul \<notin> set x" and "length x < length p" and "length p < 2 ^ 31"
  shows "i \<le> Suc (length x) \<Longrightarrow> find_from (c_string x) pat (length p) (of_nat (length x) - of_nat (length p)) i = None"
proof (induction "Suc (length x) - i" arbitrary: i)
  case 0
  have bound: "Suc (length x) \<le> unat (of_nat (length x) - of_nat (length p) :: u32)"
    using assms(4,5) by (rule wrapped_bound)
  have "matches_at (c_string x) pat i 0 (length p) = None" using 0 assms(4) by (cases "length p") (simp_all add: c_string_def)
  then show ?case using 0 bound by (subst find_from.simps) simp
next
  case (Suc n)
  have bound: "Suc (length x) \<le> unat (of_nat (length x) - of_nat (length p) :: u32)"
    using assms(4,5) by (rule wrapped_bound)
  have "\<not> occurs_at x p i" using assms(4) by (auto simp: occurs_at_def dest: arg_cong [where f = length])
  then have "matches_at (c_string x) pat i 0 (length p) = Some False"
    using matches_at_start [of p pat x i] assms(1-3) Suc by (simp add: occurs_at_def)
  then show ?case using Suc.hyps(1) [of "Suc i"] Suc.hyps(2) Suc.prems bound by (subst find_from.simps) simp
qed

text \<open>
  \<open>find\<close> returns the first occurrence, or \<open>npos\<close>, if the pattern is not longer than the string;
  a longer pattern makes it read past the end, since its bound wraps.
\<close>

lemma String_find_first:
  assumes "holds s x" and "holds P y" and "length x < 2 ^ 31" and "length y < 2 ^ 31"
  shows "String_find s P = (if length y \<le> length x
      then Some (case find (occurs_at x y) [0..<Suc (length x - length y)] of None \<Rightarrow> npos | Some k \<Rightarrow> of_nat k) else None)"
    "String_find_cstr s (Some (c_string y)) = String_find s P"
proof -
  have h: "nul \<notin> set x" "nul \<notin> set y" "str_string s = Some (c_string x)" "str_length s = length x" "str_length P = length y"
    using assms by (auto simp: holds_def)
  have pat: "String_at P (int j) = Some (y ! j)" if "j < length y" for j
    using assms(2) that by (simp add: String_at_def holds_def c_string_def nth_append)
  have pat': "(if j < length (c_string y) then Some (c_string y ! j) else None) = Some (y ! j)" if "j < length y" for j
    using that by (simp add: c_string_def nth_append)
  show f: "String_find s P = (if length y \<le> length x
      then Some (case find (occurs_at x y) [0..<Suc (length x - length y)] of None \<Rightarrow> npos | Some k \<Rightarrow> of_nat k) else None)"
    using find_from_first [of y "\<lambda>j. String_at P (int j)" x 0, OF pat h(2,1)] find_from_faults [of y "\<lambda>j. String_at P (int j)" x 0, OF pat h(2,1)] h(3-5) assms(3,4)
    by (simp add: String_find_def)
  show "String_find_cstr s (Some (c_string y)) = String_find s P"
    unfolding f
    using find_from_first [of y "\<lambda>j. if j < length (c_string y) then Some (c_string y ! j) else None" x 0, OF pat' h(2,1)]
      find_from_faults [of y "\<lambda>j. if j < length (c_string y) then Some (c_string y ! j) else None" x 0, OF pat' h(2,1)] h assms(3,4)
    by (simp add: String_find_cstr_def strlen_def)
qed

end
