(* ===== verification/Packet.thy ===== *)
theory Packet
  imports Cfg
begin

text \<open>
  The demo-packet reader of \<^verbatim>\<open>packet.h\<close>: \<open>CPacket\<close>, a cursor over a copy of a packet, and the
  command information it reads. The buffer is a \<open>std::string\<close>, whose terminator can be read;
  a read beyond it is \<open>None\<close>. The cursor is a \<open>size_t\<close> of 32 bits. Floating-point fields are
  their bit patterns.
\<close>

subsection \<open>Command information\<close>

definition dem_stop :: u8 where "dem_stop = 7"
definition dem_lastcmd :: u8 where "dem_lastcmd = 9"

definition FPACKET_NORMAL :: u32 where "FPACKET_NORMAL = 0"
definition FPACKET_USE_ORIGIN2 :: u32 where "FPACKET_USE_ORIGIN2 = push_bit 0 1"
definition FPACKET_USE_ANGLES2 :: u32 where "FPACKET_USE_ANGLES2 = push_bit 1 1"

definition MAX_SPLITSCREEN_CLIENTS :: nat where "MAX_SPLITSCREEN_CLIENTS = 2"

record float3 =
  f3_x :: u32
  f3_y :: u32
  f3_z :: u32

definition float3_Init :: float3 where "float3_Init = \<lparr>f3_x = 0, f3_y = 0, f3_z = 0\<rparr>"

record Split_t =
  sp_flags :: u32
  viewOrigin :: float3
  viewAngles :: float3
  localViewAngles :: float3
  viewOrigin2 :: float3
  viewAngles2 :: float3
  localViewAngles2 :: float3

definition Split_ctor :: Split_t where
  "Split_ctor = \<lparr>sp_flags = FPACKET_NORMAL, viewOrigin = float3_Init, viewAngles = float3_Init, localViewAngles = float3_Init,
     viewOrigin2 = float3_Init, viewAngles2 = float3_Init, localViewAngles2 = float3_Init\<rparr>"

definition Split_assign :: "Split_t \<Rightarrow> Split_t \<Rightarrow> Split_t" where
  "Split_assign src this = this\<lparr>sp_flags := sp_flags src, viewOrigin := viewOrigin src, viewAngles := viewAngles src,
     localViewAngles := localViewAngles src, viewOrigin2 := viewOrigin2 src, viewAngles2 := viewAngles2 src,
     localViewAngles2 := localViewAngles2 src\<rparr>"

definition GetViewOrigin :: "Split_t \<Rightarrow> float3" where
  "GetViewOrigin s = (if sp_flags s AND FPACKET_USE_ORIGIN2 \<noteq> 0 then viewOrigin2 s else viewOrigin s)"

definition GetViewAngles :: "Split_t \<Rightarrow> float3" where
  "GetViewAngles s = (if sp_flags s AND FPACKET_USE_ANGLES2 \<noteq> 0 then viewAngles2 s else viewAngles s)"

definition GetLocalViewAngles :: "Split_t \<Rightarrow> float3" where
  "GetLocalViewAngles s = (if sp_flags s AND FPACKET_USE_ANGLES2 \<noteq> 0 then localViewAngles2 s else localViewAngles s)"

definition Split_Reset :: "Split_t \<Rightarrow> Split_t" where
  "Split_Reset s = s\<lparr>sp_flags := 0, viewOrigin2 := viewOrigin s, viewAngles2 := viewAngles s, localViewAngles2 := localViewAngles s\<rparr>"

type_synonym packetcmdinfo_t = "Split_t list"

definition cmdinfo_ctor :: packetcmdinfo_t where
  "cmdinfo_ctor = replicate MAX_SPLITSCREEN_CLIENTS Split_ctor"

definition cmdinfo_Reset :: "packetcmdinfo_t \<Rightarrow> packetcmdinfo_t" where
  "cmdinfo_Reset u = map Split_Reset u"

text \<open>The objects as \<open>memcpy\<close> sees them: seven groups of 32-bit words, 76 bytes per client.\<close>

definition float3_at :: "u8 list \<Rightarrow> int \<Rightarrow> float3 option" where
  "float3_at m a = do { x \<leftarrow> load32 m a; y \<leftarrow> load32 m (a + 4); z \<leftarrow> load32 m (a + 8); Some \<lparr>f3_x = x, f3_y = y, f3_z = z\<rparr> }"

definition split_at :: "u8 list \<Rightarrow> int \<Rightarrow> Split_t option" where
  "split_at m a = do {
     f \<leftarrow> load32 m a;
     o1 \<leftarrow> float3_at m (a + 4); a1 \<leftarrow> float3_at m (a + 16); l1 \<leftarrow> float3_at m (a + 28);
     o2 \<leftarrow> float3_at m (a + 40); a2 \<leftarrow> float3_at m (a + 52); l2 \<leftarrow> float3_at m (a + 64);
     Some \<lparr>sp_flags = f, viewOrigin = o1, viewAngles = a1, localViewAngles = l1, viewOrigin2 = o2, viewAngles2 = a2, localViewAngles2 = l2\<rparr> }"

definition float3_bytes :: "float3 \<Rightarrow> u8 list" where
  "float3_bytes v = le_bytes (f3_x v) @ le_bytes (f3_y v) @ le_bytes (f3_z v)"

definition split_bytes :: "Split_t \<Rightarrow> u8 list" where
  "split_bytes s = le_bytes (sp_flags s) @ float3_bytes (viewOrigin s) @ float3_bytes (viewAngles s) @ float3_bytes (localViewAngles s) @
     float3_bytes (viewOrigin2 s) @ float3_bytes (viewAngles2 s) @ float3_bytes (localViewAngles2 s)"

subsection \<open>The cursor\<close>

record CPacket =
  m_packetBufferPos :: u32
  m_packetBuffer :: "u8 list"

definition CPacket_Open :: "u8 list option \<Rightarrow> nat \<Rightarrow> CPacket \<Rightarrow> (bool \<times> CPacket) option" where
  "CPacket_Open data dataSize s =
     (case data of
        None \<Rightarrow> Some (False, s)
      | Some bs \<Rightarrow>
          if dataSize > 0 then
            (if dataSize \<le> length bs then Some (True, s\<lparr>m_packetBuffer := take dataSize bs, m_packetBufferPos := 0\<rparr>) else None)
          else Some (False, s))"

definition buffer_mem :: "CPacket \<Rightarrow> u8 list" where "buffer_mem s = m_packetBuffer s @ [0]"

definition next_int32 :: "CPacket \<Rightarrow> (u32 \<times> CPacket) option" where
  "next_int32 s = do { w \<leftarrow> load32 (buffer_mem s) (uint (m_packetBufferPos s)); Some (w, s\<lparr>m_packetBufferPos := m_packetBufferPos s + 4\<rparr>) }"

definition next_byte :: "CPacket \<Rightarrow> (u8 \<times> CPacket) option" where
  "next_byte s = do { b \<leftarrow> peek8 (buffer_mem s) (uint (m_packetBufferPos s)); Some (b, s\<lparr>m_packetBufferPos := m_packetBufferPos s + 1\<rparr>) }"

definition ReadSequenceInfo :: "u32 \<Rightarrow> u32 \<Rightarrow> CPacket \<Rightarrow> (u32 \<times> u32 \<times> CPacket) option" where
  "ReadSequenceInfo nSeqNrIn nSeqNrOut s =
     (if m_packetBuffer s = [] then Some (nSeqNrIn, nSeqNrOut, s)
      else do { (a, s) \<leftarrow> next_int32 s; (b, s) \<leftarrow> next_int32 s; Some (a, b, s) })"

definition ReadCmdInfo :: "packetcmdinfo_t \<Rightarrow> CPacket \<Rightarrow> (packetcmdinfo_t \<times> CPacket) option" where
  "ReadCmdInfo info s =
     (if m_packetBuffer s = [] then Some (info, s)
      else do {
        u0 \<leftarrow> split_at (buffer_mem s) (uint (m_packetBufferPos s));
        u1 \<leftarrow> split_at (buffer_mem s) (uint (m_packetBufferPos s) + 76);
        Some ([u0, u1], s\<lparr>m_packetBufferPos := m_packetBufferPos s + 152\<rparr>) })"

definition ReadCmdHeader :: "u8 \<Rightarrow> u32 \<Rightarrow> u8 \<Rightarrow> CPacket \<Rightarrow> (u8 \<times> u32 \<times> u8 \<times> CPacket) option" where
  "ReadCmdHeader cmd tick playerSlot s =
     (if m_packetBuffer s = [] then Some (cmd, tick, playerSlot, s)
      else do {
        (cmd, s) \<leftarrow> next_byte s;
        if cmd \<le> 0 then Some (dem_stop, tick, playerSlot, s)
        else if 1 \<le> cmd \<and> cmd \<le> dem_lastcmd then do {
          (tick, s) \<leftarrow> next_int32 s;
          (playerSlot, s) \<leftarrow> next_byte s;
          Some (cmd, tick, playerSlot, s) }
        else None })"

text \<open>
  \<open>buffer\<close> is the destination, if there is one. A negative size passes the check; with a
  destination \<open>memcpy\<close> gets it as a huge unsigned number.
\<close>

definition ReadRawData :: "u8 list option \<Rightarrow> int \<Rightarrow> CPacket \<Rightarrow> (int \<times> u8 list option \<times> CPacket) option" where
  "ReadRawData buffer len s =
     (if m_packetBuffer s = [] then Some (0, buffer, s)
      else do {
        (w, s) \<leftarrow> next_int32 s;
        let n = sint w;
        case buffer of
          Some out \<Rightarrow>
            if len < n then Some (- 1, buffer, s)
            else if 0 \<le> n \<and> uint (m_packetBufferPos s) + n \<le> int (length (buffer_mem s)) then do {
              out \<leftarrow> copy_to out 0 (take (nat n) (drop (unat (m_packetBufferPos s)) (buffer_mem s)));
              Some (n, Some out, s\<lparr>m_packetBufferPos := m_packetBufferPos s + w\<rparr>) }
            else None
        | None \<Rightarrow> Some (n, None, s\<lparr>m_packetBufferPos := m_packetBufferPos s + w\<rparr>) })"

definition ReadUserCmd :: "u8 list option \<Rightarrow> int \<Rightarrow> CPacket \<Rightarrow> (u32 \<times> int \<times> u8 list option \<times> CPacket) option" where
  "ReadUserCmd buffer n s =
     (if m_packetBuffer s = [] then Some (0, n, buffer, s)
      else do {
        (outgoing_sequence, s) \<leftarrow> next_int32 s;
        (n, buffer, s) \<leftarrow> ReadRawData buffer n s;
        Some (outgoing_sequence, n, buffer, s) })"

subsection \<open>Reading back what was written\<close>

text \<open>The cursor stands in front of \<open>bs\<close>.\<close>

definition cursor :: "u8 list \<Rightarrow> u8 list \<Rightarrow> CPacket \<Rightarrow> bool" where
  "cursor pre bs s \<longleftrightarrow> m_packetBuffer s = pre @ bs \<and> m_packetBufferPos s = of_nat (length pre) \<and> length (pre @ bs) < 2 ^ 32"

lemma load32_shift: "load32 (pre @ m) (int (length pre)) = load32 m 0"
  by (simp add: load32_def peek8_append)

lemma cursor_pos: "cursor pre bs s \<Longrightarrow> uint (m_packetBufferPos s) = int (length pre)"
  by (simp add: cursor_def unsigned_of_nat take_bit_nat_eq_self)

lemma next_int32_cursor:
  assumes "cursor pre (le_bytes w @ bs) s"
  shows "\<exists>s'. next_int32 s = Some (w, s') \<and> cursor (pre @ le_bytes w) bs s'"
proof -
  have "load32 (buffer_mem s) (int (length pre)) = Some w"
    using assms load32_shift [of pre "le_bytes w @ bs @ [0]"] load32_le_bytes [of w "bs @ [0]"] by (simp add: buffer_mem_def cursor_def)
  with cursor_pos [OF assms] assms show ?thesis by (simp add: next_int32_def cursor_def)
qed

lemma next_byte_cursor:
  assumes "cursor pre (b # bs) s"
  shows "\<exists>s'. next_byte s = Some (b, s') \<and> cursor (pre @ [b]) bs s'"
  using cursor_pos [OF assms] assms by (simp add: next_byte_def buffer_mem_def cursor_def peek8_def nth_append)

text \<open>A packet as a demo holds it: header, command information and one block of data.\<close>

lemma load32_at_cursor: "length pre = n \<Longrightarrow> load32 (pre @ le_bytes w @ bs) (int n) = Some w"
  using load32_shift [of pre "le_bytes w @ bs"] load32_le_bytes by auto

lemma float3_at_bytes: "length pre = n \<Longrightarrow> float3_at (pre @ float3_bytes v @ bs) (int n) = Some v"
  using load32_at_cursor [of pre n "f3_x v" "le_bytes (f3_y v) @ le_bytes (f3_z v) @ bs"]
    load32_at_cursor [of "pre @ le_bytes (f3_x v)" "n + 4" "f3_y v" "le_bytes (f3_z v) @ bs"]
    load32_at_cursor [of "pre @ le_bytes (f3_x v) @ le_bytes (f3_y v)" "n + 8" "f3_z v" bs]
  by (simp add: float3_at_def float3_bytes_def add.commute)

lemma float3_bytes_length [simp]: "length (float3_bytes v) = 12"
  by (simp add: float3_bytes_def)

lemma split_bytes_length [simp]: "length (split_bytes s) = 76"
  by (simp add: split_bytes_def)

lemma split_at_bytes:
  assumes "length pre = n"
  shows "split_at (pre @ split_bytes s @ bs) (int n) = Some s"
proof -
  let ?f = "le_bytes (sp_flags s)" and ?a = "float3_bytes (viewOrigin s)" and ?b = "float3_bytes (viewAngles s)" and ?c = "float3_bytes (localViewAngles s)"
    and ?d = "float3_bytes (viewOrigin2 s)" and ?e = "float3_bytes (viewAngles2 s)" and ?g = "float3_bytes (localViewAngles2 s)"
  have "load32 (pre @ split_bytes s @ bs) (int n) = Some (sp_flags s)"
    using load32_at_cursor [OF assms, of "sp_flags s"] by (simp add: split_bytes_def)
  moreover have "float3_at (pre @ split_bytes s @ bs) (int n + 4) = Some (viewOrigin s)"
    using float3_at_bytes [of "pre @ ?f" "n + 4" "viewOrigin s" "?b @ ?c @ ?d @ ?e @ ?g @ bs"] assms by (simp add: split_bytes_def add.commute)
  moreover have "float3_at (pre @ split_bytes s @ bs) (int n + 16) = Some (viewAngles s)"
    using float3_at_bytes [of "pre @ ?f @ ?a" "n + 16" "viewAngles s" "?c @ ?d @ ?e @ ?g @ bs"] assms by (simp add: split_bytes_def add.commute)
  moreover have "float3_at (pre @ split_bytes s @ bs) (int n + 28) = Some (localViewAngles s)"
    using float3_at_bytes [of "pre @ ?f @ ?a @ ?b" "n + 28" "localViewAngles s" "?d @ ?e @ ?g @ bs"] assms by (simp add: split_bytes_def add.commute)
  moreover have "float3_at (pre @ split_bytes s @ bs) (int n + 40) = Some (viewOrigin2 s)"
    using float3_at_bytes [of "pre @ ?f @ ?a @ ?b @ ?c" "n + 40" "viewOrigin2 s" "?e @ ?g @ bs"] assms by (simp add: split_bytes_def add.commute)
  moreover have "float3_at (pre @ split_bytes s @ bs) (int n + 52) = Some (viewAngles2 s)"
    using float3_at_bytes [of "pre @ ?f @ ?a @ ?b @ ?c @ ?d" "n + 52" "viewAngles2 s" "?g @ bs"] assms by (simp add: split_bytes_def add.commute)
  moreover have "float3_at (pre @ split_bytes s @ bs) (int n + 64) = Some (localViewAngles2 s)"
    using float3_at_bytes [of "pre @ ?f @ ?a @ ?b @ ?c @ ?d @ ?e" "n + 64" "localViewAngles2 s" bs] assms by (simp add: split_bytes_def add.commute)
  ultimately show ?thesis by (simp add: split_at_def)
qed

lemma ReadCmdInfo_cursor:
  assumes "cursor pre (split_bytes u @ split_bytes v @ bs) s"
  shows "\<exists>s'. ReadCmdInfo info s = Some ([u, v], s') \<and> cursor (pre @ split_bytes u @ split_bytes v) bs s'"
proof -
  have m: "buffer_mem s = pre @ split_bytes u @ split_bytes v @ bs @ [0]" using assms by (simp add: buffer_mem_def cursor_def)
  have "split_at (buffer_mem s) (int (length pre)) = Some u" unfolding m by (rule split_at_bytes) simp
  moreover have "split_at (buffer_mem s) (int (length pre) + 76) = Some v"
    using split_at_bytes [of "pre @ split_bytes u" "length pre + 76" v "bs @ [0]"] unfolding m by (simp add: add.commute)
  moreover have "m_packetBuffer s \<noteq> []" using assms by (auto simp: cursor_def split_bytes_def le_bytes_def)
  ultimately show ?thesis using cursor_pos [OF assms] assms by (simp add: ReadCmdInfo_def cursor_def)
qed

lemma ReadRawData_cursor:
  assumes "cursor pre (le_bytes (of_nat (length raw)) @ raw @ bs) s" and "length raw < 2 ^ 31" and "int (length raw) \<le> len" and "length raw \<le> length out"
  shows "\<exists>s'. ReadRawData (Some out) len s = Some (int (length raw), Some (raw @ drop (length raw) out), s') \<and>
    cursor (pre @ le_bytes (of_nat (length raw)) @ raw) bs s'"
proof -
  obtain s1 where s1: "next_int32 s = Some (of_nat (length raw), s1)" "cursor (pre @ le_bytes (of_nat (length raw))) (raw @ bs) s1"
    using next_int32_cursor [OF assms(1)] by blast
  have n: "sint (of_nat (length raw) :: u32) = int (length raw)" using assms(2) by (simp add: signed_of_nat signed_take_bit_int_eq_self)
  have pos: "uint (m_packetBufferPos s1) = int (length pre + 4)" using cursor_pos [OF s1(2)] by simp
  then have upos: "unat (m_packetBufferPos s1) = length pre + 4" by (metis nat_int unat_eq_nat_uint)
  have mem: "buffer_mem s1 = pre @ le_bytes (of_nat (length raw)) @ raw @ bs @ [0]" using s1(2) by (simp add: buffer_mem_def cursor_def)
  have copy: "copy_to out 0 raw = Some (raw @ drop (length raw) out)" using assms(4) by (simp add: copy_to_def)
  have "m_packetBuffer s \<noteq> []" using assms(1) by (auto simp: cursor_def le_bytes_def)
  moreover have "cursor (pre @ le_bytes (of_nat (length raw)) @ raw) bs (s1\<lparr>m_packetBufferPos := m_packetBufferPos s1 + of_nat (length raw)\<rparr>)"
    using s1(2) by (simp add: cursor_def)
  ultimately show ?thesis using s1(1) n pos upos mem copy assms(3) by (simp add: ReadRawData_def Let_def)
qed

text \<open>A length of \<open>- 4\<close> without a destination leaves the cursor where it was: a loop that skips blocks never ends.\<close>

lemma ReadRawData_stays:
  assumes "cursor pre (le_bytes (- 4) @ bs) s"
  shows "\<exists>s'. ReadRawData None len s = Some (- 4, None, s') \<and> cursor pre (le_bytes (- 4) @ bs) s'"
proof -
  obtain s1 where s1: "next_int32 s = Some (- 4, s1)" "cursor (pre @ le_bytes (- 4)) bs s1" using next_int32_cursor [OF assms] by blast
  have "m_packetBuffer s \<noteq> []" using assms by (auto simp: cursor_def le_bytes_def)
  moreover have "cursor pre (le_bytes (- 4) @ bs) (s1\<lparr>m_packetBufferPos := m_packetBufferPos s1 + (- 4)\<rparr>)" using s1(2) by (simp add: cursor_def)
  ultimately show ?thesis using s1(1) by (simp add: ReadRawData_def Let_def)
qed

end
