(* ===== verification/App.thy ===== *)
theory App
  imports Capture Cfg Str
begin

text \<open>
  The program (\<^verbatim>\<open>_tmain\<close> of \<^verbatim>\<open>sniffles.cpp\<close>): the configuration dialogue, the choice of the
  device, and the capture loop over the handler of theory Sniffer. Standard input is the list
  of its characters; what libpcap and libtins deliver (the devices with their addresses in text
  form, the captured datagrams) are parameters, what is printed is a log.

  \<open>Running\<close> is a loop that never ends: the prompts repeat forever when the input has ended or
  holds something that is not a number, which \<open>scanf\<close> leaves where it is.
\<close>

subsection \<open>Devices\<close>

text \<open>An address is its family (IPv4 or not) and the text of \<open>inet_ntop\<close>.\<close>

record pcap_if =
  dev_name :: string
  dev_description :: string
  dev_addresses :: "(bool \<times> string) list"

datatype app_event =
    Out string
  | ShoutError string
  | Listen string string
  | Handled event

definition nl :: string where "nl = [CHR 0x0A]"

definition print_address :: "bool \<times> string \<Rightarrow> app_event" where
  "print_address a = Out (''    ['' @ (if fst a then ''ipv4'' else ''ipv6'') @ ''] '' @ snd a @ nl)"

definition dev_lines :: "pcap_if \<Rightarrow> app_event list" where
  "dev_lines dev = [Out (''  name: '' @ dev_name dev @ nl), Out (''  desc: '' @ dev_description dev @ nl), Out (''  addresses:'' @ nl)]
     @ map print_address (dev_addresses dev) @ [Out nl]"

definition print_dev :: "pcap_if \<Rightarrow> app_event list" where
  "print_dev dev = Out (nl @ nl @ dev_description dev @ nl) # dev_lines dev"

text \<open>\<open>alldevs\<close> is what \<open>pcap_findalldevs\<close> finds; an error is \<open>Inl\<close> its message.\<close>

fun list_devs_from :: "nat \<Rightarrow> pcap_if list \<Rightarrow> app_event list" where
  "list_devs_from n [] = []"
| "list_devs_from n (dev # devs) =
     Out (nl @ ''[ '' @ itoa (int (Suc n)) @ '' ] '' @ dev_description dev @ nl) # dev_lines dev @ list_devs_from (Suc n) devs"

definition find_error :: "string \<Rightarrow> app_event list" where
  "find_error errbuf = [Out (''Error in pcap_findalldevs: '' @ errbuf @ nl)]"

definition list_all_devs :: "string + pcap_if list \<Rightarrow> pcap_if list \<times> app_event list" where
  "list_all_devs alldevs = (case alldevs of Inl errbuf \<Rightarrow> ([], find_error errbuf) | Inr devs \<Rightarrow> (devs, list_devs_from 0 devs))"

definition create_dev_list :: "string + pcap_if list \<Rightarrow> pcap_if list \<times> app_event list" where
  "create_dev_list alldevs = (case alldevs of Inl errbuf \<Rightarrow> ([], find_error errbuf) | Inr devs \<Rightarrow> (devs, []))"

subsection \<open>Prompts\<close>

text \<open>The first loop: \<open>getchar\<close> until a yes or a no. The result is \<open>bSetConfig\<close>.\<close>

fun ask_config :: "string \<Rightarrow> (bool \<times> string \<times> app_event list) outcome" where
  "ask_config [] = Running"
| "ask_config (c # cs) =
     (if c = CHR ''n'' \<or> c = CHR ''N'' then Returned (True, cs, [])
      else if c = CHR ''y'' \<or> c = CHR ''Y'' then Returned (False, cs, [])
      else case ask_config cs of
          Returned (b, rest, log) \<Rightarrow> Returned (b, rest, (if c \<noteq> CHR 0x0A then [Out (nl @ ''Y or N? '')] else []) @ log)
        | Faulted \<Rightarrow> Faulted
        | Running \<Rightarrow> Running)"

text \<open>
  \<open>scanf_s("%d")\<close>: white space, an optional sign, digits. The result is the number, or \<open>None\<close>
  if there are no digits, and what is left of the input. A number outside the 32-bit range is
  taken modulo \<open>2 ^ 32\<close>.
\<close>

definition is_space :: "char \<Rightarrow> bool" where
  "is_space c \<longleftrightarrow> c \<in> {CHR '' '', CHR 0x09, CHR 0x0A, CHR 0x0B, CHR 0x0C, CHR 0x0D}"

definition scan_int :: "string \<Rightarrow> int option \<times> string" where
  "scan_int inp =
     (let s = dropWhile is_space inp;
          neg = (s \<noteq> [] \<and> hd s = CHR ''-'');
          s = (if s \<noteq> [] \<and> (hd s = CHR ''-'' \<or> hd s = CHR ''+'') then tl s else s);
          ds = takeWhile is_digit s
      in (if ds = [] then None else Some (i32 (if neg then - int (digits_value ds) else int (digits_value ds))), dropWhile is_digit s))"

definition not_valid :: app_event where "not_valid = Out ''Not valid! Try again: ''"

text \<open>
  The device prompt; the number is read into an unsigned variable, which is 0 at first. An
  iteration that consumes nothing is repeated forever.
\<close>

function choose_device :: "nat \<Rightarrow> nat \<Rightarrow> string \<Rightarrow> (nat \<times> string \<times> app_event list) outcome" where
  "choose_device n devIndex0 inp =
     (let (v, rest) = scan_int inp;
          devIndex = (case v of None \<Rightarrow> devIndex0 | Some v \<Rightarrow> nat (v mod 2 ^ 32))
      in if devIndex \<le> n \<and> devIndex > 0 then Returned (devIndex, rest, [])
         else if length rest < length inp then
           (case choose_device n devIndex rest of
              Returned (d, rest', log) \<Rightarrow> Returned (d, rest', not_valid # log)
            | Faulted \<Rightarrow> Faulted
            | Running \<Rightarrow> Running)
         else Running)"
  by pat_completeness auto

termination choose_device
  by (relation "measure (\<lambda>(n, devIndex, inp). length inp)") auto

declare choose_device.simps [simp del]

text \<open>
  The port prompt: \<open>%d\<close> stores four bytes into an \<open>unsigned short\<close>, a write outside the
  variable. Without a number, the variable keeps the contents \<open>raw\<close> it happens to have.
\<close>

function choose_port :: "u16 \<Rightarrow> string \<Rightarrow> (u16 \<times> string \<times> app_event list) outcome" where
  "choose_port raw inp =
     (case (case scan_int inp of
         (Some v, rest) \<Rightarrow> map_option (\<lambda>port. (ucast (port ! 0) OR push_bit 8 (ucast (port ! 1)), rest))
             (copy_to [ucast raw, ucast (drop_bit 8 raw)] 0 (le_bytes (word_of_int v)))
       | (None, rest) \<Rightarrow> Some (raw, rest)) of
        None \<Rightarrow> Faulted
      | Some (port, rest) \<Rightarrow>
          if port > 0 then Returned (port, rest, [])
          else if length rest < length inp then
            (case choose_port port rest of
               Returned (p, rest', log) \<Rightarrow> Returned (p, rest', not_valid # log)
             | Faulted \<Rightarrow> Faulted
             | Running \<Rightarrow> Running)
          else Running)"
  by pat_completeness auto

termination choose_port
  by (relation "measure (\<lambda>(raw, inp). length inp)") auto

declare choose_port.simps [simp del]

subsection \<open>Capturing\<close>

text \<open>\<open>sniff_loop\<close> calls the handler, which always asks for more, for every datagram.\<close>

fun sniff_loop :: "protobuf_lib \<Rightarrow> nat \<Rightarrow> (handler_env \<times> PDU) list \<Rightarrow> ice_static \<Rightarrow> (event list \<times> ice_static) outcome" where
  "sniff_loop lib fuel [] st = Returned ([], st)"
| "sniff_loop lib fuel ((env, pdu) # ps) st =
     (case packet_loop_handler lib fuel env pdu st of
        Returned (log, st) \<Rightarrow>
          (case sniff_loop lib fuel ps st of
             Returned (log', st) \<Rightarrow> Returned (log @ log', st) | Faulted \<Rightarrow> Faulted | Running \<Rightarrow> Running)
      | Faulted \<Rightarrow> Faulted
      | Running \<Rightarrow> Running)"

subsection \<open>The program\<close>

text \<open>
  What the program finds: its input, the file, the devices, the memory \<open>malloc\<close> and the stack hold,
  what the two calls of \<open>realloc\<close> do, whether \<open>delete[]\<close> accepts a block of \<open>malloc\<close>, and the
  datagrams captured, each with what the handler finds.
\<close>

record app_env =
  app_stdin :: string
  app_file :: "u8 list option"
  app_devs :: "string + pcap_if list"
  app_raw :: "u8 list"
  app_port_raw :: u16
  app_realloc :: "realloc_result \<times> realloc_result"
  app_delete :: bool
  app_packets :: "(handler_env \<times> PDU) list"

definition banner :: string where
  "banner = ''/////////////////////////////////////////////////////////'' @ nl @
    ''//::::::::::::::::::: Sniffles 0.1a ::::::::::::::::::://'' @ nl @
    ''//:::::::::::::::::::  by: dude719  ::::::::::::::::::://'' @ nl @
    ''//::::::::::::: Press any key to continue ::::::::::::://'' @ nl @
    ''/////////////////////////////////////////////////////////''"

definition device_heading :: string where
  "device_heading = ''//::::::::::::::::::::::::::::::::::::::::::::::::::::://'' @ nl @
    ''//:::::::::::::::::: Choose a device :::::::::::::::::://'' @ nl @
    ''//::::::::::::::::::::::::::::::::::::::::::::::::::::://'' @ nl"

definition port_heading :: string where
  "port_heading = ''//////////////////////////////////////////////////////////'' @ nl @
    ''/////////////// choose port to listen on: ////////////////'' @ nl @
    ''//////////////////////////////////////////////////////////'' @ nl"

text \<open>The configuration: from the file, or from the prompts.\<close>

definition choose_config :: "app_env \<Rightarrow> bool \<Rightarrow> cfg_state \<Rightarrow> bool \<Rightarrow> string \<Rightarrow>
    (memory_t \<times> memory_t \<times> pcap_if list \<times> app_event list) outcome" where
  "choose_config env bFileExisted st bSetConfig inp =
     (if bFileExisted \<and> \<not> bSetConfig then
        (case (do { d \<leftarrow> get_config_option (app_raw env) DEVICE st; p \<leftarrow> get_config_option (app_raw env) PORT st; Some (d, p) }) of
           None \<Rightarrow> Faulted
         | Some (d, p) \<Rightarrow> (let (devs, log) = create_dev_list (app_devs env) in Returned (d, p, devs, log)))
      else
        (let (devs, log) = list_all_devs (app_devs env) in
         case choose_device (length devs) 0 inp of
           Returned (devIndex, inp, log1) \<Rightarrow>
             (case choose_port (app_port_raw env) inp of
                Returned (port, _, log2) \<Rightarrow>
                  Returned (memory_ctor_int (of_nat devIndex), memory_ctor_int (ucast port), devs,
                    log @ [Out device_heading] @ log1 @ [Out port_heading] @ log2)
              | Faulted \<Rightarrow> Faulted | Running \<Rightarrow> Running)
         | Faulted \<Rightarrow> Faulted | Running \<Rightarrow> Running))"

text \<open>The filter string \<open>String("port ") + NumToStr(port).CStr()\<close>.\<close>

definition filter_string :: "int \<Rightarrow> string option" where
  "filter_string port = do {
     p \<leftarrow> String_of (Some (c_string ''port ''));
     n \<leftarrow> NumToStr port;
     s \<leftarrow> String_plus_cstr p (Some (CStr n));
     c_chars (CStr s) }"

text \<open>From the chosen configuration to the capture loop. \<open>devList[i]\<close> is not checked.\<close>

definition start_capture :: "protobuf_lib \<Rightarrow> nat \<Rightarrow> app_env \<Rightarrow> cfg_state \<Rightarrow> u8 list \<Rightarrow> memory_t \<Rightarrow> memory_t \<Rightarrow> pcap_if list \<Rightarrow> ice_static \<Rightarrow>
    (app_event list \<times> u8 list) outcome" where
  "start_capture lib fuel env st file cfg_device cfg_port devs ice =
     (case (do {
          d \<leftarrow> memory_value cfg_device;
          p \<leftarrow> memory_value cfg_port;
          device \<leftarrow> (let i = unat (d - 1) in if i < length devs then Some (devs ! i) else None);
          (st, file) \<leftarrow> save_config (fst (app_realloc env)) (snd (app_realloc env)) cfg_device cfg_port st file;
          flt \<leftarrow> filter_string (sint p);
          _ \<leftarrow> memory_free (app_delete env) cfg_device;
          _ \<leftarrow> memory_free (app_delete env) cfg_port;
          Some (device, file, flt) }) of
        None \<Rightarrow> Faulted
      | Some (device, file, flt) \<Rightarrow>
          (case sniff_loop lib fuel (app_packets env) ice of
             Returned (log, _) \<Rightarrow>
               Returned ([Out ''Listening on: ''] @ print_dev device @ [Out flt, Listen (dev_name device) flt] @ map Handled log, file)
           | Faulted \<Rightarrow> Faulted
           | Running \<Rightarrow> Running))"

definition tmain :: "protobuf_lib \<Rightarrow> nat \<Rightarrow> app_env \<Rightarrow> ice_static \<Rightarrow> (app_event list \<times> u8 list) outcome" where
  "tmain lib fuel env ice =
     (let (bFileExisted, st, file) = check_config_file (app_file env) in
      case ask_config (app_stdin env) of
        Returned (bSetConfig, inp, log1) \<Rightarrow>
          (case choose_config env bFileExisted st bSetConfig inp of
             Returned (cfg_device, cfg_port, devs, log2) \<Rightarrow>
               (case start_capture lib fuel env st file cfg_device cfg_port devs ice of
                  Returned (log3, file) \<Rightarrow>
                    Returned ([Out banner, Out (nl @ ''Use Existing Config Y or N? '')] @ log1 @ log2 @ log3, file)
                | Faulted \<Rightarrow> Faulted | Running \<Rightarrow> Running)
           | Faulted \<Rightarrow> Faulted | Running \<Rightarrow> Running)
      | Faulted \<Rightarrow> Faulted | Running \<Rightarrow> Running)"

subsection \<open>Facts\<close>











lemma choose_port_number: "fst (scan_int inp) = Some v \<Longrightarrow> choose_port raw inp = Faulted"
  by (subst choose_port.simps) (auto simp: copy_to_def split: prod.split)

lemma start_capture_default:
  "start_capture lib fuel env (fst (snd (check_config_file None))) file (memory_ctor_int d) (memory_ctor_int p) devs ice = Faulted"
  by (simp add: start_capture_def first_save_undefined Let_def)

lemma interactive_result:
  assumes "choose_config env False st b inp = Returned (cfg_device, cfg_port, devs, log)"
  shows "\<exists>d p. cfg_device = memory_ctor_int d \<and> cfg_port = memory_ctor_int p"
  using assms by (auto simp: choose_config_def split: outcome.splits prod.splits)

subsection \<open>Properties\<close>





text \<open>
  C23: The first run never captures. Without a configuration file the program ends in undefined
  behaviour or repeats a prompt forever, whatever is typed; and with a file, choosing to set the
  configuration anew and entering a device and a port is undefined behaviour too, the write of
  the port beyond its variable.
\<close>

theorem first_run_never_captures:
  shows "(app_file env = None \<longrightarrow> tmain lib fuel env ice \<in> {Faulted, Running}) \<and>
    (choose_device (length (fst (list_all_devs (app_devs env)))) 0 inp = Returned (d, inp', log) \<longrightarrow> fst (scan_int inp') = Some v \<longrightarrow>
      choose_config env existed st True inp = Faulted)"
proof (intro conjI impI)
  assume "app_file env = None"
  then have fl: "check_config_file (app_file env) = (False, fst (snd (check_config_file None)), g_default_config)"
    by (simp add: check_config_file_def file_exists_def)
  show "tmain lib fuel env ice \<in> {Faulted, Running}"
  proof (cases "ask_config (app_stdin env)")
    case (Returned r)
    obtain b rest log1 where r: "r = (b, rest, log1)" by (cases r) auto
    show ?thesis
    proof (cases "choose_config env False (fst (snd (check_config_file None))) b rest")
      case (Returned q)
      obtain cfg_device cfg_port devs log2 where q: "q = (cfg_device, cfg_port, devs, log2)" by (cases q) auto
      obtain d p where "cfg_device = memory_ctor_int d" "cfg_port = memory_ctor_int p"
        using interactive_result Returned q by blast
      then show ?thesis using Returned q r \<open>ask_config (app_stdin env) = Returned r\<close> start_capture_default
        by (simp add: tmain_def fl)
    qed (use Returned r fl in \<open>simp_all add: tmain_def\<close>)
  qed (use fl in \<open>simp_all add: tmain_def\<close>)
next
  assume "choose_device (length (fst (list_all_devs (app_devs env)))) 0 inp = Returned (d, inp', log)" "fst (scan_int inp') = Some v"
  then show "choose_config env existed st True inp = Faulted"
    by (auto simp: choose_config_def choose_port_number split: prod.split)
qed

definition sample_app :: app_env where
  "sample_app = \<lparr>app_stdin = ''n1 80'', app_file = None, app_devs = Inr [\<lparr>dev_name = ''eth0'', dev_description = ''lan'', dev_addresses = []\<rparr>],
      app_raw = [], app_port_raw = 0, app_realloc = (InPlace [], InPlace []), app_delete = True, app_packets = []\<rparr>"

theorem first_run_never_captures_witness:
  "tmain sample_lib 1 sample_app ice_static_init \<in> {Faulted, Running} \<and>
    choose_config sample_app True \<lparr>g_config = None, g_config_size = 0\<rparr> True ''1 80'' = Faulted"
proof -
  have s1: "scan_int ''1 80'' = (Some 1, '' 80'')" and s2: "scan_int '' 80'' = (Some 80, [])" by code_simp+
  have n: "length (fst (list_all_devs (app_devs sample_app))) = 1" "app_file sample_app = None" by (simp_all add: sample_app_def list_all_devs_def)
  have "choose_device 1 0 ''1 80'' = Returned (1, '' 80'', [])" by (subst choose_device.simps) (simp add: s1)
  then show ?thesis
    using first_run_never_captures [of sample_app sample_lib 1 ice_static_init "''1 80''" 1 "'' 80''" "[]" 80 True "\<lparr>g_config = None, g_config_size = 0\<rparr>"] n s2
    by simp
qed

end
